(* ===== verification/Prelude.thy ===== *)
theory Prelude
  imports
    Main
    "HOL-Library.Word"
    "HOL-Library.Char_ord"
    "HOL-Library.List_Lexorder"
    "HOL-Library.Product_Lexorder"
begin

text \<open>
  Shared vocabulary of the development: the widths of Rust's machine integers, the
  saturating and checked operations of its standard library, the iterator and string
  functions the modelled code calls, and the generic lemmas about lists and intervals
  that more than one component uses.

  A \<open>Result<T, E>\<close> is \<open>'e + 't\<close> (\<open>Inl\<close> the error), an \<open>Option<T>\<close> is \<open>'t option\<close>.
  A Rust \<open>String\<close> is the list of its UTF-8 bytes, as HOL's \<open>string\<close>; the derived order of
  strings is therefore the lexicographic order of bytes on both sides.
  An \<open>i64\<close> or \<open>i128\<close> is an \<open>int\<close>; every operation of the code that can leave the
  range of the type is written with the saturating or checked function below.
\<close>

named_theorems model_defs \<open>definitions of the one-line accessors, unfolded freely\<close>

type_synonym u8 = "8 word"
type_synonym u32 = "32 word"
type_synonym u64 = "64 word"
type_synonym u128 = "128 word"
type_synonym i64 = int
type_synonym bytes = "u8 list"

subsection \<open>Results\<close>

fun is_ok :: "'e + 'a \<Rightarrow> bool" where
  "is_ok (Inr _) = True"
| "is_ok (Inl _) = False"

text \<open>The \<open>?\<close> operator: continue with the value, or return the error.\<close>

fun and_then :: "'e + 'a \<Rightarrow> ('a \<Rightarrow> 'e + 'b) \<Rightarrow> 'e + 'b" where
  "and_then (Inl e) f = Inl e"
| "and_then (Inr x) f = f x"

lemma and_then_Inr [simp]: "and_then r f = Inr y \<longleftrightarrow> (\<exists>x. r = Inr x \<and> f x = Inr y)"
  by (cases r) auto

lemma and_then_Inl: "and_then r f = Inl e \<longleftrightarrow> r = Inl e \<or> (\<exists>x. r = Inr x \<and> f x = Inl e)"
  by (cases r) auto

subsection \<open>Saturating and checked integers\<close>

definition I64_MIN :: int where "I64_MIN = - (2 ^ 63)"
definition I64_MAX :: int where "I64_MAX = 2 ^ 63 - 1"

definition is_i64 :: "int \<Rightarrow> bool" where
  "is_i64 x \<longleftrightarrow> I64_MIN \<le> x \<and> x \<le> I64_MAX"

definition sat_i64 :: "int \<Rightarrow> int" where
  "sat_i64 x = max I64_MIN (min I64_MAX x)"

definition i64_saturating_add :: "int \<Rightarrow> int \<Rightarrow> int" where
  "i64_saturating_add a b = sat_i64 (a + b)"

definition i64_saturating_sub :: "int \<Rightarrow> int \<Rightarrow> int" where
  "i64_saturating_sub a b = sat_i64 (a - b)"

definition i64_saturating_mul :: "int \<Rightarrow> int \<Rightarrow> int" where
  "i64_saturating_mul a b = sat_i64 (a * b)"

lemmas i64_defs = I64_MIN_def I64_MAX_def is_i64_def sat_i64_def
  i64_saturating_add_def i64_saturating_sub_def i64_saturating_mul_def

lemma is_i64_sat [simp]: "is_i64 (sat_i64 x)"
  by (simp add: i64_defs)

lemma sat_i64_id [simp]: "is_i64 x \<Longrightarrow> sat_i64 x = x"
  by (simp add: i64_defs)

lemma sat_i64_mono: "x \<le> y \<Longrightarrow> sat_i64 x \<le> sat_i64 y"
  by (auto simp: sat_i64_def)

lemma is_i64_saturating [simp]:
  "is_i64 (i64_saturating_add a b)" "is_i64 (i64_saturating_sub a b)"
  "is_i64 (i64_saturating_mul a b)"
  by (simp_all add: i64_saturating_add_def i64_saturating_sub_def i64_saturating_mul_def)

text \<open>Rust's \<open>/\<close> and \<open>%\<close> on signed integers truncate towards zero.\<close>

definition rust_div :: "int \<Rightarrow> int \<Rightarrow> int" where
  "rust_div a b = sgn a * sgn b * (\<bar>a\<bar> div \<bar>b\<bar>)"

definition rust_rem :: "int \<Rightarrow> int \<Rightarrow> int" where
  "rust_rem a b = sgn a * (\<bar>a\<bar> mod \<bar>b\<bar>)"

lemma rust_div_rem: "rust_div a b * b + rust_rem a b = a"
proof -
  have "rust_div a b * b = sgn a * (\<bar>a\<bar> div \<bar>b\<bar> * \<bar>b\<bar>)"
    by (simp add: rust_div_def abs_sgn mult.commute mult.left_commute)
  then have "rust_div a b * b + rust_rem a b = sgn a * (\<bar>a\<bar> div \<bar>b\<bar> * \<bar>b\<bar> + \<bar>a\<bar> mod \<bar>b\<bar>)"
    by (simp only: rust_rem_def distrib_left)
  also have "\<dots> = a"
    by (simp add: sgn_mult_abs)
  finally show ?thesis .
qed

lemma rust_rem_0_iff: "rust_rem a b = 0 \<longleftrightarrow> b dvd a"
  by (auto simp: rust_rem_def sgn_eq_0_iff dvd_eq_mod_eq_0 [symmetric])

definition is_i128 :: "int \<Rightarrow> bool" where
  "is_i128 x \<longleftrightarrow> - (2 ^ 127) \<le> x \<and> x < 2 ^ 127"

definition checked_i128 :: "int \<Rightarrow> int option" where
  "checked_i128 x = (if is_i128 x then Some x else None)"

lemma checked_i128_Some [simp]: "checked_i128 x = Some y \<longleftrightarrow> y = x \<and> is_i128 x"
  by (auto simp: checked_i128_def)

lemma checked_i128_None [simp]: "checked_i128 x = None \<longleftrightarrow> \<not> is_i128 x"
  by (auto simp: checked_i128_def)

definition word_saturating_add :: "'a::len word \<Rightarrow> 'a word \<Rightarrow> 'a word" where
  "word_saturating_add a b =
     (if unat a + unat b < 2 ^ LENGTH('a) then a + b else - 1)"

definition word_saturating_sub :: "'a::len word \<Rightarrow> 'a word \<Rightarrow> 'a word" where
  "word_saturating_sub a b = (if b \<le> a then a - b else 0)"

definition word_saturating_mul :: "'a::len word \<Rightarrow> 'a word \<Rightarrow> 'a word" where
  "word_saturating_mul a b =
     (if unat a * unat b < 2 ^ LENGTH('a) then a * b else - 1)"

lemma unat_max_word: "unat (- 1 :: 'a::len word) = 2 ^ LENGTH('a) - 1"
  by (simp add: unsigned_minus_1_eq_mask mask_eq_exp_minus_1)

lemma unat_saturating_add:
  "unat (word_saturating_add a b) = min (unat a + unat b) (2 ^ LENGTH('a) - 1)"
  for a b :: "'a::len word"
  by (auto simp: word_saturating_add_def unat_word_ariths unat_max_word min_def)

lemma unat_saturating_sub: "unat (word_saturating_sub a b) = unat a - unat b"
  by (auto simp: word_saturating_sub_def unat_sub word_le_nat_alt)

lemma unat_saturating_mul:
  "unat (word_saturating_mul a b) = min (unat a * unat b) (2 ^ LENGTH('a) - 1)"
  for a b :: "'a::len word"
proof (cases "unat a * unat b < 2 ^ LENGTH('a)")
  case True
  then show ?thesis by (simp add: word_saturating_mul_def unat_word_ariths)
next
  case False
  then have "2 ^ LENGTH('a) - 1 \<le> unat a * unat b" by linarith
  with False show ?thesis by (simp add: word_saturating_mul_def unat_max_word min_absorb2)
qed

text \<open>A \<open>usize\<close> counter is a \<open>nat\<close>; its saturating increment stops at \<open>2^64 - 1\<close>.\<close>

definition USIZE_MAX :: nat where "USIZE_MAX = 2 ^ 64 - 1"

definition usize_saturating_add :: "nat \<Rightarrow> nat \<Rightarrow> nat" where
  "usize_saturating_add a b = min (a + b) USIZE_MAX"

definition usize_saturating_mul :: "nat \<Rightarrow> nat \<Rightarrow> nat" where
  "usize_saturating_mul a b = min (a * b) USIZE_MAX"


subsection \<open>Iterators\<close>

lemma set_map_filter: "set (List.map_filter f xs) = {y. \<exists>x \<in> set xs. f x = Some y}"
  by (induction xs) (auto simp: map_filter_simps split: option.splits)

lemma sorted_wrt_remdups_adj: "sorted xs \<Longrightarrow> sorted_wrt (<) (remdups_adj xs)" for xs :: "'a::linorder list"
proof (induction xs rule: remdups_adj.induct)
  case (3 x y xs)
  then show ?case by (cases "x = y") (auto simp: order.strict_iff_order)
qed simp_all

lemma map_filter_append [simp]: "List.map_filter f (xs @ ys) = List.map_filter f xs @ List.map_filter f ys"
  by (simp add: List.map_filter_def)

lemma map_filter_cong:
  "(\<And>x. x \<in> set xs \<Longrightarrow> f x = g x) \<Longrightarrow> List.map_filter f xs = List.map_filter g xs"
  by (induction xs) (auto simp: map_filter_simps split: option.split)

text \<open>\<open>Iterator::max_by_key\<close> keeps the last of several equal maxima.\<close>

fun max_by_key :: "('a \<Rightarrow> 'k::linorder) \<Rightarrow> 'a list \<Rightarrow> 'a option" where
  "max_by_key k [] = None"
| "max_by_key k (x # xs) =
     (case max_by_key k xs of
        None \<Rightarrow> Some x
      | Some y \<Rightarrow> if k y < k x then Some x else Some y)"

definition iter_max :: "'a::linorder list \<Rightarrow> 'a option" where
  "iter_max xs = (if xs = [] then None else Some (Max (set xs)))"

definition iter_min :: "'a::linorder list \<Rightarrow> 'a option" where
  "iter_min xs = (if xs = [] then None else Some (Min (set xs)))"

text \<open>\<open>Iterator::position\<close>: the index of the first match.\<close>

fun position :: "('a \<Rightarrow> bool) \<Rightarrow> 'a list \<Rightarrow> nat option" where
  "position P [] = None"
| "position P (x # xs) = (if P x then Some 0 else map_option Suc (position P xs))"

text \<open>\<open>Vec::remove\<close>, at an index in range.\<close>

definition remove_at :: "nat \<Rightarrow> 'a list \<Rightarrow> 'a list" where
  "remove_at i xs = take i xs @ drop (Suc i) xs"

text \<open>\<open>slice::windows(2)\<close>: the adjacent pairs.\<close>

definition windows2 :: "'a list \<Rightarrow> ('a \<times> 'a) list" where
  "windows2 xs = zip xs (tl xs)"

lemma max_by_key_None [simp]: "max_by_key k xs = None \<longleftrightarrow> xs = []"
  by (cases xs) (auto split: option.splits)

lemma max_by_key_Some:
  "max_by_key k xs = Some x \<Longrightarrow> x \<in> set xs \<and> (\<forall>y \<in> set xs. k y \<le> k x)"
proof (induction xs arbitrary: x)
  case Nil
  then show ?case by simp
next
  case (Cons a xs)
  show ?case
  proof (cases "max_by_key k xs")
    case None
    with Cons.prems show ?thesis by simp
  next
    case (Some y)
    with Cons.IH have y: "y \<in> set xs" "\<forall>z \<in> set xs. k z \<le> k y" by auto
    with Some Cons.prems show ?thesis
      by (auto split: if_splits intro: order.trans less_imp_le)
  qed
qed

lemma iter_min_eq_None [simp]: "iter_min xs = None \<longleftrightarrow> xs = []"
  by (simp add: iter_min_def)

lemma iter_min_Some: "iter_min xs = Some m \<Longrightarrow> m \<in> set xs \<and> (\<forall>x \<in> set xs. m \<le> x)"
  by (auto simp: iter_min_def split: if_splits)

lemma iter_min_Nil [simp]: "iter_min [] = None"
  by (simp add: iter_min_def)

lemma iter_min_Cons:
  "iter_min (x # xs) = Some (case iter_min xs of None \<Rightarrow> x | Some m \<Rightarrow> min x m)"
  by (auto simp: iter_min_def)

lemma iter_max_Some: "iter_max xs = Some m \<Longrightarrow> m \<in> set xs \<and> (\<forall>x \<in> set xs. x \<le> m)"
  by (auto simp: iter_max_def split: if_splits)

lemma position_Some:
  "position P xs = Some i \<Longrightarrow>
     i < length xs \<and> P (xs ! i) \<and> (\<forall>j < i. \<not> P (xs ! j))"
proof (induction xs arbitrary: i)
  case (Cons x xs)
  then show ?case
    by (cases i) (auto split: if_splits simp: less_Suc_eq_0_disj)
qed simp

lemma position_None: "position P xs = None \<longleftrightarrow> (\<forall>x \<in> set xs. \<not> P x)"
  by (induction xs) auto

lemma set_remove_at_subset: "set (remove_at i xs) \<subseteq> set xs"
  by (auto simp: remove_at_def dest: in_set_takeD in_set_dropD)

lemma length_remove_at: "i < length xs \<Longrightarrow> length (remove_at i xs) = length xs - 1"
  by (auto simp: remove_at_def)

lemma set_remove_at:
  "i < length xs \<Longrightarrow> set xs = insert (xs ! i) (set (remove_at i xs))"
  by (subst id_take_nth_drop [of i xs]) (auto simp: remove_at_def)

lemma sorted_wrt_remove_at:
  assumes "sorted_wrt R xs"
  shows "sorted_wrt R (remove_at i xs)"
proof -
  have *: "sorted_wrt R (take i xs @ drop i xs)"
    using assms by simp
  have "set (drop (Suc i) xs) \<subseteq> set (drop i xs)"
    by (rule set_drop_subset_set_drop) simp
  moreover have "sorted_wrt R (take i xs)" "sorted_wrt R (drop (Suc i) xs)"
    using assms by (auto intro: sorted_wrt_take sorted_wrt_drop)
  moreover have "\<forall>x \<in> set (take i xs). \<forall>y \<in> set (drop i xs). R x y"
    using * unfolding sorted_wrt_append by blast
  ultimately show ?thesis
    unfolding remove_at_def sorted_wrt_append by blast
qed

lemma set_remove_at_distinct:
  "distinct xs \<Longrightarrow> i < length xs \<Longrightarrow> set (remove_at i xs) = set xs - {xs ! i}"
proof -
  assume "distinct xs" "i < length xs"
  then have "distinct (take i xs @ xs ! i # drop (Suc i) xs)"
    by (simp add: id_take_nth_drop [symmetric])
  with \<open>i < length xs\<close> show ?thesis
    by (subst (2) id_take_nth_drop [of i xs]) (auto simp: remove_at_def)
qed

lemma sorted_wrt_symmetric:
  assumes "\<And>x. x \<in> set xs \<Longrightarrow> \<not> R x x" "\<And>x y. R x y = R y x"
  shows "sorted_wrt R xs \<longleftrightarrow> distinct xs \<and> (\<forall>x \<in> set xs. \<forall>y \<in> set xs. x \<noteq> y \<longrightarrow> R x y)"
  using assms(1)
proof (induction xs)
  case (Cons z zs)
  then have "sorted_wrt R zs \<longleftrightarrow> distinct zs \<and> (\<forall>x \<in> set zs. \<forall>y \<in> set zs. x \<noteq> y \<longrightarrow> R x y)"
    by simp
  with Cons.prems [of z] assms(2) show ?case by auto
qed simp

lemma sorted_wrt_distinct_map: "sorted_wrt (\<lambda>x y. f x \<noteq> f y) xs \<Longrightarrow> distinct (map f xs)"
  by (induction xs) auto

lemma find_None_iff_all: "List.find P xs = None \<longleftrightarrow> (\<forall>x \<in> set xs. \<not> P x)"
  by (auto simp: find_None_iff)

lemma find_SomeD: "List.find P xs = Some x \<Longrightarrow> x \<in> set xs \<and> P x"
  by (metis find_Some_iff nth_mem)

lemma find_unique:
  assumes "\<And>x y. x \<in> set xs \<Longrightarrow> y \<in> set xs \<Longrightarrow> P x \<Longrightarrow> P y \<Longrightarrow> x = y"
  shows "List.find P xs = Some x \<longleftrightarrow> x \<in> set xs \<and> P x"
  using assms by (induction xs) auto

subsection \<open>Text\<close>

text \<open>
  \<open>str::trim\<close> removes characters with the Unicode property \<open>White_Space\<close> from both ends.
  Over UTF-8 bytes that is: remove one of the encodings below for as long as there is one.
  The encoding is self-synchronising, so on valid UTF-8 a suffix equal to one of these
  encodings is the character.
\<close>

definition white_space :: "string list" where
  "white_space =
     map (\<lambda>b. [char_of (b::nat)]) [9, 10, 11, 12, 13, 32] @
     map (\<lambda>(a, b). [char_of (a::nat), char_of (b::nat)]) [(194, 133), (194, 160)] @
     map (\<lambda>(a, b, c). [char_of (a::nat), char_of (b::nat), char_of (c::nat)])
       ([(225, 154, 128)] @ map (\<lambda>c. (226, 128, c)) [128..<139] @
        [(226, 128, 168), (226, 128, 169), (226, 128, 175), (226, 129, 159), (227, 128, 128)])"

definition strip_one :: "string list \<Rightarrow> string \<Rightarrow> string option" where
  "strip_one ps s =
     map_option (\<lambda>p. drop (length p) s)
       (List.find (\<lambda>p. p \<noteq> [] \<and> take (length p) s = p) ps)"

lemma strip_one_shorter: "strip_one ps s = Some t \<Longrightarrow> length t < length s"
proof -
  assume "strip_one ps s = Some t"
  then obtain p where "t = drop (length p) s" "p \<noteq> []" "take (length p) s = p"
    by (auto simp: strip_one_def dest!: find_SomeD)
  then show ?thesis by (cases s) auto
qed

function strip_all :: "string list \<Rightarrow> string \<Rightarrow> string" where
  "strip_all ps s = (case strip_one ps s of None \<Rightarrow> s | Some t \<Rightarrow> strip_all ps t)"
  by pat_completeness auto
termination
  by (relation "measure (\<lambda>(ps, s). length s)") (auto dest: strip_one_shorter)

declare strip_all.simps [simp del]

definition trim_start :: "string \<Rightarrow> string" where
  "trim_start s = strip_all white_space s"

definition trim_end :: "string \<Rightarrow> string" where
  "trim_end s = rev (strip_all (map rev white_space) (rev s))"

definition trim :: "string \<Rightarrow> string" where
  "trim s = trim_end (trim_start s)"

lemma strip_all_Nil [simp]: "strip_all ps [] = []"
  by (subst strip_all.simps) (auto simp: strip_one_def split: option.splits dest!: find_SomeD)

lemma trim_Nil [simp]: "trim [] = []"
  by (simp add: trim_def trim_start_def trim_end_def)

text \<open>Text that starts and ends with a printing ASCII character is its own trim.\<close>

definition graphic :: "char \<Rightarrow> bool" where
  "graphic c \<longleftrightarrow> 33 \<le> (of_char c :: nat) \<and> (of_char c :: nat) \<le> 126"

lemma white_space_ends:
  "\<forall>p \<in> set white_space. p \<noteq> [] \<and> \<not> graphic (hd p) \<and> \<not> graphic (last p)"
  by (auto simp: white_space_def graphic_def)

lemma strip_all_graphic:
  assumes "\<forall>p \<in> set ps. p \<noteq> [] \<longrightarrow> \<not> graphic (hd p)" "s \<noteq> []" "graphic (hd s)"
  shows "strip_all ps s = s"
proof -
  have "strip_one ps s = None"
    using assms by (fastforce simp: strip_one_def find_None_iff neq_Nil_conv)
  then show ?thesis by (subst strip_all.simps) simp
qed

lemma trim_graphic:
  assumes "s \<noteq> []" "graphic (hd s)" "graphic (last s)"
  shows "trim s = s"
proof -
  have "trim_start s = s"
    unfolding trim_start_def using white_space_ends assms by (intro strip_all_graphic) auto
  moreover have "strip_all (map rev white_space) (rev s) = rev s"
    using white_space_ends assms by (intro strip_all_graphic) (auto simp: hd_rev)
  ultimately show ?thesis by (simp add: trim_def trim_end_def)
qed

lemma strip_all_keeps_graphic:
  "\<forall>p \<in> set ps. p \<noteq> [] \<longrightarrow> \<not> graphic (last p) \<Longrightarrow> s \<noteq> [] \<Longrightarrow> graphic (last s) \<Longrightarrow>
     strip_all ps s \<noteq> []"
proof (induction ps s rule: strip_all.induct)
  case (1 ps s)
  show ?case
  proof (cases "strip_one ps s")
    case None
    then show ?thesis using "1.prems" by (subst strip_all.simps) simp
  next
    case (Some t)
    then obtain p where p: "p \<in> set ps" "p \<noteq> []" "take (length p) s = p" "t = drop (length p) s"
      by (auto simp: strip_one_def dest!: find_SomeD)
    have "t \<noteq> []"
    proof
      assume "t = []"
      with p have "s = p" by (metis append_Nil2 append_take_drop_id)
      with p(1,2) "1.prems"(1,3) show False by metis
    qed
    moreover from this p have "last t = last s" by simp
    ultimately have "strip_all ps t \<noteq> []" using "1.IH" [OF Some] "1.prems" by simp
    then show ?thesis using Some by (subst strip_all.simps) simp
  qed
qed

lemma trim_starts_graphic:
  assumes "s \<noteq> []" "graphic (hd s)"
  shows "trim s \<noteq> []"
proof -
  have "trim_start s = s"
    unfolding trim_start_def using white_space_ends assms by (intro strip_all_graphic) auto
  moreover have "strip_all (map rev white_space) (rev s) \<noteq> []"
    using white_space_ends assms by (intro strip_all_keeps_graphic) (auto simp: last_rev)
  ultimately show ?thesis by (simp add: trim_def trim_end_def)
qed

text \<open>\<open>str::split_once(c)\<close>: the text before and after the first \<open>c\<close>.\<close>

fun split_once :: "char \<Rightarrow> string \<Rightarrow> (string \<times> string) option" where
  "split_once c [] = None"
| "split_once c (x # xs) =
     (if x = c then Some ([], xs)
      else map_option (\<lambda>(a, b). (x # a, b)) (split_once c xs))"

lemma split_once_append [simp]:
  "c \<notin> set a \<Longrightarrow> split_once c (a @ c # b) = Some (a, b)"
  by (induction a) auto

text \<open>\<open>str::strip_prefix\<close>, \<open>str::strip_suffix\<close>.\<close>

definition strip_prefix :: "string \<Rightarrow> string \<Rightarrow> string option" where
  "strip_prefix pre s = (if take (length pre) s = pre then Some (drop (length pre) s) else None)"

definition strip_suffix :: "string \<Rightarrow> string \<Rightarrow> string option" where
  "strip_suffix suf s =
     (if length suf \<le> length s \<and> drop (length s - length suf) s = suf
      then Some (take (length s - length suf) s) else None)"

lemma strip_suffix_append [simp]: "strip_suffix suf (s @ suf) = Some s"
  by (simp add: strip_suffix_def)

text \<open>\<open>str::split(c)\<close>: the pieces between the separators, one more than there are separators.\<close>

fun split_on :: "char \<Rightarrow> string \<Rightarrow> string list" where
  "split_on c [] = [[]]"
| "split_on c (x # xs) =
     (if x = c then [] # split_on c xs
      else (case split_on c xs of [] \<Rightarrow> [[x]] | p # ps \<Rightarrow> (x # p) # ps))"

lemma split_on_nonempty [simp]: "split_on c s \<noteq> []"
  by (induction s) (auto split: list.splits)

lemma split_on_no_sep: "c \<notin> set s \<Longrightarrow> split_on c s = [s]"
  by (induction s) auto

lemma split_on_append:
  "c \<notin> set a \<Longrightarrow> split_on c (a @ c # b) = a # split_on c b"
  by (induction a) auto


definition newline :: char where "newline = CHR 0x0A"

definition carriage_return :: char where "carriage_return = CHR 0x0D"

text \<open>\<open>str::lines\<close> and \<open>BufRead::lines\<close>: a line that ends in CR LF loses both, a last line without an end is one too.\<close>

definition strip_cr :: "string \<Rightarrow> string" where
  "strip_cr l = (if l \<noteq> [] \<and> last l = carriage_return then butlast l else l)"

definition lines_of :: "string \<Rightarrow> string list" where
  "lines_of s =
     (let ps = split_on newline s
      in map strip_cr (butlast ps) @ (if last ps = [] then [] else [last ps]))"

definition unended :: "string \<Rightarrow> bool" where
  "unended l \<longleftrightarrow> newline \<notin> set l \<and> (l \<noteq> [] \<longrightarrow> last l \<noteq> carriage_return)"

lemma lines_of_text:
  assumes "\<forall>l \<in> set ls. unended l" "newline \<notin> set rest"
  shows "lines_of (concat (map (\<lambda>l. l @ [newline]) ls) @ rest) = ls @ (if rest = [] then [] else [rest])"
proof -
  have "split_on newline (concat (map (\<lambda>l. l @ [newline]) ls) @ rest) = ls @ [rest]"
    using assms by (induction ls) (simp_all add: split_on_no_sep split_on_append unended_def)
  moreover have "map strip_cr ls = ls"
    using assms(1) by (intro map_idI) (auto simp: unended_def strip_cr_def)
  ultimately show ?thesis by (simp add: lines_of_def)
qed

text \<open>\<open>[String]::join(sep)\<close>.\<close>

fun join :: "string \<Rightarrow> string list \<Rightarrow> string" where
  "join sep [] = []"
| "join sep [x] = x"
| "join sep (x # y # ys) = x @ sep @ join sep (y # ys)"

lemma split_on_join:
  "xs \<noteq> [] \<Longrightarrow> \<forall>x \<in> set xs. c \<notin> set x \<Longrightarrow> split_on c (join [c] xs) = xs"
  by (induction "[c]" xs rule: join.induct) (auto simp: split_on_no_sep split_on_append)

subsection \<open>Intervals\<close>

text \<open>
  What the code relies on when it keeps intervals apart: the overlap test is exact. Every
  interval type of the program gives it, with its own notion of a point and of a proper
  interval.
\<close>

locale interval_family =
  fixes contains :: "'i \<Rightarrow> 'p \<Rightarrow> bool"
    and overlaps :: "'i \<Rightarrow> 'i \<Rightarrow> bool"
    and proper :: "'i \<Rightarrow> bool"
  assumes overlaps_iff:
    "proper i \<Longrightarrow> proper j \<Longrightarrow> overlaps i j \<longleftrightarrow> (\<exists>p. contains i p \<and> contains j p)"
begin

lemma overlaps_commute: "proper i \<Longrightarrow> proper j \<Longrightarrow> overlaps i j = overlaps j i"
  by (auto simp: overlaps_iff)

lemma apart_unique:
  assumes "sorted_wrt (\<lambda>x y. \<not> overlaps (f x) (f y)) xs"
    and "\<forall>x \<in> set xs. proper (f x)"
    and "x \<in> set xs" "y \<in> set xs" "contains (f x) p" "contains (f y) p"
  shows "x = y"
  using assms
proof (induction xs)
  case (Cons z zs)
  then show ?case
    by (auto simp: overlaps_iff)
qed simp

lemma apart_find:
  assumes "sorted_wrt (\<lambda>x y. \<not> overlaps (f x) (f y)) xs"
    and "\<forall>x \<in> set xs. proper (f x)"
  shows "List.find (\<lambda>x. contains (f x) p) xs = Some x \<longleftrightarrow> x \<in> set xs \<and> contains (f x) p"
  by (rule find_unique) (rule apart_unique [OF assms])

end

subsection \<open>Transition systems\<close>

text \<open>The states a step relation can reach, and invariance by rule induction, once for all.\<close>

inductive reachable :: "('s \<Rightarrow> bool) \<Rightarrow> ('s \<Rightarrow> 's \<Rightarrow> bool) \<Rightarrow> 's \<Rightarrow> bool"
  for initial :: "'s \<Rightarrow> bool" and step :: "'s \<Rightarrow> 's \<Rightarrow> bool" where
  reach_initial: "initial s \<Longrightarrow> reachable initial step s"
| reach_step: "reachable initial step s \<Longrightarrow> step s t \<Longrightarrow> reachable initial step t"

locale transition_invariant =
  fixes initial :: "'s \<Rightarrow> bool"
    and step :: "'s \<Rightarrow> 's \<Rightarrow> bool"
    and inv :: "'s \<Rightarrow> bool"
  assumes inv_initial: "initial s \<Longrightarrow> inv s"
    and inv_step: "inv s \<Longrightarrow> step s t \<Longrightarrow> inv t"
begin

lemma reachable_inv: "reachable initial step s \<Longrightarrow> inv s"
  by (induction rule: reachable.induct) (auto intro: inv_initial inv_step)

end

end
