(* ===== verification/Positions.thy ===== *)
theory Positions
  imports Prelude
begin

text \<open>
  Log positions, half-open position ranges, table versions and validity intervals: the
  coordinates of \<^verbatim>\<open>crates/sankhya-types/src/position.rs\<close> and \<^verbatim>\<open>temporal.rs\<close>.
  \<open>Lsn\<close> and \<open>TableVersion\<close> are newtypes of \<open>u64\<close>, \<open>Timestamp\<close> of \<open>i64\<close>.
\<close>

unbundle bit_operations_syntax

type_synonym lsn = u64

definition LSN_ZERO :: lsn where "LSN_ZERO = 0"

subsection \<open>The textual form of a position\<close>

definition hex_digit :: "nat \<Rightarrow> char" where
  "hex_digit d = ''0123456789ABCDEF'' ! d"

fun hex_upper :: "nat \<Rightarrow> string" where
  "hex_upper n = (if n < 16 then [hex_digit n] else hex_upper (n div 16) @ [hex_digit (n mod 16)])"

declare hex_upper.simps [simp del]

definition hex_value :: "char \<Rightarrow> nat option" where
  "hex_value c =
     (let n = (of_char c :: nat) in
      if 48 \<le> n \<and> n \<le> 57 then Some (n - 48)
      else if 65 \<le> n \<and> n \<le> 70 then Some (n - 55)
      else if 97 \<le> n \<and> n \<le> 102 then Some (n - 87)
      else None)"

fun hex_fold :: "nat \<Rightarrow> string \<Rightarrow> nat option" where
  "hex_fold acc [] = Some acc"
| "hex_fold acc (c # cs) =
     (case hex_value c of
        None \<Rightarrow> None
      | Some d \<Rightarrow> if acc * 16 + d < 2 ^ 64 then hex_fold (acc * 16 + d) cs else None)"

text \<open>
  \<open>u64::from_str_radix(_, 16)\<close>: a leading \<open>+\<close> is accepted, an empty digit string is not,
  and a value past \<open>u64::MAX\<close> is an error.
\<close>

definition u64_from_hex :: "string \<Rightarrow> u64 option" where
  "u64_from_hex s =
     (case s of
        [] \<Rightarrow> None
      | c # cs \<Rightarrow>
          if c = CHR ''+'' then (if cs = [] then None else map_option of_nat (hex_fold 0 cs))
          else map_option of_nat (hex_fold 0 s))"

definition lsn_parse :: "string \<Rightarrow> lsn option" where
  "lsn_parse text =
     (case split_once CHR ''/'' text of
        None \<Rightarrow> None
      | Some (hi, lo) \<Rightarrow>
          (case u64_from_hex (trim hi) of
             None \<Rightarrow> None
           | Some h \<Rightarrow>
               (case u64_from_hex (trim lo) of
                  None \<Rightarrow> None
                | Some l \<Rightarrow> Some (push_bit 32 h OR l))))"

definition lsn_display :: "lsn \<Rightarrow> string" where
  "lsn_display l =
     hex_upper (unat (drop_bit 32 l)) @ ''/'' @ hex_upper (unat (l AND 0xFFFFFFFF))"

subsection \<open>Position ranges\<close>

record lsn_range =
  start_exclusive :: lsn
  end_inclusive :: lsn

definition lsn_range_new :: "lsn \<Rightarrow> lsn \<Rightarrow> lsn_range option" where
  "lsn_range_new s e =
     (if s \<le> e then Some \<lparr>start_exclusive = s, end_inclusive = e\<rparr> else None)"

definition lsn_range_up_to :: "lsn \<Rightarrow> lsn_range" where
  "lsn_range_up_to e = \<lparr>start_exclusive = LSN_ZERO, end_inclusive = e\<rparr>"

definition lsn_range_is_empty :: "lsn_range \<Rightarrow> bool" where
  "lsn_range_is_empty r \<longleftrightarrow> start_exclusive r = end_inclusive r"

definition lsn_range_contains :: "lsn_range \<Rightarrow> lsn \<Rightarrow> bool" where
  "lsn_range_contains r l \<longleftrightarrow> l > start_exclusive r \<and> l \<le> end_inclusive r"

definition lsn_range_abuts :: "lsn_range \<Rightarrow> lsn_range \<Rightarrow> bool" where
  "lsn_range_abuts r n \<longleftrightarrow> end_inclusive r = start_exclusive n"

definition lsn_range_overlaps :: "lsn_range \<Rightarrow> lsn_range \<Rightarrow> bool" where
  "lsn_range_overlaps r q \<longleftrightarrow>
     start_exclusive r < end_inclusive q \<and> start_exclusive q < end_inclusive r"

definition table_version_next :: "u64 \<Rightarrow> u64" where
  "table_version_next v = word_saturating_add v 1"

lemmas range_defs = lsn_range_new_def lsn_range_up_to_def lsn_range_is_empty_def
  lsn_range_contains_def lsn_range_abuts_def lsn_range_overlaps_def LSN_ZERO_def

text \<open>A range built by the constructor is not inverted.\<close>

definition upright :: "lsn_range \<Rightarrow> bool" where
  "upright r \<longleftrightarrow> start_exclusive r \<le> end_inclusive r"

lemma lsn_range_new_upright: "lsn_range_new s e = Some r \<Longrightarrow> upright r"
  by (auto simp: range_defs upright_def split: if_splits)

lemma lsn_range_up_to_upright [simp]: "upright (lsn_range_up_to e)"
  by (simp add: range_defs upright_def)

lemma lsn_range_is_empty_iff:
  "upright r \<Longrightarrow> lsn_range_is_empty r \<longleftrightarrow> (\<forall>l. \<not> lsn_range_contains r l)"
  by (auto simp: range_defs upright_def) (metis order.strict_iff_order order_refl)

interpretation lsn_ivl: interval_family lsn_range_contains lsn_range_overlaps
  "\<lambda>r. start_exclusive r < end_inclusive r"
proof unfold_locales
  fix i j :: lsn_range
  assume "start_exclusive i < end_inclusive i" "start_exclusive j < end_inclusive j"
  then have "lsn_range_overlaps i j \<Longrightarrow>
      lsn_range_contains i (min (end_inclusive i) (end_inclusive j)) \<and>
      lsn_range_contains j (min (end_inclusive i) (end_inclusive j))"
    by (auto simp: range_defs min_def)
  moreover have "lsn_range_contains i p \<Longrightarrow> lsn_range_contains j p \<Longrightarrow> lsn_range_overlaps i j" for p
    by (auto simp: range_defs)
  ultimately show "lsn_range_overlaps i j \<longleftrightarrow>
      (\<exists>p. lsn_range_contains i p \<and> lsn_range_contains j p)" by blast
qed

lemma abutting_ranges_partition:
  assumes "upright r" "upright q" "lsn_range_abuts r q"
  shows "(lsn_range_contains r l \<or> lsn_range_contains q l) =
           (start_exclusive r < l \<and> l \<le> end_inclusive q)"
    and "\<not> (lsn_range_contains r l \<and> lsn_range_contains q l)"
  using assms by (auto simp: range_defs upright_def)

subsection \<open>Validity intervals\<close>

record validity_interval =
  valid_from :: i64
  valid_to :: "i64 option"

definition timestamp_saturating_add_micros :: "i64 \<Rightarrow> i64 \<Rightarrow> i64" where
  "timestamp_saturating_add_micros t d = i64_saturating_add t d"

definition validity_new :: "i64 \<Rightarrow> i64 option \<Rightarrow> validity_interval option" where
  "validity_new f t =
     (case t of
        Some t' \<Rightarrow> if t' < f then None else Some \<lparr>valid_from = f, valid_to = t\<rparr>
      | None \<Rightarrow> Some \<lparr>valid_from = f, valid_to = t\<rparr>)"

definition validity_contains :: "validity_interval \<Rightarrow> i64 \<Rightarrow> bool" where
  "validity_contains v a \<longleftrightarrow>
     a \<ge> valid_from v \<and> (case valid_to v of None \<Rightarrow> True | Some t \<Rightarrow> a < t)"

definition validity_live_at_or_after :: "validity_interval \<Rightarrow> i64 \<Rightarrow> bool" where
  "validity_live_at_or_after v a \<longleftrightarrow> (case valid_to v of None \<Rightarrow> True | Some t \<Rightarrow> t > a)"

lemma validity_new_ordered:
  "validity_new f t = Some v \<Longrightarrow> valid_to v = Some u \<Longrightarrow> valid_from v \<le> u"
  by (auto simp: validity_new_def split: option.splits if_splits)

subsection \<open>Facts about the textual form\<close>

lemma hex_value_digit: "d < 16 \<Longrightarrow> hex_value (hex_digit d) = Some d"
proof -
  have "\<forall>d \<in> set [0..<16]. hex_value (hex_digit d) = Some d" by code_simp
  then show "d < 16 \<Longrightarrow> hex_value (hex_digit d) = Some d" by auto
qed

lemma hex_fold_append:
  "hex_fold acc (xs @ ys) = (case hex_fold acc xs of None \<Rightarrow> None | Some a \<Rightarrow> hex_fold a ys)"
  by (induction xs arbitrary: acc) (auto split: option.splits)

lemma hex_fold_upper: "n < 2 ^ 64 \<Longrightarrow> hex_fold 0 (hex_upper n) = Some n"
proof (induction n rule: hex_upper.induct)
  case (1 n)
  show ?case
  proof (cases "n < 16")
    case True
    then show ?thesis by (subst hex_upper.simps) (simp add: hex_value_digit)
  next
    case False
    then have IH: "hex_fold 0 (hex_upper (n div 16)) = Some (n div 16)"
      using 1 by simp
    have "n div 16 * 16 + n mod 16 = n" by simp
    with False IH 1(2) show ?thesis
      by (subst hex_upper.simps) (simp add: hex_fold_append hex_value_digit)
  qed
qed

lemma hex_digit_graphic: "d < 16 \<Longrightarrow> graphic (hex_digit d) \<and> hex_digit d \<noteq> CHR ''/'' \<and> hex_digit d \<noteq> CHR ''+''"
proof -
  have "\<forall>d \<in> set [0..<16]. graphic (hex_digit d) \<and> hex_digit d \<noteq> CHR ''/'' \<and> hex_digit d \<noteq> CHR ''+''"
    by code_simp
  then show "d < 16 \<Longrightarrow> ?thesis" by auto
qed

lemma hex_upper_chars:
  "hex_upper n \<noteq> [] \<and> (\<forall>c \<in> set (hex_upper n). graphic c \<and> c \<noteq> CHR ''/'' \<and> c \<noteq> CHR ''+'')"
proof (induction n rule: hex_upper.induct)
  case (1 n)
  then show ?case
    by (subst (1 2) hex_upper.simps) (auto simp: hex_digit_graphic)
qed

lemma u64_from_hex_upper:
  assumes "n < 2 ^ 64"
  shows "u64_from_hex (trim (hex_upper n)) = Some (of_nat n)"
proof -
  have "trim (hex_upper n) = hex_upper n"
    using hex_upper_chars [of n] by (intro trim_graphic) auto
  with hex_fold_upper [OF assms] hex_upper_chars [of n] show ?thesis
    by (cases "hex_upper n") (auto simp: u64_from_hex_def)
qed

lemma split_halves: "push_bit 32 (drop_bit 32 l) OR (l AND 0xFFFFFFFF) = (l :: u64)"
proof -
  have "l AND 0xFFFFFFFF = take_bit 32 l"
    by (simp add: take_bit_eq_mask mask_eq_exp_minus_1)
  moreover have "push_bit 32 (drop_bit 32 l) OR take_bit 32 l = l"
    by (rule bit_word_eqI) (auto simp: bit_simps)
  ultimately show ?thesis by simp
qed

lemma lsn_parse_lsn_display: "lsn_parse (lsn_display l) = Some l"
proof -
  define h where "h = (drop_bit 32 l :: u64)"
  define w where "w = (l AND 0xFFFFFFFF :: u64)"
  have hi: "unat h < 2 ^ 64" and lo: "unat w < 2 ^ 64"
    using unsigned_less [of h] unsigned_less [of w] by simp_all
  have "CHR ''/'' \<notin> set (hex_upper (unat h))"
    using hex_upper_chars [of "unat h"] by auto
  then have "split_once CHR ''/'' (hex_upper (unat h) @ CHR ''/'' # hex_upper (unat w)) =
      Some (hex_upper (unat h), hex_upper (unat w))"
    by (rule split_once_append)
  moreover have "push_bit 32 h OR w = l"
    unfolding h_def w_def by (rule split_halves)
  ultimately show ?thesis
    by (simp add: lsn_parse_def lsn_display_def u64_from_hex_upper [OF hi]
        u64_from_hex_upper [OF lo] flip: h_def w_def)
qed

end
