(* ===== verification/Ordered_Maps.thy ===== *)
theory Ordered_Maps
  imports Prelude
begin

text \<open>
  \<open>BTreeMap\<close>: an association list in key order. Looking up is \<open>map_of\<close>, inserting replaces the
  value of a key that is there, and iteration is the list.
\<close>

fun bt_insert :: "'k::linorder \<Rightarrow> 'v \<Rightarrow> ('k \<times> 'v) list \<Rightarrow> ('k \<times> 'v) list" where
  "bt_insert k v [] = [(k, v)]"
| "bt_insert k v ((l, u) # t) =
     (if k < l then (k, v) # (l, u) # t else if k = l then (k, v) # t else (l, u) # bt_insert k v t)"

definition bt_ordered :: "('k::linorder \<times> 'v) list \<Rightarrow> bool" where
  "bt_ordered t \<longleftrightarrow> sorted_wrt (<) (map fst t)"

lemma bt_ordered_simps [simp]:
  "bt_ordered []"
  "bt_ordered ((k, v) # t) \<longleftrightarrow> (\<forall>(l, u) \<in> set t. k < l) \<and> bt_ordered t"
  by (auto simp: bt_ordered_def)

lemma bt_insert_keys: "sorted_wrt (<) (map fst t) \<Longrightarrow> sorted_wrt (<) (map fst (bt_insert k v t))"
proof -
  have keys: "set (map fst (bt_insert k v t)) \<subseteq> insert k (set (map fst t))" for t :: "('k :: linorder \<times> 'v) list" and k v
    by (induction k v t rule: bt_insert.induct) auto
  show "sorted_wrt (<) (map fst t) \<Longrightarrow> sorted_wrt (<) (map fst (bt_insert k v t))"
  proof (induction k v t rule: bt_insert.induct)
    case (2 k v l u t)
    then show ?case using keys [of k v t] by fastforce
  qed simp
qed

lemma bt_insert_set: "set (bt_insert k v t) \<subseteq> insert (k, v) (set t)"
  by (induction k v t rule: bt_insert.induct) auto

lemma bt_insert_fst [simp]: "fst ` set (bt_insert k v t) = insert k (fst ` set t)"
  by (induction k v t rule: bt_insert.induct) auto

lemma bt_ordered_insert [simp, intro]: "bt_ordered t \<Longrightarrow> bt_ordered (bt_insert k v t)"
  by (simp add: bt_ordered_def bt_insert_keys)

lemma map_of_bt_insert [simp]:
  "bt_ordered t \<Longrightarrow> map_of (bt_insert k v t) = (map_of t)(k \<mapsto> v)"
proof (induction k v t rule: bt_insert.induct)
  case (2 k v l u t)
  have "k < l \<Longrightarrow> map_of t k = None" if "bt_ordered ((l, u) # t)" for k
    using that by (auto simp: map_of_eq_None_iff)
  with 2 show ?case by (auto simp: fun_eq_iff)
qed simp

lemma bt_ordered_distinct: "bt_ordered t \<Longrightarrow> distinct (map fst t)"
  by (simp add: bt_ordered_def strict_sorted_iff)

lemma bt_set: "bt_ordered t \<Longrightarrow> (k, v) \<in> set t \<longleftrightarrow> map_of t k = Some v"
  by (metis bt_ordered_distinct map_of_eq_Some_iff)

text \<open>Inserting entries with distinct keys into the empty map keeps exactly these entries.\<close>

definition bt_insert_all :: "('k::linorder \<times> 'v) list \<Rightarrow> ('k \<times> 'v) list \<Rightarrow> ('k \<times> 'v) list" where
  "bt_insert_all kvs t = fold (\<lambda>(k, v). bt_insert k v) kvs t"

lemma bt_insert_all_simps [simp]:
  "bt_insert_all [] t = t"
  "bt_insert_all ((k, v) # kvs) t = bt_insert_all kvs (bt_insert k v t)"
  by (simp_all add: bt_insert_all_def)

lemma bt_ordered_insert_all [simp, intro]: "bt_ordered t \<Longrightarrow> bt_ordered (bt_insert_all kvs t)"
  by (induction kvs arbitrary: t) auto

lemma map_of_bt_insert_all:
  "bt_ordered t \<Longrightarrow> distinct (map fst kvs) \<Longrightarrow> map_of (bt_insert_all kvs t) = map_of t ++ map_of kvs"
proof (induction kvs arbitrary: t)
  case (Cons kv kvs)
  obtain k v where kv: "kv = (k, v)" by (cases kv)
  have new: "map_of kvs k = None" using Cons.prems kv by (simp add: map_of_eq_None_iff)
  have "map_of (bt_insert_all (kv # kvs) t) = (map_of t)(k \<mapsto> v) ++ map_of kvs"
    using Cons.IH [of "bt_insert k v t"] Cons.prems kv by (simp del: fun_upd_apply)
  also have "\<dots> = map_of t ++ map_of (kv # kvs)"
    using new kv by (auto simp: fun_eq_iff map_add_def split: option.split)
  finally show ?case .
qed simp

lemma set_bt_insert_all:
  assumes "distinct (map fst kvs)"
  shows "set (bt_insert_all kvs []) = set kvs"
proof -
  have o: "bt_ordered (bt_insert_all kvs [])" by (simp add: bt_ordered_insert_all)
  have m: "map_of (bt_insert_all kvs []) = map_of kvs"
    using map_of_bt_insert_all [of "[]" kvs] assms by simp
  have "(k, v) \<in> set (bt_insert_all kvs []) \<longleftrightarrow> (k, v) \<in> set kvs" for k v
    by (metis assms bt_set m map_of_eq_Some_iff o)
  then show ?thesis by auto
qed

end
