(* ===== verification/Codes.thy ===== *)
theory Codes
  imports Prelude
begin

text \<open>
  Byte encodings the program hashes: big-endian integers, length-prefixed strings, and the
  law they share. A code is self-delimiting when no encoding is a proper prefix of another's
  continuation; concatenations of such encodings can be read back in one way only, up to the \<open>view\<close>
  of the encoded thing that the code keeps. Every code
  of the program that feeds a digest is shown to be one, by interpretation.
\<close>

definition bytes_of :: "string \<Rightarrow> bytes" where
  "bytes_of s = map (\<lambda>c. of_nat (of_char c)) s"

lemma length_bytes_of [simp]: "length (bytes_of s) = length s"
  by (simp add: bytes_of_def)

lemma bytes_of_inj: "bytes_of s = bytes_of t \<longleftrightarrow> s = t"
proof -
  have "inj (\<lambda>c :: char. of_nat (of_char c) :: u8)"
  proof (rule injI)
    fix c d :: char
    assume "(of_nat (of_char c) :: u8) = of_nat (of_char d)"
    then have "unat (of_nat (of_char c) :: u8) = unat (of_nat (of_char d) :: u8)" by simp
    then show "c = d" by (simp add: unat_of_nat)
  qed
  then show ?thesis by (simp add: bytes_of_def inj_map_eq_map)
qed

text \<open>Lower-case hexadecimal, two digits a byte.\<close>

definition hex_nibble :: "nat \<Rightarrow> char" where
  "hex_nibble d = ''0123456789abcdef'' ! d"

definition hex_of :: "bytes \<Rightarrow> string" where
  "hex_of bs = concat (map (\<lambda>b. [hex_nibble (unat b div 16), hex_nibble (unat b mod 16)]) bs)"

lemma hex_nibble_inj: "d < 16 \<Longrightarrow> e < 16 \<Longrightarrow> hex_nibble d = hex_nibble e \<Longrightarrow> d = e"
proof -
  have "\<forall>d \<in> set [0..<16]. \<forall>e \<in> set [0..<16]. hex_nibble d = hex_nibble e \<longrightarrow> d = e" by code_simp
  then show "d < 16 \<Longrightarrow> e < 16 \<Longrightarrow> hex_nibble d = hex_nibble e \<Longrightarrow> d = e" by simp
qed

lemma hex_of_inj: "hex_of xs = hex_of ys \<Longrightarrow> xs = ys"
proof (induction xs arbitrary: ys)
  case Nil
  then show ?case by (cases ys) (auto simp: hex_of_def)
next
  case (Cons x xs)
  then obtain y zs where ys: "ys = y # zs" by (cases ys) (auto simp: hex_of_def)
  have lt: "unat (b :: u8) < 256" for b using unsigned_less [of b, where ?'a = nat] by simp
  from Cons.prems ys have "hex_nibble (unat x div 16) = hex_nibble (unat y div 16)"
    "hex_nibble (unat x mod 16) = hex_nibble (unat y mod 16)" "hex_of xs = hex_of zs"
    by (simp_all add: hex_of_def)
  with lt [of x] lt [of y] have "unat x div 16 = unat y div 16" "unat x mod 16 = unat y mod 16"
    by (auto intro!: hex_nibble_inj)
  then have "unat x = unat y" by (metis div_mult_mod_eq)
  then have "x = y" by (simp add: word_unat_eq_iff)
  moreover have "xs = zs" by (rule Cons.IH) fact
  ultimately show ?case using ys by simp
qed

fun be_nat :: "nat \<Rightarrow> nat \<Rightarrow> bytes" where
  "be_nat 0 n = []"
| "be_nat (Suc k) n = be_nat k (n div 256) @ [of_nat (n mod 256)]"

text \<open>\<open>to_be_bytes\<close> of an integer of the width of the word.\<close>

definition be_bytes :: "'a::len word \<Rightarrow> bytes" where
  "be_bytes w = be_nat (LENGTH('a) div 8) (unat w)"

text \<open>
  A length-prefixed byte string. The length of a vector is a \<open>usize\<close>, which \<open>u64\<close> holds; a
  conversion that fails saturates, in the code as here.
\<close>

definition u64_of_len :: "nat \<Rightarrow> u64" where
  "u64_of_len n = (if n < 2 ^ 64 then of_nat n else - 1)"

definition prefixed :: "bytes \<Rightarrow> bytes" where
  "prefixed bs = be_bytes (u64_of_len (length bs)) @ bs"

subsection \<open>Self-delimiting codes\<close>

locale prefix_code =
  fixes enc :: "'a \<Rightarrow> bytes"
    and view :: "'a \<Rightarrow> 'b"
    and valid :: "'a \<Rightarrow> bool"
  assumes delimits: "valid x \<Longrightarrow> valid y \<Longrightarrow> enc x @ r = enc y @ s \<Longrightarrow> view x = view y \<and> r = s"
    and nonempty: "valid x \<Longrightarrow> enc x \<noteq> []"
begin

lemma inj: "valid x \<Longrightarrow> valid y \<Longrightarrow> enc x = enc y \<Longrightarrow> view x = view y"
  using delimits [of x y "[]" "[]"] by auto

lemma concat_delimits:
  "length xs = length ys \<Longrightarrow> \<forall>x \<in> set xs. valid x \<Longrightarrow> \<forall>y \<in> set ys. valid y \<Longrightarrow>
     concat (map enc xs) @ r = concat (map enc ys) @ s \<Longrightarrow> map view xs = map view ys \<and> r = s"
proof (induction xs ys rule: list_induct2)
  case (Cons x xs y ys)
  then show ?case
    using delimits [of x y "concat (map enc xs) @ r" "concat (map enc ys) @ s"] by simp
qed simp

lemma concat_inj:
  "\<forall>x \<in> set xs. valid x \<Longrightarrow> \<forall>y \<in> set ys. valid y \<Longrightarrow>
     concat (map enc xs) = concat (map enc ys) \<Longrightarrow> map view xs = map view ys"
proof (induction xs arbitrary: ys)
  case Nil
  then show ?case using nonempty by (cases ys) auto
next
  case (Cons x xs)
  show ?case
  proof (cases ys)
    case Nil
    with Cons.prems nonempty show ?thesis by auto
  next
    case (Cons y zs)
    with Cons.prems have "view x = view y \<and> concat (map enc xs) = concat (map enc zs)"
      using delimits [of x y "concat (map enc xs)" "concat (map enc zs)"] by simp
    with Cons.IH [of zs] Cons.prems Cons show ?thesis by simp
  qed
qed

end

lemma length_be_nat [simp]: "length (be_nat k n) = k"
  by (induction k arbitrary: n) auto

lemma be_nat_inj: "m < 256 ^ k \<Longrightarrow> n < 256 ^ k \<Longrightarrow> be_nat k m = be_nat k n \<Longrightarrow> m = n"
proof (induction k arbitrary: m n)
  case (Suc k)
  have "of_nat (m mod 256) = (of_nat (n mod 256) :: u8)" and t: "be_nat k (m div 256) = be_nat k (n div 256)"
    using Suc.prems by auto
  then have "unat (of_nat (m mod 256) :: u8) = unat (of_nat (n mod 256) :: u8)" by simp
  then have "m mod 256 = n mod 256"
    by (simp add: unat_of_nat)
  moreover have "m div 256 = n div 256"
    using Suc.prems t by (intro Suc.IH) auto
  ultimately show ?case by (metis div_mult_mod_eq)
qed simp

lemma length_be_bytes [simp]: "length (be_bytes (w :: 'a::len word)) = LENGTH('a) div 8"
  by (simp add: be_bytes_def)

lemma be_bytes_inj:
  fixes v w :: "'a::len word"
  assumes "8 dvd LENGTH('a)"
  shows "be_bytes v = be_bytes w \<longleftrightarrow> v = w"
proof -
  obtain k where k: "LENGTH('a) = 8 * k" using assms by (elim dvdE)
  have "unat x < 256 ^ k" for x :: "'a word"
    using unsigned_less [of x, where ?'a = nat] k by (simp add: power_mult)
  then show ?thesis
    using be_nat_inj [of "unat v" k "unat w"] k by (auto simp: be_bytes_def dest: word_unat_eq_iff [THEN iffD2])
qed

lemma be_bytes_delimits:
  fixes v w :: "'a::len word"
  assumes "8 dvd LENGTH('a)"
  shows "be_bytes v @ r = be_bytes w @ s \<longleftrightarrow> v = w \<and> r = s"
  using be_bytes_inj [OF assms] by auto

interpretation be64: prefix_code "be_bytes :: u64 \<Rightarrow> bytes" "\<lambda>w. w" "\<lambda>_. True"
proof unfold_locales
  show "be_bytes w \<noteq> []" for w :: u64
    using length_be_bytes [of w] by (cases "be_bytes w") auto
qed (simp_all add: be_bytes_delimits be_bytes_inj)

definition fits :: "'a list \<Rightarrow> bool" where
  "fits bs \<longleftrightarrow> length bs < 2 ^ 64"

lemma unat_u64_of_len: "unat (u64_of_len n) = min n (2 ^ 64 - 1)"
proof (cases "n < 2 ^ 64")
  case True
  then have "unat (of_nat n :: u64) = n" by (simp add: unat_of_nat take_bit_nat_eq_self)
  with True show ?thesis by (simp only: u64_of_len_def if_True)
next
  case False
  then show ?thesis using unat_max_word [where ?'a = 64] by (simp add: u64_of_len_def min_def)
qed

lemma u64_of_len_0 [simp]: "u64_of_len 0 = 0"
  by (simp add: u64_of_len_def)

lemma saturating_lengths: "word_saturating_add (u64_of_len m) (u64_of_len n) = u64_of_len (m + n)"
proof -
  have "unat (word_saturating_add (u64_of_len m) (u64_of_len n)) = unat (u64_of_len (m + n))"
    unfolding unat_saturating_add unat_u64_of_len by simp
  then show ?thesis by (simp only: word_unat_eq_iff)
qed

lemma saturating_Suc: "word_saturating_add (u64_of_len n) 1 = u64_of_len (Suc n)"
proof -
  have "u64_of_len 1 = 1" by (simp add: u64_of_len_def)
  with saturating_lengths [of n 1] show ?thesis by simp
qed

lemma u64_of_len_less: "m < 2 ^ 64 \<Longrightarrow> n < 2 ^ 64 \<Longrightarrow> u64_of_len m < u64_of_len n \<longleftrightarrow> m < n"
  unfolding word_less_nat_alt unat_u64_of_len by auto

lemma u64_of_len_inj: "m < 2 ^ 64 \<Longrightarrow> n < 2 ^ 64 \<Longrightarrow> u64_of_len m = u64_of_len n \<longleftrightarrow> m = n"
  by (auto simp: u64_of_len_def dest!: arg_cong [where f = unat] simp: unat_of_nat)

interpretation prefixed: prefix_code prefixed "\<lambda>bs. bs" fits
proof unfold_locales
  fix x y r s :: bytes
  assume "fits x" "fits y" and eq: "prefixed x @ r = prefixed y @ s"
  then have "length x = length y"
    by (auto simp: prefixed_def fits_def be_bytes_delimits be_bytes_inj u64_of_len_inj)
  with eq show "x = y \<and> r = s"
    by (simp add: prefixed_def be_bytes_delimits)
qed (simp add: prefixed_def be64.nonempty)

end
