(* ===== verification/Decimal.thy ===== *)
theory Decimal
  imports Prelude
begin

text \<open>
  Decimal text of integers, as Rust's \<open>Display\<close> prints it and \<open>str::parse\<close> reads it: parsing
  takes an optional sign (a minus only for signed types), at least one digit, no other
  character, and fails past the range of the type.
\<close>

definition digit_char :: "nat \<Rightarrow> char" where
  "digit_char d = ''0123456789'' ! d"

fun show_nat :: "nat \<Rightarrow> string" where
  "show_nat n = (if n < 10 then [digit_char n] else show_nat (n div 10) @ [digit_char (n mod 10)])"

declare show_nat.simps [simp del]

definition show_int :: "int \<Rightarrow> string" where
  "show_int x = (if x < 0 then CHR ''-'' # show_nat (nat (- x)) else show_nat (nat x))"

text \<open>\<open>{n:0w}\<close>: zeroes up to a width that counts the sign.\<close>

definition pad_nat :: "nat \<Rightarrow> nat \<Rightarrow> string" where
  "pad_nat w n = replicate (w - length (show_nat n)) CHR ''0'' @ show_nat n"

definition pad_int :: "nat \<Rightarrow> int \<Rightarrow> string" where
  "pad_int w x = (if x < 0 then CHR ''-'' # pad_nat (w - 1) (nat (- x)) else pad_nat w (nat x))"

definition digit_value :: "char \<Rightarrow> nat option" where
  "digit_value c =
     (let n = (of_char c :: nat) in if 48 \<le> n \<and> n \<le> 57 then Some (n - 48) else None)"

fun digits_value :: "nat \<Rightarrow> string \<Rightarrow> nat option" where
  "digits_value acc [] = Some acc"
| "digits_value acc (c # cs) =
     (case digit_value c of None \<Rightarrow> None | Some d \<Rightarrow> digits_value (acc * 10 + d) cs)"

definition parse_nat :: "string \<Rightarrow> nat option" where
  "parse_nat s = (if s = [] then None else digits_value 0 s)"

text \<open>
  \<open>parse::<i64>\<close>. The library stops at the first step that leaves the range; a decimal
  prefix only grows, so that is when the whole value leaves it.
\<close>

definition parse_i64 :: "string \<Rightarrow> i64 option" where
  "parse_i64 s =
     (let r = (case s of
                 [] \<Rightarrow> None
               | c # cs \<Rightarrow>
                   if c = CHR ''-'' then map_option (\<lambda>n. - int n) (parse_nat cs)
                   else if c = CHR ''+'' then map_option int (parse_nat cs)
                   else map_option int (parse_nat s))
      in (case r of None \<Rightarrow> None | Some x \<Rightarrow> if is_i64 x then Some x else None))"

definition parse_u64 :: "string \<Rightarrow> u64 option" where
  "parse_u64 s =
     (let r = (case s of
                 [] \<Rightarrow> None
               | c # cs \<Rightarrow> if c = CHR ''+'' then parse_nat cs else parse_nat s)
      in (case r of None \<Rightarrow> None | Some n \<Rightarrow> if n < 2 ^ 64 then Some (of_nat n) else None))"

definition is_digit :: "char \<Rightarrow> bool" where
  "is_digit c \<longleftrightarrow> 48 \<le> (of_char c :: nat) \<and> (of_char c :: nat) \<le> 57"

lemma digit_char_value: "d < 10 \<Longrightarrow> digit_value (digit_char d) = Some d \<and> is_digit (digit_char d)"
proof -
  have "\<forall>d \<in> set [0..<10]. digit_value (digit_char d) = Some d \<and> is_digit (digit_char d)" by code_simp
  then show "d < 10 \<Longrightarrow> ?thesis" by auto
qed

lemma digits_value_append:
  "digits_value acc (xs @ ys) = (case digits_value acc xs of None \<Rightarrow> None | Some a \<Rightarrow> digits_value a ys)"
  by (induction xs arbitrary: acc) (auto split: option.splits)

lemma digits_value_show: "digits_value 0 (show_nat n) = Some n"
proof (induction n rule: show_nat.induct)
  case (1 n)
  show ?case
  proof (cases "n < 10")
    case True
    then show ?thesis by (subst show_nat.simps) (simp add: digit_char_value)
  next
    case False
    with 1 have "digits_value 0 (show_nat (n div 10)) = Some (n div 10)" by simp
    with False show ?thesis
      by (subst show_nat.simps) (simp add: digits_value_append digit_char_value)
  qed
qed

lemma digits_value_zeroes: "digits_value 0 (replicate k CHR ''0'' @ s) = digits_value 0 s"
  by (induction k) (auto simp: digit_value_def)

lemma digits_value_pad: "digits_value 0 (pad_nat w n) = Some n"
  by (simp add: pad_nat_def digits_value_zeroes digits_value_show)

lemma pad_nat_inj: "pad_nat w m = pad_nat w n \<Longrightarrow> m = n"
  by (metis digits_value_pad option.inject)

lemma show_nat_chars: "show_nat n \<noteq> [] \<and> (\<forall>c \<in> set (show_nat n). is_digit c)"
proof (induction n rule: show_nat.induct)
  case (1 n)
  then show ?case
    by (subst (1 2) show_nat.simps) (auto simp: digit_char_value)
qed

lemma parse_show_nat: "parse_nat (show_nat n) = Some n"
  using show_nat_chars [of n] by (simp add: parse_nat_def digits_value_show)

lemma is_digit_plain: "is_digit c \<Longrightarrow> c \<noteq> CHR ''-'' \<and> c \<noteq> CHR ''+'' \<and> graphic c"
proof -
  assume d: "is_digit c"
  have "\<not> is_digit CHR ''-''" "\<not> is_digit CHR ''+''" by (simp_all add: is_digit_def)
  with d have "c \<noteq> CHR ''-''" "c \<noteq> CHR ''+''" by metis+
  moreover have "graphic c" using d unfolding is_digit_def graphic_def by linarith
  ultimately show ?thesis by simp
qed

lemma show_int_chars:
  "show_int x \<noteq> [] \<and> (\<forall>c \<in> set (show_int x). is_digit c \<or> c = CHR ''-'')"
  using show_nat_chars by (auto simp: show_int_def)

lemma show_int_graphic: "show_int x \<noteq> [] \<and> (\<forall>c \<in> set (show_int x). graphic c)"
proof -
  have "graphic CHR ''-''" by (simp add: graphic_def)
  then show ?thesis using show_int_chars [of x] is_digit_plain by metis
qed

lemma parse_show_i64: "is_i64 x \<Longrightarrow> parse_i64 (show_int x) = Some x"
proof (cases "x < 0")
  case True
  assume "is_i64 x"
  with True show ?thesis by (simp add: parse_i64_def show_int_def parse_show_nat)
next
  case False
  assume i: "is_i64 x"
  obtain c cs where c: "show_nat (nat x) = c # cs"
    using show_nat_chars [of "nat x"] by (cases "show_nat (nat x)") auto
  then have "c \<noteq> CHR ''-''" "c \<noteq> CHR ''+''"
    using show_nat_chars [of "nat x"] is_digit_plain [of c] by auto
  with c parse_show_nat [of "nat x"] False i show ?thesis
    by (simp add: parse_i64_def show_int_def)
qed

lemma parse_show_u64: "parse_u64 (show_nat (unat w)) = Some (w :: u64)"
proof -
  obtain c cs where c: "show_nat (unat w) = c # cs"
    using show_nat_chars [of "unat w"] by (cases "show_nat (unat w)") auto
  then have "c \<noteq> CHR ''+''"
    using show_nat_chars [of "unat w"] is_digit_plain [of c] by auto
  moreover have "unat w < 2 ^ 64"
    using unsigned_less [of w, where ?'a = nat] by simp
  ultimately show ?thesis
    using c parse_show_nat [of "unat w"] by (simp add: parse_u64_def)
qed

lemma trim_show_int: "trim (show_int x) = show_int x"
  using show_int_graphic [of x] by (intro trim_graphic) auto

end
