(* ===== verification/Splice.thy ===== *)
theory Splice
  imports Positions
begin

text \<open>
  The read-path planner of \<^verbatim>\<open>crates/sankhya-plan\<close>: \<open>splice.rs\<close> chooses tiers whose
  coverage abuts exactly up to the requested position, \<open>session.rs\<close> decides which position
  a session may read at. The loop of \<open>plan_splice\<close> terminates because every chosen tier
  reaches past what is already covered.
\<close>

subsection \<open>Tiers and splices\<close>

record tier_ref =
  tier_name :: string
  coverage :: lsn_range

record splice =
  tiers :: "tier_ref list"
  target :: lsn

datatype splice_error =
    CoverageGap (gap_from: lsn) (gap_to: lsn)
  | BeyondFrontier (requested: lsn) (available: lsn)

definition provenance :: "splice \<Rightarrow> (string \<times> lsn_range) list" where
  "provenance s = map (\<lambda>t. (tier_name t, coverage t)) (tiers s)"

definition candidates :: "tier_ref list \<Rightarrow> lsn \<Rightarrow> tier_ref list" where
  "candidates ts covered =
     filter (\<lambda>t. start_exclusive (coverage t) \<le> covered \<and> end_inclusive (coverage t) > covered) ts"

definition trimmed :: "lsn \<Rightarrow> tier_ref \<Rightarrow> lsn \<Rightarrow> lsn_range" where
  "trimmed covered nxt tgt =
     (case lsn_range_new covered (min (end_inclusive (coverage nxt)) tgt) of
        Some r \<Rightarrow> r
      | None \<Rightarrow> lsn_range_up_to covered)"

definition resumes_at :: "tier_ref list \<Rightarrow> lsn \<Rightarrow> lsn \<Rightarrow> lsn" where
  "resumes_at ts covered tgt =
     (case iter_min (filter (\<lambda>s. s > covered) (map (\<lambda>t. start_exclusive (coverage t)) ts)) of
        Some s \<Rightarrow> s
      | None \<Rightarrow> tgt)"

definition furthest :: "tier_ref list \<Rightarrow> lsn \<Rightarrow> tier_ref option" where
  "furthest ts covered = max_by_key (\<lambda>t. end_inclusive (coverage t)) (candidates ts covered)"

lemma furthest_Some:
  "furthest ts covered = Some n \<Longrightarrow>
     n \<in> set ts \<and> start_exclusive (coverage n) \<le> covered \<and> covered < end_inclusive (coverage n) \<and>
     (\<forall>t \<in> set ts. start_exclusive (coverage t) \<le> covered \<longrightarrow>
        covered < end_inclusive (coverage t) \<longrightarrow>
        end_inclusive (coverage t) \<le> end_inclusive (coverage n))"
  by (auto simp: furthest_def candidates_def dest!: max_by_key_Some)

lemma furthest_None:
  "furthest ts covered = None \<longleftrightarrow>
     (\<forall>t \<in> set ts. start_exclusive (coverage t) \<le> covered \<longrightarrow>
        \<not> covered < end_inclusive (coverage t))"
  by (auto simp: furthest_def candidates_def filter_empty_conv)

lemma trimmed_eq:
  "covered < end_inclusive (coverage n) \<Longrightarrow> covered < tgt \<Longrightarrow>
     trimmed covered n tgt =
       \<lparr>start_exclusive = covered, end_inclusive = min (end_inclusive (coverage n)) tgt\<rparr>"
  by (simp add: trimmed_def lsn_range_new_def less_imp_le)

function splice_loop ::
  "tier_ref list \<Rightarrow> lsn \<Rightarrow> lsn \<Rightarrow> tier_ref list \<Rightarrow> splice_error + tier_ref list" where
  "splice_loop ts tgt covered chosen =
     (if covered < tgt then
        (case furthest ts covered of
           None \<Rightarrow> Inl (CoverageGap covered (min (resumes_at ts covered tgt) tgt))
         | Some nxt \<Rightarrow>
             (let r = trimmed covered nxt tgt in
              splice_loop ts tgt (end_inclusive r)
                (chosen @ [\<lparr>tier_name = tier_name nxt, coverage = r\<rparr>])))
      else Inr chosen)"
  by pat_completeness auto
termination
proof (relation "measure (\<lambda>(ts, tgt, covered, chosen). unat tgt - unat covered)", goal_cases)
  case (2 ts tgt covered chosen nxt r)
  then have "covered < end_inclusive r"
    by (auto simp: trimmed_eq dest!: furthest_Some)
  with 2 show ?case
    by (simp add: word_less_nat_alt)
qed simp

declare splice_loop.simps [simp del]

definition plan_splice :: "tier_ref list \<Rightarrow> lsn \<Rightarrow> splice_error + splice" where
  "plan_splice ts tgt =
     (if tgt = LSN_ZERO then Inr \<lparr>tiers = [], target = tgt\<rparr>
      else
        (let frontier = (case iter_max (map (\<lambda>t. end_inclusive (coverage t)) ts) of
                           Some f \<Rightarrow> f | None \<Rightarrow> LSN_ZERO) in
         if frontier < tgt then Inl (BeyondFrontier tgt frontier)
         else
           (case splice_loop ts tgt LSN_ZERO [] of
              Inl e \<Rightarrow> Inl e
            | Inr chosen \<Rightarrow> Inr \<lparr>tiers = chosen, target = tgt\<rparr>)))"

fun exact_from :: "lsn \<Rightarrow> tier_ref list \<Rightarrow> lsn option" where
  "exact_from pos [] = Some pos"
| "exact_from pos (t # ts) =
     (if start_exclusive (coverage t) \<noteq> pos then None
      else exact_from (end_inclusive (coverage t)) ts)"

definition is_exact_cover :: "tier_ref list \<Rightarrow> lsn \<Rightarrow> bool" where
  "is_exact_cover ts tgt =
     (if tgt = LSN_ZERO then ts = []
      else (case exact_from LSN_ZERO ts of None \<Rightarrow> False | Some p \<Rightarrow> p = tgt))"

subsection \<open>What an exact cover means\<close>

text \<open>Segments that abut from \<open>p\<close> to \<open>q\<close>, each of them proper.\<close>

fun chain :: "lsn \<Rightarrow> tier_ref list \<Rightarrow> lsn \<Rightarrow> bool" where
  "chain p [] q = (p = q)"
| "chain p (t # ts) q =
     (start_exclusive (coverage t) = p \<and> p < end_inclusive (coverage t) \<and>
      chain (end_inclusive (coverage t)) ts q)"

lemma chain_le: "chain p ts q \<Longrightarrow> p \<le> q"
  by (induction p ts q rule: chain.induct) auto

lemma chain_exact_from: "chain p ts q \<Longrightarrow> exact_from p ts = Some q"
  by (induction p ts q rule: chain.induct) auto

lemma chain_bounds:
  "chain p ts q \<Longrightarrow> t \<in> set ts \<Longrightarrow>
     p \<le> start_exclusive (coverage t) \<and> start_exclusive (coverage t) < end_inclusive (coverage t) \<and>
     end_inclusive (coverage t) \<le> q"
proof (induction p ts q rule: chain.induct)
  case (2 p u us q)
  then show ?case
    using chain_le [of "end_inclusive (coverage u)" us q] by (auto dest: less_imp_le order.trans)
qed simp

text \<open>Abutting segments hold every position between their ends exactly once.\<close>

lemma chain_partition:
  "chain p ts q \<Longrightarrow>
     length (filter (\<lambda>t. lsn_range_contains (coverage t) l) ts) = (if p < l \<and> l \<le> q then 1 else 0)"
proof (induction p ts q rule: chain.induct)
  case (2 p t ts q)
  then have "end_inclusive (coverage t) \<le> q" by (auto dest: chain_le)
  with 2 show ?case
    by (auto simp: lsn_range_contains_def)
qed auto

lemma unat_successor: "c < (t :: lsn) \<Longrightarrow> unat (c + 1) = Suc (unat c)"
  using unsigned_less [of t, where ?'a = nat] by (simp add: word_less_nat_alt unat_word_ariths)

lemma less_successor: "c < (t :: lsn) \<Longrightarrow> l < c + 1 \<longleftrightarrow> l \<le> c"
  by (simp add: word_less_nat_alt word_le_nat_alt unat_successor less_Suc_eq_le)

lemma successor_le: "c < (t :: lsn) \<Longrightarrow> c + 1 \<le> l \<longleftrightarrow> c < l"
  by (simp add: word_less_nat_alt word_le_nat_alt unat_successor Suc_le_eq)

subsection \<open>The loop of the planner\<close>

text \<open>
  What the loop adds to \<open>chosen\<close>: a chain from what was covered to the target, every
  segment inside the coverage of the tier it names, and no two segments that one tier on
  offer could have served from their first position (the greedy choice).
\<close>

definition drawn_from :: "tier_ref list \<Rightarrow> tier_ref \<Rightarrow> bool" where
  "drawn_from ts seg \<longleftrightarrow>
     (\<exists>t \<in> set ts. tier_name t = tier_name seg \<and>
        (\<forall>l. lsn_range_contains (coverage seg) l \<longrightarrow> lsn_range_contains (coverage t) l))"

definition first_position :: "tier_ref \<Rightarrow> lsn" where
  "first_position seg = start_exclusive (coverage seg) + 1"

definition separated :: "tier_ref list \<Rightarrow> tier_ref \<Rightarrow> tier_ref \<Rightarrow> bool" where
  "separated ts a b \<longleftrightarrow>
     (\<forall>t \<in> set ts. \<not> (lsn_range_contains (coverage t) (first_position a) \<and>
                       lsn_range_contains (coverage t) (first_position b)))"

lemma furthest_separated:
  assumes n: "furthest ts covered = Some n" and lt: "covered < tgt"
    and seg: "coverage seg = trimmed covered n tgt"
    and b: "end_inclusive (coverage seg) \<le> start_exclusive (coverage b)"
      "start_exclusive (coverage b) < tgt"
  shows "separated ts seg b"
  unfolding separated_def
proof (intro ballI notI, elim conjE)
  fix t
  assume t: "t \<in> set ts" "lsn_range_contains (coverage t) (first_position seg)"
    "lsn_range_contains (coverage t) (first_position b)"
  have n': "covered < end_inclusive (coverage n)" using furthest_Some [OF n] by simp
  have "start_exclusive (coverage t) \<le> covered"
    using t(2) seg lt n' by (simp add: lsn_range_contains_def first_position_def trimmed_eq less_successor)
  moreover have e: "start_exclusive (coverage b) < end_inclusive (coverage t)"
    using t(3) b(2) by (simp add: lsn_range_contains_def first_position_def successor_le)
  have "covered < end_inclusive (coverage seg)"
    using seg lt n' by (simp add: trimmed_eq)
  then have "covered < end_inclusive (coverage t)" using e b(1) by order
  ultimately have "end_inclusive (coverage t) \<le> end_inclusive (coverage n)"
    using furthest_Some [OF n] t(1) by blast
  then show False
    using e b seg lt n' by (auto simp: trimmed_eq min_def split: if_splits)
qed

lemma splice_loop_sound:
  "splice_loop ts tgt covered chosen = Inr out \<Longrightarrow> covered \<le> tgt \<Longrightarrow>
     \<exists>new. out = chosen @ new \<and> chain covered new tgt \<and> (\<forall>seg \<in> set new. drawn_from ts seg) \<and>
       sorted_wrt (separated ts) new"
proof (induction ts tgt covered chosen arbitrary: out rule: splice_loop.induct)
  case (1 ts tgt covered chosen)
  show ?case
  proof (cases "covered < tgt")
    case False
    with 1 show ?thesis by (auto simp: splice_loop.simps [of ts tgt covered])
  next
    case True
    with 1 obtain n where n: "furthest ts covered = Some n"
      by (auto simp: splice_loop.simps [of ts tgt covered] split: option.splits)
    define seg where "seg = \<lparr>tier_name = tier_name n, coverage = trimmed covered n tgt\<rparr>"
    note fur = furthest_Some [OF n]
    have eq: "trimmed covered n tgt =
        \<lparr>start_exclusive = covered, end_inclusive = min (end_inclusive (coverage n)) tgt\<rparr>"
      using fur True by (simp add: trimmed_eq)
    have "splice_loop ts tgt (end_inclusive (trimmed covered n tgt)) (chosen @ [seg]) = Inr out"
      using 1(2) True n by (simp add: splice_loop.simps [of ts tgt covered] seg_def Let_def)
    from 1(1) [OF True n refl, folded seg_def, OF this] obtain new where
      new: "out = (chosen @ [seg]) @ new" "chain (end_inclusive (trimmed covered n tgt)) new tgt"
        "\<forall>s \<in> set new. drawn_from ts s" "sorted_wrt (separated ts) new"
      using eq by auto
    have "\<forall>b \<in> set new. separated ts seg b"
    proof
      fix b assume "b \<in> set new"
      with chain_bounds [OF new(2)] show "separated ts seg b"
        by (intro furthest_separated [OF n True]) (auto simp: seg_def intro: less_le_trans)
    qed
    moreover have "drawn_from ts seg"
      using fur eq by (auto simp: drawn_from_def seg_def lsn_range_contains_def)
    ultimately show ?thesis
      using new fur eq True by (intro exI [of _ "seg # new"]) (simp add: seg_def)
  qed
qed

lemma resumes_at_bound:
  assumes "covered < tgt" "t \<in> set ts" "covered < start_exclusive (coverage t)"
  shows "resumes_at ts covered tgt \<le> start_exclusive (coverage t)"
  using assms by (auto simp: resumes_at_def filter_empty_conv split: option.splits dest!: iter_min_Some)

lemma resumes_at_above: "covered < tgt \<Longrightarrow> covered < resumes_at ts covered tgt"
  by (auto simp: resumes_at_def split: option.splits dest!: iter_min_Some)

text \<open>A refusal names a stretch that nothing on offer holds, and everything before it is held.\<close>

lemma splice_loop_gap:
  "splice_loop ts tgt covered chosen = Inl e \<Longrightarrow>
     (\<forall>l. LSN_ZERO < l \<longrightarrow> l \<le> covered \<longrightarrow> (\<exists>t \<in> set ts. lsn_range_contains (coverage t) l)) \<Longrightarrow>
     \<exists>a b. e = CoverageGap a b \<and> a < b \<and> b \<le> tgt \<and>
       (\<forall>l. a < l \<longrightarrow> l \<le> b \<longrightarrow> (\<forall>t \<in> set ts. \<not> lsn_range_contains (coverage t) l)) \<and>
       (\<forall>l. LSN_ZERO < l \<longrightarrow> l \<le> a \<longrightarrow> (\<exists>t \<in> set ts. lsn_range_contains (coverage t) l))"
proof (induction ts tgt covered chosen arbitrary: e rule: splice_loop.induct)
  case (1 ts tgt covered chosen)
  have lt: "covered < tgt"
    using 1(2) by (auto simp: splice_loop.simps [of ts tgt covered] split: if_splits)
  show ?case
  proof (cases "furthest ts covered")
    case None
    then have e: "e = CoverageGap covered (min (resumes_at ts covered tgt) tgt)"
      using 1(2) lt by (simp add: splice_loop.simps [of ts tgt covered])
    have "\<not> lsn_range_contains (coverage t) l"
      if "covered < l" "l \<le> resumes_at ts covered tgt" "t \<in> set ts" for l t
      using that None lt resumes_at_bound [OF lt that(3)]
      by (force simp: furthest_None lsn_range_contains_def)
    then show ?thesis
      using e lt resumes_at_above [OF lt, of ts] 1(3)
      by (intro exI [of _ covered] exI [of _ "min (resumes_at ts covered tgt) tgt"]) auto
  next
    case (Some n)
    note fur = furthest_Some [OF Some]
    have eq: "trimmed covered n tgt =
        \<lparr>start_exclusive = covered, end_inclusive = min (end_inclusive (coverage n)) tgt\<rparr>"
      using fur lt by (simp add: trimmed_eq)
    have held: "\<exists>t \<in> set ts. lsn_range_contains (coverage t) l"
      if "LSN_ZERO < l" "l \<le> min (end_inclusive (coverage n)) tgt" for l
    proof (cases "l \<le> covered")
      case True
      with that 1(3) show ?thesis by blast
    next
      case False
      with that fur have "lsn_range_contains (coverage n) l"
        by (auto simp: lsn_range_contains_def)
      with fur show ?thesis by blast
    qed
    show ?thesis
      using 1(1) [OF lt Some refl] 1(2) lt Some held eq
      by (simp add: splice_loop.simps [of ts tgt covered] Let_def)
  qed
qed

lemma plan_splice_Inr:
  assumes "plan_splice ts tgt = Inr s"
  shows "target s = tgt \<and> chain LSN_ZERO (tiers s) tgt \<and> (\<forall>seg \<in> set (tiers s). drawn_from ts seg) \<and>
    sorted_wrt (separated ts) (tiers s)"
proof (cases "tgt = LSN_ZERO")
  case True
  with assms show ?thesis by (auto simp: plan_splice_def)
next
  case False
  then obtain out where "splice_loop ts tgt LSN_ZERO [] = Inr out"
      "s = \<lparr>tiers = out, target = tgt\<rparr>"
    using assms by (auto simp: plan_splice_def Let_def split: if_splits sum.splits)
  with splice_loop_sound [of ts tgt LSN_ZERO "[]" out] show ?thesis
    by (auto simp: LSN_ZERO_def)
qed

lemma plan_splice_Inl:
  assumes "plan_splice ts tgt = Inl e"
  shows "(e = BeyondFrontier tgt (available e) \<and> available e < tgt \<and>
            (\<forall>t \<in> set ts. end_inclusive (coverage t) \<le> available e)) \<or>
         (\<exists>a b. e = CoverageGap a b \<and> a < b \<and> b \<le> tgt \<and>
            (\<forall>l. a < l \<longrightarrow> l \<le> b \<longrightarrow> (\<forall>t \<in> set ts. \<not> lsn_range_contains (coverage t) l)) \<and>
            (\<forall>l. LSN_ZERO < l \<longrightarrow> l \<le> a \<longrightarrow> (\<exists>t \<in> set ts. lsn_range_contains (coverage t) l)))"
proof (cases "splice_loop ts tgt LSN_ZERO [] = Inl e")
  case True
  have "\<forall>l. LSN_ZERO < l \<longrightarrow> l \<le> LSN_ZERO \<longrightarrow> (\<exists>t \<in> set ts. lsn_range_contains (coverage t) l)"
    by auto
  from splice_loop_gap [OF True this] show ?thesis by blast
next
  case False
  then obtain f where e: "e = BeyondFrontier tgt f" "f < tgt"
      and f: "f = (case iter_max (map (\<lambda>t. end_inclusive (coverage t)) ts) of Some f \<Rightarrow> f | None \<Rightarrow> LSN_ZERO)"
    using assms by (auto simp: plan_splice_def Let_def split: if_splits sum.splits)
  have "\<forall>t \<in> set ts. end_inclusive (coverage t) \<le> f"
    using f by (cases "ts = []") (auto simp: iter_max_def)
  with e show ?thesis by simp
qed

text \<open>
  C1: A splice the planner returns covers every position of \<open>(0, target]\<close> exactly once, every
  segment lies inside the coverage of a tier on offer under the same name, and the
  \<open>debug_assert\<close> of the code holds.
\<close>

theorem plan_splice_exact:
  assumes "plan_splice ts tgt = Inr s"
  shows "target s = tgt \<and> is_exact_cover (tiers s) tgt \<and>
    (\<forall>l. length (filter (\<lambda>t. lsn_range_contains (coverage t) l) (tiers s)) =
           (if LSN_ZERO < l \<and> l \<le> tgt then 1 else 0)) \<and>
    (\<forall>seg \<in> set (tiers s). \<exists>t \<in> set ts. tier_name t = tier_name seg \<and>
       (\<forall>l. lsn_range_contains (coverage seg) l \<longrightarrow> lsn_range_contains (coverage t) l))"
proof -
  have s: "target s = tgt" "chain LSN_ZERO (tiers s) tgt" "\<forall>seg \<in> set (tiers s). drawn_from ts seg"
    using plan_splice_Inr [OF assms] by auto
  have "is_exact_cover (tiers s) tgt"
    using s(2) chain_exact_from [OF s(2)]
    by (cases "tiers s") (auto simp: is_exact_cover_def LSN_ZERO_def dest: chain_le)
  with s chain_partition [OF s(2)] show ?thesis
    by (auto simp: drawn_from_def)
qed

theorem plan_splice_exact_witness:
  "\<exists>s. plan_splice
      [\<lparr>tier_name = ''arrival'', coverage = \<lparr>start_exclusive = 60, end_inclusive = 120\<rparr>\<rparr>,
       \<lparr>tier_name = ''cold'', coverage = \<lparr>start_exclusive = 0, end_inclusive = 80\<rparr>\<rparr>] 100 = Inr s \<and>
    length (filter (\<lambda>t. lsn_range_contains (coverage t) 80) (tiers s)) = 1"
proof -
  let ?ts = "[\<lparr>tier_name = ''arrival'', coverage = \<lparr>start_exclusive = 60, end_inclusive = 120\<rparr>\<rparr>,
       \<lparr>tier_name = ''cold'', coverage = \<lparr>start_exclusive = 0, end_inclusive = 80\<rparr>\<rparr>]"
  have "plan_splice ?ts 100 = Inr \<lparr>tiers =
     [\<lparr>tier_name = ''cold'', coverage = \<lparr>start_exclusive = 0, end_inclusive = 80\<rparr>\<rparr>,
      \<lparr>tier_name = ''arrival'', coverage = \<lparr>start_exclusive = 80, end_inclusive = 100\<rparr>\<rparr>],
      target = 100\<rparr>"
    by (simp add: plan_splice_def splice_loop.simps furthest_def candidates_def trimmed_def
        lsn_range_new_def LSN_ZERO_def iter_max_def)
  from plan_splice_exact [OF this] this show ?thesis
    by (auto simp: LSN_ZERO_def)
qed

text \<open>
  C2: The planner answers exactly when every position of \<open>(0, target]\<close> is held by some tier:
  it never refuses a read that could be served and never serves one that could not.
\<close>

theorem plan_splice_complete:
  "is_ok (plan_splice ts tgt) =
     (\<forall>l. LSN_ZERO < l \<and> l \<le> tgt \<longrightarrow> (\<exists>t \<in> set ts. lsn_range_contains (coverage t) l))"
proof (cases "plan_splice ts tgt")
  case (Inr s)
  have "\<exists>t \<in> set ts. lsn_range_contains (coverage t) l" if "LSN_ZERO < l" "l \<le> tgt" for l
  proof -
    have "filter (\<lambda>t. lsn_range_contains (coverage t) l) (tiers s) \<noteq> []"
      using plan_splice_Inr [OF Inr] chain_partition [of LSN_ZERO "tiers s" tgt l] that by auto
    then obtain seg where "seg \<in> set (tiers s)" "lsn_range_contains (coverage seg) l"
      by (auto simp: filter_empty_conv)
    then show ?thesis using plan_splice_Inr [OF Inr] by (auto simp: drawn_from_def)
  qed
  with Inr show ?thesis by auto
next
  case (Inl e)
  have "\<exists>l. LSN_ZERO < l \<and> l \<le> tgt \<and> (\<forall>t \<in> set ts. \<not> lsn_range_contains (coverage t) l)"
    using plan_splice_Inl [OF Inl]
  proof (elim disjE exE conjE)
    assume *: "available e < tgt" "\<forall>t \<in> set ts. end_inclusive (coverage t) \<le> available e"
    then show ?thesis
      using le_less_trans [OF word_zero_le *(1)]
      by (intro exI [of _ tgt]) (force simp: lsn_range_contains_def LSN_ZERO_def)
  next
    fix a b
    assume "a < b" "b \<le> tgt"
      "\<forall>l. a < l \<longrightarrow> l \<le> b \<longrightarrow> (\<forall>t \<in> set ts. \<not> lsn_range_contains (coverage t) l)"
    then show ?thesis
      by (intro exI [of _ b]) (auto simp: LSN_ZERO_def intro: le_less_trans [of 0 a b])
  qed
  with Inl show ?thesis by auto
qed

theorem plan_splice_complete_witness:
  "\<not> is_ok (plan_splice [\<lparr>tier_name = ''cold'',
      coverage = \<lparr>start_exclusive = 10, end_inclusive = 80\<rparr>\<rparr>] 40)"
  unfolding plan_splice_complete
  by (auto simp: lsn_range_contains_def LSN_ZERO_def intro!: exI [of _ 5])

text \<open>
  A refusal is precise. A reported gap \<open>(from, to]\<close> lies below the target, is held by no
  tier, and everything before it is held; a frontier refusal names a position short of the
  target that no tier reaches past.
\<close>

theorem plan_splice_refusal_precise:
  assumes "plan_splice ts tgt = Inl e"
  shows "case e of
      CoverageGap a b \<Rightarrow> a < b \<and> b \<le> tgt \<and>
        (\<forall>l t. a < l \<and> l \<le> b \<and> t \<in> set ts \<longrightarrow> \<not> lsn_range_contains (coverage t) l) \<and>
        (\<forall>l. LSN_ZERO < l \<and> l \<le> a \<longrightarrow> (\<exists>t \<in> set ts. lsn_range_contains (coverage t) l))
    | BeyondFrontier r f \<Rightarrow> r = tgt \<and> f < tgt \<and>
        (\<forall>t \<in> set ts. end_inclusive (coverage t) \<le> f)"
  using plan_splice_Inl [OF assms] by (cases e) auto

theorem plan_splice_refusal_precise_witness:
  "plan_splice
      [\<lparr>tier_name = ''hot'', coverage = \<lparr>start_exclusive = 60, end_inclusive = 120\<rparr>\<rparr>,
       \<lparr>tier_name = ''cold'', coverage = \<lparr>start_exclusive = 0, end_inclusive = 40\<rparr>\<rparr>] 100 =
     Inl (CoverageGap 40 60) \<and> (40 :: lsn) < 60 \<and> (60 :: lsn) \<le> 100"
proof -
  have "plan_splice
      [\<lparr>tier_name = ''hot'', coverage = \<lparr>start_exclusive = 60, end_inclusive = 120\<rparr>\<rparr>,
       \<lparr>tier_name = ''cold'', coverage = \<lparr>start_exclusive = 0, end_inclusive = 40\<rparr>\<rparr>] 100 =
     Inl (CoverageGap 40 60)"
    by (simp add: plan_splice_def splice_loop.simps furthest_def candidates_def trimmed_def
        lsn_range_new_def LSN_ZERO_def iter_max_def iter_min_def resumes_at_def)
  from plan_splice_refusal_precise [OF this] this show ?thesis by simp
qed

text \<open>
  The greedy choice is optimal: no selection of the tiers on offer that holds all of
  \<open>(0, target]\<close> has fewer members than the returned splice has segments.
\<close>

theorem plan_splice_fewest_tiers:
  assumes plan: "plan_splice ts tgt = Inr s"
    and sub: "set selection \<subseteq> set ts"
    and cover: "\<forall>l. LSN_ZERO < l \<and> l \<le> tgt \<longrightarrow>
      (\<exists>t \<in> set selection. lsn_range_contains (coverage t) l)"
  shows "length (tiers s) \<le> length selection"
proof -
  note s = plan_splice_Inr [OF plan]
  define serves where
    "serves seg = (SOME t. t \<in> set selection \<and> lsn_range_contains (coverage t) (first_position seg))"
    for seg
  have serves: "serves seg \<in> set selection \<and> lsn_range_contains (coverage (serves seg)) (first_position seg)"
    if "seg \<in> set (tiers s)" for seg
  proof -
    have lt: "start_exclusive (coverage seg) < tgt"
      using chain_bounds [of LSN_ZERO "tiers s" tgt seg] s that by (auto intro: less_le_trans)
    then have "LSN_ZERO < first_position seg \<and> first_position seg \<le> tgt"
      by (auto simp: first_position_def LSN_ZERO_def successor_le word_less_nat_alt unat_successor [OF lt])
    with cover have "\<exists>t. t \<in> set selection \<and> lsn_range_contains (coverage t) (first_position seg)"
      by blast
    then show ?thesis unfolding serves_def by (rule someI_ex)
  qed
  have "serves a \<noteq> serves b" if "a \<in> set (tiers s)" "b \<in> set (tiers s)" "separated ts a b" for a b
    using serves [OF that(1)] serves [OF that(2)] that(3) sub unfolding separated_def by (metis subsetD)
  then have "sorted_wrt (\<lambda>a b. serves a \<noteq> serves b) (tiers s)"
    using s by (blast intro: sorted_wrt_mono_rel [of _ "separated ts"])
  then have "distinct (map serves (tiers s))"
    by (rule sorted_wrt_distinct_map)
  moreover have "set (map serves (tiers s)) \<subseteq> set selection"
    using serves by auto
  ultimately have "length (map serves (tiers s)) \<le> card (set selection)"
    by (metis card_mono distinct_card finite_set)
  also have "\<dots> \<le> length selection" by (rule card_length)
  finally show ?thesis by simp
qed

theorem plan_splice_fewest_tiers_witness:
  "\<exists>s. plan_splice
      [\<lparr>tier_name = ''arrival'', coverage = \<lparr>start_exclusive = 60, end_inclusive = 120\<rparr>\<rparr>,
       \<lparr>tier_name = ''old'', coverage = \<lparr>start_exclusive = 0, end_inclusive = 70\<rparr>\<rparr>,
       \<lparr>tier_name = ''cold'', coverage = \<lparr>start_exclusive = 0, end_inclusive = 80\<rparr>\<rparr>] 100 = Inr s \<and>
    length (tiers s) \<le> 2"
proof -
  let ?new = "\<lparr>tier_name = ''arrival'', coverage = \<lparr>start_exclusive = 60, end_inclusive = 120\<rparr>\<rparr>"
  let ?old = "\<lparr>tier_name = ''old'', coverage = \<lparr>start_exclusive = 0, end_inclusive = 70\<rparr>\<rparr>"
  let ?cold = "\<lparr>tier_name = ''cold'', coverage = \<lparr>start_exclusive = 0, end_inclusive = 80\<rparr>\<rparr>"
  have plan: "plan_splice [?new, ?old, ?cold] 100 = Inr \<lparr>tiers =
     [\<lparr>tier_name = ''cold'', coverage = \<lparr>start_exclusive = 0, end_inclusive = 80\<rparr>\<rparr>,
      \<lparr>tier_name = ''arrival'', coverage = \<lparr>start_exclusive = 80, end_inclusive = 100\<rparr>\<rparr>],
      target = 100\<rparr>"
    by (simp add: plan_splice_def splice_loop.simps furthest_def candidates_def trimmed_def
        lsn_range_new_def LSN_ZERO_def iter_max_def)
  have "\<forall>l. LSN_ZERO < l \<and> l \<le> 100 \<longrightarrow> (\<exists>t \<in> set [?new, ?old]. lsn_range_contains (coverage t) l)"
    by (auto simp: lsn_range_contains_def LSN_ZERO_def not_le intro: less_trans [of 60 70] order.trans)
  from plan_splice_fewest_tiers [OF plan _ this] plan show ?thesis by simp
qed

subsection \<open>Which position a session may read at\<close>

datatype read_mode =
    Eventual
  | ReadYourWrites
  | Bounded (max_staleness: nat)
  | Snapshot (at: lsn)

datatype visibility =
    Ready (ready_target: lsn)
  | Wait (wait_until: lsn) (behind_by: u64)

datatype freshness_error =
    NotReached (not_reached_required: lsn) (not_reached_applied: lsn)
  | SnapshotUnavailable (snapshot_requested: lsn) (snapshot_applied: lsn)

record session_token =
  token_position :: lsn

definition session_merge :: "session_token \<Rightarrow> session_token \<Rightarrow> session_token" where
  "session_merge a b = (if token_position b > token_position a then b else a)"

definition evaluate_visibility ::
  "read_mode \<Rightarrow> session_token option \<Rightarrow> lsn \<Rightarrow> freshness_error + visibility" where
  "evaluate_visibility mode session applied =
     (case mode of
        Eventual \<Rightarrow> Inr (Ready applied)
      | ReadYourWrites \<Rightarrow>
          (case session of
             None \<Rightarrow> Inr (Ready applied)
           | Some token \<Rightarrow>
               (let required = token_position token in
                if applied \<ge> required then Inr (Ready applied)
                else Inr (Wait required (word_saturating_sub required applied))))
      | Bounded d \<Rightarrow> Inr (Ready applied)
      | Snapshot a \<Rightarrow>
          (if applied \<ge> a then Inr (Ready a) else Inl (SnapshotUnavailable a applied)))"

definition wait_exhausted :: "lsn \<Rightarrow> lsn \<Rightarrow> freshness_error" where
  "wait_exhausted until applied = NotReached until applied"

lemma session_merge_position:
  "token_position (session_merge a b) = max (token_position a) (token_position b)"
  by (auto simp: session_merge_def max_def)

lemma evaluate_visibility_Ready:
  "evaluate_visibility mode session applied = Inr (Ready t) \<Longrightarrow> t \<le> applied"
  by (auto simp: evaluate_visibility_def Let_def split: read_mode.splits option.splits if_splits)

text \<open>
  C3: A session that merged the tokens of every write it observed is never shown older data: a
  read in the default mode proceeds only at a position that includes all of them, and waits for
  the latest otherwise, with the distance still to be captured.
\<close>

theorem read_your_writes:
  "case evaluate_visibility ReadYourWrites (Some (foldl session_merge tok writes)) applied of
     Inr (Ready t) \<Rightarrow> t = applied \<and> (\<forall>w \<in> set (tok # writes). token_position w \<le> t)
   | Inr (Wait u d) \<Rightarrow> applied < u \<and> (\<exists>w \<in> set (tok # writes). token_position w = u) \<and>
       (\<forall>w \<in> set (tok # writes). token_position w \<le> u) \<and> unat d = unat u - unat applied
   | Inl e \<Rightarrow> False"
proof -
  have fold: "token_position (foldl session_merge tok writes) = Max (token_position ` set (tok # writes))"
  proof (induction writes arbitrary: tok)
    case (Cons w ws)
    have "token_position ` set (session_merge tok w # ws) =
        insert (max (token_position tok) (token_position w)) (token_position ` set ws)"
      by (simp add: session_merge_position)
    then show ?case
      by (simp only: foldl_Cons Cons.IH) (cases "ws = []"; simp add: max.assoc)
  qed simp
  define final where "final = foldl session_merge tok writes"
  have "token_position final \<in> token_position ` set (tok # writes)"
    unfolding final_def fold by (intro Max_in) auto
  then have member: "\<exists>w \<in> set (tok # writes). token_position w = token_position final" by force
  have upper: "\<forall>w \<in> set (tok # writes). token_position w \<le> token_position final"
    unfolding final_def fold by (intro ballI Max_ge) auto
  show ?thesis
  proof (cases "token_position final \<le> applied")
    case True
    then show ?thesis
      using upper unfolding evaluate_visibility_def final_def [symmetric]
      by (auto simp: Let_def intro: order.trans)
  next
    case False
    then show ?thesis
      using upper member unfolding evaluate_visibility_def final_def [symmetric]
      by (simp add: Let_def unat_saturating_sub)
  qed
qed

theorem read_your_writes_witness:
  "evaluate_visibility ReadYourWrites
     (Some (foldl session_merge \<lparr>token_position = 5\<rparr> [\<lparr>token_position = 9\<rparr>, \<lparr>token_position = 7\<rparr>])) 6 =
     Inr (Wait 9 3) \<and> unat (3 :: u64) = unat (9 :: u64) - unat (6 :: u64)"
proof -
  have "evaluate_visibility ReadYourWrites
     (Some (foldl session_merge \<lparr>token_position = 5\<rparr> [\<lparr>token_position = 9\<rparr>, \<lparr>token_position = 7\<rparr>])) 6 =
     Inr (Wait 9 3)"
    by (simp add: evaluate_visibility_def session_merge_def word_saturating_sub_def)
  with read_your_writes [where tok = "\<lparr>token_position = 5\<rparr>" and applied = 6 and
      writes = "[\<lparr>token_position = 9\<rparr>, \<lparr>token_position = 7\<rparr>]"]
  show ?thesis by simp
qed

end
