(* ===== verification/Leases.thy ===== *)
theory Leases
  imports Prelude
begin

text \<open>
  Reader leases of \<^verbatim>\<open>crates/sankhya-leases/src/lib.rs\<close>. The first part is the code's own
  functions, run without interference. The second part interleaves them at the granularity of
  the atomic operations: every \<open>fetch_add\<close>, \<open>fetch_sub\<close>, \<open>compare_exchange\<close> and \<open>load\<close> is
  one step, any number of readers pin and drop and any number of sweepers mark and ask, in any
  order. All operations on a location are sequentially consistent in the code, as the steps
  are. The \<open>clock\<close> of a system is a ghost: it counts the epochs drawn, so that
  \<open>clock s < 2 ^ 64\<close> says that the 64-bit epoch has not wrapped.
\<close>

subsection \<open>The registry and its operations\<close>

definition FREE :: u64 where "FREE = 0"

record leases =
  epoch :: u64
  slots :: "u64 list"
  unannounced :: nat

record pin_guard =
  pin_index :: nat
  pin_at :: u64
  pin_announced :: bool

definition leases_with_slots :: "nat \<Rightarrow> leases" where
  "leases_with_slots n = \<lparr>epoch = 1, slots = replicate (max n 1) FREE, unannounced = 0\<rparr>"

definition mark :: "leases \<Rightarrow> u64 \<times> leases" where
  "mark l = (epoch l, l\<lparr>epoch := epoch l + 1\<rparr>)"

definition slot_for :: "u64 \<Rightarrow> nat \<Rightarrow> nat" where
  "slot_for a n = unat (drop_bit 32 (a * 0x9E3779B97F4A7C15)) mod max n 1"

definition claim_slot :: "u64 \<Rightarrow> nat \<Rightarrow> u64 list \<Rightarrow> bool \<times> u64 list" where
  "claim_slot a i ss =
     (if i < length ss \<and> ss ! i = FREE then (True, ss[i := a]) else (False, ss))"

definition release_slot :: "u64 \<Rightarrow> nat \<Rightarrow> u64 list \<Rightarrow> u64 list" where
  "release_slot a i ss = (if i < length ss \<and> ss ! i = a then ss[i := FREE] else ss)"

definition pin :: "leases \<Rightarrow> pin_guard \<times> leases" where
  "pin l =
     (let l = l\<lparr>unannounced := unannounced l + 1\<rparr>;
          a = epoch l;
          l = l\<lparr>epoch := epoch l + 1\<rparr>;
          i = slot_for a (length (slots l));
          (announced, ss) = claim_slot a i (slots l);
          l = l\<lparr>slots := ss\<rparr>;
          l = (if announced then l\<lparr>unannounced := unannounced l - 1\<rparr> else l)
      in (\<lparr>pin_index = i, pin_at = a, pin_announced = announced\<rparr>, l))"

definition drop_pin :: "pin_guard \<Rightarrow> leases \<Rightarrow> leases" where
  "drop_pin p l =
     (if pin_announced p then l\<lparr>slots := release_slot (pin_at p) (pin_index p) (slots l)\<rparr>
      else l\<lparr>unannounced := unannounced l - 1\<rparr>)"

definition oldest_active :: "leases \<Rightarrow> u64 option" where
  "oldest_active l =
     (if unannounced l > 0 then Some 0
      else iter_min (filter (\<lambda>a. a \<noteq> FREE) (slots l)))"

definition is_drained :: "u64 option \<Rightarrow> u64 \<Rightarrow> bool" where
  "is_drained oldest marked = (case oldest of None \<Rightarrow> True | Some old \<Rightarrow> old \<ge> marked)"

definition drained :: "leases \<Rightarrow> u64 \<Rightarrow> bool" where
  "drained l marked = is_drained (oldest_active l) marked"

lemma slot_for_bound: "0 < n \<Longrightarrow> slot_for a n < n"
  by (simp add: slot_for_def)

subsection \<open>Interleaved readers and sweepers\<close>

text \<open>
  A reader goes through \<open>pin\<close>: counted, epoch drawn, slot claimed (or found busy), no longer
  counted; then it reads; then it drops its guard. A sweeper draws a mark, loads the count, loads
  the slots one by one keeping the least announcement, and decides.
\<close>

datatype reader =
    Idle
  | Counted
  | Drawn u64
  | Announced u64 nat
  | Inside u64 nat bool
  | Finished

datatype sweeper =
    Resting
  | Marked u64
  | Scanning u64 nat "u64 option"
  | Answered u64 bool

record lease_system =
  reg :: leases
  readers :: "nat \<Rightarrow> reader"
  sweepers :: "nat \<Rightarrow> sweeper"
  clock :: nat

definition lease_initial :: "lease_system \<Rightarrow> bool" where
  "lease_initial s \<longleftrightarrow>
     (\<exists>n. s = \<lparr>reg = leases_with_slots n, readers = (\<lambda>_. Idle), sweepers = (\<lambda>_. Resting), clock = 1\<rparr>)"

definition older :: "u64 option \<Rightarrow> u64 \<Rightarrow> u64 option" where
  "older low a =
     (if a = FREE then low else (case low of None \<Rightarrow> Some a | Some b \<Rightarrow> Some (min b a)))"

inductive lease_step :: "lease_system \<Rightarrow> lease_system \<Rightarrow> bool" where
  count: "readers s r = Idle \<Longrightarrow>
     lease_step s (s\<lparr>reg := (reg s)\<lparr>unannounced := unannounced (reg s) + 1\<rparr>,
                     readers := (readers s)(r := Counted)\<rparr>)"
| draw: "readers s r = Counted \<Longrightarrow>
     lease_step s (s\<lparr>reg := (reg s)\<lparr>epoch := epoch (reg s) + 1\<rparr>,
                     readers := (readers s)(r := Drawn (epoch (reg s))),
                     clock := clock s + 1\<rparr>)"
| announce: "readers s r = Drawn a \<Longrightarrow> i = slot_for a (length (slots (reg s))) \<Longrightarrow>
     claim_slot a i (slots (reg s)) = (ok, ss) \<Longrightarrow>
     lease_step s (s\<lparr>reg := (reg s)\<lparr>slots := ss\<rparr>,
                     readers := (readers s)(r := if ok then Announced a i else Inside a i False)\<rparr>)"
| uncount: "readers s r = Announced a i \<Longrightarrow>
     lease_step s (s\<lparr>reg := (reg s)\<lparr>unannounced := unannounced (reg s) - 1\<rparr>,
                     readers := (readers s)(r := Inside a i True)\<rparr>)"
| drop: "readers s r = Inside a i ok \<Longrightarrow>
     lease_step s (s\<lparr>reg := drop_pin \<lparr>pin_index = i, pin_at = a, pin_announced = ok\<rparr> (reg s),
                     readers := (readers s)(r := Finished)\<rparr>)"
| take_mark: "sweepers s k = Resting \<Longrightarrow>
     lease_step s (s\<lparr>reg := snd (mark (reg s)),
                     sweepers := (sweepers s)(k := Marked (fst (mark (reg s)))),
                     clock := clock s + 1\<rparr>)"
| ask_blocked: "sweepers s k = Marked m \<Longrightarrow> unannounced (reg s) > 0 \<Longrightarrow>
     lease_step s (s\<lparr>sweepers := (sweepers s)(k := Answered m (is_drained (Some 0) m))\<rparr>)"
| ask: "sweepers s k = Marked m \<Longrightarrow> unannounced (reg s) = 0 \<Longrightarrow>
     lease_step s (s\<lparr>sweepers := (sweepers s)(k := Scanning m 0 None)\<rparr>)"
| scan: "sweepers s k = Scanning m j low \<Longrightarrow> j < length (slots (reg s)) \<Longrightarrow>
     lease_step s (s\<lparr>sweepers := (sweepers s)(k := Scanning m (Suc j) (older low (slots (reg s) ! j)))\<rparr>)"
| decide: "sweepers s k = Scanning m j low \<Longrightarrow> j = length (slots (reg s)) \<Longrightarrow>
     lease_step s (s\<lparr>sweepers := (sweepers s)(k := Answered m (is_drained low m))\<rparr>)"
| again: "sweepers s k = Answered m b \<Longrightarrow>
     lease_step s (s\<lparr>sweepers := (sweepers s)(k := if b then Resting else Marked m)\<rparr>)"

subsection \<open>The invariant\<close>

fun epoch_of :: "reader \<Rightarrow> u64 option" where
  "epoch_of (Drawn a) = Some a"
| "epoch_of (Announced a i) = Some a"
| "epoch_of (Inside a i ok) = Some a"
| "epoch_of _ = None"

fun counted :: "reader \<Rightarrow> bool" where
  "counted Counted = True"
| "counted (Drawn a) = True"
| "counted (Announced a i) = True"
| "counted (Inside a i ok) = (\<not> ok)"
| "counted _ = False"

fun holds_slot :: "reader \<Rightarrow> (u64 \<times> nat) option" where
  "holds_slot (Announced a i) = Some (a, i)"
| "holds_slot (Inside a i True) = Some (a, i)"
| "holds_slot _ = None"

text \<open>Epochs: drawn once each, below the clock.\<close>

definition epochs_fresh :: "(nat \<Rightarrow> reader) \<Rightarrow> nat \<Rightarrow> bool" where
  "epochs_fresh rs c \<longleftrightarrow>
     (\<forall>r a. epoch_of (rs r) = Some a \<longrightarrow> 0 < unat a \<and> unat a < c) \<and>
     (\<forall>r q a. epoch_of (rs r) = Some a \<longrightarrow> epoch_of (rs q) = Some a \<longrightarrow> r = q)"

definition epochs_ok :: "lease_system \<Rightarrow> bool" where
  "epochs_ok s \<longleftrightarrow>
     epoch (reg s) = of_nat (clock s) \<and> 1 \<le> clock s \<and> epochs_fresh (readers s) (clock s)"

text \<open>Slots: a holder's slot shows its epoch, and every announcement has a holder.\<close>

definition slots_match :: "(nat \<Rightarrow> reader) \<Rightarrow> u64 list \<Rightarrow> bool" where
  "slots_match rs ss \<longleftrightarrow>
     0 < length ss \<and>
     (\<forall>r a i. holds_slot (rs r) = Some (a, i) \<longrightarrow> i < length ss \<and> ss ! i = a) \<and>
     (\<forall>i < length ss. ss ! i \<noteq> FREE \<longrightarrow> (\<exists>r. holds_slot (rs r) = Some (ss ! i, i)))"

text \<open>The count is the number of readers not announced in a slot.\<close>

definition counted_readers :: "(nat \<Rightarrow> reader) \<Rightarrow> nat set" where
  "counted_readers rs = {r. counted (rs r)}"

definition count_ok :: "lease_system \<Rightarrow> bool" where
  "count_ok s \<longleftrightarrow>
     finite (counted_readers (readers s)) \<and>
     unannounced (reg s) = card (counted_readers (readers s))"

text \<open>
  A scan that started after its mark: every reader older than the mark was already announced,
  and is either in a slot still to be loaded or accounted for in the minimum.
\<close>

definition scanned :: "(nat \<Rightarrow> reader) \<Rightarrow> u64 \<Rightarrow> nat \<Rightarrow> u64 option \<Rightarrow> bool" where
  "scanned rs m j low \<longleftrightarrow>
     (\<forall>r a. epoch_of (rs r) = Some a \<longrightarrow> a < m \<longrightarrow>
        (\<exists>i. rs r = Inside a i True \<and> (i < j \<longrightarrow> (\<exists>b. low = Some b \<and> b \<le> a))))"

fun sweeper_ok :: "lease_system \<Rightarrow> sweeper \<Rightarrow> bool" where
  "sweeper_ok s Resting = True"
| "sweeper_ok s (Marked m) = (0 < unat m \<and> unat m < clock s)"
| "sweeper_ok s (Scanning m j low) =
     (0 < unat m \<and> unat m < clock s \<and> j \<le> length (slots (reg s)) \<and> scanned (readers s) m j low)"
| "sweeper_ok s (Answered m b) =
     (0 < unat m \<and> unat m < clock s \<and>
      (b \<longrightarrow> (\<forall>r a. epoch_of (readers s r) = Some a \<longrightarrow> m \<le> a)))"

definition lease_inv :: "lease_system \<Rightarrow> bool" where
  "lease_inv s \<longleftrightarrow> epochs_ok s \<and> slots_match (readers s) (slots (reg s)) \<and> count_ok s \<and> (\<forall>k. sweeper_ok s (sweepers s k))"

lemma unat_clock: "n < 2 ^ 64 \<Longrightarrow> unat (of_nat n :: u64) = n"
  by (simp add: unat_of_nat take_bit_nat_eq_self)

lemma step_clock: "lease_step s t \<Longrightarrow> clock s \<le> clock t"
  by (cases rule: lease_step.cases) auto

lemma step_slot_count: "lease_step s t \<Longrightarrow> length (slots (reg t)) = length (slots (reg s))"
  by (cases rule: lease_step.cases)
    (auto simp: mark_def drop_pin_def release_slot_def claim_slot_def split: if_splits)

lemma holds_slot_epoch: "holds_slot x = Some (a, i) \<Longrightarrow> epoch_of x = Some a"
  by (cases x rule: holds_slot.cases) auto

lemma epochs_fresh_frame:
  assumes "epochs_fresh rs c" "epoch_of v = None \<or> epoch_of v = epoch_of (rs r)" "c \<le> d"
  shows "epochs_fresh (rs(r := v)) d"
proof -
  have sub: "epoch_of ((rs(r := v)) q) = Some a \<Longrightarrow> epoch_of (rs q) = Some a" for q a
    using assms(2) by (auto split: if_splits)
  then show ?thesis
    using assms(1,3) unfolding epochs_fresh_def by (meson less_le_trans)
qed

lemma epochs_fresh_draw:
  assumes f: "epochs_fresh rs c" and c: "c < 2 ^ 64" "1 \<le> c"
  shows "epochs_fresh (rs(r := Drawn (of_nat c))) (c + 1)"
proof -
  have new: "unat (of_nat c :: u64) = c" using c by (simp add: unat_clock)
  then have "epoch_of (rs q) \<noteq> Some (of_nat c)" for q
    using f unfolding epochs_fresh_def by (metis less_irrefl)
  with new f c show ?thesis
    unfolding epochs_fresh_def by (auto simp: less_Suc_eq)
qed

lemma epochs_fresh_unat: "epochs_fresh rs c \<Longrightarrow> epoch_of (rs r) = Some a \<Longrightarrow> 0 < unat a \<and> unat a < c"
  by (auto simp: epochs_fresh_def)

lemma step_epochs:
  assumes "lease_step s t" "epochs_ok s" "clock t < 2 ^ 64"
  shows "epochs_ok t"
  using assms(1)
proof (cases rule: lease_step.cases)
  case (draw r)
  then show ?thesis
    using assms(2,3) epochs_fresh_draw [of "readers s" "clock s" r] by (simp add: epochs_ok_def)
next
  case (take_mark k)
  then show ?thesis
    using assms(2) epochs_fresh_frame [of "readers s" "clock s" "readers s 0" 0 "clock s + 1"]
    by (simp add: epochs_ok_def mark_def)
qed (use assms(2) in \<open>auto simp: epochs_ok_def drop_pin_def intro!: epochs_fresh_frame\<close>)

lemma slots_match_frame:
  assumes "slots_match rs ss" "holds_slot v = holds_slot (rs r)"
  shows "slots_match (rs(r := v)) ss"
proof -
  have "holds_slot ((rs(r := v)) q) = holds_slot (rs q)" for q
    using assms(2) by simp
  with assms(1) show ?thesis unfolding slots_match_def by presburger
qed

lemma slots_match_holder:
  "slots_match rs ss \<Longrightarrow> holds_slot (rs r) = Some (a, i) \<Longrightarrow> i < length ss \<and> ss ! i = a"
  unfolding slots_match_def by blast

lemma slots_match_announced:
  "slots_match rs ss \<Longrightarrow> i < length ss \<Longrightarrow> ss ! i \<noteq> FREE \<Longrightarrow> \<exists>r. holds_slot (rs r) = Some (ss ! i, i)"
  unfolding slots_match_def by blast

lemma slots_match_claim:
  assumes m: "slots_match rs ss" and r: "holds_slot (rs r) = None" and i: "i < length ss" "ss ! i = FREE"
    and v: "holds_slot v = Some (a, i)"
    and used: "\<And>q b j. holds_slot (rs q) = Some (b, j) \<Longrightarrow> b \<noteq> FREE"
  shows "slots_match (rs(r := v)) (ss[i := a])"
  unfolding slots_match_def
proof (intro conjI allI impI)
  show "0 < length (ss[i := a])" using m by (simp add: slots_match_def)
next
  fix q b j assume h: "holds_slot ((rs(r := v)) q) = Some (b, j)"
  show "j < length (ss[i := a])"
    using h i(1) v slots_match_holder [OF m, of q] by (cases "q = r") simp_all
  show "ss[i := a] ! j = b"
  proof (cases "q = r")
    case True
    with h v i show ?thesis by simp
  next
    case False
    then have q: "holds_slot (rs q) = Some (b, j)" using h by simp
    then have "ss ! j = b" using slots_match_holder [OF m] by simp
    moreover from this used [OF q] i have "j \<noteq> i" by auto
    ultimately show ?thesis by simp
  qed
next
  fix j assume j: "j < length (ss[i := a])" "ss[i := a] ! j \<noteq> FREE"
  show "\<exists>q. holds_slot ((rs(r := v)) q) = Some (ss[i := a] ! j, j)"
  proof (cases "j = i")
    case True
    with i v show ?thesis by (intro exI [of _ r]) simp
  next
    case False
    with j obtain q where "holds_slot (rs q) = Some (ss ! j, j)"
      using slots_match_announced [OF m, of j] by auto
    with False r show ?thesis by (intro exI [of _ q]) auto
  qed
qed

lemma slots_match_release:
  assumes m: "slots_match rs ss" and r: "holds_slot (rs r) = Some (a, i)" and v: "holds_slot v = None"
    and alone: "\<And>q. holds_slot (rs q) = Some (a, i) \<Longrightarrow> q = r"
  shows "slots_match (rs(r := v)) (release_slot a i ss)"
proof -
  have i: "i < length ss" "ss ! i = a" using slots_match_holder [OF m r] by simp_all
  then have rel: "release_slot a i ss = ss[i := FREE]" by (simp add: release_slot_def)
  show ?thesis unfolding rel slots_match_def
  proof (intro conjI allI impI)
    show "0 < length (ss[i := FREE])" using m by (simp add: slots_match_def)
  next
    fix q b j assume "holds_slot ((rs(r := v)) q) = Some (b, j)"
    then have q: "q \<noteq> r" "holds_slot (rs q) = Some (b, j)"
      using v by (auto split: if_splits)
    then have j: "j < length ss" "ss ! j = b" using slots_match_holder [OF m] by simp_all
    show "j < length (ss[i := FREE])" using j by simp
    show "ss[i := FREE] ! j = b" using q j i alone by (cases "j = i") auto
  next
    fix j assume "j < length (ss[i := FREE])" "ss[i := FREE] ! j \<noteq> FREE"
    then have j: "j \<noteq> i" "j < length ss" "ss ! j \<noteq> FREE" using i by (auto simp: nth_list_update split: if_splits)
    then obtain q where "holds_slot (rs q) = Some (ss ! j, j)"
      using slots_match_announced [OF m, of j] by auto
    with j r show "\<exists>q. holds_slot ((rs(r := v)) q) = Some (ss[i := FREE] ! j, j)"
      by (intro exI [of _ q]) auto
  qed
qed

lemma step_slots:
  assumes st: "lease_step s t" and ep: "epochs_ok s" and m: "slots_match (readers s) (slots (reg s))"
  shows "slots_match (readers t) (slots (reg t))"
  using st
proof (cases rule: lease_step.cases)
  case (announce r a i ok ss)
  have used: "b \<noteq> FREE" if "holds_slot (readers s q) = Some (b, j)" for q b j
    using epochs_fresh_unat [of "readers s" "clock s" q b] holds_slot_epoch [OF that] ep
    by (auto simp: epochs_ok_def FREE_def)
  have idle: "holds_slot (readers s r) = None" using announce by simp
  show ?thesis
  proof (cases ok)
    case True
    with announce have "i < length (slots (reg s))" "slots (reg s) ! i = FREE"
        "ss = (slots (reg s))[i := a]"
      by (auto simp: claim_slot_def split: if_splits)
    then show ?thesis
      using slots_match_claim [OF m idle, of i "Announced a i" a] used True announce(1) by simp
  next
    case False
    with announce have "ss = slots (reg s)"
      by (auto simp: claim_slot_def split: if_splits)
    then show ?thesis
      using slots_match_frame [OF m, of "Inside a i False" r] False announce(1) idle by simp
  qed
next
  case (drop r a i ok)
  show ?thesis
  proof (cases ok)
    case True
    then have r: "holds_slot (readers s r) = Some (a, i)" using drop by simp
    have "q = r" if "holds_slot (readers s q) = Some (a, i)" for q
      using holds_slot_epoch [OF that] holds_slot_epoch [OF r] ep unfolding epochs_ok_def epochs_fresh_def by blast
    with slots_match_release [OF m r, of Finished] show ?thesis
      using True drop(1) by (simp add: drop_pin_def)
  next
    case False
    then show ?thesis
      using slots_match_frame [OF m, of Finished r] drop by (simp add: drop_pin_def)
  qed
qed (use m in \<open>auto simp: mark_def intro!: slots_match_frame\<close>)

lemma counted_readers_update:
  "counted_readers (f(r := v)) =
     (if counted v then insert r (counted_readers f) else counted_readers f - {r})"
  by (auto simp: counted_readers_def)

lemma step_count:
  assumes "lease_step s t" "count_ok s"
  shows "count_ok t"
  using assms(1)
proof (cases rule: lease_step.cases)
  case (announce r a i ok ss)
  then have "r \<in> counted_readers (readers s)" by (simp add: counted_readers_def)
  then show ?thesis using announce(1) assms(2)
    by (simp add: count_ok_def counted_readers_update insert_absorb)
next
  case (drop r a i ok)
  then have "r \<in> counted_readers (readers s) \<longleftrightarrow> \<not> ok" by (simp add: counted_readers_def)
  then show ?thesis using drop(1) assms(2)
    by (auto simp: count_ok_def counted_readers_update drop_pin_def)
next
  case (uncount r a i)
  then have "r \<in> counted_readers (readers s)" by (simp add: counted_readers_def)
  then show ?thesis using uncount(1) assms(2)
    by (simp add: count_ok_def counted_readers_update)
next
  case (count r)
  then have "r \<notin> counted_readers (readers s)" by (simp add: counted_readers_def)
  then show ?thesis using count(1) assms(2)
    by (simp add: count_ok_def counted_readers_update)
next
  case (draw r)
  then have "r \<in> counted_readers (readers s)" by (simp add: counted_readers_def)
  then show ?thesis using draw(1) assms(2)
    by (simp add: count_ok_def counted_readers_update insert_absorb)
qed (use assms(2) in \<open>auto simp: count_ok_def mark_def\<close>)

text \<open>What a sweeper knows survives every step of a reader that draws no older epoch.\<close>

definition unpinned :: "reader \<Rightarrow> bool" where
  "unpinned x \<longleftrightarrow> (\<forall>a i. x \<noteq> Inside a i True)"

lemma unpinned_simps [simp]:
  "unpinned Idle" "unpinned Counted" "unpinned (Drawn a)" "unpinned (Announced a i)"
  "unpinned Finished" "unpinned (Inside a i False)"
  by (simp_all add: unpinned_def)

lemma scanned_frame:
  assumes sc: "scanned rs m j low"
    and v: "\<And>a. epoch_of v = Some a \<Longrightarrow> m \<le> a \<or> epoch_of (rs r) = Some a \<and> unpinned (rs r)"
  shows "scanned (rs(r := v)) m j low"
  unfolding scanned_def
proof (intro allI impI)
  fix q a assume q: "epoch_of ((rs(r := v)) q) = Some a" "a < m"
  have "q \<noteq> r"
  proof
    assume "q = r"
    with q v [of a] have "epoch_of (rs r) = Some a" "unpinned (rs r)" by auto
    with sc [unfolded scanned_def, rule_format, of r a] q(2) show False
      by (auto simp: unpinned_def)
  qed
  with q sc show "\<exists>i. (rs(r := v)) q = Inside a i True \<and> (i < j \<longrightarrow> (\<exists>b. low = Some b \<and> b \<le> a))"
    unfolding scanned_def by auto
qed

lemma sweeper_ok_reader:
  assumes ok: "sweeper_ok s w" and rs: "readers t = (readers s)(r := v)"
    and fr: "clock s \<le> clock t" "length (slots (reg t)) = length (slots (reg s))"
    and v: "\<And>m a. epoch_of v = Some a \<Longrightarrow> unat m < clock s \<Longrightarrow>
      m \<le> a \<or> epoch_of (readers s r) = Some a \<and> unpinned (readers s r)"
  shows "sweeper_ok t w"
proof (cases w)
  case (Marked m)
  with ok fr show ?thesis by simp
next
  case (Scanning m j low)
  with ok have "scanned (readers s) m j low" "unat m < clock s" by simp_all
  then have "scanned ((readers s)(r := v)) m j low" using v by (intro scanned_frame) auto
  with Scanning ok fr rs show ?thesis by simp
next
  case (Answered m b)
  have "m \<le> a" if "b" "epoch_of (readers t q) = Some a" for q a
  proof (cases "q = r")
    case True
    with that rs Answered ok v [of a m] show ?thesis by auto
  next
    case False
    with that rs Answered ok show ?thesis by auto
  qed
  with Answered ok fr show ?thesis by auto
qed simp

lemma scan_start:
  assumes "unannounced (reg s) = 0" "count_ok s"
  shows "scanned (readers s) m 0 None"
proof -
  have "\<not> counted (readers s r)" for r
    using assms by (auto simp: count_ok_def counted_readers_def)
  then have "\<exists>i. readers s r = Inside a i True" if "epoch_of (readers s r) = Some a" for r a
    using that \<open>\<not> counted (readers s r)\<close> by (cases "readers s r") auto
  then show ?thesis by (auto simp: scanned_def)
qed

lemma older_le: "low = Some b \<Longrightarrow> \<exists>c. older low a = Some c \<and> c \<le> b"
  by (auto simp: older_def)

lemma older_self: "a \<noteq> FREE \<Longrightarrow> \<exists>c. older low a = Some c \<and> c \<le> a"
  by (auto simp: older_def split: option.splits)

lemma scan_next:
  assumes sc: "scanned rs m j low" and ma: "slots_match rs ss" and ep: "epochs_fresh rs c"
  shows "scanned rs m (Suc j) (older low (ss ! j))"
  unfolding scanned_def
proof (intro allI impI)
  fix r a assume r: "epoch_of (rs r) = Some a" "a < m"
  with sc obtain i where i: "rs r = Inside a i True" "i < j \<longrightarrow> (\<exists>b. low = Some b \<and> b \<le> a)"
    unfolding scanned_def by blast
  have "\<exists>b. older low (ss ! j) = Some b \<and> b \<le> a" if "i < Suc j"
  proof (cases "i = j")
    case True
    have "ss ! j = a" using i(1) True slots_match_holder [OF ma, of r] by simp
    moreover have "a \<noteq> FREE" using epochs_fresh_unat [OF ep r(1)] by (auto simp: FREE_def)
    ultimately show ?thesis using older_self by metis
  next
    case False
    with that i(2) obtain b where "low = Some b" "b \<le> a" by auto
    with older_le [of low b "ss ! j"] show ?thesis by force
  qed
  with i(1) show "\<exists>i. rs r = Inside a i True \<and> (i < Suc j \<longrightarrow> (\<exists>b. older low (ss ! j) = Some b \<and> b \<le> a))"
    by blast
qed

lemma scan_decides:
  assumes sc: "scanned rs m (length ss) low" and ma: "slots_match rs ss" and d: "is_drained low m"
    and r: "epoch_of (rs r) = Some a"
  shows "m \<le> a"
proof (rule ccontr)
  assume "\<not> m \<le> a"
  then have "a < m" by simp
  with sc r obtain i where i: "rs r = Inside a i True"
      "i < length ss \<longrightarrow> (\<exists>b. low = Some b \<and> b \<le> a)"
    unfolding scanned_def by blast
  from i(1) have "i < length ss" using slots_match_holder [OF ma, of r] by simp
  with i(2) d \<open>\<not> m \<le> a\<close> show False by (auto simp: is_drained_def)
qed

lemma step_sweepers:
  assumes st: "lease_step s t" and ep: "epochs_ok s" and lt: "clock t < 2 ^ 64"
    and ma: "slots_match (readers s) (slots (reg s))" and co: "count_ok s"
    and sw: "\<And>k. sweeper_ok s (sweepers s k)"
  shows "sweeper_ok t (sweepers t k)"
proof -
  note fr = step_clock [OF st] step_slot_count [OF st]
  have ef: "epochs_fresh (readers s) (clock s)" using ep by (simp add: epochs_ok_def)
  have same: "sweeper_ok t w" if "sweeper_ok s w" "readers t = readers s" for w
    using that fr by (cases w) auto
  from st show ?thesis
  proof (cases rule: lease_step.cases)
    case (count r)
    then show ?thesis
      using fr by (intro sweeper_ok_reader [of s "sweepers t k" t r Counted]) (auto simp: sw)
  next
    case (draw r)
    have "unat (epoch (reg s)) = clock s"
      using ep lt draw(1) by (simp add: epochs_ok_def unat_clock)
    then show ?thesis
      using draw fr
      by (intro sweeper_ok_reader [of s "sweepers t k" t r "Drawn (epoch (reg s))"])
         (auto simp: sw word_le_nat_alt)
  next
    case (announce r a i ok ss)
    then show ?thesis
      using fr
      by (intro sweeper_ok_reader [of s "sweepers t k" t r "if ok then Announced a i else Inside a i False"])
         (auto simp: sw split: if_splits)
  next
    case (uncount r a i)
    then show ?thesis
      using fr by (intro sweeper_ok_reader [of s "sweepers t k" t r "Inside a i True"]) (auto simp: sw)
  next
    case (drop r a i ok)
    then show ?thesis
      using fr by (intro sweeper_ok_reader [of s "sweepers t k" t r Finished]) (auto simp: sw)
  next
    case (take_mark j)
    have "unat (epoch (reg s)) = clock s"
      using ep lt take_mark(1) by (simp add: epochs_ok_def unat_clock)
    then show ?thesis
      using take_mark same sw ep by (auto simp: mark_def epochs_ok_def)
  next
    case (ask_blocked j m)
    then show ?thesis using same sw [of k] sw [of j] by (auto simp: is_drained_def)
  next
    case (ask j m)
    then show ?thesis using same sw [of k] sw [of j] scan_start [OF _ co] by auto
  next
    case (scan j m i low)
    then show ?thesis using same sw [of k] sw [of j] scan_next [OF _ ma ef] by auto
  next
    case (decide j m i low)
    then show ?thesis using same sw [of k] sw [of j] scan_decides [OF _ ma] by auto
  next
    case (again j m b)
    then show ?thesis using same sw [of k] sw [of j] by auto
  qed
qed

lemma lease_initial_inv: "lease_initial s \<Longrightarrow> lease_inv s"
proof -
  assume "lease_initial s"
  then obtain n where s: "s = \<lparr>reg = leases_with_slots n, readers = (\<lambda>_. Idle), sweepers = (\<lambda>_. Resting), clock = 1\<rparr>"
    by (auto simp: lease_initial_def)
  show ?thesis
    unfolding s lease_inv_def
    by (auto simp: epochs_ok_def epochs_fresh_def slots_match_def count_ok_def counted_readers_def
        leases_with_slots_def)
qed

lemma lease_step_inv:
  assumes "lease_step s t" "lease_inv s" "clock t < 2 ^ 64"
  shows "lease_inv t"
  using step_epochs [OF assms(1) _ assms(3)] step_slots [OF assms(1)] step_count [OF assms(1)]
    step_sweepers [OF assms(1) _ assms(3)] assms(2)
  by (simp add: lease_inv_def)

interpretation lease_sys: transition_invariant lease_initial lease_step
  "\<lambda>s. clock s < 2 ^ 64 \<longrightarrow> lease_inv s"
proof unfold_locales
  fix s t
  assume "clock s < 2 ^ 64 \<longrightarrow> lease_inv s" "lease_step s t"
  then show "clock t < 2 ^ 64 \<longrightarrow> lease_inv t"
    using step_clock [of s t] lease_step_inv [of s t] by linarith
qed (simp add: lease_initial_inv)

subsection \<open>What the registry promises\<close>

text \<open>
  C4: Nothing is reclaimed under a reader: in every interleaving of readers and sweepers that
  has not exhausted the 64-bit epoch, once a sweeper was told that its mark has drained, every
  reader between its pin and its drop started after the mark. In particular the order of the
  first two operations of \<open>pin\<close>, which the code argues and does not test, is enough.
\<close>

theorem drained_excludes_older_readers:
  assumes "reachable lease_initial lease_step s" and "clock s < 2 ^ 64"
    and "sweepers s k = Answered m True"
    and "epoch_of (readers s r) = Some a"
  shows "m \<le> a"
proof -
  from lease_sys.reachable_inv [OF assms(1)] assms(2) have "lease_inv s" by simp
  then have "sweeper_ok s (sweepers s k)" by (simp add: lease_inv_def)
  with assms(3,4) show ?thesis by auto
qed

theorem drained_excludes_older_readers_witness:
  "\<exists>s. reachable lease_initial lease_step s \<and> sweepers s 0 = Answered 1 True \<and>
     readers s 0 = Inside 2 0 True \<and> (1 :: u64) \<le> 2"
proof -
  let ?R = "reachable lease_initial lease_step"
  note go = reach_step [where initial = lease_initial and step = lease_step]
  obtain s0 where 0: "?R s0" "reg s0 = \<lparr>epoch = 1, slots = [0], unannounced = 0\<rparr>"
      "readers s0 = (\<lambda>_. Idle)" "sweepers s0 = (\<lambda>_. Resting)" "clock s0 = 1"
    by (rule that [OF reach_initial [where s = "\<lparr>reg = leases_with_slots 1, readers = (\<lambda>_. Idle),
            sweepers = (\<lambda>_. Resting), clock = 1\<rparr>"]])
       (auto simp: lease_initial_def leases_with_slots_def FREE_def intro: exI [of _ 1])
  obtain s1 where 1: "?R s1" "reg s1 = \<lparr>epoch = 2, slots = [0], unannounced = 0\<rparr>"
      "readers s1 0 = Idle" "sweepers s1 0 = Marked 1" "clock s1 = 2"
    using 0 by (intro that [OF go [OF _ take_mark [of s0 0]]]) (auto simp: mark_def)
  obtain s2 where 2: "?R s2" "reg s2 = \<lparr>epoch = 2, slots = [0], unannounced = 1\<rparr>"
      "readers s2 0 = Counted" "sweepers s2 0 = Marked 1" "clock s2 = 2"
    using 1 by (intro that [OF go [OF _ count [of s1 0]]]) auto
  obtain s3 where 3: "?R s3" "reg s3 = \<lparr>epoch = 3, slots = [0], unannounced = 1\<rparr>"
      "readers s3 0 = Drawn 2" "sweepers s3 0 = Marked 1" "clock s3 = 3"
    using 2 by (intro that [OF go [OF _ draw [of s2 0]]]) auto
  obtain s4 where 4: "?R s4" "reg s4 = \<lparr>epoch = 3, slots = [2], unannounced = 1\<rparr>"
      "readers s4 0 = Announced 2 0" "sweepers s4 0 = Marked 1" "clock s4 = 3"
    using 3 by (intro that [OF go [OF _ announce [of s3 0 2 0 True "[2]"]]])
      (auto simp: slot_for_def claim_slot_def FREE_def)
  obtain s5 where 5: "?R s5" "reg s5 = \<lparr>epoch = 3, slots = [2], unannounced = 0\<rparr>"
      "readers s5 0 = Inside 2 0 True" "sweepers s5 0 = Marked 1" "clock s5 = 3"
    using 4 by (intro that [OF go [OF _ uncount [of s4 0 2 0]]]) auto
  obtain s6 where 6: "?R s6" "reg s6 = reg s5" "readers s6 0 = Inside 2 0 True"
      "sweepers s6 0 = Scanning 1 0 None" "clock s6 = 3"
    using 5 by (intro that [OF go [OF _ ask [of s5 0 1]]]) auto
  obtain s7 where 7: "?R s7" "reg s7 = reg s5" "readers s7 0 = Inside 2 0 True"
      "sweepers s7 0 = Scanning 1 1 (Some 2)" "clock s7 = 3"
    using 6 5(2) by (intro that [OF go [OF _ scan [of s6 0 1 0 None]]]) (auto simp: older_def FREE_def)
  obtain s8 where 8: "?R s8" "readers s8 0 = Inside 2 0 True" "sweepers s8 0 = Answered 1 True" "clock s8 = 3"
    using 7 5(2) by (intro that [OF go [OF _ decide [of s7 0 1 1 "Some 2"]]]) (auto simp: is_drained_def)
  from 8 drained_excludes_older_readers [OF 8(1) _ 8(3), of 0 2] show ?thesis by auto
qed

text \<open>
  Nothing leaks: when every reader that pinned has dropped its guard, all slots are free, the
  count is zero and any mark is reported drained, so reclamation is delayed and never lost.
\<close>

theorem quiescent_registry_drains:
  assumes "reachable lease_initial lease_step s" and "clock s < 2 ^ 64"
    and "\<forall>r. readers s r = Idle \<or> readers s r = Finished"
  shows "unannounced (reg s) = 0 \<and> filter (\<lambda>a. a \<noteq> FREE) (slots (reg s)) = [] \<and>
    oldest_active (reg s) = None \<and> drained (reg s) m"
proof -
  from lease_sys.reachable_inv [OF assms(1)] assms(2) have inv: "lease_inv s" by simp
  have none: "holds_slot (readers s r) = None \<and> \<not> counted (readers s r)" for r
    using assms(3) [rule_format, of r] by auto
  have "slots (reg s) ! i = FREE" if "i < length (slots (reg s))" for i
    using slots_match_announced [of "readers s" "slots (reg s)" i] inv that none
    by (auto simp: lease_inv_def)
  then have free: "filter (\<lambda>a. a \<noteq> FREE) (slots (reg s)) = []"
    by (auto simp: filter_empty_conv in_set_conv_nth)
  moreover have "unannounced (reg s) = 0"
    using inv none by (simp add: lease_inv_def count_ok_def counted_readers_def)
  ultimately show ?thesis
    by (simp add: oldest_active_def drained_def is_drained_def)
qed

theorem quiescent_registry_drains_witness:
  "drained (leases_with_slots 8) 5"
proof -
  let ?s = "\<lparr>reg = leases_with_slots 8, readers = (\<lambda>_. Idle), sweepers = (\<lambda>_. Resting), clock = 1\<rparr>"
  have "reachable lease_initial lease_step ?s"
    by (rule reach_initial) (auto simp: lease_initial_def)
  from quiescent_registry_drains [OF this] show ?thesis by simp
qed

subsection \<open>The operations as uninterrupted runs of the steps\<close>

lemma fold_older:
  "foldl older low ss =
     (case iter_min (filter (\<lambda>a. a \<noteq> FREE) ss) of
        None \<Rightarrow> low
      | Some m \<Rightarrow> Some (case low of None \<Rightarrow> m | Some b \<Rightarrow> min b m))"
proof (induction ss arbitrary: low)
  case (Cons a ss)
  then show ?case
    by (cases "a = FREE"; cases low)
       (auto simp: older_def iter_min_Cons min.assoc min.commute min.left_commute split: option.splits)
qed simp

lemma scan_run:
  assumes "sweepers s k = Scanning m j low" "j \<le> length (slots (reg s))"
  shows "\<exists>t. lease_step\<^sup>*\<^sup>* s t \<and> reg t = reg s \<and>
    sweepers t k = Scanning m (length (slots (reg s))) (foldl older low (drop j (slots (reg s))))"
  using assms
proof (induction "length (slots (reg s)) - j" arbitrary: s j low)
  case 0
  then show ?case by (intro exI [of _ s]) simp
next
  case (Suc n)
  define u where "u = s\<lparr>sweepers := (sweepers s)(k := Scanning m (Suc j) (older low (slots (reg s) ! j)))\<rparr>"
  have j: "j < length (slots (reg s))" using Suc.hyps(2) by linarith
  have st: "lease_step s u" unfolding u_def by (rule scan [OF Suc.prems(1) j])
  have u: "reg u = reg s" "sweepers u k = Scanning m (Suc j) (older low (slots (reg s) ! j))"
    by (simp_all add: u_def)
  have n: "n = length (slots (reg u)) - Suc j" using Suc.hyps(2) u by simp
  obtain t where t: "lease_step\<^sup>*\<^sup>* u t" "reg t = reg s" "sweepers t k =
      Scanning m (length (slots (reg s))) (foldl older (older low (slots (reg s) ! j)) (drop (Suc j) (slots (reg s))))"
    using Suc.hyps(1) [OF n u(2)] j unfolding u(1) by auto
  have "drop j (slots (reg s)) = slots (reg s) ! j # drop (Suc j) (slots (reg s))"
    using j by (simp add: Cons_nth_drop_Suc)
  with t st show ?case
    by (intro exI [of _ t]) (auto intro: converse_rtranclp_into_rtranclp)
qed

lemma pin_run:
  assumes "readers s r = Idle"
  shows "\<exists>t. lease_step\<^sup>*\<^sup>* s t \<and> reg t = snd (pin (reg s)) \<and>
    readers t r = (let g = fst (pin (reg s)) in Inside (pin_at g) (pin_index g) (pin_announced g))"
proof -
  define a where "a = epoch (reg s)"
  define i where "i = slot_for a (length (slots (reg s)))"
  obtain ok ss where cl: "claim_slot a i (slots (reg s)) = (ok, ss)" by fastforce
  define s1 where "s1 = s\<lparr>reg := (reg s)\<lparr>unannounced := unannounced (reg s) + 1\<rparr>, readers := (readers s)(r := Counted)\<rparr>"
  define s2 where "s2 = s1\<lparr>reg := (reg s1)\<lparr>epoch := epoch (reg s1) + 1\<rparr>, readers := (readers s1)(r := Drawn (epoch (reg s1))), clock := clock s1 + 1\<rparr>"
  define s3 where "s3 = s2\<lparr>reg := (reg s2)\<lparr>slots := ss\<rparr>, readers := (readers s2)(r := if ok then Announced a i else Inside a i False)\<rparr>"
  define s4 where "s4 = s3\<lparr>reg := (reg s3)\<lparr>unannounced := unannounced (reg s3) - 1\<rparr>, readers := (readers s3)(r := Inside a i True)\<rparr>"
  have 1: "lease_step s s1" unfolding s1_def by (rule count [OF assms])
  have 2: "lease_step s1 s2" unfolding s2_def by (rule draw) (simp add: s1_def)
  have 3: "lease_step s2 s3" unfolding s3_def
    using cl by (intro announce) (simp_all add: s2_def s1_def a_def i_def)
  have run: "lease_step\<^sup>*\<^sup>* s s3"
    by (rule converse_rtranclp_into_rtranclp [OF 1 converse_rtranclp_into_rtranclp [OF 2 r_into_rtranclp [of lease_step, OF 3]]])
  have p: "pin (reg s) = (if ok then (\<lparr>pin_index = i, pin_at = a, pin_announced = True\<rparr>,
      (reg s)\<lparr>epoch := epoch (reg s) + 1, slots := ss\<rparr>)
    else (\<lparr>pin_index = i, pin_at = a, pin_announced = False\<rparr>,
      (reg s)\<lparr>epoch := epoch (reg s) + 1, slots := ss, unannounced := unannounced (reg s) + 1\<rparr>))"
    using cl by (simp add: pin_def Let_def a_def i_def)
  show ?thesis
  proof (cases ok)
    case True
    then have "lease_step s3 s4" unfolding s4_def by (intro uncount) (simp add: s3_def)
    with run have "lease_step\<^sup>*\<^sup>* s s4" by (rule rtranclp.rtrancl_into_rtrancl)
    with True cl show ?thesis
      by (intro exI [of _ s4]) (simp add: s4_def s3_def s2_def s1_def p)
  next
    case False
    with run cl show ?thesis
      by (intro exI [of _ s3]) (simp add: s3_def s2_def s1_def p)
  qed
qed

text \<open>
  The interleaved model is the code's: \<open>pin\<close> and \<open>drained\<close> are the uninterrupted runs of
  their atomic steps, with the same effect on the registry and the same answer.
\<close>

theorem operations_are_step_runs:
  "(readers s r = Idle \<longrightarrow>
     (\<exists>t. lease_step\<^sup>*\<^sup>* s t \<and> reg t = snd (pin (reg s)) \<and>
        readers t r = (let g = fst (pin (reg s)) in Inside (pin_at g) (pin_index g) (pin_announced g)))) \<and>
   (sweepers s k = Marked m \<longrightarrow>
     (\<exists>t. lease_step\<^sup>*\<^sup>* s t \<and> reg t = reg s \<and> sweepers t k = Answered m (drained (reg s) m)))"
proof (intro conjI impI)
  assume k: "sweepers s k = Marked m"
  show "\<exists>t. lease_step\<^sup>*\<^sup>* s t \<and> reg t = reg s \<and> sweepers t k = Answered m (drained (reg s) m)"
  proof (cases "unannounced (reg s) = 0")
    case False
    then show ?thesis
      using ask_blocked [OF k] False
      by (intro exI [of _ "s\<lparr>sweepers := (sweepers s)(k := Answered m (is_drained (Some 0) m))\<rparr>"])
         (simp add: drained_def oldest_active_def r_into_rtranclp)
  next
    case True
    define u where "u = s\<lparr>sweepers := (sweepers s)(k := Scanning m 0 None)\<rparr>"
    have st: "lease_step s u" unfolding u_def by (rule ask [OF k True])
    obtain t where t: "lease_step\<^sup>*\<^sup>* u t" "reg t = reg s"
        "sweepers t k = Scanning m (length (slots (reg s))) (foldl older None (slots (reg s)))"
      using scan_run [of u k m 0 None] by (auto simp: u_def)
    define w where "w = t\<lparr>sweepers := (sweepers t)(k := Answered m (is_drained (foldl older None (slots (reg s))) m))\<rparr>"
    have "lease_step t w" unfolding w_def using t by (intro decide) auto
    with st t have "lease_step\<^sup>*\<^sup>* s w" by (meson converse_rtranclp_into_rtranclp rtranclp.rtrancl_into_rtrancl)
    moreover have "foldl older None (slots (reg s)) = oldest_active (reg s)"
      using True by (simp add: fold_older oldest_active_def split: option.splits)
    ultimately show ?thesis
      using t by (intro exI [of _ w]) (simp add: w_def drained_def)
  qed
qed (rule pin_run)

theorem operations_are_step_runs_witness:
  "\<exists>t. lease_step\<^sup>*\<^sup>* \<lparr>reg = leases_with_slots 2, readers = (\<lambda>_. Idle), sweepers = (\<lambda>_. Marked 1), clock = 2\<rparr> t \<and>
     sweepers t 0 = Answered 1 True"
proof -
  have "drained (leases_with_slots 2) 1"
    by (simp add: drained_def oldest_active_def leases_with_slots_def is_drained_def filter_replicate)
  then show ?thesis
    using operations_are_step_runs [of "\<lparr>reg = leases_with_slots 2, readers = (\<lambda>_. Idle),
        sweepers = (\<lambda>_. Marked 1), clock = 2\<rparr>" 0 0 1] by auto
qed

end
