(* ===== verification/Schema_Model.thy ===== *)
theory Schema_Model
  imports Prelude
begin

text \<open>
  The logical schema of \<^verbatim>\<open>crates/sankhya-schema/src/model.rs\<close>: the types a table may have,
  their Arrow form and the system columns. Arrow's \<open>DataType\<close> is a library type: the
  constructors the program names are kept, every other one is \<open>Arrow_Other\<close> with Arrow's own
  rendering of it.
\<close>

record precision =
  digits :: u8
  scale :: u8

definition MAX_DIGITS :: u8 where "MAX_DIGITS = 38"

definition precision_new :: "u8 \<Rightarrow> u8 \<Rightarrow> precision option" where
  "precision_new d s =
     (if d = 0 \<or> d > MAX_DIGITS \<or> s > d then None else Some \<lparr>digits = d, scale = s\<rparr>)"

datatype logical_type =
    Boolean | Int16 | Int32 | Int64 | Float32 | Float64
  | Decimal precision
  | Utf8 | Binary | TimestampUtc | TimestampLocal | Date | Time | Uuid | Json

datatype time_unit = Second | Millisecond | Microsecond | Nanosecond

datatype data_type =
    Arrow_Boolean | Arrow_Int16 | Arrow_Int32 | Arrow_Int64 | Arrow_UInt64
  | Arrow_Float32 | Arrow_Float64
  | Arrow_Decimal128 u8 "8 word"
  | Arrow_Utf8 | Arrow_Binary
  | Arrow_Timestamp time_unit "string option"
  | Arrow_Date32
  | Arrow_Time64 time_unit
  | Arrow_FixedSizeBinary int
  | Arrow_Other string

text \<open>\<open>i8::try_from(scale).unwrap_or(0)\<close>: a scale of 128 or more becomes 0.\<close>

definition arrow_scale :: "u8 \<Rightarrow> 8 word" where
  "arrow_scale s = (if s < 128 then s else 0)"

fun arrow_type :: "logical_type \<Rightarrow> data_type" where
  "arrow_type Boolean = Arrow_Boolean"
| "arrow_type Int16 = Arrow_Int16"
| "arrow_type Int32 = Arrow_Int32"
| "arrow_type Int64 = Arrow_Int64"
| "arrow_type Float32 = Arrow_Float32"
| "arrow_type Float64 = Arrow_Float64"
| "arrow_type (Decimal p) = Arrow_Decimal128 (digits p) (arrow_scale (scale p))"
| "arrow_type Utf8 = Arrow_Utf8"
| "arrow_type Json = Arrow_Utf8"
| "arrow_type Binary = Arrow_Binary"
| "arrow_type TimestampUtc = Arrow_Timestamp Microsecond (Some ''UTC'')"
| "arrow_type TimestampLocal = Arrow_Timestamp Microsecond None"
| "arrow_type Date = Arrow_Date32"
| "arrow_type Time = Arrow_Time64 Microsecond"
| "arrow_type Uuid = Arrow_FixedSizeBinary 16"

definition is_exact :: "logical_type \<Rightarrow> bool" where
  "is_exact t \<longleftrightarrow> t \<noteq> Float32 \<and> t \<noteq> Float64"

record field =
  field_name :: string
  field_logical :: logical_type
  field_nullable :: bool
  field_is_key :: bool

type_synonym logical_schema = "field list"

definition key_fields :: "logical_schema \<Rightarrow> field list" where
  "key_fields s = filter field_is_key s"

definition has_identity :: "logical_schema \<Rightarrow> bool" where
  "has_identity s = list_ex field_is_key s"

definition system_column_names :: "string list" where
  "system_column_names = [''_sankhya_commit_lsn'', ''_sankhya_commit_ts'', ''_sankhya_op'']"

text \<open>An Arrow field: its name, type and nullability.\<close>

definition arrow_schema :: "logical_schema \<Rightarrow> (string \<times> data_type \<times> bool) list" where
  "arrow_schema s =
     map (\<lambda>f. (field_name f, arrow_type (field_logical f), field_nullable f)) s @
     [(''_sankhya_commit_lsn'', Arrow_UInt64, False),
      (''_sankhya_commit_ts'', Arrow_Timestamp Microsecond (Some ''UTC''), True),
      (''_sankhya_op'', Arrow_Utf8, False)]"

definition collides_with_system_column :: "logical_schema \<Rightarrow> string option" where
  "collides_with_system_column s =
     map_option field_name (List.find (\<lambda>f. field_name f \<in> set system_column_names) s)"

lemma arrow_scale_precision: "precision_new d s = Some p \<Longrightarrow> arrow_scale (scale p) = scale p"
proof -
  assume "precision_new d s = Some p"
  then have "scale p \<le> 38"
    by (auto simp: precision_new_def MAX_DIGITS_def not_less split: if_splits)
  then have "scale p < 128" by (rule order.strict_trans1) simp
  then show ?thesis by (simp add: arrow_scale_def)
qed

lemma no_collision_distinct:
  assumes "collides_with_system_column s = None" "distinct (map field_name s)"
  shows "distinct (map fst (arrow_schema s))"
proof -
  have "\<forall>f \<in> set s. field_name f \<notin> set system_column_names"
    using assms(1) by (simp add: collides_with_system_column_def find_None_iff_all)
  moreover have "map fst (arrow_schema s) = map field_name s @ system_column_names"
    by (simp add: arrow_schema_def system_column_names_def comp_def)
  ultimately show ?thesis
    using assms(2) by (auto simp: system_column_names_def)
qed

end
