(* ===== verification/Tier_Policy.thy ===== *)
theory Tier_Policy
  imports Schema_Model
begin

text \<open>
  What may be tiered and by whom: \<^verbatim>\<open>crates/sankhya-tiering/src/policy.rs\<close> (eligibility of a
  table) and \<^verbatim>\<open>permission.rs\<close> (separation of duties).
\<close>

subsection \<open>Eligibility\<close>

datatype not_canonical = FloatingPoint | UnstableTextForm

fun canonical_encoding :: "logical_type \<Rightarrow> not_canonical + unit" where
  "canonical_encoding Boolean = Inr ()"
| "canonical_encoding Int16 = Inr ()"
| "canonical_encoding Int32 = Inr ()"
| "canonical_encoding Int64 = Inr ()"
| "canonical_encoding Date = Inr ()"
| "canonical_encoding Time = Inr ()"
| "canonical_encoding TimestampUtc = Inr ()"
| "canonical_encoding Uuid = Inr ()"
| "canonical_encoding TimestampLocal = Inr ()"
| "canonical_encoding (Decimal _) = Inr ()"
| "canonical_encoding Utf8 = Inr ()"
| "canonical_encoding Binary = Inr ()"
| "canonical_encoding Float32 = Inl FloatingPoint"
| "canonical_encoding Float64 = Inl FloatingPoint"
| "canonical_encoding Json = Inl UnstableTextForm"

fun has_ordinal :: "logical_type \<Rightarrow> bool" where
  "has_ordinal Int16 = True"
| "has_ordinal Int32 = True"
| "has_ordinal Int64 = True"
| "has_ordinal (Decimal _) = True"
| "has_ordinal TimestampUtc = True"
| "has_ordinal TimestampLocal = True"
| "has_ordinal Date = True"
| "has_ordinal Time = True"
| "has_ordinal _ = False"

record column =
  col_name :: string
  col_logical :: logical_type
  col_key :: bool

datatype contract = AppendOnly | Mutable

record retention =
  basis :: string
  ret_days :: u32

record policy =
  pol_name :: string
  pol_table :: string
  tiering_key :: string
  pol_columns :: "column list"
  pol_contract :: contract
  range_partitioned :: bool
  pol_retention :: retention
  publication_excludes_deletes :: bool
  identifiers_vaulted :: bool

datatype ineligible =
    NotAppendOnly
  | PublicationPropagatesDeletes
  | TieringKeyNotOrdinal string
  | NoPrimaryKey
  | NotRangePartitioned string
  | NoSuchKey string
  | UnarchivableColumn string not_canonical
  | IdentifiersNotVaulted
  | NoRetentionBasis
  | NoColumns

definition unarchivable :: "column \<Rightarrow> ineligible list" where
  "unarchivable c =
     (case canonical_encoding (col_logical c) of
        Inl why \<Rightarrow> [UnarchivableColumn (col_name c) why] | Inr _ \<Rightarrow> [])"

definition eligible :: "policy \<Rightarrow> ineligible list" where
  "eligible p =
     (if pol_columns p = [] then [NoColumns]
      else
        (if pol_contract p \<noteq> AppendOnly then [NotAppendOnly] else []) @
        (if \<not> list_ex (\<lambda>c. col_name c = tiering_key p) (pol_columns p)
         then [NoSuchKey (tiering_key p)] else []) @
        (if \<not> range_partitioned p then [NotRangePartitioned (tiering_key p)] else []) @
        concat (map unarchivable (pol_columns p)) @
        (case List.find (\<lambda>c. col_name c = tiering_key p) (pol_columns p) of
           Some c \<Rightarrow> if \<not> has_ordinal (col_logical c) then [TieringKeyNotOrdinal (tiering_key p)] else []
         | None \<Rightarrow> []) @
        (if \<not> list_ex col_key (pol_columns p) then [NoPrimaryKey] else []) @
        (if \<not> publication_excludes_deletes p then [PublicationPropagatesDeletes] else []) @
        (if \<not> identifiers_vaulted p then [IdentifiersNotVaulted] else []) @
        (if trim (basis (pol_retention p)) = [] \<or> ret_days (pol_retention p) = 0
         then [NoRetentionBasis] else []))"

definition is_eligible :: "ineligible list \<Rightarrow> bool" where
  "is_eligible refusals \<longleftrightarrow> refusals = []"

lemma unarchivable_Nil [simp]: "unarchivable c = [] \<longleftrightarrow> is_ok (canonical_encoding (col_logical c))"
  by (simp add: unarchivable_def split: sum.splits)

text \<open>What an eligible policy promises, as the rest of the tiering relies on it.\<close>

lemma is_eligible_iff:
  "is_eligible (eligible p) \<longleftrightarrow>
     pol_contract p = AppendOnly \<and> range_partitioned p \<and> publication_excludes_deletes p \<and>
     identifiers_vaulted p \<and> trim (basis (pol_retention p)) \<noteq> [] \<and> ret_days (pol_retention p) \<noteq> 0 \<and>
     (\<forall>c \<in> set (pol_columns p). is_ok (canonical_encoding (col_logical c))) \<and>
     (\<exists>c \<in> set (pol_columns p). col_key c) \<and>
     (\<exists>c. List.find (\<lambda>c. col_name c = tiering_key p) (pol_columns p) = Some c \<and>
        has_ordinal (col_logical c))"
proof (cases "List.find (\<lambda>c. col_name c = tiering_key p) (pol_columns p)")
  case None
  then have "\<not> list_ex (\<lambda>c. col_name c = tiering_key p) (pol_columns p)"
    by (simp add: find_None_iff_all list_ex_iff)
  with None show ?thesis
    by (simp add: is_eligible_def eligible_def)
next
  case (Some c)
  then have "c \<in> set (pol_columns p)" "col_name c = tiering_key p" by (auto dest: find_SomeD)
  with Some show ?thesis
    by (auto simp: is_eligible_def eligible_def list_ex_iff)
qed

subsection \<open>Separation of duties\<close>

datatype permission = Define | Approve | Execute | Purge | Drop | Rehydrate | Retire

definition PERMISSION_ALL :: "permission list" where
  "PERMISSION_ALL = [Define, Approve, Execute, Purge, Drop, Rehydrate, Retire]"

fun permission_name :: "permission \<Rightarrow> string" where
  "permission_name Define = ''define''"
| "permission_name Approve = ''approve''"
| "permission_name Execute = ''execute''"
| "permission_name Purge = ''purge''"
| "permission_name Drop = ''drop''"
| "permission_name Rehydrate = ''rehydrate''"
| "permission_name Retire = ''retire''"

definition conflicts_with_defining :: "permission \<Rightarrow> bool" where
  "conflicts_with_defining p \<longleftrightarrow> p \<in> {Approve, Execute, Purge}"

record policy_ref =
  ref_name :: string
  definer :: string

record principal =
  prin_name :: string
  permissions :: "permission set"

definition holding :: "string \<Rightarrow> permission list \<Rightarrow> principal" where
  "holding n ps = \<lparr>prin_name = n, permissions = set ps\<rparr>"

datatype denied =
    NotPermitted string permission
  | OwnWork string permission string

definition may :: "principal \<Rightarrow> permission \<Rightarrow> policy_ref \<Rightarrow> denied + unit" where
  "may who perm pol =
     (if perm \<notin> permissions who then Inl (NotPermitted (prin_name who) perm)
      else if prin_name who = definer pol \<and> conflicts_with_defining perm
      then Inl (OwnWork (prin_name who) perm (ref_name pol))
      else Inr ())"

lemma may_Inr_iff:
  "may who perm pol = Inr () \<longleftrightarrow>
     perm \<in> permissions who \<and> (conflicts_with_defining perm \<longrightarrow> prin_name who \<noteq> definer pol)"
  by (auto simp: may_def)

end
