(* ===== verification/Tier_Encode.thy ===== *)
theory Tier_Encode
  imports Codes Tier_Policy
begin

text \<open>
  The canonical byte encoding of a value, \<^verbatim>\<open>crates/sankhya-tiering/src/encode.rs\<close>.
  An Arrow array is its declared type and its cells; a cell's constructor is the concrete array
  class the code downcasts to, so that a cell whose class is not the one the declared type asks
  for is the failed downcast. Integers keep their width as words, timestamps and times the 64
  bits, dates the 32 bits they are stored in.
\<close>

datatype unencodable =
    UnsupportedType string data_type
  | Malformed string

datatype cell =
    VBoolean bool
  | VInt16 "16 word"
  | VInt32 "32 word"
  | VInt64 "64 word"
  | VDecimal128 "128 word"
  | VString bytes
  | VBinary bytes
  | VTimestampMicrosecond "64 word"
  | VDate32 "32 word"
  | VTime64Microsecond "64 word"
  | VFixedSizeBinary bytes

record arrow_array =
  arr_type :: data_type
  arr_cells :: "cell option list"

fun tag_for :: "string \<Rightarrow> data_type \<Rightarrow> unencodable + u8" where
  "tag_for c Arrow_Boolean = Inr 0x01"
| "tag_for c Arrow_Int16 = Inr 0x02"
| "tag_for c Arrow_Int32 = Inr 0x03"
| "tag_for c Arrow_Int64 = Inr 0x04"
| "tag_for c (Arrow_Decimal128 _ _) = Inr 0x05"
| "tag_for c Arrow_Utf8 = Inr 0x06"
| "tag_for c Arrow_Binary = Inr 0x07"
| "tag_for c (Arrow_Timestamp _ (Some _)) = Inr 0x08"
| "tag_for c (Arrow_Timestamp _ None) = Inr 0x09"
| "tag_for c Arrow_Date32 = Inr 0x0a"
| "tag_for c (Arrow_Time64 _) = Inr 0x0b"
| "tag_for c (Arrow_FixedSizeBinary n) =
     (if n = 16 then Inr 0x0c else Inl (UnsupportedType c (Arrow_FixedSizeBinary n)))"
| "tag_for c other = Inl (UnsupportedType c other)"

text \<open>The bytes after the presence byte; \<open>None\<close> is a failed downcast.\<close>

fun payload :: "data_type \<Rightarrow> cell \<Rightarrow> bytes option" where
  "payload Arrow_Boolean v = (case v of VBoolean b \<Rightarrow> Some [if b then 1 else 0] | _ \<Rightarrow> None)"
| "payload Arrow_Int16 v = (case v of VInt16 w \<Rightarrow> Some (be_bytes w) | _ \<Rightarrow> None)"
| "payload Arrow_Int32 v = (case v of VInt32 w \<Rightarrow> Some (be_bytes w) | _ \<Rightarrow> None)"
| "payload Arrow_Int64 v = (case v of VInt64 w \<Rightarrow> Some (be_bytes w) | _ \<Rightarrow> None)"
| "payload (Arrow_Decimal128 d s) v =
     (case v of VDecimal128 w \<Rightarrow> Some (d # s # be_bytes w) | _ \<Rightarrow> None)"
| "payload Arrow_Utf8 v = (case v of VString bs \<Rightarrow> Some (prefixed bs) | _ \<Rightarrow> None)"
| "payload Arrow_Binary v = (case v of VBinary bs \<Rightarrow> Some (prefixed bs) | _ \<Rightarrow> None)"
| "payload (Arrow_Timestamp _ _) v =
     (case v of VTimestampMicrosecond w \<Rightarrow> Some (be_bytes w) | _ \<Rightarrow> None)"
| "payload Arrow_Date32 v = (case v of VDate32 w \<Rightarrow> Some (be_bytes w) | _ \<Rightarrow> None)"
| "payload (Arrow_Time64 _) v =
     (case v of VTime64Microsecond w \<Rightarrow> Some (be_bytes w) | _ \<Rightarrow> None)"
| "payload (Arrow_FixedSizeBinary _) v =
     (case v of VFixedSizeBinary bs \<Rightarrow> Some (prefixed bs) | _ \<Rightarrow> None)"
| "payload _ _ = None"

definition encode_value :: "string \<Rightarrow> arrow_array \<Rightarrow> nat \<Rightarrow> unencodable + bytes" where
  "encode_value c arr i =
     and_then (tag_for c (arr_type arr)) (\<lambda>tag.
       (case arr_cells arr ! i of
          None \<Rightarrow> Inr [tag, 0x00]
        | Some v \<Rightarrow>
            (case payload (arr_type arr) v of
               None \<Rightarrow> Inl (Malformed c)
             | Some p \<Rightarrow> Inr (tag # 0x01 # p))))"

subsection \<open>The encoding is self-delimiting\<close>

fun cell_fits :: "cell \<Rightarrow> bool" where
  "cell_fits (VString bs) = fits bs"
| "cell_fits (VBinary bs) = fits bs"
| "cell_fits (VFixedSizeBinary bs) = fits bs"
| "cell_fits _ = True"

definition cell_code :: "data_type \<times> cell option \<Rightarrow> bytes option" where
  "cell_code x =
     (case tag_for [] (fst x) of
        Inl _ \<Rightarrow> None
      | Inr tag \<Rightarrow>
          (case snd x of
             None \<Rightarrow> Some [tag, 0]
           | Some v \<Rightarrow> map_option (\<lambda>p. tag # 1 # p) (payload (fst x) v)))"

lemma tag_for_name: "tag_for c t = Inr tag \<longleftrightarrow> tag_for d t = Inr tag"
  by (cases "(d, t)" rule: tag_for.cases) auto

lemma encode_value_code: "encode_value c arr i = Inr e \<longleftrightarrow> cell_code (arr_type arr, arr_cells arr ! i) = Some e"
proof (cases "tag_for c (arr_type arr)")
  case (Inl u)
  then have "tag_for [] (arr_type arr) \<noteq> Inr tag" for tag
    using tag_for_name [of "[]" _ tag c] by auto
  with Inl show ?thesis
    by (auto simp: encode_value_def cell_code_def split: sum.splits)
next
  case (Inr tag)
  then have "tag_for [] (arr_type arr) = Inr tag" using tag_for_name by blast
  with Inr show ?thesis
    by (auto simp: encode_value_def cell_code_def split: option.splits)
qed

text \<open>The type an encoding speaks of, up to what its tag and payload record.\<close>

fun same_kind :: "data_type \<Rightarrow> data_type \<Rightarrow> bool" where
  "same_kind (Arrow_Decimal128 _ _) t = (\<exists>d s. t = Arrow_Decimal128 d s)"
| "same_kind (Arrow_Timestamp _ z) t = (\<exists>u z'. t = Arrow_Timestamp u z' \<and> (z = None \<longleftrightarrow> z' = None))"
| "same_kind (Arrow_Time64 _) t = (\<exists>u. t = Arrow_Time64 u)"
| "same_kind t t' = (t = t')"

lemma tag_same_kind:
  "tag_for c t = Inr tag \<Longrightarrow> tag_for c t' = Inr tag \<Longrightarrow> same_kind t t'"
  by (cases "(c, t)" rule: tag_for.cases; cases "(c, t')" rule: tag_for.cases) (auto split: if_splits)

lemma payload_delimits:
  assumes "same_kind t t'" "payload t v = Some p" "payload t' w = Some q"
    and "cell_fits v" "cell_fits w" "p @ r = q @ s"
  shows "v = w \<and> r = s"
  using assms
  by (cases t; cases t')
     (auto simp: be_bytes_delimits be_bytes_inj split: cell.splits if_splits
       dest: prefixed.delimits prefixed.inj)

lemma cell_code_delimits:
  assumes "cell_code (t, v) = Some e" "cell_code (t', w) = Some f" "e @ r = f @ s"
    and "\<forall>x. v = Some x \<longrightarrow> cell_fits x" "\<forall>x. w = Some x \<longrightarrow> cell_fits x"
  shows "v = w \<and> r = s \<and> same_kind t t'"
proof -
  obtain tag where tag: "tag_for [] t = Inr tag" "tag_for [] t' = Inr tag"
    using assms(1-3) by (auto simp: cell_code_def split: sum.splits option.splits)
  then have k: "same_kind t t'" by (rule tag_same_kind)
  show ?thesis
  proof (cases v)
    case None
    with assms tag k show ?thesis by (cases w) (auto simp: cell_code_def)
  next
    case (Some x)
    then obtain p where p: "payload t x = Some p" "e = tag # 1 # p"
      using assms(1) tag by (auto simp: cell_code_def)
    with assms(2,3) tag obtain y q where "w = Some y" "payload t' y = Some q" "f = tag # 1 # q"
      by (cases w) (auto simp: cell_code_def)
    with payload_delimits [OF k p(1), of y q r s] p assms Some k show ?thesis by auto
  qed
qed

text \<open>An encodable cell of a declared type, as one alphabet for the code of a row.\<close>

definition encodable :: "data_type \<times> cell option \<Rightarrow> bool" where
  "encodable x \<longleftrightarrow> cell_code x \<noteq> None \<and> (\<forall>v. snd x = Some v \<longrightarrow> cell_fits v)"

interpretation cells: prefix_code "\<lambda>x. the (cell_code x)" snd encodable
proof unfold_locales
  fix x y r s
  assume "encodable x" "encodable y" "the (cell_code x) @ r = the (cell_code y) @ s"
  then show "snd x = snd y \<and> r = s"
    using cell_code_delimits [of "fst x" "snd x" _ "fst y" "snd y" _ r s]
    by (cases x; cases y) (auto simp: encodable_def)
qed (auto simp: encodable_def cell_code_def split: sum.splits option.splits)

lemma encodable_if_fits:
  assumes "cell_code x = Some e" "fits e"
  shows "encodable x"
proof -
  have "cell_fits v" if "payload t v = Some p" "length p < 2 ^ 64" for t v p
    using that by (cases t; cases v) (auto simp: prefixed_def fits_def)
  then show ?thesis
    using assms by (auto simp: encodable_def cell_code_def fits_def split: sum.splits option.splits)
qed

text \<open>
  C6: The encoding verification hashes is faithful: two values with a common encoding, followed
  by anything, are the same value of the same kind of type, null included, and what follows is
  the same. So no two rows agree on their bytes and differ in a cell.
\<close>

theorem encoding_is_faithful:
  assumes "encode_value c a i = Inr e" and "encode_value d b j = Inr f" and "e @ r = f @ s"
    and "\<forall>v. arr_cells a ! i = Some v \<longrightarrow> cell_fits v"
    and "\<forall>v. arr_cells b ! j = Some v \<longrightarrow> cell_fits v"
  shows "arr_cells a ! i = arr_cells b ! j \<and> r = s \<and> same_kind (arr_type a) (arr_type b)"
  using cell_code_delimits [of "arr_type a" "arr_cells a ! i" e "arr_type b" "arr_cells b ! j" f r s] assms
  by (simp add: encode_value_code)

theorem encoding_is_faithful_witness:
  "\<exists>e. encode_value ''n'' \<lparr>arr_type = Arrow_Int16, arr_cells = [None, Some (VInt16 7)]\<rparr> 1 = Inr e \<and>
     Some (VInt16 7) = Some (VInt16 7) \<and> same_kind Arrow_Int16 Arrow_Int16"
proof -
  let ?a = "\<lparr>arr_type = Arrow_Int16, arr_cells = [None, Some (VInt16 7)]\<rparr>"
  obtain e where e: "encode_value ''n'' ?a 1 = Inr e" by (simp add: encode_value_def)
  from encoding_is_faithful [OF e e, of "[]" "[]"] e show ?thesis by auto
qed



end
