(* ===== verification/Tier_Verify.thy ===== *)
theory Tier_Verify
  imports Tier_Encode "HOL-Library.Multiset"
begin

text \<open>
  Exhaustive verification of an archive against its source,
  \<^verbatim>\<open>crates/sankhya-tiering/src/verify.rs\<close>: a scan absorbs record batches into encoded rows,
  finishes into a Merkle root over the sorted keys and one digest per column, and two
  fingerprints are compared. SHA-256 is a library function and a parameter here: what the code
  relies on is that its output has 32 bytes and that it does not collide on the byte strings
  the two scans feed it, which \<open>finish_queries\<close> lists. A count cast from \<open>usize\<close> to \<open>u64\<close>
  keeps its value and is a natural number.
\<close>

type_synonym hash = bytes
type_synonym sha256 = "bytes \<Rightarrow> hash"

definition BLOCK_ROWS :: nat where "BLOCK_ROWS = 4096"

subsection \<open>The Merkle root\<close>

definition leaf :: "sha256 \<Rightarrow> bytes \<Rightarrow> hash" where
  "leaf sha block = sha (0x00 # block)"

definition node :: "sha256 \<Rightarrow> hash \<Rightarrow> hash \<Rightarrow> hash" where
  "node sha l r = sha (0x01 # l @ r)"

definition lone :: "sha256 \<Rightarrow> hash \<Rightarrow> hash" where
  "lone sha only = sha (0x02 # only)"

definition empty_root :: "sha256 \<Rightarrow> hash" where
  "empty_root sha = sha [0x03]"

fun next_level :: "sha256 \<Rightarrow> hash list \<Rightarrow> hash list" where
  "next_level sha (l # r # xs) = node sha l r # next_level sha xs"
| "next_level sha [only] = [lone sha only]"
| "next_level sha [] = []"

lemma length_next_level: "length (next_level sha xs) = (length xs + 1) div 2"
  by (induction sha xs rule: next_level.induct) auto

function root_of :: "sha256 \<Rightarrow> hash list \<Rightarrow> hash" where
  "root_of sha level =
     (case level of [] \<Rightarrow> empty_root sha | [h] \<Rightarrow> h | _ \<Rightarrow> root_of sha (next_level sha level))"
  by pat_completeness auto
termination
  by (relation "measure (\<lambda>(sha, xs). length xs)") (auto simp: length_next_level)

declare root_of.simps [simp del]

subsection \<open>Fingerprints and their comparison\<close>

record key_digest =
  key_root :: hash
  key_blocks :: nat
  duplicates :: nat

record column_digest =
  cd_column :: string
  cd_digest :: hash

record fingerprint =
  fp_rows :: nat
  fp_keys :: key_digest
  fp_columns :: "column_digest list"

datatype side = Source_Side | Archive_Side

datatype discrepancy =
    PlannedRowCount nat nat
  | RowCount nat nat
  | KeySet hash hash
  | KeyBlocks nat nat
  | DuplicateKeys side nat
  | ColumnMissing string side
  | Column string hash hash

definition compare_column :: "column_digest list \<Rightarrow> column_digest \<Rightarrow> discrepancy list" where
  "compare_column others c =
     (case List.find (\<lambda>d. cd_column d = cd_column c) others of
        None \<Rightarrow> [ColumnMissing (cd_column c) Archive_Side]
      | Some d \<Rightarrow>
          if cd_digest d \<noteq> cd_digest c then [Column (cd_column c) (cd_digest c) (cd_digest d)] else [])"

definition compare_prints :: "nat \<Rightarrow> fingerprint \<Rightarrow> fingerprint \<Rightarrow> discrepancy list" where
  "compare_prints planned s a =
     (if fp_rows s \<noteq> planned then [PlannedRowCount planned (fp_rows s)] else []) @
     (if fp_rows s \<noteq> fp_rows a then [RowCount (fp_rows s) (fp_rows a)] else []) @
     (if duplicates (fp_keys s) > 0 then [DuplicateKeys Source_Side (duplicates (fp_keys s))] else []) @
     (if duplicates (fp_keys a) > 0 then [DuplicateKeys Archive_Side (duplicates (fp_keys a))] else []) @
     (if key_blocks (fp_keys s) \<noteq> key_blocks (fp_keys a)
      then [KeyBlocks (key_blocks (fp_keys s)) (key_blocks (fp_keys a))] else []) @
     (if key_root (fp_keys s) \<noteq> key_root (fp_keys a)
      then [KeySet (key_root (fp_keys s)) (key_root (fp_keys a))] else []) @
     concat (map (compare_column (fp_columns a)) (fp_columns s)) @
     concat (map (\<lambda>c. if \<not> list_ex (\<lambda>d. cd_column d = cd_column c) (fp_columns s)
                      then [ColumnMissing (cd_column c) Source_Side] else []) (fp_columns a))"

definition passed :: "discrepancy list \<Rightarrow> bool" where
  "passed ds \<longleftrightarrow> ds = []"

text \<open>A \<open>Proof\<close> is a value only a passed verification gives.\<close>

definition proof_of :: "discrepancy list \<Rightarrow> unit option" where
  "proof_of ds = (if passed ds then Some () else None)"

subsection \<open>Scans\<close>

text \<open>A record batch: its named columns and its number of rows, the length of every column.\<close>

record batch =
  batch_columns :: "(string \<times> arrow_array) list"
  num_rows :: nat

definition batch_ok :: "batch \<Rightarrow> bool" where
  "batch_ok b \<longleftrightarrow> (\<forall>(c, a) \<in> set (batch_columns b). length (arr_cells a) = num_rows b)"

definition column_named :: "batch \<Rightarrow> string \<Rightarrow> arrow_array option" where
  "column_named b c = map_option snd (List.find (\<lambda>p. fst p = c) (batch_columns b))"

datatype scan_failure =
    Value unencodable
  | MissingKeyColumn string
  | SchemaChanged string
  | NoKeyColumns

record scan =
  scan_keys :: "string list"
  scan_values :: "string list"
  present :: "bool list option"
  scan_rows :: "(bytes \<times> bytes list) list"

definition scan_new :: "string list \<Rightarrow> string list \<Rightarrow> scan_failure + scan" where
  "scan_new ks vs =
     (if ks = [] then Inl NoKeyColumns
      else Inr \<lparr>scan_keys = ks, scan_values = vs, present = None, scan_rows = []\<rparr>)"

fun key_columns :: "batch \<Rightarrow> string list \<Rightarrow> scan_failure + (string \<times> arrow_array) list" where
  "key_columns b [] = Inr []"
| "key_columns b (k # ks) =
     (case column_named b k of
        None \<Rightarrow> Inl (MissingKeyColumn k)
      | Some a \<Rightarrow> and_then (key_columns b ks) (\<lambda>cs. Inr ((k, a) # cs)))"

fun encode_all :: "(string \<times> arrow_array) list \<Rightarrow> nat \<Rightarrow> scan_failure + bytes list" where
  "encode_all [] i = Inr []"
| "encode_all ((c, a) # cs) i =
     (case encode_value c a i of
        Inl why \<Rightarrow> Inl (Value why)
      | Inr e \<Rightarrow> and_then (encode_all cs i) (\<lambda>es. Inr (e # es)))"

definition value_columns :: "batch \<Rightarrow> string list \<Rightarrow> (string \<times> arrow_array) list" where
  "value_columns b vs = List.map_filter (\<lambda>v. map_option (Pair v) (column_named b v)) vs"

definition encode_row ::
    "(string \<times> arrow_array) list \<Rightarrow> (string \<times> arrow_array) list \<Rightarrow> nat \<Rightarrow>
     scan_failure + bytes \<times> bytes list" where
  "encode_row ks vs i =
     and_then (encode_all ks i) (\<lambda>k. and_then (encode_all vs i) (\<lambda>v. Inr (concat k, v)))"

text \<open>
  The rows of a batch in order; a failure leaves the rows before it in the scan, as the code
  does.
\<close>

fun absorb_rows ::
    "(string \<times> arrow_array) list \<Rightarrow> (string \<times> arrow_array) list \<Rightarrow> nat list \<Rightarrow> scan \<Rightarrow>
     scan \<times> (scan_failure + unit)" where
  "absorb_rows ks vs [] s = (s, Inr ())"
| "absorb_rows ks vs (i # is) s =
     (case encode_row ks vs i of
        Inl e \<Rightarrow> (s, Inl e)
      | Inr r \<Rightarrow> absorb_rows ks vs is (s\<lparr>scan_rows := scan_rows s @ [r]\<rparr>))"

definition first_changed :: "string list \<Rightarrow> bool list \<Rightarrow> bool list \<Rightarrow> string" where
  "first_changed vs before here =
     (case List.find (\<lambda>(c, b, h). b \<noteq> h) (zip vs (zip before here)) of
        Some (c, _) \<Rightarrow> c | None \<Rightarrow> [])"

definition absorb :: "scan \<Rightarrow> batch \<Rightarrow> scan \<times> (scan_failure + unit)" where
  "absorb s b =
     (case key_columns b (scan_keys s) of
        Inl e \<Rightarrow> (s, Inl e)
      | Inr ks \<Rightarrow>
          let here = map (\<lambda>v. column_named b v \<noteq> None) (scan_values s);
              vs = value_columns b (scan_values s)
          in (case present s of
                None \<Rightarrow> absorb_rows ks vs [0..<num_rows b] (s\<lparr>present := Some here\<rparr>)
              | Some before \<Rightarrow>
                  if before \<noteq> here
                  then (s, Inl (SchemaChanged (first_changed (scan_values s) before here)))
                  else absorb_rows ks vs [0..<num_rows b] s))"

fun absorb_all :: "scan \<Rightarrow> batch list \<Rightarrow> scan \<times> (scan_failure + unit)" where
  "absorb_all s [] = (s, Inr ())"
| "absorb_all s (b # bs) =
     (case absorb s b of (s', Inl e) \<Rightarrow> (s', Inl e) | (s', Inr _) \<Rightarrow> absorb_all s' bs)"

fun chunks :: "nat \<Rightarrow> 'a list \<Rightarrow> 'a list list" where
  "chunks n xs = (if xs = [] \<or> n = 0 then [] else take n xs # chunks n (drop n xs))"

declare chunks.simps [simp del]

definition key_block :: "(bytes \<times> bytes list) list \<Rightarrow> bytes" where
  "key_block rows = concat (map (\<lambda>r. prefixed (fst r)) rows)"

definition column_bytes :: "(bytes \<times> bytes list) list \<Rightarrow> nat \<Rightarrow> bytes" where
  "column_bytes rows slot =
     0x04 # concat (map (\<lambda>r. if slot < length (snd r) then prefixed (snd r ! slot) else []) rows)"

definition present_names :: "scan \<Rightarrow> string list" where
  "present_names s =
     (let here = (case present s of Some p \<Rightarrow> p | None \<Rightarrow> replicate (length (scan_values s)) False)
      in map fst (filter snd (zip (scan_values s) here)))"

definition sorted_rows :: "scan \<Rightarrow> (bytes \<times> bytes list) list" where
  "sorted_rows s = sort_key fst (scan_rows s)"

definition finish :: "sha256 \<Rightarrow> scan \<Rightarrow> fingerprint" where
  "finish sha s =
     (let rows = sorted_rows s;
          dups = length (filter (\<lambda>(a, b). fst a = fst b) (windows2 rows));
          leaves = map (\<lambda>block. leaf sha (key_block block)) (chunks BLOCK_ROWS rows);
          names = present_names s;
          columns = map (\<lambda>slot. \<lparr>cd_column = names ! slot, cd_digest = sha (column_bytes rows slot)\<rparr>)
            [0..<length names]
      in \<lparr>fp_rows = length rows,
          fp_keys = \<lparr>key_root = root_of sha leaves, key_blocks = length leaves, duplicates = dups\<rparr>,
          fp_columns = columns\<rparr>)"

end
