(* ===== verification/Tier_Verified.thy ===== *)
theory Tier_Verified
  imports Tier_Verify
begin

text \<open>
  What a passed verification proves. \<open>finish_queries\<close> lists the byte strings a scan feeds
  SHA-256; on the assumption that no two of them collide, equal Merkle roots mean equal key
  lists, equal column digests mean equal columns, and so a passed comparison means the archive
  holds the source's rows.
\<close>

subsection \<open>The byte strings that are hashed\<close>

fun level_queries :: "hash list \<Rightarrow> bytes list" where
  "level_queries (l # r # xs) = (0x01 # l @ r) # level_queries xs"
| "level_queries [only] = [0x02 # only]"
| "level_queries [] = []"

function root_queries :: "sha256 \<Rightarrow> hash list \<Rightarrow> bytes list" where
  "root_queries sha level =
     (case level of [] \<Rightarrow> [[0x03]] | [h] \<Rightarrow> []
      | _ \<Rightarrow> level_queries level @ root_queries sha (next_level sha level))"
  by pat_completeness auto
termination
  by (relation "measure (\<lambda>(sha, xs). length xs)") (auto simp: length_next_level)

declare root_queries.simps [simp del]

lemma root_simps [simp]:
  "root_of sha [] = empty_root sha" "root_of sha [h] = h"
  "root_of sha (h # h' # hs) = root_of sha (next_level sha (h # h' # hs))"
  "root_queries sha [] = [[3]]" "root_queries sha [h] = []"
  "root_queries sha (h # h' # hs) =
     level_queries (h # h' # hs) @ root_queries sha (next_level sha (h # h' # hs))"
  by (simp_all add: root_of.simps [of sha "[]"] root_of.simps [of sha "[_]"]
      root_of.simps [of sha "_ # _ # _"] root_queries.simps [of sha "[]"]
      root_queries.simps [of sha "[_]"] root_queries.simps [of sha "_ # _ # _"]
      del: next_level.simps level_queries.simps)

definition leaf_queries :: "(bytes \<times> bytes list) list \<Rightarrow> bytes list" where
  "leaf_queries rows = map (\<lambda>block. 0x00 # key_block block) (chunks BLOCK_ROWS rows)"

definition finish_queries :: "sha256 \<Rightarrow> scan \<Rightarrow> bytes list" where
  "finish_queries sha s =
     (let rows = sorted_rows s in
      leaf_queries rows @ root_queries sha (map sha (leaf_queries rows)) @
      map (column_bytes rows) [0..<length (present_names s)])"

subsection \<open>A Merkle root binds its leaves\<close>

definition digests :: "hash list \<Rightarrow> bool" where
  "digests hs \<longleftrightarrow> (\<forall>h \<in> set hs. length h = 32)"

lemma digests_Cons [simp]: "digests (h # hs) \<longleftrightarrow> length h = 32 \<and> digests hs"
  by (simp add: digests_def)

lemma digests_next_level: "\<forall>x. length (sha x) = 32 \<Longrightarrow> digests (next_level sha xs)"
  by (induction sha xs rule: next_level.induct) (simp_all add: node_def lone_def digests_def)

lemma next_level_inj:
  assumes "inj_on sha (set (level_queries xs) \<union> set (level_queries ys))"
    and "length xs = length ys" "digests xs" "digests ys"
    and "next_level sha xs = next_level sha ys"
  shows "xs = ys"
  using assms
proof (induction sha xs arbitrary: ys rule: next_level.induct)
  case (1 sha l r xs)
  then obtain l' r' ys' where ys: "ys = l' # r' # ys'"
    by (metis length_Suc_conv)
  have "0x01 # l @ r = 0x01 # l' @ r'"
    by (rule inj_onD [OF "1.prems"(1)]) (use "1.prems" ys in \<open>simp_all add: node_def\<close>)
  moreover have "xs = ys'"
    using "1.prems" ys by (intro "1.IH") (auto intro: inj_on_subset)
  ultimately show ?case
    using "1.prems" ys by simp
next
  case (2 sha only)
  then obtain only' where ys: "ys = [only']"
    by (cases ys) simp_all
  have "0x02 # only = 0x02 # only'"
    by (rule inj_onD [OF "2.prems"(1)]) (use "2.prems" ys in \<open>simp_all add: lone_def\<close>)
  with ys show ?case by simp
qed simp

lemma root_of_inj:
  assumes "\<forall>x. length (sha x) = 32"
    and "inj_on sha (set (root_queries sha xs) \<union> set (root_queries sha ys))"
    and "length xs = length ys" "digests xs" "digests ys"
    and "root_of sha xs = root_of sha ys"
  shows "xs = ys"
  using assms(2-)
proof (induction "length xs" arbitrary: xs ys rule: less_induct)
  case less
  show ?case
  proof (cases "length xs \<le> 1")
    case True
    with less.prems show ?thesis
      by (cases xs; cases ys) auto
  next
    case False
    then obtain a b zs where x: "xs = a # b # zs"
      by (cases xs; cases "tl xs") auto
    obtain a' b' zs' where y: "ys = a' # b' # zs'"
      using False less.prems(2) by (cases ys; cases "tl ys") auto
    note c = x y
    have q: "root_queries sha xs = level_queries xs @ root_queries sha (next_level sha xs)"
      "root_queries sha ys = level_queries ys @ root_queries sha (next_level sha ys)"
      using c by (simp_all del: next_level.simps level_queries.simps)
    have "next_level sha xs = next_level sha ys"
    proof (rule less.hyps)
      show "length (next_level sha xs) < length xs"
        using c by (simp add: length_next_level)
      show "inj_on sha (set (root_queries sha (next_level sha xs)) \<union> set (root_queries sha (next_level sha ys)))"
        using less.prems(1) unfolding q by (rule inj_on_subset) auto
      show "length (next_level sha xs) = length (next_level sha ys)"
        using less.prems(2) by (simp add: length_next_level)
      show "digests (next_level sha xs)" "digests (next_level sha ys)"
        using assms(1) by (simp_all add: digests_next_level)
      show "root_of sha (next_level sha xs) = root_of sha (next_level sha ys)"
        using less.prems(5) c by (simp del: next_level.simps)
    qed
    moreover have "inj_on sha (set (level_queries xs) \<union> set (level_queries ys))"
      using less.prems(1) unfolding q by (rule inj_on_subset) auto
    ultimately show ?thesis
      using next_level_inj less.prems by blast
  qed
qed

subsection \<open>Blocks and columns bind the rows\<close>

lemma concat_chunks: "0 < n \<Longrightarrow> concat (chunks n xs) = xs"
  by (induction n xs rule: chunks.induct) (subst chunks.simps, simp)

lemma length_chunks_eq:
  "length xs = length ys \<Longrightarrow> length (chunks n xs) = length (chunks n ys)"
proof (induction n xs arbitrary: ys rule: chunks.induct)
  case (1 n xs)
  then show ?case
    by (subst (1 2) chunks.simps) auto
qed

lemma key_block_inj:
  assumes "\<forall>r \<in> set xs. fits (fst r)" "\<forall>r \<in> set ys. fits (fst r)" "key_block xs = key_block ys"
  shows "map fst xs = map fst ys"
  using prefixed.concat_inj [of "map fst xs" "map fst ys"] assms
  by (simp add: key_block_def comp_def)

lemma leaf_queries_inj:
  assumes "\<forall>r \<in> set xs. fits (fst r)" "\<forall>r \<in> set ys. fits (fst r)" "leaf_queries xs = leaf_queries ys"
  shows "map fst xs = map fst ys"
proof -
  have *: "map (map fst) bs = map (map fst) cs"
    if "map key_block bs = map key_block cs" "\<forall>r \<in> set (concat bs). fits (fst r)"
      "\<forall>r \<in> set (concat cs). fits (fst r)" for bs cs
    using that
  proof (induction bs arbitrary: cs)
    case (Cons b bs)
    then obtain d ds where "cs = d # ds" by (cases cs) auto
    with Cons.prems Cons.IH [of ds] show ?case using key_block_inj [of b d] by auto
  qed simp
  have "map key_block (chunks BLOCK_ROWS xs) = map key_block (chunks BLOCK_ROWS ys)"
    using arg_cong [OF assms(3), of "map tl"] by (simp add: leaf_queries_def comp_def)
  then have "map (map fst) (chunks BLOCK_ROWS xs) = map (map fst) (chunks BLOCK_ROWS ys)"
    using assms by (intro *) (simp_all add: concat_chunks BLOCK_ROWS_def)
  then have "map fst (concat (chunks BLOCK_ROWS xs)) = map fst (concat (chunks BLOCK_ROWS ys))"
    by (simp add: map_concat)
  then show ?thesis by (simp add: concat_chunks BLOCK_ROWS_def)
qed

lemma column_bytes_inj:
  assumes "\<forall>r \<in> set xs. slot < length (snd r) \<and> fits (snd r ! slot)"
    and "\<forall>r \<in> set ys. slot < length (snd r) \<and> fits (snd r ! slot)"
    and "column_bytes xs slot = column_bytes ys slot"
  shows "map (\<lambda>r. snd r ! slot) xs = map (\<lambda>r. snd r ! slot) ys"
proof -
  have *: "map (\<lambda>r. if slot < length (snd r) then prefixed (snd r ! slot) else []) zs =
      map prefixed (map (\<lambda>r. snd r ! slot) zs)"
    if "\<forall>r \<in> set zs. slot < length (snd r) \<and> fits (snd r ! slot)" for zs :: "(bytes \<times> bytes list) list"
    using that by simp
  have "concat (map prefixed (map (\<lambda>r. snd r ! slot) xs)) = concat (map prefixed (map (\<lambda>r. snd r ! slot) ys))"
    using assms(3) * [OF assms(1)] * [OF assms(2)] by (simp add: column_bytes_def)
  with assms(1,2) show ?thesis
    using prefixed.concat_inj [of "map (\<lambda>r. snd r ! slot) xs" "map (\<lambda>r. snd r ! slot) ys"] by simp
qed

subsection \<open>Equal fingerprints, equal encoded rows\<close>

definition scan_wf :: "scan \<Rightarrow> bool" where
  "scan_wf s \<longleftrightarrow>
     (case present s of
        None \<Rightarrow> scan_rows s = []
      | Some p \<Rightarrow> length p = length (scan_values s) \<and>
          (\<forall>r \<in> set (scan_rows s). length (snd r) = length (filter (\<lambda>b. b) p)))"

definition sized :: "scan \<Rightarrow> bool" where
  "sized s \<longleftrightarrow> (\<forall>r \<in> set (scan_rows s). fits (fst r) \<and> (\<forall>v \<in> set (snd r). fits v))"

lemma set_sorted_rows [simp]: "set (sorted_rows s) = set (scan_rows s)"
  by (simp add: sorted_rows_def)

lemma length_filter_zip:
  "length p = length vs \<Longrightarrow> length (filter snd (zip vs p)) = length (filter (\<lambda>b. b) p)"
  by (induction p vs rule: list_induct2) auto

lemma filter_zip_eq:
  assumes "length p = length vs" "distinct vs"
  shows "map fst (filter snd (zip vs p)) = filter (\<lambda>v. v \<in> set (map fst (filter snd (zip vs p)))) vs"
  using assms
proof (induction p vs rule: list_induct2)
  case (Cons b p v vs)
  have "v \<notin> set (map fst (filter snd (zip vs p)))"
    using Cons.prems by (auto dest: set_zip_leftD)
  moreover have "filter (\<lambda>x. x = v \<or> P x) vs = filter P vs" for P
    using Cons.prems by (intro filter_cong) auto
  ultimately show ?case
    using Cons by auto
qed simp

lemma present_names_eq:
  assumes "scan_wf s" "distinct (scan_values s)"
  shows "present_names s = filter (\<lambda>v. v \<in> set (present_names s)) (scan_values s)"
proof (cases "present s")
  case None
  then have "present_names s = []"
    by (auto simp: present_names_def zip_replicate1 filter_empty_conv dest: set_zip_rightD)
  then show ?thesis by simp
next
  case (Some p)
  then have "present_names s = map fst (filter snd (zip (scan_values s) p))"
    by (simp add: present_names_def)
  moreover have "length p = length (scan_values s)"
    using assms(1) Some by (simp add: scan_wf_def)
  ultimately show ?thesis
    using filter_zip_eq [OF _ assms(2)] by metis
qed

lemma row_width:
  assumes "scan_wf s" "r \<in> set (scan_rows s)"
  shows "length (snd r) = length (present_names s)"
  using assms by (auto simp: scan_wf_def present_names_def length_filter_zip split: option.splits)

lemma present_inj:
  assumes "length p = length vs" "length q = length vs" "distinct vs"
    and "map fst (filter snd (zip vs p)) = map fst (filter snd (zip vs q))"
  shows "p = q"
  using assms
proof (induction p vs arbitrary: q rule: list_induct2)
  case (Cons b p v vs)
  then obtain c qs where q: "q = c # qs" by (cases q) auto
  have "v \<in> set (map fst (filter snd (zip (v # vs) (d # x)))) \<longleftrightarrow> d" for d x
    using Cons.prems by (auto dest: set_zip_leftD)
  from this [of b p] this [of c qs] have bc: "b = c"
    using Cons.prems(3) unfolding q by argo
  moreover have "p = qs"
    using Cons.prems q bc by (intro Cons.IH) (cases c; simp)+
  ultimately show ?case using q by simp
qed simp

lemma find_column:
  assumes "distinct names" "i < length names"
  shows "List.find (\<lambda>d. cd_column d = names ! i) (map (\<lambda>j. \<lparr>cd_column = names ! j, cd_digest = D j\<rparr>) [0..<length names]) =
    Some \<lparr>cd_column = names ! i, cd_digest = D i\<rparr>"
  using assms by (subst find_unique) (auto simp: nth_eq_iff_index_eq)

lemma passed_columns:
  assumes "\<forall>c \<in> set cs. compare_column (map (\<lambda>j. \<lparr>cd_column = names ! j, cd_digest = D j\<rparr>) [0..<length names]) c = []"
    and "cs = map (\<lambda>j. \<lparr>cd_column = names ! j, cd_digest = E j\<rparr>) [0..<length names]" "distinct names" "i < length names"
  shows "D i = E i"
proof -
  have "compare_column (map (\<lambda>j. \<lparr>cd_column = names ! j, cd_digest = D j\<rparr>) [0..<length names])
      \<lparr>cd_column = names ! i, cd_digest = E i\<rparr> = []"
    using assms by auto
  then show ?thesis
    using assms(3,4) by (simp add: compare_column_def find_column split: if_splits)
qed

lemma finish_simps:
  "fp_rows (finish sha s) = length (scan_rows s)"
  "key_root (fp_keys (finish sha s)) = root_of sha (map sha (leaf_queries (sorted_rows s)))"
  "key_blocks (fp_keys (finish sha s)) = length (leaf_queries (sorted_rows s))"
  "duplicates (fp_keys (finish sha s)) =
     length (filter (\<lambda>(a, b). fst a = fst b) (windows2 (sorted_rows s)))"
  "fp_columns (finish sha s) =
     map (\<lambda>j. \<lparr>cd_column = present_names s ! j, cd_digest = sha (column_bytes (sorted_rows s) j)\<rparr>)
       [0..<length (present_names s)]"
  by (simp_all add: finish_def Let_def leaf_queries_def leaf_def comp_def sorted_rows_def)

lemma no_adjacent_distinct:
  assumes "sorted (map fst rows)" "filter (\<lambda>(a, b). fst a = fst b) (windows2 rows) = []"
  shows "distinct (map fst rows)"
  using assms
proof (induction rows)
  case (Cons a rows)
  show ?case
  proof (cases rows)
    case (Cons b rest)
    with Cons.prems have "fst a < fst b" "\<forall>x \<in> set rest. fst b \<le> fst x"
        "filter (\<lambda>(a, b). fst a = fst b) (windows2 rows) = []"
      by (auto simp: windows2_def order.strict_iff_order split: if_splits)
    with Cons.IH Cons.prems(1) Cons show ?thesis by auto
  qed simp
qed simp

lemma passed_compare:
  assumes "passed (compare_prints planned s a)"
  shows "fp_rows s = planned" "fp_rows a = planned"
    "duplicates (fp_keys s) = 0" "duplicates (fp_keys a) = 0"
    "key_blocks (fp_keys s) = key_blocks (fp_keys a)" "key_root (fp_keys s) = key_root (fp_keys a)"
    "\<forall>c \<in> set (fp_columns s). compare_column (fp_columns a) c = []"
    "cd_column ` set (fp_columns s) = cd_column ` set (fp_columns a)"
proof -
  show *: "\<forall>c \<in> set (fp_columns s). compare_column (fp_columns a) c = []"
    using assms by (simp add: passed_def compare_prints_def)
  have "cd_column c \<in> cd_column ` set (fp_columns a)" if c: "c \<in> set (fp_columns s)" for c
  proof -
    obtain d where "List.find (\<lambda>d. cd_column d = cd_column c) (fp_columns a) = Some d"
      using bspec [OF * c] by (auto simp: compare_column_def split: option.splits)
    then show ?thesis by (auto dest!: find_SomeD intro: rev_image_eqI)
  qed
  moreover have "cd_column c \<in> cd_column ` set (fp_columns s)" if c: "c \<in> set (fp_columns a)" for c
  proof -
    from c have "(if \<not> list_ex (\<lambda>d. cd_column d = cd_column c) (fp_columns s)
        then [ColumnMissing (cd_column c) Source_Side] else []) = []"
      using assms by (simp add: passed_def compare_prints_def)
    then show ?thesis
      by (auto simp: list_ex_iff split: if_splits intro: rev_image_eqI)
  qed
  ultimately show "cd_column ` set (fp_columns s) = cd_column ` set (fp_columns a)"
    by blast
qed (use assms in \<open>auto simp: passed_def compare_prints_def split: if_splits\<close>)

lemma names_of_columns: "cd_column ` set (fp_columns (finish sha s)) = set (present_names s)"
  by (force simp: finish_simps in_set_conv_nth image_iff)

lemma passed_rows_eq:
  assumes "\<forall>x. length (sha x) = 32"
    and inj: "inj_on sha (set (finish_queries sha S) \<union> set (finish_queries sha A))"
    and wf: "scan_wf S" "scan_wf A" and sz: "sized S" "sized A"
    and vs: "scan_values S = scan_values A" "distinct (scan_values A)"
    and pass: "passed (compare_prints planned (finish sha S) (finish sha A))"
  shows "sorted_rows S = sorted_rows A" "present_names S = present_names A"
    "length (scan_rows S) = planned" "distinct (map fst (scan_rows S))"
proof -
  note p = passed_compare [OF pass, unfolded names_of_columns, unfolded finish_simps]
  have "present_names S = filter (\<lambda>v. v \<in> set (present_names S)) (scan_values S)"
    by (rule present_names_eq [OF wf(1)]) (simp add: vs)
  also have "\<dots> = filter (\<lambda>v. v \<in> set (present_names A)) (scan_values A)"
    by (simp only: p(8) vs(1))
  also have "\<dots> = present_names A"
    by (rule present_names_eq [OF wf(2) vs(2), symmetric])
  finally show names: "present_names S = present_names A" .
  show len: "length (scan_rows S) = planned" by (rule p(1))
  have len2: "length (sorted_rows S) = length (sorted_rows A)"
    using p(1,2) by (simp add: sorted_rows_def)
  have dn: "distinct (present_names A)"
    by (subst present_names_eq [OF wf(2) vs(2)]) (simp add: vs(2))
  have q: "finish_queries sha X = leaf_queries (sorted_rows X) @ root_queries sha (map sha (leaf_queries (sorted_rows X))) @
      map (column_bytes (sorted_rows X)) [0..<length (present_names X)]" for X
    by (simp add: finish_queries_def Let_def)
  have dg: "digests (map sha xs)" for xs
    using assms(1) by (simp add: digests_def)
  have "map sha (leaf_queries (sorted_rows S)) = map sha (leaf_queries (sorted_rows A))"
  proof (rule root_of_inj [OF assms(1)])
    show "inj_on sha (set (root_queries sha (map sha (leaf_queries (sorted_rows S)))) \<union>
        set (root_queries sha (map sha (leaf_queries (sorted_rows A)))))"
      using inj unfolding q by (rule inj_on_subset) auto
  qed (use p dg in simp_all)
  then have "leaf_queries (sorted_rows S) = leaf_queries (sorted_rows A)"
    by (rule map_inj_on, intro inj_on_subset [OF inj]) (auto simp: q)
  then have keys: "map fst (sorted_rows S) = map fst (sorted_rows A)"
    using sz by (intro leaf_queries_inj) (auto simp: sized_def)
  have "distinct (map fst (sorted_rows S))"
    using p(3) by (intro no_adjacent_distinct) (simp_all add: sorted_rows_def)
  then show "distinct (map fst (scan_rows S))"
    by (simp add: sorted_rows_def distinct_map)
  have width: "length (snd r) = length (present_names A)" if "r \<in> set (sorted_rows S) \<union> set (sorted_rows A)" for r
    using that row_width [OF wf(1), of r] row_width [OF wf(2), of r] names unfolding Un_iff set_sorted_rows by metis
  have vals: "map (\<lambda>r. snd r ! j) (sorted_rows S) = map (\<lambda>r. snd r ! j) (sorted_rows A)"
    if "j < length (present_names A)" for j
  proof (rule column_bytes_inj)
    have "sha (column_bytes (sorted_rows A) j) = sha (column_bytes (sorted_rows S) j)"
      using p(7) names dn that
      by (intro passed_columns [where E = "\<lambda>j. sha (column_bytes (sorted_rows S) j)"]) (simp_all, blast?)
    moreover have "column_bytes (sorted_rows X) j \<in> set (finish_queries sha X)" if "X = S \<or> X = A" for X
      using that \<open>j < length (present_names A)\<close> names by (auto simp: q)
    ultimately show "column_bytes (sorted_rows S) j = column_bytes (sorted_rows A) j"
      using inj by (metis UnCI inj_onD)
  qed (use width sz that in \<open>auto simp: sized_def\<close>)
  show "sorted_rows S = sorted_rows A"
  proof (rule nth_equalityI [OF len2])
    fix i assume i: "i < length (sorted_rows S)"
    have w: "length (snd (sorted_rows S ! i)) = length (present_names A)"
      by (rule width, rule UnI1, rule nth_mem, rule i)
    have w': "length (snd (sorted_rows A ! i)) = length (present_names A)"
      by (rule width, rule UnI2, rule nth_mem) (use i len2 in simp)
    have "snd (sorted_rows S ! i) = snd (sorted_rows A ! i)"
    proof (rule nth_equalityI)
      show "length (snd (sorted_rows S ! i)) = length (snd (sorted_rows A ! i))"
        using w w' by simp
      fix j assume "j < length (snd (sorted_rows S ! i))"
      then have "j < length (present_names A)" using w by simp
      from arg_cong [OF vals [OF this], of "\<lambda>xs. xs ! i"] i len2
      show "snd (sorted_rows S ! i) ! j = snd (sorted_rows A ! i) ! j" by simp
    qed
    moreover have "fst (sorted_rows S ! i) = fst (sorted_rows A ! i)"
      using arg_cong [OF keys, of "\<lambda>xs. xs ! i"] i len2 by simp
    ultimately show "sorted_rows S ! i = sorted_rows A ! i" by (simp add: prod_eq_iff)
  qed
qed

subsection \<open>Encoded rows determine the cells\<close>

text \<open>
  The rows of a batch as a reader sees them: the cells of the key columns, and for every value
  column its cell, or \<open>None\<close> where the batch has no such column.
\<close>

type_synonym cell_row = "cell option list \<times> cell option option list"

definition cells_at :: "string list \<Rightarrow> string list \<Rightarrow> batch \<Rightarrow> nat \<Rightarrow> cell_row" where
  "cells_at ks vs b i =
     (map (\<lambda>k. arr_cells (the (column_named b k)) ! i) ks,
      map (\<lambda>v. map_option (\<lambda>a. arr_cells a ! i) (column_named b v)) vs)"

definition table_rows :: "string list \<Rightarrow> string list \<Rightarrow> batch list \<Rightarrow> cell_row list" where
  "table_rows ks vs bs = concat (map (\<lambda>b. map (cells_at ks vs b) [0..<num_rows b]) bs)"

text \<open>An encoding of a list of cells, under some declared types.\<close>

definition encodes :: "cell option \<Rightarrow> bytes \<Rightarrow> bool" where
  "encodes v e \<longleftrightarrow> (\<exists>t. cell_code (t, v) = Some e)"

definition row_encodes :: "nat \<Rightarrow> bool list \<Rightarrow> cell_row \<Rightarrow> bytes \<times> bytes list \<Rightarrow> bool" where
  "row_encodes n p c r \<longleftrightarrow>
     length (fst c) = n \<and> map (\<lambda>x. x \<noteq> None) (snd c) = p \<and>
     (\<exists>es. list_all2 encodes (fst c) es \<and> fst r = concat es) \<and>
     list_all2 encodes (List.map_filter (\<lambda>x. x) (snd c)) (snd r)"

lemma encodes_unique:
  assumes "encodes v e" "encodes w e" "fits e"
  shows "v = w"
proof -
  obtain t u where "cell_code (t, v) = Some e" "cell_code (u, w) = Some e"
    using assms by (auto simp: encodes_def)
  with assms(3) show ?thesis
    using cells.inj [of "(t, v)" "(u, w)"] by (auto dest: encodable_if_fits)
qed

lemma fits_append: "fits (a @ b) \<Longrightarrow> fits a \<and> fits b"
  by (simp add: fits_def)

lemma encodes_concat_unique:
  assumes "list_all2 encodes vs es" "list_all2 encodes ws fs" "length vs = length ws"
    and "concat es @ r = concat fs @ s" "fits (concat es)" "fits (concat fs)"
  shows "vs = ws"
  using assms(3,1,2,4-)
proof (induction vs ws arbitrary: es fs rule: list_induct2)
  case 2: (Cons v vs w ws)
  then obtain e es' f fs' where c: "es = e # es'" "fs = f # fs'"
    by (auto simp: list_all2_Cons1)
  with 2 obtain t u where tu: "cell_code (t, v) = Some e" "cell_code (u, w) = Some f"
    by (auto simp: encodes_def)
  have f: "fits e" "fits f" "fits (concat es')" "fits (concat fs')"
    using 2 c by (auto dest: fits_append)
  then have "v = w \<and> concat es' @ r = concat fs' @ s"
    using cells.delimits [of "(t, v)" "(u, w)" "concat es' @ r" "concat fs' @ s"] tu 2 c
    by (auto dest: encodable_if_fits)
  then show ?case using 2 c f by auto
qed simp

lemma list_all2_encodes_unique:
  "list_all2 encodes vs es \<Longrightarrow> list_all2 encodes ws es \<Longrightarrow> \<forall>e \<in> set es. fits e \<Longrightarrow> vs = ws"
proof (induction es arbitrary: vs ws)
  case (Cons e es)
  then show ?case by (auto simp: list_all2_Cons2 intro: encodes_unique)
qed simp

lemma map_filter_inj:
  "map (\<lambda>x. x \<noteq> None) xs = map (\<lambda>x. x \<noteq> None) ys \<Longrightarrow>
     List.map_filter (\<lambda>x. x) xs = List.map_filter (\<lambda>x. x) ys \<Longrightarrow> xs = ys"
proof (induction xs arbitrary: ys)
  case (Cons x xs)
  then obtain y ys' where "ys = y # ys'" by (cases ys) auto
  with Cons show ?case
    by (cases x; cases y) (auto simp: map_filter_simps)
qed simp

lemma row_encodes_unique:
  assumes "row_encodes n p c r" "row_encodes n p d r" "fits (fst r)" "\<forall>v \<in> set (snd r). fits v"
  shows "c = d"
proof -
  obtain es where es: "list_all2 encodes (fst c) es" "fst r = concat es"
    using assms(1) by (auto simp: row_encodes_def)
  obtain fs where fs: "list_all2 encodes (fst d) fs" "fst r = concat fs"
    using assms(2) by (auto simp: row_encodes_def)
  note e = es(1) fs(1)
  have "fst c = fst d"
    by (rule encodes_concat_unique [OF e(1,2), of "[]" "[]"])
       (use assms(1,2,3) es(2) fs(2) in \<open>simp_all add: row_encodes_def\<close>)
  moreover have "List.map_filter (\<lambda>x. x) (snd c) = List.map_filter (\<lambda>x. x) (snd d)"
    using assms unfolding row_encodes_def by (blast intro: list_all2_encodes_unique)
  then have "snd c = snd d"
    using assms by (intro map_filter_inj) (auto simp: row_encodes_def)
  ultimately show ?thesis by (rule prod_eqI)
qed

subsection \<open>What a scan holds after its batches\<close>

lemma encode_all_encodes:
  "encode_all cs i = Inr es \<Longrightarrow> list_all2 encodes (map (\<lambda>(c, a). arr_cells a ! i) cs) es"
proof (induction cs arbitrary: es)
  case (Cons ca cs)
  obtain c a where "ca = (c, a)" by fastforce
  with Cons show ?case
    by (auto simp: encode_value_code encodes_def split: sum.splits)
qed simp

lemma key_columns_named:
  "key_columns b ks = Inr cs \<Longrightarrow> map fst cs = ks \<and> (\<forall>(k, a) \<in> set cs. column_named b k = Some a)"
  by (induction ks arbitrary: cs) (fastforce split: option.splits)+

lemma key_cells:
  "key_columns b ks = Inr cs \<Longrightarrow>
     map (\<lambda>(c, a). arr_cells a ! i) cs = map (\<lambda>k. arr_cells (the (column_named b k)) ! i) ks"
  using key_columns_named [of b ks cs] by (auto simp: split_beta)

lemma value_cells:
  "map (\<lambda>(c, a). arr_cells a ! i) (value_columns b vs) =
     List.map_filter (\<lambda>x. x) (map (\<lambda>v. map_option (\<lambda>a. arr_cells a ! i) (column_named b v)) vs)"
  by (induction vs) (auto simp: value_columns_def map_filter_simps split: option.splits)

lemma encode_row_encodes:
  assumes "key_columns b ks = Inr cs" "encode_row cs (value_columns b vs) i = Inr r"
  shows "row_encodes (length ks) (map (\<lambda>v. column_named b v \<noteq> None) vs) (cells_at ks vs b i) r"
proof -
  obtain es where es: "encode_all cs i = Inr es" "encode_all (value_columns b vs) i = Inr (snd r)"
      "fst r = concat es"
    using assms(2) by (auto simp: encode_row_def)
  with encode_all_encodes [OF es(1)] encode_all_encodes [OF es(2)] show ?thesis
    unfolding row_encodes_def cells_at_def key_cells [OF assms(1)] value_cells
    by (auto simp: comp_def)
qed

lemma absorb_rows_spec:
  "absorb_rows ks vs is s = (s', Inr ()) \<Longrightarrow>
     \<exists>rs. s' = s\<lparr>scan_rows := scan_rows s @ rs\<rparr> \<and> list_all2 (\<lambda>i r. encode_row ks vs i = Inr r) is rs"
proof (induction "is" arbitrary: s)
  case (Cons i "is")
  then obtain r where r: "encode_row ks vs i = Inr r"
      "absorb_rows ks vs is (s\<lparr>scan_rows := scan_rows s @ [r]\<rparr>) = (s', Inr ())"
    by (auto split: sum.splits)
  from Cons.IH [OF r(2)] obtain rs where
      "s' = s\<lparr>scan_rows := scan_rows s @ [r] @ rs\<rparr>" "list_all2 (\<lambda>i r. encode_row ks vs i = Inr r) is rs"
    by auto
  with r show ?case by (intro exI [of _ "r # rs"]) simp
qed simp

definition holds_rows :: "scan \<Rightarrow> cell_row list \<Rightarrow> bool" where
  "holds_rows s cs \<longleftrightarrow>
     (case present s of
        None \<Rightarrow> cs = [] \<and> scan_rows s = []
      | Some p \<Rightarrow> length p = length (scan_values s) \<and>
          list_all2 (row_encodes (length (scan_keys s)) p) cs (scan_rows s))"

lemma absorb_holds:
  assumes "absorb s b = (s', Inr ())" "holds_rows s cs"
  shows "scan_keys s' = scan_keys s \<and> scan_values s' = scan_values s \<and>
    holds_rows s' (cs @ map (cells_at (scan_keys s) (scan_values s) b) [0..<num_rows b])"
proof -
  let ?p = "map (\<lambda>v. column_named b v \<noteq> None) (scan_values s)"
  obtain ks where ks: "key_columns b (scan_keys s) = Inr ks"
    using assms(1) by (cases "key_columns b (scan_keys s)") (auto simp: absorb_def)
  have pr: "present s = None \<or> present s = Some ?p"
    using assms(1) ks by (auto simp: absorb_def Let_def split: option.splits if_splits)
  have run: "absorb_rows ks (value_columns b (scan_values s)) [0..<num_rows b] (s\<lparr>present := Some ?p\<rparr>) = (s', Inr ())"
    using pr
  proof
    assume "present s = None"
    with assms(1) ks show ?thesis by (simp add: absorb_def Let_def)
  next
    assume p: "present s = Some ?p"
    then have "absorb_rows ks (value_columns b (scan_values s)) [0..<num_rows b] s = (s', Inr ())"
      using assms(1) ks by (simp add: absorb_def Let_def)
    moreover have "s\<lparr>present := Some ?p\<rparr> = s"
      unfolding p [symmetric] by simp
    ultimately show ?thesis by simp
  qed
  from absorb_rows_spec [OF run] obtain rs where rs: "s' = s\<lparr>present := Some ?p, scan_rows := scan_rows s @ rs\<rparr>"
      "list_all2 (\<lambda>i r. encode_row ks (value_columns b (scan_values s)) i = Inr r) [0..<num_rows b] rs"
    by auto
  have "list_all2 (row_encodes (length (scan_keys s)) ?p) (map (cells_at (scan_keys s) (scan_values s) b) [0..<num_rows b]) rs"
    using rs(2) unfolding list_all2_map1 by (rule list_all2_mono) (rule encode_row_encodes [OF ks])
  moreover have "list_all2 (row_encodes (length (scan_keys s)) ?p) cs (scan_rows s)"
    using assms(2) pr by (auto simp: holds_rows_def)
  ultimately show ?thesis
    by (simp add: rs(1) holds_rows_def list_all2_appendI)
qed

lemma absorb_all_holds:
  "absorb_all s bs = (s', Inr ()) \<Longrightarrow> holds_rows s cs \<Longrightarrow>
     scan_keys s' = scan_keys s \<and> scan_values s' = scan_values s \<and>
     holds_rows s' (cs @ table_rows (scan_keys s) (scan_values s) bs)"
proof (induction bs arbitrary: s cs)
  case (Cons b bs)
  then obtain t where t: "absorb s b = (t, Inr ())" "absorb_all t bs = (s', Inr ())"
    by (auto split: prod.splits sum.splits)
  note h = absorb_holds [OF t(1) Cons.prems(2)]
  from h Cons.IH [OF t(2), of "cs @ map (cells_at (scan_keys s) (scan_values s) b) [0..<num_rows b]"] show ?case
    by (simp add: table_rows_def)
qed (simp add: table_rows_def)

lemma scanned_holds:
  "scan_new ks vs = Inr s0 \<Longrightarrow> absorb_all s0 bs = (s, Inr ()) \<Longrightarrow>
     scan_keys s = ks \<and> scan_values s = vs \<and> holds_rows s (table_rows ks vs bs)"
proof -
  assume n: "scan_new ks vs = Inr s0" and a: "absorb_all s0 bs = (s, Inr ())"
  have "scan_keys s0 = ks" "scan_values s0 = vs" "holds_rows s0 []"
    using n by (auto simp: scan_new_def holds_rows_def split: if_splits)
  with absorb_all_holds [OF a, of "[]"] show ?thesis by simp
qed

lemma length_map_filter:
  "length (List.map_filter (\<lambda>x. x) xs) = length (filter (\<lambda>b. b) (map (\<lambda>x. x \<noteq> None) xs))"
  by (induction xs) (auto simp: map_filter_simps split: option.splits)

lemma holds_rows_wf: "holds_rows s cs \<Longrightarrow> scan_wf s"
proof -
  assume h: "holds_rows s cs"
  have w: "length (snd r) = length (filter (\<lambda>b. b) p)" if "row_encodes n p c r" for n p c r
    using that list_all2_lengthD [of encodes "List.map_filter (\<lambda>x. x) (snd c)" "snd r"]
    by (auto simp: row_encodes_def length_map_filter)
  have "\<forall>r \<in> set rs. length (snd r) = length (filter (\<lambda>b. b) p)"
    if "list_all2 (row_encodes n p) cs rs" for n p rs
    using that by (induction rule: list_all2_induct) (simp_all, metis w snd_conv)
  with h show ?thesis
    by (auto simp: holds_rows_def scan_wf_def split: option.splits)
qed

lemma mset_eq_of_rel:
  assumes "list_all2 R cs xs" "list_all2 R ds ys" "mset xs = mset ys"
    and "\<And>c d x. R c x \<Longrightarrow> R d x \<Longrightarrow> x \<in> set xs \<Longrightarrow> c = d"
  shows "mset cs = mset ds"
proof -
  define dec where "dec x = (THE c. R c x)" for x
  have *: "zs = map dec ws" if "list_all2 R zs ws" "set ws \<subseteq> set xs" for zs ws
    using that assms(4)
    by (induction rule: list_all2_induct) (auto simp: dec_def intro!: the_equality [symmetric])
  have "set ys \<subseteq> set xs" using assms(3) by (metis mset_eq_setD order_refl)
  with * [OF assms(1)] * [OF assms(2)] assms(3) show ?thesis by simp
qed

text \<open>
  C5: A passed verification means the archive holds the source. Scan the two in any batches:
  if the comparison finds nothing, then both hold the planned number of rows, no key twice, and
  the same rows, cell for cell, in every key and value column, absent columns included --- on
  the sole assumption that SHA-256 (32 bytes) did not collide on the byte strings the two scans
  hashed.
\<close>

theorem verified_archive_is_source:
  assumes "scan_new ks vs = Inr s0" and "distinct vs"
    and "absorb_all s0 bs = (S, Inr ())" and "absorb_all s0 cs = (A, Inr ())"
    and "sized S" and "sized A"
    and "\<forall>x. length (sha x) = 32"
    and "inj_on sha (set (finish_queries sha S) \<union> set (finish_queries sha A))"
    and "passed (compare_prints planned (finish sha S) (finish sha A))"
  shows "mset (table_rows ks vs bs) = mset (table_rows ks vs cs) \<and>
    length (table_rows ks vs bs) = planned \<and> distinct (map fst (scan_rows S))"
proof -
  note S = scanned_holds [OF assms(1,3)] and A = scanned_holds [OF assms(1,4)]
  have wf: "scan_wf S" "scan_wf A"
    using S A holds_rows_wf by blast+
  have vs: "scan_values S = scan_values A" "distinct (scan_values A)"
    using S A assms(2) by simp_all
  note eq = passed_rows_eq [OF assms(7,8) wf assms(5,6) vs assms(9)]
  have rows: "mset (scan_rows S) = mset (scan_rows A)"
    using arg_cong [OF eq(1), of mset] by (simp add: sorted_rows_def)
  have "mset (table_rows ks vs bs) = mset (table_rows ks vs cs)"
  proof (cases "scan_rows S = []")
    case True
    with rows S A show ?thesis by (auto simp: holds_rows_def split: option.splits)
  next
    case False
    with rows have "scan_rows A \<noteq> []" by auto
    with False S A obtain p q where pq: "present S = Some p" "present A = Some q"
        "length p = length vs" "length q = length vs"
        "list_all2 (row_encodes (length ks) p) (table_rows ks vs bs) (scan_rows S)"
        "list_all2 (row_encodes (length ks) q) (table_rows ks vs cs) (scan_rows A)"
      by (auto simp: holds_rows_def split: option.splits)
    have "p = q"
      using eq(2) pq S A by (intro present_inj [OF pq(3,4) assms(2)]) (simp add: present_names_def)
    with pq rows assms(5) show ?thesis
      by (intro mset_eq_of_rel [of "row_encodes (length ks) p" _ "scan_rows S" _ "scan_rows A"])
         (simp_all, metis row_encodes_unique sized_def)
  qed
  moreover have "length (table_rows ks vs bs) = length (scan_rows S)"
    using S by (auto simp: holds_rows_def split: option.splits dest: list_all2_lengthD)
  ultimately show ?thesis using eq(3,4) by simp
qed

definition witness_batch :: "16 word list \<Rightarrow> batch" where
  "witness_batch ids =
     \<lparr>batch_columns =
        [(''id'', \<lparr>arr_type = Arrow_Int16, arr_cells = map (\<lambda>i. Some (VInt16 i)) ids\<rparr>),
         (''big'', \<lparr>arr_type = Arrow_Boolean, arr_cells = map (\<lambda>i. Some (VBoolean (i > 1))) ids\<rparr>)],
      num_rows = length ids\<rparr>"

theorem verified_archive_is_source_witness:
  "mset (table_rows [''id''] [''big''] [witness_batch [2, 1]]) =
     mset (table_rows [''id''] [''big''] [witness_batch [1], witness_batch [2]])"
proof -
  let ?s0 = "\<lparr>scan_keys = [''id''], scan_values = [''big''], present = None, scan_rows = []\<rparr>"
  let ?sha = "\<lambda>x :: bytes. take 32 (x @ replicate 32 0)"
  obtain S where S: "absorb_all ?s0 [witness_batch [2, 1]] = (S, Inr ())"
    "S = \<lparr>scan_keys = [''id''], scan_values = [''big''], present = Some [True],
       scan_rows = [([2, 1, 0, 2], [[1, 1, 1]]), ([2, 1, 0, 1], [[1, 1, 0]])]\<rparr>"
    by (rule that) (code_simp, simp)
  obtain A where A: "absorb_all ?s0 [witness_batch [1], witness_batch [2]] = (A, Inr ())"
    "A = \<lparr>scan_keys = [''id''], scan_values = [''big''], present = Some [True],
       scan_rows = [([2, 1, 0, 1], [[1, 1, 0]]), ([2, 1, 0, 2], [[1, 1, 1]])]\<rparr>"
    by (rule that) (code_simp, simp)
  have n: "scan_new [''id''] [''big''] = Inr ?s0" by (simp add: scan_new_def)
  have d: "distinct [''big'']" by simp
  have z: "sized S" "sized A" by (simp_all add: S(2) A(2) sized_def fits_def)
  have r: "sorted_rows S = [([2, 1, 0, 1], [[1, 1, 0]]), ([2, 1, 0, 2], [[1, 1, 1]])]"
    "sorted_rows A = sorted_rows S"
    by (simp_all add: S(2) A(2) sorted_rows_def)
  have c: "chunks BLOCK_ROWS [x, y] = [[x, y]]" for x y :: "bytes \<times> bytes list"
    by (subst chunks.simps, subst chunks.simps) (simp add: BLOCK_ROWS_def)
  have m: "present_names S = [''big'']" "present_names A = [''big'']"
    by (simp_all add: S(2) A(2) present_names_def)
  have q: "finish_queries ?sha S = [0 # key_block (sorted_rows S), column_bytes (sorted_rows S) 0]"
    "finish_queries ?sha A = finish_queries ?sha S"
    by (simp_all add: finish_queries_def Let_def r leaf_queries_def c m)
  then have i: "inj_on ?sha (set (finish_queries ?sha S) \<union> set (finish_queries ?sha A))"
    by (simp add: column_bytes_def)
  have f: "finish ?sha A = finish ?sha S" "fp_rows (finish ?sha S) = 2"
    "duplicates (fp_keys (finish ?sha S)) = 0" "length (fp_columns (finish ?sha S)) = 1"
    by (simp_all add: finish_def Let_def r m windows2_def)
  then obtain col where "fp_columns (finish ?sha S) = [col]"
    by (auto simp: length_Suc_conv)
  with f have p: "passed (compare_prints 2 (finish ?sha S) (finish ?sha A))"
    by (simp add: passed_def compare_prints_def compare_column_def)
  have h: "\<forall>x. length (?sha x) = 32" by (simp add: min_def)
  show ?thesis
    using verified_archive_is_source [OF n d S(1) A(1) z h i p] by (rule conjunct1)
qed

end
