(* ===== verification/Tier_Registry.thy ===== *)
theory Tier_Registry
  imports Tier_Verify "HOL-Library.Multiset"
begin

text \<open>
  The archival registry, \<^verbatim>\<open>crates/sankhya-tiering/src/registry.rs\<close>: which ranges of which
  table live in which archive, what that pins, what it leaves uncovered, and whether it agrees
  with the catalog. A \<open>BTreeSet<String>\<close> is a set, a \<open>BTreeMap\<close> the list of its entries in key
  order.
\<close>

subsection \<open>Ranges\<close>

record range =
  r_from :: i64
  r_until :: i64

text \<open>The derived order: by \<open>from\<close>, then \<open>until\<close>.\<close>

instantiation range_ext :: (linorder) linorder
begin

definition less_eq_range_ext :: "'a range_scheme \<Rightarrow> 'a range_scheme \<Rightarrow> bool" where
  "less_eq_range_ext r q \<longleftrightarrow>
     (r_from r, r_until r, range.more r) \<le> (r_from q, r_until q, range.more q)"

definition less_range_ext :: "'a range_scheme \<Rightarrow> 'a range_scheme \<Rightarrow> bool" where
  "less_range_ext r q \<longleftrightarrow>
     (r_from r, r_until r, range.more r) < (r_from q, r_until q, range.more q)"

instance
  by standard (auto simp: less_eq_range_ext_def less_range_ext_def intro: range.equality)

end

definition range_is_empty :: "range \<Rightarrow> bool" where
  "range_is_empty r \<longleftrightarrow> r_until r \<le> r_from r"

definition range_contains :: "range \<Rightarrow> i64 \<Rightarrow> bool" where
  "range_contains r a \<longleftrightarrow> a \<ge> r_from r \<and> a < r_until r"

definition range_intersects :: "range \<Rightarrow> range \<Rightarrow> bool" where
  "range_intersects r q \<longleftrightarrow>
     \<not> range_is_empty r \<and> \<not> range_is_empty q \<and> r_from r < r_until q \<and> r_from q < r_until r"

lemma range_intersects_iff: "range_intersects r q \<longleftrightarrow> (\<exists>a. range_contains r a \<and> range_contains q a)"
proof
  assume "range_intersects r q"
  then have "range_contains r (max (r_from r) (r_from q)) \<and> range_contains q (max (r_from r) (r_from q))"
    by (auto simp: range_intersects_def range_contains_def range_is_empty_def)
  then show "\<exists>a. range_contains r a \<and> range_contains q a" by blast
qed (auto simp: range_intersects_def range_contains_def range_is_empty_def)

interpretation range_ivl: interval_family range_contains range_intersects "\<lambda>_. True"
  by unfold_locales (rule range_intersects_iff)

lemma range_nonempty_iff: "\<not> range_is_empty r \<longleftrightarrow> (\<exists>a. range_contains r a)"
  by (auto simp: range_is_empty_def range_contains_def not_le)

subsection \<open>Entries\<close>

record entry =
  e_table :: string
  e_range :: range
  e_archive :: string
  e_snapshot :: string
  e_rows :: u64
  e_keys :: hash
  e_columns :: "column_digest list"
  archived_at :: i64
  e_retention :: retention
  legal_hold :: bool
  e_attribution :: "(string \<times> string) list"

definition DAY :: i64 where "DAY = 86400 * 1000000"

text \<open>
  A deadline some days after a moment, in saturating microseconds: the arithmetic the registry,
  the quarantine and the rehydrations share.
\<close>

definition days_after :: "i64 \<Rightarrow> u32 \<Rightarrow> i64" where
  "days_after t d = i64_saturating_add t (i64_saturating_mul (uint d) DAY)"

definition retained_until :: "entry \<Rightarrow> i64" where
  "retained_until e = days_after (archived_at e) (ret_days (e_retention e))"

definition binding_at :: "entry \<Rightarrow> i64 \<Rightarrow> bool" where
  "binding_at e now \<longleftrightarrow> legal_hold e \<or> now < retained_until e"

lemma days_after_eq:
  assumes "is_i64 t"
  shows "days_after t d = min I64_MAX (t + min I64_MAX (uint d * DAY))"
proof -
  obtain n where n: "n = uint d * DAY" "0 \<le> n" by (simp add: DAY_def)
  with assms show ?thesis
    by (auto simp: days_after_def i64_defs min_def max_def simp flip: n(1))
qed

lemma days_after_later: "is_i64 t \<Longrightarrow> t \<le> days_after t d"
  by (auto simp: days_after_eq DAY_def i64_defs min_def)

lemma days_after_mono: "is_i64 t \<Longrightarrow> d \<le> d' \<Longrightarrow> days_after t d \<le> days_after t d'"
  by (auto simp: days_after_eq DAY_def word_le_def min_def)

subsection \<open>The registry\<close>

datatype rejected = Overlaps range range | EmptyRange range

type_synonym registry = "entry list"

definition registry_key :: "entry \<Rightarrow> string \<times> range" where
  "registry_key e = (e_table e, e_range e)"

definition clashes :: "entry \<Rightarrow> entry \<Rightarrow> bool" where
  "clashes e other \<longleftrightarrow> e_table other = e_table e \<and> range_intersects (e_range other) (e_range e)"

text \<open>The registry is unchanged by a refusal.\<close>

definition record_entry :: "registry \<Rightarrow> entry \<Rightarrow> rejected + registry" where
  "record_entry reg e =
     (if range_is_empty (e_range e) then Inl (EmptyRange (e_range e))
      else
        (case List.find (clashes e) reg of
           Some existing \<Rightarrow> Inl (Overlaps (e_range e) (e_range existing))
         | None \<Rightarrow> Inr (sort_key registry_key (reg @ [e]))))"

fun record_all :: "registry \<Rightarrow> entry list \<Rightarrow> rejected + registry" where
  "record_all reg [] = Inr reg"
| "record_all reg (e # es) = and_then (record_entry reg e) (\<lambda>reg'. record_all reg' es)"

definition from_entries :: "entry list \<Rightarrow> rejected + registry" where
  "from_entries es = record_all [] es"

definition withdraw :: "registry \<Rightarrow> string \<Rightarrow> range \<Rightarrow> entry option \<times> registry" where
  "withdraw reg t r =
     (case position (\<lambda>e. e_table e = t \<and> e_range e = r) reg of
        None \<Rightarrow> (None, reg)
      | Some i \<Rightarrow> (Some (reg ! i), remove_at i reg))"

subsection \<open>Coverage\<close>

record coverage =
  archives :: "entry list"
  gaps :: "range list"

text \<open>The loop over the covering entries: the gaps so far and how far the range is accounted for.\<close>

fun coverage_loop :: "range \<Rightarrow> entry list \<Rightarrow> i64 \<Rightarrow> range list \<times> i64" where
  "coverage_loop wanted [] at = ([], at)"
| "coverage_loop wanted (e # es) at =
     (let gap = (if r_from (e_range e) > at
                 then [\<lparr>r_from = at, r_until = min (r_from (e_range e)) (r_until wanted)\<rparr>] else []);
          (gs, at') = coverage_loop wanted es (max at (r_until (e_range e)))
      in (gap @ gs, at'))"

definition coverage_of :: "registry \<Rightarrow> string \<Rightarrow> range \<Rightarrow> coverage" where
  "coverage_of reg t wanted =
     (let covering = filter (\<lambda>e. e_table e = t \<and> range_intersects (e_range e) wanted) reg;
          (gs, at) = coverage_loop wanted covering (r_from wanted);
          tail = (if at < r_until wanted \<and> \<not> range_is_empty wanted
                  then [\<lparr>r_from = at, r_until = r_until wanted\<rparr>] else [])
      in \<lparr>archives = covering, gaps = gs @ tail\<rparr>)"

definition coverage_is_complete :: "coverage \<Rightarrow> bool" where
  "coverage_is_complete c \<longleftrightarrow> gaps c = []"

subsection \<open>Pins\<close>

definition pins :: "registry \<Rightarrow> i64 \<Rightarrow> string set" where
  "pins reg now = set (map e_snapshot (filter (\<lambda>e. binding_at e now) reg))"

definition may_expire :: "string set \<Rightarrow> string \<Rightarrow> string + unit" where
  "may_expire ps snapshot = (if snapshot \<in> ps then Inl snapshot else Inr ())"

subsection \<open>Reconciliation with the catalog\<close>

datatype conflict = InBothTiers string range range

fun conflict_table :: "conflict \<Rightarrow> string" where
  "conflict_table (InBothTiers t _ _) = t"

record reconciliation =
  conflicts :: "conflict list"
  examined :: "string set"

definition reconcile :: "registry \<Rightarrow> (string \<times> range) list \<Rightarrow> reconciliation" where
  "reconcile reg attached =
     \<lparr>conflicts =
        concat (map (\<lambda>e. List.map_filter (\<lambda>(t, hot).
            if t = e_table e \<and> range_intersects hot (e_range e)
            then Some (InBothTiers (e_table e) (e_range e) hot) else None) attached) reg),
      examined = set (map e_table reg) \<union> set (map fst attached)\<rparr>"

text \<open>A \<open>Servable\<close> is the name of a table that may be served; only \<open>servable\<close> makes one.\<close>

definition servable :: "reconciliation \<Rightarrow> string \<Rightarrow> string option" where
  "servable r t =
     (let looked = t \<in> examined r;
          clean = list_all (\<lambda>c. conflict_table c \<noteq> t) (conflicts r)
      in if looked \<and> clean then Some t else None)"

definition refused :: "reconciliation \<Rightarrow> string set" where
  "refused r = set (map conflict_table (conflicts r))"

subsection \<open>Deltas\<close>

record delta =
  added :: "entry list"
  removed :: "entry list"
  changed :: "entry list"

text \<open>
  \<open>collect\<close> into a \<open>BTreeMap\<close>: of two entries with one key the later is kept, and the map is
  iterated in key order.
\<close>

definition entry_map :: "registry \<Rightarrow> (string \<times> range) \<rightharpoonup> entry" where
  "entry_map reg = map_of (rev (map (\<lambda>e. (registry_key e, e)) reg))"

definition entry_keys :: "registry \<Rightarrow> (string \<times> range) list" where
  "entry_keys reg = sorted_list_of_set (set (map registry_key reg))"

definition delta_of :: "registry \<Rightarrow> registry \<Rightarrow> delta" where
  "delta_of self since =
     \<lparr>added = List.map_filter (\<lambda>k. if entry_map since k = None then entry_map self k else None) (entry_keys self),
      removed = List.map_filter (\<lambda>k. if entry_map self k = None then entry_map since k else None) (entry_keys since),
      changed = List.map_filter (\<lambda>k.
          case entry_map since k of
            Some before \<Rightarrow> if entry_map self k \<noteq> Some before then entry_map self k else None
          | None \<Rightarrow> None) (entry_keys self)\<rparr>"

definition delta_is_empty :: "delta \<Rightarrow> bool" where
  "delta_is_empty d \<longleftrightarrow> added d = [] \<and> removed d = [] \<and> changed d = []"

subsection \<open>The registry's invariant\<close>

text \<open>A row is a table and an ordinal; a key claims the rows of its range.\<close>

definition key_claims :: "string \<times> range \<Rightarrow> string \<times> i64 \<Rightarrow> bool" where
  "key_claims k p \<longleftrightarrow> fst k = fst p \<and> range_contains (snd k) (snd p)"

definition keys_overlap :: "string \<times> range \<Rightarrow> string \<times> range \<Rightarrow> bool" where
  "keys_overlap k q \<longleftrightarrow> fst k = fst q \<and> range_intersects (snd k) (snd q)"

interpretation cold: interval_family key_claims keys_overlap "\<lambda>_. True"
  by unfold_locales (auto simp: key_claims_def keys_overlap_def range_intersects_iff)

definition registry_ok :: "registry \<Rightarrow> bool" where
  "registry_ok reg \<longleftrightarrow>
     sorted (map registry_key reg) \<and> (\<forall>e \<in> set reg. \<not> range_is_empty (e_range e)) \<and>
     sorted_wrt (\<lambda>x y. \<not> keys_overlap (registry_key x) (registry_key y)) reg"

lemma clashes_iff: "clashes e other \<longleftrightarrow> keys_overlap (registry_key other) (registry_key e)"
  by (auto simp: clashes_def keys_overlap_def registry_key_def)

lemma keys_overlap_self: "\<not> range_is_empty (e_range e) \<Longrightarrow> keys_overlap (registry_key e) (registry_key e)"
  by (auto simp: keys_overlap_def registry_key_def range_intersects_def range_is_empty_def)

lemma registry_ok_iff:
  "registry_ok reg \<longleftrightarrow>
     sorted (map registry_key reg) \<and> distinct reg \<and> (\<forall>e \<in> set reg. \<not> range_is_empty (e_range e)) \<and>
     (\<forall>x \<in> set reg. \<forall>y \<in> set reg. x \<noteq> y \<longrightarrow> \<not> keys_overlap (registry_key x) (registry_key y))"
proof -
  have "sorted_wrt (\<lambda>x y. \<not> keys_overlap (registry_key x) (registry_key y)) reg \<longleftrightarrow>
      distinct reg \<and> (\<forall>x \<in> set reg. \<forall>y \<in> set reg. x \<noteq> y \<longrightarrow> \<not> keys_overlap (registry_key x) (registry_key y))"
    if "\<forall>e \<in> set reg. \<not> range_is_empty (e_range e)"
    by (rule sorted_wrt_symmetric) (use that keys_overlap_self cold.overlaps_commute in blast)+
  then show ?thesis by (auto simp: registry_ok_def)
qed

lemma registry_ok_unique:
  assumes "registry_ok reg" "e \<in> set reg" "f \<in> set reg" "e_table e = e_table f"
    and "range_contains (e_range e) a" "range_contains (e_range f) a"
  shows "e = f"
  using cold.apart_unique [of registry_key reg e f "(e_table e, a)"] assms
  by (simp add: registry_ok_def key_claims_def registry_key_def)

lemma registry_keys_distinct: "registry_ok reg \<Longrightarrow> distinct (map registry_key reg)"
  by (auto simp: registry_ok_iff distinct_map inj_on_def)
    (metis keys_overlap_self)

lemma record_entry_ok:
  assumes "registry_ok reg" "record_entry reg e = Inr reg'"
  shows "registry_ok reg'" "mset reg' = add_mset e (mset reg)"
proof -
  have ne: "\<not> range_is_empty (e_range e)" and nc: "\<forall>x \<in> set reg. \<not> keys_overlap (registry_key x) (registry_key e)"
    and reg': "reg' = sort_key registry_key (reg @ [e])"
    using assms(2) by (auto simp: record_entry_def find_None_iff_all clashes_iff split: if_splits option.splits)
  have "e \<notin> set reg" using ne nc keys_overlap_self by blast
  moreover have "\<forall>x \<in> set reg. \<not> keys_overlap (registry_key e) (registry_key x)"
    using nc cold.overlaps_commute by blast
  ultimately show "registry_ok reg'"
    using assms(1) ne nc unfolding registry_ok_iff reg' by auto
  show "mset reg' = add_mset e (mset reg)" by (simp add: reg')
qed

lemma record_entry_complete:
  assumes "\<not> range_is_empty (e_range e)"
    and "\<forall>x \<in> set reg. e_table x = e_table e \<longrightarrow> \<not> (\<exists>a. range_contains (e_range x) a \<and> range_contains (e_range e) a)"
  shows "\<exists>reg'. record_entry reg e = Inr reg'"
proof -
  have "List.find (clashes e) reg = None"
    using assms(2) by (auto simp: find_None_iff_all clashes_def range_intersects_iff)
  with assms(1) show ?thesis by (simp add: record_entry_def)
qed

lemma withdraw_ok:
  assumes "registry_ok reg"
  shows "registry_ok (snd (withdraw reg t r))"
proof (cases "position (\<lambda>e. e_table e = t \<and> e_range e = r) reg")
  case (Some i)
  have "set (remove_at i reg) \<subseteq> set reg" by (rule set_remove_at_subset)
  with assms Some show ?thesis
    by (auto simp: withdraw_def registry_ok_def sorted_wrt_map intro: sorted_wrt_remove_at)
qed (simp add: withdraw_def assms)

lemma withdraw_set:
  assumes "registry_ok reg"
  shows "set (snd (withdraw reg t r)) = {e \<in> set reg. \<not> (e_table e = t \<and> e_range e = r)}"
proof (cases "position (\<lambda>e. e_table e = t \<and> e_range e = r) reg")
  case None
  then have "snd (withdraw reg t r) = reg" by (simp add: withdraw_def)
  with None show ?thesis by (auto simp: position_None)
next
  case (Some i)
  then have i: "i < length reg" "e_table (reg ! i) = t" "e_range (reg ! i) = r"
    by (auto dest: position_Some)
  have "distinct reg" using assms by (simp add: registry_ok_iff)
  then have "set (remove_at i reg) = set reg - {reg ! i}"
    using i(1) by (rule set_remove_at_distinct)
  moreover have "e = reg ! i" if e: "e \<in> set reg" "e_table e = t" "e_range e = r" for e
  proof -
    obtain a where "range_contains r a"
      using assms e(1,3) range_nonempty_iff by (auto simp: registry_ok_def)
    with assms e i show ?thesis
      by (intro registry_ok_unique [of reg e "reg ! i" a]) auto
  qed
  ultimately show ?thesis using Some i by (auto simp: withdraw_def)
qed

inductive registry_step :: "registry \<Rightarrow> registry \<Rightarrow> bool" where
  recorded: "record_entry reg e = Inr reg' \<Longrightarrow> registry_step reg reg'"
| withdrawn: "registry_step reg (snd (withdraw reg t r))"

inductive_cases registry_stepE: "registry_step reg reg'"

interpretation registry_sys: transition_invariant "\<lambda>reg. reg = []" registry_step registry_ok
proof unfold_locales
  show "reg = [] \<Longrightarrow> registry_ok reg" for reg by (simp add: registry_ok_def)
qed (auto elim!: registry_stepE intro: record_entry_ok(1) withdraw_ok)

lemma from_entries_reachable: "from_entries es = Inr reg \<Longrightarrow> reachable (\<lambda>reg. reg = []) registry_step reg"
proof -
  have "record_all r es = Inr reg \<Longrightarrow> reachable (\<lambda>reg. reg = []) registry_step r \<Longrightarrow>
      reachable (\<lambda>reg. reg = []) registry_step reg" for r
  proof (induction es arbitrary: r)
    case (Cons e es)
    then obtain r' where "record_entry r e = Inr r'" "record_all r' es = Inr reg" by auto
    with Cons show ?case by (blast intro: reach_step recorded)
  qed simp
  then show "from_entries es = Inr reg \<Longrightarrow> ?thesis"
    by (auto simp: from_entries_def intro: reach_initial)
qed

lemma from_entries_ok: "from_entries es = Inr reg \<Longrightarrow> registry_ok reg"
  by (rule registry_sys.reachable_inv, rule from_entries_reachable)

text \<open>
  C8: However the registry came about --- loaded from entries, recorded into, withdrawn from ---
  no row of any table is claimed by two entries, no entry claims nothing, and the entries are in
  strictly ascending order of table and range.
\<close>

theorem one_claim_per_row:
  assumes "reachable (\<lambda>reg. reg = []) registry_step reg"
  shows "(\<forall>e f a. {e, f} \<subseteq> set reg \<and> e_table e = e_table f \<and> range_contains (e_range e) a \<and>
      range_contains (e_range f) a \<longrightarrow> e = f) \<and>
    (\<forall>e \<in> set reg. \<exists>a. range_contains (e_range e) a) \<and>
    sorted_wrt (<) (map registry_key reg)"
proof (intro conjI)
  have ok: "registry_ok reg" using assms by (rule registry_sys.reachable_inv)
  then show "\<forall>e f a. {e, f} \<subseteq> set reg \<and> e_table e = e_table f \<and> range_contains (e_range e) a \<and>
      range_contains (e_range f) a \<longrightarrow> e = f"
    using registry_ok_unique by auto
  show "\<forall>e \<in> set reg. \<exists>a. range_contains (e_range e) a"
    using ok by (simp add: registry_ok_def flip: range_nonempty_iff)
  show "sorted_wrt (<) (map registry_key reg)"
    using ok registry_keys_distinct [OF ok] by (simp add: registry_ok_def strict_sorted_iff)
qed

theorem one_claim_per_row_witness:
  "\<exists>reg e. reachable (\<lambda>reg. reg = []) registry_step reg \<and> reg = [e] \<and>
     sorted_wrt (<) (map registry_key reg)"
proof -
  obtain e :: entry where e: "e_range e = \<lparr>r_from = 0, r_until = 10\<rparr>"
    by (rule that [of "undefined\<lparr>e_range := \<lparr>r_from = 0, r_until = 10\<rparr>\<rparr>"]) simp
  then have "record_entry [] e = Inr [e]"
    by (simp add: record_entry_def range_is_empty_def)
  then have "reachable (\<lambda>reg. reg = []) registry_step [e]"
    by (blast intro: reach_step reach_initial recorded)
  with one_claim_per_row [OF this] show ?thesis by blast
qed

text \<open>
  Recording is exact. An entry is admitted exactly when it covers some row and shares none
  with an entry of its table, and then the registry is the old one with the entry added; a
  refusal names the entry's own empty range, or an archived range of the same table that really
  shares a row with it.
\<close>

theorem recording_is_exact:
  "(\<forall>reg'. record_entry reg e = Inr reg' \<longrightarrow>
      (\<exists>a. range_contains (e_range e) a) \<and>
      (\<forall>x \<in> set reg. \<forall>a. e_table x = e_table e \<longrightarrow> \<not> (range_contains (e_range x) a \<and> range_contains (e_range e) a)) \<and>
      mset reg' = add_mset e (mset reg)) \<and>
   (\<forall>why. record_entry reg e = Inl why \<longrightarrow>
      (why = EmptyRange (e_range e) \<and> (\<forall>a. \<not> range_contains (e_range e) a)) \<or>
      (\<exists>x \<in> set reg. \<exists>a. why = Overlaps (e_range e) (e_range x) \<and> e_table x = e_table e \<and>
         range_contains (e_range x) a \<and> range_contains (e_range e) a))"
proof (rule conjI; intro allI impI)
  fix reg' assume "record_entry reg e = Inr reg'"
  then have "\<not> range_is_empty (e_range e)" "\<forall>x \<in> set reg. \<not> clashes e x" "reg' = sort_key registry_key (reg @ [e])"
    by (auto simp: record_entry_def find_None_iff_all split: if_splits option.splits)
  then show "(\<exists>a. range_contains (e_range e) a) \<and>
      (\<forall>x \<in> set reg. \<forall>a. e_table x = e_table e \<longrightarrow> \<not> (range_contains (e_range x) a \<and> range_contains (e_range e) a)) \<and>
      mset reg' = add_mset e (mset reg)"
    by (auto simp: clashes_def range_intersects_iff range_nonempty_iff)
next
  fix why assume w: "record_entry reg e = Inl why"
  show "(why = EmptyRange (e_range e) \<and> (\<forall>a. \<not> range_contains (e_range e) a)) \<or>
      (\<exists>x \<in> set reg. \<exists>a. why = Overlaps (e_range e) (e_range x) \<and> e_table x = e_table e \<and>
         range_contains (e_range x) a \<and> range_contains (e_range e) a)"
  proof (cases "range_is_empty (e_range e)")
    case True
    with w range_nonempty_iff [of "e_range e"] show ?thesis by (auto simp: record_entry_def)
  next
    case False
    with w obtain x where "List.find (clashes e) reg = Some x" "why = Overlaps (e_range e) (e_range x)"
      by (auto simp: record_entry_def split: option.splits)
    then show ?thesis by (auto simp: clashes_def range_intersects_iff dest!: find_SomeD)
  qed
qed

theorem recording_is_exact_witness:
  "\<exists>e f. record_entry [e] f = Inl (Overlaps \<lparr>r_from = 5, r_until = 15\<rparr> \<lparr>r_from = 0, r_until = 10\<rparr>) \<and>
     (\<exists>a. range_contains \<lparr>r_from = 0, r_until = 10\<rparr> a \<and> range_contains \<lparr>r_from = 5, r_until = 15\<rparr> a)"
proof -
  define e :: entry where "e = undefined\<lparr>e_table := ''t'', e_range := \<lparr>r_from = 0, r_until = 10\<rparr>\<rparr>"
  define f :: entry where "f = undefined\<lparr>e_table := ''t'', e_range := \<lparr>r_from = 5, r_until = 15\<rparr>\<rparr>"
  have "record_entry [e] f = Inl (Overlaps \<lparr>r_from = 5, r_until = 15\<rparr> \<lparr>r_from = 0, r_until = 10\<rparr>)"
    by (simp add: e_def f_def record_entry_def range_is_empty_def clashes_def range_intersects_def)
  with recording_is_exact [of "[e]" f] show ?thesis by (auto simp: e_def f_def)
qed

subsection \<open>What coverage reports\<close>

lemma sorted_froms:
  assumes "registry_ok reg"
  shows "sorted (map (\<lambda>e. r_from (e_range e)) (filter (\<lambda>e. e_table e = t \<and> P e) reg))"
proof -
  have "sorted_wrt (\<lambda>x y. registry_key x \<le> registry_key y) (filter (\<lambda>e. e_table e = t \<and> P e) reg)"
    using assms by (auto simp: registry_ok_def sorted_wrt_map intro: sorted_wrt_filter)
  then show ?thesis
    unfolding sorted_wrt_map
    by (rule sorted_wrt_mono_rel [rotated])
       (auto simp: registry_key_def less_eq_prod_def less_prod_def less_eq_range_ext_def split: if_splits)
qed

lemma coverage_loop_mono: "coverage_loop wanted es at = (gs, at') \<Longrightarrow> at \<le> at'"
  by (induction es arbitrary: at gs) (fastforce simp: Let_def split: prod.splits)+

lemma coverage_loop_spec:
  assumes "coverage_loop wanted es at = (gs, at')" "sorted (map (\<lambda>e. r_from (e_range e)) es)"
    and "\<forall>e \<in> set es. range_intersects (e_range e) wanted"
  shows "(\<exists>g \<in> set gs. range_contains g a) \<longleftrightarrow>
     at \<le> a \<and> a < at' \<and> (\<forall>e \<in> set es. \<not> range_contains (e_range e) a)"
  using assms
proof (induction es arbitrary: at gs)
  case Nil
  then show ?case by auto
next
  case (Cons e es)
  obtain gs' where r: "coverage_loop wanted es (max at (r_until (e_range e))) = (gs', at')"
    using Cons.prems(1) by (auto simp: Let_def split: prod.splits)
  define gap where "gap = (if r_from (e_range e) > at
    then [\<lparr>r_from = at, r_until = min (r_from (e_range e)) (r_until wanted)\<rparr>] else [])"
  have gs: "gs = gap @ gs'"
    using Cons.prems(1) r by (auto simp: gap_def Let_def)
  have e: "r_from (e_range e) < r_until wanted" "r_from (e_range e) < r_until (e_range e)"
    using Cons.prems(3) by (auto simp: range_intersects_def range_is_empty_def)
  have gap: "(\<exists>g \<in> set gap. range_contains g a) \<longleftrightarrow> at \<le> a \<and> a < r_from (e_range e)"
    using e by (auto simp: gap_def range_contains_def)
  have later: "\<forall>x \<in> set es. r_from (e_range e) \<le> r_from (e_range x)"
    using Cons.prems(2) by simp
  have IH: "(\<exists>g \<in> set gs'. range_contains g a) \<longleftrightarrow>
     max at (r_until (e_range e)) \<le> a \<and> a < at' \<and> (\<forall>x \<in> set es. \<not> range_contains (e_range x) a)"
    using Cons.IH [OF r] Cons.prems by simp
  have "max at (r_until (e_range e)) \<le> at'"
    using coverage_loop_mono [OF r] .
  then show ?case
    using gap IH later e unfolding gs by (auto simp: range_contains_def not_le not_less)
qed

lemma coverage_loop_bounds:
  assumes "coverage_loop wanted es at = (gs, at')" "sorted (map (\<lambda>e. r_from (e_range e)) es)"
    and "\<forall>e \<in> set es. range_intersects (e_range e) wanted"
  shows "(\<forall>g \<in> set gs. at \<le> r_from g \<and> r_from g < r_until g \<and> r_until g < at' \<and> r_until g < r_until wanted) \<and>
    sorted_wrt (\<lambda>g h. r_until g < r_from h) gs"
  using assms
proof (induction es arbitrary: at gs)
  case (Cons e es)
  obtain gs' where r: "coverage_loop wanted es (max at (r_until (e_range e))) = (gs', at')"
    using Cons.prems(1) by (auto simp: Let_def split: prod.splits)
  have e: "r_from (e_range e) < r_until wanted" "r_from (e_range e) < r_until (e_range e)"
    using Cons.prems(3) by (auto simp: range_intersects_def range_is_empty_def)
  have m: "max at (r_until (e_range e)) \<le> at'"
    using coverage_loop_mono [OF r] .
  have "(\<forall>g \<in> set gs'. max at (r_until (e_range e)) \<le> r_from g \<and> r_from g < r_until g \<and> r_until g < at' \<and>
      r_until g < r_until wanted) \<and> sorted_wrt (\<lambda>g h. r_until g < r_from h) gs'"
    using Cons.IH [OF r] Cons.prems by simp
  moreover have "gs = (if r_from (e_range e) > at
      then [\<lparr>r_from = at, r_until = min (r_from (e_range e)) (r_until wanted)\<rparr>] else []) @ gs'"
    using Cons.prems(1) r by (auto simp: Let_def)
  ultimately show ?case using e m by fastforce
qed simp

lemma coverage_gaps:
  assumes "registry_ok reg"
  shows "((\<exists>g \<in> set (gaps (coverage_of reg t wanted)). range_contains g a) \<longleftrightarrow>
      range_contains wanted a \<and> \<not> (\<exists>e \<in> set reg. e_table e = t \<and> range_contains (e_range e) a)) \<and>
    (\<forall>g \<in> set (gaps (coverage_of reg t wanted)). r_from g < r_until g) \<and> sorted_wrt (\<lambda>g h. r_until g < r_from h) (gaps (coverage_of reg t wanted)) \<and>
    set (archives (coverage_of reg t wanted)) = {e \<in> set reg. e_table e = t \<and> (\<exists>x. range_contains (e_range e) x \<and> range_contains wanted x)}"
proof -
  define es where "es = filter (\<lambda>e. e_table e = t \<and> range_intersects (e_range e) wanted) reg"
  obtain gs at' where r: "coverage_loop wanted es (r_from wanted) = (gs, at')" by fastforce
  define tail where "tail = (if at' < r_until wanted \<and> \<not> range_is_empty wanted
    then [\<lparr>r_from = at', r_until = r_until wanted\<rparr>] else [])"
  have c: "archives (coverage_of reg t wanted) = es" "gaps (coverage_of reg t wanted) = gs @ tail"
    using r by (simp_all add: coverage_of_def es_def tail_def)
  have so: "sorted (map (\<lambda>e. r_from (e_range e)) es)"
    unfolding es_def using assms(1) by (rule sorted_froms)
  have it: "\<forall>e \<in> set es. range_intersects (e_range e) wanted" by (simp add: es_def)
  note b = coverage_loop_bounds [OF r so it] and s = coverage_loop_spec [OF r so it]
  have within: "\<forall>e \<in> set es. range_contains (e_range e) x \<longrightarrow> x < at'" for x
  proof -
    have "\<forall>e \<in> set es. r_until (e_range e) \<le> at'" if "coverage_loop wanted es k = (gs, at')" for es k gs
      using that
      by (induction es arbitrary: k gs)
         (fastforce simp: Let_def dest: coverage_loop_mono split: prod.splits)+
    with r show ?thesis by (fastforce simp: range_contains_def)
  qed
  have held: "(\<exists>e \<in> set reg. e_table e = t \<and> range_contains (e_range e) x) \<longleftrightarrow> (\<exists>e \<in> set es. range_contains (e_range e) x)"
    if "range_contains wanted x" for x
    using that by (auto simp: es_def range_intersects_iff)
  have bound: "a < r_until wanted" if "\<exists>g \<in> set gs. range_contains g a"
    using that b(1) by (fastforce simp: range_contains_def)
  have start: "r_from wanted \<le> at'" by (rule coverage_loop_mono [OF r])
  have "(\<exists>g \<in> set (gs @ tail). range_contains g a) \<longleftrightarrow>
      range_contains wanted a \<and> \<not> (\<exists>e \<in> set es. range_contains (e_range e) a)"
    using s [of a] bound within [of a] start
    by (auto simp: tail_def range_contains_def range_is_empty_def)
  moreover have "\<forall>g \<in> set (gs @ tail). r_from g < r_until g"
    using b by (auto simp: tail_def)
  moreover have "sorted_wrt (\<lambda>g h. r_until g < r_from h) (gs @ tail)"
    using b by (auto simp: tail_def sorted_wrt_append)
  ultimately show ?thesis
    unfolding c using held [of a] by (auto simp: es_def range_intersects_iff)
qed

text \<open>
  Coverage is exact. Its archives are the entries of the table that meet the wanted range,
  and its gaps are precisely the wanted rows no archive holds: proper, ascending, apart from
  one another. So a range is complete exactly when every wanted row is archived.
\<close>

theorem coverage_is_exact:
  assumes "registry_ok reg"
  shows "((\<exists>g \<in> set (gaps (coverage_of reg t wanted)). range_contains g a) \<longleftrightarrow>
      range_contains wanted a \<and> \<not> (\<exists>e \<in> set reg. e_table e = t \<and> range_contains (e_range e) a)) \<and>
    (\<forall>g \<in> set (gaps (coverage_of reg t wanted)). r_from g < r_until g) \<and> sorted_wrt (\<lambda>g h. r_until g < r_from h) (gaps (coverage_of reg t wanted)) \<and>
    set (archives (coverage_of reg t wanted)) = {e \<in> set reg. e_table e = t \<and> (\<exists>x. range_contains (e_range e) x \<and> range_contains wanted x)}"
  using assms by (rule coverage_gaps)

definition example_entry :: "string \<Rightarrow> i64 \<Rightarrow> i64 \<Rightarrow> entry" where
  "example_entry t a b =
     \<lparr>e_table = t, e_range = \<lparr>r_from = a, r_until = b\<rparr>, e_archive = ''a'' @ t, e_snapshot = ''s'' @ t,
      e_rows = 10, e_keys = [], e_columns = [], archived_at = 0,
      e_retention = \<lparr>basis = ''law'', ret_days = 7\<rparr>, legal_hold = False, e_attribution = []\<rparr>"

lemma example_registry_ok:
  "registry_ok [example_entry ''t'' 0 10, example_entry ''t'' 20 30]"
  by (simp add: registry_ok_def example_entry_def keys_overlap_def registry_key_def range_intersects_def
      range_is_empty_def less_eq_range_ext_def less_eq_prod_def less_range_ext_def)

theorem coverage_is_exact_witness:
  "\<exists>g \<in> set (gaps (coverage_of [example_entry ''t'' 0 10, example_entry ''t'' 20 30] ''t'' \<lparr>r_from = 5, r_until = 40\<rparr>)).
     range_contains g 15"
  using coverage_is_exact [OF example_registry_ok, of "''t''" "\<lparr>r_from = 5, r_until = 40\<rparr>" 15]
  by (simp add: example_entry_def range_contains_def)

lemma coverage_complete_iff:
  assumes "registry_ok reg"
  shows "coverage_is_complete (coverage_of reg t wanted) \<longleftrightarrow>
    (\<forall>a. range_contains wanted a \<longrightarrow> (\<exists>e \<in> set reg. e_table e = t \<and> range_contains (e_range e) a))"
proof -
  let ?g = "gaps (coverage_of reg t wanted)"
  have "coverage_is_complete (coverage_of reg t wanted) \<longleftrightarrow> \<not> (\<exists>a. \<exists>g \<in> set ?g. range_contains g a)"
  proof
    assume n: "\<not> (\<exists>a. \<exists>g \<in> set ?g. range_contains g a)"
    have "\<forall>g \<in> set ?g. r_from g < r_until g"
      using coverage_gaps [OF assms] by blast
    then have "\<forall>g \<in> set ?g. range_contains g (r_from g)"
      by (simp add: range_contains_def)
    with n have "set ?g = {}" by (metis equals0I)
    then show "coverage_is_complete (coverage_of reg t wanted)" by (simp add: coverage_is_complete_def)
  qed (simp add: coverage_is_complete_def)
  then show ?thesis using coverage_gaps [OF assms, of t wanted] by blast
qed

subsection \<open>Loading and deltas\<close>

lemma record_all_perm:
  assumes "registry_ok reg" "mset (acc @ es) = mset reg" "sorted (map registry_key acc)"
  shows "record_all acc es = Inr reg"
  using assms(2,3)
proof (induction es arbitrary: acc)
  case Nil
  have "inj_on registry_key (set acc)"
    using registry_keys_distinct [OF assms(1)] mset_eq_setD [of acc reg] Nil.prems(1) by (simp add: distinct_map)
  then have "sort_key registry_key acc = reg"
    using assms(1) Nil.prems(1) by (intro sort_key_inj_key_eq) (simp_all add: registry_ok_def)
  with Nil.prems(2) show ?case by (simp add: sort_key_id_if_sorted)
next
  case (Cons e es)
  have s: "set (acc @ e # es) = set reg" "distinct (acc @ e # es)"
    using Cons.prems(1) assms(1) by (metis mset_eq_setD, metis mset_eq_imp_distinct_iff registry_ok_iff)
  then have "\<forall>x \<in> set acc. x \<in> set reg \<and> x \<noteq> e" "e \<in> set reg" by auto
  then have "\<forall>x \<in> set acc. \<not> keys_overlap (registry_key x) (registry_key e)" "\<not> range_is_empty (e_range e)"
    using assms(1) unfolding registry_ok_iff by blast+
  then have "record_entry acc e = Inr (sort_key registry_key (acc @ [e]))"
    by (simp add: record_entry_def clashes_iff find_None_iff_all [THEN iffD2])
  moreover have "record_all (sort_key registry_key (acc @ [e])) es = Inr reg"
    using Cons.prems(1) by (intro Cons.IH) simp_all
  ultimately show ?case by simp
qed

lemma from_entries_perm: "registry_ok reg \<Longrightarrow> mset es = mset reg \<Longrightarrow> from_entries es = Inr reg"
  by (simp add: from_entries_def record_all_perm)

lemma entry_map_iff:
  assumes "registry_ok reg"
  shows "entry_map reg k = Some e \<longleftrightarrow> e \<in> set reg \<and> registry_key e = k"
proof -
  have "distinct (map fst (rev (map (\<lambda>e. (registry_key e, e)) reg)))"
    using registry_keys_distinct [OF assms] by (simp add: rev_map [symmetric] comp_def)
  then show ?thesis
    unfolding entry_map_def by (auto simp: map_of_eq_Some_iff)
qed

lemma entry_map_None:
  assumes "registry_ok reg"
  shows "entry_map reg k = None \<longleftrightarrow> k \<notin> registry_key ` set reg"
  using entry_map_iff [OF assms] by (metis image_iff not_None_eq)

lemma distinct_map_filter:
  "distinct xs \<Longrightarrow> (\<And>x y. f x = Some y \<Longrightarrow> g y = x) \<Longrightarrow> distinct (List.map_filter f xs)"
proof (induction xs)
  case (Cons x xs)
  have "y \<notin> set (List.map_filter f xs)" if "f x = Some y" for y
    using Cons.prems that by (auto simp: set_map_filter)
  with Cons show ?case by (auto simp: map_filter_simps split: option.splits)
qed simp

lemma same_key_same_entry:
  "registry_ok reg \<Longrightarrow> e \<in> set reg \<Longrightarrow> f \<in> set reg \<Longrightarrow> registry_key e = registry_key f \<Longrightarrow> e = f"
  using registry_keys_distinct [of reg] by (auto simp: distinct_map dest: inj_onD)

lemma delta_sets:
  assumes "registry_ok self" "registry_ok since"
  shows "set (added (delta_of self since)) = {e \<in> set self. registry_key e \<notin> registry_key ` set since}"
    and "set (removed (delta_of self since)) = {e \<in> set since. registry_key e \<notin> registry_key ` set self}"
    and "set (changed (delta_of self since)) =
      {e \<in> set self. \<exists>b \<in> set since. registry_key b = registry_key e \<and> b \<noteq> e}"
proof -
  note m = entry_map_iff [OF assms(1)] entry_map_iff [OF assms(2)]
    entry_map_None [OF assms(1)] entry_map_None [OF assms(2)]
  show "set (added (delta_of self since)) = {e \<in> set self. registry_key e \<notin> registry_key ` set since}"
    "set (removed (delta_of self since)) = {e \<in> set since. registry_key e \<notin> registry_key ` set self}"
    by (auto simp: delta_of_def set_map_filter entry_keys_def m image_iff split: if_splits)
  have "set (changed (delta_of self since)) =
      {e. \<exists>k \<in> registry_key ` set self. \<exists>b. entry_map since k = Some b \<and> entry_map self k \<noteq> Some b \<and> entry_map self k = Some e}"
    by (force simp: delta_of_def set_map_filter entry_keys_def split: option.splits if_splits)
  also have "\<dots> = {e \<in> set self. \<exists>b \<in> set since. registry_key b = registry_key e \<and> b \<noteq> e}"
  proof (intro equalityI subsetI)
    fix e assume "e \<in> {e \<in> set self. \<exists>b \<in> set since. registry_key b = registry_key e \<and> b \<noteq> e}"
    then obtain b where b: "e \<in> set self" "b \<in> set since" "registry_key b = registry_key e" "b \<noteq> e" by auto
    then have "entry_map self (registry_key e) = Some e" "entry_map since (registry_key e) = Some b"
      by (simp_all add: m)
    with b show "e \<in> {e. \<exists>k \<in> registry_key ` set self. \<exists>b. entry_map since k = Some b \<and> entry_map self k \<noteq> Some b \<and> entry_map self k = Some e}"
      by (intro CollectI bexI [of _ "registry_key e"] exI [of _ b]) simp_all
  qed (auto simp: m)
  finally show "set (changed (delta_of self since)) =
      {e \<in> set self. \<exists>b \<in> set since. registry_key b = registry_key e \<and> b \<noteq> e}" .
qed

lemma delta_distinct:
  assumes "registry_ok self" "registry_ok since"
  shows "distinct (added (delta_of self since))" "distinct (changed (delta_of self since))"
  unfolding delta_of_def
  by (auto intro!: distinct_map_filter [where g = registry_key] simp: entry_keys_def
      entry_map_iff [OF assms(1)] entry_map_iff [OF assms(2)] split: if_splits option.splits)

lemma delta_kept:
  assumes "registry_ok self" "registry_ok since"
  defines "d \<equiv> delta_of self since"
  shows "{e \<in> set since. registry_key e \<notin> registry_key ` set (removed d @ changed d)} = set self \<inter> set since"
proof (intro equalityI subsetI)
  fix e assume "e \<in> {e \<in> set since. registry_key e \<notin> registry_key ` set (removed d @ changed d)}"
  then have e: "e \<in> set since" "e \<notin> set (removed d)" "registry_key e \<notin> registry_key ` set (changed d)" by auto
  then obtain f where f: "f \<in> set self" "registry_key f = registry_key e"
    by (auto simp: d_def delta_sets [OF assms(1,2)])
  moreover have "f = e"
  proof (rule ccontr)
    assume "f \<noteq> e"
    then have "f \<in> set (changed d)"
      using e f by (auto simp: d_def delta_sets [OF assms(1,2)])
    with e(3) f(2) show False by (metis imageI)
  qed
  ultimately show "e \<in> set self \<inter> set since" using e by simp
next
  fix e assume e: "e \<in> set self \<inter> set since"
  have "registry_key e \<notin> registry_key ` set (removed d)"
    using e by (auto simp: d_def delta_sets [OF assms(1,2)] simp del: image_eqI) (metis image_eqI)
  moreover have "registry_key e \<notin> registry_key ` set (changed d)"
  proof
    assume "registry_key e \<in> registry_key ` set (changed d)"
    then obtain c b where "registry_key e = registry_key c" "c \<in> set self" "b \<in> set since"
        "registry_key b = registry_key c" "b \<noteq> c"
      by (auto simp: d_def delta_sets [OF assms(1,2)])
    moreover from this e have "c = e" "b = e"
      using same_key_same_entry [OF assms(1)] same_key_same_entry [OF assms(2)] by auto
    ultimately show False by simp
  qed
  ultimately show "e \<in> {e \<in> set since. registry_key e \<notin> registry_key ` set (removed d @ changed d)}"
    using e by auto
qed

lemma delta_mset:
  assumes "registry_ok self" "registry_ok since"
  defines "d \<equiv> delta_of self since"
  shows "mset (filter (\<lambda>e. registry_key e \<notin> registry_key ` set (removed d @ changed d)) since @ added d @ changed d) = mset self"
proof -
  let ?kept = "filter (\<lambda>e. registry_key e \<notin> registry_key ` set (removed d @ changed d)) since"
  have kept: "set ?kept = set self \<inter> set since"
    using delta_kept [OF assms(1,2)] by (simp add: d_def)
  note ds = delta_sets [OF assms(1,2), folded d_def]
  have a: "set (added d) \<inter> set since = {}" using ds(1) by auto
  have c: "set (changed d) \<inter> set since = {}"
    using ds(3) same_key_same_entry [OF assms(2)] by auto
  have ac: "set (added d) \<inter> set (changed d) = {}"
    unfolding ds by (auto simp: image_iff)
  have "distinct ?kept"
    using assms(2) by (simp add: registry_ok_iff)
  moreover have "set ?kept \<inter> (set (added d) \<union> set (changed d)) = {}"
    unfolding kept using a c by blast
  ultimately have "distinct (?kept @ added d @ changed d)"
    using delta_distinct [OF assms(1,2)] ac unfolding d_def distinct_append set_append by blast
  moreover have "set (?kept @ added d @ changed d) = set self"
  proof -
    have "e \<in> set since \<or> e \<in> set (added d) \<or> e \<in> set (changed d)" if "e \<in> set self" for e
      using that unfolding ds by (auto simp: image_iff)
    moreover have "set (added d) \<subseteq> set self" "set (changed d) \<subseteq> set self" unfolding ds by auto
    ultimately show ?thesis using kept unfolding set_append by blast
  qed
  moreover have "distinct self" using assms(1) by (simp add: registry_ok_iff)
  ultimately show ?thesis by (metis set_eq_iff_mset_eq_distinct)
qed

text \<open>
  A delta is what a backup needs: dropping from the older registry what the delta removed or
  changed, adding what it added or changed, and loading the result gives the newer registry
  back; and an empty delta means the two are equal.
\<close>

theorem delta_restores:
  assumes "registry_ok self" and "registry_ok since"
  shows "from_entries (filter (\<lambda>e. registry_key e \<notin> registry_key ` set (removed (delta_of self since) @ changed (delta_of self since))) since @
      added (delta_of self since) @ changed (delta_of self since)) = Inr self \<and>
    (delta_is_empty (delta_of self since) \<longleftrightarrow> self = since)"
proof
  let ?d = "delta_of self since"
  show eq: "from_entries (filter (\<lambda>e. registry_key e \<notin> registry_key ` set (removed ?d @ changed ?d)) since @ added ?d @ changed ?d) = Inr self"
    using assms(1) delta_mset [OF assms] by (rule from_entries_perm)
  show "delta_is_empty ?d \<longleftrightarrow> self = since"
  proof
    assume "delta_is_empty ?d"
    with eq from_entries_perm [OF assms(2), of since] show "self = since"
      by (simp add: delta_is_empty_def)
  next
    assume "self = since"
    then have "set (added ?d) = {} \<and> set (removed ?d) = {} \<and> set (changed ?d) = {}"
      using same_key_same_entry [OF assms(2)] unfolding delta_sets [OF assms] by auto
    then show "delta_is_empty ?d" by (simp add: delta_is_empty_def)
  qed
qed

theorem delta_restores_witness:
  "\<not> delta_is_empty (delta_of [example_entry ''t'' 0 10, example_entry ''t'' 20 30] [])"
  using delta_restores [OF example_registry_ok, of "[]"]
  by (simp add: registry_ok_def)

subsection \<open>The authority the rest of the tiering relies on\<close>

definition entry_at :: "registry \<Rightarrow> string \<Rightarrow> i64 \<Rightarrow> entry option" where
  "entry_at reg t a = List.find (\<lambda>e. e_table e = t \<and> range_contains (e_range e) a) reg"

text \<open>
  What the planner, the write guard, the capture defence and the quarantine use of a registry:
  which entry claims a row, and how recording and withdrawing move those claims.
\<close>

locale archive_authority =
  fixes ok :: "'r \<Rightarrow> bool"
    and claim :: "'r \<Rightarrow> string \<Rightarrow> i64 \<Rightarrow> entry option"
    and put :: "'r \<Rightarrow> entry \<Rightarrow> rejected + 'r"
    and take_out :: "'r \<Rightarrow> string \<Rightarrow> range \<Rightarrow> entry option \<times> 'r"
  assumes claim_sound: "claim r t a = Some e \<Longrightarrow> e_table e = t \<and> range_contains (e_range e) a"
    and put_ok: "ok r \<Longrightarrow> put r e = Inr r' \<Longrightarrow> ok r'"
    and take_ok: "ok r \<Longrightarrow> ok (snd (take_out r t g))"
    and put_fresh: "ok r \<Longrightarrow> put r e = Inr r' \<Longrightarrow> range_contains (e_range e) a \<Longrightarrow> claim r (e_table e) a = None"
    and claim_put: "ok r \<Longrightarrow> put r e = Inr r' \<Longrightarrow>
      claim r' t a = (if t = e_table e \<and> range_contains (e_range e) a then Some e else claim r t a)"
    and claim_take: "ok r \<Longrightarrow> claim (snd (take_out r t g)) u a =
      (case claim r u a of
         None \<Rightarrow> None
       | Some e \<Rightarrow> if e_table e = t \<and> e_range e = g then None else Some e)"
begin

lemma take_put:
  assumes "ok r" "put r e = Inr r'"
  shows "claim (snd (take_out r' (e_table e) (e_range e))) u a = claim r u a"
proof (cases "u = e_table e \<and> range_contains (e_range e) a")
  case True
  then show ?thesis
    using put_ok [OF assms] put_fresh [OF assms] by (simp add: claim_take claim_put [OF assms])
next
  case False
  then have c: "claim r' u a = claim r u a" by (subst claim_put [OF assms]) (simp only: if_False)
  show ?thesis
  proof (cases "claim r u a")
    case None
    with c put_ok [OF assms] show ?thesis by (simp add: claim_take)
  next
    case (Some f)
    with False claim_sound have "\<not> (e_table f = e_table e \<and> e_range f = e_range e)" by metis
    with Some c put_ok [OF assms] show ?thesis by (simp add: claim_take)
  qed
qed

lemma take_other:
  assumes "ok r" "u \<noteq> t"
  shows "claim (snd (take_out r t g)) u a = claim r u a"
  using assms claim_sound [of r u a] by (auto simp: claim_take split: option.splits)

end

lemma entry_at_iff:
  assumes "registry_ok reg"
  shows "entry_at reg t a = Some e \<longleftrightarrow> e \<in> set reg \<and> e_table e = t \<and> range_contains (e_range e) a"
  unfolding entry_at_def using registry_ok_unique [OF assms] by (intro find_unique) auto

lemma entry_at_None: "entry_at reg t a = None \<longleftrightarrow> (\<forall>e \<in> set reg. e_table e = t \<longrightarrow> \<not> range_contains (e_range e) a)"
  by (auto simp: entry_at_def find_None_iff_all)

lemma record_fresh:
  assumes "record_entry r e = Inr r'" "range_contains (e_range e) a"
  shows "entry_at r (e_table e) a = None"
proof -
  have "\<forall>x \<in> set r. \<not> clashes e x"
    using assms(1) by (auto simp: record_entry_def find_None_iff_all split: if_splits option.splits)
  with assms(2) show ?thesis
    by (auto simp: entry_at_None clashes_def range_intersects_iff)
qed

interpretation registry: archive_authority registry_ok entry_at record_entry withdraw
proof unfold_locales
  show "e_table e = t \<and> range_contains (e_range e) a" if "entry_at r t a = Some e" for r t a e
    using that by (auto simp: entry_at_def dest: find_SomeD)
next
  fix r e r' t a assume r: "registry_ok r" "record_entry r e = Inr r'"
  note ok' = record_entry_ok [OF r]
  have "set r' = insert e (set r)" using mset_eq_setD [of r' "e # r"] ok'(2) by simp
  then have "entry_at r' t a = Some f \<longleftrightarrow>
      (f = e \<and> t = e_table e \<and> range_contains (e_range e) a) \<or> entry_at r t a = Some f" for f
    using entry_at_iff [OF ok'(1)] entry_at_iff [OF r(1)] by auto
  moreover have "entry_at r t a = None" if "t = e_table e" "range_contains (e_range e) a"
    using record_fresh [OF r(2) that(2)] that(1) by simp
  ultimately show "entry_at r' t a = (if t = e_table e \<and> range_contains (e_range e) a then Some e else entry_at r t a)"
    by (cases "entry_at r' t a"; cases "entry_at r t a") auto
next
  fix r t g u a assume r: "registry_ok r"
  show "entry_at (snd (withdraw r t g)) u a =
      (case entry_at r u a of None \<Rightarrow> None | Some e \<Rightarrow> if e_table e = t \<and> e_range e = g then None else Some e)"
  proof (cases "entry_at r u a")
    case None
    then have "entry_at (snd (withdraw r t g)) u a = None"
      using withdraw_set [OF r, of t g] by (simp add: entry_at_None)
    with None show ?thesis by simp
  next
    case (Some e)
    then have e: "e \<in> set r" "e_table e = u" "range_contains (e_range e) a"
      using entry_at_iff [OF r] by auto
    show ?thesis
    proof (cases "e_table e = t \<and> e_range e = g")
      case True
      have "\<not> (f \<in> set (snd (withdraw r t g)) \<and> e_table f = u \<and> range_contains (e_range f) a)" for f
      proof
        assume f: "f \<in> set (snd (withdraw r t g)) \<and> e_table f = u \<and> range_contains (e_range f) a"
        then have "f = e"
          using withdraw_set [OF r, of t g] e by (intro registry_ok_unique [OF r]) simp_all
        with f True withdraw_set [OF r, of t g] show False by simp
      qed
      then have "entry_at (snd (withdraw r t g)) u a = None"
        unfolding entry_at_None by blast
      with Some True show ?thesis by simp
    next
      case False
      then have "e \<in> set (snd (withdraw r t g))"
        using e withdraw_set [OF r, of t g] by simp
      with e have "entry_at (snd (withdraw r t g)) u a = Some e"
        using entry_at_iff [OF withdraw_ok [OF r]] by simp
      with Some False show ?thesis by simp
    qed
  qed
qed (auto intro: record_entry_ok(1) withdraw_ok record_fresh)

end
