(* ===== verification/Tier_Unify.thy ===== *)
theory Tier_Unify
  imports Tier_Registry
begin

text \<open>
  Reading and guarding a table that lives in two tiers: the unified plan and the write guard of
  \<^verbatim>\<open>crates/sankhya-tiering/src/unify.rs\<close>, the capture defence of \<^verbatim>\<open>defence.rs\<close> and the
  migration of a whole table of \<^verbatim>\<open>migrate.rs\<close>. All four rest on the registry's authority.
\<close>

subsection \<open>The unified plan\<close>

datatype read = Source | Archive string range

record segment =
  seg_range :: range
  seg_read :: read

record unified_plan =
  plan_table :: string
  plan_snapshot :: string
  segments :: "segment list"
  inconsistencies :: "conflict list"
  whole_domain :: bool

datatype unservable =
    CoverageGap string "range list"
  | NotReconciled string

definition cold_segments :: "unified_plan \<Rightarrow> segment list" where
  "cold_segments p = filter (\<lambda>s. seg_read s \<noteq> Source) (segments p)"

definition spans_tiers :: "unified_plan \<Rightarrow> bool" where
  "spans_tiers p \<longleftrightarrow> list_ex (\<lambda>s. seg_read s \<noteq> Source) (segments p) \<and> list_ex (\<lambda>s. seg_read s = Source) (segments p)"

definition servable_or_refuse :: "reconciliation \<Rightarrow> string \<Rightarrow> unservable + string" where
  "servable_or_refuse r t = (case servable r t of Some s \<Rightarrow> Inr s | None \<Rightarrow> Inl (NotReconciled t))"

definition plan_edges :: "range \<Rightarrow> range list \<Rightarrow> registry \<Rightarrow> string \<Rightarrow> i64 list" where
  "plan_edges predicate attached reg t =
     remdups_adj (sort (filter (\<lambda>x. x \<ge> r_from predicate \<and> x \<le> r_until predicate)
       ([r_from predicate, r_until predicate] @
        concat (map (\<lambda>h. [r_from h, r_until h]) attached) @
        concat (map (\<lambda>e. [r_from (e_range e), r_until (e_range e)]) (filter (\<lambda>e. e_table e = t) reg)))))"

record plan_state =
  ps_segments :: "segment list"
  ps_inconsistencies :: "conflict list"
  ps_gaps :: "range list"

text \<open>A piece read like the segment that ends where it starts extends that segment.\<close>

definition push_segment :: "segment list \<Rightarrow> range \<Rightarrow> read \<Rightarrow> segment list" where
  "push_segment segs piece rd =
     (if segs \<noteq> [] \<and> seg_read (last segs) = rd \<and> r_until (seg_range (last segs)) = r_from piece
      then butlast segs @ [(last segs)\<lparr>seg_range := (seg_range (last segs))\<lparr>r_until := r_until piece\<rparr>\<rparr>]
      else segs @ [\<lparr>seg_range = piece, seg_read = rd\<rparr>])"

definition plan_step :: "range list \<Rightarrow> registry \<Rightarrow> string \<Rightarrow> plan_state \<Rightarrow> i64 \<times> i64 \<Rightarrow> plan_state" where
  "plan_step attached reg t st w =
     (let piece = \<lparr>r_from = fst w, r_until = snd w\<rparr> in
      if range_is_empty piece then st
      else
        let hot = list_ex (\<lambda>r. range_contains r (fst w)) attached;
            cold = entry_at reg t (fst w)
        in (case (hot, cold) of
              (True, Some e) \<Rightarrow>
                st\<lparr>ps_inconsistencies := ps_inconsistencies st @ [InBothTiers t (e_range e) piece],
                   ps_segments := push_segment (ps_segments st) piece Source\<rparr>
            | (True, None) \<Rightarrow> st\<lparr>ps_segments := push_segment (ps_segments st) piece Source\<rparr>
            | (False, Some e) \<Rightarrow>
                st\<lparr>ps_segments := push_segment (ps_segments st) piece (Archive (e_archive e) (e_range e))\<rparr>
            | (False, None) \<Rightarrow> st\<lparr>ps_gaps := ps_gaps st @ [piece]\<rparr>))"

definition plan_loop :: "range list \<Rightarrow> registry \<Rightarrow> string \<Rightarrow> i64 list \<Rightarrow> plan_state" where
  "plan_loop attached reg t edges =
     foldl (plan_step attached reg t) \<lparr>ps_segments = [], ps_inconsistencies = [], ps_gaps = []\<rparr> (windows2 edges)"

definition unified_plan_of ::
    "range \<Rightarrow> range list \<Rightarrow> registry \<Rightarrow> string \<Rightarrow> string \<Rightarrow> range \<Rightarrow> unservable + unified_plan" where
  "unified_plan_of predicate attached reg serv snapshot whole =
     (let st = plan_loop attached reg serv (plan_edges predicate attached reg serv) in
      if ps_gaps st \<noteq> [] then Inl (CoverageGap serv (ps_gaps st))
      else Inr \<lparr>plan_table = serv, plan_snapshot = snapshot, segments = ps_segments st,
        inconsistencies = ps_inconsistencies st,
        whole_domain = (r_from predicate \<le> r_from whole \<and> r_until predicate \<ge> r_until whole)\<rparr>)"

subsection \<open>The write guard\<close>

record immutable =
  im_table :: string
  im_archive :: string
  im_extent :: range

definition check_mutable :: "registry \<Rightarrow> string \<Rightarrow> i64 \<Rightarrow> immutable + unit" where
  "check_mutable reg t a =
     (case List.find (\<lambda>e. e_table e = t \<and> range_contains (e_range e) a) reg of
        Some e \<Rightarrow> Inl \<lparr>im_table = t, im_archive = e_archive e, im_extent = e_range e\<rparr>
      | None \<Rightarrow> Inr ())"

subsection \<open>The capture defence\<close>

datatype change = Insert | Update | Delete | Truncate

datatype at = Ordinal i64 | Unknown | WholeRelation

datatype reason = DeleteInArchivedRange | TruncateWithArchive | UnlocatableAgainstArchive

record alarm =
  al_table :: string
  al_change :: change
  al_reason :: reason
  al_extent :: "range option"

datatype verdict = Apply | Halt alarm

text \<open>The \<open>BTreeMap<String, Vec<Range>>\<close>, built by the code's loop.\<close>

type_synonym extents = "string \<rightharpoonup> range list"

definition extents_of :: "registry \<Rightarrow> extents" where
  "extents_of reg =
     foldl (\<lambda>m e. m(e_table e \<mapsto> (case m (e_table e) of None \<Rightarrow> [] | Some rs \<Rightarrow> rs) @ [e_range e]))
       Map.empty reg"

definition has_archive :: "extents \<Rightarrow> string \<Rightarrow> bool" where
  "has_archive x t \<longleftrightarrow> (case x t of None \<Rightarrow> False | Some rs \<Rightarrow> rs \<noteq> [])"

definition covering :: "extents \<Rightarrow> string \<Rightarrow> i64 \<Rightarrow> range option" where
  "covering x t a = (case x t of None \<Rightarrow> None | Some rs \<Rightarrow> List.find (\<lambda>r. range_contains r a) rs)"

definition consider_change :: "extents \<Rightarrow> string \<Rightarrow> change \<Rightarrow> at \<Rightarrow> verdict" where
  "consider_change x t ch pos =
     (if \<not> (ch = Delete \<or> ch = Truncate) then Apply
      else if \<not> has_archive x t then Apply
      else
        let alarm = (\<lambda>why ext. Halt \<lparr>al_table = t, al_change = ch, al_reason = why, al_extent = ext\<rparr>)
        in (if ch = Truncate \<or> pos = WholeRelation then alarm TruncateWithArchive None
            else (case pos of
                Ordinal a \<Rightarrow>
                  (case covering x t a of
                     Some ext \<Rightarrow> alarm DeleteInArchivedRange (Some ext)
                   | None \<Rightarrow> Apply)
              | _ \<Rightarrow> alarm UnlocatableAgainstArchive None)))"

subsection \<open>Migration of a whole table\<close>

record cold =
  cold_name :: string
  cold_domain :: range
  cold_archives :: "string list"
  cold_at :: i64

datatype incomplete =
    NotWhollyArchived string "range list"
  | EmptyDomain string

definition migrate :: "registry \<Rightarrow> string \<Rightarrow> range \<Rightarrow> i64 \<Rightarrow> incomplete + cold" where
  "migrate reg t whole now =
     (if range_is_empty whole then Inl (EmptyDomain t)
      else
        let c = coverage_of reg t whole in
        if \<not> coverage_is_complete c then Inl (NotWhollyArchived t (gaps c))
        else Inr \<lparr>cold_name = t, cold_domain = whole, cold_archives = map e_archive (archives c), cold_at = now\<rparr>)"

subsection \<open>Between two adjacent edges nothing changes\<close>

lemma windows2_Cons [simp]: "windows2 (x # y # zs) = (x, y) # windows2 (y # zs)"
  by (simp add: windows2_def)

lemma windows2_short [simp]: "windows2 [] = []" "windows2 [x] = []"
  by (simp_all add: windows2_def)

text \<open>Where a row is read from: the source wherever it is attached, else the entry that claims it.\<close>

definition truth :: "range list \<Rightarrow> registry \<Rightarrow> string \<Rightarrow> i64 \<Rightarrow> read option" where
  "truth attached reg t a =
     (if \<exists>r \<in> set attached. range_contains r a then Some Source
      else map_option (\<lambda>e. Archive (e_archive e) (e_range e)) (entry_at reg t a))"

definition in_both :: "range list \<Rightarrow> registry \<Rightarrow> string \<Rightarrow> i64 \<Rightarrow> bool" where
  "in_both attached reg t a \<longleftrightarrow> (\<exists>r \<in> set attached. range_contains r a) \<and> entry_at reg t a \<noteq> None"

definition flat :: "range list \<Rightarrow> registry \<Rightarrow> string \<Rightarrow> i64 \<Rightarrow> i64 \<Rightarrow> bool" where
  "flat attached reg t f u \<longleftrightarrow>
     (\<forall>a. f \<le> a \<and> a < u \<longrightarrow>
        (\<forall>r \<in> set attached. range_contains r a = range_contains r f) \<and> entry_at reg t a = entry_at reg t f)"

lemma set_plan_edges:
  "x \<in> set (plan_edges p attached reg t) \<longleftrightarrow> r_from p \<le> x \<and> x \<le> r_until p \<and>
     (x = r_from p \<or> x = r_until p \<or>
      (\<exists>r. (r \<in> set attached \<or> (\<exists>e \<in> set reg. e_table e = t \<and> r = e_range e)) \<and> (x = r_from r \<or> x = r_until r)))"
  unfolding plan_edges_def by (simp only: remdups_adj_set set_sort set_filter) auto

lemma sorted_plan_edges: "sorted_wrt (<) (plan_edges p attached reg t)"
  unfolding plan_edges_def by (rule sorted_wrt_remdups_adj) (rule sorted_sort)

lemma flat_edges:
  assumes "\<forall>x \<in> set (plan_edges p attached reg t). x \<le> f \<or> u \<le> x" "r_from p \<le> f" "u \<le> r_until p"
  shows "flat attached reg t f u"
proof -
  have out: "x \<le> f \<or> u \<le> x"
    if x: "x \<in> {r_from r, r_until r}" "r \<in> set attached \<or> (\<exists>e \<in> set reg. e_table e = t \<and> r = e_range e)" for x r
  proof (rule ccontr)
    assume n: "\<not> (x \<le> f \<or> u \<le> x)"
    with assms(2,3) x have "x \<in> set (plan_edges p attached reg t)"
      unfolding set_plan_edges by auto
    with assms(1) n show False by blast
  qed
  have same: "range_contains r a = range_contains r f"
    if "f \<le> a" "a < u" "r \<in> set attached \<or> (\<exists>e \<in> set reg. e_table e = t \<and> r = e_range e)" for r a
  proof -
    have "r_from r \<le> f \<or> u \<le> r_from r" "r_until r \<le> f \<or> u \<le> r_until r"
      by (rule out [OF _ that(3)], simp)+
    with that(1,2) show ?thesis unfolding range_contains_def by linarith
  qed
  have "entry_at reg t a = entry_at reg t f" if "f \<le> a" "a < u" for a
    unfolding entry_at_def
  proof (rule find_cong [OF refl])
    fix e assume "e \<in> set reg"
    then show "(e_table e = t \<and> range_contains (e_range e) a) = (e_table e = t \<and> range_contains (e_range e) f)"
      using same [OF that, of "e_range e"] by blast
  qed
  with same show ?thesis unfolding flat_def by blast
qed

lemma flat_truth:
  assumes "flat attached reg t f u" "f \<le> a" "a < u"
  shows "truth attached reg t a = truth attached reg t f" "in_both attached reg t a = in_both attached reg t f"
proof -
  have "(\<exists>r \<in> set attached. range_contains r a) = (\<exists>r \<in> set attached. range_contains r f)"
    "entry_at reg t a = entry_at reg t f"
    using assms unfolding flat_def by blast+
  then show "truth attached reg t a = truth attached reg t f" "in_both attached reg t a = in_both attached reg t f"
    by (simp_all add: truth_def in_both_def)
qed

subsection \<open>The plan reads every row once, where it is\<close>

definition tiled :: "i64 \<Rightarrow> i64 \<Rightarrow> segment list \<Rightarrow> bool" where
  "tiled start lo segs \<longleftrightarrow>
     sorted_wrt (\<lambda>s q. r_until (seg_range s) \<le> r_from (seg_range q)) segs \<and>
     (\<forall>s \<in> set segs. start \<le> r_from (seg_range s) \<and> r_from (seg_range s) < r_until (seg_range s) \<and>
        r_until (seg_range s) \<le> lo)"

definition reads :: "segment list \<Rightarrow> i64 \<Rightarrow> read \<Rightarrow> bool" where
  "reads segs a rd \<longleftrightarrow> (\<exists>s \<in> set segs. range_contains (seg_range s) a \<and> seg_read s = rd)"

lemma tiled_push:
  assumes "tiled start lo segs" "start \<le> lo" "lo < u"
  shows "tiled start u (push_segment segs \<lparr>r_from = lo, r_until = u\<rparr> rd)"
    and "reads (push_segment segs \<lparr>r_from = lo, r_until = u\<rparr> rd) a rd' \<longleftrightarrow>
      reads segs a rd' \<or> (lo \<le> a \<and> a < u \<and> rd' = rd)"
proof -
  show "tiled start u (push_segment segs \<lparr>r_from = lo, r_until = u\<rparr> rd)"
    using assms by (cases segs rule: rev_cases) (fastforce simp: tiled_def push_segment_def sorted_wrt_append)+
  show "reads (push_segment segs \<lparr>r_from = lo, r_until = u\<rparr> rd) a rd' \<longleftrightarrow>
      reads segs a rd' \<or> (lo \<le> a \<and> a < u \<and> rd' = rd)"
    using assms by (cases segs rule: rev_cases)
      (auto simp: tiled_def push_segment_def reads_def range_contains_def)
qed

lemma tiled_mono: "tiled start lo segs \<Longrightarrow> lo \<le> u \<Longrightarrow> tiled start u segs"
  by (fastforce simp: tiled_def)

lemma tiled_unique:
  assumes "tiled start lo segs" "s \<in> set segs" "q \<in> set segs"
    and "range_contains (seg_range s) a" "range_contains (seg_range q) a"
  shows "s = q"
  using assms unfolding tiled_def
  by (induction segs) (fastforce simp: range_contains_def)+

definition plan_inv :: "range list \<Rightarrow> registry \<Rightarrow> string \<Rightarrow> i64 \<Rightarrow> i64 \<Rightarrow> plan_state \<Rightarrow> bool" where
  "plan_inv attached reg t start lo st \<longleftrightarrow>
     start \<le> lo \<and> tiled start lo (ps_segments st) \<and>
     (\<forall>a rd. reads (ps_segments st) a rd \<longleftrightarrow> start \<le> a \<and> a < lo \<and> truth attached reg t a = Some rd) \<and>
     (\<forall>a. (\<exists>g \<in> set (ps_gaps st). range_contains g a) \<longleftrightarrow> start \<le> a \<and> a < lo \<and> truth attached reg t a = None) \<and>
     (\<forall>g \<in> set (ps_gaps st). r_from g < r_until g) \<and>
     (ps_inconsistencies st = [] \<longleftrightarrow> (\<forall>a. start \<le> a \<and> a < lo \<longrightarrow> \<not> in_both attached reg t a))"

lemma plan_step_inv:
  assumes inv: "plan_inv attached reg t start lo st" and lu: "lo < u" and fl: "flat attached reg t lo u"
  shows "plan_inv attached reg t start u (plan_step attached reg t st (lo, u))"
proof -
  define hot where "hot \<longleftrightarrow> (\<exists>r \<in> set attached. range_contains r lo)"
  define st' where "st' = plan_step attached reg t st (lo, u)"
  note ft = flat_truth [OF fl]
  have sl: "start \<le> lo" and ti: "tiled start lo (ps_segments st)"
    and rd: "\<And>a rd. reads (ps_segments st) a rd \<longleftrightarrow> start \<le> a \<and> a < lo \<and> truth attached reg t a = Some rd"
    and ga: "\<And>a. (\<exists>g \<in> set (ps_gaps st). range_contains g a) \<longleftrightarrow> start \<le> a \<and> a < lo \<and> truth attached reg t a = None"
    and gn: "\<forall>g \<in> set (ps_gaps st). r_from g < r_until g"
    and ic: "ps_inconsistencies st = [] \<longleftrightarrow> (\<forall>a. start \<le> a \<and> a < lo \<longrightarrow> \<not> in_both attached reg t a)"
    using inv unfolding plan_inv_def by blast+
  have step: "start \<le> a \<and> a < u \<longleftrightarrow> (start \<le> a \<and> a < lo) \<or> (lo \<le> a \<and> a < u)" for a
    using sl lu by auto
  have st': "st' =
      (let piece = \<lparr>r_from = lo, r_until = u\<rparr> in
       (case truth attached reg t lo of
          None \<Rightarrow> st\<lparr>ps_gaps := ps_gaps st @ [piece]\<rparr>
        | Some rd \<Rightarrow> st\<lparr>ps_segments := push_segment (ps_segments st) piece rd,
            ps_inconsistencies := ps_inconsistencies st @
              (case entry_at reg t lo of Some e \<Rightarrow> if hot then [InBothTiers t (e_range e) piece] else [] | None \<Rightarrow> [])\<rparr>))"
    using lu by (auto simp: st'_def plan_step_def truth_def hot_def range_is_empty_def list_ex_iff Let_def split: option.splits)
  have both: "in_both attached reg t lo \<longleftrightarrow> hot \<and> entry_at reg t lo \<noteq> None"
    by (simp add: in_both_def hot_def)
  show ?thesis
  proof (cases "truth attached reg t lo")
    case None
    then have s: "ps_segments st' = ps_segments st" "ps_inconsistencies st' = ps_inconsistencies st"
      "ps_gaps st' = ps_gaps st @ [\<lparr>r_from = lo, r_until = u\<rparr>]"
      by (simp_all add: st' Let_def)
    have "\<not> in_both attached reg t lo" using None by (auto simp: truth_def in_both_def split: if_splits)
    then have "ps_inconsistencies st = [] \<longleftrightarrow> (\<forall>a. start \<le> a \<and> a < u \<longrightarrow> \<not> in_both attached reg t a)"
      using ic ft(2) unfolding step by blast
    moreover have "(\<exists>g \<in> set (ps_gaps st'). range_contains g a) \<longleftrightarrow> start \<le> a \<and> a < u \<and> truth attached reg t a = None" for a
      using ga [of a] None ft(1) [of a] sl lu by (auto simp: s range_contains_def)
    moreover have "reads (ps_segments st') a rd \<longleftrightarrow> start \<le> a \<and> a < u \<and> truth attached reg t a = Some rd" for a rd
      using rd [of a rd] None ft(1) [of a] sl lu by (auto simp: s)
    ultimately show ?thesis
      using sl lu ti gn by (auto simp: plan_inv_def st'_def [symmetric] s intro: tiled_mono)
  next
    case (Some r)
    define more where "more = (case entry_at reg t lo of Some e \<Rightarrow> if hot then [InBothTiers t (e_range e) \<lparr>r_from = lo, r_until = u\<rparr>] else [] | None \<Rightarrow> [])"
    have s: "ps_segments st' = push_segment (ps_segments st) \<lparr>r_from = lo, r_until = u\<rparr> r"
      "ps_inconsistencies st' = ps_inconsistencies st @ more" "ps_gaps st' = ps_gaps st"
      using Some by (simp_all add: st' Let_def more_def)
    have "more = [] \<longleftrightarrow> \<not> in_both attached reg t lo"
      by (auto simp: more_def both split: option.splits)
    then have "ps_inconsistencies st' = [] \<longleftrightarrow> (\<forall>a. start \<le> a \<and> a < u \<longrightarrow> \<not> in_both attached reg t a)"
      using ic ft(2) lu unfolding step s by (metis append_is_Nil_conv order_refl)
    moreover have "(\<exists>g \<in> set (ps_gaps st'). range_contains g a) \<longleftrightarrow> start \<le> a \<and> a < u \<and> truth attached reg t a = None" for a
      using ga [of a] Some ft(1) [of a] sl lu by (auto simp: s)
    moreover have "reads (ps_segments st') a rd \<longleftrightarrow> start \<le> a \<and> a < u \<and> truth attached reg t a = Some rd" for a rd
      using rd [of a rd] Some ft(1) [of a] sl lu tiled_push(2) [OF ti sl lu, of r a rd] by (auto simp: s)
    moreover have "tiled start u (ps_segments st')"
      unfolding s by (rule tiled_push(1) [OF ti sl lu])
    ultimately show ?thesis
      using sl lu gn by (auto simp: plan_inv_def st'_def [symmetric] s)
  qed
qed

lemma plan_fold_inv:
  assumes "sorted_wrt (<) (lo # es)" "plan_inv attached reg t (r_from p) lo st"
    and "\<forall>f u. (f, u) \<in> set (windows2 (lo # es)) \<longrightarrow> flat attached reg t f u"
  shows "plan_inv attached reg t (r_from p) (last (lo # es)) (foldl (plan_step attached reg t) st (windows2 (lo # es)))"
  using assms
proof (induction es arbitrary: lo st)
  case (Cons u es)
  then have "plan_inv attached reg t (r_from p) u (plan_step attached reg t st (lo, u))"
    by (intro plan_step_inv) auto
  with Cons show ?case by simp
qed simp

lemma windows2_adjacent:
  "sorted_wrt (<) xs \<Longrightarrow> (f, u) \<in> set (windows2 xs) \<Longrightarrow> f \<in> set xs \<and> u \<in> set xs \<and> (\<forall>x \<in> set xs. x \<le> f \<or> u \<le> x)"
  for xs :: "i64 list"
proof (induction xs)
  case (Cons a xs)
  show ?case
  proof (cases xs)
    case (Cons b ys)
    with Cons.prems Cons.IH show ?thesis by (auto simp: less_imp_le)
  qed (use Cons in simp)
qed simp

lemma plan_loop_inv:
  assumes "r_from p \<le> r_until p"
  shows "plan_inv attached reg t (r_from p) (r_until p) (plan_loop attached reg t (plan_edges p attached reg t))"
proof -
  let ?es = "plan_edges p attached reg t"
  have so: "sorted_wrt (<) ?es" by (rule sorted_plan_edges)
  have mem: "r_from p \<in> set ?es" "r_until p \<in> set ?es" "\<forall>x \<in> set ?es. r_from p \<le> x \<and> x \<le> r_until p"
    using assms by (simp_all add: set_plan_edges)
  then obtain es where es: "?es = hd ?es # es" by (cases ?es) auto
  have hd: "hd ?es = r_from p"
    using so mem(1,3) es by (metis list.set_intros(1) order.asym order.order_iff_strict set_ConsD sorted_wrt.simps(2))
  have last: "last ?es = r_until p"
  proof -
    obtain ys where ys: "?es = ys @ [last ?es]" using es by (metis append_butlast_last_id list.discI)
    show ?thesis
      using so mem(2,3) ys
      by (metis Un_iff append_is_Nil_conv in_set_conv_decomp last_in_set list.set_intros(1) not_Cons_self2
          order.asym order.order_iff_strict set_ConsD set_append sorted_wrt_append empty_iff list.set(1))
  qed
  have init: "plan_inv attached reg t (r_from p) (r_from p) \<lparr>ps_segments = [], ps_inconsistencies = [], ps_gaps = []\<rparr>"
    by (auto simp: plan_inv_def tiled_def reads_def)
  have "flat attached reg t f u" if "(f, u) \<in> set (windows2 ?es)" for f u
    using windows2_adjacent [OF so that] mem(3) by (intro flat_edges [of p]) auto
  with plan_fold_inv [of "r_from p" es attached reg t p] so init es hd last show ?thesis
    unfolding plan_loop_def by metis
qed

lemma plan_edges_empty: "\<not> r_from p \<le> r_until p \<Longrightarrow> plan_edges p attached reg t = []"
  using set_plan_edges [of _ p attached reg t] by (cases "plan_edges p attached reg t") fastforce+

lemma planned:
  defines "st \<equiv> \<lambda>p attached reg t. plan_loop attached reg t (plan_edges p attached reg t)"
  shows "reads (ps_segments (st p attached reg t)) a rd \<longleftrightarrow> range_contains p a \<and> truth attached reg t a = Some rd"
    and "(\<exists>g \<in> set (ps_gaps (st p attached reg t)). range_contains g a) \<longleftrightarrow> range_contains p a \<and> truth attached reg t a = None"
    and "\<forall>g \<in> set (ps_gaps (st p attached reg t)). \<exists>a. range_contains g a"
    and "\<exists>lo. tiled (r_from p) lo (ps_segments (st p attached reg t))"
    and "ps_inconsistencies (st p attached reg t) = [] \<longleftrightarrow> (\<forall>a. range_contains p a \<longrightarrow> \<not> in_both attached reg t a)"
proof -
  have "(\<forall>a rd. reads (ps_segments (st p attached reg t)) a rd \<longleftrightarrow> range_contains p a \<and> truth attached reg t a = Some rd) \<and>
    (\<forall>a. (\<exists>g \<in> set (ps_gaps (st p attached reg t)). range_contains g a) \<longleftrightarrow> range_contains p a \<and> truth attached reg t a = None) \<and>
    (\<forall>g \<in> set (ps_gaps (st p attached reg t)). r_from g < r_until g) \<and>
    (\<exists>lo. tiled (r_from p) lo (ps_segments (st p attached reg t))) \<and>
    (ps_inconsistencies (st p attached reg t) = [] \<longleftrightarrow> (\<forall>a. range_contains p a \<longrightarrow> \<not> in_both attached reg t a))"
  proof (cases "r_from p \<le> r_until p")
    case True
    show ?thesis
      using plan_loop_inv [OF True, of attached reg t]
      unfolding st_def plan_inv_def range_contains_def by blast
  next
    case False
    then have "\<not> range_contains p a" for a by (simp add: range_contains_def)
    then show ?thesis
      using plan_edges_empty [OF False]
      by (simp add: st_def plan_loop_def tiled_def reads_def)
  qed
  then show "reads (ps_segments (st p attached reg t)) a rd \<longleftrightarrow> range_contains p a \<and> truth attached reg t a = Some rd"
    "(\<exists>g \<in> set (ps_gaps (st p attached reg t)). range_contains g a) \<longleftrightarrow> range_contains p a \<and> truth attached reg t a = None"
    "\<forall>g \<in> set (ps_gaps (st p attached reg t)). \<exists>a. range_contains g a"
    "\<exists>lo. tiled (r_from p) lo (ps_segments (st p attached reg t))"
    "ps_inconsistencies (st p attached reg t) = [] \<longleftrightarrow> (\<forall>a. range_contains p a \<longrightarrow> \<not> in_both attached reg t a)"
    by (auto simp: range_contains_def)
qed

text \<open>
  C9: The unified plan reads every row once and from the right tier. Whatever is attached and
  archived, when a plan is made each row of the predicate lies in exactly one segment; that
  segment reads the source if the row is attached, and otherwise the archive of the one entry
  that claims it; no segment holds a row outside the predicate, and they are in ascending order.
\<close>

theorem unified_plan_is_exact:
  assumes "unified_plan_of p attached reg t snap whole = Inr pl"
  shows "((\<exists>s \<in> set (segments pl). range_contains (seg_range s) a) \<longleftrightarrow> range_contains p a) \<and>
    (\<forall>s \<in> set (segments pl). \<forall>q \<in> set (segments pl).
       range_contains (seg_range s) a \<and> range_contains (seg_range q) a \<longrightarrow> s = q) \<and>
    (\<forall>s \<in> set (segments pl). range_contains (seg_range s) a \<longrightarrow>
       (if \<exists>r \<in> set attached. range_contains r a then seg_read s = Source
        else \<exists>e \<in> set reg. e_table e = t \<and> range_contains (e_range e) a \<and>
          seg_read s = Archive (e_archive e) (e_range e))) \<and>
    sorted_wrt (\<lambda>s q. r_until (seg_range s) \<le> r_from (seg_range q)) (segments pl)"
proof -
  define st where "st = plan_loop attached reg t (plan_edges p attached reg t)"
  note pl = planned [where p = p and attached = attached and reg = reg and t = t, folded st_def]
  have ng: "ps_gaps st = []" and sg: "segments pl = ps_segments st"
    using assms by (auto simp: unified_plan_of_def st_def Let_def split: if_splits)
  have tr: "truth attached reg t a \<noteq> None" if "range_contains p a"
    using pl(2) [of a] that ng by auto
  obtain lo where ti: "tiled (r_from p) lo (segments pl)"
    using pl(4) sg by auto
  have rd: "reads (segments pl) a rd \<longleftrightarrow> range_contains p a \<and> truth attached reg t a = Some rd" for rd
    using pl(1) [of a rd] sg by simp
  have 1: "(\<exists>s \<in> set (segments pl). range_contains (seg_range s) a) \<longleftrightarrow> range_contains p a"
    using rd tr unfolding reads_def by blast
  have 2: "\<forall>s \<in> set (segments pl). \<forall>q \<in> set (segments pl).
       range_contains (seg_range s) a \<and> range_contains (seg_range q) a \<longrightarrow> s = q"
    using tiled_unique [OF ti] by blast
  have 3: "if \<exists>r \<in> set attached. range_contains r a then seg_read s = Source
      else \<exists>e \<in> set reg. e_table e = t \<and> range_contains (e_range e) a \<and> seg_read s = Archive (e_archive e) (e_range e)"
    if s: "s \<in> set (segments pl)" "range_contains (seg_range s) a" for s
  proof -
    have "truth attached reg t a = Some (seg_read s)"
      using rd [of "seg_read s"] s unfolding reads_def by blast
    then show ?thesis
      by (auto simp: truth_def entry_at_def dest!: find_SomeD split: if_splits)
  qed
  from 1 2 3 ti show ?thesis unfolding tiled_def by blast
qed

lemma example_plan:
  "unified_plan_of \<lparr>r_from = 5, r_until = 25\<rparr> [\<lparr>r_from = 10, r_until = 25\<rparr>] [example_entry ''t'' 0 10] ''t'' ''s'' \<lparr>r_from = 0, r_until = 30\<rparr> =
    Inr \<lparr>plan_table = ''t'', plan_snapshot = ''s'',
      segments = [\<lparr>seg_range = \<lparr>r_from = 5, r_until = 10\<rparr>, seg_read = Archive ''at'' \<lparr>r_from = 0, r_until = 10\<rparr>\<rparr>,
        \<lparr>seg_range = \<lparr>r_from = 10, r_until = 25\<rparr>, seg_read = Source\<rparr>],
      inconsistencies = [], whole_domain = False\<rparr>"
  by (simp add: unified_plan_of_def plan_loop_def plan_edges_def plan_step_def example_entry_def entry_at_def
      range_contains_def range_is_empty_def push_segment_def)

theorem unified_plan_is_exact_witness:
  "\<exists>pl. unified_plan_of \<lparr>r_from = 5, r_until = 25\<rparr> [\<lparr>r_from = 10, r_until = 25\<rparr>] [example_entry ''t'' 0 10] ''t'' ''s'' \<lparr>r_from = 0, r_until = 30\<rparr> = Inr pl \<and>
     (\<exists>s \<in> set (segments pl). range_contains (seg_range s) 7)"
  using unified_plan_is_exact [OF example_plan, of 7] example_plan
  by (simp add: range_contains_def)

text \<open>
  The planner refuses exactly when it must, and says why. It answers a coverage gap if and
  only if some row of the predicate is neither attached nor archived; the gaps it lists are
  those rows and no others.
\<close>

theorem unified_refusal_is_exact:
  "((\<exists>why. unified_plan_of p attached reg t snap whole = Inl why) \<longleftrightarrow>
     (\<exists>a. range_contains p a \<and> \<not> (\<exists>r \<in> set attached. range_contains r a) \<and> entry_at reg t a = None)) \<and>
   (\<forall>why. unified_plan_of p attached reg t snap whole = Inl why \<longrightarrow>
     (\<exists>gs. why = CoverageGap t gs \<and> gs \<noteq> [] \<and>
       (\<forall>a. (\<exists>g \<in> set gs. range_contains g a) \<longleftrightarrow>
          range_contains p a \<and> \<not> (\<exists>r \<in> set attached. range_contains r a) \<and> entry_at reg t a = None)))"
proof -
  define st where "st = plan_loop attached reg t (plan_edges p attached reg t)"
  note pl = planned [where p = p and attached = attached and reg = reg and t = t, folded st_def]
  have tr: "truth attached reg t a = None \<longleftrightarrow> \<not> (\<exists>r \<in> set attached. range_contains r a) \<and> entry_at reg t a = None" for a
    by (simp add: truth_def)
  have un: "unified_plan_of p attached reg t snap whole = Inl why \<longleftrightarrow> ps_gaps st \<noteq> [] \<and> why = CoverageGap t (ps_gaps st)" for why
    by (auto simp: unified_plan_of_def st_def Let_def)
  have "ps_gaps st \<noteq> [] \<longleftrightarrow> (\<exists>a. \<exists>g \<in> set (ps_gaps st). range_contains g a)"
    using pl(3) by (metis empty_iff last_in_set set_empty)
  with pl(2) show ?thesis unfolding un tr by blast
qed

theorem unified_refusal_is_exact_witness:
  "\<exists>gs. unified_plan_of \<lparr>r_from = 5, r_until = 25\<rparr> [\<lparr>r_from = 12, r_until = 25\<rparr>] [example_entry ''t'' 0 10] ''t'' ''s'' \<lparr>r_from = 0, r_until = 30\<rparr> =
     Inl (CoverageGap ''t'' gs) \<and> (\<exists>g \<in> set gs. range_contains g 11)"
proof -
  have "range_contains \<lparr>r_from = 5, r_until = 25\<rparr> 11 \<and> \<not> (\<exists>r \<in> set [\<lparr>r_from = 12, r_until = 25\<rparr>]. range_contains r 11) \<and>
      entry_at [example_entry ''t'' 0 10] ''t'' 11 = None"
    by (simp add: range_contains_def entry_at_def example_entry_def)
  with unified_refusal_is_exact [of "\<lparr>r_from = 5, r_until = 25\<rparr>" "[\<lparr>r_from = 12, r_until = 25\<rparr>]"
      "[example_entry ''t'' 0 10]" "''t''" "''s''" "\<lparr>r_from = 0, r_until = 30\<rparr>"]
  show ?thesis by blast
qed

text \<open>
  Reconciliation is the licence it claims to be: a table reconciled clean against what the
  catalog shows attached has no row in both tiers, so no plan over that catalog, whatever its
  predicate, ever finds one to choose between; a refused table does have such a row.
\<close>

theorem servable_tables_are_consistent:
  assumes "unified_plan_of p (map snd (filter (\<lambda>x. fst x = t) attached)) reg t snap whole = Inr pl"
  shows "(servable (reconcile reg attached) t = Some u \<longrightarrow> u = t \<and> inconsistencies pl = []) \<and>
    (t \<in> refused (reconcile reg attached) \<longleftrightarrow>
      (\<exists>hot e a. (t, hot) \<in> set attached \<and> e \<in> set reg \<and> e_table e = t \<and> range_contains hot a \<and> range_contains (e_range e) a))"
proof
  define st where "st = plan_loop (map snd (filter (\<lambda>x. fst x = t) attached)) reg t (plan_edges p (map snd (filter (\<lambda>x. fst x = t) attached)) reg t)"
  have cf: "(\<exists>c \<in> set (conflicts (reconcile reg attached)). conflict_table c = t) \<longleftrightarrow>
      (\<exists>hot e a. (t, hot) \<in> set attached \<and> e \<in> set reg \<and> e_table e = t \<and> range_contains hot a \<and> range_contains (e_range e) a)"
    by (force simp: reconcile_def set_map_filter range_intersects_iff split: if_splits)
  then show "t \<in> refused (reconcile reg attached) \<longleftrightarrow>
      (\<exists>hot e a. (t, hot) \<in> set attached \<and> e \<in> set reg \<and> e_table e = t \<and> range_contains hot a \<and> range_contains (e_range e) a)"
    by (auto simp: refused_def image_iff)
  show "servable (reconcile reg attached) t = Some u \<longrightarrow> u = t \<and> inconsistencies pl = []"
  proof
    assume "servable (reconcile reg attached) t = Some u"
    then have "u = t" and "\<not> (\<exists>c \<in> set (conflicts (reconcile reg attached)). conflict_table c = t)"
      by (auto simp: servable_def Let_def list_all_iff split: if_splits)
    then have "\<not> in_both (map snd (filter (\<lambda>x. fst x = t) attached)) reg t a" for a
      unfolding cf by (auto simp: in_both_def entry_at_def dest!: find_SomeD)
    then have "ps_inconsistencies st = []"
      unfolding st_def planned(5) by blast
    with assms \<open>u = t\<close> show "u = t \<and> inconsistencies pl = []"
      by (auto simp: unified_plan_of_def st_def Let_def split: if_splits)
  qed
qed

theorem servable_tables_are_consistent_witness:
  "servable (reconcile [example_entry ''t'' 0 10] [(''t'', \<lparr>r_from = 10, r_until = 25\<rparr>)]) ''t'' = Some ''t'' \<and>
   ''t'' \<notin> refused (reconcile [example_entry ''t'' 0 10] [(''t'', \<lparr>r_from = 10, r_until = 25\<rparr>)])"
proof -
  let ?a = "[(''t'', \<lparr>r_from = 10, r_until = 25\<rparr>)]"
  have "map snd (filter (\<lambda>x. fst x = ''t'') ?a) = [\<lparr>r_from = 10, r_until = 25\<rparr>]" by simp
  note pl = example_plan [folded this]
  have "servable (reconcile [example_entry ''t'' 0 10] ?a) ''t'' = Some ''t''"
    by (simp add: servable_def reconcile_def example_entry_def map_filter_simps range_intersects_def range_is_empty_def)
  moreover have "\<not> (\<exists>hot e a. (''t'', hot) \<in> set ?a \<and> e \<in> set [example_entry ''t'' 0 10] \<and> e_table e = ''t'' \<and>
      range_contains hot a \<and> range_contains (e_range e) a)"
    by (simp add: example_entry_def range_contains_def)
  ultimately show ?thesis
    using servable_tables_are_consistent [OF pl, of "''t''"] by blast
qed

subsection \<open>Guards\<close>

lemma extents_of_eq:
  "extents_of reg t = (case map e_range (filter (\<lambda>e. e_table e = t) reg) of [] \<Rightarrow> None | rs \<Rightarrow> Some rs)"
proof (induction reg rule: rev_induct)
  case (snoc e reg)
  then show ?case
    unfolding extents_of_def by (auto split: list.splits option.splits)
qed (simp add: extents_of_def)

lemma covering_extents: "covering (extents_of reg) t a = map_option e_range (entry_at reg t a)"
proof -
  have f: "List.find (\<lambda>r. range_contains r a) (map e_range (filter (\<lambda>e. e_table e = t) reg)) = map_option e_range (entry_at reg t a)"
    by (induction reg) (auto simp: entry_at_def)
  then show ?thesis
    unfolding covering_def extents_of_eq by (cases "map e_range (filter (\<lambda>e. e_table e = t) reg)") auto
qed

lemma has_archive_extents: "has_archive (extents_of reg) t \<longleftrightarrow> (\<exists>e \<in> set reg. e_table e = t)"
proof -
  have "has_archive (extents_of reg) t \<longleftrightarrow> filter (\<lambda>e. e_table e = t) reg \<noteq> []"
    by (auto simp: has_archive_def extents_of_eq split: list.splits)
  then show ?thesis by (auto simp: filter_empty_conv)
qed

lemma check_mutable_iff: "check_mutable reg t a = Inr () \<longleftrightarrow> entry_at reg t a = None"
  by (simp add: check_mutable_def entry_at_def split: option.splits)



text \<open>
  A table goes cold only when it is wholly archived: migration succeeds exactly when the
  declared domain has a row and every row of it is claimed by an entry of the table; the archives
  it then records are those entries', and a refusal for missing rows lists exactly the rows
  nothing covers.
\<close>

theorem migrate_only_when_whole:
  assumes "registry_ok reg"
  shows "((\<exists>c. migrate reg t whole now = Inr c) \<longleftrightarrow>
      (\<exists>a. range_contains whole a) \<and> (\<forall>a. range_contains whole a \<longrightarrow> entry_at reg t a \<noteq> None)) \<and>
    (\<forall>c a. migrate reg t whole now = Inr c \<and> range_contains whole a \<longrightarrow>
      (\<exists>e \<in> set reg. e_table e = t \<and> range_contains (e_range e) a \<and> e_archive e \<in> set (cold_archives c))) \<and>
    (\<forall>gs a. migrate reg t whole now = Inl (NotWhollyArchived t gs) \<longrightarrow>
      ((\<exists>g \<in> set gs. range_contains g a) \<longleftrightarrow> range_contains whole a \<and> entry_at reg t a = None))"
proof -
  have ea: "entry_at reg t a \<noteq> None \<longleftrightarrow> (\<exists>e \<in> set reg. e_table e = t \<and> range_contains (e_range e) a)" for a
    by (auto simp: entry_at_None)
  note cc = coverage_complete_iff [OF assms, of t whole]
  note cg = coverage_gaps [OF assms, where t = t and wanted = whole]
  have mi: "migrate reg t whole now =
     (if range_is_empty whole then Inl (EmptyDomain t)
      else if \<not> coverage_is_complete (coverage_of reg t whole) then Inl (NotWhollyArchived t (gaps (coverage_of reg t whole)))
      else Inr \<lparr>cold_name = t, cold_domain = whole, cold_archives = map e_archive (archives (coverage_of reg t whole)), cold_at = now\<rparr>)"
    by (simp add: migrate_def Let_def)
  have 1: "(\<exists>c. migrate reg t whole now = Inr c) \<longleftrightarrow>
      (\<exists>a. range_contains whole a) \<and> (\<forall>a. range_contains whole a \<longrightarrow> entry_at reg t a \<noteq> None)"
    unfolding mi using range_nonempty_iff [of whole] cc ea by auto
  have 2: "\<exists>e \<in> set reg. e_table e = t \<and> range_contains (e_range e) a \<and> e_archive e \<in> set (cold_archives c)"
    if m: "migrate reg t whole now = Inr c" "range_contains whole a" for c a
  proof -
    obtain e where e: "e \<in> set reg" "e_table e = t" "range_contains (e_range e) a"
      using 1 m ea by blast
    then have "e \<in> set (archives (coverage_of reg t whole))" using cg m(2) by blast
    moreover have "cold_archives c = map e_archive (archives (coverage_of reg t whole))"
      using m(1) unfolding mi by (auto split: if_splits)
    ultimately show ?thesis using e by auto
  qed
  have 3: "(\<exists>g \<in> set gs. range_contains g a) \<longleftrightarrow> range_contains whole a \<and> entry_at reg t a = None"
    if "migrate reg t whole now = Inl (NotWhollyArchived t gs)" for gs a
    using that cg [of a] ea [of a] unfolding mi by (auto split: if_splits)
  from 1 2 3 show ?thesis by blast
qed

theorem migrate_only_when_whole_witness:
  "\<exists>c. migrate [example_entry ''t'' 0 10, example_entry ''t'' 20 30] ''t'' \<lparr>r_from = 2, r_until = 9\<rparr> 0 = Inr c"
proof -
  have "entry_at [example_entry ''t'' 0 10, example_entry ''t'' 20 30] ''t'' a \<noteq> None"
    if "range_contains \<lparr>r_from = 2, r_until = 9\<rparr> a" for a
    using that by (simp add: entry_at_def example_entry_def range_contains_def)
  moreover have "range_contains \<lparr>r_from = 2, r_until = 9\<rparr> 5" by (simp add: range_contains_def)
  ultimately show ?thesis
    using migrate_only_when_whole [OF example_registry_ok, of "''t''" "\<lparr>r_from = 2, r_until = 9\<rparr>" 0] by blast
qed

end
