(* ===== verification/Tier_Quarantine.thy ===== *)
theory Tier_Quarantine
  imports Tier_Unify
begin

text \<open>
  The two ways back from a purge: the quarantine of detached partitions,
  \<^verbatim>\<open>crates/sankhya-tiering/src/quarantine.rs\<close>, and the rehydration of an archive into a
  read-only copy, \<^verbatim>\<open>rehydrate.rs\<close>. Both run on saturating deadlines some days after an event.
\<close>

subsection \<open>Quarantine\<close>

definition GRACE_DEFAULT_DAYS :: u32 where "GRACE_DEFAULT_DAYS = 7"

text \<open>A \<open>Grace\<close> is its number of days; \<open>of\<close> refuses none.\<close>

type_synonym grace = u32

datatype no_grace = NoGrace

definition grace_of :: "u32 \<Rightarrow> no_grace + grace" where
  "grace_of days = (if days = 0 then Inl NoGrace else Inr days)"

record held =
  h_purge :: string
  h_table :: string
  h_range :: range
  h_storage :: string
  detached_at :: i64
  h_grace :: grace

definition released_at :: "held \<Rightarrow> i64" where
  "released_at h = days_after (detached_at h) (h_grace h)"

definition within_grace :: "held \<Rightarrow> i64 \<Rightarrow> bool" where
  "within_grace h now \<longleftrightarrow> now < released_at h"

datatype reattach_refused =
    NotHeld string
  | GraceEnded string i64

record reattached =
  ra_purge :: string
  ra_table :: string
  ra_range :: range
  ra_storage :: string
  entry_withdrawn :: bool

datatype kept = WithinGrace i64 | Unarchived

record reaping =
  release :: "held list"
  kept_back :: "(held \<times> kept) list"

type_synonym quarantine = "held list"

definition hold :: "quarantine \<Rightarrow> held \<Rightarrow> quarantine" where
  "hold q h = q @ [h]"

definition reattach ::
    "quarantine \<Rightarrow> registry \<Rightarrow> string \<Rightarrow> i64 \<Rightarrow> (reattach_refused + reattached) \<times> quarantine \<times> registry" where
  "reattach q reg purge now =
     (case position (\<lambda>h. h_purge h = purge) q of
        None \<Rightarrow> (Inl (NotHeld purge), q, reg)
      | Some i \<Rightarrow>
          let h = q ! i in
          if \<not> within_grace h now then (Inl (GraceEnded purge (released_at h)), q, reg)
          else
            let (gone, reg') = withdraw reg (h_table h) (h_range h)
            in (Inr \<lparr>ra_purge = h_purge h, ra_table = h_table h, ra_range = h_range h,
                  ra_storage = h_storage h, entry_withdrawn = (gone \<noteq> None)\<rparr>, remove_at i q, reg'))"

definition is_archived :: "registry \<Rightarrow> held \<Rightarrow> bool" where
  "is_archived reg h \<longleftrightarrow> list_ex (\<lambda>e. e_table e = h_table h \<and> e_range e = h_range h) reg"

fun reap_loop :: "registry \<Rightarrow> i64 \<Rightarrow> held list \<Rightarrow> reaping \<Rightarrow> held list \<Rightarrow> reaping \<times> held list" where
  "reap_loop reg now [] r still = (r, still)"
| "reap_loop reg now (h # hs) r still =
     (if within_grace h now
      then reap_loop reg now hs (r\<lparr>kept_back := kept_back r @ [(h, WithinGrace (released_at h))]\<rparr>) (still @ [h])
      else if is_archived reg h
      then reap_loop reg now hs (r\<lparr>release := release r @ [h]\<rparr>) still
      else reap_loop reg now hs (r\<lparr>kept_back := kept_back r @ [(h, Unarchived)]\<rparr>) (still @ [h]))"

definition reap :: "quarantine \<Rightarrow> registry \<Rightarrow> i64 \<Rightarrow> reaping \<times> quarantine" where
  "reap q reg now = reap_loop reg now q \<lparr>release = [], kept_back = []\<rparr> []"

definition why_kept :: "i64 \<Rightarrow> held \<Rightarrow> kept" where
  "why_kept now h = (if within_grace h now then WithinGrace (released_at h) else Unarchived)"

lemma reap_loop_eq:
  "reap_loop reg now hs r still =
     (let out = (\<lambda>h. \<not> within_grace h now \<and> is_archived reg h);
          stay = filter (\<lambda>h. \<not> out h) hs
      in (r\<lparr>release := release r @ filter out hs,
           kept_back := kept_back r @ map (\<lambda>h. (h, why_kept now h)) stay\<rparr>, still @ stay))"
  by (induction hs arbitrary: r still) (auto simp: Let_def why_kept_def)

lemma reap_eq:
  "reap q reg now =
     (let out = (\<lambda>h. \<not> within_grace h now \<and> is_archived reg h);
          stay = filter (\<lambda>h. \<not> out h) q
      in (\<lparr>release = filter out q, kept_back = map (\<lambda>h. (h, why_kept now h)) stay\<rparr>, stay))"
  by (simp add: reap_def reap_loop_eq Let_def)

text \<open>
  C11: Reaping never destroys the last copy. The held partitions are split, none lost and none
  duplicated, into those released and those kept; one is released only when its grace has
  lapsed and the registry's entry for exactly its range stands, so that every one of its rows
  is claimed by an archive; the rest are kept in order, each with the true reason.
\<close>

theorem reaping_keeps_a_copy:
  assumes "reap q reg now = (r, q')" and "registry_ok reg"
  shows "mset (release r) + mset q' = mset q \<and> map fst (kept_back r) = q' \<and>
    (\<forall>h \<in> set (release r). released_at h \<le> now \<and>
       (\<forall>a. range_contains (h_range h) a \<longrightarrow> check_mutable reg (h_table h) a \<noteq> Inr ())) \<and>
    (\<forall>(h, why) \<in> set (kept_back r).
       (why = WithinGrace (released_at h) \<and> now < released_at h) \<or>
       (why = Unarchived \<and> \<not> (\<exists>e \<in> set reg. e_table e = h_table h \<and> e_range e = h_range h)))"
proof -
  let ?out = "\<lambda>h. \<not> within_grace h now \<and> is_archived reg h"
  have r: "release r = filter ?out q" "q' = filter (\<lambda>h. \<not> ?out h) q" "kept_back r = map (\<lambda>h. (h, why_kept now h)) q'"
    using assms(1) by (auto simp: reap_eq Let_def)
  have "mset (release r) + mset q' = mset q"
    unfolding r by (simp add: multiset_partition [of "mset q" ?out, symmetric])
  moreover have "check_mutable reg (h_table h) a \<noteq> Inr ()" if "?out h" "range_contains (h_range h) a" for h a
    using that by (auto simp: is_archived_def list_ex_iff check_mutable_iff entry_at_None)
  moreover have "map fst (kept_back r) = q'" unfolding r(3) by (simp add: comp_def)
  ultimately show ?thesis
    unfolding r(1) r(3) by (auto simp: r(2) why_kept_def within_grace_def is_archived_def list_ex_iff)
qed

text \<open>A purge whose entry is recorded and whose partition is held, at its most general.\<close>

definition example_held :: held where
  "example_held = \<lparr>h_purge = ''p'', h_table = ''t'', h_range = \<lparr>r_from = 0, r_until = 10\<rparr>,
     h_storage = ''disk'', detached_at = 0, h_grace = 7\<rparr>"

theorem reaping_keeps_a_copy_witness:
  "check_mutable [example_entry ''t'' 0 10, example_entry ''t'' 20 30] ''t'' 4 \<noteq> Inr ()"
proof -
  let ?reg = "[example_entry ''t'' 0 10, example_entry ''t'' 20 30]"
  have "\<not> within_grace example_held (8 * DAY)" "is_archived ?reg example_held"
    by (simp_all add: within_grace_def released_at_def example_held_def days_after_def i64_defs DAY_def
        is_archived_def example_entry_def)
  then have "reap [example_held] ?reg (8 * DAY) = (\<lparr>release = [example_held], kept_back = []\<rparr>, [])"
    by (simp add: reap_eq)
  from reaping_keeps_a_copy [OF this example_registry_ok] show ?thesis
    by (simp add: example_held_def range_contains_def)
qed

text \<open>
  Re-attachment undoes a purge. When a purge recorded an entry and held the partition it
  detached, under a purge id not in use and with a grace that \<open>Grace::of\<close> admits, then until
  the grace ends re-attaching gives back exactly what was stored, the quarantine is as it was,
  and every row of every table is claimed as it was before the purge --- mutable again where it
  was mutable. Once the grace has ended it is refused and nothing changes.
\<close>

theorem reattach_undoes_purge:
  assumes "registry_ok reg" and "record_entry reg e = Inr reg'"
    and "h_table h = e_table e" and "h_range h = e_range e"
    and "grace_of d = Inr (h_grace h)" and "\<forall>k \<in> set q. h_purge k \<noteq> h_purge h"
  shows "(now < released_at h \<longrightarrow>
      (\<exists>reg''. reattach (hold q h) reg' (h_purge h) now =
         (Inr \<lparr>ra_purge = h_purge h, ra_table = e_table e, ra_range = e_range e, ra_storage = h_storage h,
               entry_withdrawn = True\<rparr>, q, reg'') \<and>
         (\<forall>t a. check_mutable reg'' t a = check_mutable reg t a \<and> entry_at reg'' t a = entry_at reg t a))) \<and>
    (released_at h \<le> now \<longrightarrow>
      reattach (hold q h) reg' (h_purge h) now = (Inl (GraceEnded (h_purge h) (released_at h)), hold q h, reg'))"
proof -
  have pos: "position (\<lambda>k. h_purge k = h_purge h) (hold q h) = Some (length q)"
    using assms(6) unfolding hold_def by (induction q) auto
  have nth: "hold q h ! length q = h" and rem: "remove_at (length q) (hold q h) = q"
    by (simp_all add: hold_def remove_at_def)
  obtain gone reg'' where w: "withdraw reg' (e_table e) (e_range e) = (gone, reg'')" by fastforce
  have "e \<in> set reg'"
    using record_entry_ok(2) [OF assms(1,2)] by (metis mset_add union_single_eq_member set_mset_mset)
  then have g: "gone \<noteq> None"
    using w by (auto simp: withdraw_def position_None split: option.splits)
  have c: "entry_at reg'' t a = entry_at reg t a" for t a
    using registry.take_put [OF assms(1,2), of t a] w by simp
  then have "check_mutable reg'' t a = check_mutable reg t a" for t a
    by (simp add: check_mutable_def flip: entry_at_def)
  with c show ?thesis
    using g w assms(3,4) by (auto simp: reattach_def pos nth rem within_grace_def Let_def)
qed

theorem reattach_undoes_purge_witness:
  "\<exists>reg''. reattach [example_held] [example_entry ''t'' 0 10] ''p'' (6 * DAY) =
     (Inr \<lparr>ra_purge = ''p'', ra_table = ''t'', ra_range = \<lparr>r_from = 0, r_until = 10\<rparr>, ra_storage = ''disk'',
           entry_withdrawn = True\<rparr>, [], reg'')"
proof -
  have 1: "registry_ok []" by (simp add: registry_ok_def)
  have 2: "record_entry [] (example_entry ''t'' 0 10) = Inr [example_entry ''t'' 0 10]"
    by (simp add: record_entry_def example_entry_def range_is_empty_def)
  have 3: "grace_of 7 = Inr (h_grace example_held)" by (simp add: grace_of_def example_held_def)
  have 4: "6 * DAY < released_at example_held"
    by (simp add: released_at_def example_held_def days_after_def i64_defs DAY_def)
  from reattach_undoes_purge [OF 1 2 _ _ 3, of "[]" "6 * DAY"] 4 show ?thesis
    by (auto simp: hold_def example_held_def example_entry_def)
qed

subsection \<open>Rehydration\<close>

datatype not_bounded = Never | TooLong u32 u32

definition EXPIRY_DEFAULT_DAYS :: u32 where "EXPIRY_DEFAULT_DAYS = 30"
definition MAXIMUM_DAYS :: u32 where "MAXIMUM_DAYS = 90"

definition expiry_of :: "u32 \<Rightarrow> not_bounded + u32" where
  "expiry_of days =
     (if days = 0 then Inl Never
      else if days > MAXIMUM_DAYS then Inl (TooLong days MAXIMUM_DAYS)
      else Inr days)"

datatype unsuitable = MayBeCaptured string | TheLiveSchema string

text \<open>A \<open>Target\<close> is the name of its schema.\<close>

definition loading_into :: "string \<Rightarrow> string \<Rightarrow> bool \<Rightarrow> unsuitable + string" where
  "loading_into schema live_schema excluded_from_publications =
     (if \<not> excluded_from_publications then Inl (MayBeCaptured schema)
      else if schema = live_schema then Inl (TheLiveSchema schema)
      else Inr schema)"

record rehydration =
  re_name :: string
  re_table :: string
  re_range :: range
  re_archive :: string
  re_target :: string
  requested_by :: string
  re_at :: i64
  re_expiry :: u32

definition re_expires_at :: "rehydration \<Rightarrow> i64" where
  "re_expires_at r = days_after (re_at r) (re_expiry r)"

definition live_at :: "rehydration \<Rightarrow> i64 \<Rightarrow> bool" where
  "live_at r now \<longleftrightarrow> now < re_expires_at r"

type_synonym register = "rehydration list"

definition register_record :: "register \<Rightarrow> rehydration \<Rightarrow> register" where
  "register_record g r = g @ [r]"

definition register_expire :: "register \<Rightarrow> i64 \<Rightarrow> rehydration list \<times> register" where
  "register_expire g now = (filter (\<lambda>r. \<not> live_at r now) g, filter (\<lambda>r. live_at r now) g)"

definition accumulation :: "register \<Rightarrow> i64 \<Rightarrow> nat \<times> i64" where
  "accumulation g now =
     (length g,
      (case iter_max (map (\<lambda>r. rust_div (i64_saturating_sub now (re_at r)) DAY) g) of
         None \<Rightarrow> 0 | Some m \<Rightarrow> m))"

datatype correction =
    Compensating string string
  | ControlledRewrite string string string

datatype not_survivable = NoPriorVersion | NoAmendmentLink

definition rewrite :: "string \<Rightarrow> string \<Rightarrow> string \<Rightarrow> not_survivable + correction" where
  "rewrite original prior_version amendment =
     (if trim prior_version = [] then Inl NoPriorVersion
      else if trim amendment = [] then Inl NoAmendmentLink
      else Inr (ControlledRewrite original prior_version amendment))"

inductive register_step :: "register \<times> i64 \<Rightarrow> register \<times> i64 \<Rightarrow> bool" where
  registered: "expiry_of d = Inr (re_expiry r) \<Longrightarrow> is_i64 (re_at r) \<Longrightarrow>
    register_step (g, now) (register_record g r, now)"
| swept: "is_i64 now' \<Longrightarrow> register_step (g, now) (snd (register_expire g now'), now')"

inductive_cases register_stepE: "register_step s t"

definition bounded_copies :: "register \<times> i64 \<Rightarrow> bool" where
  "bounded_copies s \<longleftrightarrow> is_i64 (snd s) \<and> (\<forall>r \<in> set (fst s). re_expiry r \<le> MAXIMUM_DAYS \<and> is_i64 (re_at r))"

interpretation register_sys: transition_invariant "\<lambda>s. fst s = [] \<and> is_i64 (snd s)" register_step bounded_copies
  by unfold_locales
    (auto simp: bounded_copies_def register_record_def register_expire_def expiry_of_def not_less
      elim!: register_stepE split: if_splits)

lemma live_age:
  assumes "re_expiry r \<le> MAXIMUM_DAYS" "is_i64 (re_at r)" "is_i64 now" "live_at r now"
  shows "rust_div (i64_saturating_sub now (re_at r)) DAY < 90"
proof -
  have e: "uint (re_expiry r) \<le> 90"
    using assms(1) by (simp add: MAXIMUM_DAYS_def word_le_def)
  have "now < re_at r + uint (re_expiry r) * DAY"
    using assms(2,4) by (auto simp: live_at_def re_expires_at_def days_after_eq min_def split: if_splits)
  moreover have "uint (re_expiry r) * DAY \<le> 90 * DAY"
    using e by (simp add: DAY_def)
  ultimately have "now - re_at r < 90 * DAY" by linarith
  then have "i64_saturating_sub now (re_at r) < 90 * DAY"
    by (auto simp: i64_defs DAY_def)
  moreover have "rust_div x DAY < 90" if "x < 90 * DAY" for x
  proof (cases "0 \<le> x")
    case True
    have "DAY * (x div DAY) + x mod DAY = x" "0 \<le> x mod DAY" by (simp_all add: DAY_def)
    with that have "x div DAY < 90" by (simp add: DAY_def)
    with True show ?thesis by (simp add: rust_div_def DAY_def sgn_if)
  next
    case False
    then have "rust_div x DAY \<le> 0"
      by (simp add: rust_div_def DAY_def pos_imp_zdiv_nonneg_iff)
    then show ?thesis by simp
  qed
  ultimately show ?thesis by blast
qed

text \<open>
  Rehydrated copies cannot become a shadow system of record: whatever is registered, with
  expiries \<open>Expiry::of\<close> admits, right after a sweep every copy left is younger than ninety days
  by the measure the register reports, and nothing live was dropped.
\<close>

theorem rehydrations_never_accumulate:
  assumes "reachable (\<lambda>s. fst s = [] \<and> is_i64 (snd s)) register_step (g, now)" and "is_i64 now'"
  shows "snd (accumulation (snd (register_expire g now')) now') < 90 \<and>
    mset (fst (register_expire g now')) + mset (snd (register_expire g now')) = mset g \<and>
    (\<forall>r \<in> set (fst (register_expire g now')). re_expires_at r \<le> now')"
proof -
  have b: "bounded_copies (g, now)" using assms(1) by (rule register_sys.reachable_inv)
  have "\<forall>r \<in> set (snd (register_expire g now')). rust_div (i64_saturating_sub now' (re_at r)) DAY < 90"
    using b assms(2) by (auto simp: bounded_copies_def register_expire_def intro: live_age)
  then have "snd (accumulation (snd (register_expire g now')) now') < 90"
    by (auto simp: accumulation_def split: option.splits dest!: iter_max_Some)
  moreover have "mset (fst (register_expire g now')) + mset (snd (register_expire g now')) = mset g"
    using multiset_partition [of "mset g" "\<lambda>r. \<not> live_at r now'"] by (simp add: register_expire_def)
  ultimately show ?thesis by (auto simp: register_expire_def live_at_def)
qed

theorem rehydrations_never_accumulate_witness:
  "\<exists>g. reachable (\<lambda>s. fst s = [] \<and> is_i64 (snd s)) register_step (g, 0) \<and> length g = 1 \<and>
     snd (accumulation (snd (register_expire g (5 * DAY))) (5 * DAY)) < 90"
proof -
  let ?r = "\<lparr>re_name = ''c'', re_table = ''t'', re_range = \<lparr>r_from = 0, r_until = 10\<rparr>, re_archive = ''a'',
    re_target = ''hist'', requested_by = ''ann'', re_at = 0, re_expiry = 30\<rparr>"
  have "reachable (\<lambda>s. fst s = [] \<and> is_i64 (snd s)) register_step ([], 0)"
    by (rule reach_initial) (simp add: i64_defs)
  then have "reachable (\<lambda>s. fst s = [] \<and> is_i64 (snd s)) register_step (register_record [] ?r, 0)"
    by (rule reach_step) (rule registered [of 30], simp_all add: i64_defs expiry_of_def MAXIMUM_DAYS_def)
  with rehydrations_never_accumulate [OF this, of "5 * DAY"] show ?thesis
    by (intro exI [of _ "register_record [] ?r"]) (simp add: register_record_def i64_defs DAY_def)
qed

end
