(* ===== verification/Tier_Machine.thy ===== *)
theory Tier_Machine
  imports Tier_Verify Decimal
begin

text \<open>
  The purge state machine, \<^verbatim>\<open>crates/sankhya-tiering/src/machine.rs\<close>, and the authorization it
  cannot be built without, \<^verbatim>\<open>authorize.rs\<close>. The second half runs the machine against its
  journal, with crashes: an entry is written, then the phase entered, and a crash at any point
  is a \<open>resume\<close> from the journal.
\<close>

subsection \<open>Authorization\<close>

datatype origin =
    Command (principal_of: string) (change_reference_of: string)
  | Schedule string string string string

type_synonym authorization = origin

definition is_interactive :: "authorization \<Rightarrow> bool" where
  "is_interactive a = (case a of Command _ _ \<Rightarrow> True | Schedule _ _ _ _ \<Rightarrow> False)"

fun attribution :: "authorization \<Rightarrow> (string \<times> string) list" where
  "attribution (Command who change_reference) =
     [(''principal'', who), (''change_reference'', change_reference)]"
| "attribution (Schedule schedule service_principal defined_by approver) =
     [(''schedule'', schedule), (''service_principal'', service_principal),
      (''definer'', defined_by), (''approver'', approver)]"

subsection \<open>Phases\<close>

datatype phase = Planned | Verified | Gated | Marked | Detached | Dropped | Recorded

definition PHASE_ALL :: "phase list" where
  "PHASE_ALL = [Planned, Verified, Gated, Marked, Detached, Dropped, Recorded]"

fun phase_index :: "phase \<Rightarrow> nat" where
  "phase_index Planned = 0"
| "phase_index Verified = 1"
| "phase_index Gated = 2"
| "phase_index Marked = 3"
| "phase_index Detached = 4"
| "phase_index Dropped = 5"
| "phase_index Recorded = 6"

lemma phase_index_inj: "phase_index p = phase_index q \<longleftrightarrow> p = q"
  by (cases p; cases q) simp_all

text \<open>The derived order is the order of declaration.\<close>

instantiation phase :: linorder
begin

definition less_eq_phase :: "phase \<Rightarrow> phase \<Rightarrow> bool" where
  "less_eq_phase p q \<longleftrightarrow> phase_index p \<le> phase_index q"

definition less_phase :: "phase \<Rightarrow> phase \<Rightarrow> bool" where
  "less_phase p q \<longleftrightarrow> phase_index p < phase_index q"

instance
  by standard (auto simp: less_eq_phase_def less_phase_def phase_index_inj)

end

fun phase_name :: "phase \<Rightarrow> string" where
  "phase_name Planned = ''planned''"
| "phase_name Verified = ''verified''"
| "phase_name Gated = ''gated''"
| "phase_name Marked = ''marked''"
| "phase_name Detached = ''detached''"
| "phase_name Dropped = ''dropped''"
| "phase_name Recorded = ''recorded''"

definition phase_from_name :: "string \<Rightarrow> phase option" where
  "phase_from_name name = List.find (\<lambda>p. phase_name p = name) PHASE_ALL"

fun requires :: "phase \<Rightarrow> phase option" where
  "requires Planned = None"
| "requires Verified = Some Planned"
| "requires Gated = Some Verified"
| "requires Marked = Some Gated"
| "requires Detached = Some Marked"
| "requires Dropped = Some Detached"
| "requires Recorded = Some Dropped"

definition is_destructive :: "phase \<Rightarrow> bool" where
  "is_destructive p \<longleftrightarrow> p \<in> {Detached, Dropped, Recorded}"

datatype halt =
    VerificationFailed string
  | NotGated string
  | Killed string
  | UnprovenVerification
  | OutOfOrder phase phase

lemma requires_iff: "requires p = Some q \<longleftrightarrow> phase_index p = Suc (phase_index q)"
  by (cases p; cases q) simp_all

lemma requires_None: "requires p = None \<longleftrightarrow> p = Planned"
  by (cases p) simp_all

lemma phase_from_name_name [simp]: "phase_from_name (phase_name p) = Some p"
  by (cases p) (simp_all add: phase_from_name_def PHASE_ALL_def)

subsection \<open>Journal entries and their lines\<close>

record jentry =
  j_purge :: string
  j_phase :: phase
  j_at :: i64
  j_attribution :: "(string \<times> string) list"

definition TAB :: char where "TAB = CHR 0x09"

definition pair_text :: "string \<times> string \<Rightarrow> string" where
  "pair_text kv = fst kv @ ''='' @ snd kv"

definition line :: "jentry \<Rightarrow> string" where
  "line e = show_int (j_at e) @ [TAB] @ j_purge e @ [TAB] @ phase_name (j_phase e) @ [TAB] @
     join '','' (map pair_text (j_attribution e))"

definition from_line :: "string \<Rightarrow> jentry option" where
  "from_line text =
     (case split_on TAB text of
        at # purge # name # rest \<Rightarrow>
          (case parse_i64 (trim at) of
             None \<Rightarrow> None
           | Some when \<Rightarrow>
               (case phase_from_name name of
                  None \<Rightarrow> None
                | Some p \<Rightarrow>
                    let who = (case rest of [] \<Rightarrow> [] | w # _ \<Rightarrow> w)
                    in Some \<lparr>j_purge = purge, j_phase = p, j_at = when,
                         j_attribution = List.map_filter (split_once CHR ''='')
                           (filter (\<lambda>pair. pair \<noteq> []) (split_on CHR '','' who))\<rparr>))
      | _ \<Rightarrow> None)"

definition plain_for :: "char set \<Rightarrow> string \<Rightarrow> bool" where
  "plain_for cs s \<longleftrightarrow> set s \<inter> cs = {}"

lemma phase_name_no_tab: "TAB \<notin> set (phase_name p)"
  by (cases p) (simp_all add: TAB_def)

lemma show_int_no_tab: "TAB \<notin> set (show_int x)"
proof
  assume "TAB \<in> set (show_int x)"
  then have "graphic TAB" using show_int_graphic by blast
  then show False by (simp add: graphic_def TAB_def)
qed

lemma set_join: "set (join sep xs) \<subseteq> \<Union> (set ` set xs) \<union> set sep"
  by (induction sep xs rule: join.induct) auto

lemma map_filter_split_pairs:
  "\<forall>kv \<in> set kvs. CHR ''='' \<notin> set (fst kv) \<Longrightarrow>
     List.map_filter (split_once CHR ''='') (filter (\<lambda>pair. pair \<noteq> []) (map pair_text kvs)) = kvs"
  by (induction kvs) (auto simp: pair_text_def map_filter_simps)

lemma split_join_pairs:
  assumes "\<forall>kv \<in> set kvs. plain_for {CHR '',''} (fst kv) \<and> plain_for {CHR '',''} (snd kv)"
  shows "filter (\<lambda>pair. pair \<noteq> []) (split_on CHR '','' (join '','' (map pair_text kvs))) =
    filter (\<lambda>pair. pair \<noteq> []) (map pair_text kvs)"
proof (cases "kvs = []")
  case False
  then have "split_on CHR '','' (join [CHR '',''] (map pair_text kvs)) = map pair_text kvs"
    using assms by (intro split_on_join) (auto simp: pair_text_def plain_for_def)
  then show ?thesis by simp
qed simp

text \<open>
  A journal entry survives its line: whatever the phase, the moment and the authorization,
  reading back the written line gives the same entry, provided no purge id, key or value holds
  a tab, no attribution holds a comma, and no key an equals sign.
\<close>

theorem journal_line_roundtrip:
  assumes "is_i64 (j_at e)" and "plain_for {TAB} (j_purge e)"
    and "\<forall>kv \<in> set (j_attribution e). plain_for {TAB, CHR '','', CHR ''=''} (fst kv) \<and> plain_for {TAB, CHR '',''} (snd kv)"
  shows "from_line (line e) = Some e"
proof -
  let ?who = "join '','' (map pair_text (j_attribution e))"
  have "TAB \<notin> set ?who"
  proof
    assume "TAB \<in> set ?who"
    then obtain kv where "kv \<in> set (j_attribution e)" "TAB \<in> set (pair_text kv)"
      using set_join [of "'',''" "map pair_text (j_attribution e)"] by (auto simp: TAB_def)
    with assms(3) show False by (auto simp: pair_text_def plain_for_def TAB_def)
  qed
  then have sp: "split_on TAB (line e) = [show_int (j_at e), j_purge e, phase_name (j_phase e), ?who]"
    using assms(2) show_int_no_tab [of "j_at e"] phase_name_no_tab [of "j_phase e"]
    by (simp add: line_def split_on_append split_on_no_sep plain_for_def)
  have "List.map_filter (split_once CHR ''='') (filter (\<lambda>pair. pair \<noteq> []) (split_on CHR '','' ?who)) = j_attribution e"
    using assms(3) by (subst split_join_pairs) (auto simp: plain_for_def intro!: map_filter_split_pairs)
  then show ?thesis
    unfolding from_line_def sp using parse_show_i64 [OF assms(1)]
    by (simp add: trim_show_int)
qed

theorem journal_line_roundtrip_witness:
  "from_line (line \<lparr>j_purge = ''p-1'', j_phase = Gated, j_at = - 5, j_attribution = attribution (Command ''ann'' ''CHG-7'')\<rparr>) =
     Some \<lparr>j_purge = ''p-1'', j_phase = Gated, j_at = - 5, j_attribution = attribution (Command ''ann'' ''CHG-7'')\<rparr>"
  by (rule journal_line_roundtrip) (simp_all add: i64_defs plain_for_def TAB_def)

text \<open>The proviso matters: a change reference with a comma is cut at it.\<close>

lemma journal_line_cuts_commas:
  "from_line (line \<lparr>j_purge = ''p'', j_phase = Gated, j_at = 0, j_attribution = attribution (Command ''ann'' ''CHG-1,CHG-2'')\<rparr>) =
     Some \<lparr>j_purge = ''p'', j_phase = Gated, j_at = 0, j_attribution = attribution (Command ''ann'' ''CHG-1'')\<rparr>"
proof -
  have "show_int 0 = ''0''" "parse_i64 (trim ''0'') = Some 0"
    using parse_show_i64 [of 0] trim_show_int [of 0]
    by (simp_all add: show_int_def show_nat.simps digit_char_def i64_defs)
  then show ?thesis
    by (simp add: from_line_def line_def TAB_def pair_text_def map_filter_simps phase_from_name_def PHASE_ALL_def)
qed

subsection \<open>The machine\<close>

record purge_run =
  p_purge :: string
  p_authorization :: authorization
  p_entered :: "phase list"

definition purge_begin :: "string \<Rightarrow> authorization \<Rightarrow> purge_run" where
  "purge_begin purge auth = \<lparr>p_purge = purge, p_authorization = auth, p_entered = [Planned]\<rparr>"

definition last_entered :: "phase list \<Rightarrow> phase option" where
  "last_entered ps = (if ps = [] then None else Some (last ps))"

fun resume_loop :: "phase list \<Rightarrow> jentry list \<Rightarrow> halt + phase list" where
  "resume_loop entered [] = Inr entered"
| "resume_loop entered (e # es) =
     (if last_entered entered = Some (j_phase e) then resume_loop entered es
      else if requires (j_phase e) \<noteq> last_entered entered
      then Inl (OutOfOrder (case last_entered entered of Some p \<Rightarrow> p | None \<Rightarrow> Planned) (j_phase e))
      else resume_loop (entered @ [j_phase e]) es)"

definition purge_resume :: "string \<Rightarrow> authorization \<Rightarrow> jentry list \<Rightarrow> halt + purge_run" where
  "purge_resume purge auth journal =
     and_then (resume_loop [Planned] (filter (\<lambda>e. j_purge e = purge) journal))
       (\<lambda>entered. Inr \<lparr>p_purge = purge, p_authorization = auth, p_entered = entered\<rparr>)"

definition current_phase :: "purge_run \<Rightarrow> phase" where
  "current_phase m = (case last_entered (p_entered m) of Some p \<Rightarrow> p | None \<Rightarrow> Planned)"

definition run_is_destructive :: "purge_run \<Rightarrow> bool" where
  "run_is_destructive m \<longleftrightarrow> list_ex is_destructive (p_entered m)"

definition transition :: "purge_run \<Rightarrow> phase \<Rightarrow> i64 \<Rightarrow> string option \<Rightarrow> halt + jentry" where
  "transition m nxt at kill_switch =
     (case kill_switch of
        Some switch \<Rightarrow> Inl (Killed switch)
      | None \<Rightarrow>
          if requires nxt \<noteq> Some (current_phase m) then Inl (OutOfOrder (current_phase m) nxt)
          else Inr \<lparr>j_purge = p_purge m, j_phase = nxt, j_at = at,
                 j_attribution = attribution (p_authorization m)\<rparr>)"

definition entering :: "purge_run \<Rightarrow> phase \<Rightarrow> i64 \<Rightarrow> string option \<Rightarrow> halt + jentry" where
  "entering m nxt at kill_switch =
     (if nxt = Verified then Inl UnprovenVerification else transition m nxt at kill_switch)"

text \<open>The proof is consumed: its only source is \<open>proof_of\<close>.\<close>

definition enter_verified :: "purge_run \<Rightarrow> unit \<Rightarrow> i64 \<Rightarrow> string option \<Rightarrow> halt + jentry" where
  "enter_verified m evidence at kill_switch = transition m Verified at kill_switch"

definition entered :: "purge_run \<Rightarrow> phase \<Rightarrow> purge_run" where
  "entered m p = (if last_entered (p_entered m) \<noteq> Some p then m\<lparr>p_entered := p_entered m @ [p]\<rparr> else m)"

subsection \<open>The machine, its journal and crashes\<close>

text \<open>
  The driver the module describes: an entry is durable before its phase is entered. \<open>pending\<close> is
  the phase whose entry was written and which the machine has not entered yet; a crash loses it
  and the machine, and resumes from the journal; other purges write to the same journal.
  \<open>proven\<close> is a ghost: some comparison of fingerprints has passed for this purge.
\<close>

record purge_sys =
  machine :: purge_run
  pending :: "phase option"
  journal :: "jentry list"
  proven :: bool

inductive purge_step :: "purge_sys \<Rightarrow> purge_sys \<Rightarrow> bool" where
  writes: "entering (machine s) nxt at kill = Inr e \<Longrightarrow> pending s = None \<Longrightarrow>
    purge_step s (s\<lparr>journal := journal s @ [e], pending := Some nxt\<rparr>)"
| proves: "proof_of ds = Some evidence \<Longrightarrow> enter_verified (machine s) evidence at kill = Inr e \<Longrightarrow> pending s = None \<Longrightarrow>
    purge_step s (s\<lparr>journal := journal s @ [e], pending := Some Verified, proven := True\<rparr>)"
| enters: "pending s = Some p \<Longrightarrow>
    purge_step s (s\<lparr>machine := entered (machine s) p, pending := None\<rparr>)"
| retries: "purge_step s (s\<lparr>pending := None\<rparr>)"
| crashes: "purge_resume (p_purge (machine s)) auth (journal s) = Inr m \<Longrightarrow>
    purge_step s (s\<lparr>machine := m, pending := None\<rparr>)"
| others: "j_purge e \<noteq> p_purge (machine s) \<Longrightarrow> purge_step s (s\<lparr>journal := journal s @ [e]\<rparr>)"

inductive_cases purge_stepE: "purge_step s t"

definition purge_initial :: "string \<Rightarrow> purge_sys \<Rightarrow> bool" where
  "purge_initial purge s \<longleftrightarrow>
     (\<exists>auth es. s = \<lparr>machine = purge_begin purge auth, pending = None, journal = es, proven = False\<rparr> \<and>
        (\<forall>e \<in> set es. j_purge e \<noteq> purge))"

definition in_order :: "phase list \<Rightarrow> bool" where
  "in_order ps \<longleftrightarrow> ps \<noteq> [] \<and> map phase_index ps = [0..<length ps]"

definition replayed :: "purge_sys \<Rightarrow> halt + phase list" where
  "replayed s = resume_loop [Planned] (filter (\<lambda>e. j_purge e = p_purge (machine s)) (journal s))"

definition purge_inv :: "string \<Rightarrow> purge_sys \<Rightarrow> bool" where
  "purge_inv purge s \<longleftrightarrow> p_purge (machine s) = purge \<and>
     (\<exists>ps. replayed s = Inr ps \<and> in_order ps \<and> p_entered (machine s) \<noteq> [] \<and>
        (p_entered (machine s) = ps \<or> p_entered (machine s) = butlast ps) \<and>
        (\<forall>p. pending s = Some p \<longrightarrow> last ps = p) \<and> (Verified \<in> set ps \<longrightarrow> proven s))"

lemma resume_loop_append:
  "resume_loop ps (es @ fs) = and_then (resume_loop ps es) (\<lambda>qs. resume_loop qs fs)"
  by (induction es arbitrary: ps) auto

lemma resume_loop_set:
  "resume_loop rs es = Inr qs \<Longrightarrow> set rs \<union> set (map j_phase es) \<subseteq> set qs"
proof (induction es arbitrary: rs)
  case (Cons e es)
  show ?case
  proof (cases "last_entered rs = Some (j_phase e)")
    case True
    then have "j_phase e \<in> set rs"
      by (auto simp: last_entered_def split: if_splits) (metis last_in_set)
    with True Cons show ?thesis by auto
  next
    case False
    with Cons.prems have "resume_loop (rs @ [j_phase e]) es = Inr qs" by (simp split: if_splits)
    from Cons.IH [OF this] show ?thesis by simp
  qed
qed simp

lemma in_order_last:
  assumes "in_order ps"
  shows "phase_index (last ps) = length ps - 1"
proof -
  have "ps \<noteq> []" "map phase_index ps ! (length ps - 1) = [0..<length ps] ! (length ps - 1)"
    using assms by (simp_all add: in_order_def)
  then show ?thesis by (simp add: last_conv_nth)
qed

lemma in_order_snoc:
  "in_order ps \<Longrightarrow> requires p = Some (last ps) \<Longrightarrow> in_order (ps @ [p])"
  using in_order_last [of ps] by (cases ps) (auto simp: in_order_def requires_iff)

lemma in_order_butlast: "in_order ps \<Longrightarrow> butlast ps \<noteq> [] \<Longrightarrow> in_order (butlast ps)"
  by (auto simp: in_order_def map_butlast butlast_conv_take min_def simp flip: take_map)

text \<open>What the machine writes next replays either to nothing new or to the next phase.\<close>

lemma transition_replays:
  assumes "transition m nxt at kill = Inr e" "in_order ps" "p_entered m \<noteq> []"
    and "p_entered m = ps \<or> p_entered m = butlast ps"
  shows "j_phase e = nxt \<and> j_purge e = p_purge m \<and>
    (\<exists>qs. resume_loop ps [e] = Inr qs \<and> in_order qs \<and> last qs = nxt \<and>
      (p_entered m = butlast qs) \<and> set qs = insert nxt (set ps))"
proof -
  have e: "j_phase e = nxt" "j_purge e = p_purge m" "requires nxt = Some (last (p_entered m))"
    using assms(1,3) by (auto simp: transition_def current_phase_def last_entered_def split: option.splits if_splits)
  have ne: "ps \<noteq> []" using assms(2) by (simp add: in_order_def)
  show ?thesis
  proof (cases "p_entered m = ps")
    case True
    then have "requires nxt = Some (last ps)" using e by simp
    moreover from this have "last ps \<noteq> nxt" by (auto simp: requires_iff)
    ultimately show ?thesis
      using e ne True in_order_snoc [OF assms(2)] by (auto simp: last_entered_def)
  next
    case False
    then have b: "p_entered m = butlast ps" using assms(4) by simp
    have "phase_index nxt = Suc (phase_index (last (butlast ps)))"
      using e(3) b by (simp add: requires_iff)
    also have "phase_index (last (butlast ps)) = length ps - 2"
      using in_order_last [OF in_order_butlast [OF assms(2)]] assms(3) b by simp
    also have "Suc (length ps - 2) = phase_index (last ps)"
      using in_order_last [OF assms(2)] assms(3) b by (cases ps rule: rev_cases) (auto simp: Suc_diff_Suc)
    finally have "nxt = last ps" by (simp add: phase_index_inj)
    then show ?thesis
      using e b assms(2) ne by (auto simp: last_entered_def insert_absorb)
  qed
qed

lemma replayed_write:
  assumes "replayed s = Inr ps" "j_purge e = p_purge (machine s)" "resume_loop ps [e] = Inr qs"
    and "journal t = journal s @ [e]" "machine t = machine s"
  shows "replayed t = Inr qs"
  using assms by (simp add: replayed_def resume_loop_append)

lemma purge_write_inv:
  assumes inv: "purge_inv purge s" and tr: "transition (machine s) nxt at kill = Inr e"
    and t: "t = s\<lparr>journal := journal s @ [e], pending := Some nxt, proven := b\<rparr>"
    and pr: "proven s \<or> nxt = Verified \<longrightarrow> b"
  shows "purge_inv purge t"
proof -
  obtain ps where ps: "p_purge (machine s) = purge" "replayed s = Inr ps" "in_order ps" "p_entered (machine s) \<noteq> []"
      "p_entered (machine s) = ps \<or> p_entered (machine s) = butlast ps" "Verified \<in> set ps \<longrightarrow> proven s"
    using inv unfolding purge_inv_def by blast
  from transition_replays [OF tr ps(3,4,5)] obtain qs where
    qs: "j_phase e = nxt" "j_purge e = p_purge (machine s)" "resume_loop ps [e] = Inr qs" "in_order qs" "last qs = nxt"
      "p_entered (machine s) = butlast qs" "set qs = insert nxt (set ps)" by blast
  have "replayed t = Inr qs"
    by (rule replayed_write [OF ps(2) qs(2,3)]) (simp_all add: t)
  then show ?thesis
    using ps qs pr unfolding purge_inv_def by (intro conjI exI [of _ qs]) (auto simp: t)
qed

lemma purge_step_inv:
  assumes "purge_inv purge s" "purge_step s t"
  shows "purge_inv purge t"
proof -
  obtain ps where ps: "p_purge (machine s) = purge" "replayed s = Inr ps" "in_order ps" "p_entered (machine s) \<noteq> []"
      "p_entered (machine s) = ps \<or> p_entered (machine s) = butlast ps"
      "\<And>p. pending s = Some p \<Longrightarrow> last ps = p" "Verified \<in> set ps \<longrightarrow> proven s"
    using assms(1) unfolding purge_inv_def by blast
  from assms(2) show ?thesis
  proof cases
    case (writes nxt at kill e)
    then have "transition (machine s) nxt at kill = Inr e" "nxt \<noteq> Verified"
      by (auto simp: entering_def split: if_splits)
    then show ?thesis
      using writes by (intro purge_write_inv [OF assms(1), where b = "proven s"]) auto
  next
    case (proves ds evidence at kill e)
    then show ?thesis
      by (intro purge_write_inv [OF assms(1), where nxt = Verified and b = True]) (auto simp: enter_verified_def)
  next
    case (enters p)
    have "replayed t = Inr ps"
      using ps(2) enters(1) by (simp add: replayed_def entered_def)
    moreover have "last ps = p" by (rule ps(6)) (rule enters(2))
    moreover have "p_entered (machine t) = ps"
    proof (cases "p_entered (machine s) = ps")
      case True
      then show ?thesis using enters(1) \<open>last ps = p\<close> ps(4) by (simp add: entered_def last_entered_def)
    next
      case False
      then have b: "p_entered (machine s) = butlast ps" using ps(5) by simp
      have "last (butlast ps) \<noteq> last ps"
        using in_order_last [OF ps(3)] in_order_last [OF in_order_butlast [OF ps(3)]] ps(4) b
        by (cases ps rule: rev_cases) (auto, metis Suc_pred length_greater_0_conv n_not_Suc_n)
      moreover have "butlast ps @ [last ps] = ps"
        using ps(3) by (simp add: in_order_def)
      ultimately show ?thesis
        using enters(1) \<open>last ps = p\<close> ps(4) b by (simp add: entered_def last_entered_def)
    qed
    ultimately show ?thesis
      using ps enters(1) by (auto simp: purge_inv_def entered_def in_order_def)
  next
    case retries
    then have "replayed t = replayed s" by (simp add: replayed_def)
    with retries ps show ?thesis unfolding purge_inv_def by auto
  next
    case (crashes auth m)
    then have "p_entered m = ps" "p_purge m = purge"
      using ps(1,2) by (auto simp: purge_resume_def replayed_def)
    moreover from this have "replayed t = Inr ps"
      using crashes(1) ps(1,2) by (simp add: replayed_def)
    ultimately show ?thesis
      using ps crashes(1) by (auto simp: purge_inv_def in_order_def)
  next
    case (others e)
    then have "replayed t = replayed s" by (simp add: replayed_def)
    with others ps show ?thesis unfolding purge_inv_def by auto
  qed
qed

lemma purge_initial_inv: "purge_initial purge s \<Longrightarrow> purge_inv purge s"
proof -
  assume "purge_initial purge s"
  then obtain auth es where s: "s = \<lparr>machine = purge_begin purge auth, pending = None, journal = es, proven = False\<rparr>"
      "\<forall>e \<in> set es. j_purge e \<noteq> purge"
    unfolding purge_initial_def by blast
  then have "filter (\<lambda>e. j_purge e = purge) es = []" by (simp add: filter_empty_conv)
  then show ?thesis
    by (simp add: s(1) purge_inv_def replayed_def purge_begin_def in_order_def)
qed

interpretation purge_sys: transition_invariant "purge_initial purge" purge_step "purge_inv purge" for purge
  by unfold_locales (auto intro: purge_initial_inv purge_step_inv)

lemma destructive_after_verified:
  assumes "in_order ps" "p \<in> set ps" "is_destructive p"
  shows "Verified \<in> set ps"
proof -
  obtain i where i: "i < length ps" "ps ! i = p" using assms(2) by (auto simp: in_set_conv_nth)
  have ix: "phase_index (ps ! k) = k" if "k < length ps" for k
    using assms(1) that unfolding in_order_def by (metis nth_map nth_upt plus_nat.add_0)
  have "phase_index p \<ge> 4" using assms(3) by (cases p) (simp_all add: is_destructive_def)
  then have "1 < length ps" using ix [OF i(1)] i by simp
  then have "ps ! 1 = Verified"
    using ix [of 1] phase_index_inj [of "ps ! 1" Verified] by simp
  with \<open>1 < length ps\<close> show ?thesis by (metis nth_mem)
qed

text \<open>
  C12: A purge can always be resumed, and never destroys unverified data. In every run of the
  machine against its journal --- crashes, retries and other purges interleaved anywhere ---
  resuming succeeds, with a machine that has entered the phases up to the last journalled one in
  the required order, at most one beyond the running machine; and if any destructive phase is in
  its journal, a comparison that found nothing came before.
\<close>

theorem purge_resumes_and_is_proven:
  assumes "reachable (purge_initial purge) purge_step s"
  shows "\<exists>m. purge_resume purge auth (journal s) = Inr m \<and> p_purge m = purge \<and>
    map phase_index (p_entered m) = [0..<length (p_entered m)] \<and>
    (p_entered (machine s) = p_entered m \<or> p_entered (machine s) = butlast (p_entered m)) \<and>
    ((\<exists>e \<in> set (journal s). j_purge e = purge \<and> is_destructive (j_phase e)) \<longrightarrow> proven s)"
proof -
  obtain ps where ps: "p_purge (machine s) = purge" "replayed s = Inr ps" "in_order ps"
      "p_entered (machine s) = ps \<or> p_entered (machine s) = butlast ps" "Verified \<in> set ps \<longrightarrow> proven s"
    using purge_sys.reachable_inv [OF assms] unfolding purge_inv_def by blast
  have "proven s" if "e \<in> set (journal s)" "j_purge e = purge" "is_destructive (j_phase e)" for e
  proof -
    have "j_phase e \<in> set ps"
      using resume_loop_set [OF ps(2) [unfolded replayed_def]] that(1,2) ps(1) by auto
    then show ?thesis using destructive_after_verified [OF ps(3) _ that(3)] ps(5) by blast
  qed
  then have "(\<exists>e \<in> set (journal s). j_purge e = purge \<and> is_destructive (j_phase e)) \<longrightarrow> proven s" by blast
  moreover have "purge_resume purge auth (journal s) = Inr \<lparr>p_purge = purge, p_authorization = auth, p_entered = ps\<rparr>"
    using ps(1,2) by (simp add: purge_resume_def replayed_def)
  ultimately show ?thesis
    using ps(3,4) by (intro exI [of _ "\<lparr>p_purge = purge, p_authorization = auth, p_entered = ps\<rparr>"])
      (simp add: in_order_def)
qed

theorem purge_resumes_and_is_proven_witness:
  "\<exists>s e. reachable (purge_initial ''p'') purge_step s \<and> journal s = [e] \<and> j_phase e = Verified \<and>
     (\<exists>m. purge_resume ''p'' (Command ''bob'' ''CHG-2'') (journal s) = Inr m)"
proof -
  let ?s = "\<lparr>machine = purge_begin ''p'' (Command ''ann'' ''CHG-1''), pending = None, journal = [], proven = False\<rparr>"
  let ?e = "\<lparr>j_purge = ''p'', j_phase = Verified, j_at = 3, j_attribution = attribution (Command ''ann'' ''CHG-1'')\<rparr>"
  have "reachable (purge_initial ''p'') purge_step ?s"
    by (rule reach_initial) (auto simp: purge_initial_def)
  moreover have "enter_verified (machine ?s) () 3 None = Inr ?e"
    by (simp add: enter_verified_def transition_def purge_begin_def current_phase_def last_entered_def)
  then have "purge_step ?s (?s\<lparr>journal := journal ?s @ [?e], pending := Some Verified, proven := True\<rparr>)"
    by (rule proves [of "[]", rotated]) (simp_all add: proof_of_def passed_def)
  ultimately have r: "reachable (purge_initial ''p'') purge_step (?s\<lparr>journal := journal ?s @ [?e], pending := Some Verified, proven := True\<rparr>)"
    by (rule reach_step)
  from purge_resumes_and_is_proven [OF this, of "Command ''bob'' ''CHG-2''"] r show ?thesis
    by (intro exI [of _ "?s\<lparr>journal := journal ?s @ [?e], pending := Some Verified, proven := True\<rparr>"] exI [of _ ?e]) auto
qed

end
