(* ===== verification/Tier_Command.thy ===== *)
theory Tier_Command
  imports Tier_Registry
begin

text \<open>
  The two ways a purge is set off: a planned command, \<^verbatim>\<open>crates/sankhya-tiering/src/command.rs\<close>,
  and an unattended schedule, \<^verbatim>\<open>schedule.rs\<close>. A plan's digest is SHA-256, a parameter here, of
  \<open>digest_bytes\<close>, the bytes the code feeds it.
\<close>

subsection \<open>Commands\<close>

definition HOUR :: i64 where "HOUR = 3600 * 1000000"

definition VALID_FOR_HOURS :: i64 where "VALID_FOR_HOURS = 4"

record proposal =
  pr_cluster :: string
  pr_policy :: string
  pr_table :: string
  moves :: "range list"
  remains :: "range list"
  refusals :: "ineligible list"
  pr_at :: i64

definition is_runnable :: "proposal \<Rightarrow> bool" where
  "is_runnable p \<longleftrightarrow> refusals p = [] \<and> moves p \<noteq> []"

definition expires_at :: "proposal \<Rightarrow> i64" where
  "expires_at p = i64_saturating_add (pr_at p) (i64_saturating_mul VALID_FOR_HOURS HOUR)"

text \<open>\<open>i64::to_be_bytes\<close>: the two's complement.\<close>

definition i64_be :: "i64 \<Rightarrow> bytes" where
  "i64_be x = be_bytes (word_of_int x :: u64)"

definition len_be :: "'a list \<Rightarrow> bytes" where
  "len_be xs = be_bytes (of_nat (length xs) :: u64)"

definition part_bytes :: "string \<Rightarrow> bytes" where
  "part_bytes s = len_be s @ bytes_of s"

definition range_bytes :: "range \<Rightarrow> bytes" where
  "range_bytes r = i64_be (r_from r) @ i64_be (r_until r)"

definition digest_bytes :: "proposal \<Rightarrow> bytes" where
  "digest_bytes p =
     concat (map part_bytes [pr_cluster p, pr_policy p, pr_table p]) @
     len_be (moves p) @ concat (map range_bytes (moves p)) @ i64_be (expires_at p)"

definition digest :: "sha256 \<Rightarrow> proposal \<Rightarrow> hash" where
  "digest sha p = sha (digest_bytes p)"

definition propose ::
    "string \<Rightarrow> string \<Rightarrow> string \<Rightarrow> range list \<Rightarrow> range list \<Rightarrow> ineligible list \<Rightarrow> i64 \<Rightarrow> proposal" where
  "propose cluster pol table mv rm ref at =
     \<lparr>pr_cluster = cluster, pr_policy = pol, pr_table = table, moves = mv, remains = rm,
      refusals = ref, pr_at = at\<rparr>"

record invocation =
  cluster_asserted :: string
  inv_digest :: hash
  inv_ranges :: "range list"
  change_reference :: string

datatype command_rejected =
    WrongCluster string string
  | DigestMismatch
  | Expired i64 i64
  | NoChangeReference
  | PreconditionsFailed "ineligible list"
  | NothingToDo

record cleared =
  cl_proposal :: proposal
  cl_change_reference :: string

definition clear :: "sha256 \<Rightarrow> proposal \<Rightarrow> string \<Rightarrow> invocation \<Rightarrow> i64 \<Rightarrow> command_rejected + cleared" where
  "clear sha p this_cluster ivn now =
     (if cluster_asserted ivn \<noteq> this_cluster then Inl (WrongCluster (cluster_asserted ivn) this_cluster)
      else if trim (change_reference ivn) = [] then Inl NoChangeReference
      else if refusals p \<noteq> [] then Inl (PreconditionsFailed (refusals p))
      else if moves p = [] then Inl NothingToDo
      else if now \<ge> expires_at p then Inl (Expired (expires_at p) now)
      else if inv_ranges ivn \<noteq> moves p \<or> inv_digest ivn \<noteq> digest sha p then Inl DigestMismatch
      else Inr \<lparr>cl_proposal = p, cl_change_reference = change_reference ivn\<rparr>)"

text \<open>What a digest speaks of; \<open>usual\<close> says its parts have sizes and ordinals their types can hold.\<close>

definition usual :: "proposal \<Rightarrow> bool" where
  "usual p \<longleftrightarrow> fits (pr_cluster p) \<and> fits (pr_policy p) \<and> fits (pr_table p) \<and> fits (moves p) \<and>
     (\<forall>r \<in> set (moves p). is_i64 (r_from r) \<and> is_i64 (r_until r))"

lemma word_of_int_i64_inj:
  "(word_of_int x :: u64) = word_of_int y \<Longrightarrow> is_i64 x \<Longrightarrow> is_i64 y \<Longrightarrow> x = y"
  by (drule arg_cong [where f = sint])
     (simp add: signed_of_int signed_take_bit_int_eq_self i64_defs)

lemma i64_be_inj: "is_i64 x \<Longrightarrow> is_i64 y \<Longrightarrow> i64_be x @ r = i64_be y @ s \<longleftrightarrow> x = y \<and> r = s"
  by (auto simp: i64_be_def be_bytes_delimits be_bytes_inj dest: word_of_int_i64_inj)

lemma len_be_inj:
  "fits xs \<Longrightarrow> fits ys \<Longrightarrow> len_be xs @ r = len_be ys @ s \<longleftrightarrow> length xs = length ys \<and> r = s"
  by (auto simp: len_be_def be_bytes_delimits be_bytes_inj fits_def dest!: arg_cong [where f = unat] simp: unat_of_nat)

interpretation parts: prefix_code part_bytes "\<lambda>s. s" fits
proof unfold_locales
  fix x y r s
  assume "fits x" "fits y" and eq: "part_bytes x @ r = part_bytes y @ s"
  then have "length x = length y" "bytes_of x @ r = bytes_of y @ s"
    by (simp_all add: part_bytes_def len_be_inj)
  then show "x = y \<and> r = s"
    by (auto simp: bytes_of_inj)
qed (simp add: part_bytes_def len_be_def be64.nonempty)

interpretation ranges: prefix_code range_bytes "\<lambda>r. r" "\<lambda>r. is_i64 (r_from r) \<and> is_i64 (r_until r)"
proof unfold_locales
  fix x y :: range and r s
  assume v: "is_i64 (r_from x) \<and> is_i64 (r_until x)" "is_i64 (r_from y) \<and> is_i64 (r_until y)"
    and eq: "range_bytes x @ r = range_bytes y @ s"
  then have "r_from x = r_from y" "r_until x = r_until y" "r = s"
    by (simp_all add: range_bytes_def i64_be_inj)
  then show "x = y \<and> r = s" by (simp add: range.equality)
qed (simp add: range_bytes_def i64_be_def be64.nonempty)

lemma expires_is_i64: "is_i64 (expires_at p)"
  by (simp add: expires_at_def)

lemma digest_bytes_inj:
  assumes "usual p" "usual q" "digest_bytes p = digest_bytes q"
  shows "pr_cluster p = pr_cluster q \<and> pr_policy p = pr_policy q \<and> pr_table p = pr_table q \<and>
    moves p = moves q \<and> expires_at p = expires_at q"
proof -
  let ?P = "\<lambda>p. [pr_cluster p, pr_policy p, pr_table p]"
  let ?R = "\<lambda>p. len_be (moves p) @ concat (map range_bytes (moves p)) @ i64_be (expires_at p)"
  have 1: "map (\<lambda>s. s) (?P p) = map (\<lambda>s. s) (?P q) \<and> ?R p = ?R q"
    using assms by (intro parts.concat_delimits) (simp_all add: usual_def digest_bytes_def)
  then have 2: "length (moves p) = length (moves q)"
      "concat (map range_bytes (moves p)) @ i64_be (expires_at p) = concat (map range_bytes (moves q)) @ i64_be (expires_at q)"
    using assms(1,2) by (simp_all add: len_be_inj usual_def)
  have "map (\<lambda>r. r) (moves p) = map (\<lambda>r. r) (moves q) \<and> i64_be (expires_at p) = i64_be (expires_at q)"
    using assms(1,2) 2 by (intro ranges.concat_delimits) (simp_all add: usual_def)
  with 1 show ?thesis
    using i64_be_inj [OF expires_is_i64 expires_is_i64, of p "[]" q "[]"] by simp
qed

text \<open>
  C13: A cleared command runs the plan that was approved and no other. If the digest it carries
  was read off a plan and SHA-256 does not collide on the two plans' bytes, then the plan it
  clears is for the same cluster, policy and table, moves exactly the ranges the command names,
  in the same order, and expires when the approved one does, which is still ahead; it has no
  failing precondition, moves something, and the command names this cluster and a change record.
\<close>

theorem cleared_plan_is_the_approved_one:
  assumes "clear sha p this_cluster ivn now = Inr c"
    and "inv_digest ivn = digest sha q" and "inj_on sha {digest_bytes p, digest_bytes q}"
    and "usual p" and "usual q"
  shows "cl_proposal c = p \<and> cl_change_reference c = change_reference ivn \<and>
    pr_cluster p = pr_cluster q \<and> pr_policy p = pr_policy q \<and> pr_table p = pr_table q \<and>
    inv_ranges ivn = moves p \<and> moves p = moves q \<and> moves p \<noteq> [] \<and> refusals p = [] \<and>
    now < expires_at p \<and> expires_at p = expires_at q \<and>
    cluster_asserted ivn = this_cluster \<and> trim (change_reference ivn) \<noteq> []"
proof -
  have c: "cluster_asserted ivn = this_cluster" "trim (change_reference ivn) \<noteq> []" "refusals p = []" "moves p \<noteq> []"
      "now < expires_at p" "inv_ranges ivn = moves p" "inv_digest ivn = digest sha p"
      "c = \<lparr>cl_proposal = p, cl_change_reference = change_reference ivn\<rparr>"
    using assms(1) by (auto simp: clear_def not_le split: if_splits)
  then have "digest_bytes p = digest_bytes q"
    using assms(2,3) by (auto simp: digest_def dest: inj_onD)
  with c digest_bytes_inj [OF assms(4,5)] show ?thesis by simp
qed

definition sample_proposal :: "string \<Rightarrow> proposal" where
  "sample_proposal cluster = propose cluster ''pol'' ''t'' [\<lparr>r_from = 0, r_until = 10\<rparr>] [] [] 0"

definition sample_invocation :: "string \<Rightarrow> invocation" where
  "sample_invocation cluster =
     \<lparr>cluster_asserted = ''prod'', inv_digest = digest id (sample_proposal cluster),
      inv_ranges = [\<lparr>r_from = 0, r_until = 10\<rparr>], change_reference = ''CHG-1''\<rparr>"

lemma example_clears:
  "clear id (sample_proposal cluster) ''prod'' (sample_invocation cluster) HOUR =
     Inr \<lparr>cl_proposal = sample_proposal cluster, cl_change_reference = ''CHG-1''\<rparr>"
proof -
  have "trim ''CHG-1'' = ''CHG-1''" by (rule trim_graphic) (auto simp: graphic_def)
  then show ?thesis
    by (simp add: clear_def sample_proposal_def sample_invocation_def propose_def expires_at_def
        i64_defs HOUR_def VALID_FOR_HOURS_def)
qed

theorem cleared_plan_is_the_approved_one_witness:
  "\<exists>c. clear id (sample_proposal ''prod'') ''prod'' (sample_invocation ''prod'') HOUR = Inr c \<and>
     moves (cl_proposal c) = [\<lparr>r_from = 0, r_until = 10\<rparr>]"
proof -
  have u: "usual (sample_proposal ''prod'')"
    by (simp add: usual_def sample_proposal_def propose_def fits_def i64_defs)
  have d: "inv_digest (sample_invocation ''prod'') = digest id (sample_proposal ''prod'')"
    by (simp only: sample_invocation_def invocation.simps)
  have i: "inj_on id {digest_bytes (sample_proposal ''prod''), digest_bytes (sample_proposal ''prod'')}"
    by (rule inj_on_id)
  have r: "inv_ranges (sample_invocation ''prod'') = [\<lparr>r_from = 0, r_until = 10\<rparr>]"
    by (simp only: sample_invocation_def invocation.simps)
  note t = cleared_plan_is_the_approved_one [OF example_clears d i u u]
  from t have "cl_proposal \<lparr>cl_proposal = sample_proposal ''prod'', cl_change_reference = ''CHG-1''\<rparr> =
      sample_proposal ''prod''"
    by (rule conjunct1)
  moreover from t r have "moves (sample_proposal ''prod'') = [\<lparr>r_from = 0, r_until = 10\<rparr>]" by metis
  ultimately show ?thesis using example_clears by metis
qed

text \<open>
  The cluster a plan was made for is in its digest and is never compared with the server's: an
  invocation that asserts this cluster clears a plan made for another.
\<close>

lemma foreign_plan_clears:
  "pr_cluster (sample_proposal ''staging'') \<noteq> ''prod'' \<and>
   is_ok (clear id (sample_proposal ''staging'') ''prod'' (sample_invocation ''staging'') HOUR)"
  by (simp add: example_clears) (simp add: sample_proposal_def propose_def)

subsection \<open>Schedules\<close>

datatype stage = Archive_Stage | Purge_Stage | Drop_Stage

fun stage_index :: "stage \<Rightarrow> nat" where
  "stage_index Archive_Stage = 0"
| "stage_index Purge_Stage = 1"
| "stage_index Drop_Stage = 2"

instantiation stage :: linorder
begin

definition less_eq_stage :: "stage \<Rightarrow> stage \<Rightarrow> bool" where
  "less_eq_stage p q \<longleftrightarrow> stage_index p \<le> stage_index q"

definition less_stage :: "stage \<Rightarrow> stage \<Rightarrow> bool" where
  "less_stage p q \<longleftrightarrow> stage_index p < stage_index q"

instance
proof
  show "p \<le> q \<Longrightarrow> q \<le> p \<Longrightarrow> p = q" for p q :: stage
    by (cases p; cases q) (simp_all add: less_eq_stage_def)
qed (auto simp: less_eq_stage_def less_stage_def)

end

definition removes_from_source :: "stage \<Rightarrow> bool" where
  "removes_from_source s \<longleftrightarrow> s \<in> {Purge_Stage, Drop_Stage}"

definition reversible :: "stage \<Rightarrow> bool" where
  "reversible s \<longleftrightarrow> s \<noteq> Drop_Stage"

record blast_radius =
  ranges_per_run :: nat
  ranges_per_day :: nat

datatype limit = Run nat | Day nat nat

record allowed =
  ranges :: nat
  stopped_by :: "limit option"

definition blast_radius_default :: blast_radius where
  "blast_radius_default = \<lparr>ranges_per_run = 4, ranges_per_day = 8\<rparr>"

definition allow :: "blast_radius \<Rightarrow> nat \<Rightarrow> nat \<Rightarrow> allowed" where
  "allow b wanted already_today =
     (let by_run = min wanted (ranges_per_run b);
          left_today = ranges_per_day b - already_today;
          n = min by_run left_today
      in \<lparr>ranges = n,
          stopped_by =
            (if n = left_today \<and> left_today < by_run then Some (Day (ranges_per_day b) already_today)
             else if n < wanted then Some (Run (ranges_per_run b))
             else None)\<rparr>)"

datatype halted =
    NotApproved string
  | Killed string
  | Anomalous string nat nat nat

record schedule =
  sc_name :: string
  enabled :: bool
  approved :: "hash option"
  sc_stage :: stage
  sc_blast_radius :: blast_radius
  history :: "nat list"
  anomaly_factor :: nat

definition DEFAULT_ANOMALY_FACTOR :: nat where "DEFAULT_ANOMALY_FACTOR = 3"

definition schedule_new :: "string \<Rightarrow> schedule" where
  "schedule_new name =
     \<lparr>sc_name = name, enabled = False, approved = None, sc_stage = Archive_Stage,
      sc_blast_radius = blast_radius_default, history = [], anomaly_factor = DEFAULT_ANOMALY_FACTOR\<rparr>"

text \<open>The counts are \<open>usize\<close>; the sum of two of them is assumed not to reach \<open>2^64\<close>.\<close>

definition trailing_median :: "schedule \<Rightarrow> nat option" where
  "trailing_median s =
     (if history s = [] then None
      else
        let sorted = sort (history s); middle = length sorted div 2
        in (if length sorted mod 2 = 1 then Some (sorted ! middle)
            else Some ((sorted ! (middle - 1) + sorted ! middle) div 2)))"

definition admit :: "schedule \<Rightarrow> nat \<Rightarrow> nat \<Rightarrow> string option \<Rightarrow> halted + allowed" where
  "admit s candidates already_today kill_switch =
     (case kill_switch of
        Some switch \<Rightarrow> Inl (Killed switch)
      | None \<Rightarrow>
          if approved s = None \<or> \<not> enabled s then Inl (NotApproved (sc_name s))
          else
            (case trailing_median s of
               Some median \<Rightarrow>
                 if median > 0 \<and> candidates > usize_saturating_mul median (anomaly_factor s)
                 then Inl (Anomalous (sc_name s) candidates median (anomaly_factor s))
                 else Inr (allow (sc_blast_radius s) candidates already_today)
             | None \<Rightarrow> Inr (allow (sc_blast_radius s) candidates already_today)))"

text \<open>The runs of one day: what each wants, with the switch as it stands, and what has moved so far.\<close>

fun day_total :: "schedule \<Rightarrow> (nat \<times> string option) list \<Rightarrow> nat \<Rightarrow> nat" where
  "day_total s [] already = already"
| "day_total s ((wanted, kill) # runs) already =
     (case admit s wanted already kill of
        Inl _ \<Rightarrow> day_total s runs already
      | Inr a \<Rightarrow> day_total s runs (already + ranges a))"

lemma allow_bounds:
  "ranges (allow b wanted already) \<le> wanted \<and> ranges (allow b wanted already) \<le> ranges_per_run b \<and>
   ranges (allow b wanted already) \<le> ranges_per_day b - already"
  by (auto simp: allow_def Let_def min_def)

lemma allow_stopped:
  "stopped_by (allow b wanted already) = None \<longleftrightarrow> ranges (allow b wanted already) = wanted"
  by (auto simp: allow_def Let_def min_def)

lemma admit_Inr:
  "admit s wanted already kill = Inr a \<longleftrightarrow>
     kill = None \<and> approved s \<noteq> None \<and> enabled s \<and>
     (\<forall>m. trailing_median s = Some m \<longrightarrow> m = 0 \<or> wanted \<le> usize_saturating_mul m (anomaly_factor s)) \<and>
     a = allow (sc_blast_radius s) wanted already"
  by (auto simp: admit_def not_less split: option.splits)

text \<open>
  The blast radius holds for the day, not just for the run. However many runs a schedule
  makes in a day and whatever each wants, the ranges moved never exceed the daily limit; each
  admitted run moves no more than it wanted and no more than the per-run limit, says why
  whenever it moved less, and was approved, enabled, not killed and not out of proportion to the
  trailing median.
\<close>

theorem blast_radius_holds_all_day:
  assumes "already \<le> ranges_per_day (sc_blast_radius s)"
  shows "day_total s runs already \<le> ranges_per_day (sc_blast_radius s) \<and>
    (\<forall>wanted kill a. admit s wanted already kill = Inr a \<longrightarrow>
       ranges a \<le> min wanted (ranges_per_run (sc_blast_radius s)) \<and> (ranges a < wanted \<longleftrightarrow> stopped_by a \<noteq> None) \<and>
       kill = None \<and> approved s \<noteq> None \<and> enabled s \<and>
       (\<forall>m. trailing_median s = Some m \<and> 0 < m \<longrightarrow> wanted \<le> m * anomaly_factor s))"
proof
  show "day_total s runs already \<le> ranges_per_day (sc_blast_radius s)"
    using assms
  proof (induction runs arbitrary: already)
    case (Cons run runs)
    obtain wanted kill where run: "run = (wanted, kill)" by fastforce
    show ?case
    proof (cases "admit s wanted already kill")
      case (Inr a)
      then have "already + ranges a \<le> ranges_per_day (sc_blast_radius s)"
        using allow_bounds [of "sc_blast_radius s" wanted already] Cons.prems by (auto simp: admit_Inr)
      with Cons.IH run Inr show ?thesis by simp
    qed (use Cons run in simp)
  qed simp
  show "\<forall>wanted kill a. admit s wanted already kill = Inr a \<longrightarrow>
       ranges a \<le> min wanted (ranges_per_run (sc_blast_radius s)) \<and> (ranges a < wanted \<longleftrightarrow> stopped_by a \<noteq> None) \<and>
       kill = None \<and> approved s \<noteq> None \<and> enabled s \<and>
       (\<forall>m. trailing_median s = Some m \<and> 0 < m \<longrightarrow> wanted \<le> m * anomaly_factor s)"
  proof (intro allI impI)
    fix wanted kill a
    assume "admit s wanted already kill = Inr a"
    then show "ranges a \<le> min wanted (ranges_per_run (sc_blast_radius s)) \<and> (ranges a < wanted \<longleftrightarrow> stopped_by a \<noteq> None) \<and>
       kill = None \<and> approved s \<noteq> None \<and> enabled s \<and>
       (\<forall>m. trailing_median s = Some m \<and> 0 < m \<longrightarrow> wanted \<le> m * anomaly_factor s)"
      using allow_bounds [of "sc_blast_radius s" wanted already] allow_stopped [of "sc_blast_radius s" wanted already]
      unfolding admit_Inr by (fastforce simp: usize_saturating_mul_def)
  qed
qed

definition example_schedule :: schedule where
  "example_schedule = (schedule_new ''nightly'')\<lparr>enabled := True, approved := Some [], history := [3, 5]\<rparr>"

theorem blast_radius_holds_all_day_witness:
  "day_total example_schedule [(6, None), (7, None), (40, None)] 0 \<le> 8"
  using blast_radius_holds_all_day [of 0 example_schedule "[(6, None), (7, None), (40, None)]"]
  by (simp add: example_schedule_def schedule_new_def blast_radius_default_def)

end
