(* ===== verification/Cdc_Model.thy ===== *)
theory Cdc_Model
  imports Codes Positions
begin

text \<open>
  The decoded replication protocol, \<^verbatim>\<open>crates/sankhya-cdc-model\<close>: the events of \<^verbatim>\<open>event.rs\<close>, and the
  wire decoder of \<^verbatim>\<open>decode.rs\<close> as a reader over a cursor, each of whose methods is one
  definition. \<open>encode\<close> is the reference the decoder is measured against: the layout of
  the messages as the source database sends them.
\<close>

subsection \<open>Events\<close>

datatype replica_identity = Identity_Default | Identity_Nothing | Identity_Full | Identity_Index

definition identity_from_byte :: "u8 \<Rightarrow> replica_identity option" where
  "identity_from_byte b =
     (if b = 0x64 then Some Identity_Default
      else if b = 0x6E then Some Identity_Nothing
      else if b = 0x66 then Some Identity_Full
      else if b = 0x69 then Some Identity_Index
      else None)"

definition identifies_rows :: "replica_identity \<Rightarrow> bool" where
  "identifies_rows i \<longleftrightarrow> i \<noteq> Identity_Nothing"

record column_descriptor =
  cd_name :: string
  type_oid :: u32
  type_modifier :: int
  cd_is_key :: bool

record relation_descriptor =
  rd_relation_id :: u32
  rd_namespace :: string
  rd_name :: string
  rd_replica_identity :: replica_identity
  rd_columns :: "column_descriptor list"

datatype tuple_value = Value_Null | Value_Text string | Value_Binary bytes | Value_Unchanged

definition is_present :: "tuple_value \<Rightarrow> bool" where
  "is_present v \<longleftrightarrow> v \<noteq> Value_Unchanged"

type_synonym tuple_data = "tuple_value list"

definition has_unchanged :: "tuple_data \<Rightarrow> bool" where
  "has_unchanged t \<longleftrightarrow> Value_Unchanged \<in> set t"

datatype message =
    Begin lsn i64 u32
  | Commit lsn lsn i64
  | Relation relation_descriptor
  | Type u32 string string
  | Insert u32 tuple_data
  | Update u32 "tuple_data option" bool tuple_data
  | Delete u32 tuple_data bool
  | Truncate "u32 list" bool bool
  | Origin lsn string
  | Logical bool lsn string bytes
  | StreamStart u32 bool
  | StreamStop
  | StreamCommit u32 lsn lsn i64
  | StreamAbort u32 u32

fun seals_transaction :: "message \<Rightarrow> bool" where
  "seals_transaction (Commit _ _ _) = True"
| "seals_transaction (StreamCommit _ _ _ _) = True"
| "seals_transaction _ = False"

fun relation_id :: "message \<Rightarrow> u32 option" where
  "relation_id (Insert r _) = Some r"
| "relation_id (Update r _ _ _) = Some r"
| "relation_id (Delete r _ _) = Some r"
| "relation_id _ = None"

subsection \<open>Text\<close>

text \<open>\<open>str::from_utf8\<close>: the well-formed byte sequences of the Unicode standard.\<close>

definition within :: "u8 \<Rightarrow> u8 \<Rightarrow> u8 \<Rightarrow> bool" where
  "within lo hi b \<longleftrightarrow> lo \<le> b \<and> b \<le> hi"

fun utf8_valid :: "bytes \<Rightarrow> bool" where
  "utf8_valid [] = True"
| "utf8_valid (a # r) =
     (if a < 0x80 then utf8_valid r
      else if within 0xC2 0xDF a then
        (case r of b # r' \<Rightarrow> within 0x80 0xBF b \<and> utf8_valid r' | _ \<Rightarrow> False)
      else if within 0xE0 0xEF a then
        (case r of b # c # r' \<Rightarrow>
           within (if a = 0xE0 then 0xA0 else 0x80) (if a = 0xED then 0x9F else 0xBF) b \<and>
           within 0x80 0xBF c \<and> utf8_valid r'
         | _ \<Rightarrow> False)
      else if within 0xF0 0xF4 a then
        (case r of b # c # d # r' \<Rightarrow>
           within (if a = 0xF0 then 0x90 else 0x80) (if a = 0xF4 then 0x8F else 0xBF) b \<and>
           within 0x80 0xBF c \<and> within 0x80 0xBF d \<and> utf8_valid r'
         | _ \<Rightarrow> False)
      else False)"

definition string_of :: "bytes \<Rightarrow> string" where
  "string_of bs = map (\<lambda>b. char_of (unat b)) bs"

lemma string_of_bytes_of [simp]: "string_of (bytes_of s) = s"
  by (induction s) (auto simp: string_of_def bytes_of_def unat_of_nat)

subsection \<open>The cursor\<close>

definition SOURCE_EPOCH_OFFSET_MICROS :: i64 where
  "SOURCE_EPOCH_OFFSET_MICROS = 946684800000000"

datatype decode_error =
    Truncated nat nat nat
  | UnknownMessage u8
  | UnknownTupleKind nat u8
  | UnknownTupleSection nat u8
  | UnknownReplicaIdentity nat u8
  | InvalidUtf8 nat
  | UnterminatedString nat
  | NegativeLength nat int

record cursor =
  cur_bytes :: bytes
  cur_pos :: nat

definition cursor_new :: "bytes \<Rightarrow> cursor" where
  "cursor_new bs = \<lparr>cur_bytes = bs, cur_pos = 0\<rparr>"

type_synonym 'a reader = "cursor \<Rightarrow> decode_error + 'a \<times> cursor"

definition return :: "'a \<Rightarrow> 'a reader" where
  "return x c = Inr (x, c)"

definition bind :: "'a reader \<Rightarrow> ('a \<Rightarrow> 'b reader) \<Rightarrow> 'b reader" where
  "bind p f c = and_then (p c) (\<lambda>(x, c'). f x c')"

definition fail :: "decode_error \<Rightarrow> 'a reader" where
  "fail e c = Inl e"

definition read_pos :: "nat reader" where
  "read_pos c = Inr (cur_pos c, c)"

text \<open>\<open>usize\<close> is 64 bits wide.\<close>

definition take_bytes :: "nat \<Rightarrow> bytes reader" where
  "take_bytes n c =
     (let last = cur_pos c + n in
      if last \<ge> 2 ^ 64 then Inl (Truncated (cur_pos c) n 0)
      else if last > length (cur_bytes c)
      then Inl (Truncated (cur_pos c) n (length (cur_bytes c) - cur_pos c))
      else Inr (take n (drop (cur_pos c) (cur_bytes c)), c\<lparr>cur_pos := last\<rparr>))"

definition read_u8 :: "u8 reader" where
  "read_u8 = bind (take_bytes 1) (\<lambda>bs c.
     case bs of b # _ \<Rightarrow> Inr (b, c) | [] \<Rightarrow> Inl (Truncated (cur_pos c) 1 0))"

definition take_array :: "nat \<Rightarrow> bytes reader" where
  "take_array n = bind read_pos (\<lambda>start. bind (take_bytes n) (\<lambda>bs.
     if length bs = n then return bs else fail (Truncated start n (length bs))))"

definition from_be :: "bytes \<Rightarrow> nat" where
  "from_be bs = foldl (\<lambda>acc b. acc * 256 + unat b) 0 bs"

definition read_i16 :: "int reader" where
  "read_i16 = bind (take_array 2) (\<lambda>bs. return (sint (of_nat (from_be bs) :: 16 word)))"

definition read_u32 :: "u32 reader" where
  "read_u32 = bind (take_array 4) (\<lambda>bs. return (of_nat (from_be bs)))"

definition read_i32 :: "int reader" where
  "read_i32 = bind read_u32 (\<lambda>w. return (sint w))"

definition read_u64 :: "u64 reader" where
  "read_u64 = bind (take_array 8) (\<lambda>bs. return (of_nat (from_be bs)))"

definition read_i64 :: "i64 reader" where
  "read_i64 = bind read_u64 (\<lambda>w. return (sint w))"

definition read_lsn :: "lsn reader" where
  "read_lsn = read_u64"

definition read_timestamp :: "i64 reader" where
  "read_timestamp = bind read_i64 (\<lambda>t. return (i64_saturating_add t SOURCE_EPOCH_OFFSET_MICROS))"

definition read_cstring :: "string reader" where
  "read_cstring c =
     (let start = cur_pos c in
      if start > length (cur_bytes c) then Inl (UnterminatedString start)
      else
        let rest = drop start (cur_bytes c) in
        (case position (\<lambda>b. b = 0) rest of
           None \<Rightarrow> Inl (UnterminatedString start)
         | Some nul \<Rightarrow>
             if utf8_valid (take nul rest)
             then Inr (string_of (take nul rest), c\<lparr>cur_pos := start + nul + 1\<rparr>)
             else Inl (InvalidUtf8 start)))"

fun read_times :: "nat \<Rightarrow> 'a reader \<Rightarrow> 'a list reader" where
  "read_times 0 p = return []"
| "read_times (Suc n) p = bind p (\<lambda>x. bind (read_times n p) (\<lambda>xs. return (x # xs)))"

subsection \<open>The decoder\<close>

text \<open>A count of columns or values, and a length in bytes: negative ones are refused where they stand.\<close>

definition read_count :: "nat reader" where
  "read_count = bind read_i16 (\<lambda>n. bind read_pos (\<lambda>p.
     if n < 0 then fail (NegativeLength (p - 2) n) else return (nat n)))"

definition read_length :: "nat reader" where
  "read_length = bind read_i32 (\<lambda>n. bind read_pos (\<lambda>p.
     if n < 0 then fail (NegativeLength (p - 4) n) else return (nat n)))"

definition read_value :: "tuple_value reader" where
  "read_value = bind read_pos (\<lambda>kind_at. bind read_u8 (\<lambda>kind.
     if kind = 0x6E then return Value_Null
     else if kind = 0x75 then return Value_Unchanged
     else if kind = 0x74 then
       bind read_length (\<lambda>len. bind (take_bytes len) (\<lambda>raw.
         if utf8_valid raw then return (Value_Text (string_of raw)) else fail (InvalidUtf8 kind_at)))
     else if kind = 0x62 then
       bind read_length (\<lambda>len. bind (take_bytes len) (\<lambda>raw. return (Value_Binary raw)))
     else fail (UnknownTupleKind kind_at kind)))"

definition read_tuple :: "tuple_data reader" where
  "read_tuple = bind read_count (\<lambda>count. read_times count read_value)"

definition read_column :: "column_descriptor reader" where
  "read_column = bind read_u8 (\<lambda>flags. bind read_cstring (\<lambda>name. bind read_u32 (\<lambda>oid. bind read_i32 (\<lambda>modifier.
     return \<lparr>cd_name = name, type_oid = oid, type_modifier = modifier, cd_is_key = flags AND 1 = 1\<rparr>))))"

definition read_identity :: "replica_identity reader" where
  "read_identity = bind read_pos (\<lambda>identity_at. bind read_u8 (\<lambda>b.
     case identity_from_byte b of
       None \<Rightarrow> fail (UnknownReplicaIdentity identity_at b)
     | Some i \<Rightarrow> return i))"

definition decode_relation :: "message reader" where
  "decode_relation = bind read_u32 (\<lambda>rid. bind read_cstring (\<lambda>ns. bind read_cstring (\<lambda>name.
     bind read_identity (\<lambda>ident. bind read_count (\<lambda>count. bind (read_times count read_column) (\<lambda>columns.
       return (Relation \<lparr>rd_relation_id = rid, rd_namespace = ns, rd_name = name,
                          rd_replica_identity = ident, rd_columns = columns\<rparr>)))))))"

text \<open>A tuple section: the byte that announces it must be one of those allowed there.\<close>

definition read_section :: "u8 list \<Rightarrow> u8 reader" where
  "read_section allowed = bind read_u8 (\<lambda>marker. bind read_pos (\<lambda>p.
     if marker \<in> set allowed then return marker else fail (UnknownTupleSection (p - 1) marker)))"

definition decode_insert :: "message reader" where
  "decode_insert = bind read_u32 (\<lambda>rid. bind (read_section [0x4E]) (\<lambda>_. bind read_tuple (\<lambda>new.
     return (Insert rid new))))"

definition decode_update :: "message reader" where
  "decode_update = bind read_u32 (\<lambda>rid. bind (read_section [0x4B, 0x4F, 0x4E]) (\<lambda>marker.
     if marker = 0x4E then bind read_tuple (\<lambda>new. return (Update rid None False new))
     else bind read_tuple (\<lambda>old. bind (read_section [0x4E]) (\<lambda>_. bind read_tuple (\<lambda>new.
       return (Update rid (Some old) (marker = 0x4B) new))))))"

definition decode_delete :: "message reader" where
  "decode_delete = bind read_u32 (\<lambda>rid. bind (read_section [0x4B, 0x4F]) (\<lambda>marker. bind read_tuple (\<lambda>old.
     return (Delete rid old (marker = 0x4B)))))"

definition decode_truncate :: "message reader" where
  "decode_truncate = bind read_length (\<lambda>count. bind read_u8 (\<lambda>options. bind (read_times count read_u32) (\<lambda>rids.
     return (Truncate rids (options AND 1 = 1) (options AND 2 = 2)))))"

definition decode_logical :: "message reader" where
  "decode_logical = bind read_u8 (\<lambda>transactional. bind read_lsn (\<lambda>l. bind read_cstring (\<lambda>pre.
     bind read_length (\<lambda>len. bind (take_bytes len) (\<lambda>content.
       return (Logical (transactional \<noteq> 0) l pre content))))))"

definition decode_tag :: "u8 \<Rightarrow> message reader" where
  "decode_tag tag =
    (if tag = 0x42 then bind read_lsn (\<lambda>l. bind read_timestamp (\<lambda>t. bind read_u32 (\<lambda>x. return (Begin l t x))))
     else if tag = 0x43 then
       bind read_u8 (\<lambda>_. bind read_lsn (\<lambda>l. bind read_lsn (\<lambda>e. bind read_timestamp (\<lambda>t. return (Commit l e t)))))
     else if tag = 0x52 then decode_relation
     else if tag = 0x59 then
       bind read_u32 (\<lambda>oid. bind read_cstring (\<lambda>ns. bind read_cstring (\<lambda>name. return (Type oid ns name))))
     else if tag = 0x49 then decode_insert
     else if tag = 0x55 then decode_update
     else if tag = 0x44 then decode_delete
     else if tag = 0x54 then decode_truncate
     else if tag = 0x4F then bind read_lsn (\<lambda>l. bind read_cstring (\<lambda>name. return (Origin l name)))
     else if tag = 0x4D then decode_logical
     else if tag = 0x53 then bind read_u32 (\<lambda>x. bind read_u8 (\<lambda>f. return (StreamStart x (f \<noteq> 0))))
     else if tag = 0x45 then return StreamStop
     else if tag = 0x63 then
       bind read_u32 (\<lambda>x. bind read_u8 (\<lambda>_. bind read_lsn (\<lambda>l. bind read_lsn (\<lambda>e. bind read_timestamp (\<lambda>t.
         return (StreamCommit x l e t))))))
     else if tag = 0x41 then bind read_u32 (\<lambda>x. bind read_u32 (\<lambda>s. return (StreamAbort x s)))
     else fail (UnknownMessage tag))"

definition decode_at :: "message reader" where
  "decode_at = bind read_u8 decode_tag"

definition decode_prefix :: "bytes \<Rightarrow> decode_error + message \<times> nat" where
  "decode_prefix bs = and_then (decode_at (cursor_new bs)) (\<lambda>(m, c). Inr (m, cur_pos c))"

definition decode :: "bytes \<Rightarrow> decode_error + message" where
  "decode bs = and_then (decode_prefix bs) (\<lambda>(m, n). Inr m)"

subsection \<open>The layout of the messages\<close>

text \<open>The reference: how the source database writes each message, integers in big-endian order.\<close>

definition enc_cstring :: "string \<Rightarrow> bytes" where
  "enc_cstring s = bytes_of s @ [0]"

definition enc_i32 :: "int \<Rightarrow> bytes" where
  "enc_i32 x = be_bytes (word_of_int x :: u32)"

definition enc_count :: "nat \<Rightarrow> bytes" where
  "enc_count n = be_bytes (of_nat n :: 16 word)"

definition enc_length :: "nat \<Rightarrow> bytes" where
  "enc_length n = be_bytes (of_nat n :: u32)"

definition enc_timestamp :: "i64 \<Rightarrow> bytes" where
  "enc_timestamp t = be_bytes (word_of_int (t - SOURCE_EPOCH_OFFSET_MICROS) :: u64)"

definition enc_bool :: "bool \<Rightarrow> bytes" where
  "enc_bool b = [if b then 1 else 0]"

fun enc_value :: "tuple_value \<Rightarrow> bytes" where
  "enc_value Value_Null = [0x6E]"
| "enc_value Value_Unchanged = [0x75]"
| "enc_value (Value_Text s) = 0x74 # enc_length (length s) @ bytes_of s"
| "enc_value (Value_Binary b) = 0x62 # enc_length (length b) @ b"

definition enc_tuple :: "tuple_data \<Rightarrow> bytes" where
  "enc_tuple t = enc_count (length t) @ concat (map enc_value t)"

definition enc_column :: "column_descriptor \<Rightarrow> bytes" where
  "enc_column c = enc_bool (cd_is_key c) @ enc_cstring (cd_name c) @ be_bytes (type_oid c) @ enc_i32 (type_modifier c)"

fun enc_identity :: "replica_identity \<Rightarrow> bytes" where
  "enc_identity Identity_Default = [0x64]"
| "enc_identity Identity_Nothing = [0x6E]"
| "enc_identity Identity_Full = [0x66]"
| "enc_identity Identity_Index = [0x69]"

fun encode :: "message \<Rightarrow> bytes" where
  "encode (Begin l t x) = [0x42] @ be_bytes l @ enc_timestamp t @ be_bytes x"
| "encode (Commit l e t) = [0x43] @ [0] @ be_bytes l @ be_bytes e @ enc_timestamp t"
| "encode (Relation r) = [0x52] @ be_bytes (rd_relation_id r) @ enc_cstring (rd_namespace r) @
     enc_cstring (rd_name r) @ enc_identity (rd_replica_identity r) @
     enc_count (length (rd_columns r)) @ concat (map enc_column (rd_columns r))"
| "encode (Type oid ns name) = [0x59] @ be_bytes oid @ enc_cstring ns @ enc_cstring name"
| "encode (Insert r new) = [0x49] @ be_bytes r @ [0x4E] @ enc_tuple new"
| "encode (Update r None k new) = [0x55] @ be_bytes r @ [0x4E] @ enc_tuple new"
| "encode (Update r (Some old) k new) =
     [0x55] @ be_bytes r @ [if k then 0x4B else 0x4F] @ enc_tuple old @ [0x4E] @ enc_tuple new"
| "encode (Delete r old k) = [0x44] @ be_bytes r @ [if k then 0x4B else 0x4F] @ enc_tuple old"
| "encode (Truncate rs cascade restart) =
     [0x54] @ enc_length (length rs) @ [(if cascade then 1 else 0) OR (if restart then 2 else 0)] @
     concat (map be_bytes rs)"
| "encode (Origin l name) = [0x4F] @ be_bytes l @ enc_cstring name"
| "encode (Logical tx l pre content) =
     [0x4D] @ enc_bool tx @ be_bytes l @ enc_cstring pre @ enc_length (length content) @ content"
| "encode (StreamStart x b) = [0x53] @ be_bytes x @ enc_bool b"
| "encode StreamStop = [0x45]"
| "encode (StreamCommit x l e t) =
     [0x63] @ be_bytes x @ [0] @ be_bytes l @ be_bytes e @ enc_timestamp t"
| "encode (StreamAbort x sub) = [0x41] @ be_bytes x @ be_bytes sub"

text \<open>What the layout can carry: text is UTF-8, a name holds no NUL, counts fit their fields.\<close>

definition named :: "string \<Rightarrow> bool" where
  "named s \<longleftrightarrow> utf8_valid (bytes_of s) \<and> 0 \<notin> set (bytes_of s)"

definition dated :: "i64 \<Rightarrow> bool" where
  "dated t \<longleftrightarrow> is_i64 t \<and> is_i64 (t - SOURCE_EPOCH_OFFSET_MICROS)"

fun carried :: "tuple_value \<Rightarrow> bool" where
  "carried (Value_Text s) \<longleftrightarrow> utf8_valid (bytes_of s) \<and> length s < 2 ^ 31"
| "carried (Value_Binary b) \<longleftrightarrow> length b < 2 ^ 31"
| "carried _ \<longleftrightarrow> True"

definition carried_tuple :: "tuple_data \<Rightarrow> bool" where
  "carried_tuple t \<longleftrightarrow> length t < 2 ^ 15 \<and> (\<forall>v \<in> set t. carried v)"

definition carried_column :: "column_descriptor \<Rightarrow> bool" where
  "carried_column c \<longleftrightarrow> named (cd_name c) \<and> - (2 ^ 31) \<le> type_modifier c \<and> type_modifier c < 2 ^ 31"

fun transmittable :: "message \<Rightarrow> bool" where
  "transmittable (Begin _ t _) \<longleftrightarrow> dated t"
| "transmittable (Commit _ _ t) \<longleftrightarrow> dated t"
| "transmittable (Relation r) \<longleftrightarrow> named (rd_namespace r) \<and> named (rd_name r) \<and>
     length (rd_columns r) < 2 ^ 15 \<and> (\<forall>c \<in> set (rd_columns r). carried_column c)"
| "transmittable (Type _ ns name) \<longleftrightarrow> named ns \<and> named name"
| "transmittable (Insert _ new) \<longleftrightarrow> carried_tuple new"
| "transmittable (Update _ None k new) \<longleftrightarrow> carried_tuple new \<and> \<not> k"
| "transmittable (Update _ (Some old) _ new) \<longleftrightarrow> carried_tuple old \<and> carried_tuple new"
| "transmittable (Delete _ old _) \<longleftrightarrow> carried_tuple old"
| "transmittable (Truncate rs _ _) \<longleftrightarrow> length rs < 2 ^ 31"
| "transmittable (Origin _ name) \<longleftrightarrow> named name"
| "transmittable (Logical _ _ pre content) \<longleftrightarrow> named pre \<and> length content < 2 ^ 31"
| "transmittable (StreamCommit _ _ _ t) \<longleftrightarrow> dated t"
| "transmittable _ \<longleftrightarrow> True"

end
