(* ===== verification/Cdc_Decode.thy ===== *)
theory Cdc_Decode
  imports Cdc_Model
begin

text \<open>
  What the wire decoder of \<^verbatim>\<open>crates/sankhya-cdc-model/src/decode.rs\<close> guarantees. \<open>sound\<close> is
  the contract every reader keeps: it stays inside its input, looks at nothing past the
  position it leaves the cursor at, and an error names bytes that are as it says. \<open>reads\<close> says which
  bytes a reader takes for which value; both compose along \<open>bind\<close>.
\<close>

named_theorems sound_intros \<open>readers that keep the contract\<close>
named_theorems reads_intros \<open>which bytes a reader takes for a value\<close>

subsection \<open>The contract of a reader\<close>

definition message_tags :: "u8 set" where
  "message_tags = {0x42, 0x43, 0x52, 0x59, 0x49, 0x55, 0x44, 0x54, 0x4F, 0x4D, 0x53, 0x45, 0x63, 0x41}"

fun blames :: "bytes \<Rightarrow> decode_error \<Rightarrow> bool" where
  "blames bs (Truncated i n available) \<longleftrightarrow> i + available = length bs \<and> available < n"
| "blames bs (UnknownMessage t) \<longleftrightarrow> bs \<noteq> [] \<and> hd bs = t \<and> t \<notin> message_tags"
| "blames bs (UnknownTupleKind i k) \<longleftrightarrow> i < length bs \<and> bs ! i = k \<and> k \<notin> {0x6E, 0x75, 0x74, 0x62}"
| "blames bs (UnknownTupleSection i m) \<longleftrightarrow> i < length bs \<and> bs ! i = m"
| "blames bs (UnknownReplicaIdentity i b) \<longleftrightarrow> i < length bs \<and> bs ! i = b \<and> identity_from_byte b = None"
| "blames bs (InvalidUtf8 i) \<longleftrightarrow> i < length bs"
| "blames bs (UnterminatedString i) \<longleftrightarrow> i \<le> length bs \<and> 0 \<notin> set (drop i bs)"
| "blames bs (NegativeLength i v) \<longleftrightarrow> v < 0 \<and>
     (i + 2 \<le> length bs \<and> v = sint (of_nat (from_be (take 2 (drop i bs))) :: 16 word) \<or>
      i + 4 \<le> length bs \<and> v = sint (of_nat (from_be (take 4 (drop i bs))) :: u32))"

text \<open>A slice is at most \<open>isize::MAX\<close> bytes long.\<close>

definition sized :: "bytes \<Rightarrow> bool" where
  "sized bs \<longleftrightarrow> length bs < 2 ^ 63"

definition stays :: "'a reader \<Rightarrow> bytes \<Rightarrow> nat \<Rightarrow> 'a \<Rightarrow> cursor \<Rightarrow> bool" where
  "stays p bs i x c \<longleftrightarrow> cur_bytes c = bs \<and> i \<le> cur_pos c \<and> cur_pos c \<le> length bs \<and>
     (\<forall>bs'. sized bs' \<longrightarrow> take (cur_pos c) bs' = take (cur_pos c) bs \<longrightarrow>
        p \<lparr>cur_bytes = bs', cur_pos = i\<rparr> = Inr (x, \<lparr>cur_bytes = bs', cur_pos = cur_pos c\<rparr>))"

definition sound :: "'a reader \<Rightarrow> ('a \<Rightarrow> bool) \<Rightarrow> bool" where
  "sound p Q \<longleftrightarrow> (\<forall>bs i. sized bs \<longrightarrow> i \<le> length bs \<longrightarrow>
     (case p \<lparr>cur_bytes = bs, cur_pos = i\<rparr> of
        Inl e \<Rightarrow> blames bs e
      | Inr (x, c) \<Rightarrow> Q x \<and> stays p bs i x c))"

abbreviation any :: "'a \<Rightarrow> bool" where "any \<equiv> \<lambda>_. True"

lemma soundI:
  assumes "\<And>bs i e. sized bs \<Longrightarrow> i \<le> length bs \<Longrightarrow> p \<lparr>cur_bytes = bs, cur_pos = i\<rparr> = Inl e \<Longrightarrow> blames bs e"
    and "\<And>bs i x c. sized bs \<Longrightarrow> i \<le> length bs \<Longrightarrow> p \<lparr>cur_bytes = bs, cur_pos = i\<rparr> = Inr (x, c) \<Longrightarrow>
           Q x \<and> stays p bs i x c"
  shows "sound p Q"
  unfolding sound_def
proof (intro allI impI)
  fix bs i
  assume "sized bs" "i \<le> length bs"
  with assms show "case p \<lparr>cur_bytes = bs, cur_pos = i\<rparr> of
      Inl e \<Rightarrow> blames bs e | Inr (x, c) \<Rightarrow> Q x \<and> stays p bs i x c"
    by (cases "p \<lparr>cur_bytes = bs, cur_pos = i\<rparr>") (auto split: prod.splits)
qed

lemma soundE:
  assumes "sound p Q" "sized bs" "i \<le> length bs"
  obtains e where "p \<lparr>cur_bytes = bs, cur_pos = i\<rparr> = Inl e" "blames bs e"
  | x j where "p \<lparr>cur_bytes = bs, cur_pos = i\<rparr> = Inr (x, \<lparr>cur_bytes = bs, cur_pos = j\<rparr>)"
      "Q x" "stays p bs i x \<lparr>cur_bytes = bs, cur_pos = j\<rparr>"
proof (cases "p \<lparr>cur_bytes = bs, cur_pos = i\<rparr>")
  case (Inl e)
  with assms that(1) show thesis by (force simp: sound_def)
next
  case (Inr xc)
  obtain x c where xc: "xc = (x, c)" by fastforce
  obtain j where c: "c = \<lparr>cur_bytes = cur_bytes c, cur_pos = j\<rparr>" by (cases c) auto
  from assms Inr xc have "Q x" "stays p bs i x c" by (force simp: sound_def)+
  moreover from this c have "c = \<lparr>cur_bytes = bs, cur_pos = j\<rparr>" by (simp add: stays_def)
  ultimately show thesis using Inr xc that(2) by metis
qed

lemma staysI:
  "i \<le> j \<Longrightarrow> j \<le> length bs \<Longrightarrow>
   (\<And>bs'. sized bs' \<Longrightarrow> take j bs' = take j bs \<Longrightarrow>
      p \<lparr>cur_bytes = bs', cur_pos = i\<rparr> = Inr (x, \<lparr>cur_bytes = bs', cur_pos = j\<rparr>)) \<Longrightarrow>
   stays p bs i x \<lparr>cur_bytes = bs, cur_pos = j\<rparr>"
  by (simp add: stays_def)

lemma sound_weaken: "sound p Q \<Longrightarrow> (\<And>x. Q x \<Longrightarrow> R x) \<Longrightarrow> sound p R"
  unfolding sound_def by (fastforce split: sum.splits)

lemma sound_return [sound_intros]: "Q x \<Longrightarrow> sound (return x) Q"
  by (auto simp: sound_def return_def stays_def)

lemma sound_bind:
  assumes p: "sound p Q" and f: "\<And>x. Q x \<Longrightarrow> sound (f x) R"
  shows "sound (bind p f) R"
proof (rule soundI)
  fix bs i e
  assume b: "sized bs" "i \<le> length bs" "bind p f \<lparr>cur_bytes = bs, cur_pos = i\<rparr> = Inl e"
  from p b(1,2) show "blames bs e"
  proof (cases rule: soundE)
    case (1 d)
    with b(3) show ?thesis by (simp add: bind_def)
  next
    case (2 x j)
    then have "j \<le> length bs" by (simp add: stays_def)
    from f [OF 2(2)] b(1) this show ?thesis
      by (cases rule: soundE) (use 2(1) b(3) in \<open>simp_all add: bind_def\<close>)
  qed
next
  fix bs i y c
  assume b: "sized bs" "i \<le> length bs" "bind p f \<lparr>cur_bytes = bs, cur_pos = i\<rparr> = Inr (y, c)"
  from p b(1,2) show "R y \<and> stays (bind p f) bs i y c"
  proof (cases rule: soundE)
    case (1 d)
    with b(3) show ?thesis by (simp add: bind_def)
  next
    case (2 x j)
    then have j: "j \<le> length bs" "i \<le> j" by (simp_all add: stays_def)
    from f [OF 2(2)] b(1) j(1) show ?thesis
    proof (cases rule: soundE)
      case (1 d)
      with 2(1) b(3) show ?thesis by (simp add: bind_def)
    next
      case fx: (2 z k)
      with 2(1) b(3) have z: "z = y" "c = \<lparr>cur_bytes = bs, cur_pos = k\<rparr>" by (auto simp: bind_def)
      have k: "j \<le> k" "k \<le> length bs" using fx(3) by (simp_all add: stays_def)
      have "stays (bind p f) bs i y \<lparr>cur_bytes = bs, cur_pos = k\<rparr>"
      proof (rule staysI)
        fix bs' assume s: "sized bs'" "take k bs' = take k bs"
        then have "take j bs' = take j bs" using k(1) by (metis min.absorb1 take_take)
        with s 2(3) fx(3) z(1) show "bind p f \<lparr>cur_bytes = bs', cur_pos = i\<rparr> = Inr (y, \<lparr>cur_bytes = bs', cur_pos = k\<rparr>)"
          by (simp add: bind_def stays_def)
      qed (use j k in auto)
      with fx(2) z show ?thesis by simp
    qed
  qed
qed

lemma sound_if [sound_intros]: "(b \<Longrightarrow> sound p Q) \<Longrightarrow> (\<not> b \<Longrightarrow> sound q Q) \<Longrightarrow> sound (if b then p else q) Q"
  by simp

lemma sound_times: "sound p any \<Longrightarrow> sound (read_times n p) any"
  by (induction n) (auto intro!: sound_bind sound_return)

subsection \<open>The readers of the cursor\<close>

lemma take_array_eq_take_bytes: "take_array n = take_bytes n"
  by (rule ext) (auto simp: take_array_def bind_def read_pos_def take_bytes_def return_def fail_def Let_def)

lemma take_bytes_eq:
  assumes "sized bs" "i \<le> length bs" "n < 2 ^ 63"
  shows "take_bytes n \<lparr>cur_bytes = bs, cur_pos = i\<rparr> =
    (if i + n \<le> length bs then Inr (take n (drop i bs), \<lparr>cur_bytes = bs, cur_pos = i + n\<rparr>)
     else Inl (Truncated i n (length bs - i)))"
  using assms by (simp add: take_bytes_def Let_def sized_def)

lemma read_u8_eq:
  assumes "sized bs" "i \<le> length bs"
  shows "read_u8 \<lparr>cur_bytes = bs, cur_pos = i\<rparr> =
    (if i < length bs then Inr (bs ! i, \<lparr>cur_bytes = bs, cur_pos = i + 1\<rparr>) else Inl (Truncated i 1 0))"
  using assms by (auto simp: read_u8_def bind_def take_bytes_eq Cons_nth_drop_Suc [symmetric])

lemma take_drop_local:
  "take (i + n) bs' = take (i + n) bs \<Longrightarrow> take n (drop i bs') = take n (drop i bs)"
  by (simp add: take_drop add.commute)

lemma local_length: "take j bs' = take j bs \<Longrightarrow> j \<le> length bs \<Longrightarrow> j \<le> length bs'"
  by (metis length_take min.absorb2 min.cobounded1)

lemma local_nth: "take (i + 1) bs' = take (i + 1) bs \<Longrightarrow> bs' ! i = bs ! i"
  by (metis less_add_one nth_take)

lemma position_local:
  "position P xs = Some k \<Longrightarrow> take (k + 1) ys = take (k + 1) xs \<Longrightarrow> position P ys = Some k"
proof (induction xs arbitrary: ys k)
  case (Cons x xs)
  from Cons.prems(2) obtain zs where ys: "ys = x # zs" "take k zs = take k xs" by (cases ys) auto
  show ?case
  proof (cases "P x")
    case False
    with Cons.prems(1) obtain l where "k = Suc l" "position P xs = Some l" by auto
    with Cons.IH [of l zs] ys False show ?thesis by simp
  qed (use Cons.prems(1) ys in simp)
qed simp

lemma sound_take_bytes [sound_intros]: "n < 2 ^ 63 \<Longrightarrow> sound (take_bytes n) (\<lambda>bs. length bs = n)"
proof (rule soundI)
  fix bs :: bytes and i e
  assume "n < 2 ^ 63" "sized bs" "i \<le> length bs" "take_bytes n \<lparr>cur_bytes = bs, cur_pos = i\<rparr> = Inl e"
  then show "blames bs e" by (auto simp: take_bytes_eq split: if_splits)
next
  fix bs :: bytes and i x c
  assume n: "n < 2 ^ 63" "sized bs" "i \<le> length bs" "take_bytes n \<lparr>cur_bytes = bs, cur_pos = i\<rparr> = Inr (x, c)"
  then have x: "i + n \<le> length bs" "x = take n (drop i bs)" "c = \<lparr>cur_bytes = bs, cur_pos = i + n\<rparr>"
    by (auto simp: take_bytes_eq split: if_splits)
  have "stays (take_bytes n) bs i x c"
    unfolding x(3)
  proof (rule staysI)
    fix bs' assume b: "sized bs'" "take (i + n) bs' = take (i + n) bs"
    from local_length [OF b(2) x(1)] have "i + n \<le> length bs'" .
    then show "take_bytes n \<lparr>cur_bytes = bs', cur_pos = i\<rparr> = Inr (x, \<lparr>cur_bytes = bs', cur_pos = i + n\<rparr>)"
      using take_bytes_eq [OF b(1) _ n(1), of i] take_drop_local [OF b(2)] x(2) by simp
  qed (use x in auto)
  with x show "length x = n \<and> stays (take_bytes n) bs i x c" by simp
qed

lemma sound_take_array [sound_intros]: "n < 2 ^ 63 \<Longrightarrow> sound (take_array n) any"
  unfolding take_array_eq_take_bytes by (rule sound_weaken [OF sound_take_bytes]) simp_all

lemma sound_u8 [sound_intros]: "sound read_u8 any"
proof (rule soundI)
  fix bs i e
  assume "sized bs" "i \<le> length bs" "read_u8 \<lparr>cur_bytes = bs, cur_pos = i\<rparr> = Inl e"
  then show "blames bs e" by (auto simp: read_u8_eq split: if_splits)
next
  fix bs i x c
  assume r: "sized bs" "i \<le> length bs" "read_u8 \<lparr>cur_bytes = bs, cur_pos = i\<rparr> = Inr (x, c)"
  then have x: "i < length bs" "x = bs ! i" "c = \<lparr>cur_bytes = bs, cur_pos = i + 1\<rparr>"
    by (auto simp: read_u8_eq split: if_splits)
  have "stays read_u8 bs i x c"
    unfolding x(3)
  proof (rule staysI)
    fix bs' assume b: "sized bs'" "take (i + 1) bs' = take (i + 1) bs"
    moreover from local_length [OF b(2)] x(1) have "i + 1 \<le> length bs'" by simp
    ultimately show "read_u8 \<lparr>cur_bytes = bs', cur_pos = i\<rparr> = Inr (x, \<lparr>cur_bytes = bs', cur_pos = i + 1\<rparr>)"
      using local_nth [OF b(2)] x(2) by (simp add: read_u8_eq)
  qed (use x in auto)
  then show "True \<and> stays read_u8 bs i x c" by simp
qed

lemma sound_map: "sound p any \<Longrightarrow> sound (bind p (\<lambda>x. return (f x))) any"
  by (rule sound_bind, assumption) (rule sound_return, simp)

lemma sound_integers [sound_intros]:
  "sound read_i16 any" "sound read_u32 any" "sound read_i32 any" "sound read_u64 any"
  "sound read_i64 any" "sound read_lsn any" "sound read_timestamp any"
proof -
  show i16: "sound read_i16 any" and u32: "sound read_u32 any" and u64: "sound read_u64 any"
    unfolding read_i16_def read_u32_def read_u64_def
    by (rule sound_map, rule sound_take_array, simp)+
  show "sound read_i32 any" unfolding read_i32_def by (rule sound_map [OF u32])
  show i64: "sound read_i64 any" unfolding read_i64_def by (rule sound_map [OF u64])
  show "sound read_lsn any" unfolding read_lsn_def by (rule u64)
  show "sound read_timestamp any" unfolding read_timestamp_def by (rule sound_map [OF i64])
qed

text \<open>A reader that looks at where it stands before or after an earlier one, to blame a byte.\<close>

lemma sound_check:
  assumes p: "sound p any"
    and q: "\<And>bs i j x. sized bs \<Longrightarrow> i \<le> length bs \<Longrightarrow>
      p \<lparr>cur_bytes = bs, cur_pos = i\<rparr> = Inr (x, \<lparr>cur_bytes = bs, cur_pos = j\<rparr>) \<Longrightarrow>
      \<not> P x \<Longrightarrow> blames bs (err i j x)"
    and r: "\<And>x. P x \<Longrightarrow> Q (f x)"
    and h: "\<And>bs i. h \<lparr>cur_bytes = bs, cur_pos = i\<rparr> =
      (case p \<lparr>cur_bytes = bs, cur_pos = i\<rparr> of Inl e \<Rightarrow> Inl e
       | Inr (x, c) \<Rightarrow> if P x then Inr (f x, c) else Inl (err i (cur_pos c) x))"
  shows "sound h Q"
proof (rule soundI)
  fix bs i e
  assume b: "sized bs" "i \<le> length bs" "h \<lparr>cur_bytes = bs, cur_pos = i\<rparr> = Inl e"
  from p b(1,2) show "blames bs e"
  proof (cases rule: soundE)
    case (2 x j)
    with b(3) have "\<not> P x" "e = err i j x" by (auto simp: h split: if_splits)
    with q [OF b(1,2) 2(1)] show ?thesis by simp
  qed (use b(3) h in simp)
next
  fix bs i y c
  assume b: "sized bs" "i \<le> length bs" "h \<lparr>cur_bytes = bs, cur_pos = i\<rparr> = Inr (y, c)"
  from p b(1,2) show "Q y \<and> stays h bs i y c"
  proof (cases rule: soundE)
    case (2 x j)
    with b(3) have x: "P x" "y = f x" "c = \<lparr>cur_bytes = bs, cur_pos = j\<rparr>" by (auto simp: h split: if_splits)
    have "stays h bs i y c"
      unfolding x(3) using 2(3) x(1,2) by (intro staysI) (simp_all add: h stays_def)
    with r [OF x(1)] x(2) show ?thesis by simp
  qed (use b(3) h in simp)
qed

lemma read_i16_Inr:
  "sized bs \<Longrightarrow> i \<le> length bs \<Longrightarrow> read_i16 \<lparr>cur_bytes = bs, cur_pos = i\<rparr> = Inr (n, c) \<Longrightarrow>
   i + 2 \<le> length bs \<and> cur_pos c = i + 2 \<and> n = sint (of_nat (from_be (take 2 (drop i bs))) :: 16 word)"
  by (auto simp: read_i16_def bind_def return_def take_array_eq_take_bytes take_bytes_eq split: if_splits)

lemma read_u32_Inr:
  "sized bs \<Longrightarrow> i \<le> length bs \<Longrightarrow> read_u32 \<lparr>cur_bytes = bs, cur_pos = i\<rparr> = Inr (n, c) \<Longrightarrow>
   i + 4 \<le> length bs \<and> cur_pos c = i + 4 \<and> n = of_nat (from_be (take 4 (drop i bs)))"
  by (auto simp: read_u32_def bind_def return_def take_array_eq_take_bytes take_bytes_eq split: if_splits)

lemma read_i32_Inr:
  assumes "sized bs" "i \<le> length bs" "read_i32 \<lparr>cur_bytes = bs, cur_pos = i\<rparr> = Inr (n, c)"
  shows "i + 4 \<le> length bs \<and> cur_pos c = i + 4 \<and> n = sint (of_nat (from_be (take 4 (drop i bs))) :: u32)"
  using assms(3) read_u32_Inr [OF assms(1,2)] by (auto simp: read_i32_def bind_def return_def)

lemma sint_less_2p: "sint (w :: 'a::len word) < 2 ^ (LENGTH('a) - 1)"
  by (rule sint_lt)

lemma sound_count [sound_intros]: "sound read_count (\<lambda>n. n < 2 ^ 63)"
proof (rule sound_check [where p = read_i16 and P = "\<lambda>n. 0 \<le> n \<and> n < 2 ^ 63" and f = nat and
      err = "\<lambda>i j n. NegativeLength (j - 2) n"])
  show "blames bs (NegativeLength (j - 2) n)"
    if "sized bs" "i \<le> length bs" "read_i16 \<lparr>cur_bytes = bs, cur_pos = i\<rparr> = Inr (n, \<lparr>cur_bytes = bs, cur_pos = j\<rparr>)"
      "\<not> (0 \<le> n \<and> n < 2 ^ 63)" for bs i j n
    using read_i16_Inr [OF that(1-3)] that(4) sint_less_2p [of "of_nat (from_be (take 2 (drop i bs))) :: 16 word"] by simp
  show "read_count \<lparr>cur_bytes = bs, cur_pos = i\<rparr> =
      (case read_i16 \<lparr>cur_bytes = bs, cur_pos = i\<rparr> of Inl e \<Rightarrow> Inl e
       | Inr (n, c) \<Rightarrow> if 0 \<le> n \<and> n < 2 ^ 63 then Inr (nat n, c) else Inl (NegativeLength (cur_pos c - 2) n))" for bs i
  proof (cases "read_i16 \<lparr>cur_bytes = bs, cur_pos = i\<rparr>")
    case (Inr nc)
    obtain n c where nc: "nc = (n, c)" by fastforce
    have "n < 2 ^ 15"
      using Inr nc sint_less_2p [where 'a = 16]
      by (auto simp: read_i16_def bind_def return_def split: sum.splits)
    with Inr nc show ?thesis by (simp add: read_count_def bind_def read_pos_def return_def fail_def)
  qed (simp add: read_count_def bind_def)
qed (simp_all add: sound_integers nat_less_iff)

lemma sound_length [sound_intros]: "sound read_length (\<lambda>n. n < 2 ^ 63)"
proof (rule sound_check [where p = read_i32 and P = "\<lambda>n. 0 \<le> n \<and> n < 2 ^ 63" and f = nat and
      err = "\<lambda>i j n. NegativeLength (j - 4) n"])
  show "blames bs (NegativeLength (j - 4) n)"
    if "sized bs" "i \<le> length bs" "read_i32 \<lparr>cur_bytes = bs, cur_pos = i\<rparr> = Inr (n, \<lparr>cur_bytes = bs, cur_pos = j\<rparr>)"
      "\<not> (0 \<le> n \<and> n < 2 ^ 63)" for bs i j n
    using read_i32_Inr [OF that(1-3)] that(4) sint_less_2p [of "of_nat (from_be (take 4 (drop i bs))) :: u32"] by simp
  show "read_length \<lparr>cur_bytes = bs, cur_pos = i\<rparr> =
      (case read_i32 \<lparr>cur_bytes = bs, cur_pos = i\<rparr> of Inl e \<Rightarrow> Inl e
       | Inr (n, c) \<Rightarrow> if 0 \<le> n \<and> n < 2 ^ 63 then Inr (nat n, c) else Inl (NegativeLength (cur_pos c - 4) n))" for bs i
  proof (cases "read_i32 \<lparr>cur_bytes = bs, cur_pos = i\<rparr>")
    case (Inr nc)
    obtain n c where nc: "nc = (n, c)" by fastforce
    have "n < 2 ^ 31"
      using Inr nc sint_less_2p [where 'a = 32]
      by (auto simp: read_i32_def bind_def return_def split: sum.splits)
    with Inr nc show ?thesis by (simp add: read_length_def bind_def read_pos_def return_def fail_def)
  qed (simp add: read_length_def bind_def)
qed (simp_all add: sound_integers nat_less_iff)

lemma sound_section [sound_intros]: "sound (read_section allowed) (\<lambda>m. m \<in> set allowed)"
proof (rule sound_check [where p = read_u8 and P = "\<lambda>m. m \<in> set allowed" and f = "\<lambda>m. m" and
      err = "\<lambda>i j m. UnknownTupleSection (j - 1) m"])
  show "read_section allowed \<lparr>cur_bytes = bs, cur_pos = i\<rparr> =
      (case read_u8 \<lparr>cur_bytes = bs, cur_pos = i\<rparr> of Inl e \<Rightarrow> Inl e
       | Inr (m, c) \<Rightarrow> if m \<in> set allowed then Inr (m, c) else Inl (UnknownTupleSection (cur_pos c - 1) m))" for bs i
    by (auto simp: read_section_def bind_def read_pos_def return_def fail_def split: sum.splits)
qed (auto simp: sound_u8 read_u8_eq split: if_splits)

lemma sound_identity [sound_intros]: "sound read_identity any"
proof (rule sound_check [where p = read_u8 and P = "\<lambda>b. identity_from_byte b \<noteq> None" and
      f = "\<lambda>b. the (identity_from_byte b)" and err = "\<lambda>i j b. UnknownReplicaIdentity i b"])
  show "read_identity \<lparr>cur_bytes = bs, cur_pos = i\<rparr> =
      (case read_u8 \<lparr>cur_bytes = bs, cur_pos = i\<rparr> of Inl e \<Rightarrow> Inl e
       | Inr (b, c) \<Rightarrow> if identity_from_byte b \<noteq> None then Inr (the (identity_from_byte b), c)
                       else Inl (UnknownReplicaIdentity i b))" for bs i
    by (auto simp: read_identity_def bind_def read_pos_def return_def fail_def split: sum.splits option.splits)
qed (auto simp: sound_u8 read_u8_eq split: if_splits)

lemma sound_cstring [sound_intros]: "sound read_cstring any"
proof (rule soundI)
  fix bs i e
  assume "sized bs" "i \<le> length bs" "read_cstring \<lparr>cur_bytes = bs, cur_pos = i\<rparr> = Inl e"
  then show "blames bs e"
    by (auto simp: read_cstring_def Let_def position_None split: option.splits if_splits dest: position_Some)
next
  fix bs i x c
  assume r: "sized bs" "i \<le> length bs" "read_cstring \<lparr>cur_bytes = bs, cur_pos = i\<rparr> = Inr (x, c)"
  then obtain k where k: "position (\<lambda>b. b = 0) (drop i bs) = Some k" "utf8_valid (take k (drop i bs))"
      "x = string_of (take k (drop i bs))" "c = \<lparr>cur_bytes = bs, cur_pos = i + k + 1\<rparr>"
    by (auto simp: read_cstring_def Let_def split: option.splits if_splits)
  from position_Some [OF k(1)] have "k < length bs - i" by simp
  then have kl: "i + k + 1 \<le> length bs" by linarith
  have "stays read_cstring bs i x c"
    unfolding k(4)
  proof (rule staysI)
    fix bs' assume b: "sized bs'" "take (i + k + 1) bs' = take (i + k + 1) bs"
    have l: "i + k + 1 \<le> length bs'" using local_length [OF b(2) kl] .
    have t: "take (k + 1) (drop i bs') = take (k + 1) (drop i bs)"
      using take_drop_local [of i "k + 1"] b(2) by (simp add: add.assoc)
    have p: "position (\<lambda>b. b = 0) (drop i bs') = Some k"
      using position_local [OF k(1) t] .
    have "take k (drop i bs') = take k (take (k + 1) (drop i bs'))" by simp
    also have "\<dots> = take k (drop i bs)" unfolding t by simp
    finally show "read_cstring \<lparr>cur_bytes = bs', cur_pos = i\<rparr> = Inr (x, \<lparr>cur_bytes = bs', cur_pos = i + k + 1\<rparr>)"
      using p k(2,3) l by (simp add: read_cstring_def Let_def)
  qed (use kl in auto)
  then show "True \<and> stays read_cstring bs i x c" by simp
qed

subsection \<open>The decoder keeps the contract\<close>

text \<open>A value as it is framed, before its marker and text are judged.\<close>

definition read_framed :: "(u8 \<times> bytes) reader" where
  "read_framed = bind read_u8 (\<lambda>kind.
     if kind = 0x74 \<or> kind = 0x62
     then bind read_length (\<lambda>len. bind (take_bytes len) (\<lambda>raw. return (kind, raw)))
     else return (kind, []))"

lemma sound_framed: "sound read_framed any"
  unfolding read_framed_def
  by (rule sound_bind [OF sound_u8], rule sound_if, rule sound_bind [OF sound_length],
      rule sound_bind, rule sound_take_bytes, assumption) (rule sound_return, simp)+

lemma read_framed_Inr:
  "sized bs \<Longrightarrow> i \<le> length bs \<Longrightarrow> read_framed \<lparr>cur_bytes = bs, cur_pos = i\<rparr> = Inr ((kind, raw), c) \<Longrightarrow>
   i < length bs \<and> bs ! i = kind"
  by (auto simp: read_framed_def bind_def read_u8_eq return_def split: if_splits)

definition value_ok :: "u8 \<times> bytes \<Rightarrow> bool" where
  "value_ok v \<longleftrightarrow> (case v of (kind, raw) \<Rightarrow> kind \<in> {0x6E, 0x75, 0x74, 0x62} \<and> (kind = 0x74 \<longrightarrow> utf8_valid raw))"

definition value_of_frame :: "u8 \<times> bytes \<Rightarrow> tuple_value" where
  "value_of_frame v = (case v of (kind, raw) \<Rightarrow>
     if kind = 0x6E then Value_Null else if kind = 0x75 then Value_Unchanged
     else if kind = 0x74 then Value_Text (string_of raw) else Value_Binary raw)"

lemma sound_value [sound_intros]: "sound read_value any"
proof (rule sound_check [where p = read_framed and P = value_ok and f = value_of_frame and
      err = "\<lambda>i j v. if fst v = 0x74 then InvalidUtf8 i else UnknownTupleKind i (fst v)"])
  show "blames bs (if fst v = 0x74 then InvalidUtf8 i else UnknownTupleKind i (fst v))"
    if "sized bs" "i \<le> length bs" "read_framed \<lparr>cur_bytes = bs, cur_pos = i\<rparr> = Inr (v, \<lparr>cur_bytes = bs, cur_pos = j\<rparr>)"
      "\<not> value_ok v" for bs i j v
    using read_framed_Inr [of bs i "fst v" "snd v"] that by (auto simp: value_ok_def split: prod.splits)
  show "read_value \<lparr>cur_bytes = bs, cur_pos = i\<rparr> =
      (case read_framed \<lparr>cur_bytes = bs, cur_pos = i\<rparr> of Inl e \<Rightarrow> Inl e
       | Inr (v, c) \<Rightarrow> if value_ok v then Inr (value_of_frame v, c)
                       else Inl (if fst v = 0x74 then InvalidUtf8 i else UnknownTupleKind i (fst v)))" for bs i
  proof (cases "read_u8 \<lparr>cur_bytes = bs, cur_pos = i\<rparr>")
    case (Inr kc)
    obtain kind c where kc: "kc = (kind, c)" by fastforce
    consider "kind = 0x74" | "kind = 0x62" | "kind \<noteq> 0x74 \<and> kind \<noteq> 0x62" by blast
    then show ?thesis
      using Inr kc
      by cases (auto simp: read_value_def read_framed_def bind_def read_pos_def return_def fail_def
          value_ok_def value_of_frame_def and_then_Inl split: sum.splits prod.splits)
  qed (simp add: read_value_def read_framed_def bind_def read_pos_def)
qed (simp_all add: sound_framed)

lemma sound_bind_any: "sound p Q \<Longrightarrow> (\<And>x. sound (f x) any) \<Longrightarrow> sound (bind p f) any"
  by (rule sound_bind)

lemma sound_tuple [sound_intros]: "sound read_tuple any"
  unfolding read_tuple_def by (rule sound_bind_any [OF sound_count]) (rule sound_times [OF sound_value])

lemma sound_column [sound_intros]: "sound read_column any"
  unfolding read_column_def by (intro sound_bind_any [where Q = any] sound_intros TrueI)

lemma sound_fail: "(\<And>bs. blames bs e) \<Longrightarrow> sound (fail e) Q"
  by (simp add: sound_def fail_def)

lemma sound_payload [sound_intros]:
  "sound (bind read_length (\<lambda>len. bind (take_bytes len) f)) any" if "\<And>x. sound (f x) any"
  by (rule sound_bind [OF sound_length], rule sound_bind [OF sound_take_bytes]) (simp_all add: that)

lemma sound_items [sound_intros]:
  "sound (bind read_count (\<lambda>n. bind (read_times n p) f)) any" if "sound p any" "\<And>x. sound (f x) any"
  by (rule sound_bind [OF sound_count], rule sound_bind [OF sound_times [OF that(1)]]) (rule that(2))

lemma sound_messages [sound_intros]:
  "sound decode_relation any" "sound decode_insert any" "sound decode_update any" "sound decode_delete any"
  "sound decode_truncate any" "sound decode_logical any"
proof -
  show "sound decode_relation any"
    unfolding decode_relation_def
    by (intro sound_bind_any [where Q = any] sound_items sound_intros TrueI)
  show "sound decode_insert any"
    unfolding decode_insert_def
    by (rule sound_bind_any, rule sound_intros, rule sound_bind_any, rule sound_section,
        rule sound_map [OF sound_tuple])
  show "sound decode_delete any"
    unfolding decode_delete_def
    by (rule sound_bind_any, rule sound_intros, rule sound_bind_any, rule sound_section,
        rule sound_map [OF sound_tuple])
  show "sound decode_update any"
    unfolding decode_update_def
    by (rule sound_bind_any, rule sound_integers, rule sound_bind_any, rule sound_section,
        rule sound_if, rule sound_map [OF sound_tuple], rule sound_bind_any, rule sound_tuple,
        rule sound_bind_any, rule sound_section, rule sound_map [OF sound_tuple])
  show "sound decode_truncate any"
    unfolding decode_truncate_def
    by (rule sound_bind_any, rule sound_length, rule sound_bind_any, rule sound_u8,
        rule sound_map, rule sound_times, rule sound_integers)
  show "sound decode_logical any"
    unfolding decode_logical_def
    by (rule sound_bind_any, rule sound_u8, rule sound_bind_any, rule sound_integers,
        rule sound_bind_any, rule sound_cstring, rule sound_payload, rule sound_return, simp)
qed

lemma sound_tag:
  assumes "tag \<in> message_tags"
  shows "sound (decode_tag tag) any"
proof -
  have two: "sound (bind p (\<lambda>x. bind q (\<lambda>y. return (f x y)))) any" if "sound p any" "sound q any"
    for p :: "'x reader" and q :: "'y reader" and f :: "'x \<Rightarrow> 'y \<Rightarrow> message"
    by (rule sound_bind_any [OF that(1)]) (rule sound_map [OF that(2)])
  have three: "sound (bind p (\<lambda>x. bind q (\<lambda>y. bind r (\<lambda>z. return (f x y z))))) any"
    if "sound p any" "sound q any" "sound r any"
    for p :: "'x reader" and q :: "'y reader" and r :: "'z reader" and f :: "'x \<Rightarrow> 'y \<Rightarrow> 'z \<Rightarrow> message"
    by (intro sound_bind_any [OF that(1)] sound_bind_any [OF that(2)] sound_map [OF that(3)])
  show ?thesis
    unfolding decode_tag_def
    by (intro sound_if sound_messages three two sound_integers sound_cstring sound_u8 sound_return TrueI
        sound_bind_any [OF sound_u8] sound_bind_any [OF sound_integers(2)])
       (use assms in \<open>simp_all add: message_tags_def\<close>)
qed

lemma sound_decode_prefix:
  assumes "sized bs"
  shows "case decode_prefix bs of
      Inl e \<Rightarrow> blames bs e
    | Inr (m, n) \<Rightarrow> 0 < n \<and> n \<le> length bs \<and>
        (\<forall>bs'. sized bs' \<and> take n bs' = take n bs \<longrightarrow> decode_prefix bs' = Inr (m, n))"
proof (cases bs)
  case Nil
  with assms read_u8_eq [of "[]" 0] show ?thesis
    by (simp add: decode_prefix_def decode_at_def bind_def cursor_new_def)
next
  case (Cons tag rest)
  have first: "read_u8 \<lparr>cur_bytes = tag # r, cur_pos = 0\<rparr> = Inr (tag, \<lparr>cur_bytes = tag # r, cur_pos = 1\<rparr>)"
    if "sized (tag # r)" for r
    using read_u8_eq [OF that, of 0] by simp
  have prefix: "decode_prefix (tag # r) =
      and_then (decode_tag tag \<lparr>cur_bytes = tag # r, cur_pos = 1\<rparr>) (\<lambda>(m, c). Inr (m, cur_pos c))"
    if "sized (tag # r)" for r
    using first [OF that] by (simp add: decode_prefix_def decode_at_def bind_def cursor_new_def)
  show ?thesis
  proof (cases "tag \<in> message_tags")
    case False
    then have "decode_tag tag = fail (UnknownMessage tag)"
      by (auto simp: decode_tag_def message_tags_def)
    with assms Cons False prefix show ?thesis by (simp add: fail_def)
  next
    case True
    have len: "1 \<le> length bs" using Cons by simp
    from sound_tag [OF True] assms len show ?thesis
    proof (cases rule: soundE)
      case (1 e)
      with assms Cons prefix show ?thesis by simp
    next
      case (2 m j)
      have "decode_prefix bs' = Inr (m, j)" if b: "sized bs'" "take j bs' = take j bs" for bs'
      proof -
        have "1 \<le> j" using 2(3) by (simp add: stays_def)
        with b(2) Cons obtain r where r: "bs' = tag # r" by (cases bs'; cases j) auto
        from 2(3) b have "decode_tag tag \<lparr>cur_bytes = bs', cur_pos = 1\<rparr> = Inr (m, \<lparr>cur_bytes = bs', cur_pos = j\<rparr>)"
          by (simp add: stays_def)
        with b(1) r prefix show ?thesis by simp
      qed
      moreover have "0 < j" "j \<le> length bs" using 2(3) by (simp_all add: stays_def)
      ultimately show ?thesis using 2(1) assms Cons prefix by simp
    qed
  qed
qed

text \<open>
  C17: Whatever bytes arrive, the decoder answers, stays inside them, and is precise about what
  it refuses. A message read takes at least one byte and no more than there are, and depends
  on the bytes it took alone. An error names bytes of the input that are as it says: a
  truncation counts exactly the bytes there were and they are too few, an unknown marker stands where
  the error points, a negative length is the one written there, an unterminated string has no
  terminator after its start. The branches written for lengths that cannot occur are never taken.
\<close>

theorem decoder_blames_the_bytes:
  assumes "length bs < 2 ^ 63"
  shows "case decode_prefix bs of
      Inl e \<Rightarrow> blames bs e
    | Inr (m, n) \<Rightarrow> 0 < n \<and> n \<le> length bs \<and>
        (\<forall>bs'. length bs' < 2 ^ 63 \<and> take n bs' = take n bs \<longrightarrow> decode_prefix bs' = Inr (m, n))"
  by (rule sound_decode_prefix [unfolded sized_def, OF assms])

theorem decoder_blames_the_bytes_witness:
  "decode_prefix [0x45, 0xFF] = Inr (StreamStop, 1) \<and> decode_prefix [0x45] = Inr (StreamStop, 1) \<and>
   blames [0x53, 0, 0] (Truncated 1 4 2) \<and> decode_prefix [0x53, 0, 0] = Inl (Truncated 1 4 2)"
proof -
  have 1: "decode_prefix [0x45, 0xFF] = Inr (StreamStop, 1)"
    by (simp add: decode_prefix_def decode_at_def cursor_new_def bind_def read_u8_eq sized_def decode_tag_def return_def)
  have 2: "decode_prefix [0x53, 0, 0] = Inl (Truncated 1 4 2)"
    by (simp add: decode_prefix_def decode_at_def cursor_new_def bind_def read_u8_eq sized_def decode_tag_def
        read_u32_def take_array_eq_take_bytes take_bytes_eq)
  have "take 1 [0x45] = take 1 [0x45, 0xFF :: u8]" by simp
  then have "decode_prefix [0x45] = Inr (StreamStop, 1)"
    using decoder_blames_the_bytes [of "[0x45, 0xFF]"] 1 by auto
  with 1 2 decoder_blames_the_bytes [of "[0x53, 0, 0]"] show ?thesis by simp
qed

subsection \<open>Round trip\<close>

definition reads :: "'a reader \<Rightarrow> bytes \<Rightarrow> 'a \<Rightarrow> bool" where
  "reads p e x \<longleftrightarrow> (\<forall>before after. sized (before @ e @ after) \<longrightarrow>
     p \<lparr>cur_bytes = before @ e @ after, cur_pos = length before\<rparr> =
     Inr (x, \<lparr>cur_bytes = before @ e @ after, cur_pos = length before + length e\<rparr>))"

lemma reads_return [reads_intros]: "reads (return x) [] x"
  by (simp add: reads_def return_def)

lemma reads_bind:
  assumes p: "reads p e x" and f: "reads (f x) e' y"
  shows "reads (bind p f) (e @ e') y"
  unfolding reads_def
proof (intro allI impI)
  fix before after
  assume s: "sized (before @ (e @ e') @ after)"
  have 1: "p \<lparr>cur_bytes = before @ e @ e' @ after, cur_pos = length before\<rparr> =
      Inr (x, \<lparr>cur_bytes = before @ e @ e' @ after, cur_pos = length before + length e\<rparr>)"
    using p [unfolded reads_def, rule_format, of before "e' @ after"] s by simp
  have 2: "f x \<lparr>cur_bytes = before @ e @ e' @ after, cur_pos = length before + length e\<rparr> =
      Inr (y, \<lparr>cur_bytes = before @ e @ e' @ after, cur_pos = length before + length e + length e'\<rparr>)"
    using f [unfolded reads_def, rule_format, of "before @ e" after] s by simp
  show "bind p f \<lparr>cur_bytes = before @ (e @ e') @ after, cur_pos = length before\<rparr> =
      Inr (y, \<lparr>cur_bytes = before @ (e @ e') @ after, cur_pos = length before + length (e @ e')\<rparr>)"
    using 1 2 by (simp add: bind_def add.assoc)
qed

lemma reads_last: "reads p e x \<Longrightarrow> reads (bind p (\<lambda>x. return (f x))) e (f x)"
  using reads_bind [OF _ reads_return, of p e x f] by simp

lemma reads_take: "length e = n \<Longrightarrow> reads (take_bytes n) e e"
  unfolding reads_def
proof (intro allI impI)
  fix before after
  assume n: "length e = n" and s: "sized (before @ e @ after)"
  then have "n < 2 ^ 63" by (simp add: sized_def)
  from take_bytes_eq [OF s _ this, of "length before"] n
  show "take_bytes n \<lparr>cur_bytes = before @ e @ after, cur_pos = length before\<rparr> =
      Inr (e, \<lparr>cur_bytes = before @ e @ after, cur_pos = length before + length e\<rparr>)"
    by simp
qed

lemma reads_u8 [reads_intros]: "reads read_u8 [b] b"
  unfolding reads_def
proof (intro allI impI)
  fix before after
  assume s: "sized (before @ [b] @ after)"
  from read_u8_eq [OF s, of "length before"]
  show "read_u8 \<lparr>cur_bytes = before @ [b] @ after, cur_pos = length before\<rparr> =
      Inr (b, \<lparr>cur_bytes = before @ [b] @ after, cur_pos = length before + length [b]\<rparr>)"
    by simp
qed

lemma from_be_append: "from_be (bs @ [b]) = from_be bs * 256 + unat b"
  by (simp add: from_be_def)

lemma from_be_nat: "from_be (be_nat k n) = n mod 256 ^ k"
proof (induction k arbitrary: n)
  case (Suc k)
  have "from_be (be_nat (Suc k) n) = (n div 256 mod 256 ^ k) * 256 + n mod 256"
    by (simp add: from_be_append Suc unat_of_nat)
  also have "\<dots> = n mod 256 ^ Suc k"
    by (simp add: mod_mult2_eq mult.commute)
  finally show ?case .
qed (simp add: from_be_def)

lemma from_be_bytes:
  fixes w :: "'a::len word"
  assumes "8 dvd LENGTH('a)"
  shows "from_be (be_bytes w) = unat w"
proof -
  obtain k where k: "LENGTH('a) = 8 * k" using assms by (elim dvdE)
  then have "unat w < 256 ^ k"
    using unsigned_less [of w, where ?'a = nat] by (simp add: power_mult)
  with k show ?thesis by (simp add: be_bytes_def from_be_nat)
qed

lemma reads_array:
  fixes w :: "'a::len word"
  assumes "8 dvd LENGTH('a)" "n = LENGTH('a) div 8"
  shows "reads (bind (take_array n) (\<lambda>bs. return (f (of_nat (from_be bs) :: 'a word)))) (be_bytes w) (f w)"
  unfolding take_array_eq_take_bytes
  using reads_last [OF reads_take [of "be_bytes w" n], where f = "\<lambda>bs. f (of_nat (from_be bs) :: 'a word)"] assms
  by (simp add: from_be_bytes)

lemma sint_word_of_int:
  "- (2 ^ (LENGTH('a) - 1)) \<le> x \<Longrightarrow> x < 2 ^ (LENGTH('a) - 1) \<Longrightarrow> sint (word_of_int x :: 'a::len word) = x"
  by (simp add: signed_of_int signed_take_bit_int_eq_self)

lemma reads_words:
  "reads read_i16 (be_bytes (h :: 16 word)) (sint h)" "reads read_u32 (be_bytes w) w" "reads read_u64 (be_bytes q) q"
  unfolding read_i16_def read_u32_def read_u64_def
  subgoal by (rule reads_array [where 'a = 16 and f = sint]; simp)
  subgoal by (rule reads_array [where f = "\<lambda>x. x"]; simp)
  subgoal by (rule reads_array [where f = "\<lambda>x. x"]; simp)
  done

lemmas reads_u32 [reads_intros] = reads_words(2)
lemmas reads_u64 [reads_intros] = reads_words(3)

lemma reads_i16:
  assumes "- (2 ^ 15) \<le> x" "x < 2 ^ 15"
  shows "reads read_i16 (be_bytes (word_of_int x :: 16 word)) x"
proof -
  have "sint (word_of_int x :: 16 word) = x"
    using assms by (intro sint_word_of_int) simp_all
  then show ?thesis using reads_words(1) [of "word_of_int x"] by metis
qed

lemma reads_lsn [reads_intros]: "reads read_lsn (be_bytes w) w"
  unfolding read_lsn_def by (rule reads_u64)

lemma reads_i32:
  assumes "- (2 ^ 31) \<le> x" "x < 2 ^ 31"
  shows "reads read_i32 (enc_i32 x) x"
proof -
  have "sint (word_of_int x :: u32) = x"
    using assms by (intro sint_word_of_int) simp_all
  then show ?thesis
    using reads_last [OF reads_u32, of sint "word_of_int x"] unfolding read_i32_def enc_i32_def by metis
qed

lemma reads_timestamp [reads_intros]: "dated t \<Longrightarrow> reads read_timestamp (enc_timestamp t) t"
proof -
  assume d: "dated t"
  let ?x = "t - SOURCE_EPOCH_OFFSET_MICROS"
  have "sint (word_of_int ?x :: u64) = ?x"
    using d by (intro sint_word_of_int) (simp_all add: dated_def i64_defs)
  then have "reads read_i64 (enc_timestamp t) ?x"
    using reads_last [OF reads_u64, of sint "word_of_int ?x"] unfolding read_i64_def enc_timestamp_def by metis
  from reads_last [OF this, of "\<lambda>x. i64_saturating_add x SOURCE_EPOCH_OFFSET_MICROS"]
  have "reads read_timestamp (enc_timestamp t) (i64_saturating_add ?x SOURCE_EPOCH_OFFSET_MICROS)"
    unfolding read_timestamp_def .
  moreover have "i64_saturating_add ?x SOURCE_EPOCH_OFFSET_MICROS = t"
    using d by (simp add: i64_saturating_add_def dated_def)
  ultimately show ?thesis by metis
qed

lemma reads_count [reads_intros]: "n < 2 ^ 15 \<Longrightarrow> reads read_count (enc_count n) n"
proof -
  assume n: "n < 2 ^ 15"
  have "reads read_i16 (enc_count n) (int n)"
    using reads_i16 [of "int n"] n by (simp add: enc_count_def)
  then show ?thesis
    unfolding reads_def read_count_def by (simp add: bind_def read_pos_def return_def)
qed

lemma reads_length [reads_intros]: "n < 2 ^ 31 \<Longrightarrow> reads read_length (enc_length n) n"
proof -
  assume n: "n < 2 ^ 31"
  have "reads read_i32 (enc_length n) (int n)"
    using reads_i32 [of "int n"] n by (simp add: enc_length_def enc_i32_def)
  then show ?thesis
    unfolding reads_def read_length_def by (simp add: bind_def read_pos_def return_def)
qed

lemma reads_section: "m \<in> set allowed \<Longrightarrow> reads (read_section allowed) [m] m"
  using reads_u8 [of m] unfolding reads_def read_section_def by (simp add: bind_def read_pos_def return_def)

lemma position_fresh: "0 \<notin> set xs \<Longrightarrow> position (\<lambda>b. b = 0) (xs @ 0 # ys) = Some (length xs)"
  by (induction xs) auto

lemma reads_cstring [reads_intros]: "named s \<Longrightarrow> reads read_cstring (enc_cstring s) s"
  unfolding reads_def
  by (auto simp: read_cstring_def enc_cstring_def Let_def named_def position_fresh)

lemma reads_times:
  "(\<And>x. x \<in> set xs \<Longrightarrow> reads p (enc x) x) \<Longrightarrow> reads (read_times (length xs) p) (concat (map enc xs)) xs"
proof (induction xs)
  case (Cons x xs)
  then have "reads (bind (read_times (length xs) p) (\<lambda>ys. return (x # ys))) (concat (map enc xs)) (x # xs)"
    by (intro reads_last) simp
  with Cons.prems [of x] show ?case by (simp add: reads_bind [where x = x])
qed (simp add: reads_return)

lemma reads_byte: "reads (f b) e y \<Longrightarrow> reads (bind read_u8 f) (b # e) y"
  using reads_bind [where p = read_u8 and e = "[b]" and x = b, OF reads_u8] by simp

lemma reads_at: "(\<And>k. reads (f k) e x) \<Longrightarrow> reads (bind read_pos f) e x"
  by (simp add: reads_def bind_def read_pos_def)

lemma reads_payload: "length e < 2 ^ 31 \<Longrightarrow> reads (f e) e' x \<Longrightarrow>
   reads (bind read_length (\<lambda>len. bind (take_bytes len) f)) (enc_length (length e) @ e @ e') x"
  by (rule reads_bind [OF reads_length], assumption, rule reads_bind [OF reads_take]) simp_all

lemma reads_value: "carried v \<Longrightarrow> reads read_value (enc_value v) v"
proof -
  have tval: "reads (bind read_length (\<lambda>len. bind (take_bytes len) (\<lambda>raw.
      if utf8_valid raw then return (Value_Text (string_of raw)) else fail (InvalidUtf8 k))))
      (enc_length (length s) @ bytes_of s) (Value_Text s)"
    if "utf8_valid (bytes_of s)" "length s < 2 ^ 31" for s k
    using reads_payload [where e = "bytes_of s" and e' = "[]" and x = "Value_Text s" and
        f = "\<lambda>raw. if utf8_valid raw then return (Value_Text (string_of raw)) else fail (InvalidUtf8 k)"]
      reads_return [of "Value_Text s"] that by simp
  have bval: "reads (bind read_length (\<lambda>len. bind (take_bytes len) (\<lambda>raw. return (Value_Binary raw))))
      (enc_length (length b) @ b) (Value_Binary b)" if "length b < 2 ^ 31" for b
    using reads_payload [where e = b and e' = "[]" and x = "Value_Binary b" and
        f = "\<lambda>raw. return (Value_Binary raw)"] reads_return [of "Value_Binary b"] that by simp
  show "carried v \<Longrightarrow> reads read_value (enc_value v) v"
    unfolding read_value_def
    by (cases v; simp; intro reads_at reads_byte) (simp_all add: tval bval reads_return)
qed

lemma reads_tuple [reads_intros]: "carried_tuple t \<Longrightarrow> reads read_tuple (enc_tuple t) t"
  unfolding read_tuple_def enc_tuple_def carried_tuple_def
  by (rule reads_bind, rule reads_count, simp, rule reads_times) (simp add: reads_value)

lemma reads_column: "carried_column c \<Longrightarrow> reads read_column (enc_column c) c"
proof -
  assume c: "carried_column c"
  define b where "b = (if cd_is_key c then 1 else (0 :: u8))"
  have key: "(b AND 1 = 1) = cd_is_key c" by (simp add: b_def)
  have "reads read_column (b # enc_cstring (cd_name c) @ be_bytes (type_oid c) @ enc_i32 (type_modifier c))
      \<lparr>cd_name = cd_name c, type_oid = type_oid c, type_modifier = type_modifier c, cd_is_key = b AND 1 = 1\<rparr>"
    unfolding read_column_def using c
    by (intro reads_byte reads_bind [OF reads_cstring] reads_bind [OF reads_u32] reads_last [OF reads_i32])
       (simp_all add: carried_column_def)
  moreover have "enc_column c = b # enc_cstring (cd_name c) @ be_bytes (type_oid c) @ enc_i32 (type_modifier c)"
    by (simp add: enc_column_def enc_bool_def b_def)
  ultimately show ?thesis unfolding key by (cases c) simp
qed

lemma reads_identity: "reads read_identity (enc_identity i) i"
  unfolding read_identity_def
  by (cases i; simp; intro reads_at reads_byte) (simp_all add: identity_from_byte_def reads_return)

lemma reads_columns:
  "length cs < 2 ^ 15 \<Longrightarrow> \<forall>c \<in> set cs. carried_column c \<Longrightarrow>
   reads (bind read_count (\<lambda>n. bind (read_times n read_column) (\<lambda>cs. return (f cs))))
     (enc_count (length cs) @ concat (map enc_column cs)) (f cs)"
  by (rule reads_bind [OF reads_count], assumption, rule reads_last, rule reads_times) (simp add: reads_column)

lemma reads_bool: "reads (f ((if b then 1 else 0 :: u8) \<noteq> 0)) e y \<Longrightarrow>
   reads (bind read_u8 (\<lambda>x. f (x \<noteq> 0))) (enc_bool b @ e) y"
  unfolding enc_bool_def using reads_byte [of "\<lambda>x. f (x \<noteq> 0)"] by simp

text \<open>Every message body, read by the decoder of its tag.\<close>

lemma reads_boundaries:
  "dated t \<Longrightarrow> reads (decode_tag 0x42) (be_bytes l @ enc_timestamp t @ be_bytes x) (Begin l t x)"
  "dated t \<Longrightarrow> reads (decode_tag 0x43) (0 # be_bytes l @ be_bytes e @ enc_timestamp t) (Commit l e t)"
  "reads (decode_tag 0x45) [] StreamStop"
  "dated t \<Longrightarrow> reads (decode_tag 0x63) (be_bytes x @ 0 # be_bytes l @ be_bytes e @ enc_timestamp t) (StreamCommit x l e t)"
  "reads (decode_tag 0x41) (be_bytes x @ be_bytes sub) (StreamAbort x sub)"
  unfolding decode_tag_def
  subgoal by simp (intro reads_bind [OF reads_lsn] reads_bind [OF reads_timestamp] reads_last [OF reads_u32])
  subgoal by simp (intro reads_byte reads_bind [OF reads_lsn] reads_last [OF reads_timestamp])
  subgoal by (simp add: reads_return)
  subgoal by simp (intro reads_byte reads_bind [OF reads_lsn] reads_bind [OF reads_u32] reads_last [OF reads_timestamp])
  subgoal by simp (intro reads_bind [OF reads_u32] reads_last [OF reads_u32])
  done

lemma reads_marker: "m \<in> set allowed \<Longrightarrow> reads (f m) e y \<Longrightarrow> reads (bind (read_section allowed) f) (m # e) y"
  using reads_bind [where e = "[m]" and x = m, OF reads_section] by simp

lemma reads_rows:
  "carried_tuple t \<Longrightarrow> reads (decode_tag 0x49) (be_bytes r @ 0x4E # enc_tuple t) (Insert r t)"
  "carried_tuple t \<Longrightarrow> reads (decode_tag 0x55) (be_bytes r @ 0x4E # enc_tuple t) (Update r None False t)"
  "m \<in> {0x4B, 0x4F} \<Longrightarrow> carried_tuple old \<Longrightarrow> carried_tuple t \<Longrightarrow>
     reads (decode_tag 0x55) (be_bytes r @ m # enc_tuple old @ 0x4E # enc_tuple t) (Update r (Some old) (m = 0x4B) t)"
  "m \<in> {0x4B, 0x4F} \<Longrightarrow> carried_tuple t \<Longrightarrow> reads (decode_tag 0x44) (be_bytes r @ m # enc_tuple t) (Delete r t (m = 0x4B))"
  unfolding decode_tag_def
  subgoal by (simp add: decode_insert_def)
      (intro reads_bind [OF reads_u32] reads_marker reads_last [OF reads_tuple]; simp)
  subgoal by (simp add: decode_update_def)
      (rule reads_bind [OF reads_u32], rule reads_marker, simp, simp, rule reads_last [OF reads_tuple])
  subgoal
    apply (simp add: decode_update_def)
    apply (rule reads_bind [OF reads_u32], rule reads_marker, force)
    apply (simp, erule disjE; simp)
     apply (rule reads_bind [OF reads_tuple], assumption, rule reads_marker, simp, erule reads_last [OF reads_tuple])+
    done
  subgoal
    apply (simp add: decode_delete_def)
    apply (rule reads_bind [OF reads_u32], rule reads_marker, force)
    apply (erule reads_last [OF reads_tuple])
    done
  done

lemma reads_others:
  "named ns \<Longrightarrow> named name \<Longrightarrow> reads (decode_tag 0x59) (be_bytes oid @ enc_cstring ns @ enc_cstring name) (Type oid ns name)"
  "named name \<Longrightarrow> reads (decode_tag 0x4F) (be_bytes l @ enc_cstring name) (Origin l name)"
  "length rs < 2 ^ 31 \<Longrightarrow> reads (decode_tag 0x54)
     (enc_length (length rs) @ options # concat (map be_bytes rs))
     (Truncate rs (options AND 1 = 1) (options AND 2 = 2))"
  unfolding decode_tag_def
  subgoal by simp (intro reads_bind [OF reads_u32] reads_bind [OF reads_cstring] reads_last [OF reads_cstring])
  subgoal by simp (intro reads_bind [OF reads_lsn] reads_last [OF reads_cstring])
  subgoal by (simp add: decode_truncate_def)
     (intro reads_bind [OF reads_length] reads_byte reads_last reads_times reads_u32; simp)
  done

lemma reads_logical:
  assumes "named pre" "length content < 2 ^ 31"
  shows "reads (decode_tag 0x4D) (b # be_bytes l @ enc_cstring pre @ enc_length (length content) @ content)
    (Logical (b \<noteq> 0) l pre content)"
proof -
  let ?f = "\<lambda>content. return (Logical (b \<noteq> 0) l pre content)"
  have "reads (bind read_length (\<lambda>len. bind (take_bytes len) ?f)) (enc_length (length content) @ content)
      (Logical (b \<noteq> 0) l pre content)"
    using reads_payload [where f = ?f, OF assms(2) reads_return] by simp
  then have "reads decode_logical (b # be_bytes l @ enc_cstring pre @ enc_length (length content) @ content)
      (Logical (b \<noteq> 0) l pre content)"
    unfolding decode_logical_def
    by (intro reads_byte reads_bind [OF reads_lsn] reads_bind [OF reads_cstring [OF assms(1)]])
  then show ?thesis by (simp add: decode_tag_def)
qed

lemma reads_stream_start: "reads (decode_tag 0x53) (be_bytes x @ enc_bool b) (StreamStart x b)"
proof -
  have "reads (bind read_u8 (\<lambda>f. return (StreamStart x (f \<noteq> 0)))) (enc_bool b) (StreamStart x b)"
    using reads_last [OF reads_u8, of "\<lambda>f. StreamStart x (f \<noteq> 0)" "if b then 1 else 0"]
    by (cases b) (simp_all add: enc_bool_def)
  then show ?thesis
    by (simp add: decode_tag_def) (rule reads_bind [OF reads_u32])
qed

lemma reads_relation:
  assumes "transmittable (Relation r)"
  shows "reads (decode_tag 0x52) (be_bytes (rd_relation_id r) @ enc_cstring (rd_namespace r) @
    enc_cstring (rd_name r) @ enc_identity (rd_replica_identity r) @
    enc_count (length (rd_columns r)) @ concat (map enc_column (rd_columns r))) (Relation r)"
proof -
  have "reads decode_relation (be_bytes (rd_relation_id r) @ enc_cstring (rd_namespace r) @
    enc_cstring (rd_name r) @ enc_identity (rd_replica_identity r) @
    enc_count (length (rd_columns r)) @ concat (map enc_column (rd_columns r)))
    (Relation \<lparr>rd_relation_id = rd_relation_id r, rd_namespace = rd_namespace r, rd_name = rd_name r,
       rd_replica_identity = rd_replica_identity r, rd_columns = rd_columns r\<rparr>)"
    unfolding decode_relation_def using assms
    by (intro reads_bind [OF reads_u32] reads_bind [OF reads_cstring] reads_bind [OF reads_identity] reads_columns) simp_all
  then show ?thesis by (cases r) (simp add: decode_tag_def)
qed

lemma reads_body:
  assumes "transmittable m"
  shows "reads (decode_tag (hd (encode m))) (tl (encode m)) m"
proof (cases m)
  case (Update r old k new)
  then show ?thesis
    using assms reads_rows(2) [of new r] reads_rows(3) [of "if k then 0x4B else 0x4F" "the old" new r]
    by (cases old; cases k) simp_all
next
  case (Delete r old k)
  then show ?thesis using assms reads_rows(4) [of "if k then 0x4B else 0x4F" old r] by (cases k) simp_all
next
  case (Truncate rs cascade restart)
  then show ?thesis
    using assms reads_others(3) [of rs "(if cascade then 1 else 0) OR (if restart then 2 else 0)"]
    by (cases cascade; cases restart) simp_all
next
  case (Logical tx l pre content)
  then show ?thesis
    using assms reads_logical [of pre content "if tx then 1 else 0" l] by (cases tx) (simp_all add: enc_bool_def)
next
  case (Relation r)
  then show ?thesis using assms reads_relation by simp
qed (use assms in \<open>simp_all add: reads_boundaries reads_stream_start reads_rows reads_others\<close>)

lemma decode_prefix_encode:
  assumes "transmittable m" "sized (encode m @ rest)"
  shows "decode_prefix (encode m @ rest) = Inr (m, length (encode m))"
proof -
  have "encode m \<noteq> []" by (cases m rule: encode.cases) simp_all
  then have e: "hd (encode m) # tl (encode m) = encode m" by simp
  have "reads decode_at (hd (encode m) # tl (encode m)) m"
    unfolding decode_at_def by (rule reads_byte) (rule reads_body [OF assms(1)])
  then have "reads decode_at (encode m) m" unfolding e .
  from this [unfolded reads_def, rule_format, of "[]" rest] assms(2) show ?thesis
    by (simp add: decode_prefix_def cursor_new_def)
qed



end
