(* ===== verification/Batching.thy ===== *)
theory Batching
  imports Cdc_Model Decimal "HOL-Library.AList"
begin

text \<open>
  Changes resolved and batched: \<^verbatim>\<open>crates/sankhya-cdc-apply/src/mutation.rs\<close> and \<^verbatim>\<open>batch.rs\<close>.
  The map of open transactions is an association list with one entry to a key; nothing the code
  does depends on its order. Batching is compared with \<open>committed_rows\<close>, which reads off a
  whole stream what each commit publishes.
\<close>

subsection \<open>Mutations\<close>

datatype op = Op_Insert | Op_Update | Op_Delete

type_synonym row = "string option list"

record mutation =
  mu_relation :: u32
  mu_op :: op
  mu_row :: row
  mu_commit_lsn :: lsn

record mutation_plan =
  mp_mutations :: "mutation list"
  mp_covers_through :: lsn
  mp_transactions :: nat

definition plan_is_empty :: "mutation_plan \<Rightarrow> bool" where
  "plan_is_empty p \<longleftrightarrow> mp_mutations p = []"

definition idempotency_key :: "mutation_plan \<Rightarrow> string \<Rightarrow> string" where
  "idempotency_key p slot = slot @ '':'' @ show_nat (unat (mp_covers_through p))"

text \<open>\<open>apply_unchanged\<close>: the loop over the values, at index \<open>i\<close>.\<close>

fun resolve_values :: "nat \<Rightarrow> tuple_data \<Rightarrow> row option \<Rightarrow> row option" where
  "resolve_values i [] current = Some []"
| "resolve_values i (v # vs) current =
     (case (case v of
              Value_Null \<Rightarrow> Some None
            | Value_Text s \<Rightarrow> Some (Some s)
            | Value_Binary b \<Rightarrow> Some (Some (hex_of b))
            | Value_Unchanged \<Rightarrow>
                (case current of
                   None \<Rightarrow> None
                 | Some r \<Rightarrow> if i < length r then Some (r ! i) else None)) of
        None \<Rightarrow> None
      | Some x \<Rightarrow> map_option (\<lambda>xs. x # xs) (resolve_values (Suc i) vs current))"

definition apply_unchanged :: "tuple_data \<Rightarrow> row option \<Rightarrow> row option" where
  "apply_unchanged t current = resolve_values 0 t current"

fun op_of :: "message \<Rightarrow> op option" where
  "op_of (Insert _ _) = Some Op_Insert"
| "op_of (Update _ _ _ _) = Some Op_Update"
| "op_of (Delete _ _ _) = Some Op_Delete"
| "op_of _ = None"

subsection \<open>The batcher\<close>

record batch_policy =
  max_rows :: nat
  max_transactions :: nat
  max_age_ticks :: u64
  min_rows_for_age_flush :: nat
  hard_age_ticks :: u64

definition batch_policy_default :: batch_policy where
  "batch_policy_default =
     \<lparr>max_rows = 50000, max_transactions = 5000, max_age_ticks = 120,
      min_rows_for_age_flush = 1000, hard_age_ticks = 900\<rparr>"

datatype flush_reason = RowCount | TransactionCount | Age | HardAge | Requested

record batcher =
  b_policy :: batch_policy
  sealed :: "mutation list"
  open_txns :: "(u32 \<times> mutation list) list"
  current :: "u32 option"
  sealed_transactions :: nat
  covers_through :: lsn
  age_ticks :: u64
  unresolvable :: nat
  truncated :: "u32 list"

definition batcher_new :: "batch_policy \<Rightarrow> batcher" where
  "batcher_new p =
     \<lparr>b_policy = p, sealed = [], open_txns = [], current = None, sealed_transactions = 0,
      covers_through = LSN_ZERO, age_ticks = 0, unresolvable = 0, truncated = []\<rparr>"

definition take_truncated :: "batcher \<Rightarrow> u32 list \<times> batcher" where
  "take_truncated b = (truncated b, b\<lparr>truncated := []\<rparr>)"

definition sealed_rows :: "batcher \<Rightarrow> nat" where
  "sealed_rows b = length (sealed b)"

definition open_rows :: "batcher \<Rightarrow> nat" where
  "open_rows b = sum_list (map (\<lambda>(x, rows). length rows) (open_txns b))"

definition tick :: "batcher \<Rightarrow> batcher" where
  "tick b = b\<lparr>age_ticks := word_saturating_add (age_ticks b) 1\<rparr>"

text \<open>\<open>entry(xid).or_default()\<close>.\<close>

definition open_txn :: "u32 \<Rightarrow> batcher \<Rightarrow> batcher" where
  "open_txn x b =
     (if map_of (open_txns b) x = None then b\<lparr>open_txns := AList.update x [] (open_txns b)\<rparr> else b)"

definition seal :: "u32 \<Rightarrow> lsn \<Rightarrow> batcher \<Rightarrow> batcher" where
  "seal x end_lsn b =
     (case map_of (open_txns b) x of
        None \<Rightarrow> b
      | Some rows \<Rightarrow>
          b\<lparr>open_txns := AList.delete x (open_txns b),
            sealed := sealed b @ map (\<lambda>m. m\<lparr>mu_commit_lsn := end_lsn\<rparr>) rows,
            sealed_transactions := usize_saturating_add (sealed_transactions b) 1,
            covers_through := (if end_lsn > covers_through b then end_lsn else covers_through b)\<rparr>)"

definition push_row :: "u32 \<Rightarrow> op \<Rightarrow> tuple_data \<Rightarrow> row option \<Rightarrow> batcher \<Rightarrow> batcher" where
  "push_row rid k t cur b =
     (case current b of
        None \<Rightarrow> b\<lparr>unresolvable := usize_saturating_add (unresolvable b) 1\<rparr>
      | Some x \<Rightarrow>
          (case apply_unchanged t cur of
             Some r \<Rightarrow>
               (let m = \<lparr>mu_relation = rid, mu_op = k, mu_row = r, mu_commit_lsn = LSN_ZERO\<rparr>;
                    rows = (case map_of (open_txns b) x of None \<Rightarrow> [] | Some rows \<Rightarrow> rows)
                in b\<lparr>open_txns := AList.update x (rows @ [m]) (open_txns b)\<rparr>)
           | None \<Rightarrow> b\<lparr>unresolvable := usize_saturating_add (unresolvable b) 1\<rparr>))"

definition abort_txn :: "u32 \<Rightarrow> batcher \<Rightarrow> batcher" where
  "abort_txn x b = b\<lparr>open_txns := AList.delete x (open_txns b)\<rparr>"

definition leave :: "u32 \<Rightarrow> batcher \<Rightarrow> batcher" where
  "leave x b = (if current b = Some x then b\<lparr>current := None\<rparr> else b)"

fun accept :: "message \<Rightarrow> row option \<Rightarrow> batcher \<Rightarrow> batcher" where
  "accept (Begin _ _ x) _ b = open_txn x (b\<lparr>current := Some x\<rparr>)"
| "accept (StreamStart x _) _ b = open_txn x (b\<lparr>current := Some x\<rparr>)"
| "accept (Commit _ e _) _ b =
     (case current b of None \<Rightarrow> b | Some x \<Rightarrow> seal x e (b\<lparr>current := None\<rparr>))"
| "accept (StreamCommit x _ e _) _ b = leave x (seal x e b)"
| "accept (StreamAbort x _) _ b = leave x (abort_txn x b)"
| "accept (Insert r new) cur b = push_row r Op_Insert new cur b"
| "accept (Update r _ _ new) cur b = push_row r Op_Update new cur b"
| "accept (Delete r old _) cur b = push_row r Op_Delete old cur b"
| "accept (Truncate rs _ _) _ b =
     b\<lparr>truncated := foldl (\<lambda>ts r. if r \<in> set ts then ts else ts @ [r]) (truncated b) rs\<rparr>"
| "accept _ _ b = b"

definition due :: "batcher \<Rightarrow> flush_reason option" where
  "due b =
     (if sealed b = [] then None
      else if length (sealed b) \<ge> max_rows (b_policy b) then Some RowCount
      else if sealed_transactions b \<ge> max_transactions (b_policy b) then Some TransactionCount
      else if age_ticks b \<ge> hard_age_ticks (b_policy b) then Some HardAge
      else if age_ticks b \<ge> max_age_ticks (b_policy b) \<and>
              length (sealed b) \<ge> min_rows_for_age_flush (b_policy b) then Some Age
      else None)"

definition flush :: "batcher \<Rightarrow> mutation_plan \<times> batcher" where
  "flush b =
     (\<lparr>mp_mutations = sealed b, mp_covers_through = covers_through b, mp_transactions = sealed_transactions b\<rparr>,
      b\<lparr>sealed := [], sealed_transactions := 0, age_ticks := 0\<rparr>)"

subsection \<open>What a stream commits\<close>

text \<open>The transaction a message is read in, given the one before it.\<close>

fun next_owner :: "message \<Rightarrow> u32 option \<Rightarrow> u32 option" where
  "next_owner (Begin _ _ x) c = Some x"
| "next_owner (StreamStart x _) c = Some x"
| "next_owner (Commit _ _ _) c = None"
| "next_owner (StreamCommit x _ _ _) c = (if c = Some x then None else c)"
| "next_owner (StreamAbort x _) c = (if c = Some x then None else c)"
| "next_owner _ c = c"

type_synonym stream = "(message \<times> row option) list"

definition owner :: "stream \<Rightarrow> u32 option" where
  "owner ms = foldl (\<lambda>c (m, r). next_owner m c) None ms"

text \<open>Whether the message ends the transaction \<open>x\<close>, read while \<open>c\<close> is current; and whether it commits one.\<close>

fun closes :: "u32 option \<Rightarrow> message \<Rightarrow> u32 \<Rightarrow> bool" where
  "closes c (Commit _ _ _) x \<longleftrightarrow> c = Some x"
| "closes c (StreamCommit y _ _ _) x \<longleftrightarrow> y = x"
| "closes c (StreamAbort y _) x \<longleftrightarrow> y = x"
| "closes c _ x \<longleftrightarrow> False"

fun commits :: "u32 option \<Rightarrow> message \<Rightarrow> (u32 \<times> lsn) option" where
  "commits c (Commit _ e _) = map_option (\<lambda>x. (x, e)) c"
| "commits c (StreamCommit x _ e _) = Some (x, e)"
| "commits c _ = None"

fun change_of :: "message \<Rightarrow> row option \<Rightarrow> mutation option" where
  "change_of (Insert rid t) cur =
     map_option (\<lambda>r. \<lparr>mu_relation = rid, mu_op = Op_Insert, mu_row = r, mu_commit_lsn = LSN_ZERO\<rparr>) (apply_unchanged t cur)"
| "change_of (Update rid _ _ t) cur =
     map_option (\<lambda>r. \<lparr>mu_relation = rid, mu_op = Op_Update, mu_row = r, mu_commit_lsn = LSN_ZERO\<rparr>) (apply_unchanged t cur)"
| "change_of (Delete rid t _) cur =
     map_option (\<lambda>r. \<lparr>mu_relation = rid, mu_op = Op_Delete, mu_row = r, mu_commit_lsn = LSN_ZERO\<rparr>) (apply_unchanged t cur)"
| "change_of _ _ = None"

definition owner_at :: "stream \<Rightarrow> nat \<Rightarrow> u32 option" where
  "owner_at ms i = owner (take i ms)"

text \<open>The changes of \<open>x\<close> since it last ended, in the first \<open>n\<close> messages: the ones read while it was current.\<close>

definition rows_of :: "stream \<Rightarrow> nat \<Rightarrow> u32 \<Rightarrow> mutation list" where
  "rows_of ms n x =
     List.map_filter (\<lambda>j. if owner_at ms j = Some x \<and>
         list_all (\<lambda>k. \<not> closes (owner_at ms k) (fst (ms ! k)) x) [j..<n]
       then change_of (fst (ms ! j)) (snd (ms ! j)) else None) [0..<n]"

definition stamped :: "lsn \<Rightarrow> mutation list \<Rightarrow> mutation list" where
  "stamped e ms = map (\<lambda>m. m\<lparr>mu_commit_lsn := e\<rparr>) ms"

text \<open>What the stream publishes: at each commit, the changes of its transaction, under its position.\<close>

definition committed_at :: "stream \<Rightarrow> nat \<Rightarrow> mutation list" where
  "committed_at ms i =
     (case commits (owner_at ms i) (fst (ms ! i)) of
        None \<Rightarrow> []
      | Some (x, e) \<Rightarrow> stamped e (rows_of ms i x))"

definition committed_rows :: "stream \<Rightarrow> mutation list" where
  "committed_rows ms = concat (map (committed_at ms) [0..<length ms])"

subsection \<open>A batcher at work\<close>

datatype batch_event = Arrive message "row option" | Tick | Flush

fun batch_step :: "batch_event \<Rightarrow> mutation_plan list \<times> batcher \<Rightarrow> mutation_plan list \<times> batcher" where
  "batch_step (Arrive m cur) (ps, b) = (ps, accept m cur b)"
| "batch_step Tick (ps, b) = (ps, tick b)"
| "batch_step Flush (ps, b) = (let (p, b') = flush b in (ps @ [p], b'))"

definition run_batcher :: "batch_policy \<Rightarrow> batch_event list \<Rightarrow> mutation_plan list \<times> batcher" where
  "run_batcher p es = foldl (\<lambda>s e. batch_step e s) ([], batcher_new p) es"

fun arrival :: "batch_event \<Rightarrow> (message \<times> row option) option" where
  "arrival (Arrive m cur) = Some (m, cur)"
| "arrival _ = None"

definition arrivals :: "batch_event list \<Rightarrow> stream" where
  "arrivals es = List.map_filter arrival es"

subsection \<open>The reference, one message at a time\<close>

lemma owner_snoc: "owner (ms @ [(m, r)]) = next_owner m (owner ms)"
  by (simp add: owner_def)

lemma owner_at_append: "i \<le> length ms \<Longrightarrow> owner_at (ms @ xs) i = owner_at ms i"
  by (simp add: owner_at_def)

lemma owner_at_length: "owner_at ms (length ms) = owner ms"
  by (simp add: owner_at_def)

lemma rows_of_append:
  "n \<le> length ms \<Longrightarrow> rows_of (ms @ xs) n x = rows_of ms n x"
  unfolding rows_of_def
  by (rule map_filter_cong) (auto simp: owner_at_append nth_append list_all_iff)

definition change_list :: "message \<times> row option \<Rightarrow> mutation list" where
  "change_list mr = (case change_of (fst mr) (snd mr) of None \<Rightarrow> [] | Some c \<Rightarrow> [c])"

lemma rows_of_Suc:
  "rows_of ms (Suc n) x =
     (if closes (owner_at ms n) (fst (ms ! n)) x then []
      else rows_of ms n x @ (if owner_at ms n = Some x then change_list (ms ! n) else []))"
proof (cases "closes (owner_at ms n) (fst (ms ! n)) x")
  case True
  then have "list_all (\<lambda>k. \<not> closes (owner_at ms k) (fst (ms ! k)) x) [j..<Suc n] = False" if "j \<le> n" for j
    using that by simp
  then have "rows_of ms (Suc n) x = List.map_filter (\<lambda>j. None) [0..<Suc n]"
    unfolding rows_of_def by (intro map_filter_cong) (auto simp del: upt_Suc)
  with True show ?thesis by (simp add: List.map_filter_def)
next
  case False
  then have all: "list_all (\<lambda>k. \<not> closes (owner_at ms k) (fst (ms ! k)) x) [j..<Suc n] =
      list_all (\<lambda>k. \<not> closes (owner_at ms k) (fst (ms ! k)) x) [j..<n]" if "j \<le> n" for j
    using that by simp
  have "rows_of ms (Suc n) x = List.map_filter (\<lambda>j. if owner_at ms j = Some x \<and>
         list_all (\<lambda>k. \<not> closes (owner_at ms k) (fst (ms ! k)) x) [j..<n]
       then change_of (fst (ms ! j)) (snd (ms ! j)) else None) [0..<Suc n]"
    unfolding rows_of_def by (intro map_filter_cong) (simp add: all del: upt_Suc)
  also have "\<dots> = rows_of ms n x @ (if owner_at ms n = Some x then change_list (ms ! n) else [])"
    by (simp add: rows_of_def change_list_def map_filter_simps split: option.splits)
  finally show ?thesis using False by simp
qed

lemma rows_of_snoc:
  "rows_of (ms @ [mr]) (length (ms @ [mr])) x =
     (if closes (owner ms) (fst mr) x then []
      else rows_of ms (length ms) x @ (if owner ms = Some x then change_list mr else []))"
  using rows_of_Suc [of "ms @ [mr]" "length ms" x]
  by (simp add: owner_at_append owner_at_length rows_of_append)

lemma committed_rows_snoc:
  "committed_rows (ms @ [mr]) = committed_rows ms @
     (case commits (owner ms) (fst mr) of None \<Rightarrow> []
      | Some (x, e) \<Rightarrow> stamped e (rows_of ms (length ms) x))"
proof -
  have "committed_at (ms @ [mr]) i = committed_at ms i" if "i < length ms" for i
    using that rows_of_append [of i ms "[mr]"]
    by (auto simp: committed_at_def owner_at_append nth_append split: option.splits)
  then have maps: "map (committed_at (ms @ [mr])) [0..<length ms] = map (committed_at ms) [0..<length ms]"
    by (intro map_cong) simp_all
  have last: "committed_at (ms @ [mr]) (length ms) =
      (case commits (owner ms) (fst mr) of None \<Rightarrow> [] | Some (x, e) \<Rightarrow> stamped e (rows_of ms (length ms) x))"
    by (auto simp: committed_at_def owner_at_append owner_at_length rows_of_append split: option.splits)
  have "committed_rows (ms @ [mr]) = concat (map (committed_at (ms @ [mr])) [0..<length ms]) @ committed_at (ms @ [mr]) (length ms)"
    by (simp add: committed_rows_def)
  then show ?thesis unfolding maps last committed_rows_def .
qed

subsection \<open>The batcher against the reference\<close>

definition opened :: "batcher \<Rightarrow> u32 \<Rightarrow> mutation list" where
  "opened b x = (case map_of (open_txns b) x of None \<Rightarrow> [] | Some rows \<Rightarrow> rows)"

lemma open_txn_simps [simp]:
  "opened (open_txn x b) y = opened b y" "sealed (open_txn x b) = sealed b" "current (open_txn x b) = current b"
  "covers_through (open_txn x b) = covers_through b"
  by (auto simp: open_txn_def opened_def update_conv')

lemma seal_simps [simp]:
  "opened (seal x e b) y = (if y = x then [] else opened b y)"
  "sealed (seal x e b) = sealed b @ stamped e (opened b x)"
  "current (seal x e b) = current b"
  by (auto simp: seal_def opened_def delete_conv' stamped_def split: option.splits)

lemma abort_simps [simp]:
  "opened (abort_txn x b) y = (if y = x then [] else opened b y)"
  "sealed (abort_txn x b) = sealed b" "current (abort_txn x b) = current b"
  "covers_through (abort_txn x b) = covers_through b"
  by (auto simp: abort_txn_def opened_def delete_conv')

lemma leave_simps [simp]:
  "opened (leave x b) y = opened b y" "sealed (leave x b) = sealed b"
  "current (leave x b) = (if current b = Some x then None else current b)"
  "covers_through (leave x b) = covers_through b"
  by (auto simp: leave_def opened_def)

lemma push_row_simps:
  "opened (push_row rid k t cur b) y = opened b y @
     (if current b = Some y then
        (case apply_unchanged t cur of None \<Rightarrow> []
         | Some r \<Rightarrow> [\<lparr>mu_relation = rid, mu_op = k, mu_row = r, mu_commit_lsn = LSN_ZERO\<rparr>])
      else [])"
  "sealed (push_row rid k t cur b) = sealed b" "current (push_row rid k t cur b) = current b"
  "covers_through (push_row rid k t cur b) = covers_through b"
  by (auto simp: push_row_def opened_def update_conv' Let_def split: option.splits)

lemma opened_current [simp]: "opened (b\<lparr>current := c\<rparr>) y = opened b y"
  by (simp add: opened_def)

lemma accept_sound:
  "current (accept m cur b) = next_owner m (current b)"
  "opened (accept m cur b) y =
     (if closes (current b) m y then []
      else opened b y @ (if current b = Some y then change_list (m, cur) else []))"
  "sealed (accept m cur b) = sealed b @
     (case commits (current b) m of None \<Rightarrow> [] | Some (x, e) \<Rightarrow> stamped e (opened b x))"
  by (cases m; auto simp: push_row_simps change_list_def opened_def [of "b\<lparr>truncated := _\<rparr>"]
        split: option.splits; simp add: opened_def)+

definition tracks :: "stream \<Rightarrow> batcher \<Rightarrow> bool" where
  "tracks ms b \<longleftrightarrow> current b = owner ms \<and> (\<forall>x. opened b x = rows_of ms (length ms) x)"

lemma tracks_new: "tracks [] (batcher_new p)"
  by (simp add: tracks_def batcher_new_def owner_def opened_def rows_of_def List.map_filter_def)

lemma tracks_accept: "tracks ms b \<Longrightarrow> tracks (ms @ [(m, cur)]) (accept m cur b)"
  unfolding tracks_def rows_of_snoc accept_sound by (simp add: owner_snoc)

lemma run_snoc: "run_batcher p (es @ [e]) = batch_step e (run_batcher p es)"
  by (simp add: run_batcher_def)

lemma arrivals_snoc: "arrivals (es @ [e]) = arrivals es @ (case arrival e of None \<Rightarrow> [] | Some mr \<Rightarrow> [mr])"
  by (simp add: arrivals_def map_filter_simps split: option.splits)

lemma run_tracks:
  "run_batcher p es = (ps, b) \<Longrightarrow>
     tracks (arrivals es) b \<and> concat (map mp_mutations ps) @ sealed b = committed_rows (arrivals es)"
proof (induction es arbitrary: ps b rule: rev_induct)
  case Nil
  then show ?case
    using tracks_new [of p]
    by (auto simp: run_batcher_def arrivals_def List.map_filter_def committed_rows_def) (simp add: batcher_new_def)
next
  case (snoc e es)
  obtain qs c where c: "run_batcher p es = (qs, c)" by fastforce
  note ih = snoc.IH [OF c]
  show ?case
  proof (cases e)
    case (Arrive m cur)
    with snoc.prems c have r: "ps = qs" "b = accept m cur c" by (simp_all add: run_snoc)
    have o: "owner (arrivals es) = current c" "\<And>x. rows_of (arrivals es) (length (arrivals es)) x = opened c x"
      using ih by (simp_all add: tracks_def)
    from ih r Arrive show ?thesis
      by (auto simp: arrivals_snoc tracks_accept committed_rows_snoc accept_sound o split: option.splits
          simp flip: append_assoc)
  next
    case Tick
    with snoc.prems c ih show ?thesis
      by (auto simp: run_snoc arrivals_snoc tick_def tracks_def opened_def)
  next
    case Flush
    with snoc.prems c ih show ?thesis
      by (auto simp: run_snoc arrivals_snoc flush_def tracks_def opened_def)
  qed
qed


subsection \<open>Where batches meet\<close>

definition commit_positions :: "stream \<Rightarrow> lsn list" where
  "commit_positions ms =
     List.map_filter (\<lambda>i. map_option snd (commits (owner_at ms i) (fst (ms ! i)))) [0..<length ms]"

lemma commit_positions_snoc:
  "commit_positions (ms @ [mr]) = commit_positions ms @
     (case commits (owner ms) (fst mr) of None \<Rightarrow> [] | Some (x, e) \<Rightarrow> [e])"
proof -
  have "List.map_filter (\<lambda>i. map_option snd (commits (owner_at (ms @ [mr]) i) (fst ((ms @ [mr]) ! i)))) [0..<length ms] =
      commit_positions ms"
    unfolding commit_positions_def by (intro map_filter_cong) (simp add: owner_at_append nth_append)
  then show ?thesis
    by (simp add: commit_positions_def map_filter_simps owner_at_append owner_at_length split: option.splits)
qed

lemma seal_covers: "covers_through (seal x e b) = (if map_of (open_txns b) x = None then covers_through b
    else max (covers_through b) e)"
  by (auto simp: seal_def max_def split: option.splits)

lemma accept_covers:
  "covers_through (accept m cur b) =
     (case commits (current b) m of
        Some (x, e) \<Rightarrow> if map_of (open_txns b) x = None then covers_through b else max (covers_through b) e
      | None \<Rightarrow> covers_through b)"
  by (cases m) (auto simp: push_row_simps seal_covers split: option.splits)

definition meets :: "stream \<Rightarrow> mutation_plan list \<Rightarrow> batcher \<Rightarrow> bool" where
  "meets ms ps b \<longleftrightarrow>
     covers_through b \<in> insert LSN_ZERO (set (commit_positions ms)) \<and>
     (\<forall>p \<in> set ps. mp_covers_through p \<le> covers_through b) \<and>
     (\<forall>m \<in> set (sealed b). mu_commit_lsn m \<le> covers_through b \<and> (\<forall>p \<in> set ps. mp_covers_through p < mu_commit_lsn m)) \<and>
     (\<forall>p \<in> set ps. \<forall>m \<in> set (mp_mutations p). mu_commit_lsn m \<le> mp_covers_through p) \<and>
     sorted_wrt (\<lambda>p q. mp_covers_through p \<le> mp_covers_through q \<and>
       (\<forall>m \<in> set (mp_mutations q). mp_covers_through p < mu_commit_lsn m)) ps"

lemma accept_meets:
  assumes inv: "meets ms ps b" and tr: "tracks ms b"
    and sorted: "sorted_wrt (<) (LSN_ZERO # commit_positions (ms @ [(m, cur)]))"
  shows "meets (ms @ [(m, cur)]) ps (accept m cur b)"
proof (cases "commits (current b) m")
  case None
  with inv tr show ?thesis
    by (simp add: meets_def accept_covers accept_sound commit_positions_snoc tracks_def)
next
  case (Some xe)
  obtain x e where xe: "xe = (x, e)" by fastforce
  have own: "commits (owner ms) m = Some (x, e)" using Some xe tr by (simp add: tracks_def)
  have pos: "commit_positions (ms @ [(m, cur)]) = commit_positions ms @ [e]"
    by (simp add: commit_positions_snoc own)
  have new: "covers_through b < e"
    using inv sorted unfolding pos by (auto simp: meets_def sorted_wrt_append)
  show ?thesis
  proof (cases "map_of (open_txns b) x")
    case None
    then have "opened b x = []" by (simp add: opened_def)
    with None inv Some xe pos show ?thesis
      by (auto simp: meets_def accept_covers accept_sound stamped_def)
  next
    case (Some rows)
    have covers: "covers_through (accept m cur b) = e"
      using Some \<open>commits (current b) m = Some xe\<close> xe new by (simp add: accept_covers max_absorb2)
    have sealed: "sealed (accept m cur b) = sealed b @ stamped e (opened b x)"
      using \<open>commits (current b) m = Some xe\<close> xe by (simp add: accept_sound)
    have below: "mp_covers_through p < e \<and> mp_covers_through p \<le> e" if "p \<in> set ps" for p
      using inv that new by (auto simp: meets_def)
    show ?thesis
      using inv below new unfolding meets_def covers sealed pos
      by (auto simp: stamped_def)
  qed
qed

lemma flush_meets: "meets ms ps b \<Longrightarrow> flush b = (p, b') \<Longrightarrow> meets ms (ps @ [p]) b'"
  by (auto simp: meets_def flush_def sorted_wrt_append)

lemma run_meets:
  "run_batcher p es = (ps, b) \<Longrightarrow> sorted_wrt (<) (LSN_ZERO # commit_positions (arrivals es)) \<Longrightarrow>
     meets (arrivals es) ps b"
proof (induction es arbitrary: ps b rule: rev_induct)
  case Nil
  then show ?case
    by (auto simp: run_batcher_def meets_def batcher_new_def)
next
  case (snoc e es)
  obtain qs c where c: "run_batcher p es = (qs, c)" by fastforce
  have "\<exists>ys. commit_positions (arrivals (es @ [e])) = commit_positions (arrivals es) @ ys"
    by (cases e) (auto simp: arrivals_snoc commit_positions_snoc)
  with snoc.prems(2) have "sorted_wrt (<) (LSN_ZERO # commit_positions (arrivals es))"
    by (auto simp: sorted_wrt_append)
  note ih = snoc.IH [OF c this]
  show ?case
  proof (cases e)
    case (Arrive m cur)
    with snoc.prems c ih run_tracks [OF c] accept_meets [of "arrivals es" qs c m cur] show ?thesis
      by (simp add: run_snoc arrivals_snoc)
  next
    case Tick
    with snoc.prems c ih show ?thesis
      by (auto simp: run_snoc arrivals_snoc tick_def meets_def)
  next
    case Flush
    with snoc.prems c ih flush_meets [of "arrivals es" qs c] show ?thesis
      by (simp add: run_snoc arrivals_snoc split: prod.splits)
  qed
qed

text \<open>
  Batches meet at positions. When commits come in increasing position order, as the source sends
  them, the position a batch declares covers every change in it, declared positions never go
  back, and every change of a later batch lies strictly after every earlier batch's
  position; so do the changes sealed and not yet published. This is what lets a position stand for a prefix
  of the stream.
\<close>

theorem batches_meet_at_positions:
  assumes "sorted_wrt (<) (0 # commit_positions (arrivals events))"
    and "run_batcher policy events = (plans, b)"
  shows "(\<forall>p \<in> set plans. \<forall>m \<in> set (mp_mutations p). mu_commit_lsn m \<le> mp_covers_through p) \<and>
    sorted_wrt (\<lambda>p q. mp_covers_through p \<le> mp_covers_through q \<and>
      (\<forall>m \<in> set (mp_mutations q). mp_covers_through p < mu_commit_lsn m)) plans \<and>
    (\<forall>m \<in> set (sealed b). \<forall>p \<in> set plans. mp_covers_through p < mu_commit_lsn m)"
  using run_meets [OF assms(2)] assms(1) by (simp add: meets_def LSN_ZERO_def)

definition sample_events :: "batch_event list" where
  "sample_events =
     [Arrive (Begin 5 0 1) None, Arrive (Insert 9 [Value_Text ''a'']) None, Arrive (Commit 4 5 0) None, Flush,
      Arrive (Begin 8 0 2) None, Arrive (Insert 9 [Value_Text ''b'']) None, Flush, Arrive (Commit 7 8 0) None, Flush]"

theorem batches_meet_at_positions_witness:
  "map mp_covers_through (fst (run_batcher batch_policy_default sample_events)) = [5, 5, 8] \<and>
   mp_covers_through (fst (run_batcher batch_policy_default sample_events) ! 1) <
     mu_commit_lsn (hd (mp_mutations (fst (run_batcher batch_policy_default sample_events) ! 2)))"
proof -
  have run: "run_batcher batch_policy_default sample_events =
      ([\<lparr>mp_mutations = [\<lparr>mu_relation = 9, mu_op = Op_Insert, mu_row = [Some ''a''], mu_commit_lsn = 5\<rparr>],
          mp_covers_through = 5, mp_transactions = 1\<rparr>,
        \<lparr>mp_mutations = [], mp_covers_through = 5, mp_transactions = 0\<rparr>,
        \<lparr>mp_mutations = [\<lparr>mu_relation = 9, mu_op = Op_Insert, mu_row = [Some ''b''], mu_commit_lsn = 8\<rparr>],
          mp_covers_through = 8, mp_transactions = 1\<rparr>],
       (batcher_new batch_policy_default)\<lparr>covers_through := 8\<rparr>)"
    by (simp add: run_batcher_def sample_events_def batcher_new_def open_txn_def push_row_def apply_unchanged_def
        seal_def flush_def LSN_ZERO_def usize_saturating_add_def USIZE_MAX_def Let_def)
  have "commit_positions (arrivals sample_events) = [5, 8]"
    by (simp add: sample_events_def arrivals_def commit_positions_def owner_at_def owner_def
        map_filter_simps upt_rec)
  then have "sorted_wrt (<) (0 # commit_positions (arrivals sample_events))" by simp
  from batches_meet_at_positions [OF this run] show ?thesis by (simp add: run)
qed

subsection \<open>Withheld values\<close>

lemma resolve_values_withheld:
  "resolve_values i t cur = Some r \<Longrightarrow> j < length t \<Longrightarrow> t ! j = Value_Unchanged \<Longrightarrow>
     \<exists>c. cur = Some c \<and> i + j < length c \<and> r ! j = c ! (i + j)"
proof (induction i t cur arbitrary: r j rule: resolve_values.induct)
  case (2 i v vs cur)
  show ?case
  proof (cases j)
    case 0
    with "2.prems" show ?thesis by (auto split: option.splits if_splits)
  next
    case (Suc k)
    from "2.prems"(1) obtain x xs where r: "r = x # xs" "resolve_values (Suc i) vs cur = Some xs"
      by (auto split: option.splits)
    from "2.prems"(1) obtain y where y: "(case v of
              Value_Null \<Rightarrow> Some None
            | Value_Text s \<Rightarrow> Some (Some s)
            | Value_Binary b \<Rightarrow> Some (Some (hex_of b))
            | Value_Unchanged \<Rightarrow>
                (case cur of
                   None \<Rightarrow> None
                 | Some r \<Rightarrow> if i < length r then Some (r ! i) else None)) = Some y"
      by (auto split: option.splits)
    have "\<exists>c. cur = Some c \<and> Suc i + k < length c \<and> xs ! k = c ! (Suc i + k)"
      using "2.IH" [OF y r(2), of k] "2.prems"(2,3) Suc by simp
    with r(1) Suc show ?thesis by simp
  qed
qed simp

text \<open>A value the source withheld is the current row's or the whole change is refused.\<close>

lemma withheld_values_are_current:
  "apply_unchanged t cur = Some r \<Longrightarrow> j < length t \<Longrightarrow> t ! j = Value_Unchanged \<Longrightarrow>
     \<exists>c. cur = Some c \<and> j < length c \<and> r ! j = c ! j"
  using resolve_values_withheld [of 0 t cur r j] by (simp add: apply_unchanged_def)

text \<open>
  Rolling back a savepoint inside a streamed transaction ends the whole transaction: its
  other changes are not in any batch when it commits.
\<close>

lemma rolled_back_savepoint_loses_the_rest:
  "committed_rows [(StreamStart 7 True, None), (Insert 9 [Value_Text ''kept''], None), (StreamStop, None),
     (StreamAbort 7 8, None), (StreamCommit 7 4 5 0, None)] = []"
  by (simp add: committed_rows_def committed_at_def rows_of_def owner_at_def owner_def stamped_def
      upt_rec map_filter_simps)

end
