(* ===== verification/Onboarding.thy ===== *)
theory Onboarding
  imports Schema_Model Cdc_Model
begin

text \<open>
  A source table becomes an analytical one: \<^verbatim>\<open>crates/sankhya-schema/src/mapping.rs\<close> (types),
  \<^verbatim>\<open>naming.rs\<close> (storage paths) and \<^verbatim>\<open>onboard.rs\<close>. The texts that errors carry for people
  are left out where the other fields determine them. \<open>char::to_lowercase\<close> of a code
  point, of which the code takes the first, is a parameter.
\<close>

subsection \<open>Types\<close>

text \<open>\<open>detail\<close> of the second error tells the digits and scale, or that there are none.\<close>

datatype mapping_error =
    Unsupported u32
  | Unrepresentable u32 "(u8 \<times> u8) option"

record type_mapping =
  tm_logical :: logical_type
  lossless :: bool

definition BOOL :: u32 where "BOOL = 16"
definition BYTEA :: u32 where "BYTEA = 17"
definition INT8 :: u32 where "INT8 = 20"
definition INT2 :: u32 where "INT2 = 21"
definition INT4 :: u32 where "INT4 = 23"
definition TEXT :: u32 where "TEXT = 25"
definition JSON :: u32 where "JSON = 114"
definition FLOAT4 :: u32 where "FLOAT4 = 700"
definition FLOAT8 :: u32 where "FLOAT8 = 701"
definition VARCHAR :: u32 where "VARCHAR = 1043"
definition BPCHAR :: u32 where "BPCHAR = 1042"
definition DATE :: u32 where "DATE = 1082"
definition TIME :: u32 where "TIME = 1083"
definition TIMESTAMP :: u32 where "TIMESTAMP = 1114"
definition TIMESTAMPTZ :: u32 where "TIMESTAMPTZ = 1184"
definition NUMERIC :: u32 where "NUMERIC = 1700"
definition UUID :: u32 where "UUID = 2950"
definition JSONB :: u32 where "JSONB = 3802"

lemmas oid_defs = BOOL_def BYTEA_def INT8_def INT2_def INT4_def TEXT_def JSON_def FLOAT4_def
  FLOAT8_def VARCHAR_def BPCHAR_def DATE_def TIME_def TIMESTAMP_def TIMESTAMPTZ_def NUMERIC_def
  UUID_def JSONB_def

text \<open>Shifting right is arithmetic, \<open>as u8\<close> keeps the low eight bits.\<close>

definition map_numeric :: "int \<Rightarrow> mapping_error + type_mapping" where
  "map_numeric modifier =
     (if modifier < 0 then Inl (Unrepresentable NUMERIC None)
      else
        let packed = max (- (2 ^ 31)) (modifier - 4);
            d = of_int (packed div 2 ^ 16 mod 2 ^ 16);
            s = of_int (packed mod 2 ^ 16)
        in (case precision_new d s of
              None \<Rightarrow> Inl (Unrepresentable NUMERIC (Some (d, s)))
            | Some p \<Rightarrow> Inr \<lparr>tm_logical = Decimal p, lossless = True\<rparr>))"

definition map_source_type :: "u32 \<Rightarrow> int \<Rightarrow> mapping_error + type_mapping" where
  "map_source_type oid modifier =
     (let exactly = (\<lambda>t. Inr \<lparr>tm_logical = t, lossless = True\<rparr>) in
      if oid = BOOL then exactly Boolean
      else if oid = INT2 then exactly Int16
      else if oid = INT4 then exactly Int32
      else if oid = INT8 then exactly Int64
      else if oid = FLOAT4 then exactly Float32
      else if oid = FLOAT8 then exactly Float64
      else if oid \<in> {TEXT, VARCHAR, BPCHAR} then exactly Utf8
      else if oid = BYTEA then exactly Binary
      else if oid = DATE then exactly Date
      else if oid = TIME then exactly Time
      else if oid = TIMESTAMPTZ then exactly TimestampUtc
      else if oid = TIMESTAMP then exactly TimestampLocal
      else if oid = UUID then exactly Uuid
      else if oid \<in> {JSON, JSONB} then exactly Json
      else if oid = NUMERIC then map_numeric modifier
      else Inl (Unsupported oid))"

text \<open>\<open>|\<close> joins disjoint bits, so it adds.\<close>

definition numeric_modifier :: "u8 \<Rightarrow> u8 \<Rightarrow> int" where
  "numeric_modifier d s = int (unat d) * 2 ^ 16 + int (unat s) + 4"

text \<open>A declared precision the mapping is made for comes back as declared.\<close>

lemma map_numeric_modifier:
  assumes "precision_new d s = Some p"
  shows "map_source_type NUMERIC (numeric_modifier d s) = Inr \<lparr>tm_logical = Decimal p, lossless = True\<rparr>"
proof -
  have b: "int (unat d) < 256" "int (unat s) < 256"
    using unsigned_less [of d, where ?'a = int] unsigned_less [of s, where ?'a = int] by simp_all
  have "int (unat d) * 2 ^ 16 + int (unat s) + 4 - 4 = int (unat s) + 2 ^ 16 * int (unat d)" by simp
  moreover have "(int (unat s) + 2 ^ 16 * int (unat d)) div 2 ^ 16 mod 2 ^ 16 = int (unat d)"
    "(int (unat s) + 2 ^ 16 * int (unat d)) mod 2 ^ 16 = int (unat s)"
    using b by simp_all
  ultimately show ?thesis
    using assms by (simp add: map_source_type_def map_numeric_def numeric_modifier_def oid_defs Let_def)
qed

text \<open>
  The digits are cut to eight bits before they are judged: a source column declared
  \<open>numeric(258, 2)\<close> is taken for \<open>numeric(2, 2)\<close>.
\<close>

lemma wide_numeric_is_cut:
  "map_source_type NUMERIC (258 * 2 ^ 16 + 2 + 4) =
     Inr \<lparr>tm_logical = Decimal \<lparr>digits = 2, scale = 2\<rparr>, lossless = True\<rparr>"
  by (simp add: map_source_type_def map_numeric_def oid_defs precision_new_def MAX_DIGITS_def)

subsection \<open>Names\<close>

definition RESERVED_SEGMENTS :: "string list" where
  "RESERVED_SEGMENTS =
     [''_delta_log'', ''metadata'', ''data'', ''_sankhya'', ''_staging'', ''graveyard'',
      ''con'', ''prn'', ''aux'', ''nul'',
      ''com1'', ''com2'', ''com3'', ''com4'', ''com5'', ''com6'', ''com7'', ''com8'', ''com9'',
      ''lpt1'', ''lpt2'', ''lpt3'', ''lpt4'', ''lpt5'', ''lpt6'', ''lpt7'', ''lpt8'', ''lpt9'']"

definition MAX_SEGMENT_BYTES :: nat where "MAX_SEGMENT_BYTES = 63"

definition SEPARATOR :: char where "SEPARATOR = CHR ''-''"

datatype name_class = Identity | Transformed

record path_segment =
  seg_text :: string
  seg_class :: name_class

definition is_identity :: "path_segment \<Rightarrow> bool" where
  "is_identity p \<longleftrightarrow> seg_class p = Identity"

datatype naming_error =
    Empty_Name string
  | Reserved string string
  | Collision string string string

definition safe_char :: "char \<Rightarrow> bool" where
  "safe_char c \<longleftrightarrow> (let n = (of_char c :: nat) in 97 \<le> n \<and> n \<le> 122 \<or> 48 \<le> n \<and> n \<le> 57 \<or> c = CHR ''_'')"

definition is_reserved :: "string \<Rightarrow> bool" where
  "is_reserved s \<longleftrightarrow> s \<in> set RESERVED_SEGMENTS \<or> take 1 s = ''_'' \<or> take 1 s = ''.''"

definition is_already_safe :: "string \<Rightarrow> bool" where
  "is_already_safe s \<longleftrightarrow> s \<noteq> [] \<and> length s \<le> MAX_SEGMENT_BYTES \<and> list_all safe_char s \<and>
     take 1 s \<noteq> ''_'' \<and> \<not> is_reserved s"

text \<open>\<open>str::chars\<close> of valid UTF-8: the code points.\<close>

fun code_points :: "bytes \<Rightarrow> nat list" where
  "code_points [] = []"
| "code_points (a # r) =
     (if a < 0x80 then unat a # code_points r
      else if a < 0xE0 then
        (case r of b # r' \<Rightarrow> ((unat a - 192) * 64 + (unat b - 128)) # code_points r' | _ \<Rightarrow> [])
      else if a < 0xF0 then
        (case r of b # c # r' \<Rightarrow>
           ((unat a - 224) * 4096 + (unat b - 128) * 64 + (unat c - 128)) # code_points r' | _ \<Rightarrow> [])
      else
        (case r of b # c # d # r' \<Rightarrow>
           ((unat a - 240) * 262144 + (unat b - 128) * 4096 + (unat c - 128) * 64 + (unat d - 128)) # code_points r'
         | _ \<Rightarrow> []))"

text \<open>The loop of \<open>transform\<close>, with the text written so far and whether it ends in a separator.\<close>

fun transform_loop :: "(nat \<Rightarrow> nat) \<Rightarrow> nat list \<Rightarrow> string \<Rightarrow> bool \<Rightarrow> string" where
  "transform_loop lower [] out sep = out"
| "transform_loop lower (ch # chs) out sep =
     (let lowered = lower ch in
      if lowered < 128 \<and> safe_char (char_of lowered) then transform_loop lower chs (out @ [char_of lowered]) False
      else if \<not> sep then transform_loop lower chs (out @ [SEPARATOR]) True
      else transform_loop lower chs out sep)"

definition strip_front :: "string \<Rightarrow> string" where
  "strip_front s = dropWhile (\<lambda>c. c = SEPARATOR) s"

definition strip_back :: "string \<Rightarrow> string" where
  "strip_back s = rev (dropWhile (\<lambda>c. c = SEPARATOR) (rev s))"

definition transform :: "(nat \<Rightarrow> nat) \<Rightarrow> string \<Rightarrow> string" where
  "transform lower s =
     (let trimmed = strip_back (strip_front (transform_loop lower (code_points (bytes_of s)) [] False));
          result = strip_back (take MAX_SEGMENT_BYTES trimmed)
      in if take 1 result = ''_'' then ''t'' @ result else result)"

definition segment_for :: "(nat \<Rightarrow> nat) \<Rightarrow> string \<Rightarrow> naming_error + path_segment" where
  "segment_for lower s =
     (if is_already_safe s then Inr \<lparr>seg_text = s, seg_class = Identity\<rparr>
      else
        let transformed = transform lower s in
        if transformed = [] then Inl (Empty_Name s)
        else if is_reserved transformed then Inl (Reserved s transformed)
        else Inr \<lparr>seg_text = transformed, seg_class = Transformed\<rparr>)"

record table_location =
  source_schema :: string
  source_table :: string
  schema_segment :: path_segment
  table_segment :: path_segment

definition resolve_location :: "(nat \<Rightarrow> nat) \<Rightarrow> string \<Rightarrow> string \<Rightarrow> naming_error + table_location" where
  "resolve_location lower sch tab =
     and_then (segment_for lower sch) (\<lambda>ss. and_then (segment_for lower tab) (\<lambda>ts.
       Inr \<lparr>source_schema = sch, source_table = tab, schema_segment = ss, table_segment = ts\<rparr>))"

definition relative_path :: "table_location \<Rightarrow> string" where
  "relative_path l = seg_text (schema_segment l) @ ''/'' @ seg_text (table_segment l)"

definition is_fully_relatable :: "table_location \<Rightarrow> bool" where
  "is_fully_relatable l \<longleftrightarrow> is_identity (schema_segment l) \<and> is_identity (table_segment l)"

text \<open>The paths already taken, with the table that took each.\<close>

type_synonym collision_check = "string \<rightharpoonup> string"

definition collision_insert :: "collision_check \<Rightarrow> table_location \<Rightarrow> naming_error + collision_check" where
  "collision_insert seen l =
     (let path = relative_path l;
          full_name = source_schema l @ ''.'' @ source_table l
      in (case seen path of
            Some existing \<Rightarrow>
              if existing \<noteq> full_name then Inl (Collision full_name existing path)
              else Inr (seen(path \<mapsto> full_name))
          | None \<Rightarrow> Inr (seen(path \<mapsto> full_name))))"

lemma transform_loop_chars:
  "set (transform_loop lower chs out sep) \<subseteq> set out \<union> {c. safe_char c} \<union> {SEPARATOR}"
  by (induction lower chs out sep rule: transform_loop.induct) (auto simp: Let_def split: if_splits)

lemma strip_subset: "set (strip_front s) \<subseteq> set s" "set (strip_back s) \<subseteq> set s"
  by (auto simp: strip_front_def strip_back_def dest: set_dropWhileD)

lemma strip_back_length: "length (strip_back s) \<le> length s"
  using length_dropWhile_le [of "\<lambda>c. c = SEPARATOR" "rev s"] by (simp add: strip_back_def)

lemma strip_back_prefix: "\<exists>t. s = strip_back s @ t"
proof -
  have "rev s = takeWhile (\<lambda>c. c = SEPARATOR) (rev s) @ dropWhile (\<lambda>c. c = SEPARATOR) (rev s)" by simp
  then have "s = rev (dropWhile (\<lambda>c. c = SEPARATOR) (rev s)) @ rev (takeWhile (\<lambda>c. c = SEPARATOR) (rev s))"
    by (metis rev_append rev_rev_ident)
  then show ?thesis by (auto simp: strip_back_def)
qed

text \<open>A text that starts and ends away from the separator keeps doing so when its tail is cut.\<close>

lemma strip_back_ends: "strip_back s \<noteq> [] \<Longrightarrow> last (strip_back s) \<noteq> SEPARATOR"
  using hd_dropWhile [of "\<lambda>c. c = SEPARATOR" "rev s"] by (simp add: strip_back_def last_rev)

lemma strip_back_starts: "s = [] \<or> hd s \<noteq> c \<Longrightarrow> strip_back s = [] \<or> hd (strip_back s) \<noteq> c"
proof -
  assume h: "s = [] \<or> hd s \<noteq> c"
  obtain t where "s = strip_back s @ t" using strip_back_prefix [of s] ..
  then have "strip_back s \<noteq> [] \<Longrightarrow> s \<noteq> [] \<and> hd s = hd (strip_back s)"
    by (cases "strip_back s") (auto dest: arg_cong [where f = hd])
  with h show ?thesis by auto
qed

lemma dropWhile_starts: "dropWhile (\<lambda>c. c = d) s = [] \<or> hd (dropWhile (\<lambda>c. c = d) s) \<noteq> d"
  by (induction s) auto

lemma transform_legal:
  "set (transform lower s) \<subseteq> {c. safe_char c} \<union> {SEPARATOR} \<and> length (transform lower s) \<le> 64 \<and>
   (transform lower s = [] \<or> hd (transform lower s) \<notin> {SEPARATOR, CHR ''_''} \<and> last (transform lower s) \<noteq> SEPARATOR)"
proof -
  define out where "out = strip_front (transform_loop lower (code_points (bytes_of s)) [] False)"
  define r where "r = strip_back (take MAX_SEGMENT_BYTES (strip_back out))"
  have t: "transform lower s = (if take 1 r = ''_'' then ''t'' @ r else r)"
    by (simp add: transform_def out_def r_def Let_def)
  have "set r \<subseteq> set out"
    using strip_subset [of "take MAX_SEGMENT_BYTES (strip_back out)"] strip_subset [of out]
    by (auto simp: r_def dest!: in_set_takeD)
  also have "\<dots> \<subseteq> {c. safe_char c} \<union> {SEPARATOR}"
    using strip_subset [of "transform_loop lower (code_points (bytes_of s)) [] False"]
      transform_loop_chars [of lower "code_points (bytes_of s)" "[]" False] by (auto simp: out_def)
  finally have chars: "set r \<subseteq> {c. safe_char c} \<union> {SEPARATOR}" .
  have len: "length r \<le> 63"
    using strip_back_length [of "take MAX_SEGMENT_BYTES (strip_back out)"] by (simp add: r_def MAX_SEGMENT_BYTES_def)
  have "out = [] \<or> hd out \<noteq> SEPARATOR"
    unfolding out_def strip_front_def by (rule dropWhile_starts)
  then have "strip_back out = [] \<or> hd (strip_back out) \<noteq> SEPARATOR" by (rule strip_back_starts)
  then have "take MAX_SEGMENT_BYTES (strip_back out) = [] \<or> hd (take MAX_SEGMENT_BYTES (strip_back out)) \<noteq> SEPARATOR"
    by (auto simp: MAX_SEGMENT_BYTES_def hd_take)
  then have start: "r = [] \<or> hd r \<noteq> SEPARATOR" unfolding r_def by (rule strip_back_starts)
  have stop: "r = [] \<or> last r \<noteq> SEPARATOR" using strip_back_ends by (auto simp: r_def)
  have "safe_char CHR ''t''" by (simp add: safe_char_def)
  then show ?thesis
    using chars len start stop by (cases r) (auto simp: t SEPARATOR_def)
qed

lemma segment_legal:
  assumes "segment_for lower s = Inr seg"
  shows "seg_text seg \<noteq> [] \<and> length (seg_text seg) \<le> 64 \<and>
    (\<forall>c \<in> set (seg_text seg). safe_char c \<or> c = SEPARATOR) \<and> hd (seg_text seg) \<notin> {SEPARATOR, CHR ''_''} \<and>
    last (seg_text seg) \<noteq> SEPARATOR \<and> seg_text seg \<notin> set RESERVED_SEGMENTS \<and>
    (is_identity seg \<longleftrightarrow> is_already_safe s) \<and> (is_identity seg \<longrightarrow> seg_text seg = s)"
proof (cases "is_already_safe s")
  case True
  have "\<not> safe_char SEPARATOR" by (simp add: safe_char_def SEPARATOR_def)
  moreover have "s \<noteq> []" "list_all safe_char s" using True by (simp_all add: is_already_safe_def)
  ultimately have "hd s \<noteq> SEPARATOR" "last s \<noteq> SEPARATOR"
    using hd_in_set [of s] last_in_set [of s] unfolding list_all_iff by metis+
  moreover have "seg = \<lparr>seg_text = s, seg_class = Identity\<rparr>" using True assms by (simp add: segment_for_def)
  moreover have "hd s \<noteq> CHR ''_''" using True by (cases s) (simp_all add: is_already_safe_def)
  ultimately show ?thesis
    using True by (simp add: is_identity_def) (simp add: is_already_safe_def is_reserved_def list_all_iff MAX_SEGMENT_BYTES_def)
next
  case False
  then have seg: "seg = \<lparr>seg_text = transform lower s, seg_class = Transformed\<rparr>" "transform lower s \<noteq> []"
      "\<not> is_reserved (transform lower s)"
    using assms by (auto simp: segment_for_def Let_def split: if_splits)
  then show ?thesis
    using transform_legal [of lower s] False by (auto simp: is_identity_def is_reserved_def)
qed

text \<open>The bound on a segment is missed by one when the cut text starts with an underscore.\<close>

lemma segment_can_exceed_the_limit:
  "\<exists>seg. segment_for id (CHR ''_'' # replicate 62 CHR ''a'') = Inr seg \<and> length (seg_text seg) = MAX_SEGMENT_BYTES + 1"
proof -
  have "segment_for id (CHR ''_'' # replicate 62 CHR ''a'') =
      Inr \<lparr>seg_text = ''t_'' @ replicate 62 CHR ''a'', seg_class = Transformed\<rparr>"
    by code_simp
  then show ?thesis by (simp add: MAX_SEGMENT_BYTES_def)
qed

subsection \<open>Onboarding\<close>

datatype write_strategy = Mergeable | AppendOnly

datatype onboarding_warning =
    NoRowIdentity string
  | FullReplicaIdentity string
  | NameTransformed string string

datatype onboarding_error =
    UnmappableColumn string string mapping_error
  | ReservedColumn string string
  | Naming naming_error
  | NoColumns string

record onboarded =
  location :: table_location
  schema :: logical_schema
  strategy :: write_strategy
  warnings :: "onboarding_warning list"

definition qualified_name :: "relation_descriptor \<Rightarrow> string" where
  "qualified_name r = rd_namespace r @ ''.'' @ rd_name r"

text \<open>The loop over the columns.\<close>

fun onboard_columns :: "string \<Rightarrow> column_descriptor list \<Rightarrow> onboarding_error + field list" where
  "onboard_columns table [] = Inr []"
| "onboard_columns table (c # cs) =
     (if cd_name c \<in> set system_column_names then Inl (ReservedColumn table (cd_name c))
      else
        (case map_source_type (type_oid c) (type_modifier c) of
           Inl e \<Rightarrow> Inl (UnmappableColumn table (cd_name c) e)
         | Inr t \<Rightarrow>
             and_then (onboard_columns table cs) (\<lambda>fs. Inr
               (\<lparr>field_name = cd_name c, field_logical = tm_logical t, field_nullable = \<not> cd_is_key c,
                 field_is_key = cd_is_key c\<rparr> # fs))))"

definition onboard_relation :: "(nat \<Rightarrow> nat) \<Rightarrow> relation_descriptor \<Rightarrow> onboarding_error + onboarded" where
  "onboard_relation lower r =
     (if rd_columns r = [] then Inl (NoColumns (qualified_name r))
      else
        (case resolve_location lower (rd_namespace r) (rd_name r) of
           Inl e \<Rightarrow> Inl (Naming e)
         | Inr loc \<Rightarrow>
             and_then (onboard_columns (qualified_name r) (rd_columns r)) (\<lambda>fields.
               let strat = (if has_identity fields \<and> identifies_rows (rd_replica_identity r)
                            then Mergeable else AppendOnly)
               in Inr \<lparr>location = loc, schema = fields, strategy = strat,
                       warnings =
                         (if strat = AppendOnly then [NoRowIdentity (qualified_name r)] else []) @
                         (if rd_replica_identity r = Identity_Full then [FullReplicaIdentity (qualified_name r)] else []) @
                         (if \<not> is_fully_relatable loc then [NameTransformed (qualified_name r) (relative_path loc)] else [])\<rparr>)))"

definition is_fully_exact :: "logical_schema \<Rightarrow> bool" where
  "is_fully_exact s = list_all (\<lambda>f. is_exact (field_logical f)) s"

definition inexact_columns :: "logical_schema \<Rightarrow> string list" where
  "inexact_columns s = map field_name (filter (\<lambda>f. \<not> is_exact (field_logical f)) s)"

lemma map_source_type_supported:
  "map_source_type oid modifier = Inr t \<Longrightarrow>
     lossless t \<and> (\<forall>p. tm_logical t = Decimal p \<longrightarrow> precision_new (digits p) (scale p) = Some p)"
  by (auto simp: map_source_type_def map_numeric_def Let_def precision_new_def split: if_splits option.splits)

definition field_for :: "column_descriptor \<Rightarrow> field \<Rightarrow> bool" where
  "field_for c f \<longleftrightarrow> field_name f = cd_name c \<and> field_is_key f = cd_is_key c \<and>
     field_nullable f = (\<not> cd_is_key c) \<and> field_name f \<notin> set system_column_names \<and>
     (\<exists>t. map_source_type (type_oid c) (type_modifier c) = Inr t \<and> field_logical f = tm_logical t \<and>
       (\<forall>p. field_logical f = Decimal p \<longrightarrow> precision_new (digits p) (scale p) = Some p))"

lemma onboard_columns_Inr:
  "onboard_columns table cs = Inr fs \<Longrightarrow> list_all2 field_for cs fs"
proof (induction cs arbitrary: fs)
  case (Cons c cs)
  then obtain t gs where t: "cd_name c \<notin> set system_column_names" "map_source_type (type_oid c) (type_modifier c) = Inr t"
      "onboard_columns table cs = Inr gs"
      "fs = \<lparr>field_name = cd_name c, field_logical = tm_logical t, field_nullable = \<not> cd_is_key c,
                 field_is_key = cd_is_key c\<rparr> # gs"
    by (auto split: if_splits sum.splits)
  then show ?case
    using Cons.IH map_source_type_supported [OF t(2)] by (auto simp: field_for_def)
qed simp

lemma onboard_columns_Inl:
  "onboard_columns table cs = Inl e \<Longrightarrow>
     \<exists>c \<in> set cs. e = ReservedColumn table (cd_name c) \<and> cd_name c \<in> set system_column_names \<or>
       (\<exists>m. e = UnmappableColumn table (cd_name c) m \<and> map_source_type (type_oid c) (type_modifier c) = Inl m)"
  by (induction cs) (auto simp: and_then_Inl split: if_splits sum.splits)

lemma onboard_names:
  assumes "onboard_relation lower r = Inr ob" "distinct (map cd_name (rd_columns r))"
  shows "distinct (map fst (arrow_schema (schema ob)))"
proof -
  have f: "list_all2 field_for (rd_columns r) (schema ob)"
    using assms(1) by (auto simp: onboard_relation_def Let_def split: if_splits sum.splits dest: onboard_columns_Inr)
  then have "map field_name (schema ob) = map cd_name (rd_columns r)"
    by (induction rule: list_all2_induct) (auto simp: field_for_def)
  moreover from f have "\<forall>g \<in> set (schema ob). field_name g \<notin> set system_column_names"
    by (induction rule: list_all2_induct) (auto simp: field_for_def)
  then have "collides_with_system_column (schema ob) = None"
    by (simp add: collides_with_system_column_def find_None_iff_all)
  ultimately show ?thesis using assms(2) by (simp add: no_collision_distinct)
qed

text \<open>
  A table is onboarded whole or not at all. When it is, every source column has its field,
  in order, under its own name, with the exact type its declaration maps to, nullable exactly
  when it is not part of the key; no field shadows a provenance column, the stored schema
  names each column once, and both path segments are legal: lower-case letters, digits,
  underscores and hyphens, neither empty nor reserved, at most 64 bytes.
\<close>

theorem onboarding_is_whole:
  assumes "onboard_relation lower r = Inr ob" and "distinct (map cd_name (rd_columns r))"
  shows "rd_columns r \<noteq> [] \<and> list_all2 field_for (rd_columns r) (schema ob) \<and>
    distinct (map fst (arrow_schema (schema ob))) \<and>
    (strategy ob = Mergeable \<longleftrightarrow>
       list_ex cd_is_key (rd_columns r) \<and> rd_replica_identity r \<noteq> Identity_Nothing) \<and>
    (\<forall>seg \<in> {schema_segment (location ob), table_segment (location ob)}.
       seg_text seg \<noteq> [] \<and> length (seg_text seg) \<le> 64 \<and>
       (\<forall>c \<in> set (seg_text seg). safe_char c \<or> c = SEPARATOR) \<and> seg_text seg \<notin> set RESERVED_SEGMENTS)"
proof -
  obtain loc fields where o: "rd_columns r \<noteq> []" "resolve_location lower (rd_namespace r) (rd_name r) = Inr loc"
      "onboard_columns (qualified_name r) (rd_columns r) = Inr fields" "location ob = loc" "schema ob = fields"
      "strategy ob = (if has_identity fields \<and> identifies_rows (rd_replica_identity r) then Mergeable else AppendOnly)"
    using assms(1) by (auto simp: onboard_relation_def Let_def split: if_splits sum.splits)
  have fields: "list_all2 field_for (rd_columns r) fields" using onboard_columns_Inr [OF o(3)] .
  then have key: "list_ex field_is_key fields = list_ex cd_is_key (rd_columns r)"
    by (induction rule: list_all2_induct) (auto simp: field_for_def)
  obtain ss ts where s: "segment_for lower (rd_namespace r) = Inr ss" "segment_for lower (rd_name r) = Inr ts"
      "schema_segment loc = ss" "table_segment loc = ts"
    using o(2) by (auto simp: resolve_location_def)
  have "\<forall>seg \<in> {ss, ts}. seg_text seg \<noteq> [] \<and> length (seg_text seg) \<le> 64 \<and>
       (\<forall>c \<in> set (seg_text seg). safe_char c \<or> c = SEPARATOR) \<and> seg_text seg \<notin> set RESERVED_SEGMENTS"
    using segment_legal [OF s(1)] segment_legal [OF s(2)] by simp
  moreover have "strategy ob = Mergeable \<longleftrightarrow>
       list_ex cd_is_key (rd_columns r) \<and> rd_replica_identity r \<noteq> Identity_Nothing"
    using key by (simp add: o(6) has_identity_def identifies_rows_def)
  ultimately show ?thesis
    using o(1,4,5) s(3,4) fields onboard_names [OF assms] by simp
qed

definition sample_relation :: relation_descriptor where
  "sample_relation =
     \<lparr>rd_relation_id = 9, rd_namespace = ''sales'', rd_name = ''orders'', rd_replica_identity = Identity_Default,
      rd_columns = [\<lparr>cd_name = ''id'', type_oid = INT8, type_modifier = - 1, cd_is_key = True\<rparr>,
        \<lparr>cd_name = ''total'', type_oid = NUMERIC, type_modifier = numeric_modifier 18 4, cd_is_key = False\<rparr>]\<rparr>"

definition sample_fields :: "field list" where
  "sample_fields =
     [\<lparr>field_name = ''id'', field_logical = Int64, field_nullable = False, field_is_key = True\<rparr>,
      \<lparr>field_name = ''total'', field_logical = Decimal \<lparr>digits = 18, scale = 4\<rparr>, field_nullable = True,
       field_is_key = False\<rparr>]"

lemma sample_onboards:
  "onboard_relation lower sample_relation =
     Inr \<lparr>location = \<lparr>source_schema = ''sales'', source_table = ''orders'',
            schema_segment = \<lparr>seg_text = ''sales'', seg_class = Identity\<rparr>,
            table_segment = \<lparr>seg_text = ''orders'', seg_class = Identity\<rparr>\<rparr>,
          schema = sample_fields, strategy = Mergeable, warnings = []\<rparr>"
proof -
  have safe: "is_already_safe ''sales''" "is_already_safe ''orders''"
    by (simp_all add: is_already_safe_def MAX_SEGMENT_BYTES_def safe_char_def is_reserved_def RESERVED_SEGMENTS_def)
  have "map_source_type NUMERIC (numeric_modifier 18 4) =
      Inr \<lparr>tm_logical = Decimal \<lparr>digits = 18, scale = 4\<rparr>, lossless = True\<rparr>"
    by (rule map_numeric_modifier) (simp add: precision_new_def MAX_DIGITS_def)
  moreover have "map_source_type INT8 (- 1) = Inr \<lparr>tm_logical = Int64, lossless = True\<rparr>"
    by (simp add: map_source_type_def oid_defs)
  ultimately show ?thesis
    using safe
    by (simp add: onboard_relation_def sample_relation_def resolve_location_def segment_for_def has_identity_def
        identifies_rows_def is_fully_relatable_def is_identity_def system_column_names_def sample_fields_def)
qed

theorem onboarding_is_whole_witness:
  "\<exists>ob. onboard_relation id sample_relation = Inr ob \<and>
     list_all2 field_for (rd_columns sample_relation) (schema ob) \<and> strategy ob = Mergeable"
proof -
  have "distinct (map cd_name (rd_columns sample_relation))" by (simp add: sample_relation_def)
  from onboarding_is_whole [OF sample_onboards this] show ?thesis
    by (simp add: sample_onboards [of id])
qed

end
