(* ===== verification/Evolution.thy ===== *)
theory Evolution
  imports Schema_Model
begin

text \<open>
  Schema evolution, \<^verbatim>\<open>crates/sankhya-schema/src/evolve.rs\<close>: what changed between two shapes of a
  table, and whether it may be adopted without asking. The reason an incompatible change is
  refused with is the list of changes that block it; the code renders them as text.
\<close>

datatype schema_change =
    ColumnAdded string logical_type
  | ColumnWidened string logical_type logical_type
  | ColumnRelaxed string
  | ColumnDropped string
  | ColumnRetyped string logical_type logical_type
  | ColumnTightened string
  | ColumnAddedMandatory string
  | IdentityChanged
  | ColumnsReordered

datatype compatibility =
    Unchanged
  | Compatible "schema_change list"
  | Incompatible "schema_change list" "schema_change list"

fun may_continue :: "compatibility \<Rightarrow> bool" where
  "may_continue (Incompatible _ _) = False"
| "may_continue _ = True"

fun widens :: "logical_type \<Rightarrow> logical_type \<Rightarrow> bool" where
  "widens Int16 Int32 = True"
| "widens Int16 Int64 = True"
| "widens Int32 Int64 = True"
| "widens Float32 Float64 = True"
| "widens (Decimal a) (Decimal b) = (scale a = scale b \<and> digits b \<ge> digits a)"
| "widens _ _ = False"

definition find_field :: "logical_schema \<Rightarrow> string \<Rightarrow> field option" where
  "find_field s name = List.find (\<lambda>f. field_name f = name) s"

text \<open>The changes found so far and, of those, the ones that block.\<close>

type_synonym found = "schema_change list \<times> schema_change list"

definition note_change :: "schema_change \<Rightarrow> bool \<Rightarrow> found \<Rightarrow> found" where
  "note_change c blocks s = (fst s @ [c], if blocks then snd s @ [c] else snd s)"

definition note_dropped :: "logical_schema \<Rightarrow> field \<Rightarrow> found \<Rightarrow> found" where
  "note_dropped incoming f s =
     (if find_field incoming (field_name f) = None then note_change (ColumnDropped (field_name f)) True s else s)"

definition note_type :: "field \<Rightarrow> field \<Rightarrow> found \<Rightarrow> found" where
  "note_type existing f s =
     (if field_logical existing \<noteq> field_logical f
      then (if widens (field_logical existing) (field_logical f)
            then note_change (ColumnWidened (field_name f) (field_logical existing) (field_logical f)) False s
            else note_change (ColumnRetyped (field_name f) (field_logical existing) (field_logical f)) True s)
      else s)"

definition note_nullable :: "field \<Rightarrow> field \<Rightarrow> found \<Rightarrow> found" where
  "note_nullable existing f s =
     (if field_nullable existing \<noteq> field_nullable f
      then (if field_nullable f then note_change (ColumnRelaxed (field_name f)) False s
            else note_change (ColumnTightened (field_name f)) True s)
      else s)"

definition note_key :: "field \<Rightarrow> field \<Rightarrow> found \<Rightarrow> found" where
  "note_key existing f s =
     (if field_is_key existing \<noteq> field_is_key f \<and> IdentityChanged \<notin> set (fst s)
      then note_change IdentityChanged True s else s)"

definition note_field :: "logical_schema \<Rightarrow> field \<Rightarrow> found \<Rightarrow> found" where
  "note_field cur f s =
     (case find_field cur (field_name f) of
        None \<Rightarrow>
          if field_nullable f then note_change (ColumnAdded (field_name f) (field_logical f)) False s
          else note_change (ColumnAddedMandatory (field_name f)) True s
      | Some existing \<Rightarrow> note_key existing f (note_nullable existing f (note_type existing f s)))"

definition changes_between :: "logical_schema \<Rightarrow> logical_schema \<Rightarrow> found" where
  "changes_between cur incoming =
     (let s = fold (note_dropped incoming) cur ([], []);
          (changes, blocking) = fold (note_field cur) incoming s
      in if changes = [] \<and> map field_name cur \<noteq> map field_name incoming
         then (changes @ [ColumnsReordered], blocking) else (changes, blocking))"

definition classify_change :: "logical_schema \<Rightarrow> logical_schema \<Rightarrow> compatibility" where
  "classify_change cur incoming =
     (if cur = incoming then Unchanged
      else
        let (changes, blocking) = changes_between cur incoming
        in if blocking = [] then Compatible changes else Incompatible blocking changes)"

definition apply_compatible :: "logical_schema \<Rightarrow> logical_schema \<Rightarrow> logical_schema option" where
  "apply_compatible cur incoming =
     (case classify_change cur incoming of
        Unchanged \<Rightarrow> Some cur
      | Compatible _ \<Rightarrow> Some incoming
      | Incompatible _ _ \<Rightarrow> None)"

definition widened_decimal :: "precision \<Rightarrow> u8 \<Rightarrow> precision option" where
  "widened_decimal p extra = precision_new (word_saturating_add (digits p) extra) (scale p)"

subsection \<open>What a compatible change keeps\<close>

text \<open>
  A row stored under one field can be read under another: the column is there, its values fit
  its type, a null is allowed wherever there was one, and what identifies rows is unchanged.
\<close>

definition carries :: "field \<Rightarrow> field \<Rightarrow> bool" where
  "carries old new \<longleftrightarrow> field_name new = field_name old \<and>
     (field_logical new = field_logical old \<or> widens (field_logical old) (field_logical new)) \<and>
     (field_nullable old \<longrightarrow> field_nullable new) \<and> field_is_key new = field_is_key old"

definition readable_under :: "logical_schema \<Rightarrow> logical_schema \<Rightarrow> bool" where
  "readable_under old new \<longleftrightarrow>
     (\<forall>f \<in> set old. \<exists>g \<in> set new. carries f g) \<and>
     (\<forall>g \<in> set new. (\<forall>f \<in> set old. field_name f \<noteq> field_name g) \<longrightarrow> field_nullable g)"

lemma find_field_distinct:
  "distinct (map field_name s) \<Longrightarrow> find_field s n = Some f \<longleftrightarrow> f \<in> set s \<and> field_name f = n"
  unfolding find_field_def by (rule find_unique) (auto simp: distinct_map inj_on_def)

lemma find_field_None: "find_field s n = None \<longleftrightarrow> (\<forall>f \<in> set s. field_name f \<noteq> n)"
  by (simp add: find_field_def find_None_iff_all)

lemma fold_dropped:
  "snd (fold (note_dropped incoming) cur s) = [] \<longleftrightarrow>
     snd s = [] \<and> (\<forall>f \<in> set cur. find_field incoming (field_name f) \<noteq> None)"
  by (induction cur arbitrary: s) (auto simp: note_dropped_def note_change_def)

text \<open>The key change is noted once; it is always among the blocking ones.\<close>

definition key_blocks_once :: "found \<Rightarrow> bool" where
  "key_blocks_once s \<longleftrightarrow> (IdentityChanged \<in> set (fst s) \<longrightarrow> snd s \<noteq> [])"

lemma note_once:
  "key_blocks_once s \<Longrightarrow> key_blocks_once (note_dropped incoming f s)"
  "key_blocks_once s \<Longrightarrow> key_blocks_once (note_field cur f s)"
  by (auto simp: key_blocks_once_def note_dropped_def note_field_def note_key_def note_nullable_def note_type_def
      note_change_def split: option.splits)

definition admitted :: "logical_schema \<Rightarrow> field \<Rightarrow> bool" where
  "admitted cur f \<longleftrightarrow>
     (case find_field cur (field_name f) of
        None \<Rightarrow> field_nullable f
      | Some g \<Rightarrow> (field_logical f = field_logical g \<or> widens (field_logical g) (field_logical f)) \<and>
         (field_nullable g \<longrightarrow> field_nullable f) \<and> field_is_key f = field_is_key g)"

lemma note_field_clean:
  assumes "key_blocks_once s"
  shows "snd (note_field cur f s) = [] \<longleftrightarrow> snd s = [] \<and>
    admitted cur f"
  using assms
  by (auto simp: admitted_def key_blocks_once_def note_field_def note_key_def note_nullable_def note_type_def note_change_def
      split: option.splits)

lemma fold_field_clean:
  "key_blocks_once s \<Longrightarrow> snd (fold (note_field cur) fs s) = [] \<longleftrightarrow> snd s = [] \<and>
     (\<forall>f \<in> set fs. admitted cur f)"
proof (induction fs arbitrary: s)
  case (Cons f fs)
  then show ?case
    using Cons.IH [OF note_once(2) [OF Cons.prems]] note_field_clean [OF Cons.prems] by auto
qed simp

lemma fold_dropped_once: "key_blocks_once s \<Longrightarrow> key_blocks_once (fold (note_dropped incoming) cur s)"
  by (induction cur arbitrary: s) (simp_all add: note_once)

lemma changes_clean:
  assumes "distinct (map field_name cur)" "distinct (map field_name incoming)"
  shows "snd (changes_between cur incoming) = [] \<longleftrightarrow> readable_under cur incoming"
proof -
  have once: "key_blocks_once (fold (note_dropped incoming) cur ([], []))"
    by (rule fold_dropped_once) (simp add: key_blocks_once_def)
  have "snd (changes_between cur incoming) = snd (fold (note_field cur) incoming (fold (note_dropped incoming) cur ([], [])))"
    by (simp add: changes_between_def Let_def split: prod.splits)
  then have "snd (changes_between cur incoming) = [] \<longleftrightarrow>
     (\<forall>f \<in> set cur. find_field incoming (field_name f) \<noteq> None) \<and>
     (\<forall>f \<in> set incoming. admitted cur f)"
    by (simp add: fold_field_clean [OF once] fold_dropped)
  also have "\<dots> \<longleftrightarrow> readable_under cur incoming"
  proof
    assume h: "(\<forall>f \<in> set cur. find_field incoming (field_name f) \<noteq> None) \<and>
     (\<forall>f \<in> set incoming. admitted cur f)"
    have "\<exists>g \<in> set incoming. carries f g" if f: "f \<in> set cur" for f
    proof -
      from h f obtain g where g: "g \<in> set incoming" "field_name g = field_name f"
        by (auto simp: find_field_None)
      have "find_field cur (field_name g) = Some f" using f g(2) assms(1) by (simp add: find_field_distinct)
      with conjunct2 [OF h] g have "carries f g" by (auto simp: carries_def admitted_def)
      with g(1) show ?thesis by blast
    qed
    moreover have "field_nullable g" if "g \<in> set incoming" "\<forall>f \<in> set cur. field_name f \<noteq> field_name g" for g
    proof -
      have "find_field cur (field_name g) = None" using that(2) by (simp add: find_field_None)
      moreover have "admitted cur g" using conjunct2 [OF h] that(1) by blast
      ultimately show ?thesis by (simp add: admitted_def)
    qed
    ultimately show "readable_under cur incoming" by (auto simp: readable_under_def)
  next
    assume r: "readable_under cur incoming"
    have "find_field incoming (field_name f) \<noteq> None" if "f \<in> set cur" for f
    proof -
      from r that obtain g where "g \<in> set incoming" "field_name g = field_name f"
        unfolding readable_under_def carries_def by blast
      then show ?thesis unfolding find_field_None by blast
    qed
    moreover have "admitted cur f"
      if f: "f \<in> set incoming" for f
    proof (cases "find_field cur (field_name f)")
      case None
      then have "\<forall>g \<in> set cur. field_name g \<noteq> field_name f" by (simp add: find_field_None)
      with r f have "field_nullable f" by (simp add: readable_under_def)
      with None show ?thesis by (simp add: admitted_def)
    next
      case (Some g)
      then have g: "g \<in> set cur" "field_name g = field_name f" using assms(1) by (simp_all add: find_field_distinct)
      with r obtain g' where g': "g' \<in> set incoming" "carries g g'" by (auto simp: readable_under_def)
      with g(2) f assms(2) have "g' = f" by (auto simp: carries_def distinct_map inj_on_def)
      with g' Some show ?thesis by (auto simp: carries_def admitted_def)
    qed
    ultimately show "(\<forall>f \<in> set cur. find_field incoming (field_name f) \<noteq> None) \<and>
     (\<forall>f \<in> set incoming. admitted cur f)" by blast
  qed
  finally show ?thesis .
qed

lemma carries_refl: "carries f f"
  by (simp add: carries_def)

lemma apply_exact:
  assumes "distinct (map field_name cur)" "distinct (map field_name incoming)"
  shows "(may_continue (classify_change cur incoming) \<longleftrightarrow> readable_under cur incoming) \<and>
    apply_compatible cur incoming = (if readable_under cur incoming then Some incoming else None)"
proof (cases "cur = incoming")
  case True
  then have "readable_under cur incoming" using carries_refl by (auto simp: readable_under_def)
  with True show ?thesis by (simp add: classify_change_def apply_compatible_def)
next
  case False
  obtain cs bs where c: "changes_between cur incoming = (cs, bs)" by fastforce
  with changes_clean [OF assms] have "bs = [] \<longleftrightarrow> readable_under cur incoming" by simp
  with False c show ?thesis by (auto simp: classify_change_def apply_compatible_def)
qed



end
