(* ===== verification/Pipeline.thy ===== *)
theory Pipeline
  imports Batching Onboarding Evolution Ordered_Maps
begin

text \<open>
  The capture pipeline, \<^verbatim>\<open>crates/sankhya-ingest/src/pipeline.rs\<close>: messages are routed to the
  batcher of their table, and batches are published to the table's log. What the pipeline
  calls of the crates that encode and commit files (\<^verbatim>\<open>sankhya-table\<close>, \<^verbatim>\<open>sankhya-publish\<close>,
  \<^verbatim>\<open>sankhya-table-delta\<close>) is a \<open>store\<close>: functions over the warehouse \<open>'w\<close> and an encoded batch \<open>'b\<close>.
  A method that mutates \<open>self\<close> and may fail returns its result and the state it left.
\<close>

subsection \<open>The store\<close>

record written_file =
  wf_file :: string
  wf_rows :: nat
  wf_bytes :: u64

record rebased =
  rb_version :: u64
  rb_retries :: nat
  rb_written :: "written_file list"

text \<open>
  A table root is named by its path relative to the warehouse. The history lists the version
  of each action of the log, with the path when the action adds a file.
\<close>

record ('w, 'b) store =
  st_encode :: "logical_schema \<Rightarrow> mutation list \<Rightarrow> string + 'b"
  st_history :: "'w \<Rightarrow> string \<Rightarrow> string + (u64 \<times> string option) list"
  st_is_table :: "'w \<Rightarrow> string \<Rightarrow> bool"
  st_create :: "'w \<Rightarrow> string \<Rightarrow> logical_schema \<Rightarrow> (string + unit) \<times> 'w"
  st_append :: "'w \<Rightarrow> string \<Rightarrow> u64 \<Rightarrow> nat \<Rightarrow> string \<Rightarrow> 'b \<Rightarrow> lsn \<Rightarrow> (string + rebased) \<times> 'w"
  st_next_version :: "'w \<Rightarrow> string \<Rightarrow> u64"
  st_evolve :: "'w \<Rightarrow> string \<Rightarrow> u64 \<Rightarrow> logical_schema \<Rightarrow> (string + unit) \<times> 'w"

subsection \<open>State\<close>

text \<open>The kinds of failure, with the cause their texts render.\<close>

datatype pipe_error =
    Undecodable decode_error
  | Misconsumed nat nat
  | NotOnboarded onboarding_error
  | Unencodable string
  | NotCreated string
  | NotEvolved string
  | Unavailable string

datatype quarantine_reason =
    TruncatedAtSource
  | ShapeNotCarried onboarding_error
  | ShapeChanged "schema_change list"

record published_file =
  pf_table :: string
  pf_path :: string
  pf_rows :: nat
  pf_bytes :: u64
  pf_covers :: lsn

record stats =
  messages_decoded :: nat
  tables_onboarded :: nat
  rows_captured :: nat
  files_published :: nat
  bytes_published :: u64
  ps_unresolvable :: nat
  batches_skipped :: nat
  tables_quarantined :: nat
  schema_changes_applied :: nat
  ps_dead_lettered :: nat
  rows_skipped :: nat
  applied_through :: lsn

definition stats_default :: stats where
  "stats_default =
     \<lparr>messages_decoded = 0, tables_onboarded = 0, rows_captured = 0, files_published = 0,
      bytes_published = 0, ps_unresolvable = 0, batches_skipped = 0, tables_quarantined = 0,
      schema_changes_applied = 0, ps_dead_lettered = 0, rows_skipped = 0, applied_through = LSN_ZERO\<rparr>"

record table_state =
  ts_onboarded :: onboarded
  ts_batcher :: batcher
  ts_sequence :: u64
  ts_quarantine :: "quarantine_reason option"
  ts_pending :: "onboarded option"
  ts_dead_lettered :: nat
  ts_rebases :: nat
  ts_next_version :: u64
  published_through :: lsn

definition table_state_new :: "onboarded \<Rightarrow> batch_policy \<Rightarrow> table_state" where
  "table_state_new ob p =
     \<lparr>ts_onboarded = ob, ts_batcher = batcher_new p, ts_sequence = 0, ts_quarantine = None,
      ts_pending = None, ts_dead_lettered = 0, ts_rebases = 0, ts_next_version = 0,
      published_through = LSN_ZERO\<rparr>"

record pipeline =
  pl_policy :: batch_policy
  pl_tables :: "(u32 \<times> table_state) list"
  pl_open :: "message option"
  pl_warnings :: "onboarding_warning list"
  pl_stats :: stats

definition pipeline_new :: "batch_policy \<Rightarrow> pipeline" where
  "pipeline_new p =
     \<lparr>pl_policy = p, pl_tables = [], pl_open = None, pl_warnings = [], pl_stats = stats_default\<rparr>"

subsection \<open>Publishing one table\<close>

definition REBASE_ATTEMPTS :: nat where "REBASE_ATTEMPTS = 16"

text \<open>The last part of a path, without its extension and up to the version marker, as a number.\<close>

fun before_marker :: "string \<Rightarrow> string" where
  "before_marker [] = []"
| "before_marker (c # cs) = (if take 2 (c # cs) = ''-v'' then [] else c # before_marker cs)"

definition sequence_of :: "string \<Rightarrow> u64 option" where
  "sequence_of path =
     (case strip_suffix ''.parquet'' (last (split_on CHR ''/'' path)) of
        None \<Rightarrow> None
      | Some stem \<Rightarrow> parse_u64 (before_marker stem))"

definition add_sequences :: "(u64 \<times> string option) list \<Rightarrow> u64 list" where
  "add_sequences history =
     List.map_filter (\<lambda>(v, a). case a of None \<Rightarrow> None | Some path \<Rightarrow> sequence_of path) history"

definition recover_from :: "(u64 \<times> string option) list \<Rightarrow> table_state \<Rightarrow> table_state" where
  "recover_from history ts =
     (if history = [] then ts
      else
        let ts = ts\<lparr>ts_next_version := word_saturating_add (fst (last history)) 1\<rparr>
        in (case iter_max (add_sequences history) of
              None \<Rightarrow> ts
            | Some highest \<Rightarrow> ts\<lparr>ts_sequence := max (ts_sequence ts) (word_saturating_add highest 1)\<rparr>))"

definition file_name :: "u64 \<Rightarrow> string" where
  "file_name n =
     (let s = show_nat (unat n) in replicate (8 - length s) CHR ''0'' @ s @ ''.parquet'')"

definition root_of_table :: "table_state \<Rightarrow> string" where
  "root_of_table ts = relative_path (location (ts_onboarded ts))"

text \<open>What is committed is accounted for, in the table and in the totals.\<close>

definition account :: "lsn \<Rightarrow> rebased \<Rightarrow> stats \<Rightarrow> stats" where
  "account covers r s =
     s\<lparr>rows_captured := usize_saturating_add (rows_captured s) (sum_list (map wf_rows (rb_written r))),
       files_published := usize_saturating_add (files_published s) (length (rb_written r)),
       bytes_published := word_saturating_add (bytes_published s) (sum_list (map wf_bytes (rb_written r))),
       applied_through := (if covers > applied_through s then covers else applied_through s)\<rparr>"

definition published_files :: "string \<Rightarrow> lsn \<Rightarrow> rebased \<Rightarrow> published_file list" where
  "published_files table covers r =
     map (\<lambda>f. \<lparr>pf_table = table, pf_path = wf_file f, pf_rows = wf_rows f, pf_bytes = wf_bytes f,
               pf_covers = covers\<rparr>) (rb_written r)"

type_synonym ('w, 'a) outcome = "(pipe_error + 'a) \<times> table_state \<times> 'w \<times> stats"

definition commit_batch ::
    "('w, 'b) store \<Rightarrow> 'b \<Rightarrow> lsn \<Rightarrow> table_state \<Rightarrow> 'w \<Rightarrow> stats \<Rightarrow> ('w, published_file list) outcome" where
  "commit_batch st batch covers ts w s =
     (case st_append st w (root_of_table ts) (ts_next_version ts) REBASE_ATTEMPTS
             (file_name (ts_sequence ts)) batch covers of
        (Inl e, w') \<Rightarrow> (Inl (Unavailable e), ts\<lparr>ts_sequence := word_saturating_add (ts_sequence ts) 1\<rparr>, w', s)
      | (Inr r, w') \<Rightarrow>
          (Inr (published_files (source_table (location (ts_onboarded ts))) covers r),
           ts\<lparr>ts_sequence := word_saturating_add (ts_sequence ts) 1,
              ts_next_version := word_saturating_add (rb_version r) 1,
              ts_rebases := usize_saturating_add (ts_rebases ts) (rb_retries r),
              published_through := covers\<rparr>,
           w', account covers r s))"

text \<open>A table without a log is created before its first batch.\<close>

definition ensure_table ::
    "('w, 'b) store \<Rightarrow> table_state \<Rightarrow> 'w \<Rightarrow> (string + unit) \<times> table_state \<times> 'w" where
  "ensure_table st ts w =
     (if ts_next_version ts = 0 \<and> \<not> st_is_table st w (root_of_table ts) then
        (case st_create st w (root_of_table ts) (schema (ts_onboarded ts)) of
           (Inl e, w') \<Rightarrow> (Inl e, ts, w')
         | (Inr _, w') \<Rightarrow> (Inr (), ts\<lparr>ts_next_version := 1\<rparr>, w'))
      else (Inr (), ts, w))"

definition publish_batch ::
    "('w, 'b) store \<Rightarrow> mutation list \<Rightarrow> lsn \<Rightarrow> table_state \<Rightarrow> 'w \<Rightarrow> stats \<Rightarrow> ('w, published_file list) outcome" where
  "publish_batch st ms covers ts w s =
     (case st_encode st (schema (ts_onboarded ts)) ms of
        Inl e \<Rightarrow> (Inl (Unencodable e), ts, w, s)
      | Inr batch \<Rightarrow>
          (case (if ts_next_version ts = 0 then st_history st w (root_of_table ts) else Inr []) of
             Inl e \<Rightarrow> (Inl (Unavailable e), ts, w, s)
           | Inr history \<Rightarrow>
               (let ts = (if ts_next_version ts = 0 then recover_from history ts else ts)
                in (case ensure_table st ts w of
                      (Inl e, ts', w') \<Rightarrow>
                        (Inl (NotCreated e), ts'\<lparr>ts_sequence := word_saturating_add (ts_sequence ts') 1\<rparr>, w', s)
                    | (Inr _, ts', w') \<Rightarrow> commit_batch st batch covers ts' w' s))))"

definition publish_table ::
    "('w, 'b) store \<Rightarrow> bool \<Rightarrow> table_state \<Rightarrow> 'w \<Rightarrow> stats \<Rightarrow> ('w, published_file list) outcome" where
  "publish_table st force ts w s =
     (if ts_quarantine ts \<noteq> None then (Inr [], ts, w, s)
      else if \<not> force \<and> due (ts_batcher ts) = None then (Inr [], ts, w, s)
      else
        let (plan, b) = flush (ts_batcher ts);
            ts = ts\<lparr>ts_batcher := b\<rparr>
        in (if plan_is_empty plan then (Inr [], ts, w, s)
            else
              let ms = filter (\<lambda>m. mu_commit_lsn m > published_through ts) (mp_mutations plan)
              in (if ms = [] then
                    (Inr [], ts, w, s\<lparr>batches_skipped := usize_saturating_add (batches_skipped s) 1\<rparr>)
                  else
                    let s = (if length ms < length (mp_mutations plan)
                             then s\<lparr>rows_skipped := usize_saturating_add (rows_skipped s)
                                      (length (mp_mutations plan) - length ms)\<rparr>
                             else s)
                    in publish_batch st ms (mp_covers_through plan) ts w s)))"

subsection \<open>The pipeline\<close>

text \<open>The loop over the tables, in key order, up to the first that fails.\<close>

fun publish_tables ::
    "('w, 'b) store \<Rightarrow> bool \<Rightarrow> (u32 \<times> table_state) list \<Rightarrow> 'w \<Rightarrow> stats \<Rightarrow>
     (pipe_error + published_file list) \<times> (u32 \<times> table_state) list \<times> 'w \<times> stats" where
  "publish_tables st force [] w s = (Inr [], [], w, s)"
| "publish_tables st force ((k, ts) # rest) w s =
     (case publish_table st force ts w s of
        (Inl e, ts', w', s') \<Rightarrow> (Inl e, (k, ts') # rest, w', s')
      | (Inr fs, ts', w', s') \<Rightarrow>
          (case publish_tables st force rest w' s' of
             (Inl e, rest', w'', s'') \<Rightarrow> (Inl e, (k, ts') # rest', w'', s'')
           | (Inr gs, rest', w'', s'') \<Rightarrow> (Inr (fs @ gs), (k, ts') # rest', w'', s'')))"

type_synonym ('w, 'a) step_result = "(pipe_error + 'a) \<times> pipeline \<times> 'w"

definition publish :: "('w, 'b) store \<Rightarrow> bool \<Rightarrow> pipeline \<Rightarrow> 'w \<Rightarrow> ('w, published_file list) step_result" where
  "publish st force p w =
     (case publish_tables st force (pl_tables p) w (pl_stats p) of
        (r, ts, w', s) \<Rightarrow> (r, p\<lparr>pl_tables := ts, pl_stats := s\<rparr>, w'))"

definition at_table :: "u32 \<Rightarrow> (table_state \<Rightarrow> table_state) \<Rightarrow> pipeline \<Rightarrow> pipeline" where
  "at_table k f p = p\<lparr>pl_tables := map (\<lambda>(l, ts). (l, if l = k then f ts else ts)) (pl_tables p)\<rparr>"

definition with_stats :: "(stats \<Rightarrow> stats) \<Rightarrow> pipeline \<Rightarrow> pipeline" where
  "with_stats f p = p\<lparr>pl_stats := f (pl_stats p)\<rparr>"

definition count_quarantined :: "stats \<Rightarrow> stats" where
  "count_quarantined s = s\<lparr>tables_quarantined := usize_saturating_add (tables_quarantined s) 1\<rparr>"

text \<open>The change reaches the log of a table that has one, at its next version.\<close>

definition evolve_log ::
    "('w, 'b) store \<Rightarrow> onboarded \<Rightarrow> table_state \<Rightarrow> 'w \<Rightarrow> (pipe_error + unit) \<times> table_state \<times> 'w" where
  "evolve_log st incoming ts w =
     (if st_is_table st w (root_of_table ts) then
        let at = (if ts_next_version ts = 0 then st_next_version st w (root_of_table ts) else ts_next_version ts)
        in (case st_evolve st w (root_of_table ts) at (schema incoming) of
              (Inl e, w') \<Rightarrow> (Inl (NotEvolved e), ts, w')
            | (Inr _, w') \<Rightarrow> (Inr (), ts\<lparr>ts_next_version := word_saturating_add at 1\<rparr>, w'))
      else (Inr (), ts, w))"

definition adopt_compatible ::
    "('w, 'b) store \<Rightarrow> u32 \<Rightarrow> onboarded \<Rightarrow> schema_change list \<Rightarrow> pipeline \<Rightarrow> 'w \<Rightarrow> ('w, unit) step_result" where
  "adopt_compatible st k incoming changes p w =
     (case publish st True p w of
        (Inl e, p', w') \<Rightarrow> (Inl e, p', w')
      | (Inr _, p', w') \<Rightarrow>
          (case map_of (pl_tables p') k of
             None \<Rightarrow> (Inr (), p', w')
           | Some ts \<Rightarrow>
               (case evolve_log st incoming ts w' of
                  (Inl e, ts', w'') \<Rightarrow> (Inl e, at_table k (\<lambda>_. ts') p', w'')
                | (Inr _, ts', w'') \<Rightarrow>
                    (Inr (),
                     with_stats (\<lambda>s. s\<lparr>schema_changes_applied :=
                         usize_saturating_add (schema_changes_applied s) (length changes)\<rparr>)
                       (at_table k (\<lambda>_. ts'\<lparr>ts_onboarded := incoming\<rparr>) p'), w''))))"

definition evolve_table ::
    "('w, 'b) store \<Rightarrow> (nat \<Rightarrow> nat) \<Rightarrow> relation_descriptor \<Rightarrow> table_state \<Rightarrow> pipeline \<Rightarrow> 'w \<Rightarrow> ('w, unit) step_result" where
  "evolve_table st lower r ts p w =
     (case onboard_relation lower r of
        Inl e \<Rightarrow>
          (Inr (), with_stats count_quarantined
             (at_table (rd_relation_id r)
                (\<lambda>ts. ts\<lparr>ts_quarantine := Some (ShapeNotCarried e), ts_pending := None\<rparr>) p), w)
      | Inr incoming \<Rightarrow>
          (case classify_change (schema (ts_onboarded ts)) (schema incoming) of
             Unchanged \<Rightarrow> (Inr (), p, w)
           | Compatible changes \<Rightarrow> adopt_compatible st (rd_relation_id r) incoming changes p w
           | Incompatible reason _ \<Rightarrow>
               (Inr (), with_stats count_quarantined
                  (at_table (rd_relation_id r)
                     (\<lambda>ts. ts\<lparr>ts_quarantine := Some (ShapeChanged reason), ts_pending := Some incoming\<rparr>) p), w)))"

definition onboard_table ::
    "('w, 'b) store \<Rightarrow> (nat \<Rightarrow> nat) \<Rightarrow> relation_descriptor \<Rightarrow> pipeline \<Rightarrow> 'w \<Rightarrow> ('w, unit) step_result" where
  "onboard_table st lower r p w =
     (case map_of (pl_tables p) (rd_relation_id r) of
        Some ts \<Rightarrow> evolve_table st lower r ts p w
      | None \<Rightarrow>
          (case onboard_relation lower r of
             Inl e \<Rightarrow> (Inl (NotOnboarded e), p, w)
           | Inr ob \<Rightarrow>
               (let ts = table_state_new ob (pl_policy p);
                    ts = (case pl_open p of None \<Rightarrow> ts | Some m \<Rightarrow> ts\<lparr>ts_batcher := accept m None (ts_batcher ts)\<rparr>)
                in (Inr (), p\<lparr>pl_warnings := pl_warnings p @ warnings ob,
                              pl_tables := bt_insert (rd_relation_id r) ts (pl_tables p),
                              pl_stats := (pl_stats p)\<lparr>tables_onboarded :=
                                usize_saturating_add (tables_onboarded (pl_stats p)) 1\<rparr>\<rparr>, w))))"

fun is_boundary :: "message \<Rightarrow> bool" where
  "is_boundary (Begin _ _ _) = True"
| "is_boundary (Commit _ _ _) = True"
| "is_boundary (StreamStart _ _) = True"
| "is_boundary (StreamCommit _ _ _ _) = True"
| "is_boundary (StreamAbort _ _) = True"
| "is_boundary _ = False"

fun opens :: "message \<Rightarrow> message option" where
  "opens (Begin l t x) = Some (Begin l t x)"
| "opens (StreamStart x b) = Some (StreamStart x b)"
| "opens _ = None"

definition truncate_one :: "pipeline \<Rightarrow> u32 \<Rightarrow> pipeline" where
  "truncate_one p k =
     (case map_of (pl_tables p) k of
        None \<Rightarrow> p
      | Some ts \<Rightarrow>
          if ts_quarantine ts = None
          then with_stats count_quarantined (at_table k (\<lambda>ts. ts\<lparr>ts_quarantine := Some TruncatedAtSource\<rparr>) p)
          else p)"

definition accept_boundary :: "message \<Rightarrow> pipeline \<Rightarrow> pipeline" where
  "accept_boundary m p =
     p\<lparr>pl_open := opens m,
       pl_tables := map (\<lambda>(k, ts). (k, ts\<lparr>ts_batcher := accept m None (ts_batcher ts)\<rparr>)) (pl_tables p)\<rparr>"

definition accept_row :: "message \<Rightarrow> u32 \<Rightarrow> pipeline \<Rightarrow> pipeline" where
  "accept_row m k p =
     (case map_of (pl_tables p) k of
        None \<Rightarrow> p
      | Some ts \<Rightarrow>
          if ts_quarantine ts \<noteq> None then
            with_stats (\<lambda>s. s\<lparr>ps_dead_lettered := usize_saturating_add (ps_dead_lettered s) 1\<rparr>)
              (at_table k (\<lambda>ts. ts\<lparr>ts_dead_lettered := usize_saturating_add (ts_dead_lettered ts) 1\<rparr>) p)
          else
            let b = accept m None (ts_batcher ts);
                added = unresolvable b - unresolvable (ts_batcher ts)
            in with_stats (\<lambda>s. s\<lparr>ps_unresolvable := usize_saturating_add (ps_unresolvable s) added\<rparr>)
                 (at_table k (\<lambda>ts. ts\<lparr>ts_batcher := b\<rparr>) p))"

definition route :: "message \<Rightarrow> pipeline \<Rightarrow> pipeline" where
  "route m p =
     (case m of
        Truncate rs _ _ \<Rightarrow> foldl truncate_one p rs
      | _ \<Rightarrow>
          if is_boundary m then accept_boundary m p
          else (case relation_id m of None \<Rightarrow> p | Some k \<Rightarrow> accept_row m k p))"

definition pipe_accept ::
    "('w, 'b) store \<Rightarrow> (nat \<Rightarrow> nat) \<Rightarrow> message \<Rightarrow> pipeline \<Rightarrow> 'w \<Rightarrow> ('w, unit) step_result" where
  "pipe_accept st lower m p w =
     (case m of
        Relation r \<Rightarrow>
          (case onboard_table st lower r p w of
             (Inl e, p', w') \<Rightarrow> (Inl e, p', w')
           | (Inr _, p', w') \<Rightarrow> (Inr (), route m p', w'))
      | _ \<Rightarrow> (Inr (), route m p, w))"

definition accept_bytes ::
    "('w, 'b) store \<Rightarrow> (nat \<Rightarrow> nat) \<Rightarrow> bytes \<Rightarrow> pipeline \<Rightarrow> 'w \<Rightarrow> ('w, unit) step_result" where
  "accept_bytes st lower bs p w =
     (case decode_prefix bs of
        Inl e \<Rightarrow> (Inl (Undecodable e), p, w)
      | Inr (m, consumed) \<Rightarrow>
          if consumed \<noteq> length bs then (Inl (Misconsumed consumed (length bs)), p, w)
          else pipe_accept st lower m
            (with_stats (\<lambda>s. s\<lparr>messages_decoded := usize_saturating_add (messages_decoded s) 1\<rparr>) p) w)"

definition quarantine_reason_of :: "pipeline \<Rightarrow> u32 \<Rightarrow> quarantine_reason option" where
  "quarantine_reason_of p k =
     (case map_of (pl_tables p) k of None \<Rightarrow> None | Some ts \<Rightarrow> ts_quarantine ts)"

definition adopt_pending_schema :: "u32 \<Rightarrow> pipeline \<Rightarrow> bool \<times> pipeline" where
  "adopt_pending_schema k p =
     (case map_of (pl_tables p) k of
        None \<Rightarrow> (False, p)
      | Some ts \<Rightarrow>
          (case ts_pending ts of
             None \<Rightarrow> (False, p)
           | Some pending \<Rightarrow>
               (True, at_table k (\<lambda>ts. ts\<lparr>ts_pending := None, ts_onboarded := pending, ts_quarantine := None\<rparr>) p)))"

definition pending_schema_columns :: "pipeline \<Rightarrow> u32 \<Rightarrow> nat option" where
  "pending_schema_columns p k =
     (case map_of (pl_tables p) k of
        None \<Rightarrow> None
      | Some ts \<Rightarrow> map_option (\<lambda>ob. length (schema ob)) (ts_pending ts))"

definition pending_rows :: "pipeline \<Rightarrow> nat" where
  "pending_rows p = sum_list (map (\<lambda>(k, ts). sealed_rows (ts_batcher ts)) (pl_tables p))"

definition pipe_open_rows :: "pipeline \<Rightarrow> nat" where
  "pipe_open_rows p = sum_list (map (\<lambda>(k, ts). open_rows (ts_batcher ts)) (pl_tables p))"

definition restore_published_position :: "u32 \<Rightarrow> lsn \<Rightarrow> pipeline \<Rightarrow> pipeline" where
  "restore_published_position k through p = at_table k (\<lambda>ts. ts\<lparr>published_through := through\<rparr>) p"

end
