(* ===== verification/Capture.thy ===== *)
theory Capture
  imports Pipeline
begin

text \<open>
  What the capture pipeline guarantees of one table's log across restarts. A session is one
  run of the pipeline over the messages the source resends, cut short wherever a publish fails;
  the next one starts from nothing but the position the log itself records.
\<close>

subsection \<open>Sessions\<close>

datatype table_event = T_Message message | T_Publish bool

fun run_session ::
    "('w, 'b) store \<Rightarrow> table_event list \<Rightarrow> table_state \<Rightarrow> 'w \<Rightarrow> stats \<Rightarrow> bool \<times> table_state \<times> 'w \<times> stats" where
  "run_session st [] ts w s = (True, ts, w, s)"
| "run_session st (T_Message m # es) ts w s =
     run_session st es (ts\<lparr>ts_batcher := accept m None (ts_batcher ts)\<rparr>) w s"
| "run_session st (T_Publish force # es) ts w s =
     (case publish_table st force ts w s of
        (Inl e, ts', w', s') \<Rightarrow> (False, ts', w', s')
      | (Inr _, ts', w', s') \<Rightarrow> run_session st es ts' w' s')"

fun message_of :: "table_event \<Rightarrow> (message \<times> row option) option" where
  "message_of (T_Message m) = Some (m, None)"
| "message_of (T_Publish _) = None"

definition stream_of :: "table_event list \<Rightarrow> stream" where
  "stream_of es = List.map_filter message_of es"

text \<open>
  What the log of a table holds and the position it records, and what the store promises of
  them: a batch is committed whole, with its position, or not at all; an error leaves open
  which; nothing else is touched, and creating a table puts no row into it.
\<close>

definition committed_to ::
    "('w \<Rightarrow> string \<Rightarrow> mutation list) \<Rightarrow> ('w \<Rightarrow> string \<Rightarrow> lsn) \<Rightarrow> string \<Rightarrow> mutation list \<Rightarrow> lsn \<Rightarrow> 'w \<Rightarrow> 'w \<Rightarrow> bool" where
  "committed_to contents at_lsn d ms covers w w' \<longleftrightarrow>
     contents w' d = contents w d @ ms \<and> at_lsn w' d = covers"

definition untouched ::
    "('w \<Rightarrow> string \<Rightarrow> mutation list) \<Rightarrow> ('w \<Rightarrow> string \<Rightarrow> lsn) \<Rightarrow> string \<Rightarrow> 'w \<Rightarrow> 'w \<Rightarrow> bool" where
  "untouched contents at_lsn d w w' \<longleftrightarrow> contents w' d = contents w d \<and> at_lsn w' d = at_lsn w d"

definition lawful ::
    "('w, 'b) store \<Rightarrow> ('w \<Rightarrow> string \<Rightarrow> mutation list) \<Rightarrow> ('w \<Rightarrow> string \<Rightarrow> lsn) \<Rightarrow> bool" where
  "lawful st contents at_lsn \<longleftrightarrow>
     (\<forall>sch ms b w d v n f covers r w'. st_encode st sch ms = Inr b \<longrightarrow> st_append st w d v n f b covers = (r, w') \<longrightarrow>
        (committed_to contents at_lsn d ms covers w w' \<or>
         \<not> is_ok r \<and> untouched contents at_lsn d w w')) \<and>
     (\<forall>w d sch r w'. st_create st w d sch = (r, w') \<longrightarrow> untouched contents at_lsn d w w')"

text \<open>
  What the source resends from a confirmed position on: the transactions committed after it, whole, in
  the order of their positions, up to wherever the session ends.
\<close>

definition resends :: "mutation list \<Rightarrow> lsn \<Rightarrow> stream \<Rightarrow> bool" where
  "resends full c ms \<longleftrightarrow> sorted_wrt (<) (c # commit_positions ms) \<and>
     committed_rows ms =
       filter (\<lambda>m. c < mu_commit_lsn m \<and> mu_commit_lsn m \<le> last (c # commit_positions ms)) full"

definition fresh :: "batch_policy \<Rightarrow> string \<Rightarrow> lsn \<Rightarrow> table_state \<Rightarrow> bool" where
  "fresh pol d through ts \<longleftrightarrow> ts_batcher ts = batcher_new pol \<and> root_of_table ts = d \<and>
     ts_quarantine ts = None \<and> published_through ts = through"

inductive session ::
    "('w, 'b) store \<Rightarrow> ('w \<Rightarrow> string \<Rightarrow> lsn) \<Rightarrow> mutation list \<Rightarrow> string \<Rightarrow> 'w \<Rightarrow> 'w \<Rightarrow> bool"
  for st at_lsn full d where
  session: "fresh pol d (at_lsn w d) ts \<Longrightarrow> c \<le> at_lsn w d \<Longrightarrow> resends full c (stream_of es) \<Longrightarrow>
     run_session st es ts w s = (ok, ts', w', s') \<Longrightarrow> session st at_lsn full d w w'"

definition rows_through :: "mutation list \<Rightarrow> lsn \<Rightarrow> mutation list" where
  "rows_through full p = filter (\<lambda>m. mu_commit_lsn m \<le> p) full"

subsection \<open>Rows and positions\<close>

lemma committed_at_positions:
  "m \<in> set (committed_rows ms) \<Longrightarrow> mu_commit_lsn m \<in> set (commit_positions ms)"
proof (induction ms rule: rev_induct)
  case (snoc mr ms)
  then show ?case
    by (auto simp: committed_rows_snoc commit_positions_snoc stamped_def split: option.splits)
qed (simp add: committed_rows_def)

lemma committed_rows_append:
  "\<exists>later. committed_rows (ms @ ns) = committed_rows ms @ later \<and>
     (\<exists>ps. commit_positions (ms @ ns) = commit_positions ms @ ps \<and> (\<forall>m \<in> set later. mu_commit_lsn m \<in> set ps))"
proof (induction ns rule: rev_induct)
  case (snoc mr ns)
  then obtain later ps where "committed_rows (ms @ ns) = committed_rows ms @ later"
      "commit_positions (ms @ ns) = commit_positions ms @ ps" "\<forall>m \<in> set later. mu_commit_lsn m \<in> set ps" by blast
  then show ?case
    using committed_rows_snoc [of "ms @ ns" mr] commit_positions_snoc [of "ms @ ns" mr]
    by (cases "commits (owner (ms @ ns)) (fst mr)") (auto simp: stamped_def)
qed simp

lemma sorted_bounds: "sorted_wrt (<) (c # ps) \<Longrightarrow> x \<in> set ps \<Longrightarrow> c < x \<and> (x :: lsn) \<le> last (c # ps)"
proof (induction ps arbitrary: c)
  case (Cons p ps)
  then show ?case by (cases ps) (auto intro: order.strict_implies_order)
qed simp

text \<open>A prefix of a resent stream is itself one.\<close>

lemma resends_prefix:
  assumes "resends full c (ms @ ns)"
  shows "resends full c ms"
proof -
  obtain later ps where l: "committed_rows (ms @ ns) = committed_rows ms @ later"
      "commit_positions (ms @ ns) = commit_positions ms @ ps" "\<forall>m \<in> set later. mu_commit_lsn m \<in> set ps"
    using committed_rows_append by metis
  let ?e = "last (c # commit_positions ms)" and ?f = "last (c # commit_positions (ms @ ns))"
  have sorted: "sorted_wrt (<) (c # commit_positions ms @ ps)"
    using assms l(2) by (simp add: resends_def)
  then have prefix: "sorted_wrt (<) (c # commit_positions ms)" by (simp add: sorted_wrt_append)
  have "?e \<in> set (c # commit_positions ms)" by (rule last_in_set) simp
  with sorted have after: "?e < x" if "x \<in> set ps" for x
    using that by (auto simp: sorted_wrt_append simp del: last.simps)
  have ef: "?e \<le> ?f"
  proof (cases ps)
    case Nil
    with l(2) show ?thesis by simp
  next
    case (Cons p qs)
    then have "?f \<in> set ps" using l(2) by simp
    with after show ?thesis by (auto intro: order.strict_implies_order)
  qed
  have "committed_rows ms = filter (\<lambda>m. mu_commit_lsn m \<le> ?e) (committed_rows (ms @ ns))"
  proof -
    have "filter (\<lambda>m. mu_commit_lsn m \<le> ?e) later = []"
      using l(3) after by (auto simp: filter_empty_conv not_le)
    moreover have "filter (\<lambda>m. mu_commit_lsn m \<le> ?e) (committed_rows ms) = committed_rows ms"
      using sorted_bounds [OF prefix] committed_at_positions by (simp add: filter_id_conv del: last.simps)
    ultimately show ?thesis by (simp add: l(1) del: last.simps)
  qed
  also have "\<dots> = filter (\<lambda>m. c < mu_commit_lsn m \<and> mu_commit_lsn m \<le> ?e) full"
    using assms ef by (auto simp: resends_def simp del: last.simps intro!: filter_cong)
  finally show ?thesis using prefix by (simp add: resends_def)
qed

lemma filter_sorted_split:
  assumes "sorted (map mu_commit_lsn full)" "p \<le> q"
  shows "rows_through full p @ filter (\<lambda>m. p < mu_commit_lsn m \<and> mu_commit_lsn m \<le> q) full = rows_through full q"
  using assms(1)
proof (induction full)
  case (Cons m full)
  show ?case
  proof (cases "mu_commit_lsn m \<le> p")
    case True
    with Cons assms(2) show ?thesis by (auto simp: rows_through_def)
  next
    case False
    with Cons.prems have "rows_through full p = []" by (auto simp: rows_through_def filter_empty_conv)
    with Cons False show ?thesis by (auto simp: rows_through_def)
  qed
qed (simp add: rows_through_def)

subsection \<open>One publish\<close>

definition same_table :: "table_state \<Rightarrow> table_state \<Rightarrow> bool" where
  "same_table ts ts' \<longleftrightarrow> root_of_table ts' = root_of_table ts \<and> ts_quarantine ts' = ts_quarantine ts \<and>
     ts_batcher ts' = ts_batcher ts"

lemma same_table_simps [simp]:
  "same_table ts (ts\<lparr>ts_sequence := n\<rparr>)" "same_table ts (ts\<lparr>ts_next_version := v\<rparr>)"
  by (simp_all add: same_table_def root_of_table_def)

lemma recover_same: "same_table ts (recover_from h ts) \<and> published_through (recover_from h ts) = published_through ts"
  by (auto simp: recover_from_def same_table_def root_of_table_def Let_def split: option.splits)

lemma ensure_outcome:
  assumes "lawful st contents at_lsn" "ensure_table st ts w = (r, ts', w')"
  shows "same_table ts ts' \<and> published_through ts' = published_through ts \<and>
    untouched contents at_lsn (root_of_table ts) w w'"
  using assms
  by (auto simp: ensure_table_def lawful_def same_table_def root_of_table_def untouched_def
      split: if_splits prod.splits sum.splits)

lemma commit_outcome:
  assumes "lawful st contents at_lsn" "st_encode st sch ms = Inr batch"
    and "commit_batch st batch covers ts w s = (r, ts', w', s')"
  shows "same_table ts ts' \<and>
    (committed_to contents at_lsn (root_of_table ts) ms covers w w' \<and> (is_ok r \<longrightarrow> published_through ts' = covers) \<or>
     \<not> is_ok r \<and> untouched contents at_lsn (root_of_table ts) w w')"
proof -
  obtain a w1 where a: "st_append st w (root_of_table ts) (ts_next_version ts) REBASE_ATTEMPTS
      (file_name (ts_sequence ts)) batch covers = (a, w1)" by fastforce
  with assms(1,2) have law: "committed_to contents at_lsn (root_of_table ts) ms covers w w1 \<or>
      \<not> is_ok a \<and> untouched contents at_lsn (root_of_table ts) w w1"
    unfolding lawful_def by blast
  show ?thesis
    using law a assms(3) by (cases a) (auto simp: commit_batch_def same_table_def root_of_table_def)
qed

lemma publish_batch_outcome:
  assumes "lawful st contents at_lsn" "publish_batch st ms covers ts w s = (r, ts', w', s')"
  shows "same_table ts ts' \<and>
    (committed_to contents at_lsn (root_of_table ts) ms covers w w' \<and> (is_ok r \<longrightarrow> published_through ts' = covers) \<or>
     \<not> is_ok r \<and> untouched contents at_lsn (root_of_table ts) w w')"
proof (cases "st_encode st (schema (ts_onboarded ts)) ms")
  case (Inl e)
  with assms(2) show ?thesis by (auto simp: publish_batch_def same_table_def untouched_def)
next
  case enc: (Inr batch)
  show ?thesis
  proof (cases "if ts_next_version ts = 0 then st_history st w (root_of_table ts) else Inr []")
    case (Inl e)
    with enc assms(2) show ?thesis by (auto simp: publish_batch_def same_table_def untouched_def)
  next
    case (Inr history)
    define t1 where "t1 = (if ts_next_version ts = 0 then recover_from history ts else ts)"
    have t1: "same_table ts t1" using recover_same [of ts history] by (simp add: t1_def same_table_def)
    obtain a t2 w2 where e: "ensure_table st t1 w = (a, t2, w2)" by (cases "ensure_table st t1 w") auto
    note eo = ensure_outcome [OF assms(1) e]
    have root: "root_of_table t2 = root_of_table ts" "root_of_table t1 = root_of_table ts"
      using t1 eo by (simp_all add: same_table_def)
    show ?thesis
    proof (cases a)
      case (Inl x)
      with enc Inr e assms(2) have "ts' = t2\<lparr>ts_sequence := word_saturating_add (ts_sequence t2) 1\<rparr>" "w' = w2" "\<not> is_ok r"
        by (auto simp: publish_batch_def t1_def [symmetric] Let_def)
      with eo t1 root show ?thesis by (auto simp: same_table_def root_of_table_def)
    next
      case (Inr u)
      with enc \<open>_ = Inr history\<close> e assms(2) have c: "commit_batch st batch covers t2 w2 s = (r, ts', w', s')"
        by (auto simp: publish_batch_def t1_def [symmetric] Let_def)
      from commit_outcome [OF assms(1) enc c] eo t1 root show ?thesis
        by (auto simp: same_table_def untouched_def committed_to_def)
    qed
  qed
qed

lemma publish_outcome:
  assumes "lawful st contents at_lsn" "ts_quarantine ts = None"
    and "publish_table st force ts w s = (r, ts', w', s')" and "flush (ts_batcher ts) = (plan, b)"
  defines "ms \<equiv> filter (\<lambda>m. mu_commit_lsn m > published_through ts) (mp_mutations plan)"
  shows "root_of_table ts' = root_of_table ts \<and> ts_quarantine ts' = None \<and>
    (\<not> force \<and> ts' = ts \<and> is_ok r \<and> w' = w \<or>
     ts_batcher ts' = b \<and>
     (ms = [] \<and> is_ok r \<and> published_through ts' = published_through ts \<and> w' = w \<or>
      ms \<noteq> [] \<and> committed_to contents at_lsn (root_of_table ts) ms (mp_covers_through plan) w w' \<and>
        (is_ok r \<longrightarrow> published_through ts' = mp_covers_through plan) \<or>
      \<not> is_ok r \<and> untouched contents at_lsn (root_of_table ts) w w'))"
proof -
  let ?ts = "ts\<lparr>ts_batcher := b\<rparr>"
  have root: "root_of_table ?ts = root_of_table ts" by (simp add: root_of_table_def)
  show ?thesis
  proof (cases "\<not> force \<and> due (ts_batcher ts) = None")
    case True
    with assms(2,3) show ?thesis by (auto simp: publish_table_def)
  next
    case go: False
    show ?thesis
    proof (cases "ms = []")
      case True
      with go assms(2,3,4) have "r = Inr []" "ts' = ?ts" "w' = w"
        by (auto simp: publish_table_def ms_def plan_is_empty_def Let_def split: if_splits)
      with True root assms(2) show ?thesis by simp
    next
      case False
      then have "mp_mutations plan \<noteq> []" by (auto simp: ms_def)
      with go False assms(2,3,4) obtain s1 where "publish_batch st ms (mp_covers_through plan) ?ts w s1 = (r, ts', w', s')"
        by (auto simp: publish_table_def ms_def plan_is_empty_def Let_def split: if_splits)
      from publish_batch_outcome [OF assms(1) this] False assms(2) root show ?thesis
        by (auto simp: same_table_def)
    qed
  qed
qed

subsection \<open>A session keeps the log exact\<close>

text \<open>
  In mid-session: the messages read so far went through the batcher, which gave the plans \<open>ps\<close>; the log
  holds what it held at the start, then the newer rows of those plans, and records the position the table
  state has.
\<close>

definition in_session ::
    "('w \<Rightarrow> string \<Rightarrow> mutation list) \<Rightarrow> ('w \<Rightarrow> string \<Rightarrow> lsn) \<Rightarrow> batch_policy \<Rightarrow> mutation list \<Rightarrow> string \<Rightarrow> lsn \<Rightarrow>
     stream \<Rightarrow> mutation_plan list \<Rightarrow> table_state \<Rightarrow> 'w \<Rightarrow> bool" where
  "in_session contents at_lsn pol held d start ms ps ts w \<longleftrightarrow>
     (\<exists>bes. run_batcher pol bes = (ps, ts_batcher ts) \<and> arrivals bes = ms) \<and>
     root_of_table ts = d \<and> ts_quarantine ts = None \<and>
     contents w d = held @ filter (\<lambda>m. start < mu_commit_lsn m) (concat (map mp_mutations ps)) \<and>
     at_lsn w d = published_through ts \<and> start \<le> published_through ts \<and>
     (published_through ts = start \<and> filter (\<lambda>m. start < mu_commit_lsn m) (concat (map mp_mutations ps)) = [] \<or>
      published_through ts \<in> mp_covers_through ` set ps \<and>
      (\<forall>m \<in> set (concat (map mp_mutations ps)). mu_commit_lsn m \<le> published_through ts))"

text \<open>What the log is to hold: the source's rows up to the position it records.\<close>

definition exact ::
    "('w \<Rightarrow> string \<Rightarrow> mutation list) \<Rightarrow> ('w \<Rightarrow> string \<Rightarrow> lsn) \<Rightarrow> mutation list \<Rightarrow> string \<Rightarrow> 'w \<Rightarrow> bool" where
  "exact contents at_lsn full d w \<longleftrightarrow> contents w d = rows_through full (at_lsn w d)"

lemma sorted_zero: "sorted_wrt (<) ((c :: lsn) # ps) \<Longrightarrow> sorted_wrt (<) (LSN_ZERO # ps)"
  by (auto simp: LSN_ZERO_def intro: le_less_trans [OF word_zero_le])

lemma plans_meet:
  assumes "run_batcher pol bes = (ps, b)" "resends full c (arrivals bes)"
  shows "meets (arrivals bes) ps b"
  using run_meets [OF assms(1)] sorted_zero assms(2) unfolding resends_def by blast

text \<open>
  Whatever prefix of the plans has reached the log, under the position of its last, what is
  there is exact.
\<close>

lemma plans_exact:
  assumes run: "run_batcher pol bes = (ps, b)" and res: "resends full c (arrivals bes)"
    and sorted: "sorted (map mu_commit_lsn full)" and c: "c \<le> start"
    and p: "start \<le> p" "p = start \<and> filter (\<lambda>m. start < mu_commit_lsn m) (concat (map mp_mutations ps)) = [] \<or>
      p \<in> mp_covers_through ` set ps \<and> (\<forall>m \<in> set (concat (map mp_mutations ps)). mu_commit_lsn m \<le> p)"
  shows "rows_through full start @ filter (\<lambda>m. start < mu_commit_lsn m) (concat (map mp_mutations ps)) = rows_through full p"
  using p(2)
proof
  assume "p = start \<and> filter (\<lambda>m. start < mu_commit_lsn m) (concat (map mp_mutations ps)) = []"
  then show ?thesis by simp
next
  assume q: "p \<in> mp_covers_through ` set ps \<and> (\<forall>m \<in> set (concat (map mp_mutations ps)). mu_commit_lsn m \<le> p)"
  let ?S = "committed_rows (arrivals bes)" and ?e = "last (c # commit_positions (arrivals bes))"
  note meet = plans_meet [OF run res]
  have S: "concat (map mp_mutations ps) @ sealed b = ?S"
    using run_tracks [OF run] by simp
  have sealed: "\<forall>m \<in> set (sealed b). p < mu_commit_lsn m"
    using meet q by (auto simp: meets_def)
  have full: "?S = filter (\<lambda>m. c < mu_commit_lsn m \<and> mu_commit_lsn m \<le> ?e) full"
    and pos: "sorted_wrt (<) (c # commit_positions (arrivals bes))"
    using res by (simp_all add: resends_def)
  show ?thesis
  proof (cases "p = start")
    case True
    with q have "filter (\<lambda>m. start < mu_commit_lsn m) (concat (map mp_mutations ps)) = []"
      by (simp add: filter_empty_conv not_less)
    with True show ?thesis by simp
  next
    case False
    with p(1) have less: "start < p" by simp
    have "p \<le> covers_through b" "covers_through b \<in> insert LSN_ZERO (set (commit_positions (arrivals bes)))"
      using q meet by (auto simp: meets_def)
    moreover have "0 < p" using less by (rule le_less_trans [OF word_zero_le])
    ultimately have "covers_through b \<in> set (commit_positions (arrivals bes))"
      by (auto simp: LSN_ZERO_def)
    from sorted_bounds [OF pos this] \<open>p \<le> covers_through b\<close> have pe: "p \<le> ?e" by (metis order.trans)
    have "filter (\<lambda>m. start < mu_commit_lsn m) (concat (map mp_mutations ps)) =
        filter (\<lambda>m. start < mu_commit_lsn m \<and> mu_commit_lsn m \<le> p) (concat (map mp_mutations ps))"
      using q by (intro filter_cong) auto
    also have "\<dots> = filter (\<lambda>m. start < mu_commit_lsn m \<and> mu_commit_lsn m \<le> p) (concat (map mp_mutations ps) @ sealed b)"
      using sealed by (simp add: filter_empty_conv not_le)
    also have "\<dots> = filter (\<lambda>m. start < mu_commit_lsn m \<and> mu_commit_lsn m \<le> p) full"
      unfolding S full filter_filter using c pe by (intro filter_cong) (auto simp del: last.simps)
    finally show ?thesis using filter_sorted_split [OF sorted p(1)] by simp
  qed
qed

lemma in_session_exact:
  assumes "in_session contents at_lsn pol (rows_through full start) d start ms ps ts w" "resends full c ms"
    and "sorted (map mu_commit_lsn full)" "c \<le> start"
  shows "exact contents at_lsn full d w"
proof -
  from assms(1) obtain bes where bes: "run_batcher pol bes = (ps, ts_batcher ts)" "arrivals bes = ms"
    by (auto simp: in_session_def)
  from plans_exact [OF bes(1) assms(2) [folded bes(2)] assms(3,4), of "published_through ts"] assms(1)
  show ?thesis by (auto simp: in_session_def exact_def)
qed

lemma in_session_message:
  assumes "in_session contents at_lsn pol held d start ms ps ts w"
  shows "in_session contents at_lsn pol held d start (ms @ [(m, None)]) ps
    (ts\<lparr>ts_batcher := accept m None (ts_batcher ts)\<rparr>) w"
proof -
  from assms obtain bes where bes: "run_batcher pol bes = (ps, ts_batcher ts)" "arrivals bes = ms"
    by (auto simp: in_session_def)
  then have "run_batcher pol (bes @ [Arrive m None]) = (ps, accept m None (ts_batcher ts))"
      "arrivals (bes @ [Arrive m None]) = ms @ [(m, None)]"
    by (simp_all add: run_snoc arrivals_snoc)
  then show ?thesis using assms by (auto simp: in_session_def root_of_table_def)
qed

lemma in_session_publish:
  assumes law: "lawful st contents at_lsn" and res: "resends full c ms"
    and sorted: "sorted (map mu_commit_lsn full)" and c: "c \<le> start"
    and ins: "in_session contents at_lsn pol (rows_through full start) d start ms ps ts w"
    and pub: "publish_table st force ts w s = (r, ts', w', s')"
  shows "if is_ok r
    then \<exists>ps'. in_session contents at_lsn pol (rows_through full start) d start ms ps' ts' w' \<and>
      (force \<longrightarrow> sealed (ts_batcher ts') = [])
    else exact contents at_lsn full d w'"
proof -
  from ins obtain bes where bes: "run_batcher pol bes = (ps, ts_batcher ts)" "arrivals bes = ms"
    by (auto simp: in_session_def)
  obtain plan b where fl: "flush (ts_batcher ts) = (plan, b)" by fastforce
  let ?new = "filter (\<lambda>m. mu_commit_lsn m > published_through ts) (mp_mutations plan)"
  have root: "root_of_table ts = d" "ts_quarantine ts = None"
    and held: "contents w d = rows_through full start @ filter (\<lambda>m. start < mu_commit_lsn m) (concat (map mp_mutations ps))"
    and lsn: "at_lsn w d = published_through ts" "start \<le> published_through ts"
    using ins by (simp_all add: in_session_def)
  have run: "run_batcher pol (bes @ [Flush]) = (ps @ [plan], b)" "arrivals (bes @ [Flush]) = ms"
    using bes fl by (simp_all add: run_snoc arrivals_snoc)
  have meet: "meets ms (ps @ [plan]) b" using plans_meet [OF run(1)] run(2) res by simp
  have plan: "mp_mutations plan = sealed (ts_batcher ts)" "sealed b = []"
    using fl by (auto simp: flush_def)
  have le_plan: "\<forall>m \<in> set (concat (map mp_mutations (ps @ [plan]))). mu_commit_lsn m \<le> mp_covers_through plan"
    using meet by (fastforce simp: meets_def sorted_wrt_append)
  have newer: "filter (\<lambda>m. start < mu_commit_lsn m) (mp_mutations plan) = ?new"
  proof (cases "published_through ts = start")
    case False
    then have "published_through ts \<in> mp_covers_through ` set ps" using ins by (simp add: in_session_def)
    then have "\<forall>m \<in> set (mp_mutations plan). published_through ts < mu_commit_lsn m"
      using meet by (auto simp: meets_def sorted_wrt_append)
    then have "\<forall>m \<in> set (mp_mutations plan). start < mu_commit_lsn m \<and> published_through ts < mu_commit_lsn m"
      using lsn(2) le_less_trans by blast
    then show ?thesis by simp
  qed simp
  have later: "start \<le> mp_covers_through plan" if "?new \<noteq> []"
  proof -
    from that obtain m where "m \<in> set (mp_mutations plan)" "published_through ts < mu_commit_lsn m"
      by (auto simp: filter_empty_conv)
    with le_plan lsn(2) show ?thesis by (force intro: order.trans less_imp_le)
  qed
  have committed: "exact contents at_lsn full d w'"
    if "?new \<noteq> []" "committed_to contents at_lsn d ?new (mp_covers_through plan) w w'"
  proof -
    have "rows_through full start @ filter (\<lambda>m. start < mu_commit_lsn m) (concat (map mp_mutations (ps @ [plan]))) =
        rows_through full (mp_covers_through plan)"
      using later [OF that(1)] le_plan
      by (intro plans_exact [OF run(1) res [folded run(2)] sorted c]) auto
    then show ?thesis
      using that(2) held newer by (simp add: exact_def committed_to_def)
  qed
  note out = publish_outcome [OF law root(2) pub fl]
  show ?thesis
  proof (cases "is_ok r")
    case ok: True
    consider "\<not> force" "ts' = ts" "w' = w"
      | "ts_batcher ts' = b" "?new = []" "published_through ts' = published_through ts" "w' = w"
      | "ts_batcher ts' = b" "?new \<noteq> []" "committed_to contents at_lsn d ?new (mp_covers_through plan) w w'"
        "published_through ts' = mp_covers_through plan"
      using out ok root(1) by auto
    then have "\<exists>ps'. in_session contents at_lsn pol (rows_through full start) d start ms ps' ts' w' \<and>
      (force \<longrightarrow> sealed (ts_batcher ts') = [])"
    proof cases
      case 1
      with ins show ?thesis by auto
    next
      case 2
      have "in_session contents at_lsn pol (rows_through full start) d start ms (ps @ [plan]) ts' w'"
        unfolding in_session_def
      proof (intro conjI)
        show "\<exists>bes. run_batcher pol bes = (ps @ [plan], ts_batcher ts') \<and> arrivals bes = ms"
          using run 2(1) by blast
        show "published_through ts' = start \<and>
            filter (\<lambda>m. start < mu_commit_lsn m) (concat (map mp_mutations (ps @ [plan]))) = [] \<or>
          published_through ts' \<in> mp_covers_through ` set (ps @ [plan]) \<and>
            (\<forall>m \<in> set (concat (map mp_mutations (ps @ [plan]))). mu_commit_lsn m \<le> published_through ts')"
          using ins 2(2,3) newer by (auto simp: in_session_def filter_empty_conv not_less)
      qed (use out root held lsn 2 newer in auto)
      with 2(1) plan(2) show ?thesis by auto
    next
      case 3
      have "in_session contents at_lsn pol (rows_through full start) d start ms (ps @ [plan]) ts' w'"
        unfolding in_session_def
      proof (intro conjI)
        show "\<exists>bes. run_batcher pol bes = (ps @ [plan], ts_batcher ts') \<and> arrivals bes = ms"
          using run 3(1) by blast
        show "published_through ts' = start \<and>
            filter (\<lambda>m. start < mu_commit_lsn m) (concat (map mp_mutations (ps @ [plan]))) = [] \<or>
          published_through ts' \<in> mp_covers_through ` set (ps @ [plan]) \<and>
            (\<forall>m \<in> set (concat (map mp_mutations (ps @ [plan]))). mu_commit_lsn m \<le> published_through ts')"
          using 3(4) le_plan by auto
      qed (use out root held 3 newer later [OF 3(2)] in \<open>auto simp: committed_to_def\<close>)
      with 3(1) plan(2) show ?thesis by auto
    qed
    with ok show ?thesis by simp
  next
    case False
    then have "committed_to contents at_lsn d ?new (mp_covers_through plan) w w' \<and> ?new \<noteq> [] \<or>
        untouched contents at_lsn d w w'"
      using out root(1) by auto
    then show ?thesis
      using committed in_session_exact [OF ins res sorted c] False
      by (auto simp: exact_def untouched_def)
  qed
qed

lemma stream_of_simps [simp]:
  "stream_of [] = []" "stream_of (T_Message m # es) = (m, None) # stream_of es"
  "stream_of (T_Publish force # es) = stream_of es"
  by (simp_all add: stream_of_def map_filter_simps List.map_filter_def)

lemma run_session_exact:
  assumes "lawful st contents at_lsn" "sorted (map mu_commit_lsn full)" "c \<le> start"
    and "in_session contents at_lsn pol (rows_through full start) d start ms ps ts w"
    and "resends full c (ms @ stream_of es)"
    and "run_session st es ts w s = (ok, ts', w', s')"
  shows "exact contents at_lsn full d w' \<and>
    (ok \<longrightarrow> (\<exists>ps'. in_session contents at_lsn pol (rows_through full start) d start (ms @ stream_of es) ps' ts' w') \<and>
       (es \<noteq> [] \<and> last es = T_Publish True \<longrightarrow> sealed (ts_batcher ts') = []))"
  using assms
proof (induction st es ts w s arbitrary: ms ps rule: run_session.induct)
  case (1 st ts w s)
  then show ?case
    using in_session_exact [OF 1(4) _ 1(2,3)] by auto
next
  case (2 st m es ts w s)
  from "2.IH" [OF "2.prems"(1-3) in_session_message [OF "2.prems"(4), of m]] "2.prems"(5,6)
  have ih: "exact contents at_lsn full d w' \<and>
    (ok \<longrightarrow> (\<exists>ps'. in_session contents at_lsn pol (rows_through full start) d start
         ((ms @ [(m, None)]) @ stream_of es) ps' ts' w') \<and>
       (es \<noteq> [] \<and> last es = T_Publish True \<longrightarrow> sealed (ts_batcher ts') = []))"
    by simp
  then show ?case by simp
next
  case (3 st force es ts w s)
  obtain r t1 w1 s1 where pub: "publish_table st force ts w s = (r, t1, w1, s1)"
    by (cases "publish_table st force ts w s") auto
  have res: "resends full c ms" using "3.prems"(5) resends_prefix by simp
  note step = in_session_publish [OF "3.prems"(1) res "3.prems"(2,3,4) pub]
  show ?case
  proof (cases r)
    case (Inl e)
    with pub "3.prems"(6) step show ?thesis by simp
  next
    case (Inr fs)
    with step obtain ps' where ps': "in_session contents at_lsn pol (rows_through full start) d start ms ps' t1 w1"
        "force \<longrightarrow> sealed (ts_batcher t1) = []" by auto
    from pub Inr "3.prems"(6) have run: "run_session st es t1 w1 s1 = (ok, ts', w', s')" by simp
    show ?thesis
    proof (cases es)
      case Nil
      with run have "ok" "ts' = t1" "w' = w1" by auto
      with Nil ps' in_session_exact [OF ps'(1) res "3.prems"(2,3)] show ?thesis by auto
    next
      case (Cons e es')
      have "exact contents at_lsn full d w' \<and>
    (ok \<longrightarrow> (\<exists>ps'. in_session contents at_lsn pol (rows_through full start) d start (ms @ stream_of es) ps' ts' w') \<and>
       (es \<noteq> [] \<and> last es = T_Publish True \<longrightarrow> sealed (ts_batcher ts') = []))"
        using "3.IH" [OF pub [symmetric] Inr refl refl] "3.prems"(1-3,5) ps'(1) run Cons by simp
      with Cons show ?thesis by simp
    qed
  qed
qed

text \<open>A session that starts on an exact log leaves it exact, and a last forced publish leaves nothing out.\<close>

lemma session_exact:
  assumes "lawful st contents at_lsn" "sorted (map mu_commit_lsn full)" "exact contents at_lsn full d w"
    and "fresh pol d (at_lsn w d) ts" "c \<le> at_lsn w d" "resends full c (stream_of es)"
    and "run_session st es ts w s = (ok, ts', w', s')"
  shows "exact contents at_lsn full d w' \<and>
    (ok \<and> es \<noteq> [] \<and> last es = T_Publish True \<longrightarrow>
       (\<forall>m \<in> set (committed_rows (stream_of es)). mu_commit_lsn m \<le> at_lsn w' d))"
proof -
  let ?start = "at_lsn w d"
  have "run_batcher pol [] = ([], batcher_new pol)" "arrivals [] = []"
    by (simp_all add: run_batcher_def arrivals_def List.map_filter_def)
  then have start: "in_session contents at_lsn pol (rows_through full ?start) d ?start [] [] ts w"
    using assms(3,4) by (auto simp: in_session_def fresh_def exact_def)
  note run = run_session_exact [OF assms(1,2,5) start, simplified, OF assms(6,7)]
  have "\<forall>m \<in> set (committed_rows (stream_of es)). mu_commit_lsn m \<le> at_lsn w' d"
    if caught: "ok" "es \<noteq> []" "last es = T_Publish True"
  proof -
    from run caught obtain ps' where fin: "in_session contents at_lsn pol (rows_through full ?start) d ?start (stream_of es) ps' ts' w'"
        "sealed (ts_batcher ts') = []" by blast
    then obtain bes where bes: "run_batcher pol bes = (ps', ts_batcher ts')" "arrivals bes = stream_of es"
      by (auto simp: in_session_def)
    from run_tracks [OF bes(1)] fin(2) bes(2)
    have "committed_rows (stream_of es) = concat (map mp_mutations ps')" by simp
    with fin(1) show ?thesis
      by (auto simp: in_session_def filter_empty_conv not_less simp del: set_concat)
  qed
  with run show ?thesis by blast
qed


text \<open>A store in memory: a log is its rows and the position of its last batch.\<close>

definition memory_store :: "(string \<Rightarrow> mutation list \<times> lsn, mutation list) store" where
  "memory_store =
     \<lparr>st_encode = (\<lambda>sch ms. Inr ms), st_history = (\<lambda>w d. Inr []), st_is_table = (\<lambda>w d. True),
      st_create = (\<lambda>w d sch. (Inr (), w)),
      st_append = (\<lambda>w d v n f b covers.
        (Inr \<lparr>rb_version = v, rb_retries = 0, rb_written = [\<lparr>wf_file = f, wf_rows = length b, wf_bytes = 0\<rparr>]\<rparr>,
         w(d := (fst (w d) @ b, covers)))),
      st_next_version = (\<lambda>w d. 1), st_evolve = (\<lambda>w d v sch. (Inr (), w))\<rparr>"

lemma memory_lawful: "lawful memory_store (\<lambda>w d. fst (w d)) (\<lambda>w d. snd (w d))"
  by (auto simp: lawful_def memory_store_def committed_to_def untouched_def)

definition sample_row :: "lsn \<Rightarrow> string \<Rightarrow> mutation" where
  "sample_row p v = \<lparr>mu_relation = 9, mu_op = Op_Insert, mu_row = [Some v], mu_commit_lsn = p\<rparr>"

definition sample_feed :: "table_event list" where
  "sample_feed =
     [T_Message (Begin 5 0 1), T_Message (Insert 9 [Value_Text ''a'']), T_Message (Commit 4 5 0),
      T_Message (Begin 8 0 2), T_Message (Insert 9 [Value_Text ''b'']), T_Publish True]"

definition sample_table :: table_state where
  "sample_table = table_state_new
     \<lparr>location = \<lparr>source_schema = ''s'', source_table = ''t'', schema_segment = \<lparr>seg_text = ''s'', seg_class = Identity\<rparr>,
        table_segment = \<lparr>seg_text = ''t'', seg_class = Identity\<rparr>\<rparr>,
      schema = [], strategy = AppendOnly, warnings = []\<rparr> batch_policy_default"

lemma sample_fresh: "fresh batch_policy_default ''s/t'' 0 sample_table"
  by (simp add: fresh_def sample_table_def table_state_new_def root_of_table_def relative_path_def LSN_ZERO_def)

lemma sample_stream: "committed_rows (stream_of sample_feed) = [sample_row 5 ''a'']"
  "commit_positions (stream_of sample_feed) = [5]"
  by (simp_all add: sample_feed_def committed_rows_def commit_positions_def committed_at_def rows_of_def owner_at_def
      owner_def apply_unchanged_def stamped_def sample_row_def upt_rec map_filter_simps)

lemma sample_resends: "resends [sample_row 5 ''a'', sample_row 8 ''b''] 0 (stream_of sample_feed)"
  by (simp add: resends_def sample_stream) (simp add: sample_row_def)

lemma sample_run:
  "\<exists>ts' s'. run_session memory_store sample_feed sample_table (\<lambda>_. ([], 0)) stats_default =
     (True, ts', (\<lambda>_. ([], 0))(''s/t'' := ([sample_row 5 ''a''], 5)), s')"
  by (simp add: sample_feed_def sample_table_def table_state_new_def batcher_new_def open_txn_def push_row_def
      apply_unchanged_def seal_def flush_def LSN_ZERO_def usize_saturating_add_def USIZE_MAX_def Let_def
      publish_table_def plan_is_empty_def publish_batch_def memory_store_def recover_from_def ensure_table_def
      commit_batch_def root_of_table_def relative_path_def sample_row_def)




end
