(* ===== verification/Routing.thy ===== *)
theory Routing
  imports Pipeline
begin

text \<open>
  The capture pipeline as a whole, \<^verbatim>\<open>crates/sankhya-ingest/src/pipeline.rs\<close>: every method of it
  is a step, and what its state always satisfies.
\<close>

inductive pipe_step ::
    "('w, 'b) store \<Rightarrow> (nat \<Rightarrow> nat) \<Rightarrow> pipeline \<times> 'w \<Rightarrow> pipeline \<times> 'w \<Rightarrow> bool"
  for st lower where
  bytes: "accept_bytes st lower bs p w = (r, p', w') \<Longrightarrow> pipe_step st lower (p, w) (p', w')"
| message: "pipe_accept st lower m p w = (r, p', w') \<Longrightarrow> pipe_step st lower (p, w) (p', w')"
| publish: "publish st force p w = (r, p', w') \<Longrightarrow> pipe_step st lower (p, w) (p', w')"
| adopt: "adopt_pending_schema k p = (b, p') \<Longrightarrow> pipe_step st lower (p, w) (p', w)"
| restore: "pipe_step st lower (p, w) (restore_published_position k through p, w)"
| outside: "pipe_step st lower (p, w) (p, w')"

fun opened_txn :: "message \<Rightarrow> u32 option" where
  "opened_txn (Begin _ _ x) = Some x"
| "opened_txn (StreamStart x _) = Some x"
| "opened_txn _ = None"

text \<open>
  A table is in step when its batcher reads the transaction the pipeline has open, and a shape
  waits to be adopted only while it is quarantined.
\<close>

definition in_step :: "message option \<Rightarrow> table_state \<Rightarrow> bool" where
  "in_step open ts \<longleftrightarrow>
     (\<forall>m. open = Some m \<longrightarrow> current (ts_batcher ts) = opened_txn m \<and> opened_txn m \<noteq> None) \<and>
     (ts_pending ts \<noteq> None \<longrightarrow> ts_quarantine ts \<noteq> None)"

definition pipe_inv :: "pipeline \<Rightarrow> bool" where
  "pipe_inv p \<longleftrightarrow> sorted_wrt (<) (map fst (pl_tables p)) \<and> (\<forall>(k, ts) \<in> set (pl_tables p). in_step (pl_open p) ts) \<and>
     (\<forall>m. pl_open p = Some m \<longrightarrow> opened_txn m \<noteq> None)"

lemma map_of_in: "map_of t k = Some v \<Longrightarrow> (k, v) \<in> set t"
  by (rule map_of_SomeD)

lemma inv_table: "pipe_inv p \<Longrightarrow> map_of (pl_tables p) k = Some ts \<Longrightarrow> in_step (pl_open p) ts"
  using map_of_in [of "pl_tables p" k ts] by (auto simp: pipe_inv_def)

lemma pipe_inv_tables:
  assumes "pipe_inv p" "map fst ts = map fst (pl_tables p)" "\<forall>(k, t) \<in> set ts. in_step (pl_open p) t"
  shows "pipe_inv (p\<lparr>pl_tables := ts, pl_stats := s\<rparr>)"
  using assms by (simp add: pipe_inv_def)

lemma pipe_inv_stats [simp]: "pipe_inv (with_stats f p) = pipe_inv p"
  by (simp add: pipe_inv_def with_stats_def)

lemma pipe_inv_at_table:
  "pipe_inv p \<Longrightarrow> (\<And>ts. in_step (pl_open p) ts \<Longrightarrow> in_step (pl_open p) (f ts)) \<Longrightarrow> pipe_inv (at_table k f p)"
  by (auto simp: pipe_inv_def at_table_def comp_def case_prod_beta image_iff split: if_splits)

subsection \<open>Publishing keeps step\<close>

definition undisturbed :: "table_state \<Rightarrow> table_state \<Rightarrow> bool" where
  "undisturbed ts ts' \<longleftrightarrow> current (ts_batcher ts') = current (ts_batcher ts) \<and> ts_pending ts' = ts_pending ts \<and>
     ts_quarantine ts' = ts_quarantine ts"

lemma undisturbed_in_step: "undisturbed ts ts' \<Longrightarrow> in_step open ts \<Longrightarrow> in_step open ts'"
  by (simp add: undisturbed_def in_step_def)

lemma undisturbed_recover: "undisturbed ts (recover_from h ts)"
  by (auto simp: recover_from_def undisturbed_def Let_def split: option.splits)

lemma undisturbed_ensure: "ensure_table st ts w = (r, ts', w') \<Longrightarrow> undisturbed ts ts'"
  by (auto simp: ensure_table_def undisturbed_def split: if_splits prod.splits sum.splits)

lemma undisturbed_commit: "commit_batch st batch covers ts w s = (r, ts', w', s') \<Longrightarrow> undisturbed ts ts'"
  by (auto simp: commit_batch_def undisturbed_def split: prod.splits sum.splits)

lemma undisturbed_batch:
  assumes "publish_batch st ms covers ts w s = (r, ts', w', s')"
  shows "undisturbed ts ts'"
proof -
  define t1 where "t1 h = (if ts_next_version ts = 0 then recover_from h ts else ts)" for h
  have 1: "undisturbed ts (t1 h)" for h using undisturbed_recover [of ts h] by (simp add: t1_def undisturbed_def)
  have "undisturbed ts ts' \<or> (\<exists>h a t2 w2. ensure_table st (t1 h) w = (a, t2, w2) \<and>
      (ts' = t2\<lparr>ts_sequence := word_saturating_add (ts_sequence t2) 1\<rparr> \<or>
       (\<exists>batch. commit_batch st batch covers t2 w2 s = (r, ts', w', s'))))"
    using assms
    by (auto simp: publish_batch_def t1_def undisturbed_def Let_def split: sum.splits prod.splits if_splits)
  then show ?thesis
    using 1 undisturbed_ensure undisturbed_commit by (fastforce simp: undisturbed_def)
qed

lemma undisturbed_table:
  assumes "publish_table st force ts w s = (r, ts', w', s')"
  shows "undisturbed ts ts'"
proof -
  have f: "undisturbed ts (ts\<lparr>ts_batcher := snd (flush (ts_batcher ts))\<rparr>)" by (simp add: undisturbed_def flush_def)
  have "ts' = ts \<or> ts' = ts\<lparr>ts_batcher := snd (flush (ts_batcher ts))\<rparr> \<or>
      (\<exists>ms c s1. publish_batch st ms c (ts\<lparr>ts_batcher := snd (flush (ts_batcher ts))\<rparr>) w s1 = (r, ts', w', s'))"
    using assms by (auto simp: publish_table_def Let_def split: prod.splits if_splits)
  then show ?thesis
    using f undisturbed_batch by (fastforce simp: undisturbed_def)
qed

lemma publish_tables_keep:
  "publish_tables st force ts w s = (r, ts', w', s') \<Longrightarrow> list_all2 (\<lambda>(k, t) (l, u). k = l \<and> undisturbed t u) ts ts'"
proof (induction st force ts w s arbitrary: r ts' w' s' rule: publish_tables.induct)
  case (2 st force k t rest w s)
  have same: "list_all2 (\<lambda>(k, t) (l, u). k = l \<and> undisturbed t u) rest rest"
    by (rule list_all2_refl) (auto simp: undisturbed_def)
  obtain a t1 w1 s1 where p: "publish_table st force t w s = (a, t1, w1, s1)"
    by (cases "publish_table st force t w s") auto
  note k = undisturbed_table [OF p]
  show ?case
  proof (cases a)
    case (Inl e)
    with 2(2) p k same show ?thesis by auto
  next
    case (Inr fs)
    obtain b rest' w2 s2 where q: "publish_tables st force rest w1 s1 = (b, rest', w2, s2)"
      by (cases "publish_tables st force rest w1 s1") auto
    from "2.IH" [OF p [symmetric] Inr refl refl q] have "list_all2 (\<lambda>(k, t) (l, u). k = l \<and> undisturbed t u) rest rest'" .
    with 2(2) p Inr q k show ?thesis by (cases b) auto
  qed
qed simp

lemma publish_inv:
  assumes "pipe_inv p" "publish st force p w = (r, p', w')"
  shows "pipe_inv p' \<and> pl_open p' = pl_open p"
proof -
  obtain ts s where t: "publish_tables st force (pl_tables p) w (pl_stats p) = (r, ts, w', s)"
      "p' = p\<lparr>pl_tables := ts, pl_stats := s\<rparr>"
    using assms(2) by (auto simp: publish_def split: prod.splits)
  note k = publish_tables_keep [OF t(1)]
  from k have "map fst ts = map fst (pl_tables p)"
    by (induction rule: list_all2_induct) auto
  moreover have "\<forall>(k, t) \<in> set ts. in_step (pl_open p) t"
  proof -
    have "\<forall>(k, t) \<in> set (pl_tables p). in_step (pl_open p) t" using assms(1) by (simp add: pipe_inv_def)
    with k show ?thesis
      by (induction rule: list_all2_induct) (auto intro: undisturbed_in_step)
  qed
  ultimately show ?thesis using pipe_inv_tables [OF assms(1)] t(2) by simp
qed

subsection \<open>Messages keep step\<close>

lemma opens_next: "opens m = Some m' \<Longrightarrow> next_owner m c = opened_txn m' \<and> opened_txn m' \<noteq> None"
  by (cases m) auto

lemma row_keeps_owner: "relation_id m = Some k \<Longrightarrow> next_owner m c = c"
  by (cases m) auto

lemma boundary_inv: "pipe_inv p \<Longrightarrow> pipe_inv (accept_boundary m p)"
  by (auto simp: pipe_inv_def accept_boundary_def in_step_def accept_sound comp_def case_prod_beta
      dest: opens_next [of m _ None] opens_next)

lemma row_inv: "pipe_inv p \<Longrightarrow> relation_id m = Some k \<Longrightarrow> pipe_inv (accept_row m k p)"
proof -
  assume inv: "pipe_inv p" and m: "relation_id m = Some k"
  show ?thesis
  proof (cases "map_of (pl_tables p) k")
    case (Some ts)
    then have "in_step (pl_open p) ts" using inv by (blast intro: inv_table)
    then have "in_step (pl_open p) (u\<lparr>ts_batcher := accept m None (ts_batcher ts)\<rparr>)" if "in_step (pl_open p) u" for u
      using that by (simp add: in_step_def accept_sound row_keeps_owner [OF m])
    moreover have "in_step (pl_open p) (u\<lparr>ts_dead_lettered := n\<rparr>)" if "in_step (pl_open p) u" for u n
      using that by (simp add: in_step_def)
    ultimately show ?thesis
      using inv Some by (auto simp: accept_row_def Let_def intro!: pipe_inv_at_table)
  qed (simp add: accept_row_def inv)
qed

lemma truncate_inv: "pipe_inv p \<Longrightarrow> pipe_inv (truncate_one p k)"
  by (auto simp: truncate_one_def in_step_def intro!: pipe_inv_at_table split: option.splits)

lemma truncates_inv: "pipe_inv p \<Longrightarrow> pipe_inv (foldl truncate_one p rs)"
  by (induction rs arbitrary: p) (simp_all add: truncate_inv)

lemma route_inv: "pipe_inv p \<Longrightarrow> pipe_inv (route m p)"
  by (cases m) (simp_all add: route_def boundary_inv row_inv truncates_inv)

lemma evolve_log_kept: "evolve_log st ob ts w = (r, ts', w') \<Longrightarrow> undisturbed ts ts'"
  by (auto simp: evolve_log_def undisturbed_def Let_def split: if_splits prod.splits sum.splits)

lemma adopt_compatible_inv:
  assumes inv: "pipe_inv p" and a: "adopt_compatible st k incoming changes p w = (r, p', w')"
  shows "pipe_inv p'"
proof -
  obtain x p1 w1 where pub: "publish st True p w = (x, p1, w1)" by (cases "publish st True p w") auto
  note inv1 = publish_inv [OF inv pub]
  show ?thesis
  proof (cases x)
    case (Inl e)
    with a pub inv1 show ?thesis by (simp add: adopt_compatible_def)
  next
    case (Inr fs)
    show ?thesis
    proof (cases "map_of (pl_tables p1) k")
      case None
      with a pub Inr inv1 show ?thesis by (simp add: adopt_compatible_def)
    next
      case (Some ts)
      obtain y ts2 w2 where ev: "evolve_log st incoming ts w1 = (y, ts2, w2)"
        by (cases "evolve_log st incoming ts w1") auto
      have "in_step (pl_open p1) ts" using inv1 Some by (blast intro: inv_table)
      then have "in_step (pl_open p1) ts2" using evolve_log_kept [OF ev] by (rule undisturbed_in_step [rotated])
      then have "in_step (pl_open p1) (ts2\<lparr>ts_onboarded := incoming\<rparr>)" "in_step (pl_open p1) ts2"
        by (simp_all add: in_step_def)
      with a pub Inr Some ev inv1 show ?thesis
        by (cases y) (auto simp: adopt_compatible_def intro!: pipe_inv_at_table)
    qed
  qed
qed

lemma evolve_table_inv:
  assumes "pipe_inv p" "evolve_table st lower rd ts p w = (r, p', w')"
  shows "pipe_inv p'"
  using assms
  by (auto simp: evolve_table_def in_step_def intro!: pipe_inv_at_table dest: adopt_compatible_inv
      split: sum.splits compatibility.splits)

lemma onboard_table_inv:
  assumes inv: "pipe_inv p" and o: "onboard_table st lower rd p w = (r, p', w')"
  shows "pipe_inv p'"
proof (cases "map_of (pl_tables p) (rd_relation_id rd)")
  case (Some ts)
  with assms show ?thesis by (auto simp: onboard_table_def dest: evolve_table_inv)
next
  case None
  show ?thesis
  proof (cases "onboard_relation lower rd")
    case (Inl e)
    with None assms show ?thesis by (simp add: onboard_table_def)
  next
    case (Inr ob)
    let ?new = "table_state_new ob (pl_policy p)"
    let ?ts = "case pl_open p of None \<Rightarrow> ?new | Some m \<Rightarrow> ?new\<lparr>ts_batcher := accept m None (ts_batcher ?new)\<rparr>"
    have "next_owner m None = opened_txn m" if "opened_txn m \<noteq> None" for m
      using that by (cases m) auto
    then have step: "in_step (pl_open p) ?ts"
      using inv by (auto simp: in_step_def pipe_inv_def accept_sound table_state_new_def batcher_new_def
          split: option.splits)
    have p': "pl_tables p' = bt_insert (rd_relation_id rd) ?ts (pl_tables p)" "pl_open p' = pl_open p"
      using o None Inr by (auto simp: onboard_table_def Let_def)
    have "sorted_wrt (<) (map fst (pl_tables p'))"
      using inv unfolding p' by (intro bt_insert_keys) (simp add: pipe_inv_def)
    moreover have "\<forall>(k, t) \<in> set (pl_tables p'). in_step (pl_open p') t"
      using bt_insert_set [of "rd_relation_id rd" ?ts "pl_tables p"] inv step unfolding p'
      by (auto simp: pipe_inv_def)
    ultimately show ?thesis using inv p'(2) by (simp add: pipe_inv_def)
  qed
qed

lemma accept_inv:
  assumes "pipe_inv p" "pipe_accept st lower m p w = (r, p', w')"
  shows "pipe_inv p'"
proof (cases m)
  case (Relation rd)
  obtain x p1 w1 where o: "onboard_table st lower rd p w = (x, p1, w1)"
    by (cases "onboard_table st lower rd p w") auto
  from onboard_table_inv [OF assms(1) o] show ?thesis
    using assms(2) o Relation by (cases x) (auto simp: pipe_accept_def route_inv)
qed (use assms in \<open>auto simp: pipe_accept_def route_inv\<close>)

lemma adopt_inv:
  assumes "pipe_inv p" "adopt_pending_schema k p = (b, p')"
  shows "pipe_inv p'"
  using assms
  by (auto simp: adopt_pending_schema_def in_step_def intro!: pipe_inv_at_table split: option.splits)

lemma step_inv: "pipe_step st lower (p, w) (p', w') \<Longrightarrow> pipe_inv p \<Longrightarrow> pipe_inv p'"
proof (induction "(p, w)" "(p', w')" rule: pipe_step.induct)
  case (bytes bs r)
  let ?q = "with_stats (\<lambda>s. s\<lparr>messages_decoded := usize_saturating_add (messages_decoded s) 1\<rparr>) p"
  from bytes have "p' = p \<or> (\<exists>m. pipe_accept st lower m ?q w = (r, p', w'))"
    by (auto simp: accept_bytes_def split: sum.splits prod.splits if_splits)
  with bytes(2) accept_inv [of ?q st lower _ w r p' w'] show ?case by auto
next
  case (restore k through)
  then show ?case
    by (auto simp: restore_published_position_def in_step_def intro!: pipe_inv_at_table)
qed (auto intro: accept_inv adopt_inv dest: publish_inv)

interpretation pipe_sys: transition_invariant "\<lambda>s. \<exists>pol. fst s = pipeline_new pol" "pipe_step st lower"
    "\<lambda>s. pipe_inv (fst s)" for st lower
proof unfold_locales
  show "\<exists>pol. fst s = pipeline_new pol \<Longrightarrow> pipe_inv (fst s)" for s :: "pipeline \<times> 'c"
    by (auto simp: pipeline_new_def pipe_inv_def)
  show "pipe_inv (fst s) \<Longrightarrow> pipe_step st lower s t \<Longrightarrow> pipe_inv (fst t)" for s t
    using step_inv [of st lower "fst s" "snd s" "fst t" "snd t"] by simp
qed

text \<open>
  A table joins the transaction it appears in. Whatever bytes, messages, publishes, adoptions
  and restarts of positions the pipeline has been through, failures included, as long as it has a
  transaction open every table's batcher is reading that transaction, however late the table was
  onboarded; tables have distinct identifiers in order; and a shape waits to be adopted only
  under quarantine.
\<close>

theorem tables_read_the_open_transaction:
  assumes "reachable (\<lambda>s. \<exists>pol. fst s = pipeline_new pol) (pipe_step st lower) (p, w)"
  shows "sorted_wrt (<) (map fst (pl_tables p)) \<and>
    (\<forall>(k, ts) \<in> set (pl_tables p).
       (\<forall>m. pl_open p = Some m \<longrightarrow> current (ts_batcher ts) = opened_txn m \<and> opened_txn m \<noteq> None) \<and>
       (ts_pending ts \<noteq> None \<longrightarrow> ts_quarantine ts \<noteq> None))"
  using pipe_sys.reachable_inv [OF assms] unfolding pipe_inv_def in_step_def by (auto simp: case_prod_beta)

definition idle_store :: "(unit, mutation list) store" where
  "idle_store =
     \<lparr>st_encode = (\<lambda>sch ms. Inr ms), st_history = (\<lambda>w d. Inr []), st_is_table = (\<lambda>w d. False),
      st_create = (\<lambda>w d sch. (Inr (), w)),
      st_append = (\<lambda>w d v n f b covers. (Inl ''offline'', w)),
      st_next_version = (\<lambda>w d. 1), st_evolve = (\<lambda>w d v sch. (Inr (), w))\<rparr>"

theorem tables_read_the_open_transaction_witness:
  "\<exists>p ts. reachable (\<lambda>s. \<exists>pol. fst s = pipeline_new pol) (pipe_step idle_store id) (p, ()) \<and>
     pl_tables p = [(9, ts)] \<and> current (ts_batcher ts) = Some 1"
proof -
  let ?R = "reachable (\<lambda>s :: pipeline \<times> unit. \<exists>pol. fst s = pipeline_new pol) (pipe_step idle_store id)"
  let ?p = "pipeline_new batch_policy_default"
  define p1 where "p1 = route (Begin 5 0 1) ?p"
  have "pipe_accept idle_store id (Begin 5 0 1) ?p () = (Inr (), p1, ())"
    by (simp add: pipe_accept_def p1_def)
  then have step: "pipe_step idle_store id (?p, ()) (p1, ())" by (rule pipe_step.message)
  have "?R (?p, ())" by (rule reach_initial) auto
  from reach_step [OF this step] have 1: "?R (p1, ())" .
  have p1: "pl_tables p1 = []" "pl_open p1 = Some (Begin 5 0 1)"
    by (simp_all add: p1_def route_def accept_boundary_def pipeline_new_def)
  obtain p2 where o: "onboard_table idle_store id sample_relation p1 () = (Inr (), p2, ())"
      "\<exists>ts. pl_tables p2 = [(9, ts)]" "pl_open p2 = Some (Begin 5 0 1)"
    by (simp add: onboard_table_def p1 sample_onboards Let_def) (simp add: sample_relation_def)
  then have "pipe_accept idle_store id (Relation sample_relation) p1 () = (Inr (), p2, ())"
    by (simp add: pipe_accept_def route_def)
  from reach_step [OF 1 pipe_step.message [OF this]] have 2: "?R (p2, ())" .
  from o(2) obtain ts where ts: "pl_tables p2 = [(9, ts)]" ..
  from tables_read_the_open_transaction [OF 2] ts o(3) have "current (ts_batcher ts) = Some 1" by simp
  with 2 ts show ?thesis by blast
qed

text \<open>
  Taking a batch to publish empties the batcher first: a publish that fails has dropped its
  rows, so a caller that carries on instead of restarting never publishes them.
\<close>

lemma failed_publish_drops_its_batch:
  assumes "ts_quarantine ts = None" "sealed (ts_batcher ts) \<noteq> []"
    and "\<forall>m \<in> set (sealed (ts_batcher ts)). published_through ts < mu_commit_lsn m"
    and "st_encode st (schema (ts_onboarded ts)) (sealed (ts_batcher ts)) = Inl e"
  shows "publish_table st True ts w s = (Inl (Unencodable e), ts\<lparr>ts_batcher := snd (flush (ts_batcher ts))\<rparr>, w, s) \<and>
    sealed (snd (flush (ts_batcher ts))) = []"
proof -
  have "filter (\<lambda>m. published_through ts < mu_commit_lsn m) (sealed (ts_batcher ts)) = sealed (ts_batcher ts)"
    using assms(3) by (simp add: filter_id_conv)
  with assms(1,2,4) show ?thesis
    by (simp add: publish_table_def flush_def plan_is_empty_def publish_batch_def Let_def)
qed

text \<open>
  A source that goes back to the shape the table has leaves the shape it had moved to waiting:
  adopting it then makes the table expect what the source no longer sends.
\<close>

lemma pending_shape_outlives_its_source:
  assumes "map_of (pl_tables p) (rd_relation_id r) = Some ts" "onboard_relation lower r = Inr incoming"
    and "schema incoming = schema (ts_onboarded ts)"
  shows "onboard_table st lower r p w = (Inr (), p, w)"
  using assms by (simp add: onboard_table_def evolve_table_def classify_change_def)

end
