(* ===== verification/Reconcile.thy ===== *)
theory Reconcile
  imports Codes Ordered_Maps "HOL-Library.Multiset"
begin

text \<open>
  Measuring that nothing was lost: \<^verbatim>\<open>crates/sankhya-ingest/src/reconcile.rs\<close> digests each side
  of a comparison, row by row, in any order and in parts.
\<close>

unbundle bit_operations_syntax

subsection \<open>Row digests\<close>

type_synonym row_values = "string option list"

definition FNV_OFFSET :: u128 where "FNV_OFFSET = 0x6c62272e07bb014262b821756295c58d"

definition FNV_PRIME :: u128 where "FNV_PRIME = 0x0000000001000000000000000000013b"

definition feed :: "u128 \<Rightarrow> u8 \<Rightarrow> u128" where
  "feed hash byte = (hash XOR ucast byte) * FNV_PRIME"

definition row_digest :: "row_values \<Rightarrow> u128" where
  "row_digest r =
     foldl (\<lambda>hash v.
        feed (case v of
            None \<Rightarrow> feed hash 0x00
          | Some text \<Rightarrow>
              foldl feed (foldl feed (feed hash 0x01) (be_bytes (of_nat (length text) :: u64))) (bytes_of text)) 0xFF)
       FNV_OFFSET r"

text \<open>The digest is the hash of one byte sequence, the canonical encoding of the row.\<close>

definition value_bytes :: "string option \<Rightarrow> bytes" where
  "value_bytes v =
     (case v of
        None \<Rightarrow> [0x00]
      | Some text \<Rightarrow> [0x01] @ be_bytes (of_nat (length text) :: u64) @ bytes_of text) @ [0xFF]"

definition canonical :: "row_values \<Rightarrow> bytes" where
  "canonical r = concat (map value_bytes r)"

lemma row_digest_canonical: "row_digest r = foldl feed FNV_OFFSET (canonical r)"
proof -
  have "foldl (\<lambda>hash v.
      feed (case v of
          None \<Rightarrow> feed hash 0x00
        | Some text \<Rightarrow>
            foldl feed (foldl feed (feed hash 0x01) (be_bytes (of_nat (length text) :: u64))) (bytes_of text)) 0xFF)
     h r = foldl feed h (canonical r)" for h
    by (induction r arbitrary: h) (simp_all add: canonical_def value_bytes_def split: option.split)
  then show ?thesis by (simp add: row_digest_def)
qed

text \<open>The encoding is canonical: it tells rows apart, nulls from empty texts included.\<close>

definition value_fits :: "string option \<Rightarrow> bool" where
  "value_fits v \<longleftrightarrow> (case v of None \<Rightarrow> True | Some t \<Rightarrow> fits t)"

lemma length_word_inj:
  "fits s \<Longrightarrow> fits t \<Longrightarrow> (of_nat (length s) :: u64) = of_nat (length t) \<longleftrightarrow> length s = length t"
  by (metis fits_def u64_of_len_def u64_of_len_inj)

lemma value_bytes_Some:
  assumes "fits s" "fits t" "be_bytes (of_nat (length s) :: u64) @ bytes_of s @ r = be_bytes (of_nat (length t) :: u64) @ bytes_of t @ q"
  shows "s = t \<and> r = q"
proof -
  have "(of_nat (length s) :: u64) = of_nat (length t) \<and> bytes_of s @ r = bytes_of t @ q"
    using assms(3) be_bytes_delimits [of "of_nat (length s) :: u64" "bytes_of s @ r" "of_nat (length t)" "bytes_of t @ q"]
    by simp
  moreover from this have "length s = length t"
    using assms(1,2) length_word_inj by blast
  ultimately show ?thesis
    by (metis append_eq_append_conv bytes_of_inj length_bytes_of)
qed

interpretation row_values_code: prefix_code value_bytes "\<lambda>v. v" value_fits
proof unfold_locales
  fix x y r s
  assume v: "value_fits x" "value_fits y" and eq: "value_bytes x @ r = value_bytes y @ s"
  show "x = y \<and> r = s"
  proof (cases x; cases y)
    fix a b
    assume xy: "x = Some a" "y = Some b"
    have "be_bytes (of_nat (length a) :: u64) @ bytes_of a @ (0xFF # r) =
        be_bytes (of_nat (length b) :: u64) @ bytes_of b @ (0xFF # s)"
      using eq xy by (simp add: value_bytes_def)
    moreover have "fits a" "fits b" using v xy by (simp_all add: value_fits_def)
    ultimately show ?thesis using value_bytes_Some [of a b "0xFF # r" "0xFF # s"] xy by simp
  qed (use eq in \<open>simp_all add: value_bytes_def\<close>)
qed (simp add: value_bytes_def)

lemma canonical_inj:
  assumes "\<forall>v \<in> set r. value_fits v" "\<forall>v \<in> set q. value_fits v" "canonical r = canonical q"
  shows "r = q"
  using row_values_code.concat_inj [OF assms(1,2)] assms(3) by (simp add: canonical_def)

subsection \<open>Table digests\<close>

record table_digest =
  td_rows :: u64
  checksum :: u128

definition digest_empty :: table_digest where
  "digest_empty = \<lparr>td_rows = 0, checksum = 0\<rparr>"

definition digest_add :: "table_digest \<Rightarrow> u128 \<Rightarrow> table_digest" where
  "digest_add t d = \<lparr>td_rows = word_saturating_add (td_rows t) 1, checksum = checksum t + d\<rparr>"

definition add_values :: "table_digest \<Rightarrow> row_values \<Rightarrow> table_digest" where
  "add_values t r = digest_add t (row_digest r)"

definition from_parts :: "u64 \<Rightarrow> u128 \<Rightarrow> table_digest" where
  "from_parts n c = \<lparr>td_rows = n, checksum = c\<rparr>"

definition digest_merge :: "table_digest \<Rightarrow> table_digest \<Rightarrow> table_digest" where
  "digest_merge a b = \<lparr>td_rows = word_saturating_add (td_rows a) (td_rows b), checksum = checksum a + checksum b\<rparr>"

text \<open>
  What lets a digest be computed in parts: combining is associative and commutative, the
  empty digest changes nothing, and adding an item is combining with its own digest.
\<close>

locale digest_monoid =
  fixes combine :: "'d \<Rightarrow> 'd \<Rightarrow> 'd"
    and neutral :: 'd
    and insert_item :: "'d \<Rightarrow> 'i \<Rightarrow> 'd"
  assumes assoc: "combine (combine a b) c = combine a (combine b c)"
    and commute: "combine a b = combine b a"
    and neutral [simp]: "combine neutral a = a"
    and inserts: "insert_item a i = combine a (insert_item neutral i)"
begin

definition whole :: "'i list \<Rightarrow> 'd" where
  "whole xs = foldl insert_item neutral xs"

lemma neutral_right [simp]: "combine a neutral = a"
  by (subst commute) simp

lemma fold_insert: "foldl insert_item a xs = combine a (whole xs)"
proof (induction xs rule: rev_induct)
  case (snoc x xs)
  have "foldl insert_item a (xs @ [x]) = combine (combine a (whole xs)) (insert_item neutral x)"
    using snoc inserts [of "combine a (whole xs)" x] by simp
  also have "\<dots> = combine a (insert_item (whole xs) x)"
    by (simp add: assoc inserts [of "whole xs" x])
  finally show ?case by (simp add: whole_def)
qed (simp add: whole_def)

lemma whole_append: "whole (xs @ ys) = combine (whole xs) (whole ys)"
  using fold_insert [of "whole xs" ys] by (simp add: whole_def)

lemma whole_Cons: "whole (x # xs) = combine (insert_item neutral x) (whole xs)"
  using fold_insert [of "insert_item neutral x" xs] by (simp add: whole_def)

lemma whole_concat: "whole (concat parts) = foldl combine neutral (map whole parts)"
proof (induction parts rule: rev_induct)
  case (snoc p parts)
  then show ?case by (simp add: whole_append)
qed (simp add: whole_def)

lemma whole_perm: "mset xs = mset ys \<Longrightarrow> whole xs = whole ys"
proof (induction xs arbitrary: ys)
  case (Cons x xs)
  then obtain us vs where ys: "ys = us @ x # vs" by (metis in_set_conv_decomp list.set_intros(1) mset_eq_setD)
  with Cons.prems have "mset xs = mset (us @ vs)" by simp
  from Cons.IH [OF this] ys show ?case
    by (simp add: whole_append whole_Cons) (metis assoc commute)
qed simp

end

lemma word_saturating_add_assoc:
  fixes a b c :: "'a::len word"
  shows "word_saturating_add (word_saturating_add a b) c = word_saturating_add a (word_saturating_add b c)"
proof -
  have "unat (word_saturating_add (word_saturating_add a b) c) = unat (word_saturating_add a (word_saturating_add b c))"
    unfolding unat_saturating_add by linarith
  then show ?thesis by (simp add: word_unat_eq_iff)
qed

lemma word_saturating_add_commute: "word_saturating_add a b = word_saturating_add b a"
  by (simp add: word_saturating_add_def add.commute)

lemma word_saturating_add_0 [simp]: "word_saturating_add a 0 = a" "word_saturating_add 0 a = a"
  by (simp_all add: word_saturating_add_def unsigned_less)

interpretation table: digest_monoid digest_merge digest_empty add_values
proof unfold_locales
  show "digest_merge digest_empty a = a" for a
    by (simp add: digest_merge_def digest_empty_def)
  show "add_values a i = digest_merge a (add_values digest_empty i)" for a i
    by (simp add: digest_merge_def digest_empty_def add_values_def digest_add_def)
  show "digest_merge a b = digest_merge b a" for a b
    by (simp add: digest_merge_def word_saturating_add_commute add.commute)
  show "digest_merge (digest_merge a b) c = digest_merge a (digest_merge b c)" for a b c
    by (simp add: digest_merge_def word_saturating_add_assoc add.assoc)
qed

definition digest_of :: "row_values list \<Rightarrow> table_digest" where
  "digest_of rows = foldl add_values digest_empty rows"

lemma digest_of_whole: "digest_of = table.whole"
  by (simp add: fun_eq_iff digest_of_def table.whole_def)

lemma digest_of_eq:
  "digest_of rows = \<lparr>td_rows = of_nat (min (length rows) (2 ^ 64 - 1)), checksum = sum_list (map row_digest rows)\<rparr>"
proof (induction rows rule: rev_induct)
  case (snoc r rows)
  have "word_saturating_add (of_nat (min (length rows) (2 ^ 64 - 1))) 1 = (of_nat (min (Suc (length rows)) (2 ^ 64 - 1)) :: u64)"
  proof -
    have "unat (word_saturating_add (of_nat (min (length rows) (2 ^ 64 - 1))) (1 :: u64)) =
        unat (of_nat (min (Suc (length rows)) (2 ^ 64 - 1)) :: u64)"
      unfolding unat_saturating_add by (auto simp: unat_of_nat min_def)
    then show ?thesis by (simp add: word_unat_eq_iff)
  qed
  with snoc show ?case
    by (simp add: digest_of_def add_values_def digest_add_def add.commute)
qed (simp add: digest_of_def digest_empty_def)

subsection \<open>Reconciliations\<close>

datatype table_discrepancy =
    MissingRows (expected_rows: u64) (observed_rows: u64)
  | ExtraRows (expected_rows: u64) (observed_rows: u64)
  | ContentMismatch (expected_sum: u128) (observed_sum: u128)

text \<open>The count the \<open>Display\<close> text of a discrepancy leads with.\<close>

fun rows_out :: "table_discrepancy \<Rightarrow> u64" where
  "rows_out (MissingRows e v) = word_saturating_sub e v"
| "rows_out (ExtraRows e v) = word_saturating_sub v e"
| "rows_out (ContentMismatch _ _) = 0"

type_synonym outcome = "table_discrepancy + table_digest"

type_synonym table_reconciliation = "(string \<times> outcome) list"

definition outcome_of :: "table_digest \<Rightarrow> table_digest \<Rightarrow> outcome" where
  "outcome_of expected observed =
     (if td_rows expected > td_rows observed then Inl (MissingRows (td_rows expected) (td_rows observed))
      else if td_rows observed > td_rows expected then Inl (ExtraRows (td_rows expected) (td_rows observed))
      else if checksum expected \<noteq> checksum observed then
        Inl (ContentMismatch (checksum expected) (checksum observed))
      else Inr observed)"

definition compare_tables :: "string \<Rightarrow> table_digest \<Rightarrow> table_digest \<Rightarrow> table_reconciliation \<Rightarrow> table_reconciliation" where
  "compare_tables t expected observed r = bt_insert t (outcome_of expected observed) r"

definition is_clean :: "table_reconciliation \<Rightarrow> bool" where
  "is_clean r \<longleftrightarrow> (\<forall>(_, v) \<in> set r. is_ok v)"

definition discrepancies :: "table_reconciliation \<Rightarrow> (string \<times> table_discrepancy) list" where
  "discrepancies r = List.map_filter (\<lambda>(t, v). case v of Inl d \<Rightarrow> Some (t, d) | Inr _ \<Rightarrow> None) r"

definition rows_reconciled :: "table_reconciliation \<Rightarrow> u64" where
  "rows_reconciled r = sum_list (List.map_filter (\<lambda>(_, v). case v of Inl _ \<Rightarrow> None | Inr d \<Rightarrow> Some (td_rows d)) r)"

text \<open>A reconciliation over several tables is a sequence of comparisons, one per table.\<close>

definition reconcile_all :: "(string \<times> row_values list list \<times> row_values list list) list \<Rightarrow> table_reconciliation" where
  "reconcile_all ts =
     fold (\<lambda>(t, es, vs). compare_tables t (foldl digest_merge digest_empty (map digest_of es))
        (foldl digest_merge digest_empty (map digest_of vs))) ts []"

lemma merged_parts: "foldl digest_merge digest_empty (map digest_of parts) = digest_of (concat parts)"
  by (simp add: digest_of_whole table.whole_concat)

lemma digest_of_perm: "mset xs = mset ys \<Longrightarrow> digest_of xs = digest_of ys"
  unfolding digest_of_whole by (rule table.whole_perm)

lemma checksum_digest_of: "checksum (digest_of rows) = sum_list (map row_digest rows)"
  by (simp only: digest_of_eq table_digest.simps)

lemma is_clean_discrepancies: "is_clean r \<longleftrightarrow> discrepancies r = []"
  by (induction r) (auto simp: is_clean_def discrepancies_def map_filter_simps split: sum.splits)

lemma sum_list_row_digest_perm:
  "mset xs = mset ys \<Longrightarrow> length xs = length ys \<and> sum_list (map row_digest xs) = sum_list (map row_digest ys)"
  by (metis mset_map size_mset sum_mset_sum_list)

lemma outcome_of_digests:
  assumes "length xs < 2 ^ 64" "length ys < 2 ^ 64"
  shows "outcome_of (digest_of xs) (digest_of ys) =
     (if length ys < length xs then Inl (MissingRows (of_nat (length xs)) (of_nat (length ys)))
      else if length xs < length ys then Inl (ExtraRows (of_nat (length xs)) (of_nat (length ys)))
      else if sum_list (map row_digest xs) \<noteq> sum_list (map row_digest ys)
        then Inl (ContentMismatch (sum_list (map row_digest xs)) (sum_list (map row_digest ys)))
      else Inr (digest_of ys))"
proof -
  have rows: "td_rows (digest_of zs) = of_nat (length zs)" if "length zs < 2 ^ 64" for zs
  proof -
    from that have "min (length zs) (2 ^ 64 - 1) = length zs" by linarith
    then show ?thesis by (simp only: digest_of_eq table_digest.simps)
  qed
  have less: "(of_nat m :: u64) < of_nat n \<longleftrightarrow> m < n" if "m < 2 ^ 64" "n < 2 ^ 64" for m n
    using that by (simp add: word_less_nat_alt unat_of_nat)
  show ?thesis
    by (simp only: outcome_of_def rows [OF assms(1)] rows [OF assms(2)] less [OF assms] less [OF assms(2,1)]
      checksum_digest_of)
qed

lemma is_ok_outcome_of:
  assumes "length xs < 2 ^ 64 \<and> length ys < 2 ^ 64"
  shows "is_ok (outcome_of (digest_of xs) (digest_of ys)) \<longleftrightarrow>
    length xs = length ys \<and> sum_list (map row_digest xs) = sum_list (map row_digest ys)"
  using assms by (auto simp: outcome_of_digests)

lemma reconcile_all_inserts:
  "reconcile_all ts =
     bt_insert_all (map (\<lambda>(t, es, vs). (t, outcome_of (digest_of (concat es)) (digest_of (concat vs)))) ts) []"
proof -
  have "fold (\<lambda>(t, es, vs). compare_tables t (foldl digest_merge digest_empty (map digest_of es))
      (foldl digest_merge digest_empty (map digest_of vs))) ts r =
    bt_insert_all (map (\<lambda>(t, es, vs). (t, outcome_of (digest_of (concat es)) (digest_of (concat vs)))) ts) r" for r
    unfolding merged_parts
    by (induction ts arbitrary: r) (auto simp: compare_tables_def)
  then show ?thesis by (simp add: reconcile_all_def)
qed

lemma reconcile_all_entries:
  assumes "distinct (map fst ts)"
  shows "set (reconcile_all ts) =
    (\<lambda>(t, es, vs). (t, outcome_of (digest_of (concat es)) (digest_of (concat vs)))) ` set ts"
proof -
  have "map fst (map (\<lambda>(t, es, vs). (t, outcome_of (digest_of (concat es)) (digest_of (concat vs)))) ts) = map fst ts"
    by (auto simp: case_prod_unfold)
  with assms show ?thesis
    by (simp only: reconcile_all_inserts set_bt_insert_all set_map)
qed

lemma clean_iff_tables_agree:
  assumes "distinct (map fst ts)"
  shows "is_clean (reconcile_all ts) \<longleftrightarrow>
    (\<forall>(t, es, vs) \<in> set ts. is_ok (outcome_of (digest_of (concat es)) (digest_of (concat vs))))"
  by (simp add: is_clean_def reconcile_all_entries [OF assms] case_prod_unfold)

text \<open>
  A reconciliation over any number of tables, each side of each digested in any number of
  parts and in any order, reports a table missing when fewer rows arrived, extra when more did,
  and a content mismatch when the counts agree but the digest sums do not; it is clean exactly when no
  table has any of these, and then the parts hold as many rows as were expected. Two sides that hold the
  same rows are never reported, and one row replaced by a row of another digest always is.
\<close>

theorem reconciliation_measures_content:
  assumes names: "distinct (map fst ts)"
    and sizes: "\<And>t es vs. (t, es, vs) \<in> set ts \<Longrightarrow> length (concat es) < 2 ^ 64 \<and> length (concat vs) < 2 ^ 64"
  shows "(is_clean (reconcile_all ts) \<longleftrightarrow>
           (\<forall>(t, es, vs) \<in> set ts. length (concat es) = length (concat vs) \<and>
              sum_list (map row_digest (concat es)) = sum_list (map row_digest (concat vs)))) \<and>
         (\<forall>(t, es, vs) \<in> set ts.
            (t, if length (concat vs) < length (concat es)
                then Inl (MissingRows (of_nat (length (concat es))) (of_nat (length (concat vs))))
                else if length (concat es) < length (concat vs)
                then Inl (ExtraRows (of_nat (length (concat es))) (of_nat (length (concat vs))))
                else if sum_list (map row_digest (concat es)) \<noteq> sum_list (map row_digest (concat vs))
                then Inl (ContentMismatch (sum_list (map row_digest (concat es))) (sum_list (map row_digest (concat vs))))
                else Inr (digest_of (concat vs))) \<in> set (reconcile_all ts)) \<and>
         ((\<forall>(t, es, vs) \<in> set ts. mset (concat es) = mset (concat vs)) \<longrightarrow> discrepancies (reconcile_all ts) = []) \<and>
         (\<forall>(t, es, vs) \<in> set ts. \<forall>x y rest. mset (concat es) = mset (x # rest) \<and>
             mset (concat vs) = mset (y # rest) \<and> row_digest x \<noteq> row_digest y \<longrightarrow>
               \<not> is_clean (reconcile_all ts))"
proof (intro conjI impI)
  have verdict: "\<forall>(t, es, vs) \<in> set ts. is_ok (outcome_of (digest_of (concat es)) (digest_of (concat vs))) \<longleftrightarrow>
      length (concat es) = length (concat vs) \<and>
      sum_list (map row_digest (concat es)) = sum_list (map row_digest (concat vs))"
    using sizes is_ok_outcome_of by fast
  then show clean: "is_clean (reconcile_all ts) \<longleftrightarrow>
      (\<forall>(t, es, vs) \<in> set ts. length (concat es) = length (concat vs) \<and>
         sum_list (map row_digest (concat es)) = sum_list (map row_digest (concat vs)))"
    unfolding clean_iff_tables_agree [OF names] by fast
  show "\<forall>(t, es, vs) \<in> set ts.
      (t, if length (concat vs) < length (concat es)
          then Inl (MissingRows (of_nat (length (concat es))) (of_nat (length (concat vs))))
          else if length (concat es) < length (concat vs)
          then Inl (ExtraRows (of_nat (length (concat es))) (of_nat (length (concat vs))))
          else if sum_list (map row_digest (concat es)) \<noteq> sum_list (map row_digest (concat vs))
          then Inl (ContentMismatch (sum_list (map row_digest (concat es))) (sum_list (map row_digest (concat vs))))
          else Inr (digest_of (concat vs))) \<in> set (reconcile_all ts)"
    using sizes by (force simp: reconcile_all_entries [OF names] outcome_of_digests)
  show "discrepancies (reconcile_all ts) = []"
    if "\<forall>(t, es, vs) \<in> set ts. mset (concat es) = mset (concat vs)"
    using that unfolding is_clean_discrepancies [symmetric] clean
    by (fastforce dest: sum_list_row_digest_perm)
  show "\<forall>(t, es, vs) \<in> set ts. \<forall>x y rest. mset (concat es) = mset (x # rest) \<and>
      mset (concat vs) = mset (y # rest) \<and> row_digest x \<noteq> row_digest y \<longrightarrow> \<not> is_clean (reconcile_all ts)"
    unfolding clean by (fastforce dest: sum_list_row_digest_perm)
qed

theorem reconciliation_measures_content_witness:
  "\<not> is_clean (reconcile_all [(''t'', [[[Some ''a'']], [[None]]], [[[Some ''a'']], [[Some '''']]])])"
proof -
  have "row_digest [None] \<noteq> row_digest [Some '''']" by code_simp
  with reconciliation_measures_content [of "[(''t'', [[[Some ''a'']], [[None]]], [[[Some ''a'']], [[Some '''']]])]"]
  show ?thesis by simp
qed

end
