(* ===== verification/Backfill.thy ===== *)
theory Backfill
  imports Positions
begin

text \<open>
  Joining a snapshot to the stream that follows it: \<^verbatim>\<open>crates/sankhya-ingest/src/backfill.rs\<close>.
\<close>

record backfill_plan =
  bf_table :: string
  snapshot_position :: lsn

record backfill =
  bf_plan :: backfill_plan
  bf_rows :: u64

definition backfill_plan_new :: "string \<Rightarrow> lsn \<Rightarrow> backfill_plan" where
  "backfill_plan_new t l = \<lparr>bf_table = t, snapshot_position = l\<rparr>"

definition snapshot_coverage :: "backfill_plan \<Rightarrow> lsn_range" where
  "snapshot_coverage p = lsn_range_up_to (snapshot_position p)"

record handoff =
  ho_snapshot :: lsn_range
  ho_stream :: lsn_range

definition handoff_is_exact :: "handoff \<Rightarrow> bool" where
  "handoff_is_exact h \<longleftrightarrow>
     lsn_range_abuts (ho_snapshot h) (ho_stream h) \<and> \<not> lsn_range_overlaps (ho_snapshot h) (ho_stream h)"

datatype handoff_error =
    HandoffOverlap (snapshot_through: lsn) (stream_from: lsn)
  | HandoffGap (snapshot_through: lsn) (stream_from: lsn)

definition plan_handoff :: "backfill_plan \<Rightarrow> lsn \<Rightarrow> handoff_error + handoff" where
  "plan_handoff p f =
     (let through = snapshot_position p in
      if f < through then Inl (HandoffOverlap through f)
      else if f > through then Inl (HandoffGap through f)
      else Inr \<lparr>ho_snapshot = lsn_range_up_to through,
                ho_stream = (case lsn_range_new through through of
                   Some r \<Rightarrow> r | None \<Rightarrow> lsn_range_up_to through)\<rparr>)"

definition advance_stream :: "handoff \<Rightarrow> lsn \<Rightarrow> handoff option" where
  "advance_stream h t =
     (case lsn_range_new (end_inclusive (ho_snapshot h)) t of
        None \<Rightarrow> None
      | Some s \<Rightarrow> Some \<lparr>ho_snapshot = ho_snapshot h, ho_stream = s\<rparr>)"

fun advance_all :: "handoff \<Rightarrow> lsn list \<Rightarrow> handoff option" where
  "advance_all h [] = Some h"
| "advance_all h (t # ts) = (case advance_stream h t of None \<Rightarrow> None | Some h' \<Rightarrow> advance_all h' ts)"

text \<open>A handoff at a position: the snapshot through it, the stream from it.\<close>

definition handoff_at :: "lsn \<Rightarrow> handoff \<Rightarrow> bool" where
  "handoff_at l h \<longleftrightarrow> ho_snapshot h = lsn_range_up_to l \<and> start_exclusive (ho_stream h) = l \<and> upright (ho_stream h)"

lemma plan_handoff_at: "plan_handoff p f = Inr h \<Longrightarrow> f = snapshot_position p \<and> handoff_at f h"
  by (auto simp: plan_handoff_def handoff_at_def range_defs upright_def Let_def split: if_splits)

lemma advance_stream_at:
  "handoff_at l h \<Longrightarrow> advance_stream h t =
     (if l \<le> t then Some \<lparr>ho_snapshot = lsn_range_up_to l, ho_stream = \<lparr>start_exclusive = l, end_inclusive = t\<rparr>\<rparr> else None)"
  by (auto simp: advance_stream_def handoff_at_def range_defs)

lemma advance_all_at:
  "handoff_at l h \<Longrightarrow> advance_all h ts = Some h' \<Longrightarrow>
     handoff_at l h' \<and> end_inclusive (ho_stream h') = last (end_inclusive (ho_stream h) # ts)"
proof (induction ts arbitrary: h)
  case (Cons t ts)
  from Cons.prems obtain h1 where h1: "advance_stream h t = Some h1" "advance_all h1 ts = Some h'"
    by (auto split: option.splits)
  with Cons.prems have "handoff_at l h1" "end_inclusive (ho_stream h1) = t"
    by (auto simp: advance_stream_at handoff_at_def upright_def split: if_splits)
  with Cons.IH [of h1] h1 show ?case by simp
qed simp

lemma handoff_at_exact:
  assumes "handoff_at l h"
  shows "handoff_is_exact h"
    and "0 < q \<Longrightarrow> q \<le> end_inclusive (ho_stream h) \<Longrightarrow>
      lsn_range_contains (ho_snapshot h) q \<noteq> lsn_range_contains (ho_stream h) q"
  using assms by (auto simp: handoff_at_def handoff_is_exact_def range_defs upright_def)

text \<open>
  A snapshot is joined to a stream only where the stream starts at the snapshot's own
  position. However far the stream then advances, the handoff stays exact and every position through
  its end reaches exactly one of the two halves; the stream is never moved behind the snapshot.
  A refused handoff is a real one: an overlap names a position that both halves would
  apply, a gap a position that neither would.
\<close>

theorem handoff_leaves_no_seam:
  "(case plan_handoff p f of
      Inr h \<Rightarrow> f = snapshot_position p \<and>
        (\<forall>ts. (advance_all h ts = None \<longleftrightarrow> (\<exists>t \<in> set ts. t < f)) \<and>
           (\<forall>h'. advance_all h ts = Some h' \<longrightarrow> handoff_is_exact h' \<and> ho_snapshot h' = snapshot_coverage p \<and>
              (\<forall>q. 0 < q \<and> q \<le> last (f # ts) \<longrightarrow>
                 lsn_range_contains (ho_snapshot h') q \<noteq> lsn_range_contains (ho_stream h') q)))
    | Inl (HandoffOverlap s e) \<Rightarrow> s = snapshot_position p \<and> e = f \<and>
        (\<forall>t r. s \<le> t \<longrightarrow> lsn_range_new f t = Some r \<longrightarrow>
           lsn_range_contains (snapshot_coverage p) s \<and> lsn_range_contains r s)
    | Inl (HandoffGap s e) \<Rightarrow> s = snapshot_position p \<and> e = f \<and>
        (\<forall>t r. lsn_range_new f t = Some r \<longrightarrow>
           \<not> lsn_range_contains (snapshot_coverage p) f \<and> \<not> lsn_range_contains r f))"
proof (cases "plan_handoff p f")
  case (Inl e)
  then show ?thesis
    by (auto simp: plan_handoff_def snapshot_coverage_def range_defs Let_def split: if_splits)
      (metis word_gt_0 word_not_simps(1))
next
  case (Inr h)
  note at = plan_handoff_at [OF this]
  from Inr have e: "end_inclusive (ho_stream h) = f"
    by (auto simp: plan_handoff_def range_defs Let_def split: if_splits)
  have refused: "advance_all g ts = None \<longleftrightarrow> (\<exists>t \<in> set ts. t < f)" if "handoff_at f g" for g ts
    using that
  proof (induction ts arbitrary: g)
    case (Cons t ts)
    then have "handoff_at f \<lparr>ho_snapshot = lsn_range_up_to f, ho_stream = \<lparr>start_exclusive = f, end_inclusive = t\<rparr>\<rparr>" if "f \<le> t"
      using that by (simp add: handoff_at_def upright_def)
    with Cons show ?case by (auto simp: advance_stream_at)
  qed simp
  have kept: "handoff_is_exact h' \<and> ho_snapshot h' = snapshot_coverage p \<and>
      (\<forall>q. 0 < q \<and> q \<le> last (f # ts) \<longrightarrow>
         lsn_range_contains (ho_snapshot h') q \<noteq> lsn_range_contains (ho_stream h') q)"
    if "advance_all h ts = Some h'" for ts h'
  proof -
    from at that advance_all_at have h': "handoff_at f h'" "end_inclusive (ho_stream h') = last (f # ts)"
      unfolding e [symmetric] by blast+
    with at handoff_at_exact [OF h'(1)] show ?thesis
      by (auto simp: snapshot_coverage_def handoff_at_def simp del: last.simps)
  qed
  show ?thesis
    unfolding Inr sum.case using at refused kept by blast
qed

theorem handoff_leaves_no_seam_witness:
  "\<exists>h'. advance_all (case plan_handoff (backfill_plan_new ''t'' 7) 7 of Inr h \<Rightarrow> h) [9, 12] = Some h' \<and>
     lsn_range_contains (ho_snapshot h') 8 \<noteq> lsn_range_contains (ho_stream h') 8"
proof -
  obtain h where h: "plan_handoff (backfill_plan_new ''t'' 7) 7 = Inr h"
    by (simp add: plan_handoff_def backfill_plan_new_def)
  have all: "(advance_all h ts = None \<longleftrightarrow> (\<exists>t \<in> set ts. t < 7)) \<and>
      (\<forall>h'. advance_all h ts = Some h' \<longrightarrow> (\<forall>q. 0 < q \<and> q \<le> last (7 # ts) \<longrightarrow>
         lsn_range_contains (ho_snapshot h') q \<noteq> lsn_range_contains (ho_stream h') q))" for ts
    using handoff_leaves_no_seam [of "backfill_plan_new ''t'' 7" 7] unfolding h sum.case by blast
  have "advance_all h [9, 12] \<noteq> None" using all [of "[9, 12]"] by simp
  then obtain h' where h': "advance_all h [9, 12] = Some h'" by blast
  have "0 < (8 :: u64) \<and> 8 \<le> last [7 :: u64, 9, 12]" by simp
  with all [of "[9, 12]"] h' have "lsn_range_contains (ho_snapshot h') 8 \<noteq> lsn_range_contains (ho_stream h') 8"
    by blast
  with h h' show ?thesis by simp
qed

end
