(* ===== verification/Slot_Safety.thy ===== *)
theory Slot_Safety
  imports Positions
begin

text \<open>
  Source safety: \<^verbatim>\<open>crates/sankhya-cdc-pg/src/slot.rs\<close>, the state of a replication slot, and
  \<^verbatim>\<open>safety.rs\<close>, the ladder that decides what capture gives up before the source gives up the
  slot. A \<open>Duration\<close> is a number of nanoseconds; the reason of an escalation is the values its
  text renders.
\<close>

subsection \<open>Slots\<close>

datatype wal_status = Reserved | Extended | Unreserved | Lost

definition wal_status_parse :: "string \<Rightarrow> wal_status" where
  "wal_status_parse text =
     (let t = trim text in
      if t = ''reserved'' then Reserved
      else if t = ''extended'' then Extended
      else if t = ''unreserved'' then Unreserved
      else Lost)"

fun wal_status_display :: "wal_status \<Rightarrow> string" where
  "wal_status_display Reserved = ''reserved''"
| "wal_status_display Extended = ''extended''"
| "wal_status_display Unreserved = ''unreserved''"
| "wal_status_display Lost = ''lost''"

definition is_usable :: "wal_status \<Rightarrow> bool" where
  "is_usable s \<longleftrightarrow> s \<noteq> Lost"

definition is_past_limit :: "wal_status \<Rightarrow> bool" where
  "is_past_limit s \<longleftrightarrow> s = Extended \<or> s = Unreserved \<or> s = Lost"

record slot_state =
  sl_name :: string
  active :: bool
  status :: wal_status
  retained_bytes :: u64
  source_position :: lsn
  confirmed_position :: lsn

definition behind_by :: "slot_state \<Rightarrow> u64" where
  "behind_by s = word_saturating_sub (source_position s) (confirmed_position s)"

definition is_current :: "slot_state \<Rightarrow> bool" where
  "is_current s \<longleftrightarrow> confirmed_position s \<ge> source_position s"

lemma behind_by_0_iff: "behind_by s = 0 \<longleftrightarrow> is_current s"
  by (auto simp: behind_by_def is_current_def word_saturating_sub_def)

lemma wal_status_parse_display: "wal_status_parse (wal_status_display s) = s"
  by (cases s) (simp_all add: wal_status_parse_def trim_graphic graphic_def)

subsection \<open>The ladder\<close>

datatype severity = Normal | Watch | Constrain | Protect | Sacrifice

fun rung :: "severity \<Rightarrow> nat" where
  "rung Normal = 0"
| "rung Watch = 1"
| "rung Constrain = 2"
| "rung Protect = 3"
| "rung Sacrifice = 4"

lemma rung_inject: "rung x = rung y \<longleftrightarrow> x = y"
  by (cases x; cases y) simp_all

text \<open>The derived \<open>Ord\<close>: the order of declaration.\<close>

instantiation severity :: linorder
begin

definition less_eq_severity :: "severity \<Rightarrow> severity \<Rightarrow> bool" where
  "less_eq_severity x y \<longleftrightarrow> rung x \<le> rung y"

definition less_severity :: "severity \<Rightarrow> severity \<Rightarrow> bool" where
  "less_severity x y \<longleftrightarrow> rung x < rung y"

instance
  by standard (auto simp: less_eq_severity_def less_severity_def rung_inject)

end

definition pages :: "severity \<Rightarrow> bool" where
  "pages s \<longleftrightarrow> s = Protect \<or> s = Sacrifice"

definition admits_queries :: "severity \<Rightarrow> bool" where
  "admits_queries s \<longleftrightarrow> s = Normal \<or> s = Watch \<or> s = Constrain"

datatype escalation_reason =
    KeepingUp
  | SlotLost string
  | NearTheLimit u64 wal_status
  | RefusingWork u64 wal_status
  | ReducingConcurrency nat u64
  | DeferringMaintenance nat u64

record escalation =
  severity :: severity
  esc_reason :: escalation_reason
  defer_maintenance :: bool
  shed_queries :: bool
  refuse_queries :: bool
  sacrifice_analytics :: bool

definition escalation_normal :: escalation where
  "escalation_normal =
     \<lparr>severity = Normal, esc_reason = KeepingUp, defer_maintenance = False, shed_queries = False,
      refuse_queries = False, sacrifice_analytics = False\<rparr>"

record safety_policy =
  retention_limit_bytes :: u64
  watch_fraction_percent :: u32
  constrain_fraction_percent :: u32
  protect_fraction_percent :: u32
  sacrifice_fraction_percent :: u32
  watch_lag :: nat
  constrain_lag :: nat

definition secs :: "nat \<Rightarrow> nat" where
  "secs n = n * 1000000000"

definition safety_policy_default :: safety_policy where
  "safety_policy_default =
     \<lparr>retention_limit_bytes = 8 * 1024 * 1024 * 1024,
      watch_fraction_percent = 25,
      constrain_fraction_percent = 40,
      protect_fraction_percent = 60,
      sacrifice_fraction_percent = 85,
      watch_lag = secs 60,
      constrain_lag = secs 300\<rparr>"

definition is_well_ordered :: "safety_policy \<Rightarrow> bool" where
  "is_well_ordered p \<longleftrightarrow>
     watch_fraction_percent p < constrain_fraction_percent p \<and>
     constrain_fraction_percent p < protect_fraction_percent p \<and>
     protect_fraction_percent p < sacrifice_fraction_percent p \<and>
     sacrifice_fraction_percent p < 100"

definition threshold :: "safety_policy \<Rightarrow> u32 \<Rightarrow> u64" where
  "threshold p percent = word_saturating_mul (retention_limit_bytes p) (ucast percent) div 100"

definition assess :: "safety_policy \<Rightarrow> slot_state \<Rightarrow> nat \<Rightarrow> escalation" where
  "assess p s lag =
     (if \<not> is_usable (status s) then
        \<lparr>severity = Sacrifice, esc_reason = SlotLost (sl_name s), defer_maintenance = True,
         shed_queries = True, refuse_queries = True, sacrifice_analytics = True\<rparr>
      else let retained = retained_bytes s in
      if retained \<ge> threshold p (sacrifice_fraction_percent p) \<or> status s = Unreserved then
        \<lparr>severity = Sacrifice, esc_reason = NearTheLimit retained (status s), defer_maintenance = True,
         shed_queries = True, refuse_queries = True, sacrifice_analytics = True\<rparr>
      else if retained \<ge> threshold p (protect_fraction_percent p) \<or> status s = Extended then
        \<lparr>severity = Protect, esc_reason = RefusingWork retained (status s), defer_maintenance = True,
         shed_queries = True, refuse_queries = True, sacrifice_analytics = False\<rparr>
      else if retained \<ge> threshold p (constrain_fraction_percent p) \<or> lag \<ge> constrain_lag p then
        \<lparr>severity = Constrain, esc_reason = ReducingConcurrency lag retained, defer_maintenance = True,
         shed_queries = True, refuse_queries = False, sacrifice_analytics = False\<rparr>
      else if retained \<ge> threshold p (watch_fraction_percent p) \<or> lag \<ge> watch_lag p then
        \<lparr>severity = Watch, esc_reason = DeferringMaintenance lag retained, defer_maintenance = True,
         shed_queries = False, refuse_queries = False, sacrifice_analytics = False\<rparr>
      else escalation_normal)"

subsection \<open>The ladder as a specification\<close>

text \<open>
  What the ladder promises, rung by rung: each signal asks for a rung of its own, and the
  assessment is the highest rung asked for.
\<close>

definition asked_by_status :: "wal_status \<Rightarrow> severity" where
  "asked_by_status w =
     (case w of Reserved \<Rightarrow> Normal | Extended \<Rightarrow> Protect | Unreserved \<Rightarrow> Sacrifice | Lost \<Rightarrow> Sacrifice)"

definition asked_by_bytes :: "safety_policy \<Rightarrow> u64 \<Rightarrow> severity" where
  "asked_by_bytes p n =
     (if n \<ge> threshold p (sacrifice_fraction_percent p) then Sacrifice
      else if n \<ge> threshold p (protect_fraction_percent p) then Protect
      else if n \<ge> threshold p (constrain_fraction_percent p) then Constrain
      else if n \<ge> threshold p (watch_fraction_percent p) then Watch else Normal)"

definition asked_by_lag :: "safety_policy \<Rightarrow> nat \<Rightarrow> severity" where
  "asked_by_lag p lag =
     (if lag \<ge> constrain_lag p then Constrain else if lag \<ge> watch_lag p then Watch else Normal)"

lemmas severity_order = less_eq_severity_def less_severity_def max_def

lemma assess_is_highest_rung:
  "severity (assess p s lag) =
     max (asked_by_status (status s)) (max (asked_by_bytes p (retained_bytes s)) (asked_by_lag p lag))"
  by (cases "status s")
    (auto simp: assess_def is_usable_def asked_by_status_def asked_by_bytes_def asked_by_lag_def
      severity_order escalation_normal_def Let_def)

lemma assess_actions:
  "defer_maintenance (assess p s lag) \<longleftrightarrow> Watch \<le> severity (assess p s lag)"
  "shed_queries (assess p s lag) \<longleftrightarrow> Constrain \<le> severity (assess p s lag)"
  "refuse_queries (assess p s lag) \<longleftrightarrow> Protect \<le> severity (assess p s lag)"
  "sacrifice_analytics (assess p s lag) \<longleftrightarrow> severity (assess p s lag) = Sacrifice"
  by (auto simp: assess_def severity_order escalation_normal_def Let_def)

lemma severity_levels:
  "pages x \<longleftrightarrow> Protect \<le> x" "admits_queries x \<longleftrightarrow> \<not> pages x"
  by (cases x; simp add: pages_def admits_queries_def severity_order)+

lemma unat_threshold:
  "unat (threshold p c) = min (unat (retention_limit_bytes p) * unat c) (2 ^ 64 - 1) div 100"
proof -
  have "unat c < 2 ^ 32" using unsigned_less [of c, where ?'a = nat] by simp
  then have "unat c < 2 ^ 64" by simp
  then have "unat (ucast c :: u64) = unat c"
    by (simp add: unsigned_ucast_eq take_bit_nat_eq_self)
  then show ?thesis by (simp add: threshold_def unat_div unat_saturating_mul)
qed

lemma threshold_mono: "a \<le> b \<Longrightarrow> threshold p a \<le> threshold p b"
  unfolding word_le_nat_alt unat_threshold
  by (intro div_le_mono min.mono mult_le_mono) auto

lemma asked_by_bytes_mono:
  assumes "m \<le> n"
  shows "asked_by_bytes p m \<le> asked_by_bytes p n"
  using assms by (auto simp: asked_by_bytes_def severity_order)

lemma asked_by_lag_mono: "l \<le> k \<Longrightarrow> asked_by_lag p l \<le> asked_by_lag p k"
  by (auto simp: asked_by_lag_def severity_order)

text \<open>A threshold is at most the fraction of the limit it stands for; saturation only lowers it.\<close>

lemma threshold_le: "100 * unat (threshold p c) \<le> unat (retention_limit_bytes p) * unat c"
  unfolding unat_threshold by linarith

lemma sacrifice_before_limit:
  assumes "sacrifice_fraction_percent p < 100"
  shows "threshold p (sacrifice_fraction_percent p) \<le> retention_limit_bytes p"
    and "0 < retention_limit_bytes p \<Longrightarrow> threshold p (sacrifice_fraction_percent p) < retention_limit_bytes p"
proof -
  have c: "unat (sacrifice_fraction_percent p) < 100"
    using assms by (simp add: word_less_nat_alt)
  have l: "100 * unat (threshold p (sacrifice_fraction_percent p)) \<le>
      unat (retention_limit_bytes p) * unat (sacrifice_fraction_percent p)"
    by (rule threshold_le)
  also have "\<dots> \<le> unat (retention_limit_bytes p) * 99" using c by (intro mult_le_mono) auto
  finally have n: "100 * unat (threshold p (sacrifice_fraction_percent p)) \<le> 99 * unat (retention_limit_bytes p)"
    by simp
  then show "threshold p (sacrifice_fraction_percent p) \<le> retention_limit_bytes p"
    unfolding word_le_nat_alt by linarith
  show "threshold p (sacrifice_fraction_percent p) < retention_limit_bytes p" if "0 < retention_limit_bytes p"
    using n that unfolding word_less_nat_alt by simp
qed

text \<open>
  C20: The ladder takes the highest rung that the slot's status, its retained bytes or its lag ask for, and each
  of its actions starts at one rung: maintenance is deferred from \<open>Watch\<close>, queries shed from \<open>Constrain\<close>
  and refused from \<open>Protect\<close>, which is where it pages, the log given up at \<open>Sacrifice\<close>. Signals that get
  worse never lower the rung. A well-ordered policy has ordered thresholds and gives the log up
  deliberately at some size below the source's limit, at every size from there on.
\<close>

theorem ladder_acts_before_the_source:
  "severity (assess p s lag) =
     max (asked_by_status (status s)) (max (asked_by_bytes p (retained_bytes s)) (asked_by_lag p lag)) \<and>
   (defer_maintenance (assess p s lag) \<longleftrightarrow> Watch \<le> severity (assess p s lag)) \<and>
   (shed_queries (assess p s lag) \<longleftrightarrow> Constrain \<le> severity (assess p s lag)) \<and>
   (refuse_queries (assess p s lag) \<longleftrightarrow> \<not> admits_queries (severity (assess p s lag))) \<and>
   (refuse_queries (assess p s lag) \<longleftrightarrow> pages (severity (assess p s lag))) \<and>
   (sacrifice_analytics (assess p s lag) \<longleftrightarrow> severity (assess p s lag) = Sacrifice) \<and>
   (\<forall>s' lag'. asked_by_status (status s) \<le> asked_by_status (status s') \<and>
      retained_bytes s \<le> retained_bytes s' \<and> lag \<le> lag' \<longrightarrow>
        severity (assess p s lag) \<le> severity (assess p s' lag')) \<and>
   (is_well_ordered p \<longrightarrow>
      threshold p (watch_fraction_percent p) \<le> threshold p (constrain_fraction_percent p) \<and>
      threshold p (constrain_fraction_percent p) \<le> threshold p (protect_fraction_percent p) \<and>
      threshold p (protect_fraction_percent p) \<le> threshold p (sacrifice_fraction_percent p) \<and>
      (0 < retention_limit_bytes p \<longrightarrow>
        (\<exists>n < retention_limit_bytes p. \<forall>s' lag'. n \<le> retained_bytes s' \<longrightarrow> sacrifice_analytics (assess p s' lag'))))"
proof (intro conjI impI allI)
  show "severity (assess p s lag) \<le> severity (assess p s' lag')"
    if "asked_by_status (status s) \<le> asked_by_status (status s') \<and>
      retained_bytes s \<le> retained_bytes s' \<and> lag \<le> lag'" for s' lag'
    unfolding assess_is_highest_rung using that
    by (intro max.mono asked_by_bytes_mono asked_by_lag_mono) auto
  assume w: "is_well_ordered p"
  show "threshold p (watch_fraction_percent p) \<le> threshold p (constrain_fraction_percent p)"
    "threshold p (constrain_fraction_percent p) \<le> threshold p (protect_fraction_percent p)"
    "threshold p (protect_fraction_percent p) \<le> threshold p (sacrifice_fraction_percent p)"
    using w by (auto simp: is_well_ordered_def intro: threshold_mono)
  assume "0 < retention_limit_bytes p"
  with w sacrifice_before_limit(2) have "threshold p (sacrifice_fraction_percent p) < retention_limit_bytes p"
    by (simp add: is_well_ordered_def)
  moreover have "sacrifice_analytics (assess p s' lag')"
    if "threshold p (sacrifice_fraction_percent p) \<le> retained_bytes s'" for s' lag'
    using that by (simp add: assess_def Let_def)
  ultimately show "\<exists>n < retention_limit_bytes p. \<forall>s' lag'. n \<le> retained_bytes s' \<longrightarrow> sacrifice_analytics (assess p s' lag')"
    by blast
qed (simp_all add: assess_is_highest_rung assess_actions severity_levels)

theorem ladder_acts_before_the_source_witness:
  "\<exists>n < retention_limit_bytes safety_policy_default. \<forall>s' lag'. n \<le> retained_bytes s' \<longrightarrow>
     sacrifice_analytics (assess safety_policy_default s' lag')"
proof -
  have "is_well_ordered safety_policy_default \<and> 0 < retention_limit_bytes safety_policy_default"
    by (simp add: is_well_ordered_def safety_policy_default_def)
  with ladder_acts_before_the_source [of safety_policy_default] show ?thesis by blast
qed

end
