(* ===== verification/Authz.thy ===== *)
theory Authz
  imports Ordered_Maps Codes "HOL-Library.Multiset"
begin

text \<open>
  What a principal may see: \<^verbatim>\<open>crates/sankhya-authz/src/policy.rs\<close> and \<^verbatim>\<open>principal.rs\<close>, and the
  guard that carries a decision to a table, \<^verbatim>\<open>crates/sankhya-catalog/src/guard.rs\<close>. A tenant
  is a 128-bit UUID; how the \<open>uuid\<close> crate writes one is a parameter. A row filter is the
  SQL text of a rule: what it means is up to the query engine.
\<close>

subsection \<open>Principals\<close>

type_synonym uuid = u128

type_synonym role = string

datatype authentication = FederatedToken | MutualTls | Password | Internal | Unverified

record authz_principal =
  subject :: string
  tenant :: uuid
  roles :: "role set"
  authentication :: authentication

datatype invalid_principal = NoSubject

definition authenticated ::
    "string \<Rightarrow> uuid \<Rightarrow> role list \<Rightarrow> authentication \<Rightarrow> invalid_principal + authz_principal" where
  "authenticated s t rs a =
     (if s = '''' then Inl NoSubject
      else Inr \<lparr>subject = s, tenant = t, roles = set rs, authentication = a\<rparr>)"

definition internal_principal :: "uuid \<Rightarrow> authz_principal" where
  "internal_principal t = \<lparr>subject = ''system'', tenant = t, roles = {}, authentication = Internal\<rparr>"

definition has_role :: "authz_principal \<Rightarrow> role \<Rightarrow> bool" where
  "has_role p r \<longleftrightarrow> r \<in> roles p"

definition is_internal :: "authz_principal \<Rightarrow> bool" where
  "is_internal p \<longleftrightarrow> authentication p = Internal"

definition storage_prefix :: "(uuid \<Rightarrow> string) \<Rightarrow> uuid \<Rightarrow> string" where
  "storage_prefix uuid_text t = uuid_text t @ ''/''"

subsection \<open>Rules\<close>

record table_ref =
  tr_schema :: string
  tr_table :: string

definition table_ref_display :: "table_ref \<Rightarrow> string" where
  "table_ref_display t = tr_schema t @ ''.'' @ tr_table t"

datatype action = Read | Insert | Update | Delete

datatype mask = MaskNull | Partial nat | Constant string

datatype rule_effect = Allow | Deny

record rule =
  ru_tenant :: uuid
  ru_role :: role
  ru_table :: table_ref
  ru_action :: action
  effect :: rule_effect
  ru_filter :: "string option"
  ru_masks :: "(string \<times> mask) list"

definition grant :: "uuid \<Rightarrow> role \<Rightarrow> table_ref \<Rightarrow> action \<Rightarrow> rule" where
  "grant t r tb a =
     \<lparr>ru_tenant = t, ru_role = r, ru_table = tb, ru_action = a, effect = Allow,
      ru_filter = None, ru_masks = []\<rparr>"

definition deny :: "uuid \<Rightarrow> role \<Rightarrow> table_ref \<Rightarrow> action \<Rightarrow> rule" where
  "deny t r tb a = (grant t r tb a)\<lparr>effect := Deny\<rparr>"

definition where_rows :: "string \<Rightarrow> rule \<Rightarrow> rule" where
  "where_rows f r = r\<lparr>ru_filter := Some f\<rparr>"

definition masking :: "string \<Rightarrow> mask \<Rightarrow> rule \<Rightarrow> rule" where
  "masking c m r = r\<lparr>ru_masks := bt_insert c m (ru_masks r)\<rparr>"

type_synonym policy_set = "rule list"

definition policy_with :: "policy_set \<Rightarrow> rule \<Rightarrow> policy_set" where
  "policy_with ps r = ps @ [r]"

subsection \<open>Decisions\<close>

datatype denial_reason = NoGrant | ExplicitDeny role

datatype decision =
    Allowed (filter_of: "string option") (masks_of: "(string \<times> mask) list")
  | Denied denial_reason

definition is_allowed :: "decision \<Rightarrow> bool" where
  "is_allowed d \<longleftrightarrow> (case d of Allowed _ _ \<Rightarrow> True | Denied _ \<Rightarrow> False)"

definition decision_row_filter :: "decision \<Rightarrow> string option" where
  "decision_row_filter d = (case d of Allowed f _ \<Rightarrow> f | Denied _ \<Rightarrow> None)"

definition decision_column_masks :: "decision \<Rightarrow> (string \<times> mask) list" where
  "decision_column_masks d = (case d of Allowed _ ms \<Rightarrow> ms | Denied _ \<Rightarrow> [])"

definition applicable :: "policy_set \<Rightarrow> authz_principal \<Rightarrow> table_ref \<Rightarrow> action \<Rightarrow> rule list" where
  "applicable ps p t a =
     filter (\<lambda>r. ru_tenant r = tenant p \<and> ru_table r = t \<and> ru_action r = a \<and> has_role p (ru_role r)) ps"

text \<open>The clauses of the grants, joined: a grant without a filter absorbs the others.\<close>

definition clauses_of :: "rule list \<Rightarrow> string list" where
  "clauses_of grants = remdups_adj (sort (List.map_filter ru_filter grants))"

definition disjunction :: "string list \<Rightarrow> string" where
  "disjunction cs = join '' OR '' (map (\<lambda>c. ''('' @ c @ '')'') cs)"

definition combined_filter :: "rule list \<Rightarrow> string option" where
  "combined_filter grants =
     (if \<exists>r \<in> set grants. ru_filter r = None then None
      else case clauses_of grants of
          [] \<Rightarrow> None
        | [c] \<Rightarrow> Some c
        | cs \<Rightarrow> Some (disjunction cs))"

definition combined_masks :: "rule list \<Rightarrow> (string \<times> mask) list" where
  "combined_masks grants =
     (case grants of
        [] \<Rightarrow> []
      | first # _ \<Rightarrow>
          fold (\<lambda>(c, m) acc. if \<forall>r \<in> set grants. c \<in> fst ` set (ru_masks r) then bt_insert c m acc else acc)
            (ru_masks first) [])"

definition decide :: "policy_set \<Rightarrow> authz_principal \<Rightarrow> table_ref \<Rightarrow> action \<Rightarrow> decision" where
  "decide ps p t a =
     (let rules = applicable ps p t a in
      case List.find (\<lambda>r. effect r = Deny) rules of
        Some d \<Rightarrow> Denied (ExplicitDeny (ru_role d))
      | None \<Rightarrow>
          (let grants = filter (\<lambda>r. effect r = Allow) rules in
           if grants = [] then Denied NoGrant
           else Allowed (combined_filter grants) (combined_masks grants)))"

definition visible_tables :: "policy_set \<Rightarrow> authz_principal \<Rightarrow> table_ref set" where
  "visible_tables ps p =
     set (map ru_table
       (filter (\<lambda>r. effect r = Allow \<and> is_allowed (decide ps p (ru_table r) Read))
         (filter (\<lambda>r. ru_action r = Read)
           (filter (\<lambda>r. ru_tenant r = tenant p \<and> has_role p (ru_role r)) ps))))"

subsection \<open>Guards\<close>

record guard =
  gu_tenant :: uuid
  gu_subject :: string
  gu_table :: table_ref
  gu_action :: action
  gu_filter :: "string option"
  gu_masks :: "(string \<times> mask) list"

definition from_decision :: "authz_principal \<Rightarrow> table_ref \<Rightarrow> action \<Rightarrow> decision \<Rightarrow> guard option" where
  "from_decision p t a d =
     (case d of
        Denied _ \<Rightarrow> None
      | Allowed f ms \<Rightarrow>
          Some \<lparr>gu_tenant = tenant p, gu_subject = subject p, gu_table = t, gu_action = a,
                gu_filter = f, gu_masks = ms\<rparr>)"

definition authorize :: "policy_set \<Rightarrow> authz_principal \<Rightarrow> table_ref \<Rightarrow> action \<Rightarrow> guard option" where
  "authorize ps p t a = from_decision p t a (decide ps p t a)"

definition withholds_nothing :: "guard \<Rightarrow> bool" where
  "withholds_nothing g \<longleftrightarrow> gu_filter g = None \<and> gu_masks g = []"

definition restricts_rows :: "guard \<Rightarrow> bool" where
  "restricts_rows g \<longleftrightarrow> gu_filter g \<noteq> None"

definition guard_storage_prefix :: "(uuid \<Rightarrow> string) \<Rightarrow> guard \<Rightarrow> string" where
  "guard_storage_prefix uuid_text g = storage_prefix uuid_text (gu_tenant g)"

subsection \<open>Facts about decisions\<close>

definition grants_for :: "policy_set \<Rightarrow> authz_principal \<Rightarrow> table_ref \<Rightarrow> action \<Rightarrow> rule list" where
  "grants_for ps p t a = filter (\<lambda>r. effect r = Allow) (applicable ps p t a)"

lemma effect_cases: "effect r = Deny \<longleftrightarrow> effect r \<noteq> Allow"
  by (cases "effect r") auto

lemma decide_allowed_iff:
  "is_allowed (decide ps p t a) \<longleftrightarrow>
     grants_for ps p t a \<noteq> [] \<and> (\<forall>r \<in> set (applicable ps p t a). effect r \<noteq> Deny)"
  by (auto simp: decide_def is_allowed_def Let_def grants_for_def find_None_iff_all
      split: option.splits dest: find_SomeD)

lemma decide_Allowed:
  "is_allowed (decide ps p t a) \<Longrightarrow>
     decide ps p t a = Allowed (combined_filter (grants_for ps p t a)) (combined_masks (grants_for ps p t a))"
  by (auto simp: decide_def is_allowed_def Let_def grants_for_def split: option.splits if_splits)

lemma is_allowed_exists:
  "is_allowed (decide ps p t a) \<longleftrightarrow>
     (\<exists>r \<in> set (applicable ps p t a). effect r = Allow) \<and> (\<forall>r \<in> set (applicable ps p t a). effect r = Allow)"
  by (auto simp: decide_allowed_iff grants_for_def filter_empty_conv effect_cases)

lemma visible_tables_iff: "t \<in> visible_tables ps p \<longleftrightarrow> is_allowed (decide ps p t Read)"
proof
  assume "is_allowed (decide ps p t Read)"
  moreover from this obtain r where "r \<in> set (applicable ps p t Read)" "effect r = Allow"
    unfolding is_allowed_exists by blast
  ultimately show "t \<in> visible_tables ps p"
    by (force simp: visible_tables_def applicable_def)
qed (auto simp: visible_tables_def)

lemma applicable_other_tenants:
  "applicable (filter (\<lambda>r. ru_tenant r = tenant p) ps) p t a = applicable ps p t a"
  by (simp add: applicable_def conj_commute cong: conj_cong)

lemma decide_other_tenants: "decide (filter (\<lambda>r. ru_tenant r = tenant p) ps) p t a = decide ps p t a"
  by (simp add: decide_def applicable_other_tenants)

lemma set_clauses_of: "set (clauses_of grants) = {c. \<exists>r \<in> set grants. ru_filter r = Some c}"
  by (auto simp: clauses_of_def set_map_filter)

lemma clauses_of_distinct: "sorted (clauses_of grants) \<and> distinct (clauses_of grants)"
  using sorted_wrt_remdups_adj [of "sort (List.map_filter ru_filter grants)"]
  by (simp add: clauses_of_def strict_sorted_iff)

lemma clauses_of_set: "set xs = set ys \<Longrightarrow> clauses_of xs = clauses_of ys"
  by (rule sorted_distinct_set_unique) (auto simp: clauses_of_distinct set_clauses_of)

lemma combined_filter_set:
  assumes "set xs = set ys"
  shows "combined_filter xs = combined_filter ys"
  unfolding combined_filter_def clauses_of_set [OF assms] assms ..

lemma combined_filter_None: "grants \<noteq> [] \<Longrightarrow> combined_filter grants = None \<longleftrightarrow> (\<exists>r \<in> set grants. ru_filter r = None)"
proof -
  assume "grants \<noteq> []"
  then have "clauses_of grants \<noteq> []" if "\<forall>r \<in> set grants. ru_filter r \<noteq> None"
    using that set_clauses_of [of grants] by (cases grants) auto
  then show ?thesis by (auto simp: combined_filter_def split: list.split)
qed

text \<open>
  What the query engine makes of a row filter: \<open>holds f r\<close>, row \<open>r\<close> satisfies the text
  \<open>f\<close>. It reads a disjunction of clauses as one.
\<close>

definition reads_disjunction :: "(string \<Rightarrow> 'r \<Rightarrow> bool) \<Rightarrow> string list \<Rightarrow> bool" where
  "reads_disjunction holds cs \<longleftrightarrow>
     (1 < length cs \<longrightarrow> (\<forall>r. holds (disjunction cs) r \<longleftrightarrow> (\<exists>c \<in> set cs. holds c r)))"

definition sees_row :: "(string \<Rightarrow> 'r \<Rightarrow> bool) \<Rightarrow> string option \<Rightarrow> 'r \<Rightarrow> bool" where
  "sees_row holds f r \<longleftrightarrow> (case f of None \<Rightarrow> True | Some c \<Rightarrow> holds c r)"

lemma combined_filter_rows:
  assumes "reads_disjunction holds (clauses_of grants)" "grants \<noteq> []"
  shows "sees_row holds (combined_filter grants) r \<longleftrightarrow> (\<exists>g \<in> set grants. sees_row holds (ru_filter g) r)"
proof (cases "\<exists>g \<in> set grants. ru_filter g = None")
  case True
  then show ?thesis by (force simp: combined_filter_def sees_row_def)
next
  case False
  have cs: "(\<exists>c \<in> set (clauses_of grants). holds c r) \<longleftrightarrow> (\<exists>g \<in> set grants. sees_row holds (ru_filter g) r)"
    using False by (fastforce simp: set_clauses_of sees_row_def split: option.splits)
  have ne: "combined_filter grants \<noteq> None"
    using False combined_filter_None [OF assms(2)] by blast
  consider c where "clauses_of grants = [c]" | c d cs' where "clauses_of grants = c # d # cs'"
    using ne False by (cases "clauses_of grants" rule: remdups_adj.cases) (auto simp: combined_filter_def)
  then show ?thesis
  proof cases
    case 1
    with False have "combined_filter grants = Some c" by (simp add: combined_filter_def)
    with 1 cs show ?thesis by (simp add: sees_row_def)
  next
    case 2
    with False have "combined_filter grants = Some (disjunction (clauses_of grants))"
      by (simp add: combined_filter_def)
    with 2 cs assms(1) show ?thesis by (simp add: sees_row_def reads_disjunction_def)
  qed
qed

definition masked_columns :: "rule \<Rightarrow> string set" where
  "masked_columns r = fst ` set (ru_masks r)"

lemma combined_masks_fold:
  "bt_ordered acc \<Longrightarrow>
     fst ` set (fold (\<lambda>(c, m) acc. if P c then bt_insert c m acc else acc) ms acc) =
       {c \<in> fst ` set ms. P c} \<union> fst ` set acc \<and>
     set (fold (\<lambda>(c, m) acc. if P c then bt_insert c m acc else acc) ms acc) \<subseteq> set ms \<union> set acc \<and>
     bt_ordered (fold (\<lambda>(c, m) acc. if P c then bt_insert c m acc else acc) ms acc)"
proof (induction ms arbitrary: acc)
  case (Cons x ms)
  obtain c m where x: "x = (c, m)" by (cases x)
  show ?case
  proof (cases "P c")
    case True
    with Cons.IH [of "bt_insert c m acc"] Cons.prems bt_insert_set [of c m acc] show ?thesis
      by (simp add: x) blast
  next
    case False
    with Cons.IH [of acc] Cons.prems show ?thesis by (simp add: x) blast
  qed
qed simp

lemma combined_masks_columns:
  assumes "grants \<noteq> []"
  shows "fst ` set (combined_masks grants) = (\<Inter>r \<in> set grants. masked_columns r)"
    and "set (combined_masks grants) \<subseteq> set (ru_masks (hd grants))"
proof -
  obtain g gs where g: "grants = g # gs" using assms by (cases grants) auto
  from combined_masks_fold [of "[]" "\<lambda>c. \<forall>r \<in> set grants. c \<in> masked_columns r" "ru_masks g"]
  show "fst ` set (combined_masks grants) = (\<Inter>r \<in> set grants. masked_columns r)"
    "set (combined_masks grants) \<subseteq> set (ru_masks (hd grants))"
    by (auto simp: combined_masks_def g masked_columns_def)
qed

lemma applicable_perm: "mset ps = mset qs \<Longrightarrow> set (applicable ps p t a) = set (applicable qs p t a)"
  using mset_eq_setD [of ps qs] by (simp only: applicable_def set_filter)

lemma grants_for_set: "set (grants_for ps p t a) = {r \<in> set (applicable ps p t a). effect r = Allow}"
  by (auto simp: grants_for_def)

lemma decide_perm:
  assumes "mset ps = mset qs"
  shows "is_allowed (decide ps p t a) = is_allowed (decide qs p t a)"
    and "decision_row_filter (decide ps p t a) = decision_row_filter (decide qs p t a)"
    and "fst ` set (decision_column_masks (decide ps p t a)) = fst ` set (decision_column_masks (decide qs p t a))"
proof -
  note s = applicable_perm [OF assms, of p t a]
  then have g: "set (grants_for ps p t a) = set (grants_for qs p t a)" by (simp add: grants_for_set)
  show a: "is_allowed (decide ps p t a) = is_allowed (decide qs p t a)"
    by (simp add: is_allowed_exists s)
  have "\<not> is_allowed d \<Longrightarrow> decision_row_filter d = None \<and> decision_column_masks d = []" for d
    by (cases d) (auto simp: is_allowed_def decision_row_filter_def decision_column_masks_def)
  moreover have "combined_filter (grants_for ps p t a) = combined_filter (grants_for qs p t a)"
    by (rule combined_filter_set [OF g])
  moreover have "fst ` set (combined_masks (grants_for ps p t a)) = fst ` set (combined_masks (grants_for qs p t a))"
    if "is_allowed (decide ps p t a)"
    using that a g by (auto simp: decide_allowed_iff combined_masks_columns(1))
  ultimately show
    "decision_row_filter (decide ps p t a) = decision_row_filter (decide qs p t a)"
    "fst ` set (decision_column_masks (decide ps p t a)) = fst ` set (decision_column_masks (decide qs p t a))"
    using a by (cases "is_allowed (decide ps p t a)";
      simp add: decide_Allowed decision_row_filter_def decision_column_masks_def)+
qed

text \<open>Adding a rule: a grant only widens what is seen, a denial only narrows it.\<close>

definition matches :: "authz_principal \<Rightarrow> table_ref \<Rightarrow> action \<Rightarrow> rule \<Rightarrow> bool" where
  "matches p t a r \<longleftrightarrow> ru_tenant r = tenant p \<and> ru_table r = t \<and> ru_action r = a \<and> has_role p (ru_role r)"

lemma set_applicable: "set (applicable ps p t a) = {r \<in> set ps. matches p t a r}"
  by (auto simp: applicable_def matches_def)

definition sees :: "(string \<Rightarrow> 'r \<Rightarrow> bool) \<Rightarrow> decision \<Rightarrow> 'r \<Rightarrow> bool" where
  "sees holds d r \<longleftrightarrow> is_allowed d \<and> sees_row holds (decision_row_filter d) r"

lemma decision_parts:
  assumes "is_allowed (decide ps p t a)"
  shows "decision_row_filter (decide ps p t a) = combined_filter (grants_for ps p t a)"
    and "decision_column_masks (decide ps p t a) = combined_masks (grants_for ps p t a)"
  using decide_Allowed [OF assms] by (simp_all add: decision_row_filter_def decision_column_masks_def)

lemma sees_iff:
  assumes "reads_disjunction holds (clauses_of (grants_for ps p t a))" "is_allowed (decide ps p t a)"
  shows "sees holds (decide ps p t a) r \<longleftrightarrow>
    (\<exists>g \<in> set ps. matches p t a g \<and> effect g = Allow \<and> sees_row holds (ru_filter g) r)"
proof -
  have "grants_for ps p t a \<noteq> []" using assms(2) by (simp add: decide_allowed_iff)
  from combined_filter_rows [OF assms(1) this] show ?thesis
    by (auto simp: sees_def decision_parts [OF assms(2)] assms(2) grants_for_set set_applicable)
qed

lemma masked_iff:
  assumes "is_allowed (decide ps p t a)"
  shows "c \<in> fst ` set (decision_column_masks (decide ps p t a)) \<longleftrightarrow>
    (\<forall>g \<in> set ps. matches p t a g \<and> effect g = Allow \<longrightarrow> c \<in> masked_columns g)"
proof -
  have "grants_for ps p t a \<noteq> []" using assms by (simp add: decide_allowed_iff)
  from combined_masks_columns(1) [OF this] show ?thesis
    by (auto simp: decision_parts [OF assms] grants_for_set set_applicable)
qed

lemma allowed_matches:
  "is_allowed (decide ps p t a) \<longleftrightarrow>
     (\<exists>r \<in> set ps. matches p t a r \<and> effect r = Allow) \<and> (\<forall>r \<in> set ps. matches p t a r \<longrightarrow> effect r = Allow)"
  by (auto simp: is_allowed_exists set_applicable)

text \<open>
  C22: A principal may act on a table exactly when some rule of its own tenant, for a role it holds, that
  table and that action, grants it and no such rule denies it; rules of other tenants change nothing,
  and neither does the order of the rules. The tables listed to a principal are exactly those it may
  read. Where the engine reads a disjunction of clauses as one, the rows shown are exactly those some
  grant shows, and the columns masked are exactly those every grant masks.
\<close>

theorem policy_denies_by_default:
  assumes "reads_disjunction holds (clauses_of (grants_for ps p t a))"
  shows "(is_allowed (decide ps p t a) \<longleftrightarrow>
            (\<exists>r \<in> set ps. matches p t a r \<and> effect r = Allow) \<and>
            (\<forall>r \<in> set ps. matches p t a r \<longrightarrow> effect r = Allow)) \<and>
         decide (filter (\<lambda>r. ru_tenant r = tenant p) ps) p t a = decide ps p t a \<and>
         (\<forall>qs. mset ps = mset qs \<longrightarrow>
            is_allowed (decide ps p t a) = is_allowed (decide qs p t a) \<and>
            decision_row_filter (decide ps p t a) = decision_row_filter (decide qs p t a) \<and>
            fst ` set (decision_column_masks (decide ps p t a)) = fst ` set (decision_column_masks (decide qs p t a))) \<and>
         (t \<in> visible_tables ps p \<longleftrightarrow> authorize ps p t Read \<noteq> None) \<and>
         (is_allowed (decide ps p t a) \<longrightarrow>
            (\<forall>r. sees holds (decide ps p t a) r \<longleftrightarrow>
               (\<exists>g \<in> set ps. matches p t a g \<and> effect g = Allow \<and> sees_row holds (ru_filter g) r)) \<and>
            (\<forall>c. c \<in> fst ` set (decision_column_masks (decide ps p t a)) \<longleftrightarrow>
               (\<forall>g \<in> set ps. matches p t a g \<and> effect g = Allow \<longrightarrow> c \<in> masked_columns g)))"
proof (intro conjI impI allI)
  show "is_allowed (decide ps p t a) \<longleftrightarrow>
      (\<exists>r \<in> set ps. matches p t a r \<and> effect r = Allow) \<and>
      (\<forall>r \<in> set ps. matches p t a r \<longrightarrow> effect r = Allow)"
    by (rule allowed_matches)
  show "decide (filter (\<lambda>r. ru_tenant r = tenant p) ps) p t a = decide ps p t a"
    by (rule decide_other_tenants)
  show "t \<in> visible_tables ps p \<longleftrightarrow> authorize ps p t Read \<noteq> None"
    by (simp add: visible_tables_iff authorize_def from_decision_def is_allowed_def split: decision.split)
  show "sees holds (decide ps p t a) r \<longleftrightarrow>
      (\<exists>g \<in> set ps. matches p t a g \<and> effect g = Allow \<and> sees_row holds (ru_filter g) r)"
    if "is_allowed (decide ps p t a)" for r
    using assms that by (rule sees_iff)
  show "c \<in> fst ` set (decision_column_masks (decide ps p t a)) \<longleftrightarrow>
      (\<forall>g \<in> set ps. matches p t a g \<and> effect g = Allow \<longrightarrow> c \<in> masked_columns g)"
    if "is_allowed (decide ps p t a)" for c
    using that by (rule masked_iff)
qed (fact decide_perm)+

definition tidy_rules :: policy_set where
  "tidy_rules =
     [where_rows ''x'' (grant 1 ''a'' \<lparr>tr_schema = ''s'', tr_table = ''t''\<rparr> Read),
      where_rows ''y'' (grant 1 ''b'' \<lparr>tr_schema = ''s'', tr_table = ''t''\<rparr> Read)]"

theorem policy_denies_by_default_witness:
  "sees (\<lambda>f r. (r = ''x'' \<and> f \<noteq> ''y'') \<or> (r = ''y'' \<and> f \<noteq> ''x''))
     (decide tidy_rules \<lparr>subject = ''u'', tenant = 1, roles = {''a'', ''b''}, authentication = Password\<rparr>
        \<lparr>tr_schema = ''s'', tr_table = ''t''\<rparr> Read) ''y''"
  (is "sees ?holds (decide _ ?p ?t _) _")
proof -
  have cs: "clauses_of (grants_for tidy_rules ?p ?t Read) = [''x'', ''y'']"
    by (simp add: tidy_rules_def clauses_of_def grants_for_def applicable_def where_rows_def grant_def
      has_role_def map_filter_simps)
  have "reads_disjunction ?holds (clauses_of (grants_for tidy_rules ?p ?t Read))"
    unfolding cs by (auto simp: reads_disjunction_def disjunction_def)
  note holds = policy_denies_by_default [OF this]
  have m: "matches ?p ?t Read r \<and> effect r = Allow" if "r \<in> set tidy_rules" for r
    using that by (auto simp: tidy_rules_def matches_def where_rows_def grant_def has_role_def)
  have "is_allowed (decide tidy_rules ?p ?t Read)"
    unfolding allowed_matches using m by (metis list.set_intros(1) tidy_rules_def)
  with holds have "sees ?holds (decide tidy_rules ?p ?t Read) ''y'' \<longleftrightarrow>
      (\<exists>g \<in> set tidy_rules. matches ?p ?t Read g \<and> effect g = Allow \<and> sees_row ?holds (ru_filter g) ''y'')"
    by blast
  moreover have "where_rows ''y'' (grant 1 ''b'' ?t Read) \<in> set tidy_rules" by (simp add: tidy_rules_def)
  moreover have "sees_row ?holds (ru_filter (where_rows ''y'' (grant 1 ''b'' ?t Read))) ''y''"
    by (simp add: sees_row_def where_rows_def)
  ultimately show ?thesis using m by blast
qed

lemma adding_rules:
  assumes "matches p t a r"
  shows "effect r = Deny \<Longrightarrow> \<not> is_allowed (decide (policy_with ps r) p t a)"
    and "effect r = Allow \<Longrightarrow> is_allowed (decide ps p t a) \<Longrightarrow> is_allowed (decide (policy_with ps r) p t a)"
    and "effect r = Allow \<Longrightarrow> is_allowed (decide ps p t a) \<Longrightarrow>
      fst ` set (decision_column_masks (decide (policy_with ps r) p t a)) \<subseteq>
      fst ` set (decision_column_masks (decide ps p t a))"
proof -
  show "effect r = Deny \<Longrightarrow> \<not> is_allowed (decide (policy_with ps r) p t a)"
    using assms by (auto simp: allowed_matches policy_with_def)
  show wider: "effect r = Allow \<Longrightarrow> is_allowed (decide ps p t a) \<Longrightarrow> is_allowed (decide (policy_with ps r) p t a)"
    using assms by (auto simp: allowed_matches policy_with_def)
  show "effect r = Allow \<Longrightarrow> is_allowed (decide ps p t a) \<Longrightarrow>
      fst ` set (decision_column_masks (decide (policy_with ps r) p t a)) \<subseteq>
      fst ` set (decision_column_masks (decide ps p t a))"
    using wider by (auto simp: masked_iff subset_iff) (auto simp: policy_with_def)
qed

text \<open>
  Rows combine by union and masks by intersection, each on its own: a principal with two grants sees in
  the clear a cell that neither grant shows, a masked column of one on a row of the other.
\<close>

definition north_masked :: rule where
  "north_masked = masking ''email'' MaskNull (where_rows ''north'' (grant 1 ''a'' \<lparr>tr_schema = ''s'', tr_table = ''t''\<rparr> Read))"

definition south_clear :: rule where
  "south_clear = where_rows ''south'' (grant 1 ''b'' \<lparr>tr_schema = ''s'', tr_table = ''t''\<rparr> Read)"

lemma clear_cell_no_grant_shows:
  "decide [north_masked, south_clear]
      \<lparr>subject = ''u'', tenant = 1, roles = {''a'', ''b''}, authentication = Password\<rparr>
      \<lparr>tr_schema = ''s'', tr_table = ''t''\<rparr> Read = Allowed (Some ''(north) OR (south)'') []"
  by (simp add: decide_def applicable_def north_masked_def south_clear_def masking_def where_rows_def grant_def
      has_role_def Let_def combined_filter_def clauses_of_def combined_masks_def map_filter_simps disjunction_def)

text \<open>Where two grants mask one column differently, the mask that is applied is that of the first rule.\<close>

lemma first_mask_is_kept:
  "decision_column_masks (decide [masking ''c'' m (grant 1 ''a'' t Read), masking ''c'' n (grant 1 ''b'' t Read)]
      \<lparr>subject = ''u'', tenant = 1, roles = {''a'', ''b''}, authentication = Password\<rparr> t Read) = [(''c'', m)]"
  by (simp add: decide_def applicable_def masking_def grant_def has_role_def Let_def combined_masks_def
      decision_column_masks_def)

end
