(* ===== verification/Secured.thy ===== *)
theory Secured
  imports Authz
begin

text \<open>
  A table behind a decision: column masks, \<^verbatim>\<open>crates/sankhya-catalog/src/mask.rs\<close>, and the
  provider that enforces a guard on every scan, \<^verbatim>\<open>secured.rs\<close>. The query engine is not part
  of the program: its plans \<open>'p\<close>, its expressions \<open>'e\<close>, the table behind the guard and the
  constructors of plan nodes are parameters. A text is its UTF-8 bytes.
\<close>

subsection \<open>Masks\<close>

datatype 'v cell = NullCell | TextCell string | OtherCell 'v

datatype data_kind = Utf8 | LargeUtf8 | Untextual string

type_synonym table_fields = "(string \<times> data_kind) list"

definition textual :: "data_kind \<Rightarrow> bool" where
  "textual k \<longleftrightarrow> k = Utf8 \<or> k = LargeUtf8"

text \<open>\<open>str::chars\<close>: a character is a byte and the continuation bytes that follow it.\<close>

definition continuation :: "char \<Rightarrow> bool" where
  "continuation c \<longleftrightarrow> (let n = (of_char c :: nat) in 128 \<le> n \<and> n < 192)"

fun chars :: "string \<Rightarrow> string list" where
  "chars [] = []"
| "chars (c # s) =
     (case chars s of
        [] \<Rightarrow> [[c]]
      | ch # chs \<Rightarrow> if continuation (hd ch) then (c # ch) # chs else [c] # ch # chs)"

definition hide :: "string \<Rightarrow> nat \<Rightarrow> string" where
  "hide text keep =
     (let len = length (chars text) in
      if len < keep then text
      else replicate (len - keep) CHR ''*'' @ concat (drop (len - keep) (chars text)))"

datatype mask_error = NoSuchColumn string | NotText string data_kind | PartialNeedsText data_kind

text \<open>\<open>Masked::evaluate\<close> on the values of one column.\<close>

definition partial_mask :: "data_kind \<Rightarrow> nat \<Rightarrow> 'v cell list \<Rightarrow> mask_error + 'v cell list" where
  "partial_mask k keep vs =
     (if textual k then
        Inr (map (\<lambda>v. case v of TextCell t \<Rightarrow> TextCell (hide t keep) | _ \<Rightarrow> v) vs)
      else Inl (PartialNeedsText k))"

definition mask_column :: "mask \<Rightarrow> data_kind \<Rightarrow> 'v cell list \<Rightarrow> mask_error + 'v cell list" where
  "mask_column m k vs =
     (case m of
        MaskNull \<Rightarrow> Inr (replicate (length vs) NullCell)
      | Constant c \<Rightarrow> Inr (replicate (length vs) (TextCell c))
      | Partial keep \<Rightarrow> partial_mask k keep vs)"

definition mask_nullable :: "mask \<Rightarrow> bool \<Rightarrow> bool" where
  "mask_nullable m input = (case m of MaskNull \<Rightarrow> True | Constant _ \<Rightarrow> False | Partial _ \<Rightarrow> input)"

type_synonym masking_columns = "(string \<times> mask \<times> data_kind) list"

fun masking_over :: "(string \<times> mask) list \<Rightarrow> table_fields \<Rightarrow> mask_error + masking_columns" where
  "masking_over [] sch = Inr []"
| "masking_over ((n, m) # ms) sch =
     (case map_of sch n of
        None \<Rightarrow> Inl (NoSuchColumn n)
      | Some k \<Rightarrow>
          if \<not> textual k \<and> m \<noteq> MaskNull then Inl (NotText n k)
          else (case masking_over ms sch of
                  Inl e \<Rightarrow> Inl e
                | Inr cs \<Rightarrow> Inr ((n, m, k) # cs)))"

definition touches :: "masking_columns \<Rightarrow> table_fields \<Rightarrow> bool" where
  "touches cs sch \<longleftrightarrow> (\<exists>(n, _) \<in> set cs. n \<in> fst ` set sch)"

text \<open>A physical expression the code builds: a column, or a mask over one.\<close>

datatype physical = PhysColumn string nat | MaskedPhys physical mask data_kind

definition wrap :: "masking_columns \<Rightarrow> string \<Rightarrow> physical \<Rightarrow> physical" where
  "wrap cs c input =
     (case List.find (\<lambda>(n, _). n = c) cs of
        None \<Rightarrow> input
      | Some (_, m, k) \<Rightarrow> MaskedPhys input m k)"

definition reads_a_masked_column :: "masking_columns \<Rightarrow> string list \<Rightarrow> bool" where
  "reads_a_masked_column cs columns \<longleftrightarrow> (\<exists>c \<in> set columns. \<exists>(n, _) \<in> set cs. n = c)"

subsection \<open>The secured table\<close>

datatype pushdown = Unsupported | Inexact | Exact

record ('e, 'p) provider =
  pv_schema :: table_fields
  pv_support :: "'e list \<Rightarrow> pushdown list"
  pv_scan :: "nat list option \<Rightarrow> 'e list \<Rightarrow> nat option \<Rightarrow> 'p"

record ('e, 'p) engine =
  parse_filter :: "string \<Rightarrow> table_fields \<Rightarrow> string + 'e"
  columns_of :: "'e \<Rightarrow> string list"
  plan_schema :: "'p \<Rightarrow> table_fields"
  filter_exec :: "'e \<Rightarrow> 'p \<Rightarrow> string + 'p"
  projection_exec :: "(physical \<times> string) list \<Rightarrow> 'p \<Rightarrow> string + 'p"
  limit_exec :: "nat \<Rightarrow> 'p \<Rightarrow> 'p"

record ('e, 'p) secured_table =
  st_inner :: "('e, 'p) provider"
  st_guard :: guard
  st_filter :: "'e option"
  st_masking :: masking_columns

datatype open_error = BadFilter string | BadMask mask_error

definition secured_new ::
    "('e, 'p) engine \<Rightarrow> ('e, 'p) provider \<Rightarrow> guard \<Rightarrow> open_error + ('e, 'p) secured_table" where
  "secured_new eng inner g =
     and_then
       (case gu_filter g of
          None \<Rightarrow> Inr None
        | Some text \<Rightarrow>
            (case parse_filter eng text (pv_schema inner) of
               Inl e \<Rightarrow> Inl (BadFilter e)
             | Inr e \<Rightarrow> Inr (Some e)))
       (\<lambda>f. case masking_over (gu_masks g) (pv_schema inner) of
              Inl e \<Rightarrow> Inl (BadMask e)
            | Inr cs \<Rightarrow> Inr \<lparr>st_inner = inner, st_guard = g, st_filter = f, st_masking = cs\<rparr>)"

definition secured_support :: "('e, 'p) engine \<Rightarrow> ('e, 'p) secured_table \<Rightarrow> 'e list \<Rightarrow> pushdown list" where
  "secured_support eng st fs =
     map (\<lambda>(d, f). if reads_a_masked_column (st_masking st) (columns_of eng f) then Unsupported else d)
       (zip (pv_support (st_inner st) fs) fs) @ drop (length fs) (pv_support (st_inner st) fs)"

definition index_of :: "string \<Rightarrow> table_fields \<Rightarrow> nat option" where
  "index_of n sch = position (\<lambda>(m, _). m = n) sch"

definition widen_projection :: "nat list option \<Rightarrow> string list \<Rightarrow> table_fields \<Rightarrow> nat list option" where
  "widen_projection requested needed sch =
     map_option (\<lambda>req. foldl (\<lambda>w n.
         case index_of n sch of
           None \<Rightarrow> w
         | Some i \<Rightarrow> if i \<in> set w then w else w @ [i]) req needed) requested"

definition narrow_to_requested ::
    "('e, 'p) engine \<Rightarrow> 'p \<Rightarrow> nat list option \<Rightarrow> nat list option \<Rightarrow> string + 'p" where
  "narrow_to_requested eng plan requested widened =
     (case (requested, widened) of
        (Some req, Some w) \<Rightarrow>
          if length req = length w then Inr plan
          else projection_exec eng
            (map (\<lambda>i. (PhysColumn (fst (plan_schema eng plan ! i)) i, fst (plan_schema eng plan ! i)))
               [0..<length req]) plan
      | _ \<Rightarrow> Inr plan)"

definition apply_limit :: "('e, 'p) engine \<Rightarrow> 'p \<Rightarrow> nat option \<Rightarrow> 'p" where
  "apply_limit eng plan limit = (case limit of None \<Rightarrow> plan | Some n \<Rightarrow> limit_exec eng n plan)"

definition secured_rows ::
    "('e, 'p) engine \<Rightarrow> ('e, 'p) secured_table \<Rightarrow> nat list option \<Rightarrow> 'e list \<Rightarrow> nat option \<Rightarrow> string + 'p" where
  "secured_rows eng st requested fs limit =
     (case st_filter st of
        None \<Rightarrow> Inr (pv_scan (st_inner st) requested fs limit)
      | Some security \<Rightarrow>
          let every = fs @ [security];
              exact = (case pv_support (st_inner st) [security] of s # _ \<Rightarrow> s = Exact | [] \<Rightarrow> False)
          in if exact then Inr (pv_scan (st_inner st) requested every limit)
             else
               let widened = widen_projection requested (columns_of eng security) (pv_schema (st_inner st));
                   scan = pv_scan (st_inner st) widened every None
               in and_then (filter_exec eng security scan)
                    (\<lambda>filtered. and_then (narrow_to_requested eng filtered requested widened)
                       (\<lambda>narrowed. Inr (apply_limit eng narrowed limit))))"

definition obscured :: "('e, 'p) engine \<Rightarrow> ('e, 'p) secured_table \<Rightarrow> 'p \<Rightarrow> string + 'p" where
  "obscured eng st plan =
     (let sch = plan_schema eng plan in
      if \<not> touches (st_masking st) sch then Inr plan
      else projection_exec eng
        (map (\<lambda>(i, n, _). (wrap (st_masking st) n (PhysColumn n i), n)) (enumerate 0 sch)) plan)"

definition secured_scan ::
    "('e, 'p) engine \<Rightarrow> ('e, 'p) secured_table \<Rightarrow> nat list option \<Rightarrow> 'e list \<Rightarrow> nat option \<Rightarrow> string + 'p" where
  "secured_scan eng st requested fs limit =
     and_then (secured_rows eng st requested fs limit) (obscured eng st)"

subsection \<open>What masking keeps\<close>

definition mask_cell :: "mask \<Rightarrow> 'v cell \<Rightarrow> 'v cell" where
  "mask_cell m v =
     (case m of
        MaskNull \<Rightarrow> NullCell
      | Constant c \<Rightarrow> TextCell c
      | Partial keep \<Rightarrow> (case v of TextCell t \<Rightarrow> TextCell (hide t keep) | _ \<Rightarrow> v))"

lemma mask_column_eq:
  "m = MaskNull \<or> textual k \<Longrightarrow> mask_column m k vs = Inr (map (mask_cell m) vs)"
  by (cases m) (auto simp: mask_column_def partial_mask_def mask_cell_def fun_eq_iff map_replicate_const
      cong: map_cong)

lemma concat_chars: "concat (chars s) = s"
  by (induction s) (auto split: list.split)

lemma chars_nonempty: "ch \<in> set (chars s) \<Longrightarrow> ch \<noteq> []"
  by (induction s arbitrary: ch) (auto split: list.splits if_splits)

text \<open>A hidden text says how many characters it had and what the last of them were, nothing more.\<close>

lemma hide_reveals_the_tail:
  assumes "length (chars s) = length (chars t)" "keep \<le> length (chars s)"
    and "drop (length (chars s) - keep) (chars s) = drop (length (chars t) - keep) (chars t)"
  shows "hide s keep = hide t keep"
  using assms by (simp add: hide_def)

lemma masking_over_Inr:
  "masking_over ms sch = Inr cs \<Longrightarrow>
     map (\<lambda>(n, m, _). (n, m)) cs = ms \<and>
     (\<forall>(n, m, k) \<in> set cs. map_of sch n = Some k \<and> (textual k \<or> m = MaskNull))"
proof (induction ms sch arbitrary: cs rule: masking_over.induct)
  case (2 n m ms sch)
  then obtain k cs' where k: "map_of sch n = Some k" "textual k \<or> m = MaskNull"
    and cs': "masking_over ms sch = Inr cs'" "cs = (n, m, k) # cs'"
    by (auto split: option.splits if_splits sum.splits)
  with "2.IH" [OF k(1) _ cs'(1)] show ?case by auto
qed simp

lemma find_masking:
  "map (\<lambda>(n, m, _). (n, m)) cs = ms \<Longrightarrow>
     map_of ms c = map_option (\<lambda>(_, m, _). m) (List.find (\<lambda>(n, _). n = c) cs)"
  by (induction cs arbitrary: ms) auto

subsection \<open>What the engine and the table promise\<close>

definition env :: "table_fields \<Rightarrow> 'v cell list \<Rightarrow> string \<rightharpoonup> 'v cell" where
  "env sch r = map_of (zip (map fst sch) r)"

definition project :: "nat list option \<Rightarrow> 'a list \<Rightarrow> 'a list" where
  "project req xs = (case req of None \<Rightarrow> xs | Some idxs \<Rightarrow> map ((!) xs) idxs)"

definition within :: "nat list option \<Rightarrow> table_fields \<Rightarrow> bool" where
  "within req sch \<longleftrightarrow> (case req of None \<Rightarrow> True | Some idxs \<Rightarrow> \<forall>i \<in> set idxs. i < length sch)"

text \<open>The value of a physical expression on a row, where it has one.\<close>

fun phys_value :: "physical \<Rightarrow> 'v cell list \<Rightarrow> mask_error + 'v cell" where
  "phys_value (PhysColumn _ i) r = Inr (r ! i)"
| "phys_value (MaskedPhys x m k) r =
     and_then (phys_value x r) (\<lambda>v. case mask_column m k [v] of Inl e \<Rightarrow> Inl e | Inr vs \<Rightarrow> Inr (hd vs))"

text \<open>
  An expression reads the columns it names, all of them columns of the table it was parsed
  for; a filter keeps the rows its expression holds for, a projection evaluates its
  expressions on every row, a limit keeps some of the rows, as many as it says.
\<close>

definition lawful_engine ::
    "('e, 'p) engine \<Rightarrow> ('e \<Rightarrow> (string \<rightharpoonup> 'v cell) \<Rightarrow> bool) \<Rightarrow> ('p \<Rightarrow> 'v cell list multiset) \<Rightarrow> bool" where
  "lawful_engine eng holds run \<longleftrightarrow>
     (\<forall>e r q. (\<forall>c \<in> set (columns_of eng e). r c = q c) \<longrightarrow> holds e r = holds e q) \<and>
     (\<forall>t sch e. parse_filter eng t sch = Inr e \<longrightarrow> set (columns_of eng e) \<subseteq> fst ` set sch) \<and>
     (\<forall>e p q. filter_exec eng e p = Inr q \<longrightarrow> plan_schema eng q = plan_schema eng p \<and>
        run q = filter_mset (\<lambda>r. holds e (env (plan_schema eng p) r)) (run p)) \<and>
     (\<forall>cols p q. projection_exec eng cols p = Inr q \<longrightarrow> map fst (plan_schema eng q) = map snd cols \<and>
        (\<forall>f. (\<forall>r \<in># run p. map (\<lambda>(x, _). phys_value x r) cols = map Inr (f r)) \<longrightarrow>
           run q = image_mset f (run p))) \<and>
     (\<forall>n p. plan_schema eng (limit_exec eng n p) = plan_schema eng p \<and>
        run (limit_exec eng n p) \<subseteq># run p \<and> size (run (limit_exec eng n p)) = min n (size (run p)))"

definition declares_exact :: "('e, 'p) provider \<Rightarrow> 'e \<Rightarrow> bool" where
  "declares_exact pv f \<longleftrightarrow> (case pv_support pv [f] of s # _ \<Rightarrow> s = Exact | [] \<Rightarrow> False)"

text \<open>
  The table holds \<open>rows\<close>. A scan returns the columns asked for of some of the rows: no row
  that a filter declared exact refuses and, without a limit, every row that all filters hold for.
\<close>

definition lawful_provider ::
    "('e, 'p) engine \<Rightarrow> ('e \<Rightarrow> (string \<rightharpoonup> 'v cell) \<Rightarrow> bool) \<Rightarrow> ('p \<Rightarrow> 'v cell list multiset) \<Rightarrow>
     ('e, 'p) provider \<Rightarrow> 'v cell list multiset \<Rightarrow> bool" where
  "lawful_provider eng holds run pv rows \<longleftrightarrow>
     distinct (map fst (pv_schema pv)) \<and>
     (\<forall>r \<in># rows. length r = length (pv_schema pv)) \<and>
     (\<forall>req fs lim. within req (pv_schema pv) \<longrightarrow>
        map fst (plan_schema eng (pv_scan pv req fs lim)) = project req (map fst (pv_schema pv)) \<and>
        (\<exists>K. K \<subseteq># rows \<and> run (pv_scan pv req fs lim) = image_mset (project req) K \<and>
           (\<forall>f \<in> set fs. declares_exact pv f \<longrightarrow> (\<forall>r \<in># K. holds f (env (pv_schema pv) r))) \<and>
           (lim = None \<longrightarrow> filter_mset (\<lambda>r. \<forall>f \<in> set fs. holds f (env (pv_schema pv) r)) rows \<subseteq># K)))"

subsection \<open>Reading columns through a projection\<close>

lemma length_project: "length (project (Some idxs) xs) = length idxs"
  by (simp add: project_def)

lemma env_nth:
  assumes "distinct ns" "length r = length ns" "i < length ns"
  shows "map_of (zip ns r) (ns ! i) = Some (r ! i)"
  using assms by (metis map_of_zip_nth)

lemma zip_map_same: "zip (map f xs) (map g xs) = map (\<lambda>x. (f x, g x)) xs"
  by (induction xs) auto

lemma env_project:
  assumes "distinct (map fst sch)" "length r = length sch" "within req sch"
    and "map fst sch' = project req (map fst sch)" "c \<in> set (project req (map fst sch))"
  shows "env sch' (project req r) c = env sch r c"
proof (cases req)
  case None
  with assms show ?thesis by (simp add: env_def project_def)
next
  case (Some idxs)
  let ?ns = "map fst sch"
  have lt: "i < length sch" if "i \<in> set idxs" for i
    using assms(3) Some that by (simp add: within_def)
  have "env sch' (project req r) = map_of (map (\<lambda>i. (?ns ! i, r ! i)) idxs)"
    using assms(4) Some by (simp add: env_def project_def zip_map_same)
  moreover have "map_of (map (\<lambda>i. (?ns ! i, r ! i)) js) (?ns ! j) = Some (r ! j)"
    if "j \<in> set js" "set js \<subseteq> set idxs" for j js
    using that
  proof (induction js)
    case (Cons k js)
    show ?case
    proof (cases "?ns ! k = ?ns ! j")
      case True
      have "k < length ?ns" "j < length ?ns" using Cons.prems lt by auto
      with True assms(1) have "k = j" using nth_eq_iff_index_eq by blast
      then show ?thesis by simp
    next
      case False
      with Cons show ?thesis by auto
    qed
  qed simp
  moreover obtain j where j: "j \<in> set idxs" "c = ?ns ! j"
    using assms(5) Some by (auto simp: project_def)
  moreover have "env sch r (?ns ! j) = Some (r ! j)"
    unfolding env_def by (rule env_nth) (use assms(1,2) lt [OF j(1)] in auto)
  ultimately show ?thesis by simp
qed

lemma index_of_Some: "index_of n sch = Some i \<Longrightarrow> i < length sch \<and> map fst sch ! i = n"
  by (auto simp: index_of_def dest!: position_Some)

lemma index_of_None: "index_of n sch = None \<longleftrightarrow> n \<notin> fst ` set sch"
  by (force simp: index_of_def position_None)

lemma widen_fold:
  fixes needed :: "string list"
  defines "add \<equiv> \<lambda>sch (w :: nat list) n. case index_of n sch of None \<Rightarrow> w | Some i \<Rightarrow> if i \<in> set w then w else w @ [i]"
  shows "\<exists>ext. foldl (add sch) w needed = w @ ext \<and> (\<forall>i \<in> set ext. i < length sch) \<and>
    (\<forall>n \<in> set needed \<inter> fst ` set sch. \<exists>i \<in> set (w @ ext). i < length sch \<and> map fst sch ! i = n)"
proof (induction needed rule: rev_induct)
  case Nil
  then show ?case by simp
next
  case (snoc n needed)
  then obtain ext where ext: "foldl (add sch) w needed = w @ ext" "\<forall>i \<in> set ext. i < length sch"
    "\<forall>n \<in> set needed \<inter> fst ` set sch. \<exists>i \<in> set (w @ ext). i < length sch \<and> map fst sch ! i = n"
    by blast
  show ?case
  proof (cases "index_of n sch")
    case None
    then have "n \<notin> fst ` set sch" by (simp add: index_of_None)
    with ext None show ?thesis
      by (intro exI [of _ ext]) (auto simp: add_def)
  next
    case (Some i)
    note i = index_of_Some [OF Some]
    show ?thesis
    proof (cases "i \<in> set (w @ ext)")
      case True
      with ext Some i show ?thesis
        by (intro exI [of _ ext]) (auto simp: add_def)
    next
      case False
      with ext Some i show ?thesis
        by (intro exI [of _ "ext @ [i]"]) (auto simp: add_def)
    qed
  qed
qed

lemma widen_spec:
  assumes "widen_projection (Some req) needed sch = Some w"
  obtains ext where "w = req @ ext" "\<forall>i \<in> set ext. i < length sch"
    "\<forall>n \<in> set needed \<inter> fst ` set sch. \<exists>i \<in> set w. i < length sch \<and> map fst sch ! i = n"
  using assms widen_fold [where needed = needed and sch = sch and w = req]
  by (auto simp: widen_projection_def)

lemma widened_within:
  assumes "within req sch"
  shows "within (widen_projection req needed sch) sch"
    and "set needed \<subseteq> fst ` set sch \<Longrightarrow> set needed \<subseteq> set (project (widen_projection req needed sch) (map fst sch))"
proof -
  have "within (widen_projection req needed sch) sch \<and>
      (set needed \<subseteq> fst ` set sch \<longrightarrow> set needed \<subseteq> set (project (widen_projection req needed sch) (map fst sch)))"
  proof (cases req)
    case None
    then show ?thesis by (auto simp: widen_projection_def within_def project_def)
  next
    case (Some idxs)
    then obtain w where w: "widen_projection (Some idxs) needed sch = Some w"
      by (simp add: widen_projection_def)
    then obtain ext where "w = idxs @ ext" "\<forall>i \<in> set ext. i < length sch"
      "\<forall>n \<in> set needed \<inter> fst ` set sch. \<exists>i \<in> set w. i < length sch \<and> map fst sch ! i = n"
      by (rule widen_spec)
    note wide = this
    have "within (Some w) sch"
      using wide(1,2) Some assms by (auto simp: within_def)
    moreover have "set needed \<subseteq> set (project (Some w) (map fst sch))" if "set needed \<subseteq> fst ` set sch"
    proof
      fix n assume "n \<in> set needed"
      with that have "n \<in> set needed \<inter> fst ` set sch" by blast
      with wide(3) obtain i where "i \<in> set w" "map fst sch ! i = n" by blast
      then show "n \<in> set (project (Some w) (map fst sch))"
        by (auto simp: project_def)
    qed
    ultimately show ?thesis using w Some by simp
  qed
  then show "within (widen_projection req needed sch) sch"
    "set needed \<subseteq> fst ` set sch \<Longrightarrow> set needed \<subseteq> set (project (widen_projection req needed sch) (map fst sch))"
    by blast+
qed

lemma image_mset_subset:
  "M \<subseteq># image_mset f K \<Longrightarrow> \<exists>L. L \<subseteq># K \<and> M = image_mset f L"
  by (metis image_mset_eq_plusD mset_subset_eq_add_left subset_mset.le_iff_add)

subsection \<open>The scan\<close>

definition obscure :: "(string \<times> mask) list \<Rightarrow> string list \<Rightarrow> 'v cell list \<Rightarrow> 'v cell list" where
  "obscure ms ns r =
     map (\<lambda>(n, v). case map_of ms n of None \<Rightarrow> v | Some m \<Rightarrow> mask_cell m v) (zip ns r)"

lemma lawful_engineD:
  assumes "lawful_engine eng holds run"
  shows "(\<And>c. c \<in> set (columns_of eng e) \<Longrightarrow> r c = q c) \<Longrightarrow> holds e r = holds e q"
    and "parse_filter eng t sch = Inr e \<Longrightarrow> set (columns_of eng e) \<subseteq> fst ` set sch"
    and "filter_exec eng e p = Inr p' \<Longrightarrow> plan_schema eng p' = plan_schema eng p \<and>
        run p' = filter_mset (\<lambda>r. holds e (env (plan_schema eng p) r)) (run p)"
    and "projection_exec eng cols p = Inr p' \<Longrightarrow> map fst (plan_schema eng p') = map snd cols"
    and "projection_exec eng cols p = Inr p' \<Longrightarrow>
        (\<And>r. r \<in># run p \<Longrightarrow> map (\<lambda>(x, _). phys_value x r) cols = map Inr (f r)) \<Longrightarrow>
        run p' = image_mset f (run p)"
    and "plan_schema eng (limit_exec eng n p) = plan_schema eng p"
    and "run (limit_exec eng n p) \<subseteq># run p"
  using assms unfolding lawful_engine_def by blast+

lemma lawful_providerD:
  assumes "lawful_provider eng holds run pv rows"
  shows "distinct (map fst (pv_schema pv))"
    and "r \<in># rows \<Longrightarrow> length r = length (pv_schema pv)"
    and "within req (pv_schema pv) \<Longrightarrow>
        map fst (plan_schema eng (pv_scan pv req fs lim)) = project req (map fst (pv_schema pv))"
    and "within req (pv_schema pv) \<Longrightarrow>
        \<exists>K. K \<subseteq># rows \<and> run (pv_scan pv req fs lim) = image_mset (project req) K \<and>
           (\<forall>f \<in> set fs. declares_exact pv f \<longrightarrow> (\<forall>r \<in># K. holds f (env (pv_schema pv) r))) \<and>
           (lim = None \<longrightarrow> filter_mset (\<lambda>r. \<forall>f \<in> set fs. holds f (env (pv_schema pv) r)) rows \<subseteq># K)"
  using assms unfolding lawful_provider_def by blast+

text \<open>What a plan over the table shows: the columns asked for, of rows that are permitted.\<close>

definition shows_permitted ::
    "('e, 'p) engine \<Rightarrow> ('p \<Rightarrow> 'v cell list multiset) \<Rightarrow> table_fields \<Rightarrow> 'v cell list multiset \<Rightarrow>
     nat list option \<Rightarrow> ('v cell list \<Rightarrow> bool) \<Rightarrow> ('v cell list \<Rightarrow> bool) \<Rightarrow> bool \<Rightarrow> 'p \<Rightarrow> bool" where
  "shows_permitted eng run sch rows req permitted wanted whole plan \<longleftrightarrow>
     map fst (plan_schema eng plan) = project req (map fst sch) \<and>
     (\<exists>K. K \<subseteq># rows \<and> run plan = image_mset (project req) K \<and> (\<forall>r \<in># K. permitted r) \<and>
        (whole \<longrightarrow> filter_mset (\<lambda>r. permitted r \<and> wanted r) rows \<subseteq># K))"

lemma shows_limit:
  assumes "lawful_engine eng holds run" "shows_permitted eng run sch rows req P W True plan"
  shows "shows_permitted eng run sch rows req P W (limit = None) (apply_limit eng plan limit)"
proof (cases limit)
  case None
  with assms(2) show ?thesis by (simp add: apply_limit_def)
next
  case (Some n)
  from assms(2) obtain K where K: "K \<subseteq># rows" "run plan = image_mset (project req) K" "\<forall>r \<in># K. P r"
    by (auto simp: shows_permitted_def)
  have "run (limit_exec eng n plan) \<subseteq># image_mset (project req) K"
    using lawful_engineD(7) [OF assms(1), of n plan] K(2) by simp
  from image_mset_subset [OF this] obtain L where L: "L \<subseteq># K" "run (limit_exec eng n plan) = image_mset (project req) L"
    by blast
  have "\<forall>r \<in># L. P r" using L(1) K(3) by (meson mset_subset_eqD)
  moreover have "L \<subseteq># rows" using L(1) K(1) by (rule subset_mset.order_trans)
  ultimately show ?thesis
    using L(2) assms Some lawful_engineD(6) [OF assms(1)]
    by (auto simp: shows_permitted_def apply_limit_def)
qed

lemma shows_narrowed:
  assumes "lawful_engine eng holds run" "within req sch"
    and "shows_permitted eng run sch rows (widen_projection req needed sch) P W b plan"
    and "narrow_to_requested eng plan req (widen_projection req needed sch) = Inr plan'"
  shows "shows_permitted eng run sch rows req P W b plan'"
proof (cases req)
  case None
  with assms(3,4) show ?thesis by (auto simp: narrow_to_requested_def widen_projection_def split: option.splits)
next
  case (Some idxs)
  then obtain w where w: "widen_projection (Some idxs) needed sch = Some w"
    by (simp add: widen_projection_def)
  then obtain ext where ext: "w = idxs @ ext" by (rule widen_spec)
  show ?thesis
  proof (cases "ext = []")
    case True
    with assms(3,4) Some w ext show ?thesis by (simp add: narrow_to_requested_def)
  next
    case False
    let ?cols = "map (\<lambda>i. (PhysColumn (fst (plan_schema eng plan ! i)) i, fst (plan_schema eng plan ! i))) [0..<length idxs]"
    from assms(4) False Some w ext have p: "projection_exec eng ?cols plan = Inr plan'"
      by (simp add: narrow_to_requested_def)
    from assms(3) Some w obtain K where K: "K \<subseteq># rows" "run plan = image_mset (project (Some w)) K" "\<forall>r \<in># K. P r"
      "b \<longrightarrow> filter_mset (\<lambda>r. P r \<and> W r) rows \<subseteq># K"
      and names: "map fst (plan_schema eng plan) = project (Some w) (map fst sch)"
      by (auto simp: shows_permitted_def)
    have first: "take (length idxs) (project (Some w) xs) = project (Some idxs) xs" for xs :: "'z list"
      by (simp add: project_def ext)
    have "map (\<lambda>(x, _). phys_value x r) ?cols = map Inr (take (length idxs) r)"
      if "r \<in># run plan" for r
    proof -
      from that K(2) have "length r = length w" by (auto simp: length_project)
      with ext have "length idxs \<le> length r" by simp
      then show ?thesis by (intro nth_equalityI) auto
    qed
    from lawful_engineD(5) [OF assms(1) p this] have "run plan' = image_mset (project (Some idxs)) K"
      by (simp add: K(2) image_mset.compositionality o_def first)
    moreover have "map fst (plan_schema eng plan') = project (Some idxs) (map fst sch)"
    proof -
      have len: "length (plan_schema eng plan) = length w"
        using names by (metis length_map length_project)
      have "map fst (plan_schema eng plan') = take (length idxs) (map fst (plan_schema eng plan))"
        unfolding lawful_engineD(4) [OF assms(1) p] using len ext
        by (intro nth_equalityI) auto
      then show ?thesis by (simp only: names first)
    qed
    ultimately show ?thesis using K Some by (auto simp: shows_permitted_def)
  qed
qed

definition permitted :: "('e \<Rightarrow> (string \<rightharpoonup> 'v cell) \<Rightarrow> bool) \<Rightarrow> table_fields \<Rightarrow> 'e option \<Rightarrow> 'v cell list \<Rightarrow> bool" where
  "permitted holds sch f r \<longleftrightarrow> (case f of None \<Rightarrow> True | Some e \<Rightarrow> holds e (env sch r))"

lemma filter_through_projection:
  assumes "lawful_engine eng holds run" "lawful_provider eng holds run pv rows"
    and "within w (pv_schema pv)" "set (columns_of eng e) \<subseteq> set (project w (map fst (pv_schema pv)))"
    and "map fst sch' = project w (map fst (pv_schema pv))" "r \<in># rows"
  shows "holds e (env sch' (project w r)) \<longleftrightarrow> holds e (env (pv_schema pv) r)"
proof (rule lawful_engineD(1) [OF assms(1)])
  fix c assume "c \<in> set (columns_of eng e)"
  with assms(4) have "c \<in> set (project w (map fst (pv_schema pv)))" by blast
  then show "env sch' (project w r) c = env (pv_schema pv) r c"
    using env_project [OF lawful_providerD(1) [OF assms(2)] lawful_providerD(2) [OF assms(2,6)] assms(3,5)] by blast
qed

lemma shows_filtered:
  assumes "lawful_engine eng holds run" "lawful_provider eng holds run pv rows"
    and "within w (pv_schema pv)" "set (columns_of eng e) \<subseteq> set (project w (map fst (pv_schema pv)))"
    and "filter_exec eng e (pv_scan pv w (fs @ [e]) None) = Inr plan"
  shows "shows_permitted eng run (pv_schema pv) rows w (permitted holds (pv_schema pv) (Some e))
    (\<lambda>r. \<forall>f \<in> set fs. holds f (env (pv_schema pv) r)) True plan"
proof -
  let ?scan = "pv_scan pv w (fs @ [e]) None" and ?P = "\<lambda>r. holds e (env (pv_schema pv) r)"
  note names = lawful_providerD(3) [OF assms(2,3), of "fs @ [e]" None]
  from lawful_providerD(4) [OF assms(2,3), of "fs @ [e]" None] obtain K where
    K: "K \<subseteq># rows" "run ?scan = image_mset (project w) K"
      "filter_mset (\<lambda>r. \<forall>f \<in> set (fs @ [e]). holds f (env (pv_schema pv) r)) rows \<subseteq># K"
    by blast
  have "run plan = filter_mset (\<lambda>r. holds e (env (plan_schema eng ?scan) r)) (image_mset (project w) K)"
    using lawful_engineD(3) [OF assms(1,5)] K(2) by simp
  also have "\<dots> = image_mset (project w) (filter_mset (\<lambda>r. holds e (env (plan_schema eng ?scan) (project w r))) K)"
    by (simp add: filter_mset_image_mset)
  also have "filter_mset (\<lambda>r. holds e (env (plan_schema eng ?scan) (project w r))) K = filter_mset ?P K"
    using filter_through_projection [OF assms(1,2,3,4) names] K(1)
    by (intro filter_mset_cong refl) (meson mset_subset_eqD)
  finally have r: "run plan = image_mset (project w) (filter_mset ?P K)" .
  have "filter_mset (\<lambda>r. ?P r \<and> (\<forall>f \<in> set fs. holds f (env (pv_schema pv) r))) rows =
      filter_mset ?P (filter_mset (\<lambda>r. \<forall>f \<in> set (fs @ [e]). holds f (env (pv_schema pv) r)) rows)"
    unfolding filter_filter_mset by (intro filter_mset_cong refl) auto
  also have "\<dots> \<subseteq># filter_mset ?P K"
    using K(3) by (rule multiset_filter_mono)
  finally have whole: "filter_mset (\<lambda>r. ?P r \<and> (\<forall>f \<in> set fs. holds f (env (pv_schema pv) r))) rows \<subseteq># filter_mset ?P K" .
  have "filter_mset ?P K \<subseteq># rows" using K(1) multiset_filter_subset subset_mset.order_trans by blast
  then show ?thesis
    unfolding shows_permitted_def permitted_def option.case
    using r whole names lawful_engineD(3) [OF assms(1,5)]
    by (intro conjI exI [of _ "filter_mset ?P K"]) auto
qed

lemma shows_rows:
  assumes "lawful_engine eng holds run" "lawful_provider eng holds run (st_inner st) rows"
    and "within req (pv_schema (st_inner st))"
    and "\<And>e. st_filter st = Some e \<Longrightarrow> set (columns_of eng e) \<subseteq> fst ` set (pv_schema (st_inner st))"
    and "secured_rows eng st req fs limit = Inr plan"
  shows "shows_permitted eng run (pv_schema (st_inner st)) rows req
    (permitted holds (pv_schema (st_inner st)) (st_filter st))
    (\<lambda>r. \<forall>f \<in> set fs. holds f (env (pv_schema (st_inner st)) r)) (limit = None) plan"
proof (cases "st_filter st")
  case None
  with assms(5) have "plan = pv_scan (st_inner st) req fs limit" by (simp add: secured_rows_def)
  with None lawful_providerD(3,4) [OF assms(2,3), of fs limit] show ?thesis
    by (auto simp: shows_permitted_def permitted_def)
next
  case (Some e)
  show ?thesis
  proof (cases "declares_exact (st_inner st) e")
    case True
    with assms(5) Some have plan: "plan = pv_scan (st_inner st) req (fs @ [e]) limit"
      by (simp add: secured_rows_def declares_exact_def)
    from lawful_providerD(4) [OF assms(2,3), of "fs @ [e]" limit] True obtain K where
      K: "K \<subseteq># rows" "run plan = image_mset (project req) K"
        "\<forall>r \<in># K. holds e (env (pv_schema (st_inner st)) r)"
        "limit = None \<longrightarrow> filter_mset (\<lambda>r. \<forall>f \<in> set (fs @ [e]). holds f (env (pv_schema (st_inner st)) r)) rows \<subseteq># K"
      unfolding plan by auto
    have "filter_mset (\<lambda>r. \<forall>f \<in> set (fs @ [e]). holds f (env (pv_schema (st_inner st)) r)) rows =
        filter_mset (\<lambda>r. holds e (env (pv_schema (st_inner st)) r) \<and>
          (\<forall>f \<in> set fs. holds f (env (pv_schema (st_inner st)) r))) rows"
      by (intro filter_mset_cong refl) auto
    with K Some lawful_providerD(3) [OF assms(2,3), of "fs @ [e]" limit] show ?thesis
      unfolding shows_permitted_def permitted_def plan by auto
  next
    case False
    let ?w = "widen_projection req (columns_of eng e) (pv_schema (st_inner st))"
    from assms(5) Some False obtain filtered narrowed where
      f: "filter_exec eng e (pv_scan (st_inner st) ?w (fs @ [e]) None) = Inr filtered"
      and n: "narrow_to_requested eng filtered req ?w = Inr narrowed"
      and p: "plan = apply_limit eng narrowed limit"
      by (auto simp: secured_rows_def declares_exact_def Let_def)
    note shows_filtered [OF assms(1,2) widened_within(1) [OF assms(3)] widened_within(2) [OF assms(3) assms(4) [OF Some]] f]
    from shows_narrowed [OF assms(1,3) this n] shows_limit [OF assms(1)] show ?thesis
      unfolding p Some by blast
  qed
qed

lemma obscure_untouched:
  assumes "\<not> touches cs sch" "map (\<lambda>(n, m, _). (n, m)) cs = ms" "map fst sch = ns" "length r = length ns"
  shows "obscure ms ns r = r"
proof -
  have "map_of ms n = None" if "n \<in> set ns" for n
  proof -
    have "n \<notin> fst ` set cs" using assms(1,3) that by (force simp: touches_def)
    moreover have "fst ` set ms = fst ` set cs" by (force simp: assms(2) [symmetric])
    ultimately show ?thesis by (simp add: map_of_eq_None_iff)
  qed
  then have "obscure ms ns r = map snd (zip ns r)"
    unfolding obscure_def by (intro map_cong refl) (auto dest: set_zip_leftD split: option.split)
  with assms(4) show ?thesis by simp
qed

lemma obscured_rows:
  assumes "lawful_engine eng holds run" "obscured eng st plan = Inr plan'"
    and "masking_over ms sch0 = Inr (st_masking st)"
    and "\<forall>r \<in># run plan. length r = length (plan_schema eng plan)"
  shows "map fst (plan_schema eng plan') = map fst (plan_schema eng plan) \<and>
    run plan' = image_mset (obscure ms (map fst (plan_schema eng plan))) (run plan)"
proof (cases "touches (st_masking st) (plan_schema eng plan)")
  case False
  have "obscure ms (map fst (plan_schema eng plan)) r = r" if "r \<in># run plan" for r
  proof (rule obscure_untouched [OF False conjunct1 [OF masking_over_Inr [OF assms(3)]] refl])
    show "length r = length (map fst (plan_schema eng plan))" using that assms(4) by simp
  qed
  then have "image_mset (obscure ms (map fst (plan_schema eng plan))) (run plan) = run plan"
    by (metis image_mset_cong image_mset_id id_apply)
  with False assms(2) show ?thesis by (simp add: obscured_def)
next
  case True
  let ?sch = "plan_schema eng plan"
  let ?cols = "map (\<lambda>(i, n, _). (wrap (st_masking st) n (PhysColumn n i), n)) (enumerate 0 ?sch)"
  from True assms(2) have p: "projection_exec eng ?cols plan = Inr plan'" by (simp add: obscured_def)
  note masks = masking_over_Inr [OF assms(3)]
  have phys: "phys_value (wrap (st_masking st) n (PhysColumn n i)) r =
      Inr (case map_of ms n of None \<Rightarrow> r ! i | Some m \<Rightarrow> mask_cell m (r ! i))" for n i and r :: "'c cell list"
  proof (cases "List.find (\<lambda>(k, _). k = n) (st_masking st)")
    case None
    then show ?thesis by (simp add: wrap_def find_masking [OF conjunct1 [OF masks]])
  next
    case (Some x)
    obtain k m d where x: "x = (k, m, d)" by (cases x)
    from Some x masks have "textual d \<or> m = MaskNull" by (force dest: find_SomeD)
    then have "mask_column m d [r ! i] = Inr [mask_cell m (r ! i)]" by (subst mask_column_eq) auto
    with Some x show ?thesis by (simp add: wrap_def find_masking [OF conjunct1 [OF masks]])
  qed
  have "map (\<lambda>(x, _). phys_value x r) ?cols = map Inr (obscure ms (map fst ?sch) r)"
    if "r \<in># run plan" for r
    using that assms(4)
    by (intro nth_equalityI)
      (auto simp: phys obscure_def nth_enumerate_eq case_prod_unfold split: option.split)
  from lawful_engineD(5) [OF assms(1) p this]
  have "run plan' = image_mset (obscure ms (map fst ?sch)) (run plan)" .
  moreover have "map fst (plan_schema eng plan') = map fst ?sch"
    unfolding lawful_engineD(4) [OF assms(1) p]
    by (intro nth_equalityI) (auto simp: nth_enumerate_eq case_prod_unfold)
  ultimately show ?thesis by simp
qed

subsection \<open>Only what was granted\<close>

text \<open>What a clause means to the engine, on a row of the table.\<close>

definition clause_holds ::
    "('e, 'p) engine \<Rightarrow> ('e \<Rightarrow> (string \<rightharpoonup> 'v cell) \<Rightarrow> bool) \<Rightarrow> table_fields \<Rightarrow> string \<Rightarrow> 'v cell list \<Rightarrow> bool" where
  "clause_holds eng holds sch c r \<longleftrightarrow>
     (case parse_filter eng c sch of Inl _ \<Rightarrow> False | Inr e \<Rightarrow> holds e (env sch r))"

definition some_grant_shows ::
    "policy_set \<Rightarrow> authz_principal \<Rightarrow> table_ref \<Rightarrow> (string \<Rightarrow> 'r \<Rightarrow> bool) \<Rightarrow> 'r \<Rightarrow> bool" where
  "some_grant_shows ps p tb means r \<longleftrightarrow>
     (\<exists>gr \<in> set ps. matches p tb Read gr \<and> effect gr = Allow \<and> sees_row means (ru_filter gr) r)"

lemma secured_new_Inr:
  assumes "secured_new eng inner g = Inr st"
  shows "st_inner st = inner" "masking_over (gu_masks g) (pv_schema inner) = Inr (st_masking st)"
    and "sees_row (clause_holds eng holds (pv_schema inner)) (gu_filter g) r \<longleftrightarrow>
      permitted holds (pv_schema inner) (st_filter st) r"
    and "st_filter st = Some e \<Longrightarrow> \<exists>t. parse_filter eng t (pv_schema inner) = Inr e"
  using assms
  by (auto simp: secured_new_def sees_row_def permitted_def clause_holds_def split: option.splits sum.splits)

lemma authorize_Some:
  assumes "authorize ps p tb a = Some g"
  shows "is_allowed (decide ps p tb a)" "gu_filter g = decision_row_filter (decide ps p tb a)"
    "gu_masks g = decision_column_masks (decide ps p tb a)"
  using assms
  by (auto simp: authorize_def from_decision_def is_allowed_def decision_row_filter_def
      decision_column_masks_def split: decision.splits)

lemma some_grant_shows_guard:
  assumes "authorize ps p tb Read = Some g" "reads_disjunction means (clauses_of (grants_for ps p tb Read))"
  shows "some_grant_shows ps p tb means r \<longleftrightarrow> sees_row means (gu_filter g) r"
  using sees_iff [OF assms(2) authorize_Some(1) [OF assms(1)]]
  by (simp add: some_grant_shows_def sees_def authorize_Some [OF assms(1)])

text \<open>
  C21: Whatever a query asks of a table opened under a policy decision, the columns it gets are those it
  asked for, and each row it gets is a row of the table that some grant of the principal shows, with
  every column that all its grants mask obscured; without a limit no row that a grant shows and the
  query wants is missing. A query's own filter is pushed below the masks only if it reads
  no masked column. This rests on what the engine and the table promise, not on their cooperation: the table may
  ignore every filter that it has not declared exact.
\<close>

theorem secured_scan_shows_what_was_granted:
  assumes "lawful_engine eng holds run" "lawful_provider eng holds run inner rows"
    and "authorize ps p tb Read = Some g" "secured_new eng inner g = Inr st"
    and "reads_disjunction (clause_holds eng holds (pv_schema inner)) (clauses_of (grants_for ps p tb Read))"
    and "within req (pv_schema inner)" "secured_scan eng st req fs limit = Inr plan"
  shows "map fst (plan_schema eng plan) = project req (map fst (pv_schema inner)) \<and>
    (\<exists>K. K \<subseteq># rows \<and>
       run plan = image_mset (\<lambda>r. obscure (gu_masks g) (project req (map fst (pv_schema inner))) (project req r)) K \<and>
       (\<forall>r \<in># K. some_grant_shows ps p tb (clause_holds eng holds (pv_schema inner)) r) \<and>
       (limit = None \<longrightarrow> filter_mset (\<lambda>r. some_grant_shows ps p tb (clause_holds eng holds (pv_schema inner)) r \<and>
          (\<forall>f \<in> set fs. holds f (env (pv_schema inner) r))) rows \<subseteq># K)) \<and>
    (\<forall>c. c \<in> fst ` set (gu_masks g) \<longleftrightarrow>
       (\<forall>gr \<in> set ps. matches p tb Read gr \<and> effect gr = Allow \<longrightarrow> c \<in> masked_columns gr)) \<and>
    (\<forall>f s. secured_support eng st [f] = [s] \<and> s \<noteq> Unsupported \<longrightarrow>
       set (columns_of eng f) \<inter> fst ` set (gu_masks g) = {})"
proof (intro conjI allI impI)
  note new = secured_new_Inr [OF assms(4)]
  note guard = some_grant_shows_guard [OF assms(3,5)]
  from assms(7) obtain plan0 where rows: "secured_rows eng st req fs limit = Inr plan0"
    and obs: "obscured eng st plan0 = Inr plan"
    by (auto simp: secured_scan_def)
  have perm: "permitted holds (pv_schema inner) (st_filter st) =
      some_grant_shows ps p tb (clause_holds eng holds (pv_schema inner))"
    by (simp add: fun_eq_iff guard new(3))
  have "set (columns_of eng e) \<subseteq> fst ` set (pv_schema (st_inner st))" if "st_filter st = Some e" for e
    using new(1) new(4) [OF that] lawful_engineD(2) [OF assms(1)] by blast
  from shows_rows [OF assms(1) _ _ this rows, of rows] assms(2,6) new(1)
  have "shows_permitted eng run (pv_schema inner) rows req
      (some_grant_shows ps p tb (clause_holds eng holds (pv_schema inner)))
      (\<lambda>r. \<forall>f \<in> set fs. holds f (env (pv_schema inner) r)) (limit = None) plan0"
    by (simp add: perm)
  then obtain K where names: "map fst (plan_schema eng plan0) = project req (map fst (pv_schema inner))"
    and K: "K \<subseteq># rows" "run plan0 = image_mset (project req) K"
      "\<forall>r \<in># K. some_grant_shows ps p tb (clause_holds eng holds (pv_schema inner)) r"
      "limit = None \<longrightarrow> filter_mset (\<lambda>r. some_grant_shows ps p tb (clause_holds eng holds (pv_schema inner)) r \<and>
          (\<forall>f \<in> set fs. holds f (env (pv_schema inner) r))) rows \<subseteq># K"
    by (auto simp: shows_permitted_def)
  have "length (project req r) = length (plan_schema eng plan0)" if "r \<in># K" for r
  proof -
    have "length r = length (pv_schema inner)"
      using that K(1) lawful_providerD(2) [OF assms(2)] by (meson mset_subset_eqD)
    then have "length (project req r) = length (project req (map fst (pv_schema inner)))"
      by (simp add: project_def split: option.split)
    with names show ?thesis by (metis length_map)
  qed
  then have "\<forall>r \<in># run plan0. length r = length (plan_schema eng plan0)" by (auto simp: K(2))
  note out = obscured_rows [OF assms(1) obs new(2) this]
  then show "map fst (plan_schema eng plan) = project req (map fst (pv_schema inner))" by (simp add: names)
  show "\<exists>K. K \<subseteq># rows \<and>
      run plan = image_mset (\<lambda>r. obscure (gu_masks g) (project req (map fst (pv_schema inner))) (project req r)) K \<and>
      (\<forall>r \<in># K. some_grant_shows ps p tb (clause_holds eng holds (pv_schema inner)) r) \<and>
      (limit = None \<longrightarrow> filter_mset (\<lambda>r. some_grant_shows ps p tb (clause_holds eng holds (pv_schema inner)) r \<and>
         (\<forall>f \<in> set fs. holds f (env (pv_schema inner) r))) rows \<subseteq># K)"
    using K out names by (intro exI [of _ K]) (simp add: image_mset.compositionality o_def)
  show "c \<in> fst ` set (gu_masks g) \<longleftrightarrow>
      (\<forall>gr \<in> set ps. matches p tb Read gr \<and> effect gr = Allow \<longrightarrow> c \<in> masked_columns gr)" for c
    unfolding authorize_Some(3) [OF assms(3)] by (rule masked_iff [OF authorize_Some(1) [OF assms(3)]])
  have "fst ` set (gu_masks g) = fst ` set (st_masking st)"
    by (force simp: conjunct1 [OF masking_over_Inr [OF new(2)], symmetric])
  then show "set (columns_of eng f) \<inter> fst ` set (gu_masks g) = {}"
    if "secured_support eng st [f] = [s] \<and> s \<noteq> Unsupported" for f s
    using that by (cases "pv_support (st_inner st) [f]")
      (auto simp: secured_support_def reads_a_masked_column_def split: if_splits)
qed

text \<open>An engine and a table that keep their promises: the table declines every filter.\<close>

definition sample_holds :: "string \<times> string \<Rightarrow> (string \<rightharpoonup> unit cell) \<Rightarrow> bool" where
  "sample_holds e r \<longleftrightarrow> r (fst e) = Some (TextCell (snd e))"

definition sample_engine :: "(string \<times> string, table_fields \<times> unit cell list list) engine" where
  "sample_engine =
     \<lparr>parse_filter = (\<lambda>t sch. if ''region'' \<in> fst ` set sch then Inr (''region'', t) else Inl t),
      columns_of = (\<lambda>e. [fst e]),
      plan_schema = fst,
      filter_exec = (\<lambda>e p. Inr (fst p, filter (\<lambda>r. sample_holds e (env (fst p) r)) (snd p))),
      projection_exec = (\<lambda>cols p. Inr (map (\<lambda>(_, n). (n, Utf8)) cols,
        map (\<lambda>r. map (\<lambda>(x, _). projr (phys_value x r)) cols) (snd p))),
      limit_exec = (\<lambda>n p. (fst p, take n (snd p)))\<rparr>"

definition sample_run :: "table_fields \<times> unit cell list list \<Rightarrow> unit cell list multiset" where
  "sample_run p = mset (snd p)"

definition sample_fields :: table_fields where
  "sample_fields = [(''region'', Utf8), (''email'', Utf8)]"

definition sample_rows :: "unit cell list list" where
  "sample_rows = [[TextCell ''north'', TextCell ''a@b''], [TextCell ''south'', TextCell ''c@d'']]"

definition sample_table :: "(string \<times> string, table_fields \<times> unit cell list list) provider" where
  "sample_table =
     \<lparr>pv_schema = sample_fields, pv_support = map (\<lambda>_. Inexact),
      pv_scan = (\<lambda>req fs lim. (project req sample_fields, map (project req) sample_rows))\<rparr>"

lemma sample_engine_simps [simp]:
  "parse_filter sample_engine x sch = (if ''region'' \<in> fst ` set sch then Inr (''region'', x) else Inl x)"
  "columns_of sample_engine e = [fst e]"
  "plan_schema sample_engine p = fst p"
  "filter_exec sample_engine e p = Inr (fst p, filter (\<lambda>r. sample_holds e (env (fst p) r)) (snd p))"
  "projection_exec sample_engine cols p = Inr (map (\<lambda>(_, n). (n, Utf8)) cols,
     map (\<lambda>r. map (\<lambda>(x, _). projr (phys_value x r)) cols) (snd p))"
  "limit_exec sample_engine n p = (fst p, take n (snd p))"
  by (simp_all add: sample_engine_def)

lemma sample_engine_lawful: "lawful_engine sample_engine sample_holds sample_run"
proof -
  have proj: "map (\<lambda>(x, _). projr (phys_value x r)) cols = ys"
    if "map (\<lambda>(x, _). phys_value x r) cols = map Inr ys" for cols :: "(physical \<times> string) list" and r and ys :: "unit cell list"
  proof -
    have "map (\<lambda>(x, _). projr (phys_value x r)) cols = map projr (map (\<lambda>(x, _). phys_value x r) cols)"
      by (simp add: case_prod_unfold)
    also have "\<dots> = ys" unfolding that by (simp add: o_def)
    finally show ?thesis .
  qed
  have take: "mset (take n xs) \<subseteq># mset xs" for n and xs :: "unit cell list list"
  proof -
    have "mset xs = mset (take n xs) + mset (drop n xs)"
      by (simp only: mset_append [symmetric] append_take_drop_id)
    then show ?thesis by simp
  qed
  have map: "image_mset f (mset xs) = mset (map g xs)" if "\<And>r. r \<in> set xs \<Longrightarrow> g r = f r"
    for f g :: "unit cell list \<Rightarrow> unit cell list" and xs
    unfolding mset_map by (rule image_mset_cong) (use that in \<open>simp\<close>)
  show ?thesis
    unfolding lawful_engine_def
  proof (intro conjI allI impI)
    fix cols :: "(physical \<times> string) list" and p q f
    assume "projection_exec sample_engine cols p = Inr q"
    then have q: "q = (map (\<lambda>(_, n). (n, Utf8)) cols, map (\<lambda>r. map (\<lambda>(x, _). projr (phys_value x r)) cols) (snd p))"
      by simp
    show "map fst (plan_schema sample_engine q) = map snd cols"
      unfolding q by (simp add: case_prod_unfold)
    assume f: "\<forall>r \<in># sample_run p. map (\<lambda>(x, _). phys_value x r) cols = map Inr (f r)"
    have "map (\<lambda>(x, _). projr (phys_value x r)) cols = f r" if "r \<in> set (snd p)" for r
      by (rule proj) (use f that in \<open>simp add: sample_run_def\<close>)
    from map [OF this] show "sample_run q = image_mset f (sample_run p)"
      unfolding q sample_run_def snd_conv by (rule sym)
  next
    fix e p q
    assume "filter_exec sample_engine e p = Inr q"
    then have q: "q = (fst p, filter (\<lambda>r. sample_holds e (env (fst p) r)) (snd p))" by simp
    show "plan_schema sample_engine q = plan_schema sample_engine p" unfolding q by simp
    show "sample_run q = filter_mset (\<lambda>r. sample_holds e (env (plan_schema sample_engine p) r)) (sample_run p)"
      unfolding q sample_run_def by simp
  next
    fix n p
    show "plan_schema sample_engine (limit_exec sample_engine n p) = plan_schema sample_engine p" by simp
    show "sample_run (limit_exec sample_engine n p) \<subseteq># sample_run p"
      by (simp add: sample_run_def take)
    show "size (sample_run (limit_exec sample_engine n p)) = min n (size (sample_run p))"
      by (simp add: sample_run_def min.commute)
  qed (auto simp: sample_holds_def split: if_splits intro: image_eqI [of _ fst, OF fst_conv [symmetric]])
qed

lemma sample_table_lawful: "lawful_provider sample_engine sample_holds sample_run sample_table (mset sample_rows)"
  unfolding lawful_provider_def
proof (intro conjI allI impI exI [of _ "mset sample_rows"])
  fix req fs lim
  assume "within req (pv_schema sample_table)"
  then have "i < length sample_fields" if "req = Some idxs" "i \<in> set idxs" for i idxs
    using that by (simp add: within_def sample_table_def)
  then show "map fst (plan_schema sample_engine (pv_scan sample_table req fs lim)) =
      project req (map fst (pv_schema sample_table))"
    by (cases req) (auto simp: project_def sample_table_def sample_engine_def)
qed (auto simp: sample_table_def sample_run_def sample_fields_def sample_rows_def declares_exact_def)

definition sample_policy :: policy_set where
  "sample_policy =
     [masking ''email'' MaskNull (where_rows ''north'' (grant 1 ''a'' \<lparr>tr_schema = ''s'', tr_table = ''t''\<rparr> Read))]"

definition sample_principal :: authz_principal where
  "sample_principal = \<lparr>subject = ''u'', tenant = 1, roles = {''a''}, authentication = Password\<rparr>"

lemma sample_scan_runs: "\<exists>plan. secured_scan sample_engine st req fs limit = Inr plan"
proof -
  have obs: "\<exists>q. obscured sample_engine st p = Inr q" for p
    unfolding obscured_def Let_def sample_engine_simps(5) by (metis (lifting))
  have narrow: "\<exists>q. narrow_to_requested sample_engine p req w = Inr q" for p w
    unfolding narrow_to_requested_def by (cases req; cases w) (simp_all del: split_paired_Ex)
  have "\<exists>q. secured_rows sample_engine st req fs limit = Inr q"
  proof (cases "st_filter st")
    case None
    then show ?thesis by (simp add: secured_rows_def del: split_paired_Ex)
  next
    case (Some e)
    let ?w = "widen_projection req (columns_of sample_engine e) (pv_schema (st_inner st))"
    obtain f where f: "filter_exec sample_engine e (pv_scan (st_inner st) ?w (fs @ [e]) None) = Inr f"
      using sample_engine_simps(4) by blast
    obtain n where n: "narrow_to_requested sample_engine f req ?w = Inr n" using narrow by blast
    from f n have "and_then (filter_exec sample_engine e (pv_scan (st_inner st) ?w (fs @ [e]) None))
        (\<lambda>filtered. and_then (narrow_to_requested sample_engine filtered req ?w)
          (\<lambda>narrowed. Inr (apply_limit sample_engine narrowed limit))) = Inr (apply_limit sample_engine n limit)"
      by (simp only: and_then.simps)
    then show ?thesis
      unfolding secured_rows_def Some option.case Let_def by metis
  qed
  then obtain q where "secured_rows sample_engine st req fs limit = Inr q" by blast
  with obs show ?thesis unfolding secured_scan_def by (simp only: and_then.simps) 
qed

theorem secured_scan_shows_what_was_granted_witness:
  "\<exists>g st plan. authorize sample_policy sample_principal \<lparr>tr_schema = ''s'', tr_table = ''t''\<rparr> Read = Some g \<and>
     secured_new sample_engine sample_table g = Inr st \<and>
     secured_scan sample_engine st (Some [1]) [] None = Inr plan \<and>
     (\<forall>x \<in># sample_run plan. x = [NullCell])"
proof -
  let ?t = "\<lparr>tr_schema = ''s'', tr_table = ''t''\<rparr>"
  let ?g = "\<lparr>gu_tenant = 1, gu_subject = ''u'', gu_table = ?t, gu_action = Read, gu_filter = Some ''north'',
    gu_masks = [(''email'', MaskNull)]\<rparr>"
  have grants: "grants_for sample_policy sample_principal ?t Read = sample_policy"
    by (simp add: grants_for_def applicable_def sample_policy_def sample_principal_def masking_def where_rows_def
        grant_def has_role_def)
  have clauses: "clauses_of sample_policy = [''north'']"
    by (simp add: clauses_of_def sample_policy_def masking_def where_rows_def grant_def map_filter_simps)
  have g: "authorize sample_policy sample_principal ?t Read = Some ?g"
    by (simp add: authorize_def from_decision_def decide_def applicable_def sample_policy_def sample_principal_def
        masking_def where_rows_def grant_def has_role_def Let_def combined_filter_def clauses_of_def
        combined_masks_def map_filter_simps)
  obtain st where st: "secured_new sample_engine sample_table ?g = Inr st"
    by (simp add: secured_new_def sample_engine_def sample_table_def sample_fields_def)
  have "reads_disjunction (clause_holds sample_engine sample_holds (pv_schema sample_table))
      (clauses_of (grants_for sample_policy sample_principal ?t Read))"
    by (simp add: reads_disjunction_def grants clauses)
  moreover have w: "within (Some [1]) (pv_schema sample_table)"
    by (simp add: within_def sample_table_def sample_fields_def)
  moreover obtain plan where plan: "secured_scan sample_engine st (Some [1]) [] None = Inr plan"
    using sample_scan_runs by blast
  ultimately obtain K where K: "sample_run plan = image_mset (\<lambda>r. obscure (gu_masks ?g)
      (project (Some [1]) (map fst (pv_schema sample_table))) (project (Some [1]) r)) K"
    using secured_scan_shows_what_was_granted [OF sample_engine_lawful sample_table_lawful g st] by blast
  have "obscure (gu_masks ?g) (project (Some [1]) (map fst (pv_schema sample_table))) (project (Some [1]) r) = [NullCell]" for r :: "unit cell list"
    by (simp add: obscure_def project_def sample_table_def sample_fields_def mask_cell_def)
  with K g st plan show ?thesis by (intro exI [of _ ?g] exI [of _ st] exI [of _ plan]) auto
qed

end
