(* ===== verification/Audit_Chain.thy ===== *)
theory Audit_Chain
  imports Cdc_Model Decimal Authz
begin

text \<open>
  The tamper-evident record of what each principal was allowed to see:
  \<^verbatim>\<open>crates/sankhya-audit/src/chain.rs\<close>, the hash chain, \<^verbatim>\<open>journal.rs\<close>, the chain on disk, and
  the part of \<^verbatim>\<open>crates/sankhya-server/src/audit.rs\<close> that appends to both and resumes them. How a
  record is written as JSON and read back is up to \<open>serde\<close>, SHA-256 is a parameter.
\<close>

subsection \<open>Records\<close>

type_synonym hash = string

definition genesis :: hash where
  "genesis = replicate 64 CHR ''0''"

record data_version =
  dv_snapshot :: u64
  dv_graph_epoch :: "u64 option"

definition version_snapshot :: "u64 \<Rightarrow> data_version" where
  "version_snapshot v = \<lparr>dv_snapshot = v, dv_graph_epoch = None\<rparr>"

definition with_graph_epoch :: "u64 \<Rightarrow> data_version \<Rightarrow> data_version" where
  "with_graph_epoch e v = v\<lparr>dv_graph_epoch := Some e\<rparr>"

record recorded_decision =
  rd_allowed :: bool
  rd_row_filter :: "string option"
  rd_column_masks :: "(string \<times> string) list"

definition describe_mask :: "mask \<Rightarrow> string" where
  "describe_mask m =
     (case m of
        MaskNull \<Rightarrow> ''null''
      | Partial keep \<Rightarrow> ''partial(keep='' @ show_nat keep @ '')''
      | Constant v \<Rightarrow> ''constant('' @ v @ '')'')"

definition recorded_allowed :: "string option \<Rightarrow> (string \<times> mask) list \<Rightarrow> recorded_decision" where
  "recorded_allowed f ms =
     \<lparr>rd_allowed = True, rd_row_filter = f, rd_column_masks = map (\<lambda>(c, m). (c, describe_mask m)) ms\<rparr>"

definition recorded_denied :: recorded_decision where
  "recorded_denied = \<lparr>rd_allowed = False, rd_row_filter = None, rd_column_masks = []\<rparr>"

record audit_record =
  sequence :: u64
  ar_at :: i64
  ar_tenant :: string
  ar_subject :: string
  ar_authentication :: string
  ar_table :: string
  ar_action :: string
  ar_decision :: recorded_decision
  ar_version :: "data_version option"
  ar_statement :: "string option"
  ar_rows :: "u64 option"
  ar_previous :: hash
  ar_digest :: hash

record audit_entry =
  en_at :: i64
  en_tenant :: uuid
  en_subject :: string
  en_authentication :: authentication
  en_table :: table_ref
  en_action :: action
  en_decision :: recorded_decision
  en_version :: "data_version option"
  en_statement :: "string option"
  en_rows :: "u64 option"

definition entry_by ::
    "authz_principal \<Rightarrow> table_ref \<Rightarrow> action \<Rightarrow> recorded_decision \<Rightarrow> i64 \<Rightarrow> audit_entry" where
  "entry_by p t a d at =
     \<lparr>en_at = at, en_tenant = tenant p, en_subject = subject p, en_authentication = authentication p,
      en_table = t, en_action = a, en_decision = d, en_version = None, en_statement = None,
      en_rows = None\<rparr>"

definition from_version :: "data_version \<Rightarrow> audit_entry \<Rightarrow> audit_entry" where
  "from_version v e = e\<lparr>en_version := Some v\<rparr>"

definition running :: "string \<Rightarrow> audit_entry \<Rightarrow> audit_entry" where
  "running s e = e\<lparr>en_statement := Some s\<rparr>"

definition returning :: "u64 \<Rightarrow> audit_entry \<Rightarrow> audit_entry" where
  "returning n e = e\<lparr>en_rows := Some n\<rparr>"

fun describe_authentication :: "authentication \<Rightarrow> string" where
  "describe_authentication FederatedToken = ''federated-token''"
| "describe_authentication MutualTls = ''mutual-tls''"
| "describe_authentication Password = ''password''"
| "describe_authentication Internal = ''internal''"
| "describe_authentication Unverified = ''unverified''"

text \<open>The derived \<open>Debug\<close> text of an action, in lower case.\<close>

fun action_text :: "action \<Rightarrow> string" where
  "action_text Read = ''read''"
| "action_text Insert = ''insert''"
| "action_text Update = ''update''"
| "action_text Delete = ''delete''"

text \<open>What is outside the program: how a record is written, how a text is hashed, how a UUID is shown.\<close>

record audit_codec =
  to_json :: "audit_record \<Rightarrow> string"
  from_json :: "string \<Rightarrow> audit_record option"
  sha256 :: "bytes \<Rightarrow> bytes"
  uuid_text :: "uuid \<Rightarrow> string"

definition canonical_record :: "audit_codec \<Rightarrow> audit_record \<Rightarrow> string" where
  "canonical_record cx r = to_json cx (r\<lparr>ar_digest := ''''\<rparr>)"

definition compute_digest :: "audit_codec \<Rightarrow> audit_record \<Rightarrow> hash" where
  "compute_digest cx r = hex_of (sha256 cx (bytes_of (canonical_record cx r)))"

subsection \<open>The chain\<close>

definition WINDOW :: nat where "WINDOW = 1024"

record chain =
  ch_records :: "audit_record list"
  ch_total :: u64
  ch_head :: "hash option"
  ch_window :: "nat option"

definition chain_new :: chain where
  "chain_new = \<lparr>ch_records = [], ch_total = 0, ch_head = None, ch_window = None\<rparr>"

definition keeping :: "nat \<Rightarrow> chain" where
  "keeping w = chain_new\<lparr>ch_window := Some (max w 1)\<rparr>"

definition head :: "chain \<Rightarrow> hash" where
  "head c = (case ch_head c of None \<Rightarrow> genesis | Some h \<Rightarrow> h)"

definition chain_len :: "chain \<Rightarrow> nat" where
  "chain_len c = unat (ch_total c)"

definition chain_is_empty :: "chain \<Rightarrow> bool" where
  "chain_is_empty c \<longleftrightarrow> ch_total c = 0"

definition last_record :: "chain \<Rightarrow> audit_record option" where
  "last_record c = (if ch_records c = [] then None else Some (last (ch_records c)))"

definition forget_old :: "chain \<Rightarrow> chain" where
  "forget_old c =
     (case ch_window c of
        None \<Rightarrow> c
      | Some w \<Rightarrow> c\<lparr>ch_records := drop (length (ch_records c) - w) (ch_records c)\<rparr>)"

text \<open>\<open>append_raw\<close>: the record as it is given.\<close>

definition append_raw :: "audit_record \<Rightarrow> chain \<Rightarrow> chain" where
  "append_raw r c =
     forget_old (c\<lparr>ch_head := Some (ar_digest r), ch_total := word_saturating_add (ch_total c) 1,
                   ch_records := ch_records c @ [r]\<rparr>)"

definition record_of :: "audit_codec \<Rightarrow> audit_entry \<Rightarrow> chain \<Rightarrow> audit_record" where
  "record_of cx e c =
     (let r = \<lparr>sequence = ch_total c,
               ar_at = en_at e,
               ar_tenant = ''tenant:'' @ uuid_text cx (en_tenant e),
               ar_subject = en_subject e,
               ar_authentication = describe_authentication (en_authentication e),
               ar_table = table_ref_display (en_table e),
               ar_action = action_text (en_action e),
               ar_decision = en_decision e,
               ar_version = en_version e,
               ar_statement = en_statement e,
               ar_rows = en_rows e,
               ar_previous = head c,
               ar_digest = ''''\<rparr>
      in r\<lparr>ar_digest := compute_digest cx r\<rparr>)"

definition chain_append :: "audit_codec \<Rightarrow> audit_entry \<Rightarrow> chain \<Rightarrow> hash \<times> chain" where
  "chain_append cx e c =
     (let r = record_of cx e c;
          c = c\<lparr>ch_head := Some (ar_digest r)\<rparr>;
          c = c\<lparr>ch_total := word_saturating_add (ch_total c) 1\<rparr>;
          c = c\<lparr>ch_records := ch_records c @ [r]\<rparr>
      in (ar_digest r, forget_old c))"

datatype broken = Altered u64 | LinkMismatch u64 | OutOfOrder u64 u64

fun verify_loop :: "audit_codec \<Rightarrow> u64 \<Rightarrow> nat \<Rightarrow> hash \<Rightarrow> audit_record list \<Rightarrow> broken + unit" where
  "verify_loop cx first index expected [] = Inr ()"
| "verify_loop cx first index expected (r # rs) =
     (let position = word_saturating_add first (u64_of_len index) in
      if sequence r \<noteq> position then Inl (OutOfOrder position (sequence r))
      else if ar_previous r \<noteq> expected then Inl (LinkMismatch position)
      else if compute_digest cx r \<noteq> ar_digest r then Inl (Altered position)
      else verify_loop cx first (Suc index) (ar_digest r) rs)"

definition verify :: "audit_codec \<Rightarrow> chain \<Rightarrow> broken + unit" where
  "verify cx c =
     verify_loop cx (case ch_records c of [] \<Rightarrow> 0 | r # _ \<Rightarrow> sequence r) 0
       (case ch_records c of [] \<Rightarrow> genesis | r # _ \<Rightarrow> ar_previous r) (ch_records c)"

definition what_was_seen_by :: "audit_codec \<Rightarrow> uuid \<Rightarrow> string \<Rightarrow> chain \<Rightarrow> audit_record list" where
  "what_was_seen_by cx t s c =
     filter (\<lambda>r. ar_tenant r = ''tenant:'' @ uuid_text cx t \<and> ar_subject r = s) (ch_records c)"

subsection \<open>The journal\<close>

text \<open>A complaint: a line that is not text, or not a record, by its number.\<close>

datatype complaint = NotText nat | NotARecord nat

definition journal_append :: "audit_codec \<Rightarrow> audit_record \<Rightarrow> string \<Rightarrow> string" where
  "journal_append cx r file = file @ to_json cx r @ [newline]"

fun read_into :: "audit_codec \<Rightarrow> nat \<Rightarrow> string list \<Rightarrow> chain \<Rightarrow> chain \<times> complaint list" where
  "read_into cx n [] c = (c, [])"
| "read_into cx n (l # ls) c =
     (if \<not> utf8_valid (bytes_of l) then
        (case read_into cx (Suc n) ls c of (c', cs) \<Rightarrow> (c', NotText n # cs))
      else if trim l = [] then read_into cx (Suc n) ls c
      else (case from_json cx l of
              Some r \<Rightarrow> read_into cx (Suc n) ls (append_raw r c)
            | None \<Rightarrow> (case read_into cx (Suc n) ls c of (c', cs) \<Rightarrow> (c', NotARecord n # cs))))"

text \<open>The file, where there is one.\<close>

definition journal_into :: "audit_codec \<Rightarrow> string option \<Rightarrow> chain \<Rightarrow> chain \<times> complaint list" where
  "journal_into cx file c = (case file of None \<Rightarrow> (c, []) | Some s \<Rightarrow> read_into cx 1 (lines_of s) c)"

definition journal_read :: "audit_codec \<Rightarrow> string option \<Rightarrow> chain \<times> complaint list" where
  "journal_read cx file = journal_into cx file chain_new"

definition read_windowed :: "audit_codec \<Rightarrow> string option \<Rightarrow> nat \<Rightarrow> chain \<times> complaint list" where
  "read_windowed cx file w = journal_into cx file (keeping w)"

subsection \<open>The server\<close>

text \<open>
  The chain held under the lock and the file behind it. The journal is opened for append, which
  creates the file; writing and syncing succeed here, a failure is only counted by the code.
\<close>

record audit_state =
  au_chain :: chain
  au_file :: "string option"

definition server_append :: "audit_codec \<Rightarrow> audit_entry \<Rightarrow> audit_state \<Rightarrow> audit_state" where
  "server_append cx e s =
     (let c = snd (chain_append cx e (au_chain s)) in
      case last_record c of
        None \<Rightarrow> s\<lparr>au_chain := c\<rparr>
      | Some r \<Rightarrow>
          s\<lparr>au_chain := c,
            au_file := Some (journal_append cx r (case au_file s of None \<Rightarrow> [] | Some f \<Rightarrow> f))\<rparr>)"

definition resume_audit :: "audit_codec \<Rightarrow> audit_state \<Rightarrow> audit_state \<times> complaint list \<times> broken option" where
  "resume_audit cx s =
     (case read_windowed cx (au_file s) WINDOW of
        (c, complaints) \<Rightarrow>
          (\<lparr>au_chain = c, au_file = Some (case au_file s of None \<Rightarrow> [] | Some f \<Rightarrow> f)\<rparr>, complaints,
           case verify cx c of Inl b \<Rightarrow> Some b | Inr _ \<Rightarrow> None))"

definition standing :: "audit_codec \<Rightarrow> audit_state \<Rightarrow> hash \<times> nat \<times> bool" where
  "standing cx s = (head (au_chain s), chain_len (au_chain s), is_ok (verify cx (au_chain s)))"

subsection \<open>The chain as a log\<close>

text \<open>The records of a chain that keeps everything, and what every chain over them holds of them.\<close>

definition log_of :: "audit_codec \<Rightarrow> audit_entry list \<Rightarrow> audit_record list" where
  "log_of cx es = ch_records (fold (\<lambda>e c. snd (chain_append cx e c)) es chain_new)"

definition windowed :: "nat option \<Rightarrow> 'a list \<Rightarrow> 'a list" where
  "windowed w xs = (case w of None \<Rightarrow> xs | Some k \<Rightarrow> drop (length xs - k) xs)"

definition holds_log :: "nat option \<Rightarrow> audit_record list \<Rightarrow> chain \<Rightarrow> bool" where
  "holds_log w log c \<longleftrightarrow>
     ch_window c = w \<and> w \<noteq> Some 0 \<and> ch_records c = windowed w log \<and>
     ch_total c = u64_of_len (length log) \<and>
     ch_head c = (if log = [] then None else Some (ar_digest (last log)))"

definition linked :: "audit_codec \<Rightarrow> audit_record list \<Rightarrow> bool" where
  "linked cx log \<longleftrightarrow>
     (\<forall>i < length log. sequence (log ! i) = u64_of_len i \<and>
        ar_previous (log ! i) = (if i = 0 then genesis else ar_digest (log ! (i - 1))) \<and>
        compute_digest cx (log ! i) = ar_digest (log ! i))"

lemma windowed_simps [simp]: "windowed None xs = xs" "windowed w [] = []"
  by (auto simp: windowed_def split: option.split)

lemma windowed_drop: "\<exists>k. windowed w xs = drop k xs"
proof (cases w)
  case None
  then show ?thesis by (auto intro: exI [of _ 0])
next
  case (Some k)
  then show ?thesis by (auto simp: windowed_def)
qed

lemma windowed_snoc:
  assumes "0 < k"
  shows "drop (length (windowed (Some k) xs @ [x]) - k) (windowed (Some k) xs @ [x]) = windowed (Some k) (xs @ [x])"
proof (cases "k \<le> length xs")
  case True
  then have "drop (length xs - k) xs \<noteq> []" using assms by simp
  then obtain y ys where y: "drop (length xs - k) xs = y # ys" by (cases "drop (length xs - k) xs") auto
  then have "ys = drop (Suc (length xs - k)) xs" by (metis drop_Suc drop_tl list.sel(3))
  moreover have "length ys = k - 1" using y True by (metis length_Cons length_drop diff_diff_cancel diff_Suc_1)
  ultimately show ?thesis using True assms y by (simp add: windowed_def Suc_diff_le)
qed (simp add: windowed_def)

lemma forget_windowed:
  assumes "ch_window c = w" "w \<noteq> Some 0" "ch_records c = windowed w log @ [r]"
  shows "ch_records (forget_old c) = windowed w (log @ [r])"
proof (cases w)
  case None
  with assms show ?thesis by (simp add: forget_old_def)
next
  case (Some k)
  with assms windowed_snoc [of k log r] show ?thesis by (simp add: forget_old_def)
qed

lemma forget_simps [simp]:
  "ch_total (forget_old c) = ch_total c" "ch_head (forget_old c) = ch_head c" "ch_window (forget_old c) = ch_window c"
  by (simp_all add: forget_old_def split: option.split)

lemma append_raw_holds:
  assumes "holds_log w log c"
  shows "holds_log w (log @ [r]) (append_raw r c)"
  using assms forget_windowed [of "c\<lparr>ch_head := Some (ar_digest r), ch_total := word_saturating_add (ch_total c) 1,
      ch_records := ch_records c @ [r]\<rparr>" w log r]
  by (simp add: holds_log_def append_raw_def saturating_Suc)

lemma chain_append_raw: "chain_append cx e c = (ar_digest (record_of cx e c), append_raw (record_of cx e c) c)"
  by (simp add: chain_append_def append_raw_def Let_def)

lemma record_of_cong:
  "holds_log w log c \<Longrightarrow> holds_log w' log c' \<Longrightarrow> record_of cx e c = record_of cx e c'"
  by (simp add: record_of_def holds_log_def head_def)

lemma compute_digest_erased [simp]: "compute_digest cx (r\<lparr>ar_digest := d\<rparr>) = compute_digest cx r"
  by (simp add: compute_digest_def canonical_record_def)

lemma record_of_linked:
  assumes "holds_log w log c" "linked cx log"
  shows "linked cx (log @ [record_of cx e c])"
proof -
  have "sequence (record_of cx e c) = u64_of_len (length log)"
    "ar_previous (record_of cx e c) = (if log = [] then genesis else ar_digest (last log))"
    using assms(1) by (simp_all add: record_of_def holds_log_def head_def Let_def)
  moreover have "compute_digest cx (record_of cx e c) = ar_digest (record_of cx e c)"
    by (simp add: record_of_def Let_def compute_digest_def canonical_record_def)
  ultimately show ?thesis
    using assms(2) by (auto simp: linked_def nth_append less_Suc_eq last_conv_nth)
qed

lemma empty_holds: "holds_log None [] chain_new" "holds_log (Some (max w 1)) [] (keeping w)"
  by (auto simp: holds_log_def chain_new_def keeping_def u64_of_len_def)

lemma fold_raw_holds: "holds_log w log c \<Longrightarrow> holds_log w (log @ rs) (fold append_raw rs c)"
proof (induction rs arbitrary: log c)
  case (Cons r rs)
  from Cons.IH [OF append_raw_holds [OF Cons.prems, of r]] show ?case by simp
qed simp

lemma log_snoc:
  "holds_log None (log_of cx es) (fold (\<lambda>e c. snd (chain_append cx e c)) es chain_new) \<and>
   linked cx (log_of cx es) \<and> length (log_of cx es) = length es"
proof (induction es rule: rev_induct)
  case Nil
  then show ?case using empty_holds(1) by (simp add: log_of_def linked_def chain_new_def)
next
  case (snoc e es)
  let ?c = "fold (\<lambda>e c. snd (chain_append cx e c)) es chain_new"
  have h: "holds_log None (log_of cx es @ [record_of cx e ?c]) (snd (chain_append cx e ?c))"
    using snoc.IH append_raw_holds by (simp add: chain_append_raw)
  then have "log_of cx (es @ [e]) = log_of cx es @ [record_of cx e ?c]"
    by (simp add: log_of_def holds_log_def)
  with h snoc.IH record_of_linked [of None "log_of cx es" ?c cx e] show ?case by simp
qed

lemma log_of_snoc:
  assumes "holds_log w (log_of cx es) c"
  shows "log_of cx (es @ [e]) = log_of cx es @ [record_of cx e c]"
proof -
  let ?c = "fold (\<lambda>e c. snd (chain_append cx e c)) es chain_new"
  have "holds_log None (log_of cx es @ [record_of cx e ?c]) (snd (chain_append cx e ?c))"
    using log_snoc [of cx es] append_raw_holds by (simp add: chain_append_raw)
  moreover have "record_of cx e ?c = record_of cx e c"
    using record_of_cong [OF _ assms] log_snoc [of cx es] by blast
  ultimately show ?thesis by (simp add: log_of_def holds_log_def)
qed

subsection \<open>Verification\<close>

lemma verify_loop_slice:
  assumes "linked cx log" "k + j \<le> length log" "prev = (if k + j = 0 then genesis else ar_digest (log ! (k + j - 1)))"
  shows "verify_loop cx (u64_of_len k) j prev (drop (k + j) log) = Inr ()"
  using assms(2,3)
proof (induction "length log - (k + j)" arbitrary: j prev)
  case (Suc n)
  then have lt: "k + j < length log" by simp
  then have d: "drop (k + j) log = log ! (k + j) # drop (k + Suc j) log"
    by (simp add: Cons_nth_drop_Suc)
  from assms(1) lt have r: "sequence (log ! (k + j)) = u64_of_len (k + j)" "ar_previous (log ! (k + j)) = prev"
    "compute_digest cx (log ! (k + j)) = ar_digest (log ! (k + j))"
    unfolding Suc.prems(2) linked_def by blast+
  have "verify_loop cx (u64_of_len k) (Suc j) (ar_digest (log ! (k + j))) (drop (k + Suc j) log) = Inr ()"
    using Suc.hyps lt by (intro Suc.hyps(1)) auto
  then show ?case unfolding d verify_loop.simps Let_def saturating_lengths by (simp add: r)
qed simp

lemma verify_drop:
  assumes "linked cx log" "ch_records c = drop k log"
  shows "verify cx c = Inr ()"
proof (cases "k < length log")
  case True
  then have d: "drop k log = log ! k # drop (Suc k) log" by (simp add: Cons_nth_drop_Suc)
  have "sequence (log ! k) = u64_of_len k" "ar_previous (log ! k) = (if k + 0 = 0 then genesis else ar_digest (log ! (k + 0 - 1)))"
    using assms(1) True by (auto simp: linked_def)
  with verify_loop_slice [OF assms(1), of k 0] True assms(2) d show ?thesis
    by (simp add: verify_def)
qed (simp add: verify_def assms(2))

lemma verify_holds: "holds_log w log c \<Longrightarrow> linked cx log \<Longrightarrow> verify cx c = Inr ()"
  using verify_drop windowed_drop by (metis holds_log_def)

subsection \<open>Tampering\<close>

definition erased :: "audit_record \<Rightarrow> audit_record" where
  "erased r = r\<lparr>ar_digest := ''''\<rparr>"

definition presented :: "audit_record list \<Rightarrow> chain" where
  "presented ys = fold append_raw ys chain_new"

text \<open>
  Records written as JSON can be read back, on one line and as one object; the digests of
  different texts among those hashed differ.
\<close>

definition writes_records :: "audit_codec \<Rightarrow> audit_record set \<Rightarrow> bool" where
  "writes_records cx R \<longleftrightarrow>
     (\<forall>r \<in> R. from_json cx (to_json cx r) = Some r \<and> newline \<notin> set (to_json cx r) \<and>
        to_json cx r \<noteq> [] \<and> hd (to_json cx r) = CHR ''{'' \<and> last (to_json cx r) = CHR ''}'' \<and>
        utf8_valid (bytes_of (to_json cx r)))"

definition no_collision :: "audit_codec \<Rightarrow> audit_record set \<Rightarrow> bool" where
  "no_collision cx R \<longleftrightarrow> inj_on (\<lambda>r. sha256 cx (bytes_of (to_json cx r))) (erased ` R)"

lemma presented_holds: "holds_log None ys (presented ys)"
  using fold_raw_holds [OF empty_holds(1), of ys] by (simp add: presented_def)

lemma verify_presented:
  "verify cx (presented ys) = verify_loop cx (case ys of [] \<Rightarrow> 0 | r # _ \<Rightarrow> sequence r) 0
     (case ys of [] \<Rightarrow> genesis | r # _ \<Rightarrow> ar_previous r) ys"
  using presented_holds [of ys] by (simp add: verify_def holds_log_def)

lemma head_presented: "ys \<noteq> [] \<Longrightarrow> head (presented ys) = ar_digest (last ys)"
  using presented_holds [of ys] by (simp add: head_def holds_log_def)

lemma verify_loop_snoc:
  "verify_loop cx first j prev (ys @ [y]) = Inr () \<longleftrightarrow>
     verify_loop cx first j prev ys = Inr () \<and>
     sequence y = word_saturating_add first (u64_of_len (j + length ys)) \<and>
     ar_previous y = (if ys = [] then prev else ar_digest (last ys)) \<and>
     compute_digest cx y = ar_digest y"
  by (induction ys arbitrary: j prev) (auto simp: Let_def)

lemma same_digest_same_record:
  assumes "no_collision cx R" "x \<in> R" "y \<in> R" "compute_digest cx x = ar_digest x"
    "compute_digest cx y = ar_digest y" "ar_digest x = ar_digest y"
  shows "x = y"
proof -
  have "compute_digest cx x = compute_digest cx y" using assms(4-6) by simp
  then have "sha256 cx (bytes_of (to_json cx (erased x))) = sha256 cx (bytes_of (to_json cx (erased y)))"
    by (simp add: compute_digest_def canonical_record_def erased_def hex_of_inj)
  with assms(1-3) have "erased x = erased y" by (auto simp: no_collision_def dest: inj_onD)
  moreover have "r = (erased r)\<lparr>ar_digest := ar_digest r\<rparr>" for r by (simp add: erased_def)
  ultimately show ?thesis using assms(6) by metis
qed

lemma verified_ends_in_log:
  assumes "linked cx log" "no_collision cx (set log \<union> set ys)" "length log < 2 ^ 64"
    and "verify_loop cx first 0 prev ys = Inr ()" "ys \<noteq> []" "i < length log" "ar_digest (last ys) = ar_digest (log ! i)"
  shows "\<exists>k \<le> i. ys = drop k (take (Suc i) log)"
  using assms(2,4-7)
proof (induction ys arbitrary: i rule: rev_induct)
  case (snoc y ys)
  have y: "y = log ! i"
    using snoc.prems assms(1)
    by (intro same_digest_same_record [OF snoc.prems(1)]) (auto simp: verify_loop_snoc linked_def)
  have t: "take (Suc i) log = take i log @ [log ! i]"
    using snoc.prems(4) by (simp add: take_Suc_conv_app_nth)
  show ?case
  proof (cases "ys = []")
    case True
    then show ?thesis using y t snoc.prems(4) by (intro exI [of _ i]) simp
  next
    case False
    have prev: "ar_digest (last ys) = ar_previous (log ! i)"
      using snoc.prems(2) False y by (simp add: verify_loop_snoc)
    have "i \<noteq> 0"
    proof
      assume "i = 0"
      then have "sequence y = 0" using y assms(1) snoc.prems(4) by (auto simp: linked_def u64_of_len_def)
      moreover have "sequence y = word_saturating_add first (u64_of_len (length ys))"
        using snoc.prems(2) by (simp add: verify_loop_snoc)
      ultimately have "unat (word_saturating_add first (u64_of_len (length ys))) = 0" by simp
      moreover have "unat (u64_of_len (length ys)) \<noteq> 0"
      proof (cases "length ys < 2 ^ 64")
        case True
        then have "unat (of_nat (length ys) :: u64) = length ys" by (simp add: unat_of_nat take_bit_nat_eq_self)
        with True False show ?thesis by (simp only: u64_of_len_def if_True) simp
      qed (use unat_max_word [where ?'a = 64] in \<open>simp add: u64_of_len_def\<close>)
      ultimately show False unfolding unat_saturating_add by simp
    qed
    then have "ar_digest (last ys) = ar_digest (log ! (i - 1))"
      using prev assms(1) snoc.prems(4) by (auto simp: linked_def)
    moreover have "no_collision cx (set log \<union> set ys)"
      using snoc.prems(1) by (auto simp: no_collision_def intro: inj_on_subset)
    moreover have "verify_loop cx first 0 prev ys = Inr ()" using snoc.prems(2) by (simp add: verify_loop_snoc)
    moreover have "i - 1 < length log" using snoc.prems(4) by simp
    ultimately obtain k where k: "k \<le> i - 1" "ys = drop k (take (Suc (i - 1)) log)"
      using snoc.IH [of "i - 1"] False by blast
    with \<open>i \<noteq> 0\<close> y t snoc.prems(4) show ?thesis by (intro exI [of _ k]) auto
  qed
qed simp

text \<open>
  C23: Records presented as an audit chain verify, with the head that was published when the log had
  \<open>i + 1\<close> records, exactly when they are an unbroken run of the log that ends there: nothing altered,
  reordered, inserted or left out. If there are also as many as were published, they are the log. Records
  dropped from the front are the one loss the published head does not show.
\<close>

theorem audit_chain_is_tamper_evident:
  assumes "length es < 2 ^ 64" "i < length es" "ys \<noteq> []"
    and "no_collision cx (set (log_of cx es) \<union> set ys)"
  shows "(verify cx (presented ys) = Inr () \<and> head (presented ys) = ar_digest (log_of cx es ! i) \<longleftrightarrow>
            (\<exists>k \<le> i. ys = drop k (take (Suc i) (log_of cx es)))) \<and>
         (verify cx (presented ys) = Inr () \<and> head (presented ys) = ar_digest (log_of cx es ! i) \<and>
            chain_len (presented ys) = Suc i \<longrightarrow> ys = take (Suc i) (log_of cx es))"
proof -
  note log = log_snoc [of cx es]
  then have lk: "linked cx (log_of cx es)" and len: "length (log_of cx es) = length es" by blast+
  have run: "verify cx (presented ys) = Inr () \<and> head (presented ys) = ar_digest (log_of cx es ! i) \<longleftrightarrow>
      (\<exists>k \<le> i. ys = drop k (take (Suc i) (log_of cx es)))"
  proof
    assume "verify cx (presented ys) = Inr () \<and> head (presented ys) = ar_digest (log_of cx es ! i)"
    with verified_ends_in_log [OF lk assms(4)] assms(1-3) len
    show "\<exists>k \<le> i. ys = drop k (take (Suc i) (log_of cx es))"
      by (auto simp: verify_presented head_presented)
  next
    assume "\<exists>k \<le> i. ys = drop k (take (Suc i) (log_of cx es))"
    then obtain k where k: "k \<le> i" "ys = drop k (take (Suc i) (log_of cx es))" by blast
    have "linked cx (take (Suc i) (log_of cx es))"
      using lk by (auto simp: linked_def nth_take less_imp_diff_less)
    with verify_drop [of cx _ "presented ys" k] k(2) presented_holds [of ys] have "verify cx (presented ys) = Inr ()"
      by (simp add: holds_log_def)
    moreover have "last ys = log_of cx es ! i"
      using k assms(2) len by (simp add: take_Suc_conv_app_nth)
    ultimately show "verify cx (presented ys) = Inr () \<and> head (presented ys) = ar_digest (log_of cx es ! i)"
      by (simp add: head_presented assms(3))
  qed
  have "ys = take (Suc i) (log_of cx es)"
    if "k \<le> i" "ys = drop k (take (Suc i) (log_of cx es))" "chain_len (presented ys) = Suc i" for k
  proof -
    have l: "length ys = Suc i - k" using that(1,2) assms(2) len by simp
    then have "length ys < 2 ^ 64" using assms(1,2) by linarith
    then have "chain_len (presented ys) = length ys"
      using presented_holds [of ys] by (simp add: chain_len_def holds_log_def u64_of_len_def unat_of_nat take_bit_nat_eq_self)
    with that(3) l have "k = 0" by simp
    with that(2) show ?thesis by simp
  qed
  with run show ?thesis by blast
qed

definition sample_codec :: audit_codec where
  "sample_codec =
     \<lparr>to_json = (\<lambda>r. ''{'' @ show_nat (unat (sequence r)) @ ''}''),
      from_json = (\<lambda>_. None), sha256 = (\<lambda>b. b), uuid_text = (\<lambda>_. ''u'')\<rparr>"

definition sample_entry :: audit_entry where
  "sample_entry = entry_by (internal_principal 1) \<lparr>tr_schema = ''s'', tr_table = ''t''\<rparr> Read recorded_denied 0"

lemma sample_log:
  obtains r s where "log_of cx [sample_entry, sample_entry] = [r, s]" "sequence r = 0" "sequence s = 1"
proof -
  note log = log_snoc [of cx "[sample_entry, sample_entry]"]
  then obtain r s where rs: "log_of cx [sample_entry, sample_entry] = [r, s]"
    by (auto simp: length_Suc_conv)
  have all: "sequence (log_of cx [sample_entry, sample_entry] ! i) = u64_of_len i" if "i < 2" for i
    using log that by (simp add: linked_def)
  from all [of 0] all [of 1] rs have "sequence r = 0" "sequence s = 1" by (simp_all add: u64_of_len_def)
  with rs that show ?thesis by blast
qed

theorem audit_chain_is_tamper_evident_witness:
  "verify sample_codec (presented (drop 1 (log_of sample_codec [sample_entry, sample_entry]))) = Inr ()"
proof -
  obtain r s where rs: "log_of sample_codec [sample_entry, sample_entry] = [r, s]" "sequence r = 0" "sequence s = 1"
    by (rule sample_log)
  have "show_nat (Suc 0) \<noteq> show_nat 0" by (metis One_nat_def option.inject parse_show_nat zero_neq_one)
  then have "no_collision sample_codec (set [r, s] \<union> set [s])"
    using rs(2,3) by (auto simp: no_collision_def inj_on_def erased_def sample_codec_def bytes_of_inj)
  with audit_chain_is_tamper_evident [of "[sample_entry, sample_entry]" 1 "[s]" sample_codec]
  have "(verify sample_codec (presented [s]) = Inr () \<and> head (presented [s]) = ar_digest ([r, s] ! 1)) \<longleftrightarrow>
      (\<exists>k \<le> 1. [s] = drop k (take (Suc 1) [r, s]))"
    by (simp only: rs(1)) simp
  moreover have "\<exists>k \<le> 1. [s] = drop k (take (Suc 1) [r, s])" by (intro exI [of _ 1]) simp
  ultimately show ?thesis by (simp add: rs(1))
qed

subsection \<open>The journal and restarts\<close>

definition journal_of :: "audit_codec \<Rightarrow> audit_record list \<Rightarrow> string" where
  "journal_of cx log = concat (map (\<lambda>r. to_json cx r @ [newline]) log)"

lemma journal_append_of: "journal_append cx r (journal_of cx log) = journal_of cx (log @ [r])"
  by (simp add: journal_append_def journal_of_def)

lemma split_journal:
  assumes "writes_records cx (set log)"
  shows "split_on newline (journal_of cx log @ rest) = map (to_json cx) log @ split_on newline rest"
  using assms
proof (induction log)
  case (Cons r log)
  then have "newline \<notin> set (to_json cx r)" "writes_records cx (set log)" by (simp_all add: writes_records_def)
  with Cons.IH show ?case by (simp add: journal_of_def split_on_append)
qed (simp add: journal_of_def)

lemma strip_json: "writes_records cx (set log) \<Longrightarrow> map strip_cr (map (to_json cx) log) = map (to_json cx) log"
  by (auto simp: writes_records_def strip_cr_def carriage_return_def)

lemma lines_of_journal:
  assumes "writes_records cx (set log)" "newline \<notin> set rest"
  shows "lines_of (journal_of cx log @ rest) = map (to_json cx) log @ (if rest = [] then [] else [rest])"
  using assms strip_json [OF assms(1)]
  by (simp add: lines_of_def split_journal split_on_no_sep butlast_append Let_def)

lemma read_into_records:
  assumes "writes_records cx (set log)"
  shows "read_into cx n (map (to_json cx) log @ ls) c = read_into cx (n + length log) ls (fold append_raw log c)"
  using assms
proof (induction log arbitrary: n c)
  case (Cons r log)
  have r: "from_json cx (to_json cx r) = Some r" "utf8_valid (bytes_of (to_json cx r))" "trim (to_json cx r) \<noteq> []"
    using Cons.prems trim_graphic [of "to_json cx r"] by (auto simp: writes_records_def graphic_def)
  have "writes_records cx (set log)" using Cons.prems by (simp add: writes_records_def)
  from Cons.IH [OF this] r show ?case by simp
qed simp

lemma journal_into_log:
  assumes "writes_records cx (set log)"
  shows "journal_into cx (Some (journal_of cx log)) c = (fold append_raw log c, [])"
  using lines_of_journal [OF assms, of "[]"] read_into_records [OF assms, of 1 "[]" c]
  by (simp add: journal_into_def)

datatype audit_event = Logged audit_entry | Restarted

fun audit_step :: "audit_codec \<Rightarrow> audit_event \<Rightarrow> audit_state \<Rightarrow> audit_state" where
  "audit_step cx (Logged e) s = server_append cx e s"
| "audit_step cx Restarted s = fst (resume_audit cx s)"

definition logged :: "audit_event list \<Rightarrow> audit_entry list" where
  "logged evs = List.map_filter (\<lambda>ev. case ev of Logged e \<Rightarrow> Some e | Restarted \<Rightarrow> None) evs"

definition first_start :: "audit_codec \<Rightarrow> audit_state" where
  "first_start cx = fst (resume_audit cx \<lparr>au_chain = chain_new, au_file = None\<rparr>)"

definition in_step :: "audit_codec \<Rightarrow> audit_record list \<Rightarrow> audit_state \<Rightarrow> bool" where
  "in_step cx log s \<longleftrightarrow> holds_log (Some WINDOW) log (au_chain s) \<and> au_file s = Some (journal_of cx log)"

lemma window_keeps_last: "holds_log w (log @ [r]) c \<Longrightarrow> last_record c = Some r"
proof -
  assume h: "holds_log w (log @ [r]) c"
  have "windowed w (log @ [r]) \<noteq> [] \<and> last (windowed w (log @ [r])) = r"
  proof (cases w)
    case (Some k)
    with h have "0 < k" by (simp add: holds_log_def)
    with Some show ?thesis by (simp add: windowed_def last_drop)
  qed simp
  with h show ?thesis by (simp add: last_record_def holds_log_def)
qed

lemma server_append_in_step:
  assumes "in_step cx (log_of cx es) s"
  shows "in_step cx (log_of cx (es @ [e])) (server_append cx e s)"
proof -
  let ?r = "record_of cx e (au_chain s)"
  have h: "holds_log (Some WINDOW) (log_of cx es) (au_chain s)" using assms by (simp add: in_step_def)
  from append_raw_holds [OF h] have h': "holds_log (Some WINDOW) (log_of cx es @ [?r]) (append_raw ?r (au_chain s))" .
  from window_keeps_last [OF this] assms h' log_of_snoc [OF h, of e] show ?thesis
    by (simp add: in_step_def server_append_def chain_append_raw Let_def journal_append_of)
qed

lemma resume_in_step:
  assumes "writes_records cx (set log)" "in_step cx log s"
  shows "in_step cx log (fst (resume_audit cx s))"
  using journal_into_log [OF assms(1), of "keeping WINDOW"] fold_raw_holds [OF empty_holds(2) [of WINDOW], of log] assms(2)
  by (simp add: in_step_def resume_audit_def read_windowed_def WINDOW_def)

lemma first_start_in_step: "in_step cx (log_of cx []) (first_start cx)"
  using empty_holds(2) [of WINDOW]
  by (simp add: in_step_def first_start_def resume_audit_def read_windowed_def journal_into_def journal_of_def
      log_of_def chain_new_def WINDOW_def)

lemma log_of_prefix: "\<exists>more. log_of cx (es @ fs) = log_of cx es @ more"
proof (induction fs rule: rev_induct)
  case (snoc f fs)
  note log_of_snoc [of None cx "es @ fs" "fold (\<lambda>e c. snd (chain_append cx e c)) (es @ fs) chain_new" f]
  with log_snoc [of cx "es @ fs"] snoc show ?case by auto
qed simp

lemma run_in_step:
  "writes_records cx (set (log_of cx (logged evs))) \<Longrightarrow>
     in_step cx (log_of cx (logged evs)) (fold (audit_step cx) evs (first_start cx))"
proof (induction evs rule: rev_induct)
  case Nil
  then show ?case by (simp add: logged_def first_start_in_step)
next
  case (snoc ev evs)
  have "writes_records cx (set (log_of cx (logged evs)))"
  proof -
    have "logged (evs @ [ev]) = logged evs @ logged [ev]" by (simp add: logged_def)
    with log_of_prefix [of cx "logged evs" "logged [ev]"] snoc.prems show ?thesis
      by (auto simp: writes_records_def)
  qed
  note IH = snoc.IH [OF this]
  show ?case
  proof (cases ev)
    case (Logged e)
    with server_append_in_step [OF IH, of e] show ?thesis by (simp add: logged_def map_filter_simps)
  next
    case Restarted
    with resume_in_step [OF _ IH] snoc.prems show ?thesis by (simp add: logged_def map_filter_simps)
  qed
qed

text \<open>
  C24: However often the server restarts, the file holds one record for each entry in the order
  they were made, as one chain that begins with the first entry and verifies; reading it back complains of
  nothing. The window in memory is the end of that chain, with the head and the length of the whole,
  and it verifies too.
\<close>

theorem audit_survives_restarts:
  assumes "writes_records cx (set (log_of cx (logged evs)))" "length (logged evs) < 2 ^ 64"
  shows "let s = fold (audit_step cx) evs (first_start cx);
             log = log_of cx (logged evs);
             (whole, complaints) = journal_read cx (au_file s)
         in complaints = [] \<and> ch_records whole = log \<and> length log = length (logged evs) \<and> linked cx log \<and>
            verify cx whole = Inr () \<and>
            ch_records (au_chain s) = drop (length log - WINDOW) log \<and>
            standing cx s = (head whole, length log, True)"
proof -
  let ?s = "fold (audit_step cx) evs (first_start cx)" and ?log = "log_of cx (logged evs)"
  have step: "holds_log (Some WINDOW) ?log (au_chain ?s)" "au_file ?s = Some (journal_of cx ?log)"
    using run_in_step [OF assms(1)] by (simp_all add: in_step_def)
  note log = log_snoc [of cx "logged evs"]
  have whole: "journal_read cx (au_file ?s) = (presented ?log, [])"
    using journal_into_log [OF assms(1)] by (simp add: journal_read_def step(2) presented_def)
  have "chain_len (au_chain ?s) = length (logged evs)"
    using step(1) log assms(2)
    by (simp add: chain_len_def holds_log_def u64_of_len_def unat_of_nat take_bit_nat_eq_self)
  moreover have "head (au_chain ?s) = head (presented ?log)"
    using step(1) presented_holds [of ?log] by (simp add: head_def holds_log_def)
  moreover have "ch_records (presented ?log) = ?log" using presented_holds [of ?log] by (simp add: holds_log_def)
  moreover have "ch_records (au_chain ?s) = drop (length ?log - WINDOW) ?log"
    using step(1) by (simp add: holds_log_def windowed_def)
  ultimately show ?thesis
    using verify_holds [OF presented_holds] verify_holds [OF step(1)] log
    by (simp add: Let_def whole standing_def)
qed

definition reading_codec :: audit_codec where
  "reading_codec =
     sample_codec\<lparr>from_json := (\<lambda>s. if s = ''{0}''
       then Some (record_of sample_codec sample_entry chain_new) else None)\<rparr>"

theorem audit_survives_restarts_witness:
  "length (ch_records (fst (journal_read reading_codec
     (au_file (fold (audit_step reading_codec) [Logged sample_entry, Restarted] (first_start reading_codec)))))) = 1"
proof -
  let ?r = "record_of sample_codec sample_entry chain_new"
  have lg: "logged [Logged sample_entry, Restarted] = [sample_entry]"
    by (simp add: logged_def map_filter_simps)
  have same: "record_of reading_codec sample_entry chain_new = ?r"
    by (simp add: record_of_def reading_codec_def compute_digest_def canonical_record_def sample_codec_def Let_def)
  have log: "log_of reading_codec [sample_entry] = [?r]"
    using log_of_snoc [of None reading_codec "[]" chain_new sample_entry] empty_holds(1) same
    by (simp add: log_of_def chain_new_def)
  have seq: "sequence ?r = 0" by (simp add: record_of_def chain_new_def Let_def)
  have json: "to_json reading_codec ?r = ''{0}''"
    using seq by (simp add: reading_codec_def sample_codec_def show_nat.simps digit_char_def)
  have "utf8_valid (bytes_of ''{0}'')" by code_simp
  then have "writes_records reading_codec (set [?r])"
    by (simp add: writes_records_def json newline_def) (simp add: reading_codec_def)
  then show ?thesis
    using audit_survives_restarts [of reading_codec "[Logged sample_entry, Restarted]"]
    by (simp add: lg log Let_def split: prod.splits)
qed

text \<open>
  A line cut short by a crash is reported, but the file is reopened for append without ending it: the
  next record is joined to it, and lost with it.
\<close>

lemma torn_line_swallows_the_next_record:
  assumes "writes_records cx (set log)" "writes_records cx {r}" "newline \<notin> set torn" "torn \<noteq> []"
    and "utf8_valid (bytes_of (torn @ to_json cx r))" "graphic (hd torn)" "from_json cx (torn @ to_json cx r) = None"
  shows "journal_read cx (Some (journal_append cx r (journal_of cx log @ torn))) =
    (presented log, [NotARecord (Suc (length log))])"
proof -
  let ?l = "torn @ to_json cx r"
  have l: "newline \<notin> set ?l" "strip_cr ?l = ?l" "trim ?l = ?l" "?l \<noteq> []"
    using assms(2-4,6) trim_graphic [of ?l]
    by (auto simp: writes_records_def strip_cr_def carriage_return_def graphic_def)
  have "split_on newline (?l @ [newline]) = [?l, []]"
    using split_on_append [OF l(1), of "[]"] by simp
  then have "lines_of (journal_append cx r (journal_of cx log @ torn)) = map (to_json cx) log @ [?l]"
    using split_journal [OF assms(1), of "?l @ [newline]"] strip_json [OF assms(1)] l(2)
    by (simp add: lines_of_def journal_append_def Let_def butlast_append)
  then show ?thesis
    using read_into_records [OF assms(1), of 1 "[?l]" chain_new] assms(5,7) l(3,4)
    by (simp add: journal_read_def journal_into_def presented_def)
qed

end
