(* ===== verification/Audit_Keys.thy ===== *)
theory Audit_Keys
  imports Ordered_Maps Codes
begin

text \<open>
  Envelope encryption and rotation: \<^verbatim>\<open>crates/sankhya-audit/src/keys.rs\<close>. A \<open>KeyProvider\<close> is a
  record of its operations; the locale \<open>key_store\<close> states what the envelope relies on, and the
  provider the module ships interprets it.
\<close>

unbundle bit_operations_syntax

record key_id =
  key_name :: string
  key_version :: u32

definition key_new :: "string \<Rightarrow> u32 \<Rightarrow> key_id" where
  "key_new n v = \<lparr>key_name = n, key_version = v\<rparr>"

definition next_version :: "key_id \<Rightarrow> key_id" where
  "next_version k = k\<lparr>key_version := word_saturating_add (key_version k) 1\<rparr>"

record wrapped_key =
  wrapped_by :: key_id
  wrapped_bytes :: bytes

datatype key_error = UnknownKey key_id | Unwrappable key_id | KeyRefused string

record key_provider =
  current_key :: key_id
  wrap_key :: "key_id \<Rightarrow> bytes \<Rightarrow> key_error + wrapped_key"
  unwrap_key :: "wrapped_key \<Rightarrow> key_error + bytes"

subsection \<open>Envelopes\<close>

type_synonym envelope = "(string \<times> wrapped_key) list"

definition protect :: "string \<Rightarrow> bytes \<Rightarrow> key_provider \<Rightarrow> envelope \<Rightarrow> key_error + envelope" where
  "protect c d p env =
     (case wrap_key p (current_key p) d of
        Inl e \<Rightarrow> Inl e
      | Inr w \<Rightarrow> Inr (bt_insert c w env))"

definition data_key :: "envelope \<Rightarrow> string \<Rightarrow> key_provider \<Rightarrow> key_error + bytes option" where
  "data_key env c p =
     (case map_of env c of
        None \<Rightarrow> Inr None
      | Some w \<Rightarrow> (case unwrap_key p w of Inl e \<Rightarrow> Inl e | Inr d \<Rightarrow> Inr (Some d)))"

definition protects :: "envelope \<Rightarrow> string \<Rightarrow> bool" where
  "protects env c \<longleftrightarrow> map_of env c \<noteq> None"

definition protected_columns :: "envelope \<Rightarrow> string list" where
  "protected_columns env = map fst env"

definition wrapped_by_of :: "envelope \<Rightarrow> string \<Rightarrow> key_id option" where
  "wrapped_by_of env c = map_option wrapped_by (map_of env c)"

record rotation =
  rotated_to :: key_id
  rewrapped :: nat
  already_current :: nat

text \<open>
  The loop over \<open>values_mut\<close>: a failure returns at once, and leaves the columns before it re-wrapped.
\<close>

fun rotate_loop :: "key_provider \<Rightarrow> key_id \<Rightarrow> nat \<Rightarrow> nat \<Rightarrow> envelope \<Rightarrow> (key_error + nat \<times> nat) \<times> envelope" where
  "rotate_loop p target n s [] = (Inr (n, s), [])"
| "rotate_loop p target n s ((c, w) # rest) =
     (if wrapped_by w = target then
        (case rotate_loop p target n (Suc s) rest of (r, rest') \<Rightarrow> (r, (c, w) # rest'))
      else (case unwrap_key p w of
              Inl e \<Rightarrow> (Inl e, (c, w) # rest)
            | Inr d \<Rightarrow>
                (case wrap_key p target d of
                   Inl e \<Rightarrow> (Inl e, (c, w) # rest)
                 | Inr w' \<Rightarrow>
                     (case rotate_loop p target (Suc n) s rest of (r, rest') \<Rightarrow> (r, (c, w') # rest')))))"

definition rotate :: "key_provider \<Rightarrow> envelope \<Rightarrow> (key_error + rotation) \<times> envelope" where
  "rotate p env =
     (case rotate_loop p (current_key p) 0 0 env of
        (Inl e, env') \<Rightarrow> (Inl e, env')
      | (Inr (n, s), env') \<Rightarrow>
          (Inr \<lparr>rotated_to = current_key p, rewrapped = n, already_current = s\<rparr>, env'))"

definition changed_anything :: "rotation \<Rightarrow> bool" where
  "changed_anything r \<longleftrightarrow> rewrapped r > 0"

subsection \<open>The provider that does not encrypt\<close>

record no_encryption =
  ne_current :: key_id
  ne_known :: "key_id list"

definition no_encryption_new :: "string \<Rightarrow> no_encryption" where
  "no_encryption_new n = \<lparr>ne_current = key_new n 1, ne_known = [key_new n 1]\<rparr>"

definition rotate_key :: "no_encryption \<Rightarrow> key_id \<times> no_encryption" where
  "rotate_key s =
     (let k = next_version (ne_current s)
      in (k, \<lparr>ne_current = k, ne_known = ne_known s @ [k]\<rparr>))"

definition retire :: "key_id \<Rightarrow> no_encryption \<Rightarrow> no_encryption" where
  "retire k s = s\<lparr>ne_known := filter (\<lambda>j. j \<noteq> k) (ne_known s)\<rparr>"

definition key_marker :: "key_id \<Rightarrow> u8" where
  "key_marker k = of_nat (unat (key_version k) mod 251)"

definition ne_wrap :: "no_encryption \<Rightarrow> key_id \<Rightarrow> bytes \<Rightarrow> key_error + wrapped_key" where
  "ne_wrap s k d =
     (if k \<notin> set (ne_known s) then Inl (UnknownKey k)
      else Inr \<lparr>wrapped_by = k, wrapped_bytes = map (\<lambda>b. b XOR key_marker k) d\<rparr>)"

definition ne_unwrap :: "no_encryption \<Rightarrow> wrapped_key \<Rightarrow> key_error + bytes" where
  "ne_unwrap s w =
     (if wrapped_by w \<notin> set (ne_known s) then Inl (UnknownKey (wrapped_by w))
      else Inr (map (\<lambda>b. b XOR key_marker (wrapped_by w)) (wrapped_bytes w)))"

definition provider_of :: "no_encryption \<Rightarrow> key_provider" where
  "provider_of s = \<lparr>current_key = ne_current s, wrap_key = ne_wrap s, unwrap_key = ne_unwrap s\<rparr>"

subsection \<open>What an envelope relies on\<close>

text \<open>A wrapped key names the key it is wrapped under, and unwraps to what was wrapped.\<close>

locale key_store =
  fixes p :: key_provider
  assumes unwraps: "wrap_key p k d = Inr w \<Longrightarrow> wrapped_by w = k \<and> unwrap_key p w = Inr d"
begin

lemma protect_reads:
  assumes "bt_ordered env" "protect c d p env = Inr env'"
  shows "bt_ordered env' \<and> data_key env' c p = Inr (Some d) \<and> (\<forall>c'. c' \<noteq> c \<longrightarrow> data_key env' c' p = data_key env c' p)"
  using assms unwraps by (auto simp: protect_def data_key_def split: sum.splits)

lemma rotate_loop_keeps:
  "rotate_loop p t n s env = (r, env') \<Longrightarrow>
     map fst env' = map fst env \<and>
     (\<forall>c. data_key env c p = data_key env' c p) \<and>
     (\<forall>m k. r = Inr (m, k) \<longrightarrow> m + k = n + s + length env \<and> (\<forall>(c, w) \<in> set env'. wrapped_by w = t) \<and>
        (m = n \<longrightarrow> env' = env) \<and> n \<le> m)"
proof (induction env arbitrary: n s r env')
  case (Cons cw rest)
  obtain c w where cw: "cw = (c, w)" by (cases cw)
  consider (current) "wrapped_by w = t"
    | (unreadable) e where "wrapped_by w \<noteq> t" "unwrap_key p w = Inl e"
    | (refused) d e where "wrapped_by w \<noteq> t" "unwrap_key p w = Inr d" "wrap_key p t d = Inl e"
    | (moved) d v where "wrapped_by w \<noteq> t" "unwrap_key p w = Inr d" "wrap_key p t d = Inr v"
    by (metis sum.exhaust)
  then show ?case
  proof cases
    case current
    with Cons.prems cw obtain rest' where e: "rotate_loop p t n (Suc s) rest = (r, rest')" "env' = (c, w) # rest'"
      by (auto split: prod.splits)
    from Cons.IH [OF e(1)] current e(2) cw show ?thesis by (auto simp: data_key_def)
  next
    case moved
    with Cons.prems cw obtain rest' where e: "rotate_loop p t (Suc n) s rest = (r, rest')" "env' = (c, v) # rest'"
      by (auto split: prod.splits)
    from Cons.IH [OF e(1)] unwraps [OF moved(3)] moved e(2) cw show ?thesis by (auto simp: data_key_def)
  qed (use Cons.prems cw in \<open>auto simp: data_key_def\<close>)
qed (auto simp: data_key_def)

lemma rotate_keeps:
  assumes "rotate p env = (r, env')"
  shows "map fst env' = map fst env \<and> (\<forall>c. data_key env' c p = data_key env c p) \<and>
    (\<forall>rot. r = Inr rot \<longrightarrow> rewrapped rot + already_current rot = length env \<and>
       rotated_to rot = current_key p \<and> (\<forall>(c, w) \<in> set env'. wrapped_by w = current_key p) \<and>
       (\<not> changed_anything rot \<longrightarrow> env' = env))"
proof -
  obtain q env1 where q: "rotate_loop p (current_key p) 0 0 env = (q, env1)" by (cases "rotate_loop p (current_key p) 0 0 env")
  from rotate_loop_keeps [OF q] assms q show ?thesis
    by (auto simp: rotate_def changed_anything_def split: sum.splits)
qed

lemma rotate_current:
  "(\<forall>(c, w) \<in> set env. wrapped_by w = current_key p) \<Longrightarrow>
     rotate p env = (Inr \<lparr>rotated_to = current_key p, rewrapped = 0, already_current = length env\<rparr>, env)"
proof -
  have "(\<forall>(c, w) \<in> set env. wrapped_by w = t) \<Longrightarrow> rotate_loop p t n s env = (Inr (n, s + length env), env)" for t n s
    by (induction env arbitrary: s) auto
  then show "(\<forall>(c, w) \<in> set env. wrapped_by w = current_key p) \<Longrightarrow> ?thesis"
    by (simp add: rotate_def)
qed

lemma rotate_succeeds:
  assumes "\<And>c w. (c, w) \<in> set env \<Longrightarrow> \<exists>d. unwrap_key p w = Inr d" "\<And>d. \<exists>w. wrap_key p (current_key p) d = Inr w"
  shows "\<exists>rot env'. rotate p env = (Inr rot, env')"
proof -
  have "\<exists>m env'. rotate_loop p (current_key p) n s env = (Inr m, env')" for n s
    using assms(1)
  proof (induction env arbitrary: n s)
    case (Cons cw env)
    obtain c w where cw: "cw = (c, w)" by (cases cw)
    obtain d where d1: "unwrap_key p w = Inr d" using Cons.prems [of c w] cw by auto
    obtain v where d2: "wrap_key p (current_key p) d = Inr v" using assms(2) by blast
    note d = d1 d2
    show ?case
      using Cons.IH [of n "Suc s"] Cons.IH [of "Suc n" s] Cons.prems cw d by fastforce
  qed simp
  then obtain m env' where "rotate_loop p (current_key p) 0 0 env = (Inr m, env')" by blast
  then show ?thesis by (cases m) (simp add: rotate_def)
qed

end

lemma xor_twice: "map (\<lambda>b. b XOR m) (map (\<lambda>b. b XOR m) d) = d" for m :: u8
  by (simp add: o_def xor.assoc)

interpretation plain: key_store "provider_of s"
  by unfold_locales (auto simp: provider_of_def ne_wrap_def ne_unwrap_def o_def xor.assoc split: if_splits)

subsection \<open>Keys over time\<close>

text \<open>
  Data keys are protected, the provider's key is rotated, the envelope re-wrapped, and keys retired
  that no column is wrapped under. \<open>m\<close> is what each column was last protected with.
\<close>

inductive key_step ::
    "no_encryption \<times> envelope \<times> (string \<rightharpoonup> bytes) \<Rightarrow> no_encryption \<times> envelope \<times> (string \<rightharpoonup> bytes) \<Rightarrow> bool" where
  protecting: "protect c d (provider_of s) env = Inr env' \<Longrightarrow> key_step (s, env, m) (s, env', m(c \<mapsto> d))"
| new_key: "rotate_key s = (k, s') \<Longrightarrow> key_step (s, env, m) (s', env, m)"
| rewrapping: "rotate (provider_of s) env = (r, env') \<Longrightarrow> key_step (s, env, m) (s, env', m)"
| retiring: "k \<noteq> ne_current s \<Longrightarrow> (\<forall>c. wrapped_by_of env c \<noteq> Some k) \<Longrightarrow>
    key_step (s, env, m) (retire k s, env, m)"

definition keys_ok :: "no_encryption \<times> envelope \<times> (string \<rightharpoonup> bytes) \<Rightarrow> bool" where
  "keys_ok = (\<lambda>(s, env, m). bt_ordered env \<and> ne_current s \<in> set (ne_known s) \<and>
     (\<forall>c. data_key env c (provider_of s) = Inr (m c)))"

lemma readable_known:
  assumes "data_key env c (provider_of s) = Inr x" "map_of env c = Some w"
  shows "wrapped_by w \<in> set (ne_known s)"
  using assms by (auto simp: data_key_def provider_of_def ne_unwrap_def split: if_splits)

lemma data_key_known:
  assumes "\<And>w. map_of env c = Some w \<Longrightarrow> wrapped_by w \<in> set (ne_known s) \<and> wrapped_by w \<in> set (ne_known s')"
  shows "data_key env c (provider_of s') = data_key env c (provider_of s)"
  using assms by (auto simp: data_key_def provider_of_def ne_unwrap_def split: option.split)

lemma key_step_ok:
  assumes "key_step x y" "keys_ok x"
  shows "keys_ok y"
  using assms
proof (induction rule: key_step.induct)
  case (protecting c d s env env' m)
  with plain.protect_reads [of env c d s env'] show ?case by (auto simp: keys_ok_def)
next
  case (new_key s k s' env m)
  have "data_key env c (provider_of s') = data_key env c (provider_of s)" for c
    using new_key readable_known [of env c s] by (intro data_key_known) (auto simp: keys_ok_def rotate_key_def Let_def)
  with new_key show ?case by (auto simp: keys_ok_def rotate_key_def Let_def)
next
  case (rewrapping s env r env' m)
  with plain.rotate_keeps [OF rewrapping(1)] show ?case by (auto simp: keys_ok_def bt_ordered_def)
next
  case (retiring k s env m)
  have "data_key env c (provider_of (retire k s)) = data_key env c (provider_of s)" for c
    using retiring readable_known [of env c s]
    by (intro data_key_known) (auto simp: keys_ok_def retire_def wrapped_by_of_def)
  with retiring show ?case by (auto simp: keys_ok_def retire_def)
qed

lemma keys_ok_reachable:
  "key_step\<^sup>*\<^sup>* (no_encryption_new n, [], Map.empty) x \<Longrightarrow> keys_ok x"
proof (induction rule: rtranclp_induct)
  case base
  then show ?case by (simp add: keys_ok_def no_encryption_new_def data_key_def)
next
  case (step y z)
  then show ?case by (blast intro: key_step_ok)
qed

text \<open>
  C25: Through any sequence of protecting columns, new key versions, re-wrapping and retiring versions that
  nothing is wrapped under, every column still unwraps to the data key it was last protected with.
  Re-wrapping then succeeds, touches no data key, leaves every column under the current version, and a second
  one changes nothing.
\<close>

theorem rotation_loses_no_key:
  assumes "key_step\<^sup>*\<^sup>* (no_encryption_new n, [], Map.empty) (s, env, m)"
  shows "(\<forall>c. data_key env c (provider_of s) = Inr (m c)) \<and>
    (\<exists>rot env'. rotate (provider_of s) env = (Inr rot, env') \<and>
       (\<forall>c. data_key env' c (provider_of s) = Inr (m c)) \<and>
       protected_columns env' = protected_columns env \<and>
       rewrapped rot + already_current rot = length env \<and>
       (\<forall>c \<in> set (protected_columns env). wrapped_by_of env' c = Some (ne_current s)) \<and>
       rotate (provider_of s) env' =
         (Inr \<lparr>rotated_to = ne_current s, rewrapped = 0, already_current = length env\<rparr>, env'))"
proof -
  have ok: "bt_ordered env" "ne_current s \<in> set (ne_known s)" "\<And>c. data_key env c (provider_of s) = Inr (m c)"
    using keys_ok_reachable [OF assms] by (auto simp: keys_ok_def)
  have "\<exists>d. unwrap_key (provider_of s) w = Inr d" if "(c, w) \<in> set env" for c w
    using ok(3) [of c] bt_set [OF ok(1)] that by (auto simp: data_key_def split: sum.splits)
  moreover have "\<exists>w. wrap_key (provider_of s) (current_key (provider_of s)) d = Inr w" for d
    using ok(2) by (simp add: provider_of_def ne_wrap_def)
  ultimately obtain rot env' where r: "rotate (provider_of s) env = (Inr rot, env')"
    using plain.rotate_succeeds by blast
  note k = plain.rotate_keeps [OF r]
  have names: "map fst env' = map fst env" and same: "data_key env' c (provider_of s) = Inr (m c)" for c
    using k ok(3) by simp_all
  have total: "rewrapped rot + already_current rot = length env" using k by blast
  have cur: "current_key (provider_of s) = ne_current s" by (simp add: provider_of_def)
  have all: "\<forall>(c, w) \<in> set env'. wrapped_by w = ne_current s" using k cur by simp
  have "wrapped_by_of env' c = Some (ne_current s)" if "c \<in> set (protected_columns env)" for c
  proof -
    have "c \<in> fst ` set env'" using that k by (metis protected_columns_def set_map)
    then obtain w where "map_of env' c = Some w" by (metis map_of_eq_None_iff not_None_eq)
    with all show ?thesis by (auto simp: wrapped_by_of_def dest: map_of_SomeD)
  qed
  moreover have "rotate (provider_of s) env' =
      (Inr \<lparr>rotated_to = ne_current s, rewrapped = 0, already_current = length env'\<rparr>, env')"
    using plain.rotate_current [of env' s] all cur by simp
  moreover have "length env' = length env" using k by (metis length_map)
  ultimately have "(\<forall>c \<in> set (protected_columns env). wrapped_by_of env' c = Some (ne_current s)) \<and>
      rotate (provider_of s) env' =
        (Inr \<lparr>rotated_to = ne_current s, rewrapped = 0, already_current = length env\<rparr>, env')"
    by metis
  then show ?thesis using r names same total ok(3) unfolding protected_columns_def by blast
qed

theorem rotation_loses_no_key_witness:
  "\<exists>s env. data_key env ''c'' (provider_of s) = Inr (Some [1, 2]) \<and> wrapped_by_of env ''c'' = Some (key_new ''k'' 1) \<and>
     ne_current s = key_new ''k'' 2"
proof -
  let ?s = "no_encryption_new ''k''"
  obtain env where p: "protect ''c'' [1, 2] (provider_of ?s) [] = Inr env" and w: "wrapped_by_of env ''c'' = Some (key_new ''k'' 1)"
    by (simp add: protect_def provider_of_def ne_wrap_def no_encryption_new_def wrapped_by_of_def)
  obtain k s' where r: "rotate_key ?s = (k, s')" by (cases "rotate_key ?s")
  then have "ne_current s' = key_new ''k'' 2"
    by (auto simp: rotate_key_def no_encryption_new_def next_version_def key_new_def word_saturating_add_def Let_def)
  moreover have "key_step\<^sup>*\<^sup>* (?s, [], Map.empty) (s', env, [''c'' \<mapsto> [1, 2]])"
    using protecting [OF p] new_key [OF r] by (meson converse_rtranclp_into_rtranclp rtranclp.rtrancl_refl)
  with rotation_loses_no_key [of "''k''" s' env "[''c'' \<mapsto> [1, 2]]"]
  have "data_key env ''c'' (provider_of s') = Inr (Some [1, 2])" by auto
  ultimately show ?thesis using w by blast
qed

end
