(* ===== verification/Delta_Replay.thy ===== *)
theory Delta_Replay
  imports Ordered_Maps Decimal
begin

text \<open>
  The actions of a table's transaction log and their replay to the set of live files: the data types, \<open>Replay\<close>
  and \<open>LiveSet\<close> of \<^verbatim>\<open>crates/sankhya-table-delta/src/log.rs\<close>, and the summaries of
  \<^verbatim>\<open>history.rs\<close>. A version is a natural number: the code counts in \<open>u64\<close>, one file for
  each.
\<close>

type_synonym log_version = nat

record add_file =
  af_path :: string
  partition_values :: "(string \<times> string) list"
  af_size :: u64
  modification_time :: i64
  af_stats :: "string option"
  data_change :: bool

record remove_file =
  rf_path :: string
  deletion_timestamp :: i64
  rf_data_change :: bool

record table_format =
  provider :: string
  format_options :: "(string \<times> string) list"

record metadata =
  md_id :: string
  schema_string :: string
  md_format :: table_format
  partition_columns :: "string list"
  configuration :: "(string \<times> string) list"
  created_time :: i64

datatype delta_action = Protocol u32 u32 | Metadata metadata | Add add_file | Remove remove_file

definition MIN_READER_VERSION :: u32 where "MIN_READER_VERSION = 1"
definition MIN_WRITER_VERSION :: u32 where "MIN_WRITER_VERSION = 2"
definition SUPPORTED_READER_VERSION :: u32 where "SUPPORTED_READER_VERSION = 1"

definition add_file_new :: "string \<Rightarrow> u64 \<Rightarrow> i64 \<Rightarrow> add_file" where
  "add_file_new p n t =
     \<lparr>af_path = p, partition_values = [], af_size = n, modification_time = t, af_stats = None, data_change = True\<rparr>"

definition with_rows :: "string \<Rightarrow> u64 \<Rightarrow> i64 \<Rightarrow> u64 \<Rightarrow> add_file" where
  "with_rows p n t rows =
     (add_file_new p n t)\<lparr>af_stats := Some (''{\"numRecords\":'' @ show_nat (unat rows) @ ''}'')\<rparr>"

definition removal_rewritten :: "string \<Rightarrow> i64 \<Rightarrow> remove_file" where
  "removal_rewritten p t = \<lparr>rf_path = p, deletion_timestamp = t, rf_data_change = False\<rparr>"

definition removal_deleted :: "string \<Rightarrow> i64 \<Rightarrow> remove_file" where
  "removal_deleted p t = \<lparr>rf_path = p, deletion_timestamp = t, rf_data_change = True\<rparr>"

definition metadata_new :: "string \<Rightarrow> string \<Rightarrow> i64 \<Rightarrow> metadata" where
  "metadata_new i s t =
     \<lparr>md_id = i, schema_string = s, md_format = \<lparr>provider = ''parquet'', format_options = []\<rparr>,
      partition_columns = [], configuration = [], created_time = t\<rparr>"

definition create_table :: "metadata \<Rightarrow> delta_action list" where
  "create_table m = [Protocol MIN_READER_VERSION MIN_WRITER_VERSION, Metadata m]"

text \<open>The partition a path places its file in: the \<open>key=value\<close> segments, the last of each key.\<close>

definition partition_values_from :: "string \<Rightarrow> (string \<times> string) list" where
  "partition_values_from path =
     bt_insert_all (List.map_filter (split_once CHR ''='') (filter (\<lambda>s. s \<noteq> []) (split_on CHR ''/'' path))) []"

subsection \<open>Replay\<close>

record live_set =
  ls_files :: "add_file list"
  ls_version :: "log_version option"

definition live_set_default :: live_set where
  "live_set_default = \<lparr>ls_files = [], ls_version = None\<rparr>"

definition total_bytes :: "live_set \<Rightarrow> u64" where
  "total_bytes l = sum_list (map af_size (ls_files l))"

definition paths :: "live_set \<Rightarrow> string list" where
  "paths l = map af_path (ls_files l)"

record replay =
  rp_files :: "add_file option list"
  rp_position :: "string \<rightharpoonup> nat"
  rp_version :: "log_version option"

definition replay_default :: replay where
  "replay_default = \<lparr>rp_files = [], rp_position = Map.empty, rp_version = None\<rparr>"

text \<open>\<open>From<LiveSet>\<close>: the index is collected in order, so of two files with one path the last is found.\<close>

definition replay_from :: "live_set \<Rightarrow> replay" where
  "replay_from l =
     \<lparr>rp_files = map Some (ls_files l),
      rp_position = map_of (rev (zip (map af_path (ls_files l)) [0..<length (ls_files l)])),
      rp_version = ls_version l\<rparr>"

text \<open>\<open>apply\<close>; \<open>get_mut\<close> past the end finds no slot, as the update of a list past its end has no effect.\<close>

definition apply_action :: "log_version \<Rightarrow> delta_action \<Rightarrow> replay \<Rightarrow> replay" where
  "apply_action v a r0 =
     (let r = r0\<lparr>rp_version := Some v\<rparr> in
      case a of
        Add f \<Rightarrow>
          (case rp_position r (af_path f) of
             Some i \<Rightarrow> r\<lparr>rp_files := (rp_files r)[i := Some f]\<rparr>
           | None \<Rightarrow> r\<lparr>rp_position := (rp_position r)(af_path f \<mapsto> length (rp_files r)),
                       rp_files := rp_files r @ [Some f]\<rparr>)
      | Remove g \<Rightarrow>
          (case rp_position r (rf_path g) of
             Some i \<Rightarrow> r\<lparr>rp_position := (rp_position r)(rf_path g := None),
                          rp_files := (rp_files r)[i := None]\<rparr>
           | None \<Rightarrow> r)
      | Protocol _ _ \<Rightarrow> r
      | Metadata _ \<Rightarrow> r)"

definition apply_all :: "(log_version \<times> delta_action) list \<Rightarrow> replay \<Rightarrow> replay" where
  "apply_all l r = fold (\<lambda>(v, a). apply_action v a) l r"

definition live_of :: "replay \<Rightarrow> live_set" where
  "live_of r = \<lparr>ls_files = List.map_filter id (rp_files r), ls_version = rp_version r\<rparr>"

subsection \<open>What a log declares\<close>

text \<open>
  The specification: a list of files in the order they came in, without an index. An added file takes the place
  of the one at its path.
\<close>

fun live_step :: "delta_action \<Rightarrow> add_file list \<Rightarrow> add_file list" where
  "live_step (Add f) fs =
     (if af_path f \<in> af_path ` set fs then map (\<lambda>g. if af_path g = af_path f then f else g) fs else fs @ [f])"
| "live_step (Remove g) fs = filter (\<lambda>f. af_path f \<noteq> rf_path g) fs"
| "live_step (Protocol _ _) fs = fs"
| "live_step (Metadata _) fs = fs"

fun touches_path :: "string \<Rightarrow> delta_action \<Rightarrow> bool" where
  "touches_path p (Add f) \<longleftrightarrow> af_path f = p"
| "touches_path p (Remove g) \<longleftrightarrow> rf_path g = p"
| "touches_path p (Protocol _ _) \<longleftrightarrow> False"
| "touches_path p (Metadata _) \<longleftrightarrow> False"

text \<open>A file is declared live where it was added and nothing later touches its path.\<close>

definition declared_live :: "delta_action list \<Rightarrow> add_file \<Rightarrow> bool" where
  "declared_live as f \<longleftrightarrow>
     (\<exists>xs ys. as = xs @ Add f # ys \<and> (\<forall>a \<in> set ys. \<not> touches_path (af_path f) a))"

text \<open>The index of a replay points at the slot of each live path, and at nothing else.\<close>

definition indexed :: "replay \<Rightarrow> bool" where
  "indexed r \<longleftrightarrow>
     (\<forall>p i. rp_position r p = Some i \<longleftrightarrow> (\<exists>f. i < length (rp_files r) \<and> rp_files r ! i = Some f \<and> af_path f = p))"

lemma map_filter_id_update:
  "i < length xs \<Longrightarrow> List.map_filter id (xs[i := None]) = List.map_filter id (take i xs) @ List.map_filter id (drop (Suc i) xs)"
  by (simp add: upd_conv_take_nth_drop map_filter_simps)

lemma map_filter_id_split:
  "i < length xs \<Longrightarrow> xs ! i = Some f \<Longrightarrow>
     List.map_filter id xs = List.map_filter id (take i xs) @ f # List.map_filter id (drop (Suc i) xs)"
  using id_take_nth_drop [of i xs] map_filter_append [of id "take i xs" "xs ! i # drop (Suc i) xs"]
  by (simp add: map_filter_simps)

lemma in_map_filter_id: "f \<in> set (List.map_filter id xs) \<longleftrightarrow> (\<exists>i < length xs. xs ! i = Some f)"
  by (force simp: set_map_filter in_set_conv_nth)

lemma indexed_split:
  assumes "indexed r" "rp_position r p = Some i"
  obtains pre g post where "List.map_filter id (rp_files r) = pre @ g # post" "af_path g = p"
    "\<forall>h \<in> set pre \<union> set post. af_path h \<noteq> p" "i < length (rp_files r)"
    "\<And>x. List.map_filter id ((rp_files r)[i := x]) = pre @ List.map_filter id [x] @ post"
proof -
  obtain g where g: "i < length (rp_files r)" "rp_files r ! i = Some g" "af_path g = p"
    using assms by (auto simp: indexed_def)
  define pre where "pre = List.map_filter id (take i (rp_files r))"
  define post where "post = List.map_filter id (drop (Suc i) (rp_files r))"
  have "af_path h \<noteq> p" if "h \<in> set pre \<union> set post" for h
  proof
    assume p: "af_path h = p"
    have "\<exists>j. j \<noteq> i \<and> j < length (rp_files r) \<and> rp_files r ! j = Some h"
    proof (cases "h \<in> set pre")
      case True
      then obtain j where "j < i" "j < length (rp_files r)" "rp_files r ! j = Some h"
        by (auto simp: pre_def in_map_filter_id)
      then show ?thesis by (intro exI [of _ j]) simp
    next
      case False
      with that obtain j where "j < length (rp_files r) - Suc i" "rp_files r ! (Suc i + j) = Some h"
        by (auto simp: post_def in_map_filter_id)
      then show ?thesis by (intro exI [of _ "Suc i + j"]) auto
    qed
    then obtain j where "j \<noteq> i" "j < length (rp_files r)" "rp_files r ! j = Some h" by blast
    with p assms show False unfolding indexed_def by (metis option.inject)
  qed
  moreover have "List.map_filter id ((rp_files r)[i := x]) = pre @ List.map_filter id [x] @ post" for x
    using g(1) by (simp add: pre_def post_def upd_conv_take_nth_drop map_filter_simps split: option.split)
  moreover have "List.map_filter id (rp_files r) = pre @ g # post"
    using g by (simp add: pre_def post_def map_filter_id_split)
  ultimately show ?thesis using that [of pre g post] g by blast
qed

lemma indexed_path: "indexed r \<Longrightarrow> p \<in> af_path ` set (List.map_filter id (rp_files r)) \<longleftrightarrow> rp_position r p \<noteq> None"
  by (force simp: indexed_def in_map_filter_id image_iff)

lemma apply_refines:
  assumes "indexed r"
  shows "ls_files (live_of (apply_action v a r)) = live_step a (ls_files (live_of r))"
proof (cases a)
  case (Add f)
  show ?thesis
  proof (cases "rp_position r (af_path f)")
    case None
    then show ?thesis using indexed_path [OF assms, of "af_path f"] Add
      by (simp add: apply_action_def live_of_def map_filter_simps)
  next
    case (Some i)
    from indexed_split [OF assms Some] obtain pre g post
      where "List.map_filter id (rp_files r) = pre @ g # post" "af_path g = af_path f"
        "\<forall>h \<in> set pre \<union> set post. af_path h \<noteq> af_path f"
        "\<And>x. List.map_filter id ((rp_files r)[i := x]) = pre @ List.map_filter id [x] @ post"
      by metis
    with Add Some show ?thesis
      by (simp add: apply_action_def live_of_def map_filter_simps map_idI ball_Un)
  qed
next
  case (Remove g)
  show ?thesis
  proof (cases "rp_position r (rf_path g)")
    case None
    then have "rf_path g \<notin> af_path ` set (List.map_filter id (rp_files r))"
      using indexed_path [OF assms, of "rf_path g"] by simp
    then have "filter (\<lambda>f. af_path f \<noteq> rf_path g) (List.map_filter id (rp_files r)) = List.map_filter id (rp_files r)"
      by (intro filter_True) force
    with None Remove show ?thesis by (simp add: apply_action_def live_of_def)
  next
    case (Some i)
    from indexed_split [OF assms Some] obtain pre h post
      where "List.map_filter id (rp_files r) = pre @ h # post" "af_path h = rf_path g"
        "\<forall>h \<in> set pre \<union> set post. af_path h \<noteq> rf_path g"
        "\<And>x. List.map_filter id ((rp_files r)[i := x]) = pre @ List.map_filter id [x] @ post"
      by metis
    with Remove Some show ?thesis
      by (simp add: apply_action_def live_of_def map_filter_simps ball_Un)
  qed
qed (simp_all add: apply_action_def live_of_def)

lemma apply_action_Add:
  "rp_position r (af_path f) = None \<Longrightarrow> apply_action v (Add f) r =
     r\<lparr>rp_version := Some v, rp_position := (rp_position r)(af_path f \<mapsto> length (rp_files r)), rp_files := rp_files r @ [Some f]\<rparr>"
  "rp_position r (af_path f) = Some i \<Longrightarrow> apply_action v (Add f) r =
     r\<lparr>rp_version := Some v, rp_files := (rp_files r)[i := Some f]\<rparr>"
  by (simp_all add: apply_action_def)

lemma apply_action_Remove:
  "rp_position r (rf_path g) = None \<Longrightarrow> apply_action v (Remove g) r = r\<lparr>rp_version := Some v\<rparr>"
  "rp_position r (rf_path g) = Some i \<Longrightarrow> apply_action v (Remove g) r =
     r\<lparr>rp_version := Some v, rp_position := (rp_position r)(rf_path g := None), rp_files := (rp_files r)[i := None]\<rparr>"
  by (simp_all add: apply_action_def)

lemma indexed_unique:
  assumes "indexed r" "i < length (rp_files r)" "rp_files r ! i = Some f" "j < length (rp_files r)" "rp_files r ! j = Some g"
    "af_path f = af_path g"
  shows "i = j"
  using assms unfolding indexed_def by (metis option.inject)

lemma apply_indexed:
  assumes "indexed r"
  shows "indexed (apply_action v a r)"
proof (cases a)
  case (Add f)
  show ?thesis
  proof (cases "rp_position r (af_path f)")
    case None
    have "rp_files r ! j \<noteq> Some h" if "af_path h = af_path f" "j < length (rp_files r)" for j h
    proof
      assume "rp_files r ! j = Some h"
      with that assms have "rp_position r (af_path f) = Some j" unfolding indexed_def by blast
      with None show False by simp
    qed
    with None Add assms show ?thesis
      by (auto simp: apply_action_Add indexed_def nth_append less_Suc_eq)
  next
    case (Some i)
    with assms obtain h where "i < length (rp_files r)" "rp_files r ! i = Some h" "af_path h = af_path f"
      by (auto simp: indexed_def)
    with assms show ?thesis unfolding Add apply_action_Add(2) [OF Some]
      by (auto simp: indexed_def nth_list_update)
  qed
next
  case (Remove g)
  show ?thesis
  proof (cases "rp_position r (rf_path g)")
    case None
    with Remove assms show ?thesis by (simp add: apply_action_Remove indexed_def)
  next
    case (Some i)
    with assms obtain h where h: "i < length (rp_files r)" "rp_files r ! i = Some h" "af_path h = rf_path g"
      by (auto simp: indexed_def)
    then have only: "j = i" if "j < length (rp_files r)" "rp_files r ! j = Some f" "af_path f = rf_path g" for j f
      using indexed_unique [OF assms] that by metis
    have at: "rp_position r p = Some j \<longleftrightarrow> (\<exists>f. j < length (rp_files r) \<and> rp_files r ! j = Some f \<and> af_path f = p)" for p j
      using assms by (simp add: indexed_def)
    show ?thesis unfolding Remove apply_action_Remove(2) [OF Some]
      using h by (auto simp: indexed_def nth_list_update at dest: only split: if_splits)
  qed
qed (use assms in \<open>simp_all add: indexed_def apply_action_def\<close>)

lemma apply_version [simp]: "rp_version (apply_action v a r) = Some v"
  by (simp add: apply_action_def Let_def split: delta_action.split option.split)

subsection \<open>Replays of whole logs\<close>

definition live_files_of :: "delta_action list \<Rightarrow> add_file list \<Rightarrow> add_file list" where
  "live_files_of as fs = fold live_step as fs"

lemma apply_all_refines:
  assumes "indexed r"
  shows "indexed (apply_all l r) \<and>
    live_of (apply_all l r) =
      \<lparr>ls_files = live_files_of (map snd l) (ls_files (live_of r)),
       ls_version = (if l = [] then rp_version r else Some (fst (last l)))\<rparr>"
  using assms
proof (induction l arbitrary: r)
  case Nil
  then show ?case by (simp add: apply_all_def live_files_of_def live_of_def)
next
  case (Cons x l)
  obtain v a where x: "x = (v, a)" by (cases x)
  have "indexed (apply_action v a r)" by (rule apply_indexed [OF Cons.prems])
  from Cons.IH [OF this] apply_refines [OF Cons.prems, of v a] show ?case
    by (simp add: apply_all_def live_files_of_def x)
qed

lemma apply_all_same:
  assumes "indexed r" "indexed r'" "live_of r = live_of r'"
  shows "live_of (apply_all l r) = live_of (apply_all l r')"
proof -
  have "rp_version r = rp_version r'" using assms(3) by (simp add: live_of_def)
  with assms apply_all_refines [of r l] apply_all_refines [of r' l] show ?thesis by simp
qed

lemma indexed_default: "indexed replay_default" "live_of replay_default = live_set_default"
  by (simp_all add: indexed_def replay_default_def live_of_def live_set_default_def map_filter_simps)

lemma map_of_zip_upt_rev:
  assumes "distinct xs"
  shows "map_of (rev (zip xs [0..<length xs])) x = Some i \<longleftrightarrow> i < length xs \<and> xs ! i = x"
proof -
  have "map fst (zip xs [0..<length xs]) = xs" by simp
  then have "distinct (map fst (rev (zip xs [0..<length xs])))" using assms by (metis distinct_rev rev_map)
  then show ?thesis
    by (auto simp: map_of_eq_Some_iff in_set_zip)
qed

lemma from_indexed:
  assumes "distinct (map af_path (ls_files l))"
  shows "indexed (replay_from l) \<and> live_of (replay_from l) = l"
proof
  show "indexed (replay_from l)"
    using map_of_zip_upt_rev [OF assms] by (auto simp: indexed_def replay_from_def)
  show "live_of (replay_from l) = l"
    by (simp add: live_of_def replay_from_def List.map_filter_def o_def)
qed

lemma live_step_distinct: "distinct (map af_path fs) \<Longrightarrow> distinct (map af_path (live_step a fs))"
proof (cases a)
  case (Add f)
  assume d: "distinct (map af_path fs)"
  have "map af_path (map (\<lambda>g. if af_path g = af_path f then f else g) fs) = map af_path fs" by simp
  with d Add show ?thesis by (simp del: map_map)
qed (auto simp: distinct_map_filter)

lemma live_files_distinct: "distinct (map af_path fs) \<Longrightarrow> distinct (map af_path (live_files_of as fs))"
  by (induction as arbitrary: fs) (auto simp: live_files_of_def dest: live_step_distinct)

lemma live_files_of_append: "live_files_of (as @ bs) fs = live_files_of bs (live_files_of as fs)"
  by (simp add: live_files_of_def)

lemma live_step_set:
  "set (live_step a fs) =
     {f \<in> set fs. \<not> touches_path (af_path f) a} \<union> {f. a = Add f}"
proof (cases a)
  case (Add f)
  then show ?thesis by (auto simp: image_iff)
qed auto

lemma declared_live_snoc:
  "declared_live (as @ [a]) f \<longleftrightarrow> a = Add f \<or> (declared_live as f \<and> \<not> touches_path (af_path f) a)"
proof
  assume "declared_live (as @ [a]) f"
  then obtain xs ys where l: "as @ [a] = xs @ Add f # ys" "\<forall>a \<in> set ys. \<not> touches_path (af_path f) a"
    by (auto simp: declared_live_def)
  show "a = Add f \<or> (declared_live as f \<and> \<not> touches_path (af_path f) a)"
  proof (cases ys rule: rev_cases)
    case Nil
    with l show ?thesis by simp
  next
    case (snoc zs z)
    with l have "as = xs @ Add f # zs" "a = z" by (metis append.assoc append_Cons butlast_snoc last_snoc)+
    with l snoc show ?thesis by (auto simp: declared_live_def)
  qed
next
  assume "a = Add f \<or> (declared_live as f \<and> \<not> touches_path (af_path f) a)"
  then show "declared_live (as @ [a]) f"
  proof
    assume "a = Add f"
    then show ?thesis unfolding declared_live_def by (intro exI [of _ as] exI [of _ "[]"]) simp
  next
    assume "declared_live as f \<and> \<not> touches_path (af_path f) a"
    then obtain xs ys where "as = xs @ Add f # ys" "\<forall>a \<in> set ys. \<not> touches_path (af_path f) a" "\<not> touches_path (af_path f) a"
      by (auto simp: declared_live_def)
    then show ?thesis unfolding declared_live_def by (intro exI [of _ xs] exI [of _ "ys @ [a]"]) auto
  qed
qed

lemma live_files_declared: "f \<in> set (live_files_of as []) \<longleftrightarrow> declared_live as f"
proof (induction as rule: rev_induct)
  case Nil
  then show ?case by (simp add: live_files_of_def declared_live_def)
next
  case (snoc a as)
  have "set (live_files_of (as @ [a]) []) = {f \<in> set (live_files_of as []). \<not> touches_path (af_path f) a} \<union> {f. a = Add f}"
    by (simp add: live_files_of_append live_files_of_def live_step_set)
  with snoc show ?case by (auto simp: declared_live_snoc)
qed


end
