(* ===== verification/Delta_Log.thy ===== *)
theory Delta_Log
  imports Delta_Replay "HOL-Library.AList"
begin

text \<open>
  Committing to a table's transaction log and reading it back: \<open>commit\<close>, \<open>commits\<close>, \<open>newest_after\<close>,
  \<open>read_actions_after\<close> and what is built on them in
  \<^verbatim>\<open>crates/sankhya-table-delta/src/log.rs\<close>. The log directory is an association list from file names;
  how \<open>serde\<close> writes an action and reads a line is a parameter.
\<close>

subsection \<open>The log directory\<close>

text \<open>
  A checkpoint is a Parquet table with one action in each row: the columns \<open>protocol\<close> (its reader version),
  \<open>metaData\<close> and \<open>add\<close>, where a file may lack a column, or a column of \<open>add\<close>.
\<close>

record add_row =
  aw_path :: string
  aw_size :: i64
  aw_time :: i64
  aw_data_change :: bool
  aw_stats :: "string option"

record checkpoint_batch =
  cb_protocol :: "int option list option"
  cb_metadata :: "metadata option list"
  cb_add :: "add_row option list option"
  cb_add_columns :: "string list"

datatype disk_entry = Hidden | Unreadable | Text string | Parquet "checkpoint_batch list"

type_synonym disk = "(string \<times> disk_entry) list"

text \<open>\<open>Path::exists\<close> answers no where it cannot tell; \<open>try_exists\<close> says so.\<close>

definition exists :: "disk \<Rightarrow> string \<Rightarrow> bool" where
  "exists d n \<longleftrightarrow> (case map_of d n of None \<Rightarrow> False | Some e \<Rightarrow> e \<noteq> Hidden)"

datatype io_failure = CannotTell string | CannotRead string | CannotClaim string | NoActions | CannotEncode
  | NothingToCheckpoint | NoColumn string

datatype malformed = NotJson | NotAnAction | Empty | Short nat nat

datatype commit_error =
    VersionTaken log_version
  | Io io_failure
  | Malformed log_version malformed
  | NonContiguous log_version log_version
  | Unsupported log_version u32 u32

definition try_exists :: "disk \<Rightarrow> string \<Rightarrow> commit_error + bool" where
  "try_exists d n =
     (case map_of d n of None \<Rightarrow> Inr False | Some e \<Rightarrow> if e = Hidden then Inl (Io (CannotTell n)) else Inr True)"

definition read_to_string :: "disk \<Rightarrow> string \<Rightarrow> commit_error + string" where
  "read_to_string d n = (case map_of d n of Some (Text s) \<Rightarrow> Inr s | _ \<Rightarrow> Inl (Io (CannotRead n)))"

text \<open>\<open>{version:020}\<close>: twenty digits, zero-padded.\<close>

definition commit_name :: "log_version \<Rightarrow> string" where
  "commit_name v = pad_nat 20 v @ ''.json''"

subsection \<open>Lines\<close>

datatype json =
    JNull
  | JBool bool
  | JUInt u64
  | JNumber string
  | JString string
  | JArray "json list"
  | JObject "(string \<times> json) list"

fun json_get :: "string \<Rightarrow> json \<Rightarrow> json option" where
  "json_get k (JObject m) = map_of m k"
| "json_get k _ = None"

fun json_u64 :: "json \<Rightarrow> u64 option" where
  "json_u64 (JUInt n) = Some n"
| "json_u64 _ = None"

fun line_kind :: "json \<Rightarrow> string" where
  "line_kind (JObject ((k, _) # _)) = k"
| "line_kind _ = ''''"

definition declared_actions :: "json \<Rightarrow> u64 option" where
  "declared_actions j =
     Option.bind (Option.bind (Option.bind (json_get ''commitInfo'' j) (json_get ''sankhya'')) (json_get ''actions'')) json_u64"

record delta_codec =
  action_line :: "delta_action \<Rightarrow> string option"
  seal_line :: "nat \<Rightarrow> string"
  json_value :: "string \<Rightarrow> json option"
  json_action :: "string \<Rightarrow> delta_action option"

fun unsupported :: "delta_action \<Rightarrow> u32 option" where
  "unsupported (Protocol r w) = (if r > SUPPORTED_READER_VERSION then Some r else None)"
| "unsupported _ = None"

text \<open>The lines of one commit: its actions, how many were read, and how many its seal declares.\<close>

fun read_lines ::
    "delta_codec \<Rightarrow> log_version \<Rightarrow> string list \<Rightarrow> nat \<Rightarrow> nat option \<Rightarrow> commit_error + (delta_action list \<times> nat \<times> nat option)" where
  "read_lines cx v [] n s = Inr ([], n, s)"
| "read_lines cx v (l # ls) n s =
     (case json_value cx l of
        None \<Rightarrow> Inl (Malformed v NotJson)
      | Some j \<Rightarrow>
          if line_kind j = ''commitInfo'' then
            read_lines cx v ls n (case declared_actions j of Some k \<Rightarrow> Some (unat k) | None \<Rightarrow> s)
          else if line_kind j \<notin> {''protocol'', ''metaData'', ''add'', ''remove''} then read_lines cx v ls n s
          else (case json_action cx l of
                  None \<Rightarrow> Inl (Malformed v NotAnAction)
                | Some a \<Rightarrow>
                    (case unsupported a of
                       Some r \<Rightarrow> Inl (Unsupported v r SUPPORTED_READER_VERSION)
                     | None \<Rightarrow>
                         (case read_lines cx v ls (Suc n) s of
                            Inl e \<Rightarrow> Inl e
                          | Inr (as, n', s') \<Rightarrow> Inr (a # as, n', s')))))"

definition read_commit :: "delta_codec \<Rightarrow> log_version \<Rightarrow> string \<Rightarrow> commit_error + delta_action list" where
  "read_commit cx v body =
     (case read_lines cx v (filter (\<lambda>l. trim l \<noteq> []) (lines_of body)) 0 None of
        Inl e \<Rightarrow> Inl e
      | Inr (as, n, s) \<Rightarrow>
          if n = 0 then Inl (Malformed v Empty)
          else (case s of
                  Some k \<Rightarrow> if k \<noteq> n then Inl (Malformed v (Short k n)) else Inr as
                | None \<Rightarrow> Inr as))"

subsection \<open>Reading the log\<close>

lemma commit_name_inj [simp]: "commit_name v = commit_name w \<longleftrightarrow> v = w"
  using pad_nat_inj by (auto simp: commit_name_def)

definition commits_from :: "disk \<Rightarrow> log_version \<Rightarrow> log_version set" where
  "commits_from d v = {w. v \<le> w \<and> commit_name w \<in> fst ` set d}"

lemma finite_commits_from [simp]: "finite (commits_from d v)"
proof -
  have "commit_name ` commits_from d v \<subseteq> fst ` set d" by (auto simp: commits_from_def)
  then have "finite (commit_name ` commits_from d v)" by (rule finite_subset) simp
  then show ?thesis by (rule finite_imageD) (simp add: inj_on_def)
qed

lemma commits_from_less:
  assumes "commit_name v \<in> fst ` set d"
  shows "card (commits_from d (Suc v)) < card (commits_from d v)"
proof (rule psubset_card_mono)
  have "v \<in> commits_from d v" "v \<notin> commits_from d (Suc v)" using assms by (auto simp: commits_from_def)
  moreover have "commits_from d (Suc v) \<subseteq> commits_from d v" by (auto simp: commits_from_def)
  ultimately show "commits_from d (Suc v) \<subset> commits_from d v" by blast
qed simp

text \<open>The walk forward: one probe for each version, until one is absent.\<close>

function to_read :: "disk \<Rightarrow> log_version \<Rightarrow> commit_error + log_version list" where
  "to_read d v =
     (case try_exists d (commit_name v) of
        Inl e \<Rightarrow> Inl e
      | Inr present \<Rightarrow>
          if \<not> present then Inr []
          else (case to_read d (Suc v) of Inl e \<Rightarrow> Inl e | Inr vs \<Rightarrow> Inr (v # vs)))"
  by auto
termination
  by (relation "measure (\<lambda>(d, v). card (commits_from d v))")
    (auto simp: try_exists_def split: option.splits if_splits intro!: commits_from_less dest: map_of_SomeD intro: rev_image_eqI)

declare to_read.simps [simp del]

fun read_versions :: "delta_codec \<Rightarrow> disk \<Rightarrow> log_version list \<Rightarrow> commit_error + (log_version \<times> delta_action) list" where
  "read_versions cx d [] = Inr []"
| "read_versions cx d (v # vs) =
     (case read_to_string d (commit_name v) of
        Inl e \<Rightarrow> Inl e
      | Inr body \<Rightarrow>
          (case read_commit cx v body of
             Inl e \<Rightarrow> Inl e
           | Inr as \<Rightarrow>
               (case read_versions cx d vs of Inl e \<Rightarrow> Inl e | Inr rest \<Rightarrow> Inr (map (Pair v) as @ rest))))"

definition read_actions_after ::
    "delta_codec \<Rightarrow> disk \<Rightarrow> log_version option \<Rightarrow> commit_error + (log_version \<times> delta_action) list" where
  "read_actions_after cx d after =
     (case to_read d (case after of None \<Rightarrow> 0 | Some v \<Rightarrow> Suc v) of
        Inl e \<Rightarrow> Inl e
      | Inr vs \<Rightarrow> read_versions cx d vs)"

definition read_actions :: "delta_codec \<Rightarrow> disk \<Rightarrow> commit_error + (log_version \<times> delta_action) list" where
  "read_actions cx d = read_actions_after cx d None"

text \<open>The same walk, over whether a file is there.\<close>

function probe_from :: "disk \<Rightarrow> log_version \<Rightarrow> log_version" where
  "probe_from d v = (if exists d (commit_name (Suc v)) then probe_from d (Suc v) else v)"
  by auto
termination
  by (relation "measure (\<lambda>(d, v). card (commits_from d (Suc v)))")
    (auto simp: exists_def split: option.splits intro!: commits_from_less dest: map_of_SomeD intro: rev_image_eqI)

declare probe_from.simps [simp del]

definition newest_after :: "disk \<Rightarrow> log_version option \<Rightarrow> log_version option" where
  "newest_after d after =
     (let probe = (case after of None \<Rightarrow> 0 | Some v \<Rightarrow> Suc v) in
      if \<not> exists d (commit_name probe) then
        (case after of None \<Rightarrow> None | Some v \<Rightarrow> if exists d (commit_name v) then Some v else None)
      else Some (probe_from d probe))"

definition previous_version :: "disk \<Rightarrow> log_version option" where
  "previous_version d = newest_after d None"

text \<open>The listing, whatever order the directory gives.\<close>

definition commits :: "disk \<Rightarrow> (log_version \<times> string) list" where
  "commits d =
     sort_key fst (List.map_filter (\<lambda>(n, _).
       Option.bind (strip_suffix ''.json'' n) (\<lambda>stem. map_option (\<lambda>v. (unat v, n)) (parse_u64 stem))) d)"

subsection \<open>Committing\<close>

fun encode_lines :: "delta_codec \<Rightarrow> delta_action list \<Rightarrow> string list option" where
  "encode_lines cx [] = Some []"
| "encode_lines cx (a # as) =
     (case action_line cx a of
        None \<Rightarrow> None
      | Some l \<Rightarrow> (case encode_lines cx as of None \<Rightarrow> None | Some ls \<Rightarrow> Some (l # ls)))"

definition commit_body :: "delta_codec \<Rightarrow> delta_action list \<Rightarrow> string option" where
  "commit_body cx as =
     map_option (\<lambda>ls. concat (map (\<lambda>l. l @ [newline]) (seal_line cx (length as) # ls))) (encode_lines cx as)"

text \<open>What \<open>commit\<close> does before it claims the version: the body it will publish, or a refusal.\<close>

definition commit_checks :: "delta_codec \<Rightarrow> log_version \<Rightarrow> delta_action list \<Rightarrow> disk \<Rightarrow> commit_error + string" where
  "commit_checks cx v as d =
     (if exists d (commit_name v) then Inl (VersionTaken v)
      else if v > 0 \<and> \<not> exists d (commit_name (v - 1)) then
        Inl (NonContiguous v (case previous_version d of None \<Rightarrow> 0 | Some p \<Rightarrow> p + 1))
      else if as = [] then Inl (Io NoActions)
      else (case commit_body cx as of None \<Rightarrow> Inl (Io CannotEncode) | Some body \<Rightarrow> Inr body))"

text \<open>\<open>sankhya_atomicfs::claim\<close>: the whole file, or nothing where the name is taken.\<close>

definition claim :: "string \<Rightarrow> string \<Rightarrow> disk \<Rightarrow> disk option" where
  "claim n body d = (case map_of d n of None \<Rightarrow> Some (AList.update n (Text body) d) | Some _ \<Rightarrow> None)"

definition commit :: "delta_codec \<Rightarrow> log_version \<Rightarrow> delta_action list \<Rightarrow> disk \<Rightarrow> (commit_error + log_version) \<times> disk" where
  "commit cx v as d =
     (case commit_checks cx v as d of
        Inl e \<Rightarrow> (Inl e, d)
      | Inr body \<Rightarrow>
          (case claim (commit_name v) body d of
             None \<Rightarrow> (Inl (VersionTaken v), d)
           | Some d' \<Rightarrow> (Inr v, d')))"

subsection \<open>What is built on reading\<close>

definition live_files_at :: "delta_codec \<Rightarrow> disk \<Rightarrow> log_version \<Rightarrow> commit_error + live_set" where
  "live_files_at cx d v =
     (case read_actions cx d of
        Inl e \<Rightarrow> Inl e
      | Inr l \<Rightarrow> Inr (live_of (apply_all (takeWhile (\<lambda>(at, _). at \<le> v) l) replay_default)))"

fun metadata_of :: "delta_action \<Rightarrow> metadata option" where
  "metadata_of (Metadata m) = Some m"
| "metadata_of _ = None"

definition latest_metadata :: "delta_codec \<Rightarrow> disk \<Rightarrow> commit_error + metadata option" where
  "latest_metadata cx d =
     (case read_actions_after cx d None of
        Inl e \<Rightarrow> Inl e
      | Inr l \<Rightarrow> Inr (fold (\<lambda>(_, a) found. case metadata_of a of None \<Rightarrow> found | Some m \<Rightarrow> Some m) l None))"

definition replay_advance :: "delta_codec \<Rightarrow> disk \<Rightarrow> replay \<Rightarrow> (commit_error + nat) \<times> replay" where
  "replay_advance cx d r =
     (case read_actions_after cx d (rp_version r) of
        Inl e \<Rightarrow> (Inl e, r)
      | Inr l \<Rightarrow> (Inr (length l), apply_all l r))"

definition advance :: "delta_codec \<Rightarrow> disk \<Rightarrow> live_set \<Rightarrow> commit_error + live_set" where
  "advance cx d base =
     (case replay_advance cx d (replay_from base) of
        (Inl e, _) \<Rightarrow> Inl e
      | (Inr _, r) \<Rightarrow> Inr (live_of r))"

subsection \<open>What is relied on of the codec\<close>

text \<open>
  An action or a seal is written as one JSON object on one line, and read back; no beginning of an object is a
  JSON text.
\<close>

definition json_text :: "delta_codec \<Rightarrow> string \<Rightarrow> bool" where
  "json_text cx l \<longleftrightarrow>
     l \<noteq> [] \<and> hd l = CHR ''{'' \<and> newline \<notin> set l \<and> carriage_return \<notin> set l \<and>
     (\<forall>n < length l. json_value cx (take n l) = None)"

definition writes_action :: "delta_codec \<Rightarrow> delta_action \<Rightarrow> bool" where
  "writes_action cx a \<longleftrightarrow>
     (\<exists>l j. action_line cx a = Some l \<and> json_text cx l \<and> json_value cx l = Some j \<and>
        line_kind j \<in> {''protocol'', ''metaData'', ''add'', ''remove''} \<and> json_action cx l = Some a)"

definition writes_seal :: "delta_codec \<Rightarrow> nat \<Rightarrow> bool" where
  "writes_seal cx n \<longleftrightarrow>
     (\<exists>j. json_text cx (seal_line cx n) \<and> json_value cx (seal_line cx n) = Some j \<and> line_kind j = ''commitInfo'' \<and>
        declared_actions j = Some (of_nat n))"

definition writes_commit :: "delta_codec \<Rightarrow> delta_action list \<Rightarrow> bool" where
  "writes_commit cx as \<longleftrightarrow>
     writes_seal cx (length as) \<and> length as < 2 ^ 64 \<and> (\<forall>a \<in> set as. writes_action cx a \<and> unsupported a = None)"

definition line_for :: "delta_codec \<Rightarrow> delta_action \<Rightarrow> string" where
  "line_for cx a = the (action_line cx a)"

definition commit_lines :: "delta_codec \<Rightarrow> delta_action list \<Rightarrow> string list" where
  "commit_lines cx as = seal_line cx (length as) # map (line_for cx) as"

lemma json_text_line: "json_text cx l \<Longrightarrow> unended l \<and> l \<noteq> []"
  by (metis json_text_def last_in_set unended_def)

lemma json_text_part:
  assumes "json_text cx l" "0 < n"
  shows "trim (take n l) \<noteq> [] \<and> newline \<notin> set (take n l) \<and> take n l \<noteq> []"
proof -
  have "graphic CHR ''{''" by (simp add: graphic_def)
  with assms have "take n l \<noteq> []" "graphic (hd (take n l))" by (auto simp: json_text_def)
  with assms show ?thesis using trim_starts_graphic by (auto simp: json_text_def dest: in_set_takeD)
qed

lemma json_text_whole: "json_text cx l \<Longrightarrow> trim l \<noteq> []"
  using json_text_part [of cx l "length l"] by (cases l) (auto simp: json_text_def)

lemma writes_actionD:
  assumes "writes_action cx a"
  obtains j where "action_line cx a = Some (line_for cx a)" "json_text cx (line_for cx a)"
    "json_value cx (line_for cx a) = Some j" "line_kind j \<in> {''protocol'', ''metaData'', ''add'', ''remove''}"
    "json_action cx (line_for cx a) = Some a"
  using assms by (auto simp: writes_action_def line_for_def)

lemma commit_lines_text: "writes_commit cx as \<Longrightarrow> l \<in> set (commit_lines cx as) \<Longrightarrow> json_text cx l"
  by (auto simp: writes_commit_def writes_seal_def commit_lines_def elim!: writes_actionD)

lemma encode_lines_written: "\<forall>a \<in> set as. writes_action cx a \<Longrightarrow> encode_lines cx as = Some (map (line_for cx) as)"
  by (induction as) (auto elim!: writes_actionD)

lemma commit_body_written:
  "writes_commit cx as \<Longrightarrow> commit_body cx as = Some (concat (map (\<lambda>l. l @ [newline]) (commit_lines cx as)))"
  by (simp add: writes_commit_def commit_body_def encode_lines_written commit_lines_def)

lemma read_action_lines:
  "\<forall>a \<in> set as. writes_action cx a \<and> unsupported a = None \<Longrightarrow>
     read_lines cx v (map (line_for cx) as @ ls) n s =
       (case read_lines cx v ls (n + length as) s of Inl e \<Rightarrow> Inl e | Inr (bs, n', s') \<Rightarrow> Inr (as @ bs, n', s'))"
proof (induction as arbitrary: n)
  case Nil
  then show ?case by (auto split: sum.splits)
next
  case (Cons a as)
  then have "writes_action cx a" by simp
  then obtain j where j: "json_value cx (line_for cx a) = Some j" "line_kind j \<in> {''protocol'', ''metaData'', ''add'', ''remove''}"
    "json_action cx (line_for cx a) = Some a"
    by (rule writes_actionD)
  then have "line_kind j \<noteq> ''commitInfo''" by auto
  with Cons j show ?case by (auto split: sum.splits)
qed

lemma read_seal_line:
  assumes "writes_seal cx k" "k < 2 ^ 64"
  shows "read_lines cx v (seal_line cx k # ls) n s = read_lines cx v ls n (Some k)"
proof -
  have "unat (of_nat k :: u64) = k" using assms(2) by (simp add: unat_of_nat take_bit_nat_eq_self)
  with assms show ?thesis by (auto simp: writes_seal_def)
qed

text \<open>The first lines of a written commit, whatever follows them.\<close>

lemma read_first_lines:
  assumes "writes_commit cx as" "k \<le> length as"
  shows "read_lines cx v (take (Suc k) (commit_lines cx as) @ ls) 0 None =
    (case read_lines cx v ls k (Some (length as)) of Inl e \<Rightarrow> Inl e | Inr (bs, n', s') \<Rightarrow> Inr (take k as @ bs, n', s'))"
proof -
  have w: "writes_seal cx (length as)" "length as < 2 ^ 64" "\<forall>a \<in> set (take k as). writes_action cx a \<and> unsupported a = None"
    using assms(1) by (auto simp: writes_commit_def dest: in_set_takeD)
  have "take (Suc k) (commit_lines cx as) = seal_line cx (length as) # map (line_for cx) (take k as)"
    by (simp add: commit_lines_def take_map)
  with read_seal_line [OF w(1,2)] read_action_lines [OF w(3), of v ls 0 "Some (length as)"] assms(2)
  show ?thesis by (simp add: min_absorb2)
qed

subsection \<open>Commits that lost their end\<close>

definition text_of_lines :: "string list \<Rightarrow> string" where
  "text_of_lines ls = concat (map (\<lambda>l. l @ [newline]) ls)"

lemma text_of_lines_simps [simp]:
  "text_of_lines [] = []" "text_of_lines (l # ls) = l @ newline # text_of_lines ls"
  by (simp_all add: text_of_lines_def)

lemma take_text_of_lines:
  "n < length (text_of_lines ls) \<Longrightarrow>
     \<exists>k m. k < length ls \<and> m \<le> length (ls ! k) \<and> take n (text_of_lines ls) = text_of_lines (take k ls) @ take m (ls ! k) \<and>
       (Suc n = length (text_of_lines ls) \<longleftrightarrow> Suc k = length ls \<and> m = length (ls ! k))"
proof (induction ls arbitrary: n)
  case (Cons l ls)
  show ?case
  proof (cases "n \<le> length l")
    case True
    then have "Suc n = length (text_of_lines (l # ls)) \<longleftrightarrow> ls = [] \<and> n = length l"
      by (cases ls) auto
    with True show ?thesis by (intro exI [of _ 0] exI [of _ n]) auto
  next
    case False
    then have "n - Suc (length l) < length (text_of_lines ls)" using Cons.prems by simp
    from Cons.IH [OF this] obtain k m where k: "k < length ls" "m \<le> length (ls ! k)"
      "take (n - Suc (length l)) (text_of_lines ls) = text_of_lines (take k ls) @ take m (ls ! k)"
      "Suc (n - Suc (length l)) = length (text_of_lines ls) \<longleftrightarrow> Suc k = length ls \<and> m = length (ls ! k)"
      by blast
    moreover have "take n (text_of_lines (l # ls)) = l @ newline # take (n - Suc (length l)) (text_of_lines ls)"
      using False by (simp add: take_Cons' Suc_diff_le not_le)
    moreover have "Suc n = length (text_of_lines (l # ls)) \<longleftrightarrow> Suc (n - Suc (length l)) = length (text_of_lines ls)"
      using False by auto
    ultimately show ?thesis by (intro exI [of _ "Suc k"] exI [of _ m]) simp
  qed
qed simp

lemma read_part:
  assumes "writes_commit cx as" "k \<le> Suc (length as)" "k \<le> length as \<longrightarrow> rest = take m (commit_lines cx as ! k)"
    "k = Suc (length as) \<longrightarrow> rest = []"
  shows "read_commit cx v (text_of_lines (take k (commit_lines cx as)) @ rest) =
    (case read_lines cx v (take k (commit_lines cx as) @ (if rest = [] then [] else [rest])) 0 None of
       Inl e \<Rightarrow> Inl e
     | Inr (as, n, s) \<Rightarrow>
         if n = 0 then Inl (Malformed v Empty)
         else (case s of Some k \<Rightarrow> if k \<noteq> n then Inl (Malformed v (Short k n)) else Inr as | None \<Rightarrow> Inr as))"
proof -
  have l: "json_text cx l" if "l \<in> set (take k (commit_lines cx as))" for l
    using commit_lines_text [OF assms(1)] that by (auto dest: in_set_takeD)
  have rest: "newline \<notin> set rest \<and> (rest \<noteq> [] \<longrightarrow> trim rest \<noteq> [])"
  proof (cases "k \<le> length as \<and> 0 < m")
    case True
    then have "json_text cx (commit_lines cx as ! k)"
      by (intro commit_lines_text [OF assms(1)] nth_mem) (simp add: commit_lines_def)
    with json_text_part [OF this] True assms(3) show ?thesis by simp
  next
    case False
    with assms(2-4) have "rest = []" by auto
    then show ?thesis by simp
  qed
  have "lines_of (text_of_lines (take k (commit_lines cx as)) @ rest) =
      take k (commit_lines cx as) @ (if rest = [] then [] else [rest])"
    unfolding text_of_lines_def using rest l json_text_line by (intro lines_of_text) auto
  moreover have "filter (\<lambda>l. trim l \<noteq> []) (take k (commit_lines cx as) @ (if rest = [] then [] else [rest])) =
      take k (commit_lines cx as) @ (if rest = [] then [] else [rest])"
    using rest l json_text_whole by (intro filter_True) auto
  ultimately show ?thesis by (simp add: read_commit_def)
qed

lemma read_whole_lines:
  assumes "writes_commit cx as" "k \<le> length as" "as \<noteq> []"
  shows "read_commit cx v (text_of_lines (take (Suc k) (commit_lines cx as))) =
    (if k = length as then Inr as else if k = 0 then Inl (Malformed v Empty) else Inl (Malformed v (Short (length as) k)))"
  using read_part [OF assms(1), of "Suc k" "[]" 0 v] read_first_lines [OF assms(1,2), of v "[]"] assms(2,3)
  by simp

lemma read_commit_body:
  assumes "writes_commit cx as" "as \<noteq> []" "commit_body cx as = Some body"
  shows "read_commit cx v body = Inr as"
  using read_whole_lines [OF assms(1) order_refl assms(2), of v] assms(1,3)
  by (simp add: commit_body_written text_of_lines_def commit_lines_def)

text \<open>
  C27: A commit cut short anywhere, by a crash between its write and its sync, is refused as malformed when
  it is read; only the loss of the last line end is harmless, and then the commit reads as it was written.
\<close>

theorem torn_commit_is_refused:
  assumes "writes_commit cx as" "as \<noteq> []" "commit_body cx as = Some body"
  shows "if length body \<le> Suc n then read_commit cx v (take n body) = Inr as
    else \<exists>d. read_commit cx v (take n body) = Inl (Malformed v d)"
proof (cases "length body \<le> n")
  case True
  then show ?thesis using read_commit_body [OF assms] by simp
next
  case False
  let ?ls = "commit_lines cx as"
  have b: "body = text_of_lines ?ls" using assms by (simp add: commit_body_written text_of_lines_def)
  have len: "length ?ls = Suc (length as)" by (simp add: commit_lines_def)
  have "n < length (text_of_lines ?ls)" using False b by simp
  from take_text_of_lines [OF this] obtain k m where k: "k < length ?ls" "m \<le> length (?ls ! k)"
    "take n body = text_of_lines (take k ?ls) @ take m (?ls ! k)"
    and last: "Suc n = length body \<longleftrightarrow> Suc k = length ?ls \<and> m = length (?ls ! k)"
    unfolding b by blast
  have obj: "json_text cx (?ls ! k)" using commit_lines_text [OF assms(1)] k(1) by simp
  note part = read_part [OF assms(1), of k "take m (?ls ! k)" m v]
  consider (whole) "m = length (?ls ! k)" | (none) "m = 0" | (cut) "0 < m" "m < length (?ls ! k)"
    using k(2) by fastforce
  then show ?thesis
  proof cases
    case whole
    moreover have "?ls ! k \<noteq> []" using obj by (simp add: json_text_def)
    ultimately have "read_commit cx v (take n body) = read_commit cx v (text_of_lines (take (Suc k) ?ls))"
      using part read_part [OF assms(1), of "Suc k" "[]" 0 v] k len by (simp add: take_Suc_conv_app_nth)
    with read_whole_lines [OF assms(1) _ assms(2), of k v] whole last k(1) len False show ?thesis by auto
  next
    case none
    have "read_commit cx v [] = Inl (Malformed v Empty)" by (simp add: read_commit_def lines_of_def)
    moreover have "Suc n \<noteq> length body" using none last obj by (auto simp: json_text_def)
    ultimately show ?thesis
      using none k len read_whole_lines [OF assms(1) _ assms(2), of "k - 1" v] False by (cases k) auto
  next
    case cut
    then have "json_value cx (take m (?ls ! k)) = None" "take m (?ls ! k) \<noteq> []" using obj by (auto simp: json_text_def)
    moreover have "Suc n \<noteq> length body" using cut last by auto
    moreover have "read_lines cx v (take k ?ls @ [take m (?ls ! k)]) 0 None = Inl (Malformed v NotJson)"
      using read_first_lines [OF assms(1), of "k - 1" v "[take m (?ls ! k)]"] calculation(1) k(1) len by (cases k) auto
    ultimately show ?thesis using part k(1,3) len False by auto
  qed
qed

subsection \<open>Concurrent committers\<close>

text \<open>
  Committers check and claim in any interleaving. Between the two their commit is pending; a claim wins, or is
  lost, to another committer or to a failure. Files that are no commits come and go. \<open>m\<close> is what each version was
  acknowledged to hold.
\<close>

type_synonym log_state =
  "disk \<times> (log_version \<times> delta_action list \<times> string) list \<times> (log_version \<rightharpoonup> delta_action list)"

inductive log_step :: "delta_codec \<Rightarrow> log_state \<Rightarrow> log_state \<Rightarrow> bool" for cx where
  checked: "commit_checks cx v as d = Inr body \<Longrightarrow> log_step cx (d, P, m) (d, (v, as, body) # P, m)"
| won: "(v, as, body) \<in> set P \<Longrightarrow> claim (commit_name v) body d = Some d' \<Longrightarrow>
    log_step cx (d, P, m) (d', remove1 (v, as, body) P, m(v \<mapsto> as))"
| lost: "log_step cx (d, P, m) (d, remove1 c P, m)"
| other_file: "\<forall>v. n \<noteq> commit_name v \<Longrightarrow> log_step cx (d, P, m) (AList.update n e d, P, m)"

definition log_holds :: "delta_codec \<Rightarrow> nat \<Rightarrow> log_state \<Rightarrow> bool" where
  "log_holds cx n = (\<lambda>(d, P, m).
     dom m = {..<n} \<and>
     (\<forall>v as. m v = Some as \<longrightarrow> as \<noteq> [] \<and> (\<exists>body. commit_body cx as = Some body \<and> map_of d (commit_name v) = Some (Text body))) \<and>
     (\<forall>v \<ge> n. map_of d (commit_name v) = None) \<and>
     (\<forall>(v, as, body) \<in> set P. v \<le> n \<and> as \<noteq> [] \<and> commit_body cx as = Some body))"

lemma log_holds_file:
  assumes "log_holds cx n (d, P, m)"
  shows "map_of d (commit_name v) \<noteq> None \<longleftrightarrow> v < n" "exists d (commit_name v) \<longleftrightarrow> v < n"
    "try_exists d (commit_name v) = Inr (v < n)"
proof -
  have "\<exists>b. map_of d (commit_name v) = Some (Text b)" if "v < n"
  proof -
    have "v \<in> dom m" using assms that by (simp add: log_holds_def)
    with assms show ?thesis by (fastforce simp: log_holds_def)
  qed
  moreover have "map_of d (commit_name v) = None" if "\<not> v < n" using assms that by (simp add: log_holds_def)
  ultimately show "map_of d (commit_name v) \<noteq> None \<longleftrightarrow> v < n" "exists d (commit_name v) \<longleftrightarrow> v < n"
    "try_exists d (commit_name v) = Inr (v < n)"
    by (cases "v < n"; force simp: exists_def try_exists_def)+
qed

lemma map_of_update [simp]: "map_of (AList.update k v xs) = (map_of xs)(k \<mapsto> v)"
  by (rule update_conv')

lemma commit_checks_Inr:
  "commit_checks cx v as d = Inr body \<Longrightarrow>
     \<not> exists d (commit_name v) \<and> (v = 0 \<or> exists d (commit_name (v - 1))) \<and> as \<noteq> [] \<and> commit_body cx as = Some body"
  by (auto simp: commit_checks_def split: if_splits option.splits)

lemma log_step_holds:
  assumes "log_step cx s t" "log_holds cx n s"
  shows "\<exists>n'. log_holds cx n' t"
  using assms
proof (induction rule: log_step.induct)
  case (checked v as d body P m)
  have "v \<le> n"
    using commit_checks_Inr [OF checked(1)] log_holds_file(2) [OF checked(2), of "v - 1"] by auto
  with checked commit_checks_Inr [OF checked(1)] show ?case
    by (intro exI [of _ n]) (auto simp: log_holds_def)
next
  case (won v as body P d d' m)
  have free: "map_of d (commit_name v) = None" and d': "d' = AList.update (commit_name v) (Text body) d"
    using won(2) by (auto simp: claim_def split: option.splits)
  have v: "v = n" "as \<noteq> []" "commit_body cx as = Some body"
    using won(1,3) free log_holds_file(1) [OF won(3), of v] by (auto simp: log_holds_def)
  have "set (remove1 (v, as, body) P) \<subseteq> set P" by (rule set_remove1_subset)
  with won(3) v show ?case unfolding d'
    by (intro exI [of _ "Suc n"]) (fastforce simp: log_holds_def lessThan_Suc le_Suc_eq)
next
  case (lost d P m c)
  have "set (remove1 c P) \<subseteq> set P" by (rule set_remove1_subset)
  with lost show ?case by (intro exI [of _ n]) (fastforce simp: log_holds_def)
next
  case (other_file k d P m e)
  then show ?case by (intro exI [of _ n]) (auto simp: log_holds_def)
qed

lemma log_holds_reachable: "(log_step cx)\<^sup>*\<^sup>* ([], [], Map.empty) s \<Longrightarrow> \<exists>n. log_holds cx n s"
proof (induction rule: rtranclp_induct)
  case base
  show ?case by (rule exI [of _ 0]) (simp add: log_holds_def)
next
  case (step y z)
  then show ?case using log_step_holds by blast
qed

lemma to_read_holds:
  assumes "log_holds cx n (d, P, m)"
  shows "v \<le> n \<Longrightarrow> to_read d v = Inr [v..<n]"
proof (induction "n - v" arbitrary: v)
  case 0
  then show ?case by (subst to_read.simps) (simp add: log_holds_file(3) [OF assms])
next
  case (Suc k)
  then have "to_read d (Suc v) = Inr [Suc v..<n]" by simp
  with Suc show ?case
    by (subst to_read.simps) (simp add: log_holds_file(3) [OF assms] upt_conv_Cons)
qed

lemma probe_from_holds:
  assumes "log_holds cx n (d, P, m)"
  shows "v < n \<Longrightarrow> probe_from d v = n - 1"
proof (induction "n - v" arbitrary: v)
  case (Suc k)
  show ?case
  proof (cases "Suc v < n")
    case True
    with Suc have "probe_from d (Suc v) = n - 1" by simp
    with True show ?thesis by (subst probe_from.simps) (simp add: log_holds_file(2) [OF assms])
  next
    case False
    with Suc show ?thesis by (subst probe_from.simps) (simp add: log_holds_file(2) [OF assms])
  qed
qed simp

lemma newest_holds:
  assumes "log_holds cx n (d, P, m)"
  shows "newest_after d None = (if n = 0 then None else Some (n - 1))"
  using probe_from_holds [OF assms, of 0] by (simp add: newest_after_def log_holds_file(2) [OF assms])

definition log_actions :: "(log_version \<rightharpoonup> delta_action list) \<Rightarrow> log_version list \<Rightarrow> (log_version \<times> delta_action) list" where
  "log_actions m vs = concat (map (\<lambda>v. map (Pair v) (the (m v))) vs)"

lemma log_holds_commit:
  assumes "log_holds cx n (d, P, m)" "m v = Some as"
  shows "as \<noteq> [] \<and> (\<exists>body. commit_body cx as = Some body \<and> map_of d (commit_name v) = Some (Text body))"
  using assms unfolding log_holds_def by blast

lemma read_versions_holds:
  assumes "log_holds cx n (d, P, m)" "\<forall>as \<in> ran m. writes_commit cx as"
  shows "set vs \<subseteq> {..<n} \<Longrightarrow> read_versions cx d vs = Inr (log_actions m vs)"
proof (induction vs)
  case (Cons v vs)
  then have "v \<in> dom m" using assms(1) by (simp add: log_holds_def)
  then obtain as where as: "m v = Some as" by blast
  then obtain body where body: "as \<noteq> []" "commit_body cx as = Some body" "map_of d (commit_name v) = Some (Text body)"
    using log_holds_commit [OF assms(1) as] by blast
  moreover have "writes_commit cx as" using assms(2) as by (auto simp: ran_def)
  ultimately have "read_commit cx v body = Inr as" by (intro read_commit_body)
  with Cons as body show ?case by (simp add: read_to_string_def log_actions_def)
qed (simp add: log_actions_def)

lemma read_after_holds:
  assumes "log_holds cx n (d, P, m)" "\<forall>as \<in> ran m. writes_commit cx as"
  shows "read_actions cx d = Inr (log_actions m [0..<n])"
    "v < n \<Longrightarrow> read_actions_after cx d (Some v) = Inr (log_actions m [Suc v..<n])"
  using read_versions_holds [OF assms, of "[0..<n]"] read_versions_holds [OF assms, of "[Suc v..<n]"] to_read_holds [OF assms(1)]
  by (simp_all add: read_actions_def read_actions_after_def subset_eq)

text \<open>What a commit at each version answers on a log of \<open>n\<close> commits.\<close>

definition commit_answer :: "delta_codec \<Rightarrow> nat \<Rightarrow> log_version \<Rightarrow> delta_action list \<Rightarrow> commit_error + log_version" where
  "commit_answer cx n v as =
     (if v < n then Inl (VersionTaken v)
      else if n < v then Inl (NonContiguous v n)
      else if as = [] then Inl (Io NoActions)
      else if commit_body cx as = None then Inl (Io CannotEncode)
      else Inr v)"

lemma commit_holds:
  assumes "log_holds cx n (d, P, m)"
  shows "fst (commit cx v as d) = commit_answer cx n v as"
proof -
  have "map_of d (commit_name n) = None" using log_holds_file(1) [OF assms, of n] by simp
  moreover have "previous_version d = (if n = 0 then None else Some (n - 1))"
    using newest_holds [OF assms] by (simp add: previous_version_def)
  ultimately show ?thesis
    by (auto simp: commit_def commit_checks_def commit_answer_def claim_def log_holds_file(2) [OF assms] split: option.splits)
qed

lemma commits_never_replaced:
  assumes "log_step cx (d, P, m) (d', P', m')" "log_holds cx n (d, P, m)"
  shows "m \<subseteq>\<^sub>m m'"
  using assms(1)
proof cases
  case (won v as body)
  then have "map_of d (commit_name v) = None" by (auto simp: claim_def split: option.splits)
  then have "v \<notin> dom m" using log_holds_file(1) [OF assms(2), of v] assms(2) by (auto simp: log_holds_def)
  then show ?thesis unfolding won map_le_def by auto
qed auto

text \<open>A codec that writes one action, for the instances below.\<close>

definition sample_action :: delta_action where
  "sample_action = Remove (removal_deleted ''a'' 0)"

definition sample_codec :: delta_codec where
  "sample_codec =
     \<lparr>action_line = (\<lambda>_. Some ''{a}''), seal_line = (\<lambda>_. ''{1}''),
      json_value = (\<lambda>l. if l = ''{a}'' then Some (JObject [(''remove'', JNull)])
        else if l = ''{1}'' then
          Some (JObject [(''commitInfo'', JObject [(''operation'', JString ''SANKHYA''), (''sankhya'', JObject [(''actions'', JUInt 1)])])])
        else None),
      json_action = (\<lambda>_. Some sample_action)\<rparr>"

lemma sample_writes: "writes_commit sample_codec [sample_action]"
proof -
  have t: "\<forall>n < length ''{a}''. take n ''{a}'' \<noteq> ''{a}'' \<and> take n ''{a}'' \<noteq> ''{1}''"
    "\<forall>n < length ''{1}''. take n ''{1}'' \<noteq> ''{a}'' \<and> take n ''{1}'' \<noteq> ''{1}''"
    by (auto simp: less_Suc_eq numeral_3_eq_3)
  have "json_text sample_codec ''{a}''" "json_text sample_codec ''{1}''"
    using t by (simp_all add: json_text_def sample_codec_def newline_def carriage_return_def)
  moreover have "\<exists>j. json_value sample_codec ''{1}'' = Some j \<and> line_kind j = ''commitInfo'' \<and> declared_actions j = Some (of_nat 1)"
    by (simp add: sample_codec_def declared_actions_def)
  moreover have "\<exists>j. json_value sample_codec ''{a}'' = Some j \<and> line_kind j \<in> {''protocol'', ''metaData'', ''add'', ''remove''}"
    by (simp add: sample_codec_def)
  ultimately show ?thesis
    by (simp add: writes_commit_def writes_seal_def writes_action_def sample_action_def) (simp add: sample_codec_def sample_action_def)
qed

lemma sample_body: "commit_body sample_codec [sample_action] = Some (''{1}'' @ [newline] @ ''{a}'' @ [newline])"
  by (simp add: commit_body_def sample_codec_def)

theorem torn_commit_is_refused_witness:
  "\<exists>d. read_commit sample_codec 3 (take 5 (''{1}'' @ [newline] @ ''{a}'' @ [newline])) = Inl (Malformed 3 d)"
  using torn_commit_is_refused [OF sample_writes _ sample_body, of 5 3] by simp



end
