(* ===== verification/Delta_Checkpoint.thy ===== *)
theory Delta_Checkpoint
  imports Delta_Log
begin

text \<open>
  Checkpoints and the cache of replays: \<^verbatim>\<open>crates/sankhya-table-delta/src/checkpoint.rs\<close>,
  \<^verbatim>\<open>cache.rs\<close>, \<open>live_files\<close> of \<^verbatim>\<open>log.rs\<close> and \<open>checkpoint_if_due\<close> of
  \<^verbatim>\<open>crates/sankhya-maintenance/src/driver.rs\<close>. The bytes of a Parquet file are left out: a
  checkpoint is the rows it holds, renamed into place whole.
\<close>

subsection \<open>Writing a checkpoint\<close>

definition checkpoint_name :: "log_version \<Rightarrow> string" where
  "checkpoint_name v = pad_nat 20 v @ ''.checkpoint.parquet''"

definition LAST_CHECKPOINT :: string where
  "LAST_CHECKPOINT = ''_last_checkpoint''"

text \<open>\<open>i32::try_from(version).unwrap_or(default)\<close>.\<close>

definition i32_or :: "int \<Rightarrow> u32 \<Rightarrow> int" where
  "i32_or otherwise w = (if unat w < 2 ^ 31 then int (unat w) else otherwise)"

definition add_row_of :: "add_file \<Rightarrow> add_row" where
  "add_row_of f =
     \<lparr>aw_path = af_path f, aw_size = min (int (unat (af_size f))) I64_MAX, aw_time = modification_time f,
      aw_data_change = data_change f, aw_stats = af_stats f\<rparr>"

definition checkpoint_batch_of :: "u32 \<Rightarrow> metadata \<Rightarrow> add_file list \<Rightarrow> checkpoint_batch" where
  "checkpoint_batch_of reader md files =
     (let n = length files in
      \<lparr>cb_protocol = Some (Some (i32_or 1 reader) # replicate (Suc n) None),
       cb_metadata = None # Some (md\<lparr>md_format := (md_format md)\<lparr>format_options := []\<rparr>, partition_columns := [], configuration := []\<rparr>)
         # replicate n None,
       cb_add = Some (None # None # map (\<lambda>f. Some (add_row_of f)) files),
       cb_add_columns = [''path'', ''partitionValues'', ''size'', ''modificationTime'', ''dataChange'', ''stats'']\<rparr>)"

record checkpoint_report =
  cr_version :: log_version
  cr_actions :: nat

text \<open>
  The file first and the pointer after it; \<open>pointer\<close> is the pointer's text.
\<close>

definition write_checkpoint ::
    "(log_version \<Rightarrow> nat \<Rightarrow> nat \<Rightarrow> string) \<Rightarrow> live_set \<Rightarrow> metadata \<Rightarrow> u32 \<Rightarrow> disk \<Rightarrow> (commit_error + checkpoint_report) \<times> disk" where
  "write_checkpoint pointer live md reader d =
     (case ls_version live of
        None \<Rightarrow> (Inl (Io NothingToCheckpoint), d)
      | Some v \<Rightarrow>
          (let n = length (ls_files live);
               d = AList.update (checkpoint_name v) (Parquet [checkpoint_batch_of reader md (ls_files live)]) d;
               d = AList.update LAST_CHECKPOINT (Text (pointer v (2 + n) n)) d
           in (Inr \<lparr>cr_version = v, cr_actions = 2 + n\<rparr>, d)))"

subsection \<open>Reading a checkpoint\<close>

definition latest_checkpoint :: "delta_codec \<Rightarrow> disk \<Rightarrow> log_version option" where
  "latest_checkpoint cx d =
     (case read_to_string d LAST_CHECKPOINT of
        Inl _ \<Rightarrow> None
      | Inr s \<Rightarrow>
          (case Option.bind (Option.bind (json_value cx s) (json_get ''version'')) json_u64 of
             None \<Rightarrow> None
           | Some w \<Rightarrow>
               (let v = unat w in
                if \<not> exists d (checkpoint_name v) then None
                else if \<not> exists d (commit_name v) then None
                else Some v)))"

definition required_version :: "int \<Rightarrow> u32" where
  "required_version x = (if 0 \<le> x then of_int x else - 1)"

fun check_protocol :: "log_version \<Rightarrow> int option list \<Rightarrow> commit_error + unit" where
  "check_protocol v [] = Inr ()"
| "check_protocol v (None # rs) = check_protocol v rs"
| "check_protocol v (Some x # rs) =
     (if required_version x > SUPPORTED_READER_VERSION then
        Inl (Unsupported v (required_version x) SUPPORTED_READER_VERSION)
      else check_protocol v rs)"

definition file_of_row :: "string list \<Rightarrow> add_row \<Rightarrow> add_file" where
  "file_of_row columns r =
     (add_file_new (aw_path r) (if 0 \<le> aw_size r then of_int (aw_size r) else 0) (aw_time r))
       \<lparr>af_stats := (if ''stats'' \<in> set columns then aw_stats r else None)\<rparr>"

definition missing_column :: "checkpoint_batch \<Rightarrow> string option" where
  "missing_column b = List.find (\<lambda>c. c \<notin> set (cb_add_columns b)) [''path'', ''size'', ''modificationTime'']"

fun read_batches :: "log_version \<Rightarrow> checkpoint_batch list \<Rightarrow> commit_error + add_file list" where
  "read_batches v [] = Inr []"
| "read_batches v (b # bs) =
     (case cb_add b of
        None \<Rightarrow> read_batches v bs
      | Some adds \<Rightarrow>
          (case (case cb_protocol b of None \<Rightarrow> Inr () | Some rows \<Rightarrow> check_protocol v rows) of
             Inl e \<Rightarrow> Inl e
           | Inr _ \<Rightarrow>
               (case missing_column b of
                  Some c \<Rightarrow> Inl (Io (NoColumn c))
                | None \<Rightarrow>
                    (case read_batches v bs of
                       Inl e \<Rightarrow> Inl e
                     | Inr rest \<Rightarrow>
                         Inr (map (file_of_row (cb_add_columns b)) (List.map_filter id adds) @ rest)))))"

definition read_checkpoint :: "disk \<Rightarrow> log_version \<Rightarrow> commit_error + add_file list" where
  "read_checkpoint d v =
     (case map_of d (checkpoint_name v) of
        Some (Parquet bs) \<Rightarrow> read_batches v bs
      | _ \<Rightarrow> Inl (Io (CannotRead (checkpoint_name v))))"

text \<open>Where the table's live files are read from: a checkpoint that can be read, or the start of the log.\<close>

fun is_unsupported :: "commit_error \<Rightarrow> bool" where
  "is_unsupported (Unsupported _ _ _) \<longleftrightarrow> True"
| "is_unsupported _ \<longleftrightarrow> False"

definition checkpoint_base :: "delta_codec \<Rightarrow> disk \<Rightarrow> commit_error + live_set" where
  "checkpoint_base cx d =
     (case latest_checkpoint cx d of
        None \<Rightarrow> Inr live_set_default
      | Some v \<Rightarrow>
          (case read_checkpoint d v of
             Inr files \<Rightarrow> Inr \<lparr>ls_files = files, ls_version = Some v\<rparr>
           | Inl e \<Rightarrow> if is_unsupported e then Inl e else Inr live_set_default))"

definition live_files :: "delta_codec \<Rightarrow> disk \<Rightarrow> commit_error + live_set" where
  "live_files cx d = (case checkpoint_base cx d of Inl e \<Rightarrow> Inl e | Inr base \<Rightarrow> advance cx d base)"

definition checkpoint_if_due ::
    "delta_codec \<Rightarrow> (log_version \<Rightarrow> nat \<Rightarrow> nat \<Rightarrow> string) \<Rightarrow> metadata \<Rightarrow> nat \<Rightarrow> disk \<Rightarrow>
     (commit_error + checkpoint_report option) \<times> disk" where
  "checkpoint_if_due cx pointer md interval d =
     (case live_files cx d of
        Inl e \<Rightarrow> (Inl e, d)
      | Inr live \<Rightarrow>
          (case ls_version live of
             None \<Rightarrow> (Inr None, d)
           | Some v \<Rightarrow>
               if v - (case latest_checkpoint cx d of None \<Rightarrow> 0 | Some c \<Rightarrow> c) < interval then (Inr None, d)
               else (case write_checkpoint pointer live md 1 d of
                       (Inl e, d') \<Rightarrow> (Inl e, d')
                     | (Inr r, d') \<Rightarrow> (Inr (Some r), d'))))"

subsection \<open>The cache of replays\<close>

datatype outcome = Current | Advanced nat | Cold

text \<open>One table's entry; the shards of the cache only say which entries share a lock.\<close>

type_synonym log_cache = "string \<rightharpoonup> replay"

definition cached_replay :: "delta_codec \<Rightarrow> disk \<Rightarrow> replay \<Rightarrow> (commit_error + live_set \<times> outcome) \<times> replay" where
  "cached_replay cx d r0 =
     (let cached = rp_version r0;
          newest = newest_after d cached;
          rebuilt = (case (cached, newest) of
                       (Some c, Some n) \<Rightarrow> c > n
                     | (Some _, None) \<Rightarrow> True
                     | _ \<Rightarrow> False);
          r = (if rebuilt then replay_default else r0);
          outcome = (case cached of
                       None \<Rightarrow> Cold
                     | Some c \<Rightarrow>
                         if rebuilt then Cold
                         else if Some c = newest then Current
                         else Advanced ((case newest of None \<Rightarrow> 0 | Some n \<Rightarrow> n) - c))
      in if outcome = Current then (Inr (live_of r, outcome), r)
         else (case replay_advance cx d r of
                 (Inl e, r') \<Rightarrow> (Inl e, r')
               | (Inr _, r') \<Rightarrow> (Inr (live_of r', outcome), r')))"

definition cache_live_files ::
    "delta_codec \<Rightarrow> string \<Rightarrow> disk \<Rightarrow> log_cache \<Rightarrow> (commit_error + live_set \<times> outcome) \<times> log_cache" where
  "cache_live_files cx root d cache =
     (case cached_replay cx d (case cache root of None \<Rightarrow> replay_default | Some r \<Rightarrow> r) of
        (result, r) \<Rightarrow> (result, cache(root \<mapsto> r)))"

definition cache_clear :: "log_cache \<Rightarrow> log_cache" where
  "cache_clear cache = Map.empty"

definition cache_len :: "log_cache \<Rightarrow> nat" where
  "cache_len cache = card (dom cache)"

subsection \<open>What a checkpoint keeps of a file\<close>

definition stored :: "add_file \<Rightarrow> add_file" where
  "stored f =
     f\<lparr>partition_values := [], data_change := True, af_size := of_nat (min (unat (af_size f)) (2 ^ 63 - 1))\<rparr>"

fun stored_action :: "delta_action \<Rightarrow> delta_action" where
  "stored_action (Add f) = Add (stored f)"
| "stored_action a = a"

lemma stored_path [simp]: "af_path (stored f) = af_path f"
  by (simp add: stored_def)

lemma live_step_stored: "map stored (live_step a fs) = live_step (stored_action a) (map stored fs)"
  by (cases a) (auto simp: filter_map o_def image_iff)

lemma live_files_stored:
  "map stored fs = map stored gs \<Longrightarrow> map stored (live_files_of as fs) = map stored (live_files_of as gs)"
proof (induction as arbitrary: fs gs)
  case (Cons a as)
  have "map stored (live_step a fs) = map stored (live_step a gs)"
    by (simp add: live_step_stored Cons.prems)
  from Cons.IH [OF this] show ?case by (simp add: live_files_of_def)
qed (simp add: live_files_of_def)

lemma file_of_row_of:
  "''stats'' \<in> set columns \<Longrightarrow> file_of_row columns (add_row_of f) = stored f"
proof -
  have "(of_int (min (int (unat (af_size f))) I64_MAX) :: u64) = of_nat (min (unat (af_size f)) (2 ^ 63 - 1))"
  proof -
    have "min (int a) I64_MAX = int (min a (2 ^ 63 - 1))" for a by (simp add: I64_MAX_def min_def)
    then show ?thesis by (simp only: of_int_of_nat_eq)
  qed
  moreover assume "''stats'' \<in> set columns"
  ultimately show ?thesis
    by (simp add: file_of_row_def add_row_of_def add_file_new_def stored_def I64_MAX_def)
qed

lemma check_protocol_null: "check_protocol v (replicate n None) = Inr ()"
  by (induction n) auto

lemma read_written_batch:
  "read_batches v [checkpoint_batch_of 1 md files] = Inr (map stored files)"
proof -
  have "map (file_of_row (cb_add_columns (checkpoint_batch_of 1 md files))) (map add_row_of files) = map stored files"
    by (simp add: checkpoint_batch_of_def Let_def file_of_row_of)
  moreover have "List.map_filter id (None # None # map (\<lambda>f. Some (add_row_of f)) files) = map add_row_of files"
    by (induction files) (simp_all add: map_filter_simps)
  moreover have "missing_column (checkpoint_batch_of 1 md files) = None"
    by (simp add: missing_column_def checkpoint_batch_of_def Let_def)
  moreover have "check_protocol v (Some (i32_or 1 1) # replicate (Suc (length files)) None) = Inr ()"
    unfolding check_protocol.simps check_protocol_null
    by (simp add: i32_or_def required_version_def SUPPORTED_READER_VERSION_def)
  ultimately show ?thesis
    by (simp add: checkpoint_batch_of_def Let_def)
qed

subsection \<open>Names\<close>

lemma names_apart [simp]:
  "commit_name v \<noteq> checkpoint_name w" "checkpoint_name w \<noteq> commit_name v"
  "commit_name v \<noteq> LAST_CHECKPOINT" "LAST_CHECKPOINT \<noteq> commit_name v"
  "checkpoint_name v \<noteq> LAST_CHECKPOINT" "LAST_CHECKPOINT \<noteq> checkpoint_name v"
proof -
  have "last (commit_name v) = CHR ''n''" "last (checkpoint_name w) = CHR ''t''" "last LAST_CHECKPOINT = CHR ''t''"
    "last (butlast (checkpoint_name v)) = CHR ''e''" "last (butlast LAST_CHECKPOINT) = CHR ''n''"
    by (simp_all add: commit_name_def checkpoint_name_def LAST_CHECKPOINT_def butlast_append)
  then show "commit_name v \<noteq> checkpoint_name w" "checkpoint_name w \<noteq> commit_name v"
    "commit_name v \<noteq> LAST_CHECKPOINT" "LAST_CHECKPOINT \<noteq> commit_name v"
    "checkpoint_name v \<noteq> LAST_CHECKPOINT" "LAST_CHECKPOINT \<noteq> checkpoint_name v"
    by auto
qed

lemma checkpoint_name_inj [simp]: "checkpoint_name v = checkpoint_name w \<longleftrightarrow> v = w"
  using pad_nat_inj by (auto simp: checkpoint_name_def)

subsection \<open>Tables whose checkpoints come and go\<close>

text \<open>
  A table's log grows as in \<open>log_step\<close>; maintenance reads the live set and later writes a checkpoint of what it read;
  a checkpoint is lost or unreadable, the pointer names anything; one process holds a cached replay.
\<close>

type_synonym table_state = "log_state \<times> live_set list \<times> replay"

inductive table_step :: "delta_codec \<Rightarrow> table_state \<Rightarrow> table_state \<Rightarrow> bool" for cx where
  logging: "log_step cx (d, P, m) (d', P', m') \<Longrightarrow> \<forall>as \<in> ran m'. writes_commit cx as \<Longrightarrow>
    \<forall>v. map_of d' (checkpoint_name v) = map_of d (checkpoint_name v) \<Longrightarrow>
    table_step cx ((d, P, m), C, r) ((d', P', m'), C, r)"
| reading: "live_files cx d = Inr l \<Longrightarrow> table_step cx ((d, P, m), C, r) ((d, P, m), l # C, r)"
| writing: "l \<in> set C \<Longrightarrow> write_checkpoint pointer l md 1 d = (Inr report, d') \<Longrightarrow>
    table_step cx ((d, P, m), C, r) ((d', P, m), C, r)"
| spoiled: "e \<in> {Hidden, Unreadable} \<Longrightarrow>
    table_step cx ((d, P, m), C, r) ((AList.update (checkpoint_name v) e d, P, m), C, r)"
| removed: "name \<in> insert LAST_CHECKPOINT (range checkpoint_name) \<Longrightarrow>
    table_step cx ((d, P, m), C, r) ((AList.delete name d, P, m), C, r)"
| pointing: "table_step cx ((d, P, m), C, r) ((AList.update LAST_CHECKPOINT e d, P, m), C, r)"
| cached: "cached_replay cx d r = (result, r') \<Longrightarrow> table_step cx ((d, P, m), C, r) ((d, P, m), C, r')"

definition version_at :: "nat \<Rightarrow> log_version option" where
  "version_at k = (if k = 0 then None else Some (k - 1))"

definition files_at :: "(log_version \<rightharpoonup> delta_action list) \<Rightarrow> nat \<Rightarrow> add_file list" where
  "files_at m k = live_files_of (map snd (log_actions m [0..<k])) []"

definition shows_at :: "(log_version \<rightharpoonup> delta_action list) \<Rightarrow> nat \<Rightarrow> live_set \<Rightarrow> bool" where
  "shows_at m k l \<longleftrightarrow> ls_version l = version_at k \<and> map stored (ls_files l) = map stored (files_at m k)"

definition table_holds :: "delta_codec \<Rightarrow> nat \<Rightarrow> table_state \<Rightarrow> bool" where
  "table_holds cx n = (\<lambda>((d, P, m), C, r).
     log_holds cx n (d, P, m) \<and> (\<forall>as \<in> ran m. writes_commit cx as) \<and>
     (\<forall>v bs. map_of d (checkpoint_name v) = Some (Parquet bs) \<longrightarrow>
        v < n \<and> read_batches v bs = Inr (map stored (files_at m (Suc v)))) \<and>
     (\<forall>l \<in> set C. \<exists>k \<le> n. shows_at m k l) \<and>
     indexed r \<and> (\<exists>k \<le> n. live_of r = \<lparr>ls_files = files_at m k, ls_version = version_at k\<rparr>))"

lemma log_actions_append: "log_actions m (us @ vs) = log_actions m us @ log_actions m vs"
  by (simp add: log_actions_def)

lemma files_at_from:
  "k \<le> n \<Longrightarrow> live_files_of (map snd (log_actions m [k..<n])) (files_at m k) = files_at m n"
  unfolding files_at_def by (metis le_add_diff_inverse live_files_of_append log_actions_append map_append upt_add_eq_append zero_le)

lemma files_at_distinct: "distinct (map af_path (files_at m k))"
  unfolding files_at_def by (rule live_files_distinct) simp

lemma log_actions_last:
  assumes "log_holds cx n (d, P, m)" "k < n"
  shows "log_actions m [k..<n] \<noteq> [] \<and> fst (last (log_actions m [k..<n])) = n - 1"
proof -
  have "n - 1 \<in> dom m" using assms by (simp add: log_holds_def)
  then obtain as where "m (n - 1) = Some as" "as \<noteq> []" using log_holds_commit [OF assms(1)] by blast
  moreover have "[k..<n] = [k..<n - 1] @ [n - 1]" using assms(2) by (metis Suc_diff_1 less_Suc_eq_le not_less0 neq0_conv upt_Suc_append)
  ultimately show ?thesis by (simp add: log_actions_append) (simp add: log_actions_def last_map)
qed

lemma read_after_at:
  assumes "log_holds cx n (d, P, m)" "\<forall>as \<in> ran m. writes_commit cx as" "k \<le> n"
  shows "read_actions_after cx d (version_at k) = Inr (log_actions m [k..<n])"
  using read_after_holds [OF assms(1,2)] assms(3) by (cases k) (auto simp: version_at_def read_actions_def)

lemma replay_advance_at:
  assumes "log_holds cx n (d, P, m)" "\<forall>as \<in> ran m. writes_commit cx as" "k \<le> n"
    and "indexed r" "rp_version r = version_at k"
  shows "\<exists>c r'. replay_advance cx d r = (Inr c, r') \<and> indexed r' \<and>
    live_of r' = \<lparr>ls_files = live_files_of (map snd (log_actions m [k..<n])) (ls_files (live_of r)), ls_version = version_at n\<rparr>"
proof -
  have "(if log_actions m [k..<n] = [] then rp_version r else Some (fst (last (log_actions m [k..<n])))) = version_at n"
  proof (cases "k < n")
    case True
    with log_actions_last [OF assms(1)] show ?thesis by (simp add: version_at_def)
  next
    case False
    with assms(3,5) show ?thesis by (simp add: log_actions_def)
  qed
  with apply_all_refines [OF assms(4), of "log_actions m [k..<n]"] read_after_at [OF assms(1-3)] assms(5)
  show ?thesis by (simp add: replay_advance_def)
qed

lemma advance_at:
  assumes "log_holds cx n (d, P, m)" "\<forall>as \<in> ran m. writes_commit cx as" "k \<le> n" "shows_at m k base"
    "distinct (map af_path (ls_files base))"
  shows "\<exists>l. advance cx d base = Inr l \<and> shows_at m n l"
proof -
  note from_indexed [OF assms(5)]
  moreover have "rp_version (replay_from base) = version_at k" using assms(4) by (simp add: shows_at_def replay_from_def)
  ultimately obtain c r' where r: "replay_advance cx d (replay_from base) = (Inr c, r')"
    "live_of r' = \<lparr>ls_files = live_files_of (map snd (log_actions m [k..<n])) (ls_files base), ls_version = version_at n\<rparr>"
    using replay_advance_at [OF assms(1-3), of "replay_from base"] by auto
  have "map stored (live_files_of (map snd (log_actions m [k..<n])) (ls_files base)) = map stored (files_at m n)"
    using live_files_stored [of "ls_files base" "files_at m k"] assms(4) files_at_from [OF assms(3), of m]
    by (metis shows_at_def)
  with r show ?thesis by (simp add: advance_def shows_at_def)
qed

lemma live_files_holds:
  assumes "table_holds cx n ((d, P, m), C, r)"
  shows "\<exists>l. live_files cx d = Inr l \<and> shows_at m n l"
proof -
  have log: "log_holds cx n (d, P, m)" "\<forall>as \<in> ran m. writes_commit cx as"
    and cp: "\<And>v bs. map_of d (checkpoint_name v) = Some (Parquet bs) \<Longrightarrow>
        v < n \<and> read_batches v bs = Inr (map stored (files_at m (Suc v)))"
    using assms by (auto simp: table_holds_def)
  have "\<exists>k base. k \<le> n \<and> checkpoint_base cx d = Inr base \<and> shows_at m k base \<and> distinct (map af_path (ls_files base))"
  proof (cases "\<exists>v bs. latest_checkpoint cx d = Some v \<and> map_of d (checkpoint_name v) = Some (Parquet bs)")
    case True
    then obtain v bs where v: "latest_checkpoint cx d = Some v" "map_of d (checkpoint_name v) = Some (Parquet bs)" by blast
    with cp have "v < n" "read_checkpoint d v = Inr (map stored (files_at m (Suc v)))" by (auto simp: read_checkpoint_def)
    moreover have "stored (stored f) = stored f" for f
    proof -
      have "x < 2 ^ 64 \<Longrightarrow> unat (of_nat x :: u64) = x" for x
        by (simp add: unat_of_nat take_bit_nat_eq_self)
      moreover have "min a (2 ^ 63 - 1) < (2 :: nat) ^ 64" for a by (simp add: min_def)
      ultimately have "unat (of_nat (min a (2 ^ 63 - 1)) :: u64) = min a (2 ^ 63 - 1)" for a by metis
      then show ?thesis by (simp add: stored_def del: of_nat_power)
    qed
    ultimately show ?thesis
      using v(1) files_at_distinct [of m "Suc v"]
      by (intro exI [of _ "Suc v"] exI [of _ "\<lparr>ls_files = map stored (files_at m (Suc v)), ls_version = Some v\<rparr>"])
        (simp add: checkpoint_base_def shows_at_def version_at_def o_def)
  next
    case False
    then have "checkpoint_base cx d = Inr live_set_default"
      by (auto simp: checkpoint_base_def read_checkpoint_def split: option.splits disk_entry.splits)
    then show ?thesis
      by (intro exI [of _ 0] exI [of _ live_set_default])
        (simp add: shows_at_def live_set_default_def version_at_def files_at_def log_actions_def live_files_of_def)
  qed
  then obtain k base where b: "k \<le> n" "checkpoint_base cx d = Inr base" "shows_at m k base" "distinct (map af_path (ls_files base))"
    by blast
  from advance_at [OF log b(1,3,4)] b(2) show ?thesis by (simp add: live_files_def)
qed

lemma newest_after_at:
  assumes "log_holds cx n (d, P, m)" "k \<le> n"
  shows "newest_after d (version_at k) = version_at n"
proof (cases k)
  case 0
  then show ?thesis using newest_holds [OF assms(1)] by (simp add: version_at_def)
next
  case (Suc v)
  then show ?thesis
    using assms(2) probe_from_holds [OF assms(1), of k]
    by (auto simp: newest_after_def version_at_def log_holds_file(2) [OF assms(1)])
qed

lemma cached_replay_holds:
  assumes "table_holds cx n ((d, P, m), C, r)"
  shows "\<exists>out r'. cached_replay cx d r = (Inr (\<lparr>ls_files = files_at m n, ls_version = version_at n\<rparr>, out), r') \<and>
    indexed r' \<and> live_of r' = \<lparr>ls_files = files_at m n, ls_version = version_at n\<rparr>"
proof -
  have log: "log_holds cx n (d, P, m)" "\<forall>as \<in> ran m. writes_commit cx as" and r: "indexed r"
    using assms by (auto simp: table_holds_def)
  obtain k where k: "k \<le> n" "live_of r = \<lparr>ls_files = files_at m k, ls_version = version_at k\<rparr>"
    using assms by (auto simp: table_holds_def)
  then have v: "rp_version r = version_at k" by (simp add: live_of_def)
  have "\<exists>c r'. replay_advance cx d r = (Inr c, r') \<and> indexed r' \<and>
    live_of r' = \<lparr>ls_files = files_at m n, ls_version = version_at n\<rparr>"
    using replay_advance_at [OF log k(1) r v] k files_at_from [OF k(1), of m] by simp
  then obtain c r' where adv: "replay_advance cx d r = (Inr c, r')" "indexed r'"
    "live_of r' = \<lparr>ls_files = files_at m n, ls_version = version_at n\<rparr>" by blast
  have same: "files_at m k = files_at m n" if "version_at k = version_at n"
    using that k(1) by (cases k; cases n) (auto simp: version_at_def)
  show ?thesis
  proof (cases "k = 0")
    case True
    then show ?thesis using adv v newest_after_at [OF log(1) k(1)]
      by (auto simp: cached_replay_def Let_def version_at_def)
  next
    case False
    with k(1) show ?thesis using adv v k(2) r newest_after_at [OF log(1) k(1)] same
      by (auto simp: cached_replay_def Let_def version_at_def)
  qed
qed

lemma files_at_mono:
  assumes "m \<subseteq>\<^sub>m m'" "dom m = {..<n}" "k \<le> n"
  shows "files_at m' k = files_at m k"
proof -
  have "map (\<lambda>v. map (Pair v) (the (m' v))) [0..<k] = map (\<lambda>v. map (Pair v) (the (m v))) [0..<k]"
  proof (rule map_cong)
    fix v assume "v \<in> set [0..<k]"
    then have "v \<in> dom m" using assms by auto
    then show "map (Pair v) (the (m' v)) = map (Pair v) (the (m v))" using assms(1) by (metis map_le_def)
  qed simp
  then show ?thesis by (simp only: files_at_def log_actions_def)
qed

lemma table_holds_disk:
  assumes "table_holds cx n ((d, P, m), C, r)" "\<forall>v. map_of d' (commit_name v) = map_of d (commit_name v)"
    and "\<And>v bs. map_of d' (checkpoint_name v) = Some (Parquet bs) \<Longrightarrow>
      map_of d (checkpoint_name v) = Some (Parquet bs) \<or> v < n \<and> read_batches v bs = Inr (map stored (files_at m (Suc v)))"
  shows "table_holds cx n ((d', P, m), C, r)"
  using assms by (fastforce simp: table_holds_def log_holds_def)

lemma table_step_holds:
  assumes "table_step cx s t" "table_holds cx n s"
  shows "\<exists>n'. table_holds cx n' t"
  using assms
proof (induction rule: table_step.induct)
  case (logging d P m d' P' m' C r)
  have log: "log_holds cx n (d, P, m)" and dom: "dom m = {..<n}" using logging(4) by (auto simp: table_holds_def log_holds_def)
  obtain n' where n': "log_holds cx n' (d', P', m')" using log_step_holds [OF logging(1) log] by blast
  have le: "m \<subseteq>\<^sub>m m'" by (rule commits_never_replaced [OF logging(1) log])
  moreover have "dom m' = {..<n'}" using n' by (simp add: log_holds_def)
  ultimately have up: "n \<le> n'" using dom map_le_implies_dom_le [OF le] by simp
  have same: "files_at m' k = files_at m k" if "k \<le> n" for k by (rule files_at_mono [OF le dom that])
  note old = logging(4) [unfolded table_holds_def, simplified]
  have "v < n' \<and> read_batches v bs = Inr (map stored (files_at m' (Suc v)))"
    if "map_of d' (checkpoint_name v) = Some (Parquet bs)" for v bs
  proof -
    have "v < n \<and> read_batches v bs = Inr (map stored (files_at m (Suc v)))" using old logging(3) that by metis
    with same [of "Suc v"] up show ?thesis by (metis Suc_leI order_less_le_trans)
  qed
  moreover have "\<exists>k \<le> n'. shows_at m' k l" if "l \<in> set C" for l
    using old that same up unfolding shows_at_def by (metis order_trans)
  moreover have "\<exists>k \<le> n'. live_of r = \<lparr>ls_files = files_at m' k, ls_version = version_at k\<rparr>"
    using old same up by (metis order_trans)
  ultimately show ?case using n' logging(2) old by (intro exI [of _ n']) (simp add: table_holds_def)
next
  case (reading d l P m C r)
  obtain l' where "live_files cx d = Inr l'" "shows_at m n l'" using live_files_holds [OF reading(2)] by blast
  with reading show ?case by (intro exI [of _ n]) (auto simp: table_holds_def)
next
  case (writing l C pointer md d report d' P m r)
  obtain v where v: "ls_version l = Some v" using writing(2) by (auto simp: write_checkpoint_def split: option.splits)
  then have d': "d' = AList.update LAST_CHECKPOINT (Text (pointer v (2 + length (ls_files l)) (length (ls_files l))))
      (AList.update (checkpoint_name v) (Parquet [checkpoint_batch_of 1 md (ls_files l)]) d)"
    using writing(2) by (simp add: write_checkpoint_def Let_def)
  from writing(1,3) obtain k where "k \<le> n" "shows_at m k l" by (auto simp: table_holds_def)
  with v have "v < n" "map stored (ls_files l) = map stored (files_at m (Suc v))"
    by (auto simp: shows_at_def version_at_def split: if_splits)
  then show ?case
    by (intro exI [of _ n] table_holds_disk [OF writing(3)]) (auto simp: d' read_written_batch split: if_splits simp del: read_batches.simps)
next
  case (spoiled e d P m C r v)
  show ?case
    by (intro exI [of _ n] table_holds_disk [OF spoiled(2)]) (use spoiled(1) in \<open>auto split: if_splits\<close>)
next
  case (removed name d P m C r)
  show ?case
    by (intro exI [of _ n] table_holds_disk [OF removed(2)]) (use removed(1) in \<open>auto simp: delete_conv' split: if_splits\<close>)
next
  case (pointing d P m C r e)
  show ?case
    by (intro exI [of _ n] table_holds_disk [OF pointing]) (auto split: if_splits)
next
  case (cached d r result r' P m C)
  then show ?case using cached_replay_holds [OF cached(2)]
    by (intro exI [of _ n]) (auto simp: table_holds_def)
qed

lemma table_holds_reachable:
  "(table_step cx)\<^sup>*\<^sup>* (([], [], Map.empty), [], replay_default) s \<Longrightarrow> \<exists>n. table_holds cx n s"
proof (induction rule: rtranclp_induct)
  case base
  have "log_holds cx 0 ([], [], Map.empty)" by (simp add: log_holds_def)
  then show ?case
    by (intro exI [of _ 0])
      (simp add: table_holds_def indexed_default files_at_def log_actions_def live_files_of_def version_at_def live_set_default_def)
next
  case (step y z)
  then show ?case using table_step_holds by blast
qed

lemma takeWhile_log_actions:
  assumes "k < n"
  shows "takeWhile (\<lambda>(at, _). at \<le> k) (log_actions m [0..<n]) = log_actions m [0..<Suc k]"
proof -
  have split: "log_actions m [0..<n] = log_actions m [0..<Suc k] @ log_actions m [Suc k..<n]"
    using assms by (metis Suc_leI le_add_diff_inverse log_actions_append upt_add_eq_append zero_le)
  have "takeWhile (\<lambda>(at, _). at \<le> k) (log_actions m [Suc k..<n]) = []"
  proof (cases "log_actions m [Suc k..<n]")
    case (Cons x xs)
    then have "x \<in> set (log_actions m [Suc k..<n])" by simp
    then show ?thesis using Cons by (auto simp: log_actions_def)
  qed simp
  moreover have "\<forall>x \<in> set (log_actions m [0..<Suc k]). (\<lambda>(at, _). at \<le> k) x" by (auto simp: log_actions_def)
  ultimately show ?thesis unfolding split by (subst takeWhile_append2) auto
qed

definition replay_to :: "(log_version \<rightharpoonup> delta_action list) \<Rightarrow> nat \<Rightarrow> live_set" where
  "replay_to m k = live_of (apply_all (log_actions m [0..<k]) replay_default)"

text \<open>
  C29: However commits, checkpoints and cached reads interleave, and whatever becomes of checkpoints and their pointer,
  a cached read returns what replaying the whole log returns; a read that starts from a checkpoint returns
  that up to the partition values, the data-change mark and sizes past \<open>i64\<close>, which a checkpoint does not keep;
  and reading an earlier version returns what the log said then.
\<close>

theorem checkpoints_change_no_answer:
  assumes "(table_step cx)\<^sup>*\<^sup>* (([], [], Map.empty), [], replay_default) ((d, P, m), C, r)"
  shows "\<exists>n. dom m = {..<n} \<and>
    (\<exists>out. fst (cached_replay cx d r) = Inr (replay_to m n, out)) \<and>
    (\<exists>l. live_files cx d = Inr l \<and> ls_version l = ls_version (replay_to m n) \<and>
       map stored (ls_files l) = map stored (ls_files (replay_to m n))) \<and>
    (\<forall>v < n. live_files_at cx d v = Inr (replay_to m (Suc v)))"
proof -
  obtain n where n: "table_holds cx n ((d, P, m), C, r)" using table_holds_reachable [OF assms] by blast
  then have log: "log_holds cx n (d, P, m)" "\<forall>as \<in> ran m. writes_commit cx as" by (auto simp: table_holds_def)
  have "replay_to m n = \<lparr>ls_files = files_at m n, ls_version = version_at n\<rparr>"
  proof (cases "n = 0")
    case True
    then show ?thesis
      by (simp add: replay_to_def apply_all_def log_actions_def indexed_default live_set_default_def files_at_def live_files_of_def version_at_def)
  next
    case False
    with apply_all_refines [OF indexed_default(1), of "log_actions m [0..<n]"] log_actions_last [OF log(1), of 0]
    show ?thesis by (simp add: replay_to_def files_at_def indexed_default(2) live_set_default_def version_at_def)
  qed
  moreover have "live_files_at cx d v = Inr (replay_to m (Suc v))" if "v < n" for v
    using read_after_holds(1) [OF log] takeWhile_log_actions [OF that, of m] by (simp add: live_files_at_def replay_to_def)
  moreover have "dom m = {..<n}" using log(1) by (simp add: log_holds_def)
  ultimately show ?thesis
    using cached_replay_holds [OF n] live_files_holds [OF n] by (intro exI [of _ n]) (auto simp: shows_at_def)
qed

theorem checkpoints_change_no_answer_witness:
  "\<exists>d l. live_files sample_codec d = Inr l \<and> ls_version l = Some 0 \<and> ls_files l = []"
proof -
  let ?b = "''{1}'' @ [newline] @ ''{a}'' @ [newline]"
  let ?d = "AList.update (commit_name 0) (Text ?b) []"
  let ?m = "[0 \<mapsto> [sample_action]]"
  have "commit_checks sample_codec 0 [sample_action] [] = Inr ?b"
    by (simp add: commit_checks_def exists_def sample_body)
  then have "log_step sample_codec ([], [], Map.empty) ([], [(0, [sample_action], ?b)], Map.empty)" by (rule checked)
  then have "table_step sample_codec (([], [], Map.empty), [], replay_default) (([], [(0, [sample_action], ?b)], Map.empty), [], replay_default)"
    by (rule logging) simp_all
  moreover have "log_step sample_codec ([], [(0, [sample_action], ?b)], Map.empty)
      (?d, remove1 (0, [sample_action], ?b) [(0, [sample_action], ?b)], ?m)"
    by (rule won) (simp_all add: claim_def)
  then have "table_step sample_codec (([], [(0, [sample_action], ?b)], Map.empty), [], replay_default) ((?d, [], ?m), [], replay_default)"
    using sample_writes by (intro logging) simp_all
  ultimately have "(table_step sample_codec)\<^sup>*\<^sup>* (([], [], Map.empty), [], replay_default) ((?d, [], ?m), [], replay_default)" by simp
  from checkpoints_change_no_answer [OF this] obtain n l where n: "dom ?m = {..<n}" "live_files sample_codec ?d = Inr l"
    "ls_version l = ls_version (replay_to ?m n)" "map stored (ls_files l) = map stored (ls_files (replay_to ?m n))"
    by blast
  have "n = card (dom ?m :: nat set)" unfolding n(1) by simp
  then have "n = 1" by simp
  with n show ?thesis
    by (intro exI [of _ ?d] exI [of _ l])
      (simp add: replay_to_def apply_all_def log_actions_def replay_default_def apply_action_def sample_action_def live_of_def map_filter_simps)
qed

subsection \<open>What a checkpoint and a cache do not see\<close>

text \<open>A file read from a checkpoint has no partition values, whatever the log gave it.\<close>

lemma checkpoint_forgets_partitions:
  "partition_values f \<noteq> [] \<Longrightarrow> read_batches v [checkpoint_batch_of 1 md [f]] \<noteq> Inr [f]"
proof -
  assume "partition_values f \<noteq> []"
  then have "stored f \<noteq> f" by (metis (no_types, lifting) add_file.select_convs(2) add_file.surjective add_file.update_convs(2,3,6) stored_def)
  then show ?thesis by (simp add: read_written_batch del: read_batches.simps)
qed

text \<open>A log rebuilt to the length a cache knows is not noticed: the cache answers with the files of the old one.\<close>

lemma rebuilt_log_of_same_length_is_not_noticed:
  "rp_version r = Some v \<Longrightarrow> exists d (commit_name v) \<Longrightarrow> \<not> exists d (commit_name (Suc v)) \<Longrightarrow>
     cached_replay cx d r = (Inr (live_of r, Current), r)"
  by (simp add: cached_replay_def newest_after_def Let_def)

end
