(* ===== verification/Delta_History.thy ===== *)
theory Delta_History
  imports Delta_Log
begin

text \<open>
  What each commit did, and what changed between two versions:
  \<^verbatim>\<open>crates/sankhya-table-delta/src/history.rs\<close>. How many rows a file's statistics declare is a
  parameter (\<open>serde\<close> reads them).
\<close>

record commit_change =
  cc_version :: log_version
  cc_at :: "i64 option"
  cc_added :: nat
  cc_removed :: nat
  cc_bytes_added :: u64
  cc_changed_data :: bool
  cc_declared_schema :: bool

definition change_new :: "log_version \<Rightarrow> commit_change" where
  "change_new v =
     \<lparr>cc_version = v, cc_at = None, cc_added = 0, cc_removed = 0, cc_bytes_added = 0, cc_changed_data = False,
      cc_declared_schema = False\<rparr>"

definition latest_of :: "i64 \<Rightarrow> i64 option \<Rightarrow> i64 option" where
  "latest_of t seen = Some (case seen of None \<Rightarrow> t | Some s \<Rightarrow> max s t)"

fun note_action :: "delta_action \<Rightarrow> commit_change \<Rightarrow> commit_change" where
  "note_action (Add f) c =
     c\<lparr>cc_added := usize_saturating_add (cc_added c) 1,
       cc_bytes_added := word_saturating_add (cc_bytes_added c) (af_size f),
       cc_changed_data := cc_changed_data c \<or> data_change f,
       cc_at := latest_of (modification_time f) (cc_at c)\<rparr>"
| "note_action (Remove g) c =
     c\<lparr>cc_removed := usize_saturating_add (cc_removed c) 1,
       cc_changed_data := cc_changed_data c \<or> rf_data_change g,
       cc_at := latest_of (deletion_timestamp g) (cc_at c)\<rparr>"
| "note_action (Metadata _) c = c\<lparr>cc_declared_schema := True\<rparr>"
| "note_action (Protocol _ _) c = c"

definition history_step :: "log_version \<times> delta_action \<Rightarrow> commit_change list \<Rightarrow> commit_change list" where
  "history_step = (\<lambda>(v, a) cs.
     (let found = position (\<lambda>c. cc_version c = v) cs;
          cs = (case found of Some _ \<Rightarrow> cs | None \<Rightarrow> cs @ [change_new v]);
          i = (case found of Some i \<Rightarrow> i | None \<Rightarrow> length cs - 1)
      in if i < length cs then cs[i := note_action a (cs ! i)] else cs))"

definition history :: "(log_version \<times> delta_action) list \<Rightarrow> commit_change list" where
  "history l = fold history_step l []"

datatype change_kind = Created | Compacted | Appended | Removed | Rewritten | OnlyMetadata

definition describe_change :: "commit_change \<Rightarrow> change_kind" where
  "describe_change c =
     (if cc_declared_schema c \<and> cc_added c = 0 \<and> cc_removed c = 0 then Created
      else if \<not> cc_changed_data c \<and> cc_added c > 0 \<and> cc_removed c > 0 then Compacted
      else if cc_added c > 0 \<and> cc_removed c = 0 then Appended
      else if cc_removed c > 0 \<and> cc_added c = 0 then Removed
      else if cc_added c > 0 then Rewritten
      else OnlyMetadata)"

subsection \<open>Differences\<close>

record difference =
  df_commits :: nat
  files_added :: nat
  rows_added :: u64
  files_removed :: nat
  rows_removed :: u64
  compactions :: nat

datatype no_difference = NoSuchVersion log_version log_version | Backwards log_version log_version

fun is_file_action :: "delta_action \<Rightarrow> bool" where
  "is_file_action (Add _) \<longleftrightarrow> True"
| "is_file_action (Remove _) \<longleftrightarrow> True"
| "is_file_action _ \<longleftrightarrow> False"

fun declares_change :: "delta_action \<Rightarrow> bool" where
  "declares_change (Add f) \<longleftrightarrow> data_change f"
| "declares_change (Remove g) \<longleftrightarrow> rf_data_change g"
| "declares_change _ \<longleftrightarrow> False"

text \<open>The rows of the file last added at each path.\<close>

fun rows_in :: "(add_file \<Rightarrow> u64) \<Rightarrow> (log_version \<times> delta_action) list \<Rightarrow> (string \<times> u64) list \<Rightarrow> (string \<times> u64) list" where
  "rows_in rows [] t = t"
| "rows_in rows ((_, Add f) # l) t = rows_in rows l (bt_insert (af_path f) (rows f) t)"
| "rows_in rows (_ # l) t = rows_in rows l t"

definition newest_of :: "(log_version \<times> delta_action) list \<Rightarrow> log_version" where
  "newest_of l = fold (\<lambda>(v, _) n. if v > n then v else n) l 0"

definition versions_where ::
    "(delta_action \<Rightarrow> bool) \<Rightarrow> log_version \<Rightarrow> log_version \<Rightarrow> (log_version \<times> delta_action) list \<Rightarrow> log_version set" where
  "versions_where holds start stop l = {v. start < v \<and> v \<le> stop \<and> (\<exists>a. (v, a) \<in> set l \<and> holds a)}"

fun count_change :: "(add_file \<Rightarrow> u64) \<Rightarrow> (string \<times> u64) list \<Rightarrow> delta_action \<Rightarrow> difference \<Rightarrow> difference" where
  "count_change rows known (Add f) d =
     (if data_change f then d\<lparr>files_added := files_added d + 1, rows_added := rows_added d + rows f\<rparr> else d)"
| "count_change rows known (Remove g) d =
     (if rf_data_change g
      then d\<lparr>files_removed := files_removed d + 1,
             rows_removed := rows_removed d + (case map_of known (rf_path g) of None \<Rightarrow> 0 | Some n \<Rightarrow> n)\<rparr>
      else d)"
| "count_change rows known _ d = d"

definition difference_of ::
    "(add_file \<Rightarrow> u64) \<Rightarrow> (log_version \<times> delta_action) list \<Rightarrow> log_version \<Rightarrow> log_version \<Rightarrow> no_difference + difference" where
  "difference_of rows l start stop =
     (let newest = newest_of l;
          changed = versions_where declares_change start stop l;
          touched = versions_where is_file_action start stop l
      in if start > stop then Inl (Backwards start stop)
         else if start > newest then Inl (NoSuchVersion start newest)
         else if stop > newest then Inl (NoSuchVersion stop newest)
         else Inr (fold (\<lambda>(v, a) d. if v \<in> changed then count_change rows (rows_in rows l []) a d else d) l
                \<lparr>df_commits = card changed, files_added = 0, rows_added = 0, files_removed = 0, rows_removed = 0,
                 compactions = card (touched - changed)\<rparr>))"

subsection \<open>One summary for each commit\<close>

lemma position_snoc:
  "position P (xs @ [x]) = (case position P xs of Some i \<Rightarrow> Some i | None \<Rightarrow> if P x then Some (length xs) else None)"
  by (induction xs) (auto split: option.splits)

lemma history_commit:
  assumes "v \<notin> cc_version ` set cs"
  shows "fold history_step (map (Pair v) (a # as)) cs = cs @ [fold note_action (a # as) (change_new v)]"
proof -
  have keeps: "cc_version (note_action a c) = cc_version c" for a c by (cases a) auto
  have none: "position (\<lambda>c. cc_version c = v) cs = None" using assms by (auto simp: position_None)
  have step: "history_step (v, a) (cs @ [c]) = cs @ [note_action a c]" if "cc_version c = v" for a c
    using that none by (simp add: history_step_def position_snoc)
  have "fold history_step (map (Pair v) as) (cs @ [c]) = cs @ [fold note_action as c]" if "cc_version c = v" for as c
    using that by (induction as arbitrary: c) (simp_all add: step keeps)
  moreover have "history_step (v, a) cs = cs @ [note_action a (change_new v)]"
    using none by (simp add: history_step_def)
  ultimately show ?thesis by (simp add: keeps change_new_def)
qed

lemma history_is_one_change_for_each_commit:
  assumes "distinct vs" "\<forall>v \<in> set vs. the (m v) \<noteq> []"
  shows "history (log_actions m vs) = map (\<lambda>v. fold note_action (the (m v)) (change_new v)) vs"
  using assms
proof (induction vs rule: rev_induct)
  case (snoc v vs)
  have keeps: "cc_version (fold note_action as c) = cc_version c" for as c
  proof (induction as arbitrary: c)
    case (Cons a as)
    then show ?case by (cases a) auto
  qed simp
  obtain a as where as: "the (m v) = a # as" using snoc.prems by (cases "the (m v)") auto
  have "v \<notin> cc_version ` set (map (\<lambda>v. fold note_action (the (m v)) (change_new v)) vs)"
    using snoc.prems by (auto simp: keeps change_new_def)
  from history_commit [OF this, of a as] snoc as show ?case
    by (simp add: history_def log_actions_def)
qed (simp add: history_def log_actions_def)

subsection \<open>Differences add up\<close>

definition difference_sum :: "difference \<Rightarrow> difference \<Rightarrow> difference" where
  "difference_sum a b =
     \<lparr>df_commits = df_commits a + df_commits b, files_added = files_added a + files_added b,
      rows_added = rows_added a + rows_added b, files_removed = files_removed a + files_removed b,
      rows_removed = rows_removed a + rows_removed b, compactions = compactions a + compactions b\<rparr>"

definition difference_zero :: difference where
  "difference_zero =
     \<lparr>df_commits = 0, files_added = 0, rows_added = 0, files_removed = 0, rows_removed = 0, compactions = 0\<rparr>"

lemma difference_zero [simp]: "difference_sum difference_zero d = d" "difference_sum d difference_zero = d"
  by (simp_all add: difference_sum_def difference_zero_def)

lemma difference_sum_ac:
  "difference_sum (difference_sum a b) c = difference_sum a (difference_sum b c)" "difference_sum a b = difference_sum b a"
  by (simp_all add: difference_sum_def)

lemma count_change_sum: "count_change rows known a (difference_sum d e) = difference_sum d (count_change rows known a e)"
  by (cases a) (auto simp: difference_sum_def)

definition counted ::
    "(add_file \<Rightarrow> u64) \<Rightarrow> (string \<times> u64) list \<Rightarrow> log_version set \<Rightarrow> (log_version \<times> delta_action) list \<Rightarrow> difference \<Rightarrow> difference" where
  "counted rows known S l d = fold (\<lambda>(v, a) d. if v \<in> S then count_change rows known a d else d) l d"

lemma counted_sum: "counted rows known S l (difference_sum d e) = difference_sum d (counted rows known S l e)"
  by (induction l arbitrary: e) (auto simp: counted_def count_change_sum)

lemma counted_union:
  assumes "S \<inter> T = {}"
  shows "counted rows known (S \<union> T) l (difference_sum d e) = difference_sum (counted rows known S l d) (counted rows known T l e)"
  using assms
proof (induction l arbitrary: d e)
  case (Cons x l)
  obtain v a where x: "x = (v, a)" by (cases x)
  have left: "count_change rows known a (difference_sum d e) = difference_sum (count_change rows known a d) e"
    using count_change_sum difference_sum_ac(2) by metis
  have step: "counted rows known R ((v, a) # l) c = counted rows known R l (if v \<in> R then count_change rows known a c else c)" for R c
    by (simp add: counted_def)
  consider "v \<in> S" "v \<notin> T" | "v \<in> T" "v \<notin> S" | "v \<notin> S" "v \<notin> T" using Cons.prems by blast
  then show ?case
  proof cases
    case 1
    then show ?thesis unfolding x step by (simp add: left Cons.IH [OF Cons.prems])
  next
    case 2
    then show ?thesis unfolding x step by (simp add: count_change_sum Cons.IH [OF Cons.prems])
  next
    case 3
    then show ?thesis unfolding x step by (simp add: Cons.IH [OF Cons.prems])
  qed
qed (simp add: counted_def)

lemma versions_where_split:
  "start \<le> mid \<Longrightarrow> mid \<le> stop \<Longrightarrow>
     versions_where h start stop l = versions_where h start mid l \<union> versions_where h mid stop l \<and>
     versions_where h start mid l \<inter> versions_where h' mid stop l = {}"
  by (auto simp: versions_where_def)

lemma finite_versions_where: "finite (versions_where h start stop l)"
proof (rule finite_subset)
  show "versions_where h start stop l \<subseteq> fst ` set l" by (force simp: versions_where_def)
qed simp

lemma differences_add_up:
  assumes "difference_of rows l start mid = Inr d" "difference_of rows l mid stop = Inr e"
  shows "difference_of rows l start stop = Inr (difference_sum d e)"
proof -
  have le: "start \<le> mid" "mid \<le> stop" "stop \<le> newest_of l"
    using assms by (auto simp: difference_of_def Let_def split: if_splits)
  define C where "C = versions_where declares_change"
  define T where "T = versions_where is_file_action"
  have C: "C start stop l = C start mid l \<union> C mid stop l" "C start mid l \<inter> C mid stop l = {}"
    and T: "T start stop l = T start mid l \<union> T mid stop l" and TC: "T start mid l \<inter> C mid stop l = {}" "C start mid l \<inter> T mid stop l = {}"
    and TT: "T start mid l \<inter> T mid stop l = {}"
    using versions_where_split [OF le(1,2)] unfolding C_def T_def by blast+
  have fin: "finite (C x y l)" "finite (T x y l)" for x y by (simp_all add: C_def T_def finite_versions_where)
  have "card (C start stop l) = card (C start mid l) + card (C mid stop l)"
    unfolding C(1) by (rule card_Un_disjoint [OF fin(1) fin(1) C(2)])
  moreover have "T start stop l - C start stop l = (T start mid l - C start mid l) \<union> (T mid stop l - C mid stop l)"
    unfolding C(1) T using TC by blast
  then have "card (T start stop l - C start stop l) = card (T start mid l - C start mid l) + card (T mid stop l - C mid stop l)"
    using TT fin by (simp add: card_Un_disjoint disjoint_iff)
  ultimately have zero: "\<lparr>df_commits = card (C start stop l), files_added = 0, rows_added = 0, files_removed = 0, rows_removed = 0,
       compactions = card (T start stop l - C start stop l)\<rparr> =
     difference_sum
       \<lparr>df_commits = card (C start mid l), files_added = 0, rows_added = 0, files_removed = 0, rows_removed = 0,
        compactions = card (T start mid l - C start mid l)\<rparr>
       \<lparr>df_commits = card (C mid stop l), files_added = 0, rows_added = 0, files_removed = 0, rows_removed = 0,
        compactions = card (T mid stop l - C mid stop l)\<rparr>"
    by (simp add: difference_sum_def)
  show ?thesis
    using assms le counted_union [OF C(2), of rows "rows_in rows l []" l]
    unfolding difference_of_def Let_def C_def [symmetric] T_def [symmetric] counted_def [symmetric] zero
    by (auto simp: C(1) split: if_splits)
qed

end
