(* ===== verification/Date_Axis.thy ===== *)
theory Date_Axis
  imports Ordered_Maps Decimal
begin

text \<open>
  The date axis of a table and its calendar: \<^verbatim>\<open>crates/sankhya-schema/src/datedate.rs\<close>.
  The intermediate \<open>i64\<close> arithmetic does not overflow on \<open>i32\<close> days, so it is written over the integers.
\<close>

subsection \<open>The calendar\<close>

definition civil_from_days :: "int \<Rightarrow> int \<times> int \<times> int" where
  "civil_from_days days =
     (let z = days + 719468;
          era = rust_div (if z \<ge> 0 then z else z - 146096) 146097;
          day_of_era = z - era * 146097;
          year_of_era =
            rust_div (day_of_era - rust_div day_of_era 1460 + rust_div day_of_era 36524 - rust_div day_of_era 146096) 365;
          year = year_of_era + era * 400;
          day_of_year = day_of_era - (365 * year_of_era + rust_div year_of_era 4 - rust_div year_of_era 100);
          month_prime = rust_div (5 * day_of_year + 2) 153;
          day = day_of_year - rust_div (153 * month_prime + 2) 5 + 1;
          month = (if month_prime < 10 then month_prime + 3 else month_prime - 9);
          year = (if month \<le> 2 then year + 1 else year)
      in (year, month, day))"

definition is_i32 :: "int \<Rightarrow> bool" where
  "is_i32 x \<longleftrightarrow> - (2 ^ 31) \<le> x \<and> x < 2 ^ 31"

definition days_from_civil :: "int \<Rightarrow> int \<Rightarrow> int \<Rightarrow> int option" where
  "days_from_civil year month day =
     (if \<not> (1 \<le> month \<and> month \<le> 12) \<or> \<not> (1 \<le> day \<and> day \<le> 31) then None
      else
        (let shifted = (if month \<le> 2 then year - 1 else year);
             era = shifted div 400;
             year_of_era = shifted - era * 400;
             month_prime = (if month > 2 then month - 3 else month + 9);
             day_of_year = rust_div (153 * month_prime + 2) 5 + day - 1;
             day_of_era = year_of_era * 365 + rust_div year_of_era 4 - rust_div year_of_era 100 + day_of_year;
             n = era * 146097 + day_of_era - 719468
         in if is_i32 n then Some n else None))"

subsection \<open>The axis\<close>

definition DATA_DATE_COLUMN :: string where "DATA_DATE_COLUMN = ''sank_data_date''"
definition RESERVED_PREFIX :: string where "RESERVED_PREFIX = ''sank_''"
definition SOURCE_KEY :: string where "SOURCE_KEY = ''sank.dataDate.source''"
definition GRANULARITY_KEY :: string where "GRANULARITY_KEY = ''sank.dataDate.granularity''"

datatype granularity = Day | Month | Year

fun granularity_as_str :: "granularity \<Rightarrow> string" where
  "granularity_as_str Day = ''day''"
| "granularity_as_str Month = ''month''"
| "granularity_as_str Year = ''year''"

definition granularity_from_str :: "string \<Rightarrow> granularity option" where
  "granularity_from_str s =
     (if s = ''day'' then Some Day else if s = ''month'' then Some Month
      else if s = ''year'' then Some Year else None)"

datatype date_source = DateColumn string | IngestDate

fun is_business_date :: "date_source \<Rightarrow> bool" where
  "is_business_date (DateColumn _) \<longleftrightarrow> True"
| "is_business_date IngestDate \<longleftrightarrow> False"

record date_axis =
  ax_source :: date_source
  ax_granularity :: granularity

definition from_column :: "string \<Rightarrow> date_axis" where
  "from_column n = \<lparr>ax_source = DateColumn n, ax_granularity = Day\<rparr>"

definition ingest_date :: date_axis where
  "ingest_date = \<lparr>ax_source = IngestDate, ax_granularity = Day\<rparr>"

definition axis_at :: "granularity \<Rightarrow> date_axis \<Rightarrow> date_axis" where
  "axis_at g a = a\<lparr>ax_granularity := g\<rparr>"

datatype axis_error = UnknownGranularity string

definition to_configuration :: "date_axis \<Rightarrow> (string \<times> string) list" where
  "to_configuration a =
     bt_insert GRANULARITY_KEY (granularity_as_str (ax_granularity a))
       (case ax_source a of DateColumn n \<Rightarrow> bt_insert SOURCE_KEY n [] | IngestDate \<Rightarrow> [])"

definition from_configuration :: "(string \<times> string) list \<Rightarrow> axis_error + date_axis" where
  "from_configuration c =
     (case (case map_of c GRANULARITY_KEY of
              None \<Rightarrow> Inr Day
            | Some n \<Rightarrow> (case granularity_from_str n of None \<Rightarrow> Inl (UnknownGranularity n) | Some g \<Rightarrow> Inr g)) of
        Inl e \<Rightarrow> Inl e
      | Inr g \<Rightarrow>
          Inr \<lparr>ax_source = (case map_of c SOURCE_KEY of
                             Some n \<Rightarrow> if n \<noteq> [] then DateColumn n else IngestDate
                           | None \<Rightarrow> IngestDate),
               ax_granularity = g\<rparr>)"

definition partition_of :: "date_axis \<Rightarrow> int \<Rightarrow> string" where
  "partition_of a days =
     (case civil_from_days days of
        (year, month, day) \<Rightarrow>
          (case ax_granularity a of
             Day \<Rightarrow> pad_int 4 year @ ''-'' @ pad_int 2 month @ ''-'' @ pad_int 2 day
           | Month \<Rightarrow> pad_int 4 year @ ''-'' @ pad_int 2 month
           | Year \<Rightarrow> pad_int 4 year))"

definition partition_path :: "date_axis \<Rightarrow> int \<Rightarrow> string" where
  "partition_path a days = DATA_DATE_COLUMN @ ''='' @ partition_of a days"

definition is_reserved_column :: "string \<Rightarrow> bool" where
  "is_reserved_column column \<longleftrightarrow> take (length RESERVED_PREFIX) column = RESERVED_PREFIX"

lemma configuration_roundtrip:
  "ax_source a \<noteq> DateColumn [] \<Longrightarrow> from_configuration (to_configuration a) = Inr a"
  by (cases a; cases "ax_source a"; cases "ax_granularity a")
    (auto simp: from_configuration_def to_configuration_def granularity_from_str_def SOURCE_KEY_def GRANULARITY_KEY_def)

subsection \<open>The Gregorian calendar\<close>

text \<open>The specification: the day after a date.\<close>

definition leap :: "int \<Rightarrow> bool" where
  "leap y \<longleftrightarrow> y mod 4 = 0 \<and> (y mod 100 \<noteq> 0 \<or> y mod 400 = 0)"

definition month_length :: "bool \<Rightarrow> int \<Rightarrow> int" where
  "month_length is_leap m =
     (if m = 2 then (if is_leap then 29 else 28) else if m \<in> {4, 6, 9, 11} then 30 else 31)"

definition valid_date :: "int \<times> int \<times> int \<Rightarrow> bool" where
  "valid_date = (\<lambda>(y, m, d). 1 \<le> m \<and> m \<le> 12 \<and> 1 \<le> d \<and> d \<le> month_length (leap y) m)"

definition day_after :: "bool \<Rightarrow> int \<times> int \<times> int \<Rightarrow> int \<times> int \<times> int" where
  "day_after is_leap = (\<lambda>(y, m, d).
     if d < month_length is_leap m then (y, m, d + 1)
     else if m < 12 then (y, m + 1, 1)
     else (y + 1, 1, 1))"

definition next_day :: "int \<times> int \<times> int \<Rightarrow> int \<times> int \<times> int" where
  "next_day = (\<lambda>(y, m, d). day_after (leap y) (y, m, d))"

subsection \<open>Years that begin in March\<close>

text \<open>The first day of a year of an era, counted from the first of March; the year an era's day is in.\<close>

definition year_start :: "int \<Rightarrow> int" where
  "year_start y = (if y = 400 then 146097 else 365 * y + y div 4 - y div 100)"

definition year_of :: "int \<Rightarrow> int" where
  "year_of d = (d - d div 1460 + d div 36524 - d div 146096) div 365"

text \<open>The date of a day of such a year, its year relative to the one it begins in.\<close>

definition month_day :: "int \<Rightarrow> int \<times> int \<times> int" where
  "month_day doy =
     (let mp = (5 * doy + 2) div 153; m = (if mp < 10 then mp + 3 else mp - 9)
      in (if m \<le> 2 then 1 else 0, m, doy - (153 * mp + 2) div 5 + 1))"

definition day_number :: "int \<Rightarrow> int \<Rightarrow> int" where
  "day_number m d = (153 * (if m > 2 then m - 3 else m + 9) + 2) div 5 + d - 1"

lemma year_ends: "\<forall>y \<in> set [0..399]. year_of (year_start y) = y \<and> year_of (year_start (y + 1) - 1) = y"
  by code_simp

lemma year_lengths: "\<forall>y \<in> set [0..399]. year_start (y + 1) = year_start y + (if leap (y + 1) then 366 else 365)"
  by code_simp

lemma days_in_order:
  "\<forall>n \<in> set [0..363]. day_after False (month_day n) = month_day (n + 1) \<and> day_after True (month_day n) = month_day (n + 1)"
  by code_simp

lemma year_turns:
  "day_after False (month_day 364) = (1, 3, 1)" "day_after True (month_day 364) = month_day 365"
  "day_after True (month_day 365) = (1, 3, 1)" "month_day 0 = (0, 3, 1)"
  by code_simp+

lemma month_day_number:
  "\<forall>n \<in> set [0..365]. (case month_day n of (_, m, d) \<Rightarrow> day_number m d = n \<and> 1 \<le> m \<and> m \<le> 12 \<and> 1 \<le> d \<and> d \<le> month_length True m)"
  by code_simp

lemma number_month_day:
  "\<forall>m \<in> set [1..12]. \<forall>d \<in> set [1..31]. d \<le> month_length True m \<longrightarrow>
     month_day (day_number m d) = (if m \<le> 2 then 1 else 0, m, d) \<and> 0 \<le> day_number m d \<and>
     day_number m d \<le> (if m = 2 \<and> d = 29 then 365 else 364)"
  by code_simp

lemma rust_div_nonneg: "0 \<le> a \<Longrightarrow> 0 < b \<Longrightarrow> rust_div a b = a div b"
  by (cases "a = 0") (simp_all add: rust_div_def)

lemma year_of_step:
  assumes "0 \<le> d" "d < 146096"
  shows "year_of d \<le> year_of (d + 1)"
proof -
  have up: "(d + 1) div k \<le> d div k + 1 \<and> d div k \<le> (d + 1) div k" if "1 < k" for k :: int
  proof -
    have "(d + 1) div k \<le> (d + k) div k" using that by (intro zdiv_mono1) auto
    moreover have "(d + k) div k = d div k + 1" using that by (intro div_add_self2) simp
    moreover have "d div k \<le> (d + 1) div k" using that by (intro zdiv_mono1) auto
    ultimately show ?thesis by simp
  qed
  show ?thesis
  proof (cases "d + 1 = 146096")
    case True
    then have "d = 146095" by simp
    then show ?thesis by (simp add: year_of_def)
  next
    case False
    then have "d div 146096 = 0" "(d + 1) div 146096 = 0" using assms by (simp_all add: div_pos_pos_trivial)
    with up [of 1460] up [of 36524]
    have "d - d div 1460 + d div 36524 - d div 146096 \<le> (d + 1) - (d + 1) div 1460 + (d + 1) div 36524 - (d + 1) div 146096"
      by linarith
    then show ?thesis unfolding year_of_def by (rule zdiv_mono1) simp
  qed
qed

lemma year_of_mono:
  assumes "0 \<le> a" "a \<le> b" "b \<le> 146096"
  shows "year_of a \<le> year_of b"
  using assms(2,3)
proof (induction b rule: int_ge_induct)
  case (step b)
  then show ?case using year_of_step [of b] assms(1) by simp
qed simp

lemma year_start_range:
  assumes "0 \<le> y" "y \<le> 399"
  shows "0 \<le> year_start y \<and> year_start y < year_start (y + 1) \<and> year_start (y + 1) \<le> 146097 \<and>
    year_start (y + 1) = year_start y + (if leap (y + 1) then 366 else 365) \<and>
    year_of (year_start y) = y \<and> year_of (year_start (y + 1) - 1) = y"
proof -
  have y: "y \<in> set [0..399]" using assms by simp
  have "0 \<le> year_start y \<and> year_start (y + 1) \<le> 146097"
    using assms by (auto simp: year_start_def)
  then show ?thesis using bspec [OF year_lengths y] bspec [OF year_ends y] by simp
qed

lemma year_of_unique:
  assumes "0 \<le> y" "y \<le> 399" "year_start y \<le> d" "d < year_start (y + 1)"
  shows "year_of d = y"
proof -
  note y = year_start_range [OF assms(1,2)]
  have "year_of (year_start y) \<le> year_of d" using y assms(3,4) by (intro year_of_mono) linarith+
  moreover have "year_of d \<le> year_of (year_start (y + 1) - 1)" using y assms(3,4) by (intro year_of_mono) linarith+
  ultimately show ?thesis using y by linarith
qed

lemma year_of_range:
  assumes "0 \<le> d" "d < 146097"
  shows "0 \<le> year_of d \<and> year_of d \<le> 399 \<and> year_start (year_of d) \<le> d \<and> d < year_start (year_of d + 1)"
proof -
  have "year_of 0 = 0" "year_of 146096 = 399" by (simp_all add: year_of_def)
  then have y: "0 \<le> year_of d" "year_of d \<le> 399"
    using year_of_mono [of 0 d] year_of_mono [of d 146096] assms by auto
  have "year_start (year_of d) \<le> d"
  proof (rule ccontr)
    assume "\<not> year_start (year_of d) \<le> d"
    moreover from this assms have "year_of d \<noteq> 0" by (auto simp: year_start_def)
    ultimately have "year_of d \<le> year_of (year_start (year_of d - 1 + 1) - 1)"
      using assms year_start_range [of "year_of d - 1"] y by (intro year_of_mono) auto
    then show False using year_start_range [of "year_of d - 1"] y \<open>year_of d \<noteq> 0\<close> by simp
  qed
  moreover have "d < year_start (year_of d + 1)"
  proof (cases "year_of d = 399")
    case True
    then show ?thesis using assms by (simp add: year_start_def)
  next
    case False
    show ?thesis
    proof (rule ccontr)
      assume "\<not> d < year_start (year_of d + 1)"
      then have "year_of (year_start (year_of d + 1)) \<le> year_of d"
        using assms year_start_range [of "year_of d + 1"] y False by (intro year_of_mono) auto
      then show False using year_start_range [of "year_of d + 1"] y False by simp
    qed
  qed
  ultimately show ?thesis using y by simp
qed

lemma civil_parts:
  assumes "n + 719468 = era * 146097 + doe" "0 \<le> doe" "doe < 146097"
  shows "civil_from_days n =
    (case month_day (doe - year_start (year_of doe)) of (yo, m, d) \<Rightarrow> (year_of doe + era * 400 + yo, m, d))"
proof -
  note y = year_of_range [OF assms(2,3)]
  have era: "rust_div (if n + 719468 \<ge> 0 then n + 719468 else n + 719468 - 146096) 146097 = era"
  proof (cases "n + 719468 \<ge> 0")
    case True
    have "(n + 719468) div 146097 = era" using assms by (intro int_div_pos_eq [of _ _ _ doe]) auto
    with True show ?thesis by (simp add: rust_div_nonneg)
  next
    case False
    have "(146096 - (n + 719468)) div 146097 = - era" using assms by (intro int_div_pos_eq [of _ _ _ "146096 - doe"]) auto
    with False show ?thesis by (simp add: rust_div_def)
  qed
  have doe: "n + 719468 - era * 146097 = doe" using assms(1) by simp
  have sum: "0 \<le> doe - doe div 1460 + doe div 36524 - doe div 146096"
  proof (cases "doe = 146096")
    case False
    then have "doe div 146096 = 0" using assms(2,3) by (simp add: div_pos_pos_trivial)
    moreover have "doe div 1460 \<le> doe" using zdiv_mono2 [of doe 1 1460] assms(2) by simp
    moreover have "0 \<le> doe div 36524" using assms(2) by (simp add: pos_imp_zdiv_nonneg_iff)
    ultimately show ?thesis by linarith
  qed simp
  have yoe: "rust_div (doe - rust_div doe 1460 + rust_div doe 36524 - rust_div doe 146096) 365 = year_of doe"
    using assms(2) sum by (simp add: rust_div_nonneg year_of_def)
  have doy: "doe - (365 * year_of doe + rust_div (year_of doe) 4 - rust_div (year_of doe) 100) = doe - year_start (year_of doe)"
    using y by (simp add: rust_div_nonneg year_start_def)
  have pos: "0 \<le> doe - year_start (year_of doe)" using y by simp
  then have mp: "0 \<le> (5 * (doe - year_start (year_of doe)) + 2) div 153" by simp
  show ?thesis
    unfolding civil_from_days_def Let_def era doe yoe doy month_day_def
    using pos mp by (simp add: rust_div_nonneg)
qed

definition in_year :: "int \<Rightarrow> int \<times> int \<times> int \<Rightarrow> int \<times> int \<times> int" where
  "in_year y = (\<lambda>(yo, m, d). (y + yo, m, d))"

lemma leap_era: "leap (y + 400 * era) = leap y"
proof -
  have "(y + 400 * era) mod 4 = y mod 4" "(y + 400 * era) mod 100 = y mod 100" "(y + 400 * era) mod 400 = y mod 400"
    using mod_mult_self2 [of y 4 "100 * era"] mod_mult_self2 [of y 100 "4 * era"] mod_mult_self2 [of y 400 era]
    by simp_all
  then show ?thesis by (simp add: leap_def)
qed

text \<open>Day \<open>doy\<close> of the March-based year \<open>y\<close> of an era.\<close>

lemma civil_at:
  assumes "0 \<le> y" "y \<le> 399" "0 \<le> doy" "doy < (if leap (y + 1) then 366 else 365)"
  shows "civil_from_days (era * 146097 + year_start y + doy - 719468) = in_year (y + era * 400) (month_day doy)"
proof -
  note r = year_start_range [OF assms(1,2)]
  have doe: "0 \<le> year_start y + doy" "year_start y + doy < 146097" "year_start y + doy < year_start (y + 1)"
    using r assms(3,4) by auto
  have "year_of (year_start y + doy) = y" using year_of_unique [OF assms(1,2)] assms(3) doe by simp
  with civil_parts [of "era * 146097 + year_start y + doy - 719468" era "year_start y + doy"] doe
  show ?thesis by (simp add: in_year_def)
qed

lemma day_parts:
  obtains era y doy where "n = era * 146097 + year_start y + doy - 719468" "0 \<le> y" "y \<le> 399" "0 \<le> doy"
    "doy < (if leap (y + 1) then 366 else 365)"
proof
  let ?era = "(n + 719468) div 146097"
  let ?doe = "(n + 719468) mod 146097"
  have doe: "0 \<le> ?doe" "?doe < 146097" by simp_all
  note y = year_of_range [OF doe]
  show "n = ?era * 146097 + year_start (year_of ?doe) + (?doe - year_start (year_of ?doe)) - 719468"
    by (simp add: minus_mod_eq_div_mult [symmetric])
  show "0 \<le> year_of ?doe" "year_of ?doe \<le> 399" "0 \<le> ?doe - year_start (year_of ?doe)" using y by simp_all
  have "?doe < year_start (year_of ?doe + 1)" using y by blast
  then show "?doe - year_start (year_of ?doe) < (if leap (year_of ?doe + 1) then 366 else 365)"
    using year_start_range [of "year_of ?doe"] y by auto
qed

lemma day_after_in_year:
  "day_after (leap (y + 1)) (month_day doy) = (yo, m, d) \<Longrightarrow> 0 \<le> doy \<Longrightarrow> doy \<le> 365 \<Longrightarrow>
     next_day (in_year y (month_day doy)) = (y + yo, m, d)"
proof -
  obtain a b c where md: "month_day doy = (a, b, c)" by (cases "month_day doy")
  then have "b = 2 \<Longrightarrow> a = 1" by (auto simp: month_day_def Let_def split: if_splits)
  moreover assume "day_after (leap (y + 1)) (month_day doy) = (yo, m, d)"
  ultimately show ?thesis
    by (auto simp: next_day_def in_year_def day_after_def month_length_def md split: if_splits)
qed

lemma civil_next: "civil_from_days (n + 1) = next_day (civil_from_days n)"
proof (rule day_parts [of n])
  fix era y doy
  assume n: "n = era * 146097 + year_start y + doy - 719468" and y: "0 \<le> y" "y \<le> 399" and doy: "0 \<le> doy"
    "doy < (if leap (y + 1) then 366 else 365)"
  have now: "civil_from_days n = in_year (y + era * 400) (month_day doy)" unfolding n by (rule civil_at [OF y doy])
  have lp: "leap (y + era * 400 + 1) = leap (y + 1)" using leap_era [of "y + 1" era] by (simp add: algebra_simps)
  show ?thesis
  proof (cases "doy + 1 < (if leap (y + 1) then 366 else 365)")
    case True
    have "civil_from_days (n + 1) = in_year (y + era * 400) (month_day (doy + 1))"
      using civil_at [OF y _ True, of era] doy(1) by (simp add: n algebra_simps)
    moreover have "day_after (leap (y + 1)) (month_day doy) = month_day (doy + 1)"
    proof (cases "doy \<le> 363")
      case True
      then have "doy \<in> set [0..363]" using doy by simp
      from bspec [OF days_in_order this] show ?thesis by (cases "leap (y + 1)") simp_all
    next
      case False
      with True doy have "doy = 364" "leap (y + 1)" by (auto split: if_splits)
      then show ?thesis using year_turns(2) by simp
    qed
    ultimately show ?thesis using day_after_in_year [of "y + era * 400" doy] doy True lp
      by (cases "month_day (doy + 1)") (auto simp: now in_year_def split: if_splits)
  next
    case False
    then have last: "doy = (if leap (y + 1) then 365 else 364)" using doy by (auto split: if_splits)
    have turn: "day_after (leap (y + 1)) (month_day doy) = (1, 3, 1)" using last year_turns by (auto split: if_splits)
    have "civil_from_days (n + 1) = (y + era * 400 + 1, 3, 1)"
    proof (cases "y = 399")
      case True
      have "leap 400" by (simp add: leap_def)
      with True last have e: "n + 1 = (era + 1) * 146097 + year_start 0 + 0 - 719468" by (simp add: n year_start_def)
      have "civil_from_days (n + 1) = in_year (0 + (era + 1) * 400) (month_day 0)"
        unfolding e by (rule civil_at) simp_all
      with True show ?thesis by (simp add: in_year_def year_turns(4))
    next
      case False
      have e: "n + 1 = era * 146097 + year_start (y + 1) + 0 - 719468"
        using last year_start_range [OF y] by (auto simp: n split: if_splits)
      have "civil_from_days (n + 1) = in_year (y + 1 + era * 400) (month_day 0)"
        unfolding e using y False by (intro civil_at) simp_all
      then show ?thesis by (simp add: in_year_def year_turns(4))
    qed
    with day_after_in_year [of "y + era * 400" doy 1 3 1] turn lp last doy show ?thesis by (simp add: now split: if_splits)
  qed
qed

lemma civil_epoch: "civil_from_days 0 = (1970, 1, 1)"
  by code_simp

lemma civil_valid: "valid_date (civil_from_days n)"
proof (rule day_parts [of n])
  fix era y doy
  assume n: "n = era * 146097 + year_start y + doy - 719468" and y: "0 \<le> y" "y \<le> 399" and doy: "0 \<le> doy"
    "doy < (if leap (y + 1) then 366 else 365)"
  obtain a b c where md: "month_day doy = (a, b, c)" by (cases "month_day doy")
  have "doy \<in> set [0..365]" using doy by (auto split: if_splits)
  from bspec [OF month_day_number this] have b: "day_number b c = doy" "1 \<le> b" "b \<le> 12" "1 \<le> c" "c \<le> month_length True b"
    by (simp_all add: md)
  have a: "a = (if b \<le> 2 then 1 else 0)" using md by (auto simp: month_day_def Let_def split: if_splits)
  have lp: "leap (y + era * 400 + 1) = leap (y + 1)" using leap_era [of "y + 1" era] by (simp add: algebra_simps)
  have "c \<le> month_length (leap (y + 1)) b"
  proof (cases "b = 2 \<and> c = 29")
    case True
    then have "doy = 365" using b(1) by (simp add: day_number_def)
    with doy(2) True show ?thesis by (simp add: month_length_def split: if_splits)
  next
    case False
    with b(5) show ?thesis by (auto simp: month_length_def split: if_splits)
  qed
  then have "c \<le> month_length (leap (y + era * 400 + a)) b" using a lp by (auto simp: month_length_def split: if_splits)
  then show ?thesis unfolding n civil_at [OF y doy] by (simp add: in_year_def md valid_date_def b)
qed

lemma number_of_month_day:
  assumes "1 \<le> m" "m \<le> 12" "1 \<le> d" "d \<le> month_length (leap y) m"
  shows "month_day (day_number m d) = (if m \<le> 2 then 1 else 0, m, d)" "0 \<le> day_number m d"
    "m \<le> 2 \<Longrightarrow> day_number m d < (if leap y then 366 else 365)" "day_number m d < (if m \<le> 2 then 366 else 365)"
proof -
  have le: "month_length (leap y) m \<le> month_length True m" "month_length True m \<le> 31" by (simp_all add: month_length_def)
  then have "m \<in> set [1..12]" "d \<in> set [1..31]" "d \<le> month_length True m" using assms by auto
  then have a: "month_day (day_number m d) = (if m \<le> 2 then 1 else 0, m, d) \<and> 0 \<le> day_number m d \<and>
      day_number m d \<le> (if m = 2 \<and> d = 29 then 365 else 364)"
    using number_month_day by blast
  then show "month_day (day_number m d) = (if m \<le> 2 then 1 else 0, m, d)" "0 \<le> day_number m d" by simp_all
  show "m \<le> 2 \<Longrightarrow> day_number m d < (if leap y then 366 else 365)" using a assms(4) by (auto simp: month_length_def split: if_splits)
  show "day_number m d < (if m \<le> 2 then 366 else 365)" using a by (auto split: if_splits)
qed

text \<open>The number \<open>days_from_civil\<close> computes before it is cut to \<open>i32\<close>.\<close>

definition civil_number :: "int \<times> int \<times> int \<Rightarrow> int" where
  "civil_number = (\<lambda>(y, m, d).
     (let shifted = (if m \<le> 2 then y - 1 else y);
          era = shifted div 400; yoe = shifted mod 400
      in era * 146097 + year_start yoe + day_number m d - 719468))"

lemma days_from_civil_number:
  assumes "1 \<le> m" "m \<le> 12" "1 \<le> d" "d \<le> 31"
  shows "days_from_civil y m d = (let n = civil_number (y, m, d) in if is_i32 n then Some n else None)"
proof -
  let ?s = "if m \<le> 2 then y - 1 else y"
  have s: "0 \<le> ?s mod 400" "?s mod 400 < 400" "?s - ?s div 400 * 400 = ?s mod 400" by (simp_all add: minus_div_mult_eq_mod)
  have mp: "rust_div (153 * (if m > 2 then m - 3 else m + 9) + 2) 5 + d - 1 = day_number m d"
    using assms by (simp add: rust_div_nonneg day_number_def)
  have ys: "?s mod 400 * 365 + rust_div (?s mod 400) 4 - rust_div (?s mod 400) 100 = year_start (?s mod 400)"
    using s(1,2) by (simp add: rust_div_nonneg year_start_def)
  have c: "\<not> (\<not> (1 \<le> m \<and> m \<le> 12) \<or> \<not> (1 \<le> d \<and> d \<le> 31))" using assms by simp
  have e: "?s div 400 * 146097 + (year_start (?s mod 400) + day_number m d) - 719468 = civil_number (y, m, d)"
    by (simp add: civil_number_def Let_def)
  show ?thesis unfolding days_from_civil_def if_not_P [OF c] Let_def s(3) mp ys e ..
qed

lemma civil_of_number:
  assumes "valid_date (y, m, d)"
  shows "civil_from_days (civil_number (y, m, d)) = (y, m, d)"
proof -
  have v: "1 \<le> m" "m \<le> 12" "1 \<le> d" "d \<le> month_length (leap y) m" using assms by (auto simp: valid_date_def)
  note num = number_of_month_day [OF v]
  let ?s = "if m \<le> 2 then y - 1 else y"
  have lp: "leap (?s mod 400 + 1) = leap (?s + 1)"
    using leap_era [of "?s mod 400 + 1" "?s div 400"] by (simp add: algebra_simps)
  have "day_number m d < (if leap (?s mod 400 + 1) then 366 else 365)"
    using num(3,4) unfolding lp by (cases "m \<le> 2") auto
  from civil_at [OF _ _ num(2) this, of "?s div 400"] num(1)
  have "civil_from_days (civil_number (y, m, d)) = in_year (?s mod 400 + ?s div 400 * 400) (if m \<le> 2 then 1 else 0, m, d)"
    unfolding civil_number_def Let_def prod.case by simp
  then show ?thesis by (simp add: in_year_def)
qed

lemma number_of_civil: "civil_number (civil_from_days n) = n"
proof (rule day_parts [of n])
  fix era y doy
  assume n: "n = era * 146097 + year_start y + doy - 719468" and y: "0 \<le> y" "y \<le> 399" and doy: "0 \<le> doy"
    "doy < (if leap (y + 1) then 366 else 365)"
  obtain a b c where md: "month_day doy = (a, b, c)" by (cases "month_day doy")
  have "doy \<in> set [0..365]" using doy by (auto split: if_splits)
  from bspec [OF month_day_number this] have b: "day_number b c = doy" by (simp add: md)
  have a: "a = (if b \<le> 2 then 1 else 0)" using md by (auto simp: month_day_def Let_def split: if_splits)
  have "(y + era * 400) div 400 = era" "(y + era * 400) mod 400 = y" using y by auto
  then have "civil_number (y + era * 400 + a, b, c) = n"
    unfolding civil_number_def Let_def prod.case using a b n by (cases "b \<le> 2") simp_all
  then show ?thesis unfolding n civil_at [OF y doy] by (simp add: in_year_def md)
qed

text \<open>
  C32: The calendar is the proleptic Gregorian one: day 0 is the first of January 1970, each day is followed by the next
  day of that calendar, over all days an \<open>i32\<close> counts, before and after the epoch. Reading a date back inverts it:
  every day is recovered from its date, and every date of the calendar that an \<open>i32\<close> can count from its day.
\<close>

theorem calendar_is_gregorian:
  "civil_from_days 0 = (1970, 1, 1) \<and>
   (\<forall>n. civil_from_days (n + 1) = next_day (civil_from_days n) \<and> valid_date (civil_from_days n) \<and>
      (case civil_from_days n of (y, m, d) \<Rightarrow> days_from_civil y m d = (if is_i32 n then Some n else None))) \<and>
   (\<forall>y m d n. valid_date (y, m, d) \<and> days_from_civil y m d = Some n \<longrightarrow> civil_from_days n = (y, m, d))"
proof (intro conjI allI impI)
  show "civil_from_days 0 = (1970, 1, 1)" by (rule civil_epoch)
  fix n
  show "civil_from_days (n + 1) = next_day (civil_from_days n)" by (rule civil_next)
  show "valid_date (civil_from_days n)" by (rule civil_valid)
  have short: "month_length l m \<le> 31" for l m by (simp add: month_length_def)
  have within: "1 \<le> m \<and> m \<le> 12 \<and> 1 \<le> d \<and> d \<le> 31" if "valid_date (y, m, d)" for y m d
    using that short [of "leap y" m] by (auto simp: valid_date_def)
  obtain y m d where c: "civil_from_days n = (y, m, d)" by (cases "civil_from_days n")
  with within [of y m d] civil_valid [of n] number_of_civil [of n] days_from_civil_number [of m d y]
  show "case civil_from_days n of (y, m, d) \<Rightarrow> days_from_civil y m d = (if is_i32 n then Some n else None)" by simp
  fix y m d
  assume "valid_date (y, m, d) \<and> days_from_civil y m d = Some n"
  with within [of y m d] days_from_civil_number [of m d y] civil_of_number [of y m d] show "civil_from_days n = (y, m, d)"
    by (simp add: Let_def split: if_splits)
qed

theorem calendar_is_gregorian_witness:
  "valid_date (2024, 2, 29) \<and> days_from_civil 2024 2 29 = Some 19782 \<and> civil_from_days 19782 = (2024, 2, 29)"
proof -
  have v: "valid_date (2024, 2, 29) \<and> days_from_civil 2024 2 29 = Some 19782" by code_simp
  then have "civil_from_days 19782 = (2024, 2, 29)" using calendar_is_gregorian by blast
  with v show ?thesis by simp
qed

text \<open>A day past the end of its month is read as one of the next month.\<close>

lemma february_31_is_read_as_march_3:
  "days_from_civil 2026 2 31 = days_from_civil 2026 3 3 \<and> \<not> valid_date (2026, 2, 31)"
  by code_simp

subsection \<open>Partition names\<close>

definition date_less :: "int \<times> int \<times> int \<Rightarrow> int \<times> int \<times> int \<Rightarrow> bool" where
  "date_less = (\<lambda>(y, m, d) (y', m', d'). y < y' \<or> y = y' \<and> (m < m' \<or> m = m' \<and> d < d'))"

lemma civil_less: "n < n' \<Longrightarrow> date_less (civil_from_days n) (civil_from_days n')"
proof (induction n' rule: int_gr_induct)
  case base
  show ?case unfolding civil_next by (auto simp: date_less_def next_day_def day_after_def split: prod.splits)
next
  case (step i)
  have "date_less (civil_from_days i) (civil_from_days (i + 1))"
    unfolding civil_next by (auto simp: date_less_def next_day_def day_after_def split: prod.splits)
  with step.IH show ?case by (auto simp: date_less_def split: prod.splits)
qed

lemma less_same_length:
  "length xs = length ys \<Longrightarrow> xs @ as < ys @ bs \<longleftrightarrow> xs < ys \<or> xs = ys \<and> as < bs" for xs ys :: string
  by (induction xs ys rule: list_induct2) auto

lemma char_less_of_char: "c < c' \<longleftrightarrow> (of_char c :: nat) < of_char c'" for c c' :: char
  by (simp add: less_char_def)

lemma digits_value_bounds:
  "\<forall>c \<in> set s. is_digit c \<Longrightarrow> \<exists>n. digits_value acc s = Some n \<and> acc * 10 ^ length s \<le> n \<and> n < (acc + 1) * 10 ^ length s"
proof (induction s arbitrary: acc)
  case (Cons c s)
  then obtain d where d: "digit_value c = Some d" "d < 10" by (auto simp: digit_value_def is_digit_def Let_def)
  obtain n where n: "digits_value (acc * 10 + d) s = Some n" "(acc * 10 + d) * 10 ^ length s \<le> n"
    "n < (acc * 10 + d + 1) * 10 ^ length s"
    using Cons by force
  have "acc * 10 * 10 ^ length s \<le> (acc * 10 + d) * 10 ^ length s" by (intro mult_right_mono) auto
  then have low: "acc * 10 ^ length (c # s) \<le> n" using n(2) by (simp only: list.size power_Suc add_0_right add_Suc_right mult.assoc)
  have "(acc * 10 + d + 1) * 10 ^ length s \<le> (acc * 10 + 10) * 10 ^ length s" using d(2) by (intro mult_right_mono) auto
  also have "\<dots> = (acc + 1) * 10 ^ length (c # s)" by (simp add: algebra_simps)
  finally have "n < (acc + 1) * 10 ^ length (c # s)" by (rule order_less_le_trans [OF n(3)])
  with low n(1) d(1) show ?case by (intro exI [of _ n]) (simp del: power_Suc length_Cons)
qed auto

lemma digits_less:
  assumes "length xs = length ys" "\<forall>c \<in> set xs. is_digit c" "\<forall>c \<in> set ys. is_digit c"
    and "digits_value acc xs = Some m" "digits_value acc ys = Some n" "m < n"
  shows "xs < ys"
  using assms
proof (induction xs ys arbitrary: acc rule: list_induct2)
  case (Cons x xs y ys)
  obtain d where d: "digit_value x = Some d" using Cons.prems(1) by (auto simp: digit_value_def is_digit_def Let_def)
  obtain e where e: "digit_value y = Some e" using Cons.prems(2) by (auto simp: digit_value_def is_digit_def Let_def)
  have val: "(of_char x :: nat) = d + 48" "(of_char y :: nat) = e + 48"
    using d e by (auto simp: digit_value_def Let_def split: if_splits)
  consider "d < e" | "d = e" | "e < d" by linarith
  then show ?case
  proof cases
    case 1
    then show ?thesis using val by (simp add: char_less_of_char)
  next
    case 2
    then have "x = y" using val by (metis of_char_eq_iff)
    then show ?thesis using Cons d e 2 by simp
  next
    case 3
    then have "acc * 10 + e + 1 \<le> acc * 10 + d" by simp
    moreover have "digits_value (acc * 10 + d) xs = Some m" "digits_value (acc * 10 + e) ys = Some n"
      using Cons.prems d e by simp_all
    moreover have "\<forall>c \<in> set xs. is_digit c" "\<forall>c \<in> set ys. is_digit c" using Cons.prems by simp_all
    ultimately have "(acc * 10 + d) * 10 ^ length xs \<le> m" "n < (acc * 10 + e + 1) * 10 ^ length xs"
      using digits_value_bounds [of xs "acc * 10 + d"] digits_value_bounds [of ys "acc * 10 + e"] Cons.hyps by auto
    moreover have "(acc * 10 + e + 1) * 10 ^ length xs \<le> (acc * 10 + d) * 10 ^ length xs"
      by (rule mult_right_mono) (use \<open>acc * 10 + e + 1 \<le> acc * 10 + d\<close> in simp_all)
    ultimately show ?thesis using Cons.prems(5) by simp
  qed
qed simp

lemma length_show_nat: "0 < w \<Longrightarrow> n < 10 ^ w \<Longrightarrow> length (show_nat n) \<le> w"
proof (induction n arbitrary: w rule: show_nat.induct)
  case (1 n)
  show ?case
  proof (cases "n < 10")
    case True
    then show ?thesis using "1.prems" by (subst show_nat.simps) simp
  next
    case False
    then obtain k where w: "w = Suc k" "0 < k" using "1.prems" by (cases w; cases "w - 1") auto
    then have "n div 10 < 10 ^ k" using "1.prems" by (auto simp: less_mult_imp_div_less mult.commute)
    with "1.IH" [OF False w(2)] False w show ?thesis by (subst show_nat.simps) simp
  qed
qed

lemma pad_int_less:
  assumes "0 \<le> x" "x < y" "y < 10 ^ w" "0 < w"
  shows "pad_int w x < pad_int w y"
proof -
  have b: "nat x < 10 ^ w" "nat y < 10 ^ w" using assms by (simp_all add: nat_less_iff)
  then have len: "length (pad_nat w (nat x)) = w" "length (pad_nat w (nat y)) = w"
    using length_show_nat [OF assms(4)] by (simp_all add: pad_nat_def)
  have "\<forall>c \<in> set (pad_nat w n). is_digit c" for n
    using show_nat_chars [of n] by (auto simp: pad_nat_def is_digit_def)
  with len digits_less [of "pad_nat w (nat x)" "pad_nat w (nat y)" 0 "nat x" "nat y"] assms
  show ?thesis by (simp add: pad_int_def digits_value_pad)
qed

lemma pad_int_length:
  assumes "0 \<le> x" "x < 10 ^ w" "0 < w"
  shows "length (pad_int w x) = w"
  using length_show_nat [OF assms(3), of "nat x"] assms by (simp add: pad_int_def pad_nat_def nat_less_iff)

text \<open>
  Over the years 0 to 9999 the names of partitions sort as the days they hold: an earlier day never has a later
  name, at any granularity, and at the granularity of days its name is strictly earlier.
\<close>

theorem partition_names_sort_as_dates:
  assumes "n < n'" "0 \<le> fst (civil_from_days n)" "fst (civil_from_days n') \<le> 9999"
  shows "partition_of a n \<le> partition_of a n' \<and> (ax_granularity a = Day \<longrightarrow> partition_of a n < partition_of a n')"
proof -
  obtain y m d where c: "civil_from_days n = (y, m, d)" by (cases "civil_from_days n")
  obtain y' m' d' where c': "civil_from_days n' = (y', m', d')" by (cases "civil_from_days n'")
  have ml: "month_length l k \<le> 31" for l k by (simp add: month_length_def)
  have v: "1 \<le> m" "m < 10 ^ 2" "1 \<le> d" "d < 10 ^ 2" "1 \<le> m'" "m' < 10 ^ 2" "1 \<le> d'" "d' < 10 ^ 2"
    using civil_valid [of n] civil_valid [of n'] ml [of "leap y" m] ml [of "leap y'" m'] by (auto simp: c c' valid_date_def)
  have less: "y < y' \<or> y = y' \<and> (m < m' \<or> m = m' \<and> d < d')" using civil_less [OF assms(1)] by (simp add: c c' date_less_def)
  then have y: "0 \<le> y" "y < 10 ^ 4" "0 \<le> y'" "y' < 10 ^ 4" using assms(2,3) by (auto simp: c c')
  have len: "length (pad_int 4 y) = length (pad_int 4 y')" "length (pad_int 2 m) = length (pad_int 2 m')"
    using pad_int_length [of _ 4] pad_int_length [of _ 2] y v by simp_all
  note lt = pad_int_less [of y y' 4] pad_int_less [of m m' 2] pad_int_less [of d d' 2]
  have day: "pad_int 4 y @ ''-'' @ pad_int 2 m @ ''-'' @ pad_int 2 d < pad_int 4 y' @ ''-'' @ pad_int 2 m' @ ''-'' @ pad_int 2 d'"
    using less lt y v len by (auto simp: less_same_length)
  moreover have "pad_int 4 y @ ''-'' @ pad_int 2 m \<le> pad_int 4 y' @ ''-'' @ pad_int 2 m'"
    using less lt y v len by (auto simp: less_same_length order_le_less)
  moreover have "pad_int 4 y \<le> pad_int 4 y'" using less lt y v by (auto simp: order_le_less)
  ultimately show ?thesis by (auto simp: partition_of_def c c' order_le_less split: granularity.split)
qed

theorem partition_names_sort_as_dates_witness:
  "partition_of ingest_date 9 < partition_of ingest_date 19782"
proof -
  have "civil_from_days 9 = (1970, 1, 10)" "civil_from_days 19782 = (2024, 2, 29)" by code_simp+
  with partition_names_sort_as_dates [of 9 19782 ingest_date] show ?thesis by (simp add: ingest_date_def)
qed

end
