(* ===== verification/Floats.thy ===== *)
theory Floats
  imports Codes
begin

text \<open>
  What the standard library compares: \<open>Ordering\<close>, and floats as their IEEE bits with the order of
  \<open>partial_cmp\<close>. No arithmetic of floats is modelled.
\<close>

datatype ordering = Less | Equal | Greater

definition cmp :: "'a::linorder \<Rightarrow> 'a \<Rightarrow> ordering" where
  "cmp a b = (if a < b then Less else if a = b then Equal else Greater)"

type_synonym f64 = u64

definition f64_is_nan :: "f64 \<Rightarrow> bool" where
  "f64_is_nan b \<longleftrightarrow> unat b mod 2 ^ 63 > 2047 * 2 ^ 52"

text \<open>Where a number stands among the numbers; the two zeroes stand together.\<close>

definition f64_key :: "f64 \<Rightarrow> int" where
  "f64_key b = (if unat b \<ge> 2 ^ 63 then - int (unat b mod 2 ^ 63) else int (unat b))"

definition f64_partial_cmp :: "f64 \<Rightarrow> f64 \<Rightarrow> ordering option" where
  "f64_partial_cmp a b =
     (if f64_is_nan a \<or> f64_is_nan b then None else Some (cmp (f64_key a) (f64_key b)))"

lemma cmp_simps [simp]:
  "cmp a b = Less \<longleftrightarrow> a < b" "cmp a b = Equal \<longleftrightarrow> a = b" "cmp a b = Greater \<longleftrightarrow> b < a"
  by (auto simp: cmp_def)

lemma cmp_eqI: "(a < b \<longleftrightarrow> c < d) \<Longrightarrow> (a = b \<longleftrightarrow> c = d) \<Longrightarrow> cmp a b = cmp c d"
  by (simp add: cmp_def)

definition f64_less :: "f64 \<Rightarrow> f64 \<Rightarrow> bool" where
  "f64_less a b \<longleftrightarrow> f64_partial_cmp a b = Some Less"

definition f64_ge :: "f64 \<Rightarrow> f64 \<Rightarrow> bool" where
  "f64_ge a b \<longleftrightarrow> f64_partial_cmp a b \<in> {Some Greater, Some Equal}"

definition F64_ZERO :: f64 where "F64_ZERO = 0"
definition F64_ONE :: f64 where "F64_ONE = 0x3FF0000000000000"
definition F64_INFINITY :: f64 where "F64_INFINITY = 0x7FF0000000000000"

text \<open>\<open>f64::min\<close> passes over a float that is no number.\<close>

definition f64_min :: "f64 \<Rightarrow> f64 \<Rightarrow> f64" where
  "f64_min a b = (if f64_is_nan a then b else if f64_is_nan b then a else if f64_key a \<le> f64_key b then a else b)"

lemma f64_less_iff: "f64_less a b \<longleftrightarrow> \<not> f64_is_nan a \<and> \<not> f64_is_nan b \<and> f64_key a < f64_key b"
  by (simp add: f64_less_def f64_partial_cmp_def)

lemma f64_min_less: "f64_less (f64_min a b) c \<longleftrightarrow> f64_less a c \<or> f64_less b c"
  by (auto simp: f64_less_iff f64_min_def)

end
