(* ===== verification/Column_Stats.thy ===== *)
theory Column_Stats
  imports Codes Floats "HOL-Library.Multiset"
begin

text \<open>
  Statistics of a column, and what is decided from them before a file is read:
  \<^verbatim>\<open>crates/sankhya-stats/src/column.rs\<close>, \<^verbatim>\<open>sketch.rs\<close>, \<^verbatim>\<open>prune.rs\<close> and
  \<^verbatim>\<open>overflow.rs\<close>. A float is its IEEE bits, compared as \<open>partial_cmp\<close> compares; the
  estimates computed from a sketch in floating point are left out.
\<close>

subsection \<open>Bounds\<close>

datatype time_unit = Second | Millisecond | Microsecond | Nanosecond

fun per_second :: "time_unit \<Rightarrow> int" where
  "per_second Second = 1"
| "per_second Millisecond = 1000"
| "per_second Microsecond = 1000000"
| "per_second Nanosecond = 1000000000"

definition nanos_each :: "time_unit \<Rightarrow> int" where
  "nanos_each u = 1000000000 div per_second u"

datatype bound =
    BInt int
  | BFloat f64
  | BBytes bytes
  | BDate int
  | BTimestamp int time_unit
  | BDecimal int int

definition seconds_and_nanos :: "int \<Rightarrow> time_unit \<Rightarrow> int \<times> int" where
  "seconds_and_nanos v u = (v div per_second u, v mod per_second u * nanos_each u)"

definition cmp_pair :: "int \<times> int \<Rightarrow> int \<times> int \<Rightarrow> ordering" where
  "cmp_pair a b = (case cmp (fst a) (fst b) of Equal \<Rightarrow> cmp (snd a) (snd b) | r \<Rightarrow> r)"

text \<open>\<open>checked_sub\<close> of two \<open>i8\<close>, \<open>checked_pow\<close> and \<open>checked_mul\<close> of \<open>i128\<close>.\<close>

definition lift_decimal :: "int \<Rightarrow> int \<Rightarrow> int \<Rightarrow> int option" where
  "lift_decimal widest v s =
     (let steps = widest - s in
      if steps > 127 then None
      else (case checked_i128 (10 ^ nat steps) of
              None \<Rightarrow> None
            | Some f \<Rightarrow> checked_i128 (v * f)))"

definition aligned :: "int \<Rightarrow> int \<Rightarrow> int \<Rightarrow> int \<Rightarrow> ordering option" where
  "aligned a sa b sb =
     (let widest = max sa sb in
      case lift_decimal widest a sa of
        None \<Rightarrow> None
      | Some x \<Rightarrow> (case lift_decimal widest b sb of None \<Rightarrow> None | Some y \<Rightarrow> Some (cmp x y)))"

text \<open>\<open>Vec<u8>\<close> is ordered lexicographically.\<close>

fun cmp_bytes :: "bytes \<Rightarrow> bytes \<Rightarrow> ordering" where
  "cmp_bytes [] [] = Equal"
| "cmp_bytes [] (y # ys) = Less"
| "cmp_bytes (x # xs) [] = Greater"
| "cmp_bytes (x # xs) (y # ys) = (case cmp x y of Equal \<Rightarrow> cmp_bytes xs ys | r \<Rightarrow> r)"

fun bound_compare :: "bound \<Rightarrow> bound \<Rightarrow> ordering option" where
  "bound_compare (BInt a) (BInt b) = Some (cmp a b)"
| "bound_compare (BFloat a) (BFloat b) = f64_partial_cmp a b"
| "bound_compare (BBytes a) (BBytes b) = Some (cmp_bytes a b)"
| "bound_compare (BDate a) (BDate b) = Some (cmp a b)"
| "bound_compare (BTimestamp a ua) (BTimestamp b ub) =
     Some (cmp_pair (seconds_and_nanos a ua) (seconds_and_nanos b ub))"
| "bound_compare (BDecimal a sa) (BDecimal b sb) = aligned a sa b sb"
| "bound_compare _ _ = None"

definition min_of :: "bound \<Rightarrow> bound \<Rightarrow> bound option" where
  "min_of a b = map_option (\<lambda>r. if r = Greater then b else a) (bound_compare a b)"

definition max_of :: "bound \<Rightarrow> bound \<Rightarrow> bound option" where
  "max_of a b = map_option (\<lambda>r. if r = Less then b else a) (bound_compare a b)"

subsection \<open>The sketch\<close>

unbundle bit_operations_syntax

definition PRECISION :: nat where "PRECISION = 12"
definition REGISTERS :: nat where "REGISTERS = 2 ^ PRECISION"

definition sketch_hash :: "bytes \<Rightarrow> u64" where
  "sketch_hash bs =
     (let h = fold (\<lambda>b h. (h XOR ucast b) * 0x00000100000001b3) bs 0xcbf29ce484222325;
          z = h + 0x9e3779b97f4a7c15;
          z = (z XOR drop_bit 30 z) * 0xbf58476d1ce4e5b9;
          z = (z XOR drop_bit 27 z) * 0x94d049bb133111eb
      in z XOR drop_bit 31 z)"

fun bit_length :: "nat \<Rightarrow> nat" where
  "bit_length n = (if n = 0 then 0 else Suc (bit_length (n div 2)))"

declare bit_length.simps [simp del]

definition leading_zeros :: "u64 \<Rightarrow> nat" where
  "leading_zeros w = 64 - bit_length (unat w)"

definition sketch_new :: "nat list" where
  "sketch_new = replicate REGISTERS 0"

definition sketch_index :: "bytes \<Rightarrow> nat" where
  "sketch_index v = unat (drop_bit (64 - PRECISION) (sketch_hash v))"

definition sketch_rank :: "bytes \<Rightarrow> nat" where
  "sketch_rank v =
     (let remaining = push_bit PRECISION (sketch_hash v) OR (push_bit PRECISION 1 - 1)
      in leading_zeros remaining + 1)"

definition sketch_add :: "bytes \<Rightarrow> nat list \<Rightarrow> nat list" where
  "sketch_add v rs =
     (let i = sketch_index v in if i < length rs then rs[i := max (rs ! i) (sketch_rank v)] else rs)"

fun sketch_merge :: "nat list \<Rightarrow> nat list \<Rightarrow> nat list" where
  "sketch_merge (m # ms) (t # ts) = (if t > m then t else m) # sketch_merge ms ts"
| "sketch_merge ms _ = ms"

definition sketch_is_empty :: "nat list \<Rightarrow> bool" where
  "sketch_is_empty rs \<longleftrightarrow> (\<forall>r \<in> set rs. r = 0)"

subsection \<open>The statistics\<close>

record column_stats =
  cs_rows :: u64
  cs_nulls :: u64
  cs_min :: "bound option"
  cs_max :: "bound option"
  cs_distinct :: "nat list"
  cs_width :: u64

definition column_stats_default :: column_stats where
  "column_stats_default =
     \<lparr>cs_rows = 0, cs_nulls = 0, cs_min = None, cs_max = None, cs_distinct = sketch_new, cs_width = 0\<rparr>"

definition has_values :: "column_stats \<Rightarrow> bool" where
  "has_values s \<longleftrightarrow> cs_rows s > cs_nulls s"

definition all_null :: "column_stats \<Rightarrow> bool" where
  "all_null s \<longleftrightarrow> cs_rows s > 0 \<and> cs_nulls s = cs_rows s"

fun is_nan_bound :: "bound \<Rightarrow> bool" where
  "is_nan_bound (BFloat f) \<longleftrightarrow> f64_is_nan f"
| "is_nan_bound _ \<longleftrightarrow> False"

definition narrow_min :: "bound \<Rightarrow> bound option \<Rightarrow> bound option" where
  "narrow_min b m =
     (case m of
        None \<Rightarrow> Some b
      | Some a \<Rightarrow> (case min_of a b of None \<Rightarrow> Some a | Some c \<Rightarrow> Some c))"

definition narrow_max :: "bound \<Rightarrow> bound option \<Rightarrow> bound option" where
  "narrow_max b m =
     (case m of
        None \<Rightarrow> Some b
      | Some a \<Rightarrow> (case max_of a b of None \<Rightarrow> Some a | Some c \<Rightarrow> Some c))"

definition observe :: "bytes option \<Rightarrow> bound option \<Rightarrow> column_stats \<Rightarrow> column_stats" where
  "observe v b s0 =
     (let s = s0\<lparr>cs_rows := word_saturating_add (cs_rows s0) 1\<rparr> in
      case v of
        None \<Rightarrow> s\<lparr>cs_nulls := word_saturating_add (cs_nulls s) 1\<rparr>
      | Some bs \<Rightarrow>
          (let s = s\<lparr>cs_width := word_saturating_add (cs_width s) (u64_of_len (length bs)),
                     cs_distinct := sketch_add bs (cs_distinct s)\<rparr> in
           case b of
             None \<Rightarrow> s
           | Some b \<Rightarrow>
               if is_nan_bound b then s
               else s\<lparr>cs_min := narrow_min b (cs_min s), cs_max := narrow_max b (cs_max s)\<rparr>))"

datatype merge_error = IncomparableBounds

definition incomparable :: "bound option \<Rightarrow> bound option \<Rightarrow> bool" where
  "incomparable a b =
     (case (a, b) of (Some a, Some b) \<Rightarrow> bound_compare a b = None | _ \<Rightarrow> False)"

definition merged_bound ::
    "(bound \<Rightarrow> bound \<Rightarrow> bound option) \<Rightarrow> bool \<Rightarrow> bool \<Rightarrow> bound option \<Rightarrow> bound option \<Rightarrow> bound option" where
  "merged_bound pick had has mine theirs =
     (if \<not> has then mine
      else if \<not> had then theirs
      else (case (mine, theirs) of (Some a, Some b) \<Rightarrow> pick a b | _ \<Rightarrow> None))"

definition merge_stats :: "column_stats \<Rightarrow> column_stats \<Rightarrow> merge_error + column_stats" where
  "merge_stats s t =
     (if incomparable (cs_min s) (cs_min t) then Inl IncomparableBounds
      else if incomparable (cs_max s) (cs_max t) then Inl IncomparableBounds
      else Inr \<lparr>cs_rows = word_saturating_add (cs_rows s) (cs_rows t),
                cs_nulls = word_saturating_add (cs_nulls s) (cs_nulls t),
                cs_min = merged_bound min_of (has_values s) (has_values t) (cs_min s) (cs_min t),
                cs_max = merged_bound max_of (has_values s) (has_values t) (cs_max s) (cs_max t),
                cs_distinct = sketch_merge (cs_distinct s) (cs_distinct t),
                cs_width = word_saturating_add (cs_width s) (cs_width t)\<rparr>)"

subsection \<open>Skipping files\<close>

datatype predicate =
    Equals bound
  | LessThan bound
  | LessOrEqual bound
  | GreaterThan bound
  | GreaterOrEqual bound
  | Between bound bound
  | IsNull
  | IsNotNull

definition compare_min :: "column_stats \<Rightarrow> bound \<Rightarrow> ordering option" where
  "compare_min s t = (case cs_min s of None \<Rightarrow> None | Some m \<Rightarrow> bound_compare m t)"

definition compare_max :: "column_stats \<Rightarrow> bound \<Rightarrow> ordering option" where
  "compare_max s t = (case cs_max s of None \<Rightarrow> None | Some m \<Rightarrow> bound_compare m t)"

definition below_min :: "column_stats \<Rightarrow> bound \<Rightarrow> bool" where
  "below_min s t \<longleftrightarrow> compare_min s t = Some Greater"

definition above_max :: "column_stats \<Rightarrow> bound \<Rightarrow> bool" where
  "above_max s t \<longleftrightarrow> compare_max s t = Some Less"

definition can_skip :: "column_stats \<Rightarrow> predicate \<Rightarrow> bool" where
  "can_skip s p =
     (if cs_rows s = 0 then True
      else (case p of
              IsNull \<Rightarrow> cs_nulls s = 0
            | IsNotNull \<Rightarrow> all_null s
            | Equals t \<Rightarrow> all_null s \<or> below_min s t \<or> above_max s t
            | LessThan t \<Rightarrow> all_null s \<or> compare_min s t \<in> {Some Greater, Some Equal}
            | LessOrEqual t \<Rightarrow> all_null s \<or> compare_min s t = Some Greater
            | GreaterThan t \<Rightarrow> all_null s \<or> compare_max s t \<in> {Some Less, Some Equal}
            | GreaterOrEqual t \<Rightarrow> all_null s \<or> compare_max s t = Some Less
            | Between low high \<Rightarrow> all_null s \<or> above_max s low \<or> below_min s high))"

subsection \<open>Sums that cannot overflow\<close>

datatype sum_risk = Safe | Possible "int option" | Unknown

definition provably_safe :: "sum_risk \<Rightarrow> bool" where
  "provably_safe r \<longleftrightarrow> r = Safe"

definition sat_i128 :: "int \<Rightarrow> int" where
  "sat_i128 x = max (- (2 ^ 127)) (min x (2 ^ 127 - 1))"

definition widest_total :: "column_stats \<Rightarrow> int \<Rightarrow> int \<Rightarrow> int" where
  "widest_total s lo hi =
     (let rows = int (unat (word_saturating_sub (cs_rows s) (cs_nulls s)))
      in max \<bar>sat_i128 (lo * rows)\<bar> \<bar>sat_i128 (hi * rows)\<bar>)"

definition integer_sum_risk :: "column_stats \<Rightarrow> sum_risk" where
  "integer_sum_risk s =
     (if word_saturating_sub (cs_rows s) (cs_nulls s) = 0 then Safe
      else (case (cs_min s, cs_max s) of
              (Some (BInt lo), Some (BInt hi)) \<Rightarrow>
                if widest_total s lo hi \<le> I64_MAX then Safe else Possible (Some (widest_total s lo hi))
            | _ \<Rightarrow> Unknown))"

fun ten_to_from :: "nat \<Rightarrow> int \<Rightarrow> int option" where
  "ten_to_from 0 v = Some v"
| "ten_to_from (Suc n) v = (case checked_i128 (v * 10) of None \<Rightarrow> None | Some w \<Rightarrow> ten_to_from n w)"

definition ten_to :: "nat \<Rightarrow> int option" where
  "ten_to n = ten_to_from n 1"

definition decimal_sum_risk :: "column_stats \<Rightarrow> nat \<Rightarrow> sum_risk" where
  "decimal_sum_risk s digits =
     (if word_saturating_sub (cs_rows s) (cs_nulls s) = 0 then Safe
      else (case (cs_min s, cs_max s) of
              (Some (BInt lo), Some (BInt hi)) \<Rightarrow>
                (case ten_to digits of
                   None \<Rightarrow> Possible None
                 | Some limit \<Rightarrow>
                     if widest_total s lo hi < limit then Safe else Possible (Some (widest_total s lo hi)))
            | _ \<Rightarrow> Unknown))"

subsection \<open>Where bounds stand\<close>

text \<open>
  The specification of the order: bounds of one kind stand in the order of a list of integers, instants in
  nanoseconds and decimals at the widest scale there is.
\<close>

fun kind_of :: "bound \<Rightarrow> nat" where
  "kind_of (BInt _) = 0"
| "kind_of (BFloat _) = 1"
| "kind_of (BBytes _) = 2"
| "kind_of (BDate _) = 3"
| "kind_of (BTimestamp _ _) = 4"
| "kind_of (BDecimal _ _) = 5"

fun standing :: "bound \<Rightarrow> int list" where
  "standing (BInt i) = [i]"
| "standing (BFloat f) = [f64_key f]"
| "standing (BBytes bs) = map uint bs"
| "standing (BDate d) = [d]"
| "standing (BTimestamp v u) = [v * nanos_each u]"
| "standing (BDecimal v s) = [v * 10 ^ nat (127 - s)]"

fun scale_fits :: "bound \<Rightarrow> bool" where
  "scale_fits (BDecimal _ s) \<longleftrightarrow> - 128 \<le> s \<and> s \<le> 127"
| "scale_fits _ \<longleftrightarrow> True"

definition same_kind :: "bound \<Rightarrow> bound \<Rightarrow> bool" where
  "same_kind a b \<longleftrightarrow> kind_of a = kind_of b \<and> \<not> is_nan_bound a \<and> \<not> is_nan_bound b"

lemma cmp_bytes_standing: "cmp_bytes xs ys = cmp (map uint xs) (map uint ys)"
proof (induction xs ys rule: cmp_bytes.induct)
  case (4 x xs y ys)
  have "cmp x y = cmp (uint x) (uint y)" by (rule cmp_eqI) (simp_all only: word_less_def word_uint_eq_iff)
  with 4 show ?case by (cases "cmp x y") (auto simp: cmp_def split: if_splits)
qed (auto simp: cmp_def)

lemma nanos_per_second: "per_second u * nanos_each u = 1000000000" "0 < nanos_each u" "0 < per_second u"
  by (cases u; simp add: nanos_each_def)+

lemma cmp_pair_standing:
  "cmp_pair (seconds_and_nanos a ua) (seconds_and_nanos b ub) = cmp (a * nanos_each ua) (b * nanos_each ub)"
proof -
  have rep: "\<exists>q r. seconds_and_nanos v u = (q, r) \<and> v * nanos_each u = q * 1000000000 + r \<and> 0 \<le> r \<and> r < 1000000000" for v u
  proof (intro exI conjI)
    show "seconds_and_nanos v u = (v div per_second u, v mod per_second u * nanos_each u)" by (simp add: seconds_and_nanos_def)
    have "v * nanos_each u = (v div per_second u * per_second u + v mod per_second u) * nanos_each u" by simp
    also have "\<dots> = v div per_second u * (per_second u * nanos_each u) + v mod per_second u * nanos_each u"
      by (simp only: distrib_right mult.assoc)
    finally show "v * nanos_each u = v div per_second u * 1000000000 + v mod per_second u * nanos_each u"
      by (simp only: nanos_per_second(1))
    show "0 \<le> v mod per_second u * nanos_each u" using nanos_per_second [of u] by simp
    have "v mod per_second u * nanos_each u < per_second u * nanos_each u"
      using nanos_per_second [of u] by (intro mult_strict_right_mono) simp_all
    then show "v mod per_second u * nanos_each u < 1000000000" by (simp only: nanos_per_second(1))
  qed
  obtain q r where 1: "seconds_and_nanos a ua = (q, r)" "a * nanos_each ua = q * 1000000000 + r" "0 \<le> r" "r < 1000000000"
    using rep by blast
  obtain q' r' where 2: "seconds_and_nanos b ub = (q', r')" "b * nanos_each ub = q' * 1000000000 + r'" "0 \<le> r'" "r' < 1000000000"
    using rep by blast
  consider "q < q'" | "q = q'" | "q' < q" by linarith
  then show ?thesis
  proof cases
    case 1
    then have "q * 1000000000 + r < q' * 1000000000 + r'" using \<open>r < 1000000000\<close> \<open>0 \<le> r'\<close> by linarith
    with 1 show ?thesis unfolding \<open>seconds_and_nanos a ua = (q, r)\<close> 2(1,2) \<open>a * nanos_each ua = q * 1000000000 + r\<close>
      by (simp add: cmp_pair_def cmp_def)
  next
    case 2
    then show ?thesis unfolding 1(1,2) \<open>seconds_and_nanos b ub = (q', r')\<close> \<open>b * nanos_each ub = q' * 1000000000 + r'\<close>
      by (simp add: cmp_pair_def cmp_def)
  next
    case 3
    then have "q' * 1000000000 + r' < q * 1000000000 + r" using \<open>r' < 1000000000\<close> \<open>0 \<le> r\<close> by linarith
    with 3 show ?thesis unfolding 1(1,2) 2(1,2) by (simp add: cmp_pair_def cmp_def)
  qed
qed

lemma lift_decimal_standing:
  assumes "lift_decimal w v s = Some x" "s \<le> w" "w \<le> 127"
  shows "v * 10 ^ nat (127 - s) = x * 10 ^ nat (127 - w)"
proof -
  have "x = v * 10 ^ nat (w - s)" using assms(1) by (auto simp: lift_decimal_def Let_def split: if_splits option.splits)
  moreover have "nat (127 - s) = nat (w - s) + nat (127 - w)" using assms(2,3) by simp
  ultimately show ?thesis by (simp add: power_add)
qed

lemma aligned_standing:
  assumes "aligned a sa b sb = Some r" "sa \<le> 127" "sb \<le> 127"
  shows "r = cmp (a * 10 ^ nat (127 - sa)) (b * 10 ^ nat (127 - sb))"
proof -
  let ?w = "max sa sb"
  obtain x y where xy: "lift_decimal ?w a sa = Some x" "lift_decimal ?w b sb = Some y" "r = cmp x y"
    using assms(1) by (auto simp: aligned_def Let_def split: option.splits)
  have "cmp x y = cmp (x * 10 ^ nat (127 - ?w)) (y * 10 ^ nat (127 - ?w))"
    by (rule cmp_eqI) simp_all
  then show ?thesis
    using lift_decimal_standing [OF xy(1)] lift_decimal_standing [OF xy(2)] assms(2,3) xy(3) by simp
qed

lemma cmp_single: "cmp a b = cmp [a] [b]"
  by (rule cmp_eqI) simp_all

lemma bound_compare_standing:
  assumes "bound_compare a b = Some r" "scale_fits a" "scale_fits b"
  shows "same_kind a b \<and> r = cmp (standing a) (standing b)"
  using assms
  by (cases "(a, b)" rule: bound_compare.cases)
    (auto simp: same_kind_def f64_partial_cmp_def cmp_single [symmetric] cmp_bytes_standing cmp_pair_standing
      aligned_standing split: if_splits)

lemma bound_compare_commute: "bound_compare a b = None \<longleftrightarrow> bound_compare b a = None"
  by (cases "(a, b)" rule: bound_compare.cases)
    (auto simp: f64_partial_cmp_def aligned_def max.commute Let_def split: option.split)

subsection \<open>What statistics say of the rows they cover\<close>

text \<open>A row's cell: null, or a value's bytes and, where its type has one, its bound.\<close>

type_synonym cell = "(bytes \<times> bound option) option"

definition cell_bounds :: "cell list \<Rightarrow> bound set" where
  "cell_bounds rows = {b. (\<exists>v. Some (v, Some b) \<in> set rows) \<and> \<not> is_nan_bound b}"

text \<open>A column: its values have bounds that compare with one another, or no value has one.\<close>

definition uniform :: "cell list \<Rightarrow> bool" where
  "uniform rows \<longleftrightarrow>
     (\<forall>a \<in> cell_bounds rows. scale_fits a \<and> (\<forall>b \<in> cell_bounds rows. bound_compare a b \<noteq> None)) \<and>
     ((\<exists>v. Some (v, None) \<in> set rows) \<longrightarrow> cell_bounds rows = {})"

definition lower_bound :: "bound set \<Rightarrow> bound \<Rightarrow> bool" where
  "lower_bound B m \<longleftrightarrow> m \<in> B \<and> (\<forall>b \<in> B. standing m \<le> standing b)"

definition upper_bound :: "bound set \<Rightarrow> bound \<Rightarrow> bool" where
  "upper_bound B m \<longleftrightarrow> m \<in> B \<and> (\<forall>b \<in> B. standing b \<le> standing m)"

definition nulls_in :: "cell list \<Rightarrow> nat" where
  "nulls_in rows = length (filter (\<lambda>r. r = None) rows)"

definition sketch_of :: "cell list \<Rightarrow> nat list" where
  "sketch_of rows = fold (\<lambda>r. case r of None \<Rightarrow> id | Some (v, _) \<Rightarrow> sketch_add v) rows sketch_new"

definition describes :: "column_stats \<Rightarrow> cell list \<Rightarrow> bool" where
  "describes s rows \<longleftrightarrow>
     cs_rows s = u64_of_len (length rows) \<and> cs_nulls s = u64_of_len (nulls_in rows) \<and>
     (\<forall>m. cs_min s = Some m \<longrightarrow> lower_bound (cell_bounds rows) m) \<and>
     (\<forall>m. cs_max s = Some m \<longrightarrow> upper_bound (cell_bounds rows) m) \<and>
     cs_distinct s = sketch_of rows"

text \<open>
  Statistics of a file are built by observing its values one by one, those of files together by merging, as
  compaction does, in any order. Observing continues no merge: a merge forgets bounds that values have.
\<close>

inductive observed :: "column_stats \<Rightarrow> cell list \<Rightarrow> bool" where
  fresh: "observed column_stats_default []"
| nulled: "observed s rows \<Longrightarrow> observed (observe None b s) (rows @ [None])"
| valued: "observed s rows \<Longrightarrow> observed (observe (Some v) b s) (rows @ [Some (v, b)])"

inductive summarises :: "column_stats \<Rightarrow> cell list \<Rightarrow> bool" where
  one_file: "observed s rows \<Longrightarrow> summarises s rows"
| merging: "summarises s rows \<Longrightarrow> summarises t rows' \<Longrightarrow> merge_stats s t = Inr u \<Longrightarrow> summarises u (rows @ rows')"

lemma cell_bounds_append [simp]: "cell_bounds (xs @ ys) = cell_bounds xs \<union> cell_bounds ys"
  by (auto simp: cell_bounds_def)

lemma cell_bounds_single [simp]:
  "cell_bounds [] = {}" "cell_bounds [None] = {}" "cell_bounds [Some (v, None)] = {}"
  "cell_bounds [Some (v, Some b)] = (if is_nan_bound b then {} else {b})"
  by (auto simp: cell_bounds_def)

lemma uniform_append: "uniform (xs @ ys) \<Longrightarrow> uniform xs \<and> uniform ys"
  by (auto simp: uniform_def)

lemma nulls_in_append [simp]: "nulls_in (xs @ ys) = nulls_in xs + nulls_in ys"
  by (simp add: nulls_in_def)

lemma nulls_in_le: "nulls_in rows \<le> length rows"
  by (simp add: nulls_in_def)

lemma nulls_all: "nulls_in rows = length rows \<longleftrightarrow> (\<forall>r \<in> set rows. r = None)"
proof
  assume all: "nulls_in rows = length rows"
  show "\<forall>r \<in> set rows. r = None"
  proof (rule ccontr)
    assume "\<not> (\<forall>r \<in> set rows. r = None)"
    then obtain r where "r \<in> set rows" "\<not> r = None" by blast
    from length_filter_less [of r rows "\<lambda>r. r = None", OF this] all show False by (simp add: nulls_in_def)
  qed
qed (simp add: nulls_in_def)

subsection \<open>Sketches merge\<close>

lemma sketch_merge_map2: "length a = length b \<Longrightarrow> sketch_merge a b = map2 max a b"
  by (induction a b rule: list_induct2) auto

lemma length_sketch_add [simp]: "length (sketch_add v rs) = length rs"
  by (simp add: sketch_add_def Let_def)

lemma length_sketch_of [simp]: "length (sketch_of rows) = REGISTERS"
proof -
  have "length (fold (\<lambda>r. case r of None \<Rightarrow> id | Some (v, _) \<Rightarrow> sketch_add v) rows s) = length s" for s
    by (induction rows arbitrary: s) (auto split: option.splits)
  then show ?thesis by (simp add: sketch_of_def sketch_new_def)
qed

lemma map2_max_update:
  "length a = length b \<Longrightarrow> i < length a \<Longrightarrow> map2 max a (b[i := max (b ! i) x]) = (map2 max a b)[i := max (map2 max a b ! i) x]"
  for a b :: "nat list"
  by (intro nth_equalityI) (auto simp: nth_list_update max.assoc)

lemma sketch_merge_add:
  "length a = length b \<Longrightarrow> sketch_merge a (sketch_add v b) = sketch_add v (sketch_merge a b)"
  using map2_max_update [of a b "sketch_index v" "sketch_rank v"]
  by (auto simp: sketch_merge_map2 sketch_add_def Let_def)

lemma sketch_merge_of: "sketch_merge (sketch_of xs) (sketch_of ys) = sketch_of (xs @ ys)"
proof (induction ys rule: rev_induct)
  case Nil
  have "sketch_merge a (replicate (length a) 0) = a" for a by (induction a) auto
  moreover have "sketch_of [] = replicate REGISTERS 0" by (simp add: sketch_of_def sketch_new_def)
  ultimately show ?case by (metis append_Nil2 length_sketch_of)
next
  case (snoc y ys)
  have step: "sketch_of (zs @ [y]) = (case y of None \<Rightarrow> sketch_of zs | Some (v, _) \<Rightarrow> sketch_add v (sketch_of zs))" for zs
    by (simp add: sketch_of_def split: option.split prod.split)
  show ?case
    unfolding append_assoc [symmetric] step using snoc.IH
    by (auto simp: sketch_merge_add split: option.split)
qed

subsection \<open>Statistics describe their rows\<close>

lemma min_of_standing:
  assumes "min_of a b = Some c" "scale_fits a" "scale_fits b"
  shows "c \<in> {a, b} \<and> standing c \<le> standing a \<and> standing c \<le> standing b"
proof -
  obtain r where r: "bound_compare a b = Some r" "c = (if r = Greater then b else a)" using assms(1) by (auto simp: min_of_def)
  have "r = cmp (standing a) (standing b)" using bound_compare_standing [OF r(1) assms(2,3)] by blast
  with r(2) show ?thesis by (simp add: not_less less_imp_le)
qed

lemma max_of_standing:
  assumes "max_of a b = Some c" "scale_fits a" "scale_fits b"
  shows "c \<in> {a, b} \<and> standing a \<le> standing c \<and> standing b \<le> standing c"
proof -
  obtain r where r: "bound_compare a b = Some r" "c = (if r = Less then b else a)" using assms(1) by (auto simp: max_of_def)
  have "r = cmp (standing a) (standing b)" using bound_compare_standing [OF r(1) assms(2,3)] by blast
  with r(2) show ?thesis by (simp add: not_less less_imp_le)
qed

text \<open>Bounds that compare: the merged or narrowed one bounds both sides.\<close>

lemma lower_union:
  assumes "lower_bound A a" "lower_bound B b" "min_of a b = Some c" "\<forall>x \<in> A \<union> B. scale_fits x"
  shows "lower_bound (A \<union> B) c"
  using min_of_standing [OF assms(3)] assms(1,2,4) unfolding lower_bound_def by (metis Un_iff insert_iff order_trans singletonD)

lemma upper_union:
  assumes "upper_bound A a" "upper_bound B b" "max_of a b = Some c" "\<forall>x \<in> A \<union> B. scale_fits x"
  shows "upper_bound (A \<union> B) c"
  using max_of_standing [OF assms(3)] assms(1,2,4) unfolding upper_bound_def by (metis Un_iff insert_iff order_trans singletonD)

lemma bound_singleton [simp]: "lower_bound {b} b" "upper_bound {b} b"
  by (simp_all add: lower_bound_def upper_bound_def)

lemma has_values_describes:
  assumes "describes s rows" "length rows < 2 ^ 64"
  shows "has_values s \<longleftrightarrow> (\<exists>r \<in> set rows. r \<noteq> None)"
proof -
  have n: "nulls_in rows < 2 ^ 64" using nulls_in_le [of rows] assms(2) by (rule le_less_trans)
  have "has_values s \<longleftrightarrow> nulls_in rows < length rows"
    using assms(1) u64_of_len_less [OF n assms(2)] by (simp add: has_values_def describes_def)
  also have "\<dots> \<longleftrightarrow> (\<exists>r \<in> set rows. r \<noteq> None)" using nulls_all [of rows] nulls_in_le [of rows] by auto
  finally show ?thesis .
qed

lemma all_null_describes:
  assumes "describes s rows" "length rows < 2 ^ 64" "all_null s"
  shows "\<forall>r \<in> set rows. r = None"
proof -
  have n: "nulls_in rows < 2 ^ 64" using nulls_in_le [of rows] assms(2) by (rule le_less_trans)
  have "nulls_in rows = length rows"
    using assms(1,3) u64_of_len_inj [OF n assms(2)] by (simp add: all_null_def describes_def)
  then show ?thesis using nulls_all by blast
qed

lemma no_values_no_bounds: "\<forall>r \<in> set rows. r = None \<Longrightarrow> cell_bounds rows = {}"
  by (auto simp: cell_bounds_def)

definition complete :: "column_stats \<Rightarrow> cell list \<Rightarrow> bool" where
  "complete s rows \<longleftrightarrow> (cs_min s = None \<longrightarrow> cell_bounds rows = {}) \<and> (cs_max s = None \<longrightarrow> cell_bounds rows = {})"

lemma narrow_min_lower:
  assumes "m = None \<longrightarrow> B = {}" "\<forall>a. m = Some a \<longrightarrow> lower_bound B a" "\<forall>y \<in> B \<union> {x}. scale_fits y"
    "\<forall>y \<in> B. bound_compare y x \<noteq> None"
  shows "\<exists>c. narrow_min x m = Some c \<and> lower_bound (B \<union> {x}) c"
proof (cases m)
  case None
  then show ?thesis using assms(1) by (simp add: narrow_min_def)
next
  case (Some a)
  then have a: "lower_bound B a" using assms(2) by blast
  then have "a \<in> B" by (simp add: lower_bound_def)
  with assms(4) obtain c where c: "min_of a x = Some c" by (auto simp: min_of_def)
  with lower_union [OF a bound_singleton(1) c assms(3)] Some show ?thesis by (simp add: narrow_min_def)
qed

lemma narrow_max_upper:
  assumes "m = None \<longrightarrow> B = {}" "\<forall>a. m = Some a \<longrightarrow> upper_bound B a" "\<forall>y \<in> B \<union> {x}. scale_fits y"
    "\<forall>y \<in> B. bound_compare y x \<noteq> None"
  shows "\<exists>c. narrow_max x m = Some c \<and> upper_bound (B \<union> {x}) c"
proof (cases m)
  case None
  then show ?thesis using assms(1) by (simp add: narrow_max_def)
next
  case (Some a)
  then have a: "upper_bound B a" using assms(2) by blast
  then have "a \<in> B" by (simp add: upper_bound_def)
  with assms(4) obtain c where c: "max_of a x = Some c" by (auto simp: max_of_def)
  with upper_union [OF a bound_singleton(2) c assms(3)] Some show ?thesis by (simp add: narrow_max_def)
qed

lemma observe_value:
  assumes "describes s rows" "complete s rows" "uniform (rows @ [Some (v, b)])"
  shows "describes (observe (Some v) b s) (rows @ [Some (v, b)]) \<and> complete (observe (Some v) b s) (rows @ [Some (v, b)])"
proof -
  let ?s = "observe (Some v) b s"
  have counts: "cs_rows ?s = u64_of_len (length (rows @ [Some (v, b)]))" "cs_nulls ?s = u64_of_len (nulls_in (rows @ [Some (v, b)]))"
    "cs_distinct ?s = sketch_of (rows @ [Some (v, b)])"
    using assms(1) by (auto simp: describes_def observe_def Let_def saturating_Suc sketch_of_def nulls_in_def split: option.split)
  show ?thesis
  proof (cases "\<exists>x. b = Some x \<and> \<not> is_nan_bound x")
    case False
    then have "cell_bounds (rows @ [Some (v, b)]) = cell_bounds rows" by (cases b) auto
    moreover have "cs_min ?s = cs_min s" "cs_max ?s = cs_max s" using False by (auto simp: observe_def Let_def split: option.split)
    ultimately show ?thesis using assms(1,2) counts
      unfolding describes_def complete_def by (simp del: cell_bounds_append)
  next
    case True
    then obtain x where x: "b = Some x" "\<not> is_nan_bound x" by blast
    have all: "cell_bounds (rows @ [Some (v, b)]) = cell_bounds rows \<union> {x}" using x by simp
    have u: "\<forall>y \<in> cell_bounds rows \<union> {x}. scale_fits y" "\<forall>y \<in> cell_bounds rows. bound_compare y x \<noteq> None"
      using assms(3) unfolding uniform_def all by blast+
    have bounds: "cs_min ?s = narrow_min x (cs_min s)" "cs_max ?s = narrow_max x (cs_max s)"
      using x by (simp_all add: observe_def Let_def)
    have "\<exists>c. cs_min ?s = Some c \<and> lower_bound (cell_bounds (rows @ [Some (v, b)])) c"
      unfolding all bounds using assms(1,2) by (intro narrow_min_lower u) (simp_all add: describes_def complete_def)
    moreover have "\<exists>c. cs_max ?s = Some c \<and> upper_bound (cell_bounds (rows @ [Some (v, b)])) c"
      unfolding all bounds using assms(1,2) by (intro narrow_max_upper u) (simp_all add: describes_def complete_def)
    ultimately show ?thesis using counts by (auto simp: describes_def complete_def)
  qed
qed

lemma observed_describes: "observed s rows \<Longrightarrow> uniform rows \<Longrightarrow> describes s rows \<and> complete s rows"
proof (induction rule: observed.induct)
  case fresh
  then show ?case
    by (simp add: describes_def complete_def column_stats_default_def nulls_in_def sketch_of_def)
next
  case (nulled s rows b)
  with uniform_append [of rows "[None]"] have d: "describes s rows" "complete s rows" by blast+
  have "observe None b s = s\<lparr>cs_rows := word_saturating_add (cs_rows s) 1, cs_nulls := word_saturating_add (cs_nulls s) 1\<rparr>"
    by (simp add: observe_def)
  with d show ?case
    by (simp add: describes_def complete_def saturating_Suc nulls_in_def sketch_of_def)
next
  case (valued s rows v b)
  with uniform_append [of rows "[Some (v, b)]"] observe_value show ?case by blast
qed

lemma merged_lower:
  assumes "merged_bound min_of had has a b = Some m" "\<not> had \<Longrightarrow> A = {}" "\<not> has \<Longrightarrow> B = {}"
    "\<And>x. a = Some x \<Longrightarrow> lower_bound A x" "\<And>x. b = Some x \<Longrightarrow> lower_bound B x" "\<forall>x \<in> A \<union> B. scale_fits x"
  shows "lower_bound (A \<union> B) m"
proof (cases "had \<and> has")
  case True
  then obtain x y where "a = Some x" "b = Some y" "min_of x y = Some m"
    using assms(1) by (auto simp: merged_bound_def split: option.splits)
  then show ?thesis using lower_union assms(4-6) by blast
next
  case False
  then show ?thesis using assms(1-5) by (cases "has") (auto simp: merged_bound_def)
qed

lemma merged_upper:
  assumes "merged_bound max_of had has a b = Some m" "\<not> had \<Longrightarrow> A = {}" "\<not> has \<Longrightarrow> B = {}"
    "\<And>x. a = Some x \<Longrightarrow> upper_bound A x" "\<And>x. b = Some x \<Longrightarrow> upper_bound B x" "\<forall>x \<in> A \<union> B. scale_fits x"
  shows "upper_bound (A \<union> B) m"
proof (cases "had \<and> has")
  case True
  then obtain x y where "a = Some x" "b = Some y" "max_of x y = Some m"
    using assms(1) by (auto simp: merged_bound_def split: option.splits)
  then show ?thesis using upper_union assms(4-6) by blast
next
  case False
  then show ?thesis using assms(1-5) by (cases "has") (auto simp: merged_bound_def)
qed

lemma merge_describes:
  assumes "merge_stats s t = Inr u" "describes s rows" "describes t rows'" "uniform (rows @ rows')" "length (rows @ rows') < 2 ^ 64"
  shows "describes u (rows @ rows')"
proof -
  have "length rows < 2 ^ 64" "length rows' < 2 ^ 64" using assms(5) by auto
  note has = has_values_describes [OF assms(2) this(1)] has_values_describes [OF assms(3) this(2)]
  have fit: "\<forall>x \<in> cell_bounds rows \<union> cell_bounds rows'. scale_fits x"
    using assms(4) by (auto simp: uniform_def)
  have none: "\<not> has_values s \<Longrightarrow> cell_bounds rows = {}" "\<not> has_values t \<Longrightarrow> cell_bounds rows' = {}"
    using has no_values_no_bounds by blast+
  have u: "u = \<lparr>cs_rows = word_saturating_add (cs_rows s) (cs_rows t), cs_nulls = word_saturating_add (cs_nulls s) (cs_nulls t),
      cs_min = merged_bound min_of (has_values s) (has_values t) (cs_min s) (cs_min t),
      cs_max = merged_bound max_of (has_values s) (has_values t) (cs_max s) (cs_max t),
      cs_distinct = sketch_merge (cs_distinct s) (cs_distinct t), cs_width = word_saturating_add (cs_width s) (cs_width t)\<rparr>"
    using assms(1) by (auto simp: merge_stats_def split: if_splits)
  have "lower_bound (cell_bounds rows \<union> cell_bounds rows') m" if "cs_min u = Some m" for m
    using that none assms(2,3) fit unfolding u by (intro merged_lower [where a = "cs_min s" and b = "cs_min t"]) (simp_all add: describes_def)
  moreover have "upper_bound (cell_bounds rows \<union> cell_bounds rows') m" if "cs_max u = Some m" for m
    using that none assms(2,3) fit unfolding u by (intro merged_upper [where a = "cs_max s" and b = "cs_max t"]) (simp_all add: describes_def)
  ultimately show ?thesis
    using assms(2,3) unfolding describes_def by (simp add: u saturating_lengths sketch_merge_of)
qed

lemma summarises_describes: "summarises s rows \<Longrightarrow> uniform rows \<Longrightarrow> length rows < 2 ^ 64 \<Longrightarrow> describes s rows"
proof (induction rule: summarises.induct)
  case (one_file s rows)
  then show ?case using observed_describes by blast
next
  case (merging s rows t rows' u)
  with uniform_append [of rows rows'] merge_describes [OF merging(3)] show ?case by simp
qed

subsection \<open>No row is hidden\<close>

text \<open>
  What a predicate means of a cell. A value whose bound is not known may satisfy anything but being null; a float
  that is no number compares with nothing.
\<close>

fun value_satisfies :: "predicate \<Rightarrow> bound \<Rightarrow> bool" where
  "value_satisfies (Equals t) v \<longleftrightarrow> same_kind v t \<and> standing v = standing t"
| "value_satisfies (LessThan t) v \<longleftrightarrow> same_kind v t \<and> standing v < standing t"
| "value_satisfies (LessOrEqual t) v \<longleftrightarrow> same_kind v t \<and> standing v \<le> standing t"
| "value_satisfies (GreaterThan t) v \<longleftrightarrow> same_kind v t \<and> standing t < standing v"
| "value_satisfies (GreaterOrEqual t) v \<longleftrightarrow> same_kind v t \<and> standing t \<le> standing v"
| "value_satisfies (Between low high) v \<longleftrightarrow>
     same_kind v low \<and> same_kind v high \<and> standing low \<le> standing v \<and> standing v \<le> standing high"
| "value_satisfies IsNull v \<longleftrightarrow> False"
| "value_satisfies IsNotNull v \<longleftrightarrow> True"

definition cell_satisfies :: "predicate \<Rightarrow> cell \<Rightarrow> bool" where
  "cell_satisfies p c \<longleftrightarrow>
     (case c of
        None \<Rightarrow> p = IsNull
      | Some (_, None) \<Rightarrow> p \<noteq> IsNull
      | Some (_, Some v) \<Rightarrow> value_satisfies p v)"

fun literals :: "predicate \<Rightarrow> bound list" where
  "literals (Equals t) = [t]"
| "literals (LessThan t) = [t]"
| "literals (LessOrEqual t) = [t]"
| "literals (GreaterThan t) = [t]"
| "literals (GreaterOrEqual t) = [t]"
| "literals (Between low high) = [low, high]"
| "literals IsNull = []"
| "literals IsNotNull = []"

lemma min_standing:
  assumes "describes s rows" "uniform rows" "compare_min s t = Some r" "scale_fits t" "v \<in> cell_bounds rows"
  shows "\<exists>m. r = cmp (standing m) (standing t) \<and> standing m \<le> standing v"
proof -
  obtain m where m: "cs_min s = Some m" "bound_compare m t = Some r"
    using assms(3) by (auto simp: compare_min_def split: option.splits)
  then have "lower_bound (cell_bounds rows) m" using assms(1) by (simp add: describes_def)
  then have "standing m \<le> standing v" "scale_fits m" using assms(2,5) by (auto simp: lower_bound_def uniform_def)
  with bound_compare_standing [OF m(2)] assms(4) show ?thesis by blast
qed

lemma max_standing:
  assumes "describes s rows" "uniform rows" "compare_max s t = Some r" "scale_fits t" "v \<in> cell_bounds rows"
  shows "\<exists>m. r = cmp (standing m) (standing t) \<and> standing v \<le> standing m"
proof -
  obtain m where m: "cs_max s = Some m" "bound_compare m t = Some r"
    using assms(3) by (auto simp: compare_max_def split: option.splits)
  then have "upper_bound (cell_bounds rows) m" using assms(1) by (simp add: describes_def)
  then have "standing v \<le> standing m" "scale_fits m" using assms(2,5) by (auto simp: upper_bound_def uniform_def)
  with bound_compare_standing [OF m(2)] assms(4) show ?thesis by blast
qed

lemma unbounded_compares_nothing:
  assumes "describes s rows" "uniform rows" "Some (v, None) \<in> set rows"
  shows "cs_min s = None" "cs_max s = None"
proof -
  have "cell_bounds rows = {}" using assms(2,3) by (auto simp: uniform_def)
  then have "cs_min s \<noteq> Some m" "cs_max s \<noteq> Some m" for m
    using assms(1) by (auto simp: describes_def lower_bound_def upper_bound_def)
  then show "cs_min s = None" "cs_max s = None" by (metis not_Some_eq)+
qed

lemma can_skip_sound:
  assumes d: "describes s rows" and u: "uniform rows" and len: "length rows < 2 ^ 64"
    and fit: "\<forall>t \<in> set (literals p). scale_fits t" and skip: "can_skip s p" and c: "c \<in> set rows"
  shows "\<not> cell_satisfies p c"
proof -
  have "length rows \<noteq> 0" using c by auto
  then have rows: "cs_rows s \<noteq> 0" using d u64_of_len_inj [OF len, of 0] by (simp add: describes_def)
  show ?thesis
  proof (cases c)
    case None
    have "nulls_in rows \<noteq> 0" using c None by (auto simp: nulls_in_def filter_empty_conv)
    moreover have "nulls_in rows < 2 ^ 64" using nulls_in_le [of rows] len by (rule le_less_trans)
    ultimately have "cs_nulls s \<noteq> 0" using d u64_of_len_inj [of "nulls_in rows" 0] by (simp add: describes_def)
    then show ?thesis using skip rows None by (auto simp: can_skip_def cell_satisfies_def)
  next
    case (Some x)
    have present: "\<not> all_null s" using all_null_describes [OF d len] c Some by auto
    obtain v b where x: "x = (v, b)" by (cases x)
    show ?thesis
    proof (cases b)
      case None
      then have "Some (v, None) \<in> set rows" using c Some x by simp
      then have "cs_min s = None" "cs_max s = None" using unbounded_compares_nothing [OF d u] by blast+
      then show ?thesis using skip rows present Some x None
        by (cases p) (simp_all add: can_skip_def cell_satisfies_def below_min_def above_max_def compare_min_def compare_max_def)
    next
      case (Some w)
      show ?thesis
      proof (cases "is_nan_bound w")
        case True
        then show ?thesis using skip rows present \<open>c = Some x\<close> x Some
          by (cases p) (auto simp: can_skip_def cell_satisfies_def same_kind_def)
      next
        case False
        then have w: "w \<in> cell_bounds rows" using c \<open>c = Some x\<close> x Some by (auto simp: cell_bounds_def)
        note lo = min_standing [OF d u _ _ w] and hi = max_standing [OF d u _ _ w]
        show ?thesis using skip rows present \<open>c = Some x\<close> x Some fit
          by (cases p)
            (auto simp: can_skip_def cell_satisfies_def below_min_def above_max_def dest!: lo hi simp: cmp_def split: if_splits)
      qed
    qed
  qed
qed


subsection \<open>Safe sums\<close>

definition int_of_cell :: "cell \<Rightarrow> int option" where
  "int_of_cell c = (case c of Some (_, Some (BInt i)) \<Rightarrow> Some i | _ \<Rightarrow> None)"

definition present_ints :: "cell list \<Rightarrow> int list" where
  "present_ints rows = List.map_filter int_of_cell rows"

lemma int_of_cell_Some: "int_of_cell c = Some x \<longleftrightarrow> (\<exists>v. c = Some (v, Some (BInt x)))"
  by (auto simp: int_of_cell_def split: option.splits bound.splits)

lemma present_ints_count: "length (present_ints rows) + nulls_in rows \<le> length rows"
  by (induction rows) (auto simp: present_ints_def nulls_in_def map_filter_simps int_of_cell_def split: option.splits)

lemma sum_list_bounded:
  "\<forall>x \<in> set xs. lo \<le> x \<and> x \<le> hi \<Longrightarrow> length xs \<le> n \<Longrightarrow> \<bar>sum_list xs\<bar> \<le> max \<bar>lo * int n\<bar> \<bar>hi * int n\<bar>" for lo hi :: int
proof -
  assume b: "\<forall>x \<in> set xs. lo \<le> x \<and> x \<le> hi" and n: "length xs \<le> n"
  have "\<bar>sum_list xs\<bar> \<le> int (length xs) * max \<bar>lo\<bar> \<bar>hi\<bar>"
    using b
  proof (induction xs)
    case (Cons a xs)
    then have "\<bar>a\<bar> \<le> max \<bar>lo\<bar> \<bar>hi\<bar>" by auto
    moreover have "\<bar>sum_list xs\<bar> \<le> int (length xs) * max \<bar>lo\<bar> \<bar>hi\<bar>" using Cons by simp
    ultimately have "\<bar>a + sum_list xs\<bar> \<le> max \<bar>lo\<bar> \<bar>hi\<bar> + int (length xs) * max \<bar>lo\<bar> \<bar>hi\<bar>" by linarith
    then show ?case by (simp add: distrib_right)
  qed simp
  also have "\<dots> \<le> int n * max \<bar>lo\<bar> \<bar>hi\<bar>" using n by (intro mult_right_mono) auto
  also have "\<dots> = max \<bar>lo * int n\<bar> \<bar>hi * int n\<bar>" by (simp add: abs_mult max_mult_distrib_left mult.commute [of _ "int n"])
  finally show ?thesis .
qed

lemma sat_i128_id: "\<bar>x\<bar> \<le> 2 ^ 127 - 1 \<Longrightarrow> sat_i128 x = x"
  unfolding sat_i128_def abs_le_iff by simp

lemma widest_total_bounds:
  assumes "describes s rows" "uniform rows" "length rows < 2 ^ 64" "cs_min s = Some (BInt lo)" "cs_max s = Some (BInt hi)"
    "is_i64 lo" "is_i64 hi" "mset xs \<subseteq># mset (present_ints rows)"
  shows "\<bar>sum_list xs\<bar> \<le> widest_total s lo hi"
proof -
  have "nulls_in rows < 2 ^ 64" using nulls_in_le [of rows] assms(3) by (rule le_less_trans)
  then have "unat (word_saturating_sub (cs_rows s) (cs_nulls s)) = length rows - nulls_in rows"
    using assms(1,3) unfolding describes_def unat_saturating_sub by (simp add: unat_u64_of_len)
  moreover define n where "n = length rows - nulls_in rows"
  ultimately have n: "unat (word_saturating_sub (cs_rows s) (cs_nulls s)) = n" by simp
  have "set xs \<subseteq> set (present_ints rows)" using assms(8) by (metis set_mset_mono set_mset_mset)
  moreover have "lo \<le> x \<and> x \<le> hi" if "x \<in> set (present_ints rows)" for x
  proof -
    obtain c where "c \<in> set rows" "int_of_cell c = Some x"
      using \<open>x \<in> set (present_ints rows)\<close> by (auto simp: present_ints_def set_map_filter)
    then have "BInt x \<in> cell_bounds rows" using int_of_cell_Some by (fastforce simp: cell_bounds_def)
    moreover have "lower_bound (cell_bounds rows) (BInt lo)" "upper_bound (cell_bounds rows) (BInt hi)"
      using assms(1,4,5) by (simp_all add: describes_def)
    ultimately show ?thesis by (fastforce simp: lower_bound_def upper_bound_def)
  qed
  moreover have "length xs \<le> n"
    using size_mset_mono [OF assms(8)] present_ints_count [of rows] by (simp add: n_def)
  ultimately have "\<bar>sum_list xs\<bar> \<le> max \<bar>lo * int n\<bar> \<bar>hi * int n\<bar>" by (intro sum_list_bounded) auto
  moreover have "n < 2 ^ 64" using assms(3) by (simp add: n_def)
  then have "\<bar>k * int n\<bar> \<le> 2 ^ 127 - 1" if "is_i64 k" for k
  proof -
    have "\<bar>k\<bar> * int n \<le> 2 ^ 63 * (2 ^ 64 - 1)" using that \<open>n < 2 ^ 64\<close> by (intro mult_mono) (auto simp: i64_defs)
    then show ?thesis by (simp add: abs_mult)
  qed
  then have "sat_i128 (k * int n) = k * int n" if "is_i64 k" for k
    using that by (intro sat_i128_id) blast
  ultimately show ?thesis using assms(6,7) by (simp add: widest_total_def n Let_def)
qed

lemma bounds_are_present:
  assumes "describes s rows" "cs_min s = Some (BInt m) \<or> cs_max s = Some (BInt m)"
  shows "m \<in> set (present_ints rows)"
proof -
  have "BInt m \<in> cell_bounds rows" using assms by (auto simp: describes_def lower_bound_def upper_bound_def)
  then obtain v where "Some (v, Some (BInt m)) \<in> set rows" by (auto simp: cell_bounds_def)
  then show ?thesis by (force simp: present_ints_def set_map_filter int_of_cell_Some)
qed

lemma nothing_present:
  assumes "describes s rows" "length rows < 2 ^ 64" "word_saturating_sub (cs_rows s) (cs_nulls s) = 0"
    "mset xs \<subseteq># mset (present_ints rows)"
  shows "xs = []"
proof -
  have "nulls_in rows < 2 ^ 64" using nulls_in_le [of rows] assms(2) by (rule le_less_trans)
  then have "length rows - nulls_in rows = 0"
    using assms(1-3) unat_saturating_sub [of "cs_rows s" "cs_nulls s"] unfolding describes_def by (simp add: unat_u64_of_len)
  moreover have "length xs \<le> length (present_ints rows)" using size_mset_mono [OF assms(4)] by simp
  ultimately have "length xs = 0" using present_ints_count [of rows] by linarith
  then show ?thesis by simp
qed

lemma ten_to_from_power: "ten_to_from n v = Some w \<Longrightarrow> w = v * 10 ^ n"
  by (induction n v arbitrary: w rule: ten_to_from.induct) (auto split: option.splits if_splits)

lemma ten_to_power: "ten_to n = Some w \<Longrightarrow> w = 10 ^ n"
  unfolding ten_to_def by (drule ten_to_from_power) simp

text \<open>
  Where the statistics of an integer column, built and merged from its values, call a sum safe, every sum of any
  of those values taken in any order stays within 64 bits; where they call a decimal sum safe, it has no more digits
  than the result type holds.
\<close>

theorem safe_sums_cannot_overflow:
  assumes "summarises s rows" "uniform rows" "length rows < 2 ^ 64"
    "\<forall>x \<in> set (present_ints rows). is_i64 x" "mset xs \<subseteq># mset (present_ints rows)"
  shows "(provably_safe (integer_sum_risk s) \<longrightarrow> is_i64 (sum_list xs)) \<and>
    (provably_safe (decimal_sum_risk s digits) \<longrightarrow> \<bar>sum_list xs\<bar> < 10 ^ digits)"
proof -
  have d: "describes s rows" by (rule summarises_describes [OF assms(1-3)])
  note bounds = widest_total_bounds [OF d assms(2,3) _ _ _ _ assms(5)]
  have cells: "is_i64 m" if "cs_min s = Some (BInt m) \<or> cs_max s = Some (BInt m)" for m
    using that bounds_are_present [OF d] assms(4) by blast
  show ?thesis
  proof (cases "word_saturating_sub (cs_rows s) (cs_nulls s) = 0")
    case True
    then have "sum_list xs = 0" using nothing_present [OF d assms(3) True assms(5)] by simp
    then show ?thesis by (simp add: i64_defs)
  next
    case False
    show ?thesis
    proof (intro conjI impI)
      assume "provably_safe (integer_sum_risk s)"
      then obtain lo hi where "cs_min s = Some (BInt lo)" "cs_max s = Some (BInt hi)" "widest_total s lo hi \<le> I64_MAX"
        using False by (auto simp: provably_safe_def integer_sum_risk_def split: option.splits bound.splits if_splits)
      with bounds [of lo hi] cells show "is_i64 (sum_list xs)" by (auto simp: i64_defs)
    next
      assume "provably_safe (decimal_sum_risk s digits)"
      then obtain lo hi limit where "cs_min s = Some (BInt lo)" "cs_max s = Some (BInt hi)" "ten_to digits = Some limit"
          "widest_total s lo hi < limit"
        using False by (auto simp: provably_safe_def decimal_sum_risk_def split: option.splits bound.splits if_splits)
      with bounds [of lo hi] cells ten_to_power show "\<bar>sum_list xs\<bar> < 10 ^ digits" by fastforce
    qed
  qed
qed

definition sample_cells :: "cell list" where
  "sample_cells = [Some ([1], Some (BInt 5)), None, Some ([2], Some (BInt 9))]"

definition sample_stats :: column_stats where
  "sample_stats =
     observe (Some [2]) (Some (BInt 9)) (observe None None (observe (Some [1]) (Some (BInt 5)) column_stats_default))"

lemma sample_summarises: "summarises sample_stats sample_cells"
  unfolding sample_stats_def sample_cells_def
  by (rule one_file)
    (use valued [OF nulled [OF valued [OF fresh]]] in \<open>simp add: numeral_eq_Suc\<close>)

lemma sample_uniform: "uniform sample_cells"
  by (auto simp: uniform_def sample_cells_def cell_bounds_def)

lemma sample_bounds:
  "cs_rows sample_stats = 3" "cs_nulls sample_stats = 1" "cs_min sample_stats = Some (BInt 5)"
  "cs_max sample_stats = Some (BInt 9)"
  by (simp_all add: sample_stats_def observe_def column_stats_default_def narrow_min_def narrow_max_def min_of_def
      max_of_def word_saturating_add_def cmp_def)


theorem safe_sums_cannot_overflow_witness:
  "provably_safe (integer_sum_risk sample_stats) \<and> is_i64 (sum_list [9, 5]) \<and>
   provably_safe (decimal_sum_risk sample_stats 2) \<and> \<bar>sum_list [9, 5]\<bar> < (10::int) ^ 2"
proof -
  have rest: "word_saturating_sub (cs_rows sample_stats) (cs_nulls sample_stats) = 2"
    by (simp add: sample_bounds word_saturating_sub_def)
  then have total: "widest_total sample_stats 5 9 = 18" by (simp add: widest_total_def sat_i128_def)
  have "ten_to 2 = Some 100" by (simp add: ten_to_def numeral_eq_Suc checked_i128_def is_i128_def)
  with rest total have "provably_safe (integer_sum_risk sample_stats)" "provably_safe (decimal_sum_risk sample_stats 2)"
    by (simp_all add: provably_safe_def integer_sum_risk_def decimal_sum_risk_def sample_bounds i64_defs)
  moreover have "present_ints sample_cells = [5, 9]"
    by (simp add: present_ints_def sample_cells_def map_filter_simps int_of_cell_def)
  moreover have "length sample_cells < 2 ^ 64" by (simp add: sample_cells_def)
  ultimately show ?thesis
    using safe_sums_cannot_overflow [OF sample_summarises sample_uniform, of "[9, 5]" 2] by (simp add: i64_defs)
qed

end
