(* ===== verification/Graph_Csr.thy ===== *)
theory Graph_Csr
  imports Floats "HOL-Library.Multiset"
begin

text \<open>
  The compressed adjacency a graph query reads: \<^verbatim>\<open>crates/sankhya-graph-algo/src/csr.rs\<close> and
  \<^verbatim>\<open>ids.rs\<close>. Building is the counting sort of the code, array by array; the specification of the result
  is a stable sort of the edges of each vertex.
\<close>

subsection \<open>Identifiers\<close>

type_synonym u16 = "16 word"
type_synonym vertex_id = u32
type_synonym edge_type = u16

definition vindex :: "vertex_id \<Rightarrow> nat" where
  "vindex v = unat v"

text \<open>A mask is its sorted list of permitted types.\<close>

type_synonym edge_mask = "edge_type list"

definition mask_of :: "edge_type list \<Rightarrow> edge_mask" where
  "mask_of ts = remdups_adj (sort ts)"

definition mask_all :: "u16 \<Rightarrow> edge_mask" where
  "mask_all n = map of_nat [0..<unat n]"

definition mask_permits :: "edge_mask \<Rightarrow> edge_type \<Rightarrow> bool" where
  "mask_permits m t \<longleftrightarrow> t \<in> set m"

record validity =
  val_from :: i64
  val_until :: i64

definition validity_from :: "i64 \<Rightarrow> validity" where
  "validity_from t = \<lparr>val_from = t, val_until = I64_MAX\<rparr>"

definition validity_always :: validity where
  "validity_always = \<lparr>val_from = I64_MIN, val_until = I64_MAX\<rparr>"

definition validity_contains :: "validity \<Rightarrow> i64 \<Rightarrow> bool" where
  "validity_contains v t \<longleftrightarrow> val_from v \<le> t \<and> t < val_until v"

definition validity_overlaps :: "validity \<Rightarrow> i64 \<Rightarrow> i64 \<Rightarrow> bool" where
  "validity_overlaps v a b \<longleftrightarrow> val_from v < b \<and> a < val_until v"

record edge =
  e_source :: vertex_id
  e_target :: vertex_id
  e_type :: edge_type
  e_validity :: validity
  e_weight :: f64

record arc =
  arc_target :: vertex_id
  arc_validity :: validity
  arc_weight :: f64

subsection \<open>Segments\<close>

record segment =
  sg_offsets :: "u32 list"
  sg_targets :: "vertex_id list"
  sg_validity :: "validity list"
  sg_weights :: "f64 list"

text \<open>\<open>get(i).copied().unwrap_or(d)\<close>.\<close>

definition get_or :: "'a \<Rightarrow> 'a list \<Rightarrow> nat \<Rightarrow> 'a" where
  "get_or d xs i = (if i < length xs then xs ! i else d)"

text \<open>\<open>if let Some(slot) = xs.get_mut(i)\<close>.\<close>

definition put :: "nat \<Rightarrow> 'a \<Rightarrow> 'a list \<Rightarrow> 'a list" where
  "put i x xs = (if i < length xs then xs[i := x] else xs)"

definition segment_run :: "segment \<Rightarrow> vertex_id \<Rightarrow> nat \<times> nat" where
  "segment_run s v =
     (let start = unat (get_or 0 (sg_offsets s) (vindex v));
          stop = unat (get_or 0 (sg_offsets s) (usize_saturating_add (vindex v) 1))
      in if stop < start \<or> stop > length (sg_targets s) then (0, 0) else (start, stop))"

definition sub_slice :: "'a list \<Rightarrow> nat \<times> nat \<Rightarrow> 'a list" where
  "sub_slice xs r = (if fst r \<le> snd r \<and> snd r \<le> length xs then drop (fst r) (take (snd r) xs) else [])"

record neighbours =
  nb_targets :: "vertex_id list"
  nb_validity :: "validity list"
  nb_weights :: "f64 list"

definition nb_empty :: neighbours where
  "nb_empty = \<lparr>nb_targets = [], nb_validity = [], nb_weights = []\<rparr>"

record adjacency =
  ad_vertex_count :: nat
  ad_min_weight :: f64
  ad_outgoing :: "segment list"
  ad_incoming :: "segment list"

definition slice_of :: "segment list \<Rightarrow> vertex_id \<Rightarrow> edge_type \<Rightarrow> neighbours" where
  "slice_of segs v t =
     (if unat t < length segs then
        let s = segs ! unat t; r = segment_run s v in
        \<lparr>nb_targets = sub_slice (sg_targets s) r, nb_validity = sub_slice (sg_validity s) r,
         nb_weights = sub_slice (sg_weights s) r\<rparr>
      else nb_empty)"

definition out_edges :: "adjacency \<Rightarrow> vertex_id \<Rightarrow> edge_type \<Rightarrow> neighbours" where
  "out_edges g v t = slice_of (ad_outgoing g) v t"

definition in_edges :: "adjacency \<Rightarrow> vertex_id \<Rightarrow> edge_type \<Rightarrow> neighbours" where
  "in_edges g v t = slice_of (ad_incoming g) v t"

definition has_negative_weight :: "adjacency \<Rightarrow> bool" where
  "has_negative_weight g \<longleftrightarrow> f64_less (ad_min_weight g) F64_ZERO"

definition edge_type_count :: "adjacency \<Rightarrow> u16" where
  "edge_type_count g = (let n = length (ad_outgoing g) in if n < 2 ^ 16 then of_nat n else - 1)"

definition edge_count :: "adjacency \<Rightarrow> nat" where
  "edge_count g = sum_list (map (\<lambda>s. length (sg_targets s)) (ad_outgoing g))"

definition all_edge_types :: "adjacency \<Rightarrow> edge_mask" where
  "all_edge_types g = mask_all (edge_type_count g)"

definition out_degree :: "adjacency \<Rightarrow> vertex_id \<Rightarrow> edge_mask \<Rightarrow> nat" where
  "out_degree g v m = sum_list (map (\<lambda>t. length (nb_targets (out_edges g v t))) m)"

definition in_degree :: "adjacency \<Rightarrow> vertex_id \<Rightarrow> edge_mask \<Rightarrow> nat" where
  "in_degree g v m = sum_list (map (\<lambda>t. length (nb_targets (in_edges g v t))) m)"

subsection \<open>Reading neighbours\<close>

definition nb_arc :: "f64 \<Rightarrow> neighbours \<Rightarrow> nat \<Rightarrow> arc" where
  "nb_arc w nb i =
     \<lparr>arc_target = get_or 0 (nb_targets nb) i, arc_validity = get_or validity_always (nb_validity nb) i,
      arc_weight = get_or w (nb_weights nb) i\<rparr>"

definition nb_iter :: "neighbours \<Rightarrow> arc list" where
  "nb_iter nb = map (nb_arc F64_ONE nb) [0..<length (nb_targets nb)]"

text \<open>
  \<open>partition_point\<close> as the documentation has it, on a list partitioned by the test: how many elements
  of the front pass it.
\<close>

definition partition_point :: "('a \<Rightarrow> bool) \<Rightarrow> 'a list \<Rightarrow> nat" where
  "partition_point p xs = length (takeWhile p xs)"

definition nb_take :: "neighbours \<Rightarrow> nat \<Rightarrow> arc list" where
  "nb_take nb n = map (nb_arc F64_ONE nb) [0..<min n (length (nb_targets nb))]"

definition starting_by :: "neighbours \<Rightarrow> i64 \<Rightarrow> arc list" where
  "starting_by nb t = nb_take nb (partition_point (\<lambda>v. val_from v \<le> t) (nb_validity nb))"

definition starting_from :: "neighbours \<Rightarrow> i64 \<Rightarrow> arc list" where
  "starting_from nb t =
     map (nb_arc F64_ONE nb) [partition_point (\<lambda>v. val_from v < t) (nb_validity nb)..<length (nb_targets nb)]"

definition live_at :: "neighbours \<Rightarrow> i64 \<Rightarrow> arc list" where
  "live_at nb t = filter (\<lambda>a. t < val_until (arc_validity a)) (starting_by nb t)"

subsection \<open>Building\<close>

record builder =
  bd_edges :: "edge list"
  bd_vertex_count :: nat
  bd_edge_type_count :: u16

definition builder_new :: "nat \<Rightarrow> builder" where
  "builder_new n = \<lparr>bd_edges = [], bd_vertex_count = n, bd_edge_type_count = 0\<rparr>"

datatype out_of_range = OutOfRange vertex_id nat

definition push_edge :: "edge \<Rightarrow> builder \<Rightarrow> out_of_range + builder" where
  "push_edge e b =
     (if vindex (e_source e) \<ge> bd_vertex_count b then Inl (OutOfRange (e_source e) (bd_vertex_count b))
      else if vindex (e_target e) \<ge> bd_vertex_count b then Inl (OutOfRange (e_target e) (bd_vertex_count b))
      else Inr (b\<lparr>bd_edges := bd_edges b @ [e],
                  bd_edge_type_count := max (bd_edge_type_count b) (word_saturating_add (e_type e) 1)\<rparr>))"

definition key_end :: "bool \<Rightarrow> edge \<Rightarrow> vertex_id" where
  "key_end forward e = (if forward then e_source e else e_target e)"

definition far_end :: "bool \<Rightarrow> edge \<Rightarrow> vertex_id" where
  "far_end forward e = (if forward then e_target e else e_source e)"

definition count_keys :: "bool \<Rightarrow> nat \<Rightarrow> edge list \<Rightarrow> u32 list \<times> nat" where
  "count_keys fwd n es =
     fold (\<lambda>e (counts, tot).
             let i = vindex (key_end fwd e) in
             if i < length counts then (counts[i := word_saturating_add (counts ! i) 1], Suc tot)
             else (counts, tot))
       es (replicate (usize_saturating_add n 1) 0, 0)"

definition offsets_of :: "nat \<Rightarrow> u32 list \<Rightarrow> u32 list" where
  "offsets_of n counts =
     (let (os, running) =
        fold (\<lambda>v (os, running). (put v running os, word_saturating_add running (get_or 0 counts v)))
          [0..<n] (replicate (usize_saturating_add n 1) 0, 0)
      in put n running os)"

definition place_edge ::
    "bool \<Rightarrow> edge \<Rightarrow> u32 list \<times> vertex_id list \<times> validity list \<times> f64 list \<Rightarrow> u32 list \<times> vertex_id list \<times> validity list \<times> f64 list" where
  "place_edge fwd e = (\<lambda>(cursor, ts, vs, ws).
     let v = vindex (key_end fwd e) in
     if v < length cursor then
       let slot = unat (cursor ! v) in
       (cursor[v := word_saturating_add (cursor ! v) 1], put slot (far_end fwd e) ts, put slot (e_validity e) vs,
        put slot (e_weight e) ws)
     else (cursor, ts, vs, ws))"

fun put_run :: "nat \<Rightarrow> 'a list \<Rightarrow> 'a list \<Rightarrow> 'a list" where
  "put_run i [] xs = xs"
| "put_run i (y # ys) xs = put_run (Suc i) ys (put i y xs)"

definition run_key :: "vertex_id \<times> validity \<times> f64 \<Rightarrow> int \<times> vertex_id" where
  "run_key r = (val_from (fst (snd r)), fst r)"

definition sort_run ::
    "u32 list \<Rightarrow> nat \<Rightarrow> nat \<Rightarrow> vertex_id list \<times> validity list \<times> f64 list \<Rightarrow> vertex_id list \<times> validity list \<times> f64 list" where
  "sort_run offsets tot v = (\<lambda>(ts, vs, ws).
     let start = unat (get_or 0 offsets v); stop = unat (get_or 0 offsets (usize_saturating_add v 1)) in
     if stop \<le> usize_saturating_add start 1 \<or> stop > tot then (ts, vs, ws)
     else
       let run = sort_key run_key
                   (map (\<lambda>i. (get_or 0 ts i, get_or validity_always vs i, get_or 0 ws i)) [start..<stop])
       in (put_run start (map fst run) ts, put_run start (map (\<lambda>r. fst (snd r)) run) vs,
           put_run start (map (\<lambda>r. snd (snd r)) run) ws))"

definition build_segment :: "edge list \<Rightarrow> nat \<Rightarrow> edge_type \<Rightarrow> bool \<Rightarrow> segment" where
  "build_segment edges n t fwd =
     (let es = filter (\<lambda>e. e_type e = t) edges;
          (counts, tot) = count_keys fwd n es;
          offsets = offsets_of n counts;
          (_, ts, vs, ws) =
            fold (place_edge fwd) es
              (offsets, replicate tot 0, replicate tot validity_always, replicate tot F64_ZERO);
          (ts, vs, ws) = fold (sort_run offsets tot) [0..<n] (ts, vs, ws)
      in \<lparr>sg_offsets = offsets, sg_targets = ts, sg_validity = vs, sg_weights = ws\<rparr>)"

definition build :: "builder \<Rightarrow> adjacency" where
  "build b =
     \<lparr>ad_vertex_count = bd_vertex_count b,
      ad_min_weight = fold (\<lambda>e w. f64_min w (e_weight e)) (bd_edges b) F64_INFINITY,
      ad_outgoing =
        map (\<lambda>t. build_segment (bd_edges b) (bd_vertex_count b) (of_nat t) True) [0..<unat (bd_edge_type_count b)],
      ad_incoming =
        map (\<lambda>t. build_segment (bd_edges b) (bd_vertex_count b) (of_nat t) False) [0..<unat (bd_edge_type_count b)]\<rparr>"

subsection \<open>Interning keys\<close>

record interner =
  in_forward :: "bytes \<rightharpoonup> vertex_id"
  in_reverse :: "bytes list"
  in_types :: "u16 list"

definition interner_new :: interner where
  "interner_new = \<lparr>in_forward = Map.empty, in_reverse = [], in_types = []\<rparr>"

datatype type_conflict = TypeConflict bytes u16 u16

text \<open>\<open>u32::try_from(len).unwrap_or(u32::MAX)\<close>.\<close>

definition u32_of_len :: "nat \<Rightarrow> u32" where
  "u32_of_len n = (if n < 2 ^ 32 then of_nat n else - 1)"

definition intern :: "bytes \<Rightarrow> u16 \<Rightarrow> interner \<Rightarrow> (type_conflict + vertex_id) \<times> interner" where
  "intern k t i =
     (case in_forward i k of
        Some v \<Rightarrow>
          (if vindex v < length (in_types i) \<and> in_types i ! vindex v = t then (Inr v, i)
           else (Inl (TypeConflict k (get_or (- 1) (in_types i) (vindex v)) t), i))
      | None \<Rightarrow>
          (let v = u32_of_len (length (in_reverse i)) in
           (Inr v, \<lparr>in_forward = (in_forward i)(k \<mapsto> v), in_reverse = in_reverse i @ [k], in_types = in_types i @ [t]\<rparr>)))"

definition lookup_key :: "interner \<Rightarrow> bytes \<Rightarrow> vertex_id option" where
  "lookup_key i k = in_forward i k"

definition key_of :: "interner \<Rightarrow> vertex_id \<Rightarrow> bytes option" where
  "key_of i v = (if vindex v < length (in_reverse i) then Some (in_reverse i ! vindex v) else None)"

definition vertex_type_of :: "interner \<Rightarrow> vertex_id \<Rightarrow> u16 option" where
  "vertex_type_of i v = (if vindex v < length (in_types i) then Some (in_types i ! vindex v) else None)"


subsection \<open>The counting sort\<close>

lemma length_put [simp]: "length (put i x xs) = length xs"
  by (simp add: put_def)

lemma nth_put: "j < length xs \<Longrightarrow> put i x xs ! j = (if j = i then x else xs ! j)"
  by (simp add: put_def nth_list_update)

lemma length_put_run [simp]: "length (put_run i ys xs) = length xs"
  by (induction i ys xs rule: put_run.induct) auto

lemma nth_put_run:
  "j < length xs \<Longrightarrow> put_run i ys xs ! j = (if i \<le> j \<and> j < i + length ys then ys ! (j - i) else xs ! j)"
proof (induction i ys xs arbitrary: j rule: put_run.induct)
  case (2 i y ys xs)
  show ?case
  proof (cases "j = i")
    case False
    then have "j - i = Suc (j - Suc i)" if "i \<le> j" using that by simp
    then show ?thesis using 2 False by (auto simp: nth_put)
  qed (use 2 in \<open>simp add: nth_put\<close>)
qed auto

lemma saturating_of_nat:
  "m + n < 2 ^ LENGTH('a) \<Longrightarrow> word_saturating_add (of_nat m) (of_nat n) = (of_nat (m + n) :: 'a::len word)"
proof -
  assume "m + n < 2 ^ LENGTH('a)"
  moreover from this have "m < 2 ^ LENGTH('a)" "n < 2 ^ LENGTH('a)" by simp_all
  ultimately show ?thesis by (simp add: word_saturating_add_def unat_of_nat)
qed

lemma unat_small: "n < 2 ^ 32 \<Longrightarrow> unat (of_nat n :: u32) = n"
  by (simp add: unat_of_nat)

lemma sort_key_map: "sort_key f (map g xs) = map g (sort_key (\<lambda>x. f (g x)) xs)"
proof -
  have "insort_key f (g x) (map g ys) = map g (insort_key (\<lambda>x. f (g x)) x ys)" for x ys
    by (induction ys) auto
  then show ?thesis by (induction xs) simp_all
qed

definition keyed :: "bool \<Rightarrow> nat \<Rightarrow> edge \<Rightarrow> bool" where
  "keyed fwd v e \<longleftrightarrow> vindex (key_end fwd e) = v"

definition group_of :: "bool \<Rightarrow> edge list \<Rightarrow> nat \<Rightarrow> edge list" where
  "group_of fwd es v = filter (keyed fwd v) es"

definition group_size :: "bool \<Rightarrow> edge list \<Rightarrow> nat \<Rightarrow> nat" where
  "group_size fwd es v = length (group_of fwd es v)"

text \<open>Where the run of a vertex starts.\<close>

definition run_start :: "bool \<Rightarrow> edge list \<Rightarrow> nat \<Rightarrow> nat" where
  "run_start fwd es v = (\<Sum>u<v. group_size fwd es u)"

lemma run_start_simps [simp]:
  "run_start fwd es 0 = 0" "run_start fwd es (Suc v) = run_start fwd es v + group_size fwd es v"
  by (simp_all add: run_start_def)

lemma run_start_mono: "u \<le> v \<Longrightarrow> run_start fwd es u \<le> run_start fwd es v"
  by (simp add: run_start_def sum_mono2)

lemma run_start_Suc_mono: "u < v \<Longrightarrow> run_start fwd es u + group_size fwd es u \<le> run_start fwd es v"
  using run_start_mono [of "Suc u" v] by simp

lemma group_of_snoc:
  "group_of fwd (es @ [e]) v = group_of fwd es v @ (if vindex (key_end fwd e) = v then [e] else [])"
  by (simp add: group_of_def keyed_def)

lemma group_size_snoc:
  "group_size fwd (es @ [e]) v = group_size fwd es v + (if vindex (key_end fwd e) = v then 1 else 0)"
  by (simp add: group_size_def group_of_snoc)

lemma group_size_le: "group_size fwd es v \<le> length es"
  by (simp add: group_size_def group_of_def)

definition in_range :: "bool \<Rightarrow> nat \<Rightarrow> edge list \<Rightarrow> bool" where
  "in_range fwd n es \<longleftrightarrow> (\<forall>e \<in> set es. vindex (key_end fwd e) < n)"

lemma in_range_snoc [simp]: "in_range fwd n (es @ [e]) \<longleftrightarrow> in_range fwd n es \<and> vindex (key_end fwd e) < n"
  by (auto simp: in_range_def)

lemma run_start_total: "in_range fwd n es \<Longrightarrow> run_start fwd es n = length es"
proof (induction es rule: rev_induct)
  case (snoc e es)
  then have "(\<Sum>u<n. if vindex (key_end fwd e) = u then 1 else 0 :: nat) = 1" by simp
  with snoc show ?case by (simp add: run_start_def group_size_snoc sum.distrib)
qed (simp add: run_start_def group_size_def group_of_def)

definition small :: "nat \<Rightarrow> bool" where
  "small n \<longleftrightarrow> n \<le> 2 ^ 32"

lemma usize_Suc: "small n \<Longrightarrow> usize_saturating_add n 1 = Suc n"
  by (simp add: usize_saturating_add_def small_def USIZE_MAX_def)

lemma count_keys_counts:
  assumes "small n" "in_range fwd n es" "length es < 2 ^ 32"
  shows "count_keys fwd n es = (map (\<lambda>v. of_nat (group_size fwd es v)) [0..<Suc n], length es)"
  using assms(2,3)
proof (induction es rule: rev_induct)
  case Nil
  then show ?case
    using usize_Suc [OF assms(1)]
    by (simp add: count_keys_def group_size_def group_of_def map_replicate_const del: upt_Suc)
next
  case (snoc e es)
  let ?i = "vindex (key_end fwd e)"
  have i: "?i < n" "group_size fwd es ?i + 1 < 2 ^ 32"
    using snoc.prems group_size_le [of fwd es ?i] by auto
  have "count_keys fwd n (es @ [e]) =
      ((map (\<lambda>v. of_nat (group_size fwd es v)) [0..<Suc n])[?i := word_saturating_add (of_nat (group_size fwd es ?i)) 1],
       Suc (length es))"
    using snoc i by (simp add: count_keys_def Let_def del: upt_Suc)
  also have "word_saturating_add (of_nat (group_size fwd es ?i)) 1 = (of_nat (group_size fwd (es @ [e]) ?i) :: u32)"
    using saturating_of_nat [of "group_size fwd es ?i" 1, where 'a = 32] i by (simp add: group_size_snoc)
  also have "(map (\<lambda>v. of_nat (group_size fwd es v)) [0..<Suc n])[?i := of_nat (group_size fwd (es @ [e]) ?i)] =
      (map (\<lambda>v. of_nat (group_size fwd (es @ [e]) v)) [0..<Suc n] :: u32 list)"
    by (rule nth_equalityI) (auto simp: nth_list_update group_size_snoc simp del: upt_Suc)
  finally show ?case by simp
qed

lemma offsets_starts:
  assumes "small n" "in_range fwd n es" "length es < 2 ^ 32"
  shows "offsets_of n (map (\<lambda>v. of_nat (group_size fwd es v)) [0..<Suc n]) = map (\<lambda>v. of_nat (run_start fwd es v)) [0..<Suc n]"
proof -
  let ?counts = "map (\<lambda>v. of_nat (group_size fwd es v)) [0..<Suc n] :: u32 list"
  let ?step = "\<lambda>v (os, running). (put v running os, word_saturating_add running (get_or 0 ?counts v))"
  have "fold ?step [0..<v] (replicate (Suc n) 0, 0) =
      (map (\<lambda>u. if u < v then of_nat (run_start fwd es u) else 0) [0..<Suc n], of_nat (run_start fwd es v))" if "v \<le> n" for v
    using that
  proof (induction v)
    case 0
    show ?case by (simp add: map_replicate_const del: upt_Suc)
  next
    case (Suc v)
    have "run_start fwd es (Suc v) \<le> length es"
      using run_start_mono [of "Suc v" n fwd es] run_start_total [OF assms(2)] Suc.prems by simp
    then have small: "run_start fwd es v + group_size fwd es v < 2 ^ 32" using assms(3) by simp
    have "get_or 0 ?counts v = of_nat (group_size fwd es v)" using Suc.prems by (simp add: get_or_def del: upt_Suc)
    moreover have "put v (of_nat (run_start fwd es v)) (map (\<lambda>u. if u < v then of_nat (run_start fwd es u) else 0) [0..<Suc n]) =
        (map (\<lambda>u. if u < Suc v then of_nat (run_start fwd es u) else 0) [0..<Suc n] :: u32 list)"
      by (rule nth_equalityI) (auto simp: nth_put simp del: upt_Suc)
    ultimately show ?case
      using Suc saturating_of_nat [of "run_start fwd es v" "group_size fwd es v", where 'a = 32] small
      by (simp del: upt_Suc add: upt_Suc_append)
  qed
  from this [of n] have "offsets_of n ?counts =
      put n (of_nat (run_start fwd es n)) (map (\<lambda>u. if u < n then of_nat (run_start fwd es u) else 0) [0..<Suc n])"
    using usize_Suc [OF assms(1)] by (simp add: offsets_of_def del: upt_Suc)
  also have "\<dots> = map (\<lambda>v. of_nat (run_start fwd es v)) [0..<Suc n]"
    by (rule nth_equalityI) (auto simp: nth_put simp del: upt_Suc)
  finally show ?thesis .
qed


subsection \<open>Placing\<close>

text \<open>One of the arrays, and the cursor that all of them share.\<close>

definition place_one :: "bool \<Rightarrow> (edge \<Rightarrow> 'a) \<Rightarrow> edge \<Rightarrow> u32 list \<times> 'a list \<Rightarrow> u32 list \<times> 'a list" where
  "place_one fwd f e = (\<lambda>(cursor, xs).
     let v = vindex (key_end fwd e) in
     if v < length cursor then
       (cursor[v := word_saturating_add (cursor ! v) 1], put (unat (cursor ! v)) (f e) xs)
     else (cursor, xs))"

lemma place_edge_split:
  "fold (place_edge fwd) es (c, ts, vs, ws) =
     (fst (fold (place_one fwd (far_end fwd)) es (c, ts)), snd (fold (place_one fwd (far_end fwd)) es (c, ts)),
      snd (fold (place_one fwd e_validity) es (c, vs)), snd (fold (place_one fwd e_weight) es (c, ws)))"
proof (induction es rule: rev_induct)
  case (snoc e es)
  have cursor: "fst (fold (place_one fwd f) xs (c, a)) = fst (fold (place_one fwd g) xs (c, b))"
    for f :: "edge \<Rightarrow> 'a" and g :: "edge \<Rightarrow> 'b" and xs a b
    by (induction xs rule: rev_induct) (auto simp: place_one_def Let_def split_beta)
  obtain c' ts' where 1: "fold (place_one fwd (far_end fwd)) es (c, ts) = (c', ts')" by fastforce
  obtain vs' where 2: "fold (place_one fwd e_validity) es (c, vs) = (c', vs')"
    using cursor [of "far_end fwd" es ts e_validity vs] 1 by (metis fst_conv prod.collapse)
  obtain ws' where 3: "fold (place_one fwd e_weight) es (c, ws) = (c', ws')"
    using cursor [of "far_end fwd" es ts e_weight ws] 1 by (metis fst_conv prod.collapse)
  have "fold (place_edge fwd) es (c, ts, vs, ws) = (c', ts', vs', ws')" using snoc unfolding 1 2 3 by simp
  then show ?case by (simp add: 1 2 3) (simp add: place_edge_def place_one_def Let_def)
qed simp

lemma place_one_groups:
  fixes f :: "edge \<Rightarrow> 'a"
  assumes "small n" "in_range fwd n es" "length es < 2 ^ 32" "length xs = length es" "es = ps @ rest"
  defines "s \<equiv> fold (place_one fwd f) ps (map (\<lambda>v. of_nat (run_start fwd es v)) [0..<Suc n], xs)"
  shows "fst s = map (\<lambda>v. of_nat (run_start fwd es v + group_size fwd ps v)) [0..<Suc n] \<and>
    length (snd s) = length es \<and>
    (\<forall>v < n. \<forall>j < group_size fwd ps v. snd s ! (run_start fwd es v + j) = f (group_of fwd ps v ! j))"
  using assms(5) unfolding s_def
proof (induction ps arbitrary: rest rule: rev_induct)
  case Nil
  then show ?case using assms(4) by (simp add: group_size_def group_of_def)
next
  case (snoc e ps)
  let ?i = "vindex (key_end fwd e)" and ?g = "group_size fwd ps"
  let ?s = "fold (place_one fwd f) ps (map (\<lambda>v. of_nat (run_start fwd es v)) [0..<Suc n], xs)"
  have IH: "fst ?s = map (\<lambda>v. of_nat (run_start fwd es v + ?g v)) [0..<Suc n]" "length (snd ?s) = length es"
    "\<And>v j. v < n \<Longrightarrow> j < ?g v \<Longrightarrow> snd ?s ! (run_start fwd es v + j) = f (group_of fwd ps v ! j)"
    using snoc.IH [of "e # rest"] snoc.prems by simp_all
  have i: "?i < n" using assms(2) snoc.prems by (simp add: in_range_def)
  have le: "?g v + (if v = ?i then 1 else 0) \<le> group_size fwd es v" for v
    unfolding group_size_def group_of_def snoc.prems by (auto simp: keyed_def)
  from le [of ?i] have "run_start fwd es ?i + ?g ?i < run_start fwd es (Suc ?i)" by simp
  also have "\<dots> \<le> length es" using run_start_mono [of "Suc ?i" n fwd es] run_start_total [OF assms(2)] i by simp
  finally have slot: "run_start fwd es ?i + ?g ?i < length es" .
  have cursor: "fst ?s ! ?i = of_nat (run_start fwd es ?i + ?g ?i)" using i by (simp add: IH(1) del: upt_Suc)
  have at: "unat (fst ?s ! ?i) = run_start fwd es ?i + ?g ?i"
    unfolding cursor using slot assms(3) by (intro unat_small) simp
  have step: "fold (place_one fwd f) (ps @ [e]) (map (\<lambda>v. of_nat (run_start fwd es v)) [0..<Suc n], xs) =
      ((fst ?s)[?i := word_saturating_add (fst ?s ! ?i) 1], put (run_start fwd es ?i + ?g ?i) (f e) (snd ?s))"
    using i at by (simp add: place_one_def Let_def split_beta IH(1) del: upt_Suc)
  have "word_saturating_add (fst ?s ! ?i) 1 = (of_nat (run_start fwd es ?i + Suc (?g ?i)) :: u32)"
    unfolding cursor using saturating_of_nat [of "run_start fwd es ?i + ?g ?i" 1, where 'a = 32] slot assms(3) by simp
  then have 1: "(fst ?s)[?i := word_saturating_add (fst ?s ! ?i) 1] =
      map (\<lambda>v. of_nat (run_start fwd es v + group_size fwd (ps @ [e]) v)) [0..<Suc n]"
    by (intro nth_equalityI) (auto simp: IH(1) nth_list_update group_size_snoc simp del: upt_Suc)
  have 2: "put (run_start fwd es ?i + ?g ?i) (f e) (snd ?s) ! (run_start fwd es v + j) = f (group_of fwd (ps @ [e]) v ! j)"
    if v: "v < n" and j: "j < group_size fwd (ps @ [e]) v" for v j
  proof -
    have jv: "j < group_size fwd es v" using j le [of v] by (simp add: group_size_snoc split: if_splits)
    have bound: "run_start fwd es v + j < length es"
      using run_start_mono [of "Suc v" n fwd es] run_start_total [OF assms(2)] v jv by simp
    have eq: "run_start fwd es v + j = run_start fwd es ?i + ?g ?i \<longleftrightarrow> v = ?i \<and> j = ?g ?i"
      using run_start_Suc_mono [of v ?i fwd es] run_start_Suc_mono [of ?i v fwd es] jv le [of ?i]
      by (cases v ?i rule: linorder_cases) auto
    have "put (run_start fwd es ?i + ?g ?i) (f e) (snd ?s) ! (run_start fwd es v + j) =
        (if v = ?i \<and> j = ?g ?i then f e else snd ?s ! (run_start fwd es v + j))"
      using bound by (subst nth_put) (simp_all only: IH(2) eq)
    moreover have "j < ?g v" if "\<not> (v = ?i \<and> j = ?g ?i)"
      using j that by (auto simp: group_size_snoc split: if_splits)
    ultimately show ?thesis
      using IH(3) [OF v] by (auto simp: group_of_snoc nth_append group_size_def simp del: upt_Suc)
  qed
  show ?case unfolding step using 1 2 by (simp add: IH(2) del: upt_Suc)
qed


subsection \<open>Sorting the runs\<close>

type_synonym row = "vertex_id \<times> validity \<times> f64"

definition row_of :: "bool \<Rightarrow> edge \<Rightarrow> row" where
  "row_of fwd e = (far_end fwd e, e_validity e, e_weight e)"

text \<open>Three parallel arrays hold the chunk of each vertex at its run.\<close>

definition holds_rows ::
    "bool \<Rightarrow> edge list \<Rightarrow> nat \<Rightarrow> (nat \<Rightarrow> row list) \<Rightarrow> vertex_id list \<times> validity list \<times> f64 list \<Rightarrow> bool" where
  "holds_rows fwd es n chunk = (\<lambda>(ts, vs, ws).
     length ts = length es \<and> length vs = length es \<and> length ws = length es \<and>
     (\<forall>u < n. length (chunk u) = group_size fwd es u \<and>
        (\<forall>j < group_size fwd es u. let i = run_start fwd es u + j in (ts ! i, vs ! i, ws ! i) = chunk u ! j)))"

lemma run_ends: "in_range fwd n es \<Longrightarrow> u < n \<Longrightarrow> run_start fwd es u + group_size fwd es u \<le> length es"
  using run_start_mono [of "Suc u" n fwd es] run_start_total [of fwd n es] by simp

lemma in_other_run:
  assumes "u \<noteq> v" "j < group_size fwd es u"
  shows "\<not> (run_start fwd es v \<le> run_start fwd es u + j \<and> run_start fwd es u + j < run_start fwd es v + group_size fwd es v)"
  using assms run_start_Suc_mono [of u v fwd es] run_start_Suc_mono [of v u fwd es]
  by (cases u v rule: linorder_cases) auto

lemma holds_rows_put:
  assumes "holds_rows fwd es n chunk (ts, vs, ws)" "in_range fwd n es" "v < n" "length run = group_size fwd es v"
  shows "holds_rows fwd es n (chunk(v := run))
    (put_run (run_start fwd es v) (map fst run) ts, put_run (run_start fwd es v) (map (\<lambda>r. fst (snd r)) run) vs,
     put_run (run_start fwd es v) (map (\<lambda>r. snd (snd r)) run) ws)"
proof -
  have inside: "run_start fwd es u + j < length es" if "u < n" "j < group_size fwd es u" for u j
    using run_ends [OF assms(2) that(1)] that(2) by simp
  show ?thesis
    using assms(1,3,4) inside
    by (auto simp: holds_rows_def nth_put_run Let_def in_other_run)
qed

lemma sort_run_holds:
  assumes "holds_rows fwd es n chunk (ts, vs, ws)" "in_range fwd n es" "small n" "length es < 2 ^ 32" "v < n"
  shows "holds_rows fwd es n (chunk(v := sort_key run_key (chunk v)))
    (sort_run (map (\<lambda>v. of_nat (run_start fwd es v)) [0..<Suc n]) (length es) v (ts, vs, ws))"
proof -
  let ?os = "map (\<lambda>v. of_nat (run_start fwd es v)) [0..<Suc n] :: u32 list"
  have len: "length (chunk v) = group_size fwd es v" using assms(1,5) by (simp add: holds_rows_def)
  have ends: "run_start fwd es v + group_size fwd es v \<le> length es" by (rule run_ends [OF assms(2,5)])
  have start: "unat (get_or 0 ?os v) = run_start fwd es v"
    using assms(4,5) ends by (simp add: get_or_def unat_small del: upt_Suc)
  have "small v" using assms(3,5) by (simp add: small_def)
  then have stop: "unat (get_or 0 ?os (usize_saturating_add v 1)) = run_start fwd es v + group_size fwd es v"
    using assms(4,5) ends unat_small [of "run_start fwd es (Suc v)"] unfolding usize_Suc [OF \<open>small v\<close>]
    by (simp add: get_or_def del: upt_Suc of_nat_add)
  have one: "usize_saturating_add (run_start fwd es v) 1 = Suc (run_start fwd es v)"
    using assms(4) ends by (simp add: usize_saturating_add_def USIZE_MAX_def)
  show ?thesis
  proof (cases "group_size fwd es v \<le> 1")
    case True
    then have "sort_key run_key (chunk v) = chunk v" using len
      by (cases "chunk v"; cases "tl (chunk v)") auto
    moreover have "sort_run ?os (length es) v (ts, vs, ws) = (ts, vs, ws)"
      unfolding sort_run_def prod.case start stop Let_def one using True by simp
    ultimately show ?thesis using assms(1) by simp
  next
    case False
    let ?st = "run_start fwd es v" and ?sz = "group_size fwd es v"
    have "map (\<lambda>i. (get_or 0 ts i, get_or validity_always vs i, get_or 0 ws i)) [?st..<?st + ?sz] = chunk v"
      using assms(1,5) ends len by (intro nth_equalityI) (auto simp: holds_rows_def get_or_def Let_def)
    with False ends have "sort_run ?os (length es) v (ts, vs, ws) =
        (let run = sort_key run_key (chunk v) in
         (put_run ?st (map fst run) ts, put_run ?st (map (\<lambda>r. fst (snd r)) run) vs, put_run ?st (map (\<lambda>r. snd (snd r)) run) ws))"
      unfolding sort_run_def prod.case start stop Let_def one by simp
    then show ?thesis using holds_rows_put [OF assms(1,2,5), of "sort_key run_key (chunk v)"] len by (simp add: Let_def)
  qed
qed

lemma sort_runs_hold:
  assumes "holds_rows fwd es n chunk arrays" "in_range fwd n es" "small n" "length es < 2 ^ 32" "v \<le> n"
  shows "holds_rows fwd es n (\<lambda>u. if u < v then sort_key run_key (chunk u) else chunk u)
    (fold (sort_run (map (\<lambda>v. of_nat (run_start fwd es v)) [0..<Suc n]) (length es)) [0..<v] arrays)"
  using assms(5)
proof (induction v)
  case 0
  show ?case using assms(1) by simp
next
  case (Suc v)
  let ?chunk = "\<lambda>u. if u < v then sort_key run_key (chunk u) else chunk u"
  have "(\<lambda>u. if u < Suc v then sort_key run_key (chunk u) else chunk u) = ?chunk(v := sort_key run_key (?chunk v))"
    by (auto simp: less_Suc_eq)
  moreover obtain ts vs ws where
    "fold (sort_run (map (\<lambda>v. of_nat (run_start fwd es v)) [0..<Suc n]) (length es)) [0..<v] arrays = (ts, vs, ws)"
    by (metis prod_cases3)
  ultimately show ?case
    using sort_run_holds [OF _ assms(2-4), of ?chunk ts vs ws v] Suc by (simp del: upt_Suc add: upt_Suc_append)
qed

text \<open>A segment holds, for each vertex, its edges in order.\<close>

definition sorted_group :: "bool \<Rightarrow> edge list \<Rightarrow> nat \<Rightarrow> row list" where
  "sorted_group fwd es v = sort_key run_key (map (row_of fwd) (group_of fwd es v))"

lemma build_segment_holds:
  fixes edges n t fwd
  defines "es \<equiv> filter (\<lambda>e. e_type e = t) edges" and "s \<equiv> build_segment edges n t fwd"
  assumes "small n" "in_range fwd n edges" "length edges < 2 ^ 32"
  shows "sg_offsets s = map (\<lambda>v. of_nat (run_start fwd es v)) [0..<Suc n] \<and>
    holds_rows fwd es n (sorted_group fwd es) (sg_targets s, sg_validity s, sg_weights s)"
proof -
  have es: "in_range fwd n es" "length es < 2 ^ 32"
    using assms(4) le_less_trans [OF length_filter_le assms(5)] by (auto simp: es_def in_range_def)
  let ?os = "map (\<lambda>v. of_nat (run_start fwd es v)) [0..<Suc n] :: u32 list"
  note place = place_one_groups [OF assms(3) es, of _ es "[]", simplified append_Nil2, OF _ refl]
  let ?L = "length es"
  obtain c ts vs ws where fold: "fold (place_edge fwd) es
      (?os, replicate ?L 0, replicate ?L validity_always, replicate ?L F64_ZERO) = (c, ts, vs, ws)"
    by (metis prod_cases4)
  then have arrays: "ts = snd (fold (place_one fwd (far_end fwd)) es (?os, replicate ?L 0))"
      "vs = snd (fold (place_one fwd e_validity) es (?os, replicate ?L validity_always))"
      "ws = snd (fold (place_one fwd e_weight) es (?os, replicate ?L F64_ZERO))"
    by (simp_all add: place_edge_split)
  have "holds_rows fwd es n (\<lambda>u. map (row_of fwd) (group_of fwd es u)) (ts, vs, ws)"
    unfolding arrays holds_rows_def
    using place [of "replicate ?L 0" "far_end fwd"] place [of "replicate ?L validity_always" e_validity]
      place [of "replicate ?L F64_ZERO" e_weight]
    by (auto simp: row_of_def group_size_def Let_def simp del: upt_Suc)
  from sort_runs_hold [OF this es(1) assms(3) es(2) le_refl]
  have "holds_rows fwd es n (sorted_group fwd es) (fold (sort_run ?os ?L) [0..<n] (ts, vs, ws))"
    by (auto simp: holds_rows_def sorted_group_def split_beta)
  moreover obtain ts' vs' ws' where "fold (sort_run ?os ?L) [0..<n] (ts, vs, ws) = (ts', vs', ws')" by (metis prod_cases3)
  ultimately show ?thesis
    unfolding s_def build_segment_def es_def [symmetric] Let_def count_keys_counts [OF assms(3) es] prod.case
      offsets_starts [OF assms(3) es] fold
    by simp
qed


subsection \<open>What a built graph answers\<close>

lemma get_or_nth: "i < length xs \<Longrightarrow> get_or d xs i = xs ! i"
  by (simp add: get_or_def)

definition arc_of_row :: "row \<Rightarrow> arc" where
  "arc_of_row r = \<lparr>arc_target = fst r, arc_validity = fst (snd r), arc_weight = snd (snd r)\<rparr>"

definition neighbours_of :: "row list \<Rightarrow> neighbours" where
  "neighbours_of rows =
     \<lparr>nb_targets = map fst rows, nb_validity = map (\<lambda>r. fst (snd r)) rows, nb_weights = map (\<lambda>r. snd (snd r)) rows\<rparr>"

lemma nb_arc_rows: "i < length rows \<Longrightarrow> nb_arc w (neighbours_of rows) i = arc_of_row (rows ! i)"
  by (simp add: nb_arc_def neighbours_of_def get_or_nth arc_of_row_def)

lemma nb_iter_rows [simp]: "nb_iter (neighbours_of rows) = map arc_of_row rows"
  by (rule nth_equalityI) (simp_all add: nb_iter_def nb_arc_rows neighbours_of_def [THEN arg_cong [where f = nb_targets]])

lemma sub_slice_nth:
  "a + m \<le> length xs \<Longrightarrow> length ys = m \<Longrightarrow> (\<And>j. j < m \<Longrightarrow> xs ! (a + j) = ys ! j) \<Longrightarrow> sub_slice xs (a, a + m) = ys"
  by (intro nth_equalityI) (auto simp: sub_slice_def)

lemma segment_neighbours:
  assumes "sg_offsets s = map (\<lambda>v. of_nat (run_start fwd es v)) [0..<Suc n]"
    "holds_rows fwd es n rows (sg_targets s, sg_validity s, sg_weights s)"
    "in_range fwd n es" "small n" "length es < 2 ^ 32" "vindex v < n"
  shows "let r = segment_run s v in
    \<lparr>nb_targets = sub_slice (sg_targets s) r, nb_validity = sub_slice (sg_validity s) r,
     nb_weights = sub_slice (sg_weights s) r\<rparr> = neighbours_of (rows (vindex v))"
proof -
  let ?v = "vindex v"
  have ends: "run_start fwd es ?v + group_size fwd es ?v \<le> length es" by (rule run_ends [OF assms(3,6)])
  have "small ?v" using assms(4,6) by (simp add: small_def)
  then have "segment_run s v = (run_start fwd es ?v, run_start fwd es ?v + group_size fwd es ?v)"
    using assms(1,2,5,6) ends unat_small [of "run_start fwd es ?v"] unat_small [of "run_start fwd es (Suc ?v)"]
    unfolding segment_run_def Let_def usize_Suc [OF \<open>small ?v\<close>]
    by (simp add: get_or_def holds_rows_def del: upt_Suc of_nat_add)
  moreover have h: "length (rows ?v) = group_size fwd es ?v" "length (sg_targets s) = length es"
    "length (sg_validity s) = length es" "length (sg_weights s) = length es"
    "\<And>j. j < group_size fwd es ?v \<Longrightarrow>
      (sg_targets s ! (run_start fwd es ?v + j), sg_validity s ! (run_start fwd es ?v + j), sg_weights s ! (run_start fwd es ?v + j)) =
      rows ?v ! j"
    using assms(2,6) by (auto simp: holds_rows_def Let_def)
  moreover have "sg_targets s ! (run_start fwd es ?v + j) = fst (rows ?v ! j) \<and>
      sg_validity s ! (run_start fwd es ?v + j) = fst (snd (rows ?v ! j)) \<and>
      sg_weights s ! (run_start fwd es ?v + j) = snd (snd (rows ?v ! j))" if "j < group_size fwd es ?v" for j
    unfolding h(5) [OF that, symmetric] by simp
  ultimately show ?thesis
    using ends by (simp add: neighbours_of_def sub_slice_nth)
qed

lemma segment_outside:
  assumes "length (sg_offsets s) = Suc n" "n \<le> vindex v"
  shows "segment_run s v = (0, 0)"
proof -
  have "vindex v < 2 ^ 32" using unsigned_less [of v] by (simp add: vindex_def)
  then have "usize_saturating_add (vindex v) 1 = Suc (vindex v)"
    by (simp add: usize_saturating_add_def USIZE_MAX_def)
  then show ?thesis using assms by (simp add: segment_run_def get_or_def Let_def)
qed

fun push_edges :: "edge list \<Rightarrow> builder \<Rightarrow> out_of_range + builder" where
  "push_edges [] b = Inr b"
| "push_edges (e # es) b = and_then (push_edge e b) (push_edges es)"

definition edge_ok :: "nat \<Rightarrow> edge \<Rightarrow> bool" where
  "edge_ok n e \<longleftrightarrow> vindex (e_source e) < n \<and> vindex (e_target e) < n"

lemma push_edge_Inr:
  "push_edge e b = Inr b' \<longleftrightarrow> edge_ok (bd_vertex_count b) e \<and>
     b' = b\<lparr>bd_edges := bd_edges b @ [e], bd_edge_type_count := max (bd_edge_type_count b) (word_saturating_add (e_type e) 1)\<rparr>"
  by (auto simp: push_edge_def edge_ok_def)

lemma push_edges_Inr:
  "push_edges es b = Inr b' \<longleftrightarrow> (\<forall>e \<in> set es. edge_ok (bd_vertex_count b) e) \<and>
     b' = b\<lparr>bd_edges := bd_edges b @ es,
            bd_edge_type_count := fold (\<lambda>e c. max c (word_saturating_add (e_type e) 1)) es (bd_edge_type_count b)\<rparr>"
  by (induction es arbitrary: b) (auto simp: push_edge_Inr)

lemma fold_max_ge:
  fixes c :: "'b::linorder"
  shows "c \<le> fold (\<lambda>e c. max c (f e)) es c \<and> (\<forall>e \<in> set es. f e \<le> fold (\<lambda>e c. max c (f e)) es c)"
proof (induction es arbitrary: c)
  case (Cons e es)
  from Cons [of "max c (f e)"] show ?case by auto
qed simp

lemma type_counted:
  assumes "push_edges es (builder_new n) = Inr b" "e \<in> set es" "e_type e \<noteq> - 1"
  shows "unat (e_type e) < unat (bd_edge_type_count b)"
proof -
  have "unat (e_type e) \<noteq> 2 ^ 16 - 1"
    using assms(3) unat_max_word [where 'a = 16] word_unat_eq_iff [of "e_type e" "- 1"] by auto
  moreover have "unat (e_type e) < 2 ^ 16" using unsigned_less [of "e_type e"] by simp
  ultimately have "unat (word_saturating_add (e_type e) 1) = Suc (unat (e_type e))"
    by (simp add: unat_saturating_add)
  moreover have "word_saturating_add (e_type e) 1 \<le> bd_edge_type_count b"
    using assms(1,2) fold_max_ge [of "0 :: u16" "\<lambda>e. word_saturating_add (e_type e) 1" es]
    by (auto simp: push_edges_Inr builder_new_def)
  ultimately show ?thesis by (simp add: word_le_nat_alt)
qed

lemma built_slice:
  assumes "push_edges es (builder_new n) = Inr b" "small n" "length es < 2 ^ 32" "t \<noteq> - 1"
    "segs = map (\<lambda>t. build_segment (bd_edges b) (bd_vertex_count b) (of_nat t) fwd) [0..<unat (bd_edge_type_count b)]"
  shows "slice_of segs v t = neighbours_of (sorted_group fwd (filter (\<lambda>e. e_type e = t) es) (vindex v))"
proof -
  let ?es = "filter (\<lambda>e. e_type e = t) es"
  have b: "bd_edges b = es" "bd_vertex_count b = n" and ok: "\<forall>e \<in> set es. edge_ok n e"
    using assms(1) by (auto simp: push_edges_Inr builder_new_def)
  then have range: "in_range fwd n es" by (auto simp: in_range_def edge_ok_def key_end_def)
  show ?thesis
  proof (cases "unat t < length segs")
    case False
    then have "e_type e \<noteq> t" if "e \<in> set es" for e
      using type_counted [OF assms(1) that] assms(4,5) by auto
    then have "?es = []" by (auto simp: filter_empty_conv)
    then show ?thesis using False by (simp add: slice_of_def nb_empty_def neighbours_of_def sorted_group_def group_of_def)
  next
    case True
    let ?s = "build_segment es n t fwd"
    have seg: "segs ! unat t = ?s" using True assms(5) b by simp
    note built = build_segment_holds [OF assms(2) range assms(3), of t]
    have es': "in_range fwd n ?es" "length ?es < 2 ^ 32"
      using range le_less_trans [OF length_filter_le assms(3)] by (auto simp: in_range_def)
    show ?thesis
    proof (cases "vindex v < n")
      case inside: True
      show ?thesis
        using segment_neighbours [OF conjunct1 [OF built] conjunct2 [OF built] es'(1) assms(2) es'(2) inside] True
        by (simp add: slice_of_def seg Let_def)
    next
      case False
      then have "segment_run ?s v = (0, 0)" using built by (intro segment_outside [of _ n]) (simp_all del: upt_Suc)
      moreover have "group_of fwd ?es (vindex v) = []"
        using es'(1) False by (auto simp: group_of_def in_range_def keyed_def filter_empty_conv)
      ultimately show ?thesis
        using True by (simp add: slice_of_def seg neighbours_of_def sorted_group_def sub_slice_def)
    qed
  qed
qed

text \<open>The specification: the edges of one end and type, in order of start and then of far end.\<close>

definition arc_order :: "arc \<Rightarrow> int \<times> vertex_id" where
  "arc_order a = (val_from (arc_validity a), arc_target a)"

definition arcs_at :: "bool \<Rightarrow> edge list \<Rightarrow> vertex_id \<Rightarrow> edge_type \<Rightarrow> arc list" where
  "arcs_at fwd es v t =
     sort_key arc_order
       (map (\<lambda>e. \<lparr>arc_target = far_end fwd e, arc_validity = e_validity e, arc_weight = e_weight e\<rparr>)
         (filter (\<lambda>e. key_end fwd e = v \<and> e_type e = t) es))"

lemma sorted_group_arcs: "map arc_of_row (sorted_group fwd (filter (\<lambda>e. e_type e = t) es) (vindex v)) = arcs_at fwd es v t"
proof -
  have "keyed fwd (vindex v) e \<longleftrightarrow> key_end fwd e = v" for e by (simp add: keyed_def vindex_def word_unat_eq_iff)
  then have "group_of fwd (filter (\<lambda>e. e_type e = t) es) (vindex v) = filter (\<lambda>e. key_end fwd e = v \<and> e_type e = t) es"
    by (simp add: group_of_def conj_commute)
  moreover have "run_key r = arc_order (arc_of_row r)" for r
    by (simp add: run_key_def arc_order_def arc_of_row_def)
  moreover have "(\<lambda>e. \<lparr>arc_target = far_end fwd e, arc_validity = e_validity e, arc_weight = e_weight e\<rparr>) =
      (\<lambda>e. arc_of_row (row_of fwd e))"
    by (rule ext) (simp add: arc_of_row_def row_of_def)
  ultimately show ?thesis by (simp add: sorted_group_def arcs_at_def sort_key_map comp_def)
qed

lemma partition_point_sorted:
  "sorted xs \<Longrightarrow> (\<And>x y. x \<le> y \<Longrightarrow> p y \<Longrightarrow> p x) \<Longrightarrow> takeWhile p xs = filter p xs"
  by (induction xs) (auto simp: empty_filter_conv)


lemma drop_passed: "drop (length (takeWhile p xs)) xs = dropWhile p xs"
  by (metis append_eq_conv_conj takeWhile_dropWhile_id)

lemma sorted_arcs_at: "sorted (map arc_order (arcs_at fwd es v t))"
  by (simp add: arcs_at_def)

lemma passed_arcs:
  assumes "sorted (map arc_order as)" "\<And>s s'. s \<le> s' \<Longrightarrow> p s' \<Longrightarrow> p s"
  defines "q \<equiv> \<lambda>a. p (val_from (arc_validity a))"
  shows "takeWhile q as = filter q as \<and> dropWhile q as = filter (\<lambda>a. \<not> q a) as"
proof -
  have down: "q x" if "arc_order x \<le> arc_order y" "q y" for x y
    using that assms(2) [of "val_from (arc_validity x)" "val_from (arc_validity y)"]
    by (auto simp: q_def arc_order_def less_eq_prod_def)
  show ?thesis using assms(1)
  proof (induction as)
    case (Cons a as)
    show ?case
    proof (cases "q a")
      case False
      then have "\<not> q x" if "x \<in> set as" for x using that Cons.prems down by auto
      then show ?thesis using False by (simp add: empty_filter_conv)
    qed (use Cons in simp)
  qed simp
qed

definition as_arcs :: "neighbours \<Rightarrow> arc list \<Rightarrow> bool" where
  "as_arcs nb as \<longleftrightarrow> (\<exists>rows. nb = neighbours_of rows \<and> as = map arc_of_row rows)"

lemma as_arcs_simps:
  assumes "as_arcs nb as"
  shows "nb_iter nb = as" "nb_targets nb = map arc_target as"
    "nb_take nb n = take n as"
    "map (nb_arc F64_ONE nb) [k..<length (nb_targets nb)] = drop k as"
    "partition_point (\<lambda>v. p (val_from v)) (nb_validity nb) = length (takeWhile (\<lambda>a. p (val_from (arc_validity a))) as)"
proof -
  obtain rows where r: "nb = neighbours_of rows" "as = map arc_of_row rows" using assms by (auto simp: as_arcs_def)
  have len: "length (nb_targets nb) = length rows" by (simp add: r neighbours_of_def)
  show "nb_iter nb = as" by (simp add: r)
  show "nb_targets nb = map arc_target as" by (simp add: r neighbours_of_def arc_of_row_def)
  show "nb_take nb n = take n as" unfolding nb_take_def len by (rule nth_equalityI) (auto simp: r nb_arc_rows)
  show "map (nb_arc F64_ONE nb) [k..<length (nb_targets nb)] = drop k as"
    unfolding len by (rule nth_equalityI) (auto simp: r nb_arc_rows)
  show "partition_point (\<lambda>v. p (val_from v)) (nb_validity nb) = length (takeWhile (\<lambda>a. p (val_from (arc_validity a))) as)"
    by (simp add: r neighbours_of_def partition_point_def takeWhile_map comp_def arc_of_row_def)
qed

lemma built_arcs:
  assumes "push_edges es (builder_new n) = Inr b" "small n" "length es < 2 ^ 32" "t \<noteq> - 1"
  shows "as_arcs (out_edges (build b) v t) (arcs_at True es v t)" "as_arcs (in_edges (build b) v t) (arcs_at False es v t)"
  using built_slice [OF assms refl, of True v] built_slice [OF assms refl, of False v] sorted_group_arcs [of True t es v] sorted_group_arcs [of False t es v]
  by (auto simp: as_arcs_def out_edges_def in_edges_def build_def)

lemma is_ok_Inr: "is_ok r \<longleftrightarrow> (\<exists>x. r = Inr x)"
  by (cases r) auto

text \<open>The count of types stops at \<open>u16::MAX\<close>, so a type with the last number has no segment.\<close>

lemma last_type_is_lost: "out_edges (build b) v (- 1) = nb_empty"
proof -
  have "unat (bd_edge_type_count b) \<le> unat (- 1 :: u16)" by (simp add: word_le_nat_alt [symmetric])
  then show ?thesis by (simp add: out_edges_def slice_of_def build_def)
qed

lemma fold_min_negative:
  "f64_less (fold (\<lambda>e w. f64_min w (e_weight e)) es w) c \<longleftrightarrow> f64_less w c \<or> (\<exists>e \<in> set es. f64_less (e_weight e) c)"
  by (induction es arbitrary: w) (auto simp: f64_min_less)

lemma infinity_not_negative: "\<not> f64_less F64_INFINITY F64_ZERO"
  by (simp add: f64_less_iff f64_key_def F64_INFINITY_def F64_ZERO_def)

text \<open>
  C34: A graph is built from exactly the edge lists whose ends it has, and then lists, for each vertex and type, in both
  directions, exactly the edges offered, parallel edges included, in order of start and then of far end; its queries by
  time are filters of that list, although they search it; and it knows whether a weight is negative. The last type
  number there is, \<open>u16::MAX\<close>, is left out.
\<close>

theorem adjacency_lists_every_edge:
  assumes "n \<le> 2 ^ 32" "length es < 2 ^ 32" "t \<noteq> - 1"
  shows "(is_ok (push_edges es (builder_new n)) \<longleftrightarrow> list_all (edge_ok n) es) \<and>
    (push_edges es (builder_new n) = Inr b \<longrightarrow>
      nb_iter (out_edges (build b) v t) = arcs_at True es v t \<and>
      nb_iter (in_edges (build b) v t) = arcs_at False es v t \<and>
      nb_targets (out_edges (build b) v t) = map arc_target (arcs_at True es v t) \<and>
      starting_from (out_edges (build b) v t) at = filter (\<lambda>a. at \<le> val_from (arc_validity a)) (arcs_at True es v t) \<and>
      live_at (out_edges (build b) v t) at = filter (\<lambda>a. validity_contains (arc_validity a) at) (arcs_at True es v t) \<and>
      (has_negative_weight (build b) \<longleftrightarrow> (\<exists>e \<in> set es. f64_less (e_weight e) F64_ZERO)))"
proof (intro conjI impI)
  show "is_ok (push_edges es (builder_new n)) \<longleftrightarrow> list_all (edge_ok n) es"
    using push_edges_Inr [of es "builder_new n"] is_ok_Inr [of "push_edges es (builder_new n)"]
    by (simp add: builder_new_def list_all_iff)
next
  assume b: "push_edges es (builder_new n) = Inr b"
  have n: "small n" using assms(1) by (simp add: small_def)
  let ?as = "arcs_at True es v t" and ?nb = "out_edges (build b) v t"
  note arcs = as_arcs_simps [OF built_arcs(1) [OF b n assms(2,3), of v]]
  show "nb_iter ?nb = ?as" "nb_targets ?nb = map arc_target ?as" by (rule arcs)+
  show "nb_iter (in_edges (build b) v t) = arcs_at False es v t"
    by (rule as_arcs_simps(1) [OF built_arcs(2) [OF b n assms(2,3)]])
  have "dropWhile (\<lambda>a. val_from (arc_validity a) < at) ?as = filter (\<lambda>a. \<not> val_from (arc_validity a) < at) ?as"
    by (rule conjunct2 [OF passed_arcs [OF sorted_arcs_at]]) simp
  then show "starting_from ?nb at = filter (\<lambda>a. at \<le> val_from (arc_validity a)) ?as"
    unfolding starting_from_def arcs(5) [of "\<lambda>s. s < at"] arcs(4) drop_passed by (simp add: not_less)
  have "takeWhile (\<lambda>a. val_from (arc_validity a) \<le> at) ?as = filter (\<lambda>a. val_from (arc_validity a) \<le> at) ?as"
    by (rule conjunct1 [OF passed_arcs [OF sorted_arcs_at]]) simp
  then have "starting_by ?nb at = filter (\<lambda>a. val_from (arc_validity a) \<le> at) ?as"
    unfolding starting_by_def arcs(3) arcs(5) [of "\<lambda>s. s \<le> at"] takeWhile_eq_take [symmetric] by simp
  then show "live_at ?nb at = filter (\<lambda>a. validity_contains (arc_validity a) at) ?as"
    by (auto simp: live_at_def validity_contains_def intro: filter_cong)
  show "has_negative_weight (build b) \<longleftrightarrow> (\<exists>e \<in> set es. f64_less (e_weight e) F64_ZERO)"
    using b infinity_not_negative by (simp add: has_negative_weight_def build_def fold_min_negative push_edges_Inr builder_new_def)
qed

definition sample_edges :: "edge list" where
  "sample_edges =
     [\<lparr>e_source = 0, e_target = 1, e_type = 0, e_validity = validity_from 5, e_weight = F64_ONE\<rparr>,
      \<lparr>e_source = 0, e_target = 2, e_type = 0, e_validity = validity_from 3, e_weight = F64_ONE\<rparr>]"

theorem adjacency_lists_every_edge_witness:
  "\<exists>b. push_edges sample_edges (builder_new 3) = Inr b \<and>
     nb_targets (out_edges (build b) 0 0) = [2, 1] \<and> map arc_target (starting_from (out_edges (build b) 0 0) 4) = [1]"
proof -
  have "list_all (edge_ok 3) sample_edges" by (simp add: sample_edges_def edge_ok_def vindex_def)
  moreover have l: "length sample_edges < 2 ^ 32" by (simp add: sample_edges_def)
  ultimately obtain b where b: "push_edges sample_edges (builder_new 3) = Inr b"
    using conjunct1 [OF adjacency_lists_every_edge [OF _ l, of 3 0]] unfolding is_ok_Inr by auto
  have "map arc_target (arcs_at True sample_edges 0 0) = [2, 1]"
    "map arc_target (filter (\<lambda>a. 4 \<le> val_from (arc_validity a)) (arcs_at True sample_edges 0 0)) = [1]"
    by (simp_all add: arcs_at_def sample_edges_def key_end_def far_end_def arc_order_def validity_from_def less_eq_prod_def)
  then show ?thesis
    using adjacency_lists_every_edge [OF _ l, of 3 0 b 0 4] b by auto
qed

end
