(* ===== verification/Graph_Traverse.thy ===== *)
theory Graph_Traverse
  imports Graph_Csr
begin

text \<open>
  Breadth-first traversal under a budget: \<^verbatim>\<open>crates/sankhya-graph-algo/src/budget.rs\<close> and
  \<open>reachable\<close> of \<^verbatim>\<open>traverse.rs\<close>. The loop of the code runs on fuel: one iteration more than the graph has
  vertices, which the first property shows to be enough for every graph, seed and budget.
\<close>

subsection \<open>Budgets and what they cut off\<close>

record budget =
  bg_results :: nat
  bg_visits :: nat
  bg_depth :: u32
  bg_degree :: nat

definition budget_generous :: budget where
  "budget_generous = \<lparr>bg_results = 100000, bg_visits = 10000000, bg_depth = 64, bg_degree = USIZE_MAX\<rparr>"

definition budget_interactive :: budget where
  "budget_interactive = \<lparr>bg_results = 1000, bg_visits = 100000, bg_depth = 6, bg_degree = 10000\<rparr>"

definition with_max_results :: "nat \<Rightarrow> budget \<Rightarrow> budget" where
  "with_max_results n b = b\<lparr>bg_results := n\<rparr>"

definition with_max_depth :: "u32 \<Rightarrow> budget \<Rightarrow> budget" where
  "with_max_depth n b = b\<lparr>bg_depth := n\<rparr>"

definition with_max_degree :: "nat \<Rightarrow> budget \<Rightarrow> budget" where
  "with_max_degree n b = b\<lparr>bg_degree := n\<rparr>"

definition with_max_visits :: "nat \<Rightarrow> budget \<Rightarrow> budget" where
  "with_max_visits n b = b\<lparr>bg_visits := n\<rparr>"

record truncation =
  by_results :: bool
  by_visits :: bool
  by_depth :: bool
  suppressed :: "vertex_id list"

definition not_truncated :: truncation where
  "not_truncated = \<lparr>by_results = False, by_visits = False, by_depth = False, suppressed = []\<rparr>"

definition is_complete :: "truncation \<Rightarrow> bool" where
  "is_complete t \<longleftrightarrow> \<not> by_results t \<and> \<not> by_visits t \<and> \<not> by_depth t \<and> suppressed t = []"

record 'a bounded =
  bn_found :: 'a
  bn_truncation :: truncation

definition bounded_complete :: "'a \<Rightarrow> 'a bounded" where
  "bounded_complete x = \<lparr>bn_found = x, bn_truncation = not_truncated\<rparr>"

definition bounded_truncated :: "'a \<Rightarrow> truncation \<Rightarrow> 'a bounded" where
  "bounded_truncated x t = \<lparr>bn_found = x, bn_truncation = t\<rparr>"

definition complete_only :: "'a bounded \<Rightarrow> 'a option" where
  "complete_only b = (if is_complete (bn_truncation b) then Some (bn_found b) else None)"

definition bounded_map :: "('a \<Rightarrow> 'b) \<Rightarrow> 'a bounded \<Rightarrow> 'b bounded" where
  "bounded_map f b = \<lparr>bn_found = f (bn_found b), bn_truncation = bn_truncation b\<rparr>"

subsection \<open>The search\<close>

record reached =
  rc_vertex :: vertex_id
  rc_depth :: u32
  rc_via :: "vertex_id option"
  rc_at :: i64

record search =
  sr_seen :: "bool list"
  sr_found :: "reached list"
  sr_trunc :: truncation
  sr_queue :: "reached list"
  sr_visits :: nat

definition enqueue :: "reached \<Rightarrow> search \<Rightarrow> search" where
  "enqueue r s =
     (if get_or True (sr_seen s) (vindex (rc_vertex r)) then s
      else s\<lparr>sr_seen := put (vindex (rc_vertex r)) True (sr_seen s), sr_queue := sr_queue s @ [r]\<rparr>)"

definition enqueue_seed :: "adjacency \<Rightarrow> vertex_id \<Rightarrow> search \<Rightarrow> search" where
  "enqueue_seed g v s =
     (if vindex v \<ge> ad_vertex_count g then s
      else enqueue \<lparr>rc_vertex = v, rc_depth = 0, rc_via = None, rc_at = I64_MIN\<rparr> s)"

definition search_start :: "adjacency \<Rightarrow> vertex_id list \<Rightarrow> search" where
  "search_start g seeds =
     fold (enqueue_seed g) seeds
       \<lparr>sr_seen = replicate (ad_vertex_count g) False, sr_found = [], sr_trunc = not_truncated, sr_queue = [], sr_visits = 0\<rparr>"

definition hop_to :: "reached \<Rightarrow> vertex_id \<Rightarrow> reached" where
  "hop_to r v =
     \<lparr>rc_vertex = v, rc_depth = word_saturating_add (rc_depth r) 1, rc_via = Some (rc_vertex r), rc_at = I64_MIN\<rparr>"

definition expand_from :: "adjacency \<Rightarrow> edge_mask \<Rightarrow> reached \<Rightarrow> search \<Rightarrow> search" where
  "expand_from g m r s =
     fold (\<lambda>t s. fold (\<lambda>v s. enqueue (hop_to r v) s) (nb_targets (out_edges g (rc_vertex r) t)) s) m s"

datatype 'a flow = Stop 'a | Again 'a

definition search_iteration :: "adjacency \<Rightarrow> edge_mask \<Rightarrow> budget \<Rightarrow> search \<Rightarrow> search flow" where
  "search_iteration g m b s0 =
     (case sr_queue s0 of
        [] \<Rightarrow> Stop s0
      | r # rest \<Rightarrow>
          (let s = s0\<lparr>sr_queue := rest, sr_visits := usize_saturating_add (sr_visits s0) 1\<rparr> in
           if sr_visits s > bg_visits b then Stop (s\<lparr>sr_trunc := (sr_trunc s)\<lparr>by_visits := True\<rparr>\<rparr>)
           else if length (sr_found s) \<ge> bg_results b then Stop (s\<lparr>sr_trunc := (sr_trunc s)\<lparr>by_results := True\<rparr>\<rparr>)
           else
             (let s = s\<lparr>sr_found := sr_found s @ [r]\<rparr> in
              if rc_depth r \<ge> bg_depth b then
                Again (if out_degree g (rc_vertex r) m > 0 then s\<lparr>sr_trunc := (sr_trunc s)\<lparr>by_depth := True\<rparr>\<rparr> else s)
              else if out_degree g (rc_vertex r) m > bg_degree b then
                Again (s\<lparr>sr_trunc := (sr_trunc s)\<lparr>suppressed := suppressed (sr_trunc s) @ [rc_vertex r]\<rparr>\<rparr>)
              else Again (expand_from g m r s))))"

fun search_loop :: "nat \<Rightarrow> adjacency \<Rightarrow> edge_mask \<Rightarrow> budget \<Rightarrow> search \<Rightarrow> search option" where
  "search_loop 0 g m b s = None"
| "search_loop (Suc fuel) g m b s =
     (case search_iteration g m b s of Stop s' \<Rightarrow> Some s' | Again s' \<Rightarrow> search_loop fuel g m b s')"

definition reachable ::
    "nat \<Rightarrow> adjacency \<Rightarrow> vertex_id list \<Rightarrow> edge_mask \<Rightarrow> budget \<Rightarrow> reached list bounded option" where
  "reachable fuel g seeds m b =
     map_option (\<lambda>s. bounded_truncated (sr_found s) (sr_trunc s)) (search_loop fuel g m b (search_start g seeds))"

subsection \<open>Edges of the graph\<close>

definition succs :: "adjacency \<Rightarrow> edge_mask \<Rightarrow> vertex_id \<Rightarrow> vertex_id list" where
  "succs g m v = concat (map (\<lambda>t. nb_targets (out_edges g v t)) m)"

definition hops :: "adjacency \<Rightarrow> edge_mask \<Rightarrow> (vertex_id \<times> vertex_id) set" where
  "hops g m = {(u, v). v \<in> set (succs g m u) \<and> vindex v < ad_vertex_count g}"

definition seeds_in :: "adjacency \<Rightarrow> vertex_id list \<Rightarrow> vertex_id set" where
  "seeds_in g seeds = {v \<in> set seeds. vindex v < ad_vertex_count g}"

lemma out_degree_succs: "out_degree g v m = length (succs g m v)"
  by (simp add: out_degree_def succs_def length_concat comp_def)

lemma expand_from_succs: "expand_from g m r s = fold (\<lambda>v s. enqueue (hop_to r v) s) (succs g m (rc_vertex r)) s"
  by (induction m arbitrary: s) (simp_all add: expand_from_def succs_def)

definition seen_set :: "search \<Rightarrow> vertex_id set" where
  "seen_set s = {v. vindex v < length (sr_seen s) \<and> sr_seen s ! vindex v}"

lemma vindex_eq_iff [simp]: "vindex u = vindex v \<longleftrightarrow> u = v"
  by (simp add: vindex_def word_unat_eq_iff)

lemma get_or_seen: "get_or True (sr_seen s) (vindex v) \<longleftrightarrow> vindex v < length (sr_seen s) \<longrightarrow> v \<in> seen_set s"
  by (auto simp: get_or_def seen_set_def)

text \<open>What enqueueing a list of entries leaves behind.\<close>

definition grows :: "search \<Rightarrow> search \<Rightarrow> reached list \<Rightarrow> bool" where
  "grows s s' new \<longleftrightarrow>
     sr_queue s' = sr_queue s @ new \<and> sr_found s' = sr_found s \<and> sr_trunc s' = sr_trunc s \<and> sr_visits s' = sr_visits s \<and>
     length (sr_seen s') = length (sr_seen s) \<and> distinct (map rc_vertex new) \<and>
     seen_set s \<inter> rc_vertex ` set new = {} \<and> seen_set s' = seen_set s \<union> rc_vertex ` set new \<and>
     (\<forall>r \<in> set new. vindex (rc_vertex r) < length (sr_seen s))"

lemma grows_refl: "grows s s []"
  by (simp add: grows_def)

lemma grows_trans: "grows s s' xs \<Longrightarrow> grows s' s'' ys \<Longrightarrow> grows s s'' (xs @ ys)"
proof -
  assume a: "grows s s' xs" and b: "grows s' s'' ys"
  have "seen_set s' = seen_set s \<union> rc_vertex ` set xs" "seen_set s' \<inter> rc_vertex ` set ys = {}"
    "seen_set s'' = seen_set s' \<union> rc_vertex ` set ys" "seen_set s \<inter> rc_vertex ` set xs = {}"
    using a b by (simp_all add: grows_def)
  then have "seen_set s'' = seen_set s \<union> rc_vertex ` set (xs @ ys)" "seen_set s \<inter> rc_vertex ` set (xs @ ys) = {}"
    "rc_vertex ` set xs \<inter> rc_vertex ` set ys = {}" by auto
  then show ?thesis using a b by (auto simp: grows_def)
qed

lemma enqueue_grows: "\<exists>new. grows s (enqueue r s) new \<and> set new \<subseteq> {r} \<and>
    (vindex (rc_vertex r) < length (sr_seen s) \<longrightarrow> rc_vertex r \<in> seen_set (enqueue r s))"
proof (cases "get_or True (sr_seen s) (vindex (rc_vertex r))")
  case True
  then show ?thesis using grows_refl [of s] by (auto simp: enqueue_def get_or_seen)
next
  case False
  then have out: "vindex (rc_vertex r) < length (sr_seen s)" "rc_vertex r \<notin> seen_set s" by (auto simp: get_or_seen)
  have "seen_set (enqueue r s) = seen_set s \<union> {rc_vertex r}"
    using False out by (auto simp: enqueue_def seen_set_def nth_put put_def nth_list_update)
  then have "grows s (enqueue r s) [r]" using False out by (simp add: grows_def enqueue_def)
  then show ?thesis using \<open>seen_set (enqueue r s) = _\<close> by auto
qed

lemma enqueue_all_grows:
  "\<exists>new. grows s (fold (\<lambda>v s. enqueue (f v) s) vs s) new \<and> set new \<subseteq> f ` set vs \<and>
     (\<forall>v \<in> set vs. vindex (rc_vertex (f v)) < length (sr_seen s) \<longrightarrow>
        rc_vertex (f v) \<in> seen_set (fold (\<lambda>v s. enqueue (f v) s) vs s))"
proof (induction vs rule: rev_induct)
  case Nil
  then show ?case using grows_refl by fastforce
next
  case (snoc v vs)
  let ?s = "fold (\<lambda>v s. enqueue (f v) s) vs s"
  obtain new where new: "grows s ?s new" "set new \<subseteq> f ` set vs"
    "\<forall>v \<in> set vs. vindex (rc_vertex (f v)) < length (sr_seen s) \<longrightarrow> rc_vertex (f v) \<in> seen_set ?s"
    using snoc.IH by blast
  obtain new' where new': "grows ?s (enqueue (f v) ?s) new'" "set new' \<subseteq> {f v}"
    "vindex (rc_vertex (f v)) < length (sr_seen ?s) \<longrightarrow> rc_vertex (f v) \<in> seen_set (enqueue (f v) ?s)"
    using enqueue_grows by blast
  have "seen_set ?s \<subseteq> seen_set (enqueue (f v) ?s)" "length (sr_seen ?s) = length (sr_seen s)"
    using new(1) new'(1) by (auto simp: grows_def)
  then show ?case using new new' grows_trans [OF new(1) new'(1)] by (intro exI [of _ "new @ new'"]) auto
qed

subsection \<open>What holds throughout the search\<close>

abbreviation depth_of :: "reached \<Rightarrow> nat" where
  "depth_of r \<equiv> unat (rc_depth r)"

abbreviation entries :: "search \<Rightarrow> reached list" where
  "entries s \<equiv> sr_found s @ sr_queue s"

text \<open>An entry is a seed, or one hop beyond an entry already expanded.\<close>

definition arrived :: "adjacency \<Rightarrow> edge_mask \<Rightarrow> vertex_id list \<Rightarrow> reached list \<Rightarrow> reached \<Rightarrow> bool" where
  "arrived g m seeds found r \<longleftrightarrow>
     (case rc_via r of
        None \<Rightarrow> rc_depth r = 0 \<and> rc_vertex r \<in> seeds_in g seeds
      | Some u \<Rightarrow> (\<exists>q \<in> set found. rc_vertex q = u \<and> depth_of r = Suc (depth_of q) \<and> (u, rc_vertex r) \<in> hops g m))"

definition entries_inv :: "adjacency \<Rightarrow> edge_mask \<Rightarrow> budget \<Rightarrow> vertex_id list \<Rightarrow> search \<Rightarrow> bool" where
  "entries_inv g m b seeds s \<longleftrightarrow>
     length (sr_seen s) = ad_vertex_count g \<and> seen_set s = rc_vertex ` set (entries s) \<and>
     distinct (map rc_vertex (entries s)) \<and>
     (\<forall>r \<in> set (entries s). vindex (rc_vertex r) < ad_vertex_count g \<and> rc_depth r \<le> bg_depth b \<and> arrived g m seeds (sr_found s) r) \<and>
     (\<forall>v \<in> seeds_in g seeds. \<exists>r \<in> set (entries s). rc_vertex r = v \<and> rc_depth r = 0) \<and>
     length (sr_found s) \<le> bg_results b"

definition levels_inv :: "search \<Rightarrow> bool" where
  "levels_inv s \<longleftrightarrow>
     sorted (map depth_of (entries s)) \<and> (\<forall>r \<in> set (sr_queue s). depth_of r \<le> Suc (depth_of (hd (sr_queue s))))"

definition passed_over :: "adjacency \<Rightarrow> edge_mask \<Rightarrow> budget \<Rightarrow> reached \<Rightarrow> bool" where
  "passed_over g m b q \<longleftrightarrow> rc_depth q < bg_depth b \<and> out_degree g (rc_vertex q) m > bg_degree b"

definition expanded_inv :: "adjacency \<Rightarrow> edge_mask \<Rightarrow> budget \<Rightarrow> search \<Rightarrow> bool" where
  "expanded_inv g m b s \<longleftrightarrow>
     (\<forall>q \<in> set (sr_found s). rc_depth q < bg_depth b \<and> \<not> passed_over g m b q \<longrightarrow>
        (\<forall>v. (rc_vertex q, v) \<in> hops g m \<longrightarrow> (\<exists>r \<in> set (entries s). rc_vertex r = v \<and> depth_of r \<le> Suc (depth_of q)))) \<and>
     (\<forall>q \<in> set (sr_found s). \<not> rc_depth q < bg_depth b \<and> \<not> by_depth (sr_trunc s) \<longrightarrow> succs g m (rc_vertex q) = []) \<and>
     set (suppressed (sr_trunc s)) = rc_vertex ` {q \<in> set (sr_found s). passed_over g m b q} \<and>
     \<not> by_visits (sr_trunc s) \<and> \<not> by_results (sr_trunc s)"

definition search_inv :: "adjacency \<Rightarrow> edge_mask \<Rightarrow> budget \<Rightarrow> vertex_id list \<Rightarrow> search \<Rightarrow> bool" where
  "search_inv g m b seeds s \<longleftrightarrow> entries_inv g m b seeds s \<and> levels_inv s \<and> expanded_inv g m b s"

lemma arrived_mono: "arrived g m seeds found r \<Longrightarrow> set found \<subseteq> set found' \<Longrightarrow> arrived g m seeds found' r"
  by (auto simp: arrived_def split: option.splits)

lemma start_inv: "search_inv g m b seeds (search_start g seeds)"
proof -
  let ?s0 = "\<lparr>sr_seen = replicate (ad_vertex_count g) False, sr_found = [], sr_trunc = not_truncated, sr_queue = [], sr_visits = 0\<rparr>"
  let ?f = "\<lambda>v. \<lparr>rc_vertex = v, rc_depth = 0, rc_via = None, rc_at = I64_MIN\<rparr>"
  let ?vs = "filter (\<lambda>v. vindex v < ad_vertex_count g) seeds"
  have "fold (enqueue_seed g) seeds s = fold (\<lambda>v s. enqueue (?f v) s) ?vs s" for s
    by (induction seeds arbitrary: s) (auto simp: enqueue_seed_def)
  then have start: "search_start g seeds = fold (\<lambda>v s. enqueue (?f v) s) ?vs ?s0" by (simp add: search_start_def)
  obtain new where new: "grows ?s0 (search_start g seeds) new" "set new \<subseteq> ?f ` set ?vs"
    "\<forall>v \<in> set ?vs. vindex v < ad_vertex_count g \<longrightarrow> v \<in> seen_set (search_start g seeds)"
    using enqueue_all_grows [of ?s0 ?f ?vs] unfolding start by auto
  have s0: "seen_set ?s0 = {}" by (auto simp: seen_set_def)
  have shape: "sr_queue (search_start g seeds) = new" "sr_found (search_start g seeds) = []"
    "sr_trunc (search_start g seeds) = not_truncated" "length (sr_seen (search_start g seeds)) = ad_vertex_count g"
    "seen_set (search_start g seeds) = rc_vertex ` set new" "distinct (map rc_vertex new)"
    using new(1) by (auto simp: grows_def s0)
  have seeds: "rc_vertex r \<in> seeds_in g seeds \<and> rc_depth r = 0 \<and> rc_via r = None" if "r \<in> set new" for r
    using that new(2) by (auto simp: seeds_in_def)
  have "\<exists>r \<in> set new. rc_vertex r = v \<and> rc_depth r = 0" if "v \<in> seeds_in g seeds" for v
  proof -
    have "v \<in> rc_vertex ` set new" using that new(3) shape(5) by (auto simp: seeds_in_def)
    then show ?thesis using seeds by auto
  qed
  then have "entries_inv g m b seeds (search_start g seeds)"
    unfolding entries_inv_def using shape seeds by (auto simp: arrived_def seeds_in_def)
  moreover have "levels_inv (search_start g seeds)"
    using seeds shape by (auto simp: levels_inv_def sorted_wrt_iff_nth_less sorted_iff_nth_mono)
  moreover have "expanded_inv g m b (search_start g seeds)" by (simp add: expanded_inv_def shape not_truncated_def)
  ultimately show ?thesis by (simp add: search_inv_def)
qed

text \<open>One entry moves from the queue to the results, and its hops join the queue.\<close>

lemma step_entries:
  assumes inv: "entries_inv g m b seeds s" "sr_queue s = r # rest" "length (sr_found s) < bg_results b"
    and s': "sr_found s' = sr_found s @ [r]" "sr_queue s' = rest @ new" "length (sr_seen s') = ad_vertex_count g"
      "seen_set s' = seen_set s \<union> rc_vertex ` set new" "seen_set s \<inter> rc_vertex ` set new = {}" "distinct (map rc_vertex new)"
    and new: "\<forall>x \<in> set new. vindex (rc_vertex x) < ad_vertex_count g \<and> rc_depth x \<le> bg_depth b \<and>
      rc_via x = Some (rc_vertex r) \<and> depth_of x = Suc (depth_of r) \<and> (rc_vertex r, rc_vertex x) \<in> hops g m"
  shows "entries_inv g m b seeds s'"
proof -
  have entries: "entries s' = entries s @ new" using inv(2) s'(1,2) by simp
  have "seen_set s' = rc_vertex ` set (entries s')"
    using inv(1) s'(4) unfolding entries entries_inv_def by auto
  moreover have "distinct (map rc_vertex (entries s'))"
    using inv(1) s'(5,6) unfolding entries entries_inv_def by auto
  moreover have "arrived g m seeds (sr_found s') x" if "x \<in> set (entries s)" for x
    using inv(1) that s'(1) arrived_mono [of g m seeds "sr_found s" x "sr_found s'"]
    by (simp add: entries_inv_def subset_insertI)
  moreover have "arrived g m seeds (sr_found s') x" if "x \<in> set new" for x
    using new that by (simp add: arrived_def s'(1))
  ultimately show ?thesis
    using inv s'(1,3) new unfolding entries_inv_def entries by auto
qed

lemma step_levels:
  assumes "levels_inv s" "sr_queue s = r # rest" "sr_found s' = sr_found s @ [r]" "sr_queue s' = rest @ new"
    "\<forall>x \<in> set new. depth_of x = Suc (depth_of r)"
  shows "levels_inv s' \<and> (\<forall>x \<in> set (entries s'). depth_of x \<le> Suc (depth_of r))"
proof -
  have entries: "entries s' = sr_found s @ (r # rest) @ new" using assms(2-4) by simp
  have old: "sorted (map depth_of (sr_found s @ r # rest))" "\<forall>x \<in> set rest. depth_of x \<le> Suc (depth_of r)"
    using assms(1,2) by (auto simp: levels_inv_def)
  then have le: "\<forall>x \<in> set (sr_found s). depth_of x \<le> depth_of r" "\<forall>x \<in> set rest. depth_of r \<le> depth_of x"
    by (auto simp: sorted_append)
  have all: "depth_of x \<le> Suc (depth_of r)" if "x \<in> set (entries s')" for x
    using that le(1) old(2) assms(5) unfolding entries by fastforce
  have "sorted (map depth_of new)" using assms(5) by (auto simp: sorted_iff_nth_mono)
  then have "sorted (map depth_of (entries s'))"
    using old le assms(5) unfolding entries by (fastforce simp: sorted_append)
  moreover have "depth_of x \<le> Suc (depth_of (hd (sr_queue s')))" if "x \<in> set (sr_queue s')" for x
  proof -
    have "hd (sr_queue s') \<in> set (rest @ new)" using that assms(4) by (metis empty_iff empty_set hd_in_set)
    then have "depth_of r \<le> depth_of (hd (sr_queue s'))" using le(2) assms(5) by auto
    then show ?thesis using all [of x] that by simp
  qed
  ultimately show ?thesis using all by (auto simp: levels_inv_def)
qed

lemma step_expanded:
  assumes "expanded_inv g m b s" "sr_queue s = r # rest" "sr_found s' = sr_found s @ [r]" "sr_queue s' = rest @ new"
    and trunc: "\<not> by_visits (sr_trunc s')" "\<not> by_results (sr_trunc s')" "by_depth (sr_trunc s) \<Longrightarrow> by_depth (sr_trunc s')"
      "\<not> rc_depth r < bg_depth b \<Longrightarrow> \<not> by_depth (sr_trunc s') \<Longrightarrow> succs g m (rc_vertex r) = []"
      "set (suppressed (sr_trunc s')) = set (suppressed (sr_trunc s)) \<union> (if passed_over g m b r then {rc_vertex r} else {})"
    and reach: "rc_depth r < bg_depth b \<Longrightarrow> \<not> passed_over g m b r \<Longrightarrow>
      \<forall>v. (rc_vertex r, v) \<in> hops g m \<longrightarrow> (\<exists>x \<in> set (entries s'). rc_vertex x = v \<and> depth_of x \<le> Suc (depth_of r))"
  shows "expanded_inv g m b s'"
proof -
  have sub: "set (entries s) \<subseteq> set (entries s')" using assms(2-4) by auto
  show ?thesis
    unfolding expanded_inv_def
  proof (intro conjI ballI impI allI)
    fix q v assume q: "q \<in> set (sr_found s')" "rc_depth q < bg_depth b \<and> \<not> passed_over g m b q" "(rc_vertex q, v) \<in> hops g m"
    show "\<exists>x \<in> set (entries s'). rc_vertex x = v \<and> depth_of x \<le> Suc (depth_of q)"
    proof (cases "q \<in> set (sr_found s)")
      case True
      then have "\<exists>x \<in> set (entries s). rc_vertex x = v \<and> depth_of x \<le> Suc (depth_of q)"
        using assms(1) q by (simp add: expanded_inv_def)
      then show ?thesis using sub by blast
    qed (use q reach assms(3) in auto)
  next
    fix q assume "q \<in> set (sr_found s')" "\<not> rc_depth q < bg_depth b \<and> \<not> by_depth (sr_trunc s')"
    then show "succs g m (rc_vertex q) = []"
      using assms(1,3) trunc(3,4) by (auto simp: expanded_inv_def)
  next
    show "set (suppressed (sr_trunc s')) = rc_vertex ` {q \<in> set (sr_found s'). passed_over g m b q}"
      using assms(1,3) trunc(5) by (auto simp: expanded_inv_def)
  qed (use trunc in auto)
qed

definition stopped :: "adjacency \<Rightarrow> edge_mask \<Rightarrow> budget \<Rightarrow> vertex_id list \<Rightarrow> search \<Rightarrow> bool" where
  "stopped g m b seeds s \<longleftrightarrow>
     distinct (map rc_vertex (sr_found s)) \<and> length (sr_found s) \<le> bg_results b \<and>
     (\<forall>r \<in> set (sr_found s). rc_depth r \<le> bg_depth b \<and> arrived g m seeds (sr_found s) r) \<and>
     (by_visits (sr_trunc s) \<or> by_results (sr_trunc s) \<or> search_inv g m b seeds s \<and> sr_queue s = [])"

lemma depth_hop:
  assumes "rc_depth r < bg_depth b"
  shows "depth_of (hop_to r v) = Suc (depth_of r)" "rc_depth (hop_to r v) \<le> bg_depth b"
proof -
  have "unat (rc_depth r) < unat (bg_depth b)" "unat (bg_depth b) < 2 ^ 32"
    using assms unsigned_less [of "bg_depth b"] by (simp_all add: word_less_nat_alt)
  then show "depth_of (hop_to r v) = Suc (depth_of r)" by (simp add: hop_to_def unat_saturating_add)
  with \<open>unat (rc_depth r) < unat (bg_depth b)\<close> show "rc_depth (hop_to r v) \<le> bg_depth b" by (simp add: word_le_nat_alt)
qed

lemma iteration_expands:
  assumes "search_inv g m b seeds s" "sr_queue s = r # rest" "length (sr_found s) < bg_results b"
    and s1: "s1 = s\<lparr>sr_queue := rest, sr_visits := v, sr_found := sr_found s @ [r]\<rparr>"
  shows "rc_depth r < bg_depth b \<Longrightarrow> out_degree g (rc_vertex r) m \<le> bg_degree b \<Longrightarrow> search_inv g m b seeds (expand_from g m r s1)"
    and "rc_depth r < bg_depth b \<Longrightarrow> out_degree g (rc_vertex r) m > bg_degree b \<Longrightarrow>
      search_inv g m b seeds (s1\<lparr>sr_trunc := (sr_trunc s)\<lparr>suppressed := suppressed (sr_trunc s) @ [rc_vertex r]\<rparr>\<rparr>)"
    and "\<not> rc_depth r < bg_depth b \<Longrightarrow> 0 < out_degree g (rc_vertex r) m \<Longrightarrow>
      search_inv g m b seeds (s1\<lparr>sr_trunc := (sr_trunc s)\<lparr>by_depth := True\<rparr>\<rparr>)"
    and "\<not> rc_depth r < bg_depth b \<Longrightarrow> out_degree g (rc_vertex r) m = 0 \<Longrightarrow> search_inv g m b seeds s1"
proof -
  have inv: "entries_inv g m b seeds s" "levels_inv s" "expanded_inv g m b s" using assms(1) by (simp_all add: search_inv_def)
  have len: "length (sr_seen s) = ad_vertex_count g" using inv(1) by (simp add: entries_inv_def)
  have trunc: "\<not> by_visits (sr_trunc s)" "\<not> by_results (sr_trunc s)" using inv(3) by (simp_all add: expanded_inv_def)
  have seen: "seen_set (s\<lparr>sr_queue := q, sr_visits := v, sr_found := f\<rparr>) = seen_set s"
      "seen_set (s\<lparr>sr_queue := q, sr_visits := v, sr_found := f, sr_trunc := t\<rparr>) = seen_set s" for q f t
    by (simp_all add: seen_set_def)
  {
    fix s' :: search assume s': "sr_found s' = sr_found s @ [r]" "sr_queue s' = rest" "sr_seen s' = sr_seen s"
    then have "entries_inv g m b seeds s'"
      by (intro step_entries [OF inv(1) assms(2,3), of s' "[]"]) (simp_all add: len seen_set_def)
    moreover have "levels_inv s'" using step_levels [OF inv(2) assms(2), of s' "[]"] s' by simp
    ultimately have "entries_inv g m b seeds s' \<and> levels_inv s'" by simp
  } note moved = this
  {
    assume "rc_depth r < bg_depth b" "out_degree g (rc_vertex r) m > bg_degree b"
    then show "search_inv g m b seeds (s1\<lparr>sr_trunc := (sr_trunc s)\<lparr>suppressed := suppressed (sr_trunc s) @ [rc_vertex r]\<rparr>\<rparr>)"
      unfolding search_inv_def using moved [of "s1\<lparr>sr_trunc := (sr_trunc s)\<lparr>suppressed := suppressed (sr_trunc s) @ [rc_vertex r]\<rparr>\<rparr>"]
      by (intro conjI step_expanded [OF inv(3) assms(2), of _ "[]"]) (simp_all add: s1 trunc passed_over_def)
  next
    assume "\<not> rc_depth r < bg_depth b" "0 < out_degree g (rc_vertex r) m"
    then show "search_inv g m b seeds (s1\<lparr>sr_trunc := (sr_trunc s)\<lparr>by_depth := True\<rparr>\<rparr>)"
      unfolding search_inv_def using moved [of "s1\<lparr>sr_trunc := (sr_trunc s)\<lparr>by_depth := True\<rparr>\<rparr>"]
      by (intro conjI step_expanded [OF inv(3) assms(2), of _ "[]"]) (simp_all add: s1 trunc passed_over_def)
  next
    assume "\<not> rc_depth r < bg_depth b" "out_degree g (rc_vertex r) m = 0"
    then show "search_inv g m b seeds s1"
      unfolding search_inv_def using moved [of s1]
      by (intro conjI step_expanded [OF inv(3) assms(2), of _ "[]"]) (simp_all add: s1 trunc passed_over_def out_degree_succs)
  next
    assume expand: "rc_depth r < bg_depth b" "out_degree g (rc_vertex r) m \<le> bg_degree b"
    let ?s' = "expand_from g m r s1"
    obtain new where new: "grows s1 ?s' new" "set new \<subseteq> hop_to r ` set (succs g m (rc_vertex r))"
      "\<forall>v \<in> set (succs g m (rc_vertex r)). vindex v < ad_vertex_count g \<longrightarrow> v \<in> seen_set ?s'"
      using enqueue_all_grows [of s1 "hop_to r" "succs g m (rc_vertex r)"] len
      unfolding expand_from_succs by (auto simp: hop_to_def s1)
    have s': "sr_found ?s' = sr_found s @ [r]" "sr_queue ?s' = rest @ new" "length (sr_seen ?s') = ad_vertex_count g"
      "seen_set ?s' = seen_set s \<union> rc_vertex ` set new" "seen_set s \<inter> rc_vertex ` set new = {}" "distinct (map rc_vertex new)"
      "sr_trunc ?s' = sr_trunc s"
      using new(1) len by (simp_all add: grows_def s1 seen)
    have fresh: "vindex (rc_vertex x) < ad_vertex_count g \<and> rc_depth x \<le> bg_depth b \<and> rc_via x = Some (rc_vertex r) \<and>
        depth_of x = Suc (depth_of r) \<and> (rc_vertex r, rc_vertex x) \<in> hops g m" if x: "x \<in> set new" for x
    proof -
      obtain v where v: "x = hop_to r v" "v \<in> set (succs g m (rc_vertex r))" using x new(2) by auto
      have "vindex (rc_vertex x) < ad_vertex_count g" using new(1) x len by (simp add: grows_def s1)
      then show ?thesis using depth_hop [of r b v] expand(1) v by (simp add: hops_def hop_to_def)
    qed
    have entries: "entries_inv g m b seeds ?s'"
      by (rule step_entries [OF inv(1) assms(2,3) s'(1-6)]) (use fresh in blast)
    have levels: "levels_inv ?s' \<and> (\<forall>x \<in> set (entries ?s'). depth_of x \<le> Suc (depth_of r))"
      by (rule step_levels [OF inv(2) assms(2) s'(1,2)]) (use fresh in blast)
    have "\<exists>x \<in> set (entries ?s'). rc_vertex x = v \<and> depth_of x \<le> Suc (depth_of r)" if "(rc_vertex r, v) \<in> hops g m" for v
    proof -
      have "v \<in> seen_set ?s'" using that new(3) by (simp add: hops_def)
      then have "v \<in> rc_vertex ` set (entries ?s')" using entries by (simp add: entries_inv_def)
      then show ?thesis using levels by fastforce
    qed
    then have "expanded_inv g m b ?s'"
      using expand by (intro step_expanded [OF inv(3) assms(2) s'(1,2)]) (simp_all add: s'(7) trunc passed_over_def)
    then show "search_inv g m b seeds ?s'" using entries levels by (simp add: search_inv_def)
  }
qed

lemma iteration_inv:
  assumes "search_inv g m b seeds s"
  shows "case search_iteration g m b s of
      Stop s' \<Rightarrow> stopped g m b seeds s'
    | Again s' \<Rightarrow> search_inv g m b seeds s' \<and> length (sr_found s') = Suc (length (sr_found s))"
proof -
  have found: "distinct (map rc_vertex (sr_found s))" "length (sr_found s) \<le> bg_results b"
    "\<forall>r \<in> set (sr_found s). rc_depth r \<le> bg_depth b \<and> arrived g m seeds (sr_found s) r"
    using assms by (auto simp: search_inv_def entries_inv_def)
  show ?thesis
  proof (cases "sr_queue s")
    case Nil
    then show ?thesis using assms found by (simp add: search_iteration_def stopped_def)
  next
    case (Cons r rest)
    let ?v = "usize_saturating_add (sr_visits s) 1"
    show ?thesis
    proof (cases "?v > bg_visits b \<or> length (sr_found s) \<ge> bg_results b")
      case True
      then show ?thesis using found Cons by (auto simp: search_iteration_def stopped_def Let_def)
    next
      case False
      then have "length (sr_found s) < bg_results b" by simp
      note expands = iteration_expands [OF assms Cons this refl, of ?v]
      have "length (sr_found (expand_from g m r s')) = length (sr_found s')" for s'
        using enqueue_all_grows [of s' "hop_to r" "succs g m (rc_vertex r)"] unfolding expand_from_succs grows_def by auto
      with expands Cons False show ?thesis
        by (auto simp: search_iteration_def Let_def not_less not_le)
    qed
  qed
qed

lemma found_bounded: "search_inv g m b seeds s \<Longrightarrow> length (sr_found s) \<le> ad_vertex_count g"
proof -
  assume "search_inv g m b seeds s"
  then have d: "distinct (map vindex (map rc_vertex (sr_found s)))" "set (map vindex (map rc_vertex (sr_found s))) \<subseteq> {..<ad_vertex_count g}"
    by (auto simp: search_inv_def entries_inv_def distinct_map inj_on_def)
  have "length (sr_found s) = card (set (map vindex (map rc_vertex (sr_found s))))"
    using distinct_card [OF d(1)] by simp
  also have "\<dots> \<le> card {..<ad_vertex_count g}" by (rule card_mono [OF _ d(2)]) simp
  finally show ?thesis by simp
qed

lemma loop_returns:
  assumes "search_inv g m b seeds s" "ad_vertex_count g < length (sr_found s) + fuel"
  shows "\<exists>s'. search_loop (fuel + extra) g m b s = Some s' \<and> stopped g m b seeds s' \<and>
    search_loop fuel g m b s = Some s'"
  using assms
proof (induction fuel arbitrary: s)
  case 0
  then show ?case using found_bounded by fastforce
next
  case (Suc fuel)
  show ?case
  proof (cases "search_iteration g m b s")
    case (Again s')
    then show ?thesis using Suc iteration_inv [OF Suc.prems(1)] by simp
  qed (use iteration_inv [OF Suc.prems(1)] in simp)
qed

text \<open>
  C35: Whatever the graph, the seeds and the budget, the traversal returns within one iteration more than the graph has
  vertices, and a longer allowance changes nothing.
\<close>

theorem traversal_returns:
  "\<exists>r. reachable (Suc (ad_vertex_count g)) g seeds m b = Some r \<and> reachable (Suc (ad_vertex_count g) + extra) g seeds m b = Some r"
  using loop_returns [OF start_inv, of g seeds "Suc (ad_vertex_count g)" extra m b] unfolding reachable_def by fastforce

subsection \<open>What the search finds\<close>

definition at_distance :: "adjacency \<Rightarrow> edge_mask \<Rightarrow> vertex_id list \<Rightarrow> vertex_id \<Rightarrow> nat \<Rightarrow> bool" where
  "at_distance g m seeds v k \<longleftrightarrow>
     v \<in> (hops g m ^^ k) `` seeds_in g seeds \<and> (\<forall>j < k. v \<notin> (hops g m ^^ j) `` seeds_in g seeds)"

lemma arrived_path:
  assumes "\<forall>r \<in> set found. arrived g m seeds found r" "r \<in> set found"
  shows "rc_vertex r \<in> (hops g m ^^ depth_of r) `` seeds_in g seeds"
  using assms(2)
proof (induction "depth_of r" arbitrary: r)
  case 0
  then show ?case using assms(1) by (fastforce simp: arrived_def split: option.splits)
next
  case (Suc k)
  have "arrived g m seeds found r" using assms(1) Suc.prems by blast
  then obtain q where q: "q \<in> set found" "depth_of r = Suc (depth_of q)" "(rc_vertex q, rc_vertex r) \<in> hops g m"
    using Suc.hyps(2) by (auto simp: arrived_def split: option.splits)
  then have "rc_vertex q \<in> (hops g m ^^ depth_of q) `` seeds_in g seeds" using Suc by simp
  then show ?case using q(3) unfolding q(2) by auto
qed

lemma exhausted_reaches:
  assumes "search_inv g m b seeds s" "sr_queue s = []" "suppressed (sr_trunc s) = []" "k \<le> unat (bg_depth b)"
    "v \<in> (hops g m ^^ k) `` seeds_in g seeds"
  shows "\<exists>x \<in> set (sr_found s). rc_vertex x = v \<and> depth_of x \<le> k"
  using assms(4,5)
proof (induction k arbitrary: v)
  case 0
  then show ?case using assms(1,2) by (fastforce simp: search_inv_def entries_inv_def)
next
  case (Suc k)
  then obtain u where "u \<in> (hops g m ^^ k) `` seeds_in g seeds" and hop: "(u, v) \<in> hops g m" by auto
  with Suc obtain q where q: "q \<in> set (sr_found s)" "rc_vertex q = u" "depth_of q \<le> k" by fastforce
  have "rc_depth q < bg_depth b" using q(3) Suc.prems(1) by (simp add: word_less_nat_alt)
  moreover have "\<not> passed_over g m b q" using assms(1,3) q(1) by (auto simp: search_inv_def expanded_inv_def)
  ultimately have "\<exists>x \<in> set (entries s). rc_vertex x = v \<and> depth_of x \<le> Suc (depth_of q)"
    using assms(1) q(1,2) hop unfolding search_inv_def expanded_inv_def by blast
  then show ?case using assms(2) q(3) by fastforce
qed

lemma exhausted_closed:
  assumes "search_inv g m b seeds s" "sr_queue s = []" "is_complete (sr_trunc s)"
  shows "rc_vertex ` set (sr_found s) = (hops g m)\<^sup>* `` seeds_in g seeds"
proof (intro equalityI subsetI)
  fix v assume "v \<in> rc_vertex ` set (sr_found s)"
  then obtain r where r: "r \<in> set (sr_found s)" "v = rc_vertex r" by auto
  have "\<forall>r \<in> set (sr_found s). arrived g m seeds (sr_found s) r" using assms(1) by (auto simp: search_inv_def entries_inv_def)
  from arrived_path [OF this r(1)] show "v \<in> (hops g m)\<^sup>* `` seeds_in g seeds"
    unfolding r(2) using relpow_imp_rtrancl by blast
next
  fix v assume "v \<in> (hops g m)\<^sup>* `` seeds_in g seeds"
  then obtain u where "u \<in> seeds_in g seeds" "(u, v) \<in> (hops g m)\<^sup>*" by auto
  from this(2,1) show "v \<in> rc_vertex ` set (sr_found s)"
  proof (induction rule: rtrancl_induct)
    case base
    then show ?case using assms(1,2) by (fastforce simp: search_inv_def entries_inv_def)
  next
    case (step v w)
    then obtain q where q: "q \<in> set (sr_found s)" "rc_vertex q = v" by auto
    have inv: "expanded_inv g m b s" using assms(1) by (simp add: search_inv_def)
    have "succs g m v \<noteq> []" using step(2) by (auto simp: hops_def)
    then have "rc_depth q < bg_depth b" using inv assms(3) q by (auto simp: expanded_inv_def is_complete_def)
    moreover have "\<not> passed_over g m b q" using inv assms(3) q(1) by (auto simp: expanded_inv_def is_complete_def)
    ultimately have "\<exists>x \<in> set (entries s). rc_vertex x = w" using inv q step(2) unfolding expanded_inv_def by blast
    then show ?case using assms(2) by auto
  qed
qed

text \<open>
  C36: A traversal reports each vertex once, as a seed or one hop beyond a vertex it also reports, within the budget's
  results and depth; cut off by nothing but depth, it reports exactly the vertices within that distance, each at its
  least distance; and one that calls itself complete reports exactly what can be reached.
\<close>

theorem traversal_is_breadth_first:
  assumes "reachable (Suc (ad_vertex_count g)) g seeds m b = Some r"
  shows "distinct (map rc_vertex (bn_found r)) \<and> length (bn_found r) \<le> bg_results b \<and>
    (\<forall>x \<in> set (bn_found r). rc_depth x \<le> bg_depth b \<and> arrived g m seeds (bn_found r) x) \<and>
    (\<not> by_visits (bn_truncation r) \<and> \<not> by_results (bn_truncation r) \<and> suppressed (bn_truncation r) = [] \<longrightarrow>
      (\<forall>v k. (\<exists>x \<in> set (bn_found r). rc_vertex x = v \<and> depth_of x = k) \<longleftrightarrow> k \<le> unat (bg_depth b) \<and> at_distance g m seeds v k)) \<and>
    (is_complete (bn_truncation r) \<longrightarrow> rc_vertex ` set (bn_found r) = (hops g m)\<^sup>* `` seeds_in g seeds)"
proof -
  obtain s where s: "search_loop (Suc (ad_vertex_count g)) g m b (search_start g seeds) = Some s" "stopped g m b seeds s"
    using loop_returns [OF start_inv, of g seeds "Suc (ad_vertex_count g)" 0 m b] by fastforce
  then have r: "bn_found r = sr_found s" "bn_truncation r = sr_trunc s"
    using assms by (auto simp: reachable_def bounded_truncated_def simp del: search_loop.simps)
  have found: "distinct (map rc_vertex (sr_found s))" "length (sr_found s) \<le> bg_results b"
    "\<forall>x \<in> set (sr_found s). rc_depth x \<le> bg_depth b \<and> arrived g m seeds (sr_found s) x"
    using s(2) by (simp_all add: stopped_def)
  have distance: "(\<exists>x \<in> set (sr_found s). rc_vertex x = v \<and> depth_of x = k) \<longleftrightarrow> k \<le> unat (bg_depth b) \<and> at_distance g m seeds v k"
    if cut: "\<not> by_visits (sr_trunc s)" "\<not> by_results (sr_trunc s)" "suppressed (sr_trunc s) = []" for v k
  proof -
    have inv: "search_inv g m b seeds s" "sr_queue s = []" using s(2) cut by (auto simp: stopped_def)
    note reaches = exhausted_reaches [OF inv cut(3)]
    have path: "rc_vertex x \<in> (hops g m ^^ depth_of x) `` seeds_in g seeds" if "x \<in> set (sr_found s)" for x
      by (rule arrived_path [OF _ that]) (use found(3) in blast)
    have le: "depth_of x \<le> unat (bg_depth b)" if "x \<in> set (sr_found s)" for x
      using found(3) that by (simp add: word_le_nat_alt)
    show ?thesis
    proof
      assume "\<exists>x \<in> set (sr_found s). rc_vertex x = v \<and> depth_of x = k"
      then obtain x where x: "x \<in> set (sr_found s)" "rc_vertex x = v" "depth_of x = k" by blast
      have "v \<notin> (hops g m ^^ j) `` seeds_in g seeds" if "j < k" for j
      proof
        assume "v \<in> (hops g m ^^ j) `` seeds_in g seeds"
        then obtain y where y: "y \<in> set (sr_found s)" "rc_vertex y = v" "depth_of y \<le> j"
          using reaches [of j v] le [OF x(1)] x(3) \<open>j < k\<close> by auto
        then have "y = x" using found(1) x by (auto simp: distinct_map inj_on_def)
        then show False using y(3) x(3) \<open>j < k\<close> by simp
      qed
      then show "k \<le> unat (bg_depth b) \<and> at_distance g m seeds v k"
        using path [OF x(1)] le [OF x(1)] x(2,3) by (auto simp: at_distance_def)
    next
      assume k: "k \<le> unat (bg_depth b) \<and> at_distance g m seeds v k"
      then obtain x where x: "x \<in> set (sr_found s)" "rc_vertex x = v" "depth_of x \<le> k"
        using reaches [of k v] by (auto simp: at_distance_def)
      have "\<not> depth_of x < k" using k path [OF x(1)] x(2) by (auto simp: at_distance_def)
      then show "\<exists>x \<in> set (sr_found s). rc_vertex x = v \<and> depth_of x = k" using x by auto
    qed
  qed
  have complete: "rc_vertex ` set (sr_found s) = (hops g m)\<^sup>* `` seeds_in g seeds" if "is_complete (sr_trunc s)"
    using that s(2) by (intro exhausted_closed [of g m b]) (auto simp: stopped_def is_complete_def)
  show ?thesis
    unfolding r using found distance complete by blast
qed

definition sample_graph :: adjacency where
  "sample_graph =
     \<lparr>ad_vertex_count = 2, ad_min_weight = F64_ONE,
      ad_outgoing = [\<lparr>sg_offsets = [0, 1, 1], sg_targets = [1], sg_validity = [validity_always], sg_weights = [F64_ONE]\<rparr>],
      ad_incoming = [\<lparr>sg_offsets = [0, 0, 1], sg_targets = [0], sg_validity = [validity_always], sg_weights = [F64_ONE]\<rparr>]\<rparr>"

lemma sample_neighbours:
  "nb_targets (out_edges sample_graph 0 0) = [1]" "nb_targets (out_edges sample_graph 1 0) = []"
  by (simp_all add: out_edges_def slice_of_def segment_run_def sub_slice_def sample_graph_def get_or_def vindex_def
      usize_saturating_add_def USIZE_MAX_def Let_def)

lemma sample_start:
  "search_start sample_graph [0] =
     \<lparr>sr_seen = [True, False], sr_found = [], sr_trunc = not_truncated,
      sr_queue = [\<lparr>rc_vertex = 0, rc_depth = 0, rc_via = None, rc_at = I64_MIN\<rparr>], sr_visits = 0\<rparr>"
  by (simp add: search_start_def enqueue_seed_def enqueue_def sample_graph_def get_or_def put_def vindex_def numeral_2_eq_2)

lemma sample_count: "usize_saturating_add n (Suc 0) = Suc n" if "n < 10"
  using that by (simp add: usize_saturating_add_def USIZE_MAX_def)

lemma sample_search:
  "map_option (\<lambda>r. is_complete (bn_truncation r)) (reachable 3 sample_graph [0] [0] budget_interactive) = Some True"
proof -
  have fuel: "3 = Suc (Suc (Suc 0))" by simp
  note simps = search_iteration_def sample_start sample_neighbours sample_count budget_interactive_def out_degree_def
    expand_from_def enqueue_def hop_to_def get_or_def put_def vindex_def not_truncated_def is_complete_def
    bounded_truncated_def Let_def
  show ?thesis unfolding reachable_def fuel by (simp add: simps)
qed

theorem traversal_is_breadth_first_witness:
  "\<exists>r. reachable 3 sample_graph [0] [0] budget_interactive = Some r \<and> is_complete (bn_truncation r) \<and>
     rc_vertex ` set (bn_found r) = (hops sample_graph [0])\<^sup>* `` seeds_in sample_graph [0]"
proof -
  obtain r where r: "reachable 3 sample_graph [0] [0] budget_interactive = Some r" "is_complete (bn_truncation r)"
    using sample_search by auto
  then show ?thesis
    using traversal_is_breadth_first [of sample_graph "[0]" "[0]" budget_interactive r] by (auto simp: sample_graph_def)
qed

end
