(* ===== verification/Graph_Components.thy ===== *)
theory Graph_Components
  imports Graph_Traverse
begin

text \<open>
  Connected components: \<^verbatim>\<open>crates/sankhya-graph-algo/src/components.rs\<close>. The inner loop of
  \<open>weakly_connected\<close> runs on fuel, one more than the vertices there are, shown to be enough.
\<close>

subsection \<open>Components\<close>

definition NO_LABEL :: u32 where "NO_LABEL = - 1"

record components =
  cm_label :: "u32 list"
  cm_count :: u32

definition label_of :: "components \<Rightarrow> vertex_id \<Rightarrow> u32 option" where
  "label_of c v = (if vindex v < length (cm_label c) then Some (cm_label c ! vindex v) else None)"

definition vertex_at :: "nat \<Rightarrow> vertex_id" where
  "vertex_at i = u32_of_len i"

definition groups :: "components \<Rightarrow> vertex_id list list" where
  "groups c =
     fold (\<lambda>i out. let l = unat (cm_label c ! i) in
             if l < length out then out[l := out ! l @ [vertex_at i]] else out)
       [0..<length (cm_label c)] (replicate (unat (cm_count c)) [])"

definition largest :: "components \<Rightarrow> nat" where
  "largest c = fold max (map length (groups c)) 0"

subsection \<open>Weakly connected components\<close>

record labelling =
  lb_label :: "u32 list"
  lb_stack :: "vertex_id list"
  lb_visits :: nat

definition neighbours_both :: "adjacency \<Rightarrow> vertex_id \<Rightarrow> edge_type \<Rightarrow> vertex_id list" where
  "neighbours_both g v t = nb_targets (out_edges g v t) @ nb_targets (in_edges g v t)"

definition label_vertex :: "u32 \<Rightarrow> vertex_id \<Rightarrow> labelling \<Rightarrow> labelling" where
  "label_vertex l v s =
     (if get_or 0 (lb_label s) (vindex v) \<noteq> NO_LABEL then s
      else s\<lparr>lb_label := put (vindex v) l (lb_label s), lb_stack := v # lb_stack s\<rparr>)"

text \<open>The left side is the early return.\<close>

fun flood :: "nat \<Rightarrow> adjacency \<Rightarrow> edge_mask \<Rightarrow> budget \<Rightarrow> u32 \<Rightarrow> labelling \<Rightarrow> (labelling + labelling) option" where
  "flood 0 g m b l s = None"
| "flood (Suc fuel) g m b l s =
     (case lb_stack s of
        [] \<Rightarrow> Some (Inr s)
      | v # rest \<Rightarrow>
          (let s = s\<lparr>lb_stack := rest, lb_visits := usize_saturating_add (lb_visits s) 1\<rparr> in
           if lb_visits s > bg_visits b then Some (Inl s)
           else flood fuel g m b l (fold (\<lambda>t s. fold (label_vertex l) (neighbours_both g v t) s) m s)))"

fun label_from ::
    "nat \<Rightarrow> adjacency \<Rightarrow> edge_mask \<Rightarrow> budget \<Rightarrow> nat list \<Rightarrow> u32 \<Rightarrow> labelling \<Rightarrow> components bounded option" where
  "label_from fuel g m b [] l s = Some (bounded_truncated \<lparr>cm_label = lb_label s, cm_count = l\<rparr> not_truncated)"
| "label_from fuel g m b (i # is) l s =
     (if get_or 0 (lb_label s) i \<noteq> NO_LABEL then label_from fuel g m b is l s
      else
        (case flood fuel g m b l (s\<lparr>lb_stack := [vertex_at i], lb_label := put i l (lb_label s)\<rparr>) of
           None \<Rightarrow> None
         | Some (Inl s) \<Rightarrow>
             Some (bounded_truncated \<lparr>cm_label = lb_label s, cm_count = word_saturating_add l 1\<rparr>
               (not_truncated\<lparr>by_visits := True\<rparr>))
         | Some (Inr s) \<Rightarrow> label_from fuel g m b is (word_saturating_add l 1) s))"

definition weakly_connected :: "nat \<Rightarrow> adjacency \<Rightarrow> edge_mask \<Rightarrow> budget \<Rightarrow> components bounded option" where
  "weakly_connected fuel g m b =
     label_from fuel g m b [0..<ad_vertex_count g] 0
       \<lparr>lb_label = replicate (ad_vertex_count g) NO_LABEL, lb_stack = [], lb_visits = 0\<rparr>"

subsection \<open>Labelling groups found elsewhere\<close>

definition label_components :: "vertex_id list list \<Rightarrow> nat \<Rightarrow> components" where
  "label_components found n =
     (let groups = sort_key (\<lambda>g. case g of [] \<Rightarrow> - 1 | v # _ \<Rightarrow> v) found in
      \<lparr>cm_label =
         fold (\<lambda>(i, g) label. fold (\<lambda>v label. put (vindex v) (u32_of_len i) label) g label)
           (enumerate 0 groups) (replicate n NO_LABEL),
       cm_count = u32_of_len (length groups)\<rparr>)"

definition successors :: "adjacency \<Rightarrow> vertex_id \<Rightarrow> edge_mask \<Rightarrow> vertex_id list" where
  "successors g v m = remdups_adj (sort (concat (map (\<lambda>t. nb_targets (out_edges g v t)) m)))"

subsection \<open>The links of a graph\<close>

definition linked :: "adjacency \<Rightarrow> edge_mask \<Rightarrow> vertex_id \<Rightarrow> vertex_id list" where
  "linked g m v = concat (map (neighbours_both g v) m)"

definition links :: "adjacency \<Rightarrow> edge_mask \<Rightarrow> (vertex_id \<times> vertex_id) set" where
  "links g m =
     {(u, v). vindex u < ad_vertex_count g \<and> vindex v < ad_vertex_count g \<and> v \<in> set (linked g m u)}"

lemma label_all: "fold (\<lambda>t s. fold (label_vertex l) (neighbours_both g v t) s) m s = fold (label_vertex l) (linked g m v) s"
  by (induction m arbitrary: s) (simp_all add: linked_def)

text \<open>In a graph that was built, each edge out of a vertex is an edge into its target.\<close>

lemma built_links_sym:
  assumes "push_edges es (builder_new n) = Inr b" "n \<le> 2 ^ 32" "length es < 2 ^ 32" "- 1 \<notin> set m"
  shows "sym (links (build b) m)"
proof (rule symI)
  fix u v assume uv: "(u, v) \<in> links (build b) m"
  have n: "small n" using assms(2) by (simp add: small_def)
  have outs: "nb_targets (out_edges (build b) x t) = map arc_target (arcs_at True es x t)"
    and incs: "nb_targets (in_edges (build b) x t) = map arc_target (arcs_at False es x t)" if "t \<in> set m" for x t
    using as_arcs_simps(2) [OF built_arcs(1) [OF assms(1) n assms(3)]] as_arcs_simps(2) [OF built_arcs(2) [OF assms(1) n assms(3)]]
      assms(4) that by metis+
  have turned: "y \<in> arc_target ` set (arcs_at fwd es x t) \<longleftrightarrow> x \<in> arc_target ` set (arcs_at (\<not> fwd) es y t)" for x y t fwd
    by (auto simp: arcs_at_def image_iff key_end_def far_end_def)
  obtain t where t: "t \<in> set m" "v \<in> set (neighbours_both (build b) u t)"
    using uv by (auto simp: links_def linked_def)
  then have "u \<in> set (neighbours_both (build b) v t)"
    using turned [of v True u t] turned [of v False u t] by (auto simp: neighbours_both_def outs incs)
  then show "(v, u) \<in> links (build b) m" using uv t(1) by (auto simp: links_def linked_def)
qed

subsection \<open>Flooding one component\<close>

definition lab :: "labelling \<Rightarrow> vertex_id \<Rightarrow> u32" where
  "lab s v = lb_label s ! vindex v"

definition unlabelled :: "labelling \<Rightarrow> nat set" where
  "unlabelled s = {i. i < length (lb_label s) \<and> lb_label s ! i = NO_LABEL}"

definition to_do :: "labelling \<Rightarrow> nat" where
  "to_do s = card (unlabelled s) + length (lb_stack s)"

lemma finite_unlabelled [simp]: "finite (unlabelled s)"
  by (simp add: unlabelled_def)

text \<open>What labelling a list of vertices changes.\<close>

definition labels_added :: "u32 \<Rightarrow> vertex_id set \<Rightarrow> labelling \<Rightarrow> labelling \<Rightarrow> bool" where
  "labels_added l ws s s' \<longleftrightarrow>
     length (lb_label s') = length (lb_label s) \<and> lb_visits s' = lb_visits s \<and> to_do s' = to_do s \<and>
     (\<forall>v. vindex v < length (lb_label s) \<longrightarrow> lab s' v = (if lab s v = NO_LABEL \<and> v \<in> ws then l else lab s v)) \<and>
     set (lb_stack s') = set (lb_stack s) \<union> {v \<in> ws. vindex v < length (lb_label s) \<and> lab s v = NO_LABEL}"

lemma label_vertex_adds:
  assumes "l \<noteq> NO_LABEL"
  shows "labels_added l {v} s (label_vertex l v s)"
proof (cases "vindex v < length (lb_label s) \<and> lab s v = NO_LABEL")
  case True
  then have step: "label_vertex l v s = s\<lparr>lb_label := (lb_label s)[vindex v := l], lb_stack := v # lb_stack s\<rparr>"
    by (simp add: label_vertex_def get_or_def lab_def put_def)
  have "unlabelled (label_vertex l v s) = unlabelled s - {vindex v}" "vindex v \<in> unlabelled s"
    using True assms unfolding step by (auto simp: unlabelled_def nth_list_update lab_def)
  then have "to_do (label_vertex l v s) = to_do s"
    using card_Suc_Diff1 [of "unlabelled s" "vindex v"] unfolding step by (simp add: to_do_def)
  then show ?thesis using True unfolding step labels_added_def by (auto simp: lab_def nth_list_update)
next
  case False
  then have "label_vertex l v s = s" using assms
    by (auto simp: label_vertex_def get_or_def lab_def put_def NO_LABEL_def)
  then show ?thesis using False by (auto simp: labels_added_def)
qed

lemma labels_added_trans:
  assumes "labels_added l A s s1" "labels_added l B s1 s2" "l \<noteq> NO_LABEL"
  shows "labels_added l (A \<union> B) s s2"
proof -
  have len: "length (lb_label s1) = length (lb_label s)" using assms(1) by (simp add: labels_added_def)
  have 1: "lab s1 v = (if lab s v = NO_LABEL \<and> v \<in> A then l else lab s v)" if "vindex v < length (lb_label s)" for v
    using assms(1) that by (simp add: labels_added_def)
  have 2: "lab s2 v = (if lab s1 v = NO_LABEL \<and> v \<in> B then l else lab s1 v)" if "vindex v < length (lb_label s)" for v
    using assms(2) that len by (simp add: labels_added_def)
  have "{v \<in> B. vindex v < length (lb_label s) \<and> lab s1 v = NO_LABEL} =
      {v \<in> B - A. vindex v < length (lb_label s) \<and> lab s v = NO_LABEL}"
    using 1 assms(3) by (auto split: if_splits)
  then have "set (lb_stack s2) = set (lb_stack s) \<union> {v \<in> A \<union> B. vindex v < length (lb_label s) \<and> lab s v = NO_LABEL}"
    using assms(1,2) unfolding labels_added_def len by blast
  moreover have "\<forall>v. vindex v < length (lb_label s) \<longrightarrow>
      lab s2 v = (if lab s v = NO_LABEL \<and> v \<in> A \<union> B then l else lab s v)"
    using 1 2 assms(3) by auto
  moreover have "length (lb_label s2) = length (lb_label s)" "lb_visits s2 = lb_visits s" "to_do s2 = to_do s"
    using assms(1,2) by (simp_all add: labels_added_def)
  ultimately show ?thesis unfolding labels_added_def by blast
qed

lemma label_list_adds:
  assumes "l \<noteq> NO_LABEL"
  shows "labels_added l (set ws) s (fold (label_vertex l) ws s)"
proof (induction ws rule: rev_induct)
  case (snoc w ws)
  from labels_added_trans [OF snoc label_vertex_adds [OF assms] assms, of w] show ?case by (simp add: Un_commute)
qed (simp add: labels_added_def)

text \<open>The component being flooded, beside the labels \<open>old\<close> that stood before it.\<close>

definition flooded :: "adjacency \<Rightarrow> labelling \<Rightarrow> u32 \<Rightarrow> labelling \<Rightarrow> vertex_id set" where
  "flooded g old l s = {v. vindex v < ad_vertex_count g \<and> lab old v = NO_LABEL \<and> lab s v = l}"

definition flood_inv :: "adjacency \<Rightarrow> edge_mask \<Rightarrow> labelling \<Rightarrow> u32 \<Rightarrow> vertex_id \<Rightarrow> labelling \<Rightarrow> bool" where
  "flood_inv g m old l root s \<longleftrightarrow>
     length (lb_label s) = ad_vertex_count g \<and>
     (\<forall>v. vindex v < ad_vertex_count g \<longrightarrow>
        (if lab old v \<noteq> NO_LABEL then lab s v = lab old v else lab s v \<in> {NO_LABEL, l})) \<and>
     root \<in> flooded g old l s \<and> flooded g old l s \<subseteq> (links g m)\<^sup>* `` {root} \<and> set (lb_stack s) \<subseteq> flooded g old l s \<and>
     (\<forall>v \<in> flooded g old l s - set (lb_stack s). \<forall>w. (v, w) \<in> links g m \<longrightarrow> lab s w \<noteq> NO_LABEL)"

lemma flood_pop_inv:
  assumes inv: "flood_inv g m old l root s" "lb_stack s = v # rest" "l \<noteq> NO_LABEL"
    and s': "s' = fold (label_vertex l) (linked g m v) (s\<lparr>lb_stack := rest, lb_visits := k\<rparr>)"
  shows "flood_inv g m old l root s' \<and> Suc (to_do s') = to_do s"
proof -
  let ?s1 = "s\<lparr>lb_stack := rest, lb_visits := k\<rparr>"
  have len: "length (lb_label s) = ad_vertex_count g" using inv(1) by (simp add: flood_inv_def)
  have s1: "lab ?s1 = lab s" "Suc (to_do ?s1) = to_do s"
    using inv(2) by (auto simp: lab_def to_do_def unlabelled_def)
  have add: "labels_added l (set (linked g m v)) ?s1 s'" unfolding s' by (rule label_list_adds [OF inv(3)])
  have labs: "lab s' w = (if lab s w = NO_LABEL \<and> w \<in> set (linked g m v) then l else lab s w)" if "vindex w < ad_vertex_count g" for w
    using add that len s1(1) by (simp add: labels_added_def)
  have stack: "set (lb_stack s') = set rest \<union> {w \<in> set (linked g m v). vindex w < ad_vertex_count g \<and> lab s w = NO_LABEL}"
    using add len s1(1) by (simp add: labels_added_def)
  have v: "v \<in> flooded g old l s" using inv(1,2) by (auto simp: flood_inv_def)
  have old: "if lab old w \<noteq> NO_LABEL then lab s w = lab old w else lab s w \<in> {NO_LABEL, l}"
    if "vindex w < ad_vertex_count g" for w
    using inv(1) that unfolding flood_inv_def by blast
  let ?new = "{w \<in> set (linked g m v). vindex w < ad_vertex_count g \<and> lab s w = NO_LABEL}"
  have flooded: "flooded g old l s' = flooded g old l s \<union> ?new"
  proof (intro set_eqI iffI)
    fix w assume "w \<in> flooded g old l s'"
    then show "w \<in> flooded g old l s \<union> ?new" using labs [of w] old [of w] by (auto simp: flooded_def split: if_splits)
  next
    fix w assume "w \<in> flooded g old l s \<union> ?new"
    then show "w \<in> flooded g old l s'" using labs [of w] old [of w] inv(3) by (auto simp: flooded_def split: if_splits)
  qed
  have new: "?new \<subseteq> (links g m)\<^sup>* `` {root}"
  proof
    fix w assume "w \<in> ?new"
    then have "(v, w) \<in> links g m" using v by (auto simp: links_def flooded_def)
    moreover have "(root, v) \<in> (links g m)\<^sup>*" using v inv(1) by (auto simp: flood_inv_def)
    ultimately show "w \<in> (links g m)\<^sup>* `` {root}" by (auto intro: rtrancl_into_rtrancl)
  qed
  have closed: "lab s' w \<noteq> NO_LABEL" if "x \<in> flooded g old l s' - set (lb_stack s')" "(x, w) \<in> links g m" for x w
  proof -
    have range: "vindex w < ad_vertex_count g" and w: "w \<in> set (linked g m x)" using that(2) by (auto simp: links_def)
    have x: "x \<in> flooded g old l s" "x \<notin> set rest" using that(1) flooded stack by auto
    show ?thesis
    proof (cases "x = v")
      case True
      then show ?thesis using labs [OF range] w inv(3) by auto
    next
      case False
      then have "lab s w \<noteq> NO_LABEL" using inv(1,2) x that(2) by (auto simp: flood_inv_def)
      then show ?thesis using labs [OF range] by simp
    qed
  qed
  have fixed: "if lab old w \<noteq> NO_LABEL then lab s' w = lab old w else lab s' w \<in> {NO_LABEL, l}"
    if "vindex w < ad_vertex_count g" for w
    using labs [OF that] old [OF that] by (auto split: if_splits)
  have count: "to_do s' = to_do ?s1" using add by (simp add: labels_added_def)
  have "length (lb_label s') = ad_vertex_count g" using add len by (simp add: labels_added_def)
  moreover have "set (lb_stack s') \<subseteq> flooded g old l s'" using inv(1,2) stack flooded by (auto simp: flood_inv_def)
  moreover have "root \<in> flooded g old l s'" "flooded g old l s' \<subseteq> (links g m)\<^sup>* `` {root}"
    using inv(1) new flooded by (auto simp: flood_inv_def)
  ultimately have "flood_inv g m old l root s'" unfolding flood_inv_def using fixed closed by blast
  then show ?thesis using s1(2) count by simp
qed

lemma flood_returns:
  assumes "flood_inv g m old l root s" "l \<noteq> NO_LABEL" "to_do s < fuel" "lb_visits s + to_do s \<le> n" "n < 2 ^ 32"
  shows "(\<exists>s'. flood fuel g m b l s = Some (Inl s')) \<and> bg_visits b < n \<or>
    (\<exists>s'. flood fuel g m b l s = Some (Inr s') \<and> flood_inv g m old l root s' \<and> lb_stack s' = [] \<and> lb_visits s' + to_do s' \<le> n)"
  using assms(1,3,4)
proof (induction fuel arbitrary: s)
  case (Suc fuel)
  show ?case
  proof (cases "lb_stack s")
    case (Cons v rest)
    let ?k = "usize_saturating_add (lb_visits s) 1"
    let ?s' = "fold (label_vertex l) (linked g m v) (s\<lparr>lb_stack := rest, lb_visits := ?k\<rparr>)"
    have k: "?k = Suc (lb_visits s)"
      using Suc.prems(3) assms(5) by (simp add: usize_saturating_add_def USIZE_MAX_def)
    have pop: "flood_inv g m old l root ?s'" "Suc (to_do ?s') = to_do s"
      using flood_pop_inv [OF Suc.prems(1) Cons assms(2) refl, of ?k] by auto
    have visits: "lb_visits ?s' = Suc (lb_visits s)"
      using label_list_adds [OF assms(2), of "linked g m v" "s\<lparr>lb_stack := rest, lb_visits := ?k\<rparr>"] k by (simp add: labels_added_def)
    show ?thesis
    proof (cases "?k > bg_visits b")
      case True
      then show ?thesis using Cons k Suc.prems(3) pop(2) by (simp add: Let_def)
    next
      case False
      have "to_do ?s' < fuel" "lb_visits ?s' + to_do ?s' \<le> n" using pop(2) visits Suc.prems(2,3) by simp_all
      from Suc.IH [OF pop(1) this] False Cons show ?thesis by (simp add: Let_def label_all)
    qed
  qed (use Suc in simp)
qed simp

subsection \<open>All components\<close>

definition labelled_inv :: "adjacency \<Rightarrow> edge_mask \<Rightarrow> nat \<Rightarrow> nat \<Rightarrow> labelling \<Rightarrow> bool" where
  "labelled_inv g m i l s \<longleftrightarrow>
     length (lb_label s) = ad_vertex_count g \<and> l \<le> i \<and>
     (\<forall>v. vindex v < i \<longrightarrow> lab s v \<noteq> NO_LABEL) \<and>
     (\<forall>v. vindex v < ad_vertex_count g \<and> lab s v \<noteq> NO_LABEL \<longrightarrow> unat (lab s v) < l) \<and>
     (\<forall>k < l. \<exists>v. vindex v < i \<and> unat (lab s v) = k) \<and>
     (\<forall>u v. vindex u < ad_vertex_count g \<and> vindex v < ad_vertex_count g \<and> lab s u \<noteq> NO_LABEL \<and> lab s v \<noteq> NO_LABEL \<longrightarrow>
        (lab s u = lab s v \<longleftrightarrow> (u, v) \<in> (links g m)\<^sup>*)) \<and>
     (\<forall>u v. lab s u \<noteq> NO_LABEL \<and> (u, v) \<in> links g m \<longrightarrow> lab s v \<noteq> NO_LABEL) \<and>
     (\<forall>v. vindex v < i \<longrightarrow>
        lab s v \<in> lab s ` {u. vindex u < vindex v} \<or> unat (lab s v) = card (lab s ` {u. vindex u < vindex v}))"

lemma unat_is: "unat x = k \<Longrightarrow> x = of_nat k" for x :: u32
  by auto

lemma vindex_vertex_at: "i < 2 ^ 32 \<Longrightarrow> vindex (vertex_at i) = i"
  by (simp add: vertex_at_def u32_of_len_def vindex_def unat_small)

lemma distinct_labels:
  assumes "labelled_inv g m i l s" "i \<le> ad_vertex_count g"
  shows "card (lab s ` {v. vindex v < i}) = l"
proof -
  have "unat ` lab s ` {v. vindex v < i} = {..<l}"
    using assms by (fastforce simp: labelled_inv_def image_iff)
  moreover have "inj_on unat (lab s ` {v. vindex v < i})" by (simp add: inj_on_def word_unat_eq_iff)
  ultimately show ?thesis using card_image [of unat "lab s ` {v. vindex v < i}"] by simp
qed

lemma skip_labelled:
  assumes "labelled_inv g m i l s" "i < ad_vertex_count g" "ad_vertex_count g < 2 ^ 32" "lab s (vertex_at i) \<noteq> NO_LABEL"
  shows "labelled_inv g m (Suc i) l s"
proof -
  have at: "v = vertex_at i" if "vindex v = i" for v
    using that assms(2,3) vindex_vertex_at [of i] by (metis less_trans vindex_eq_iff)
  have "unat (lab s (vertex_at i)) < l" using assms vindex_vertex_at [of i] by (simp add: labelled_inv_def)
  then obtain u where "vindex u < i" "unat (lab s u) = unat (lab s (vertex_at i))" using assms(1) unfolding labelled_inv_def by blast
  then have "lab s u = lab s (vertex_at i)" by (simp add: word_unat_eq_iff)
  then have "lab s (vertex_at i) \<in> lab s ` {u. vindex u < i}" using \<open>vindex u < i\<close> by (metis image_eqI mem_Collect_eq)
  moreover have old: "lab s v \<noteq> NO_LABEL"
      "lab s v \<in> lab s ` {u. vindex u < vindex v} \<or> unat (lab s v) = card (lab s ` {u. vindex u < vindex v})" if "vindex v < i" for v
    using assms(1) that by (simp_all add: labelled_inv_def)
  ultimately have "\<forall>v. vindex v < Suc i \<longrightarrow>
      lab s v \<in> lab s ` {u. vindex u < vindex v} \<or> unat (lab s v) = card (lab s ` {u. vindex u < vindex v})"
    "\<forall>v. vindex v < Suc i \<longrightarrow> lab s v \<noteq> NO_LABEL"
    using at assms(4) by (metis less_SucE)+
  moreover have "\<forall>k < l. \<exists>v. vindex v < Suc i \<and> unat (lab s v) = k" "l \<le> Suc i"
    using assms(1) unfolding labelled_inv_def by (meson less_SucI le_SucI)+
  ultimately show ?thesis using assms(1) unfolding labelled_inv_def by blast
qed


lemma flood_start:
  assumes "labelled_inv g m i l s" "i < ad_vertex_count g" "ad_vertex_count g < 2 ^ 32" "lab s (vertex_at i) = NO_LABEL"
  defines "s0 \<equiv> s\<lparr>lb_stack := [vertex_at i], lb_label := put i (of_nat l) (lb_label s)\<rparr>"
  shows "flood_inv g m s (of_nat l) (vertex_at i) s0 \<and> (of_nat l :: u32) \<noteq> NO_LABEL \<and> to_do s0 = Suc (card (unlabelled s) - 1) \<and>
    0 < card (unlabelled s) \<and> card (unlabelled s) \<le> ad_vertex_count g"
proof -
  have i: "vindex (vertex_at i) = i" using assms(2,3) vindex_vertex_at by simp
  have len: "length (lb_label s) = ad_vertex_count g" using assms(1) by (simp add: labelled_inv_def)
  have "l < 2 ^ 32 - 1" using assms(1-3) by (simp add: labelled_inv_def)
  then have "unat (of_nat l :: u32) \<noteq> unat NO_LABEL"
    using unat_small [of l] unat_max_word [where 'a = 32] by (simp add: NO_LABEL_def)
  then have fresh: "(of_nat l :: u32) \<noteq> NO_LABEL" by auto
  have labs: "lab s0 v = (if v = vertex_at i then of_nat l else lab s v)" if "vindex v < ad_vertex_count g" for v
    using that assms(2) i len vindex_eq_iff [of v "vertex_at i"] by (auto simp: s0_def lab_def nth_put)
  have old: "lab s v \<noteq> of_nat l" if "vindex v < ad_vertex_count g" for v
  proof
    assume v: "lab s v = of_nat l"
    then have "unat (lab s v) < l" using assms(1) that fresh unfolding labelled_inv_def by metis
    then show False using v unat_small [of l] \<open>l < 2 ^ 32 - 1\<close> by simp
  qed
  have "flooded g s (of_nat l) s0 = {vertex_at i}"
    using labs old assms(2,4) i unfolding flooded_def by (auto split: if_splits)
  then have "flood_inv g m s (of_nat l) (vertex_at i) s0"
    using labs len assms(4) by (auto simp: flood_inv_def s0_def)
  moreover have un: "unlabelled s0 = unlabelled s - {i}" "i \<in> unlabelled s"
    using assms(2,4) i len fresh by (auto simp: s0_def unlabelled_def nth_put lab_def split: if_splits)
  moreover have "unlabelled s \<subseteq> {..<ad_vertex_count g}" using len by (auto simp: unlabelled_def)
  then have "card (unlabelled s) \<le> ad_vertex_count g" using card_mono [of "{..<ad_vertex_count g}" "unlabelled s"] by simp
  moreover have "0 < card (unlabelled s)" using un(2) by (auto simp: card_gt_0_iff)
  moreover have "to_do s0 = Suc (card (unlabelled s) - 1)"
    using un card_Diff_singleton [of i "unlabelled s"] by (simp add: to_do_def) (simp add: s0_def)
  ultimately show ?thesis using fresh by blast
qed

lemma flood_end:
  assumes old: "labelled_inv g m i l s" and i: "i < ad_vertex_count g" "ad_vertex_count g < 2 ^ 32" "lab s (vertex_at i) = NO_LABEL"
    and s': "flood_inv g m s (of_nat l) (vertex_at i) s'" "lb_stack s' = []" and sym: "sym (links g m)"
  shows "labelled_inv g m (Suc i) (Suc l) s'"
proof -
  let ?n = "ad_vertex_count g" and ?C = "flooded g s (of_nat l) s'"
  have vi: "vindex (vertex_at i) = i" using i(1,2) vindex_vertex_at by simp
  have l: "l \<le> i" "unat (of_nat l :: u32) = l" using old i unat_small [of l] by (simp_all add: labelled_inv_def)
  have fresh: "(of_nat l :: u32) \<noteq> NO_LABEL" using flood_start [OF old i] by blast
  have closed_old: "lab s w \<noteq> NO_LABEL" if "lab s v \<noteq> NO_LABEL" "(v, w) \<in> links g m" for v w
    using old that unfolding labelled_inv_def by blast
  have labs: "if lab s v \<noteq> NO_LABEL then lab s' v = lab s v else lab s' v \<in> {NO_LABEL, of_nat l}" if "vindex v < ?n" for v
    using s'(1) that unfolding flood_inv_def by blast
  have small_old: "unat (lab s v) < l" if "vindex v < ?n" "lab s v \<noteq> NO_LABEL" for v
    using old that unfolding labelled_inv_def by blast
  have in_C: "v \<in> ?C \<longleftrightarrow> vindex v < ?n \<and> lab s' v = of_nat l" for v
    using labs [of v] small_old [of v] l(2) by (auto simp: flooded_def split: if_splits)
  have C: "?C = (links g m)\<^sup>* `` {vertex_at i}"
  proof
    show "?C \<subseteq> (links g m)\<^sup>* `` {vertex_at i}" using s'(1) by (simp add: flood_inv_def)
    have "v \<in> ?C" if "(vertex_at i, v) \<in> (links g m)\<^sup>*" for v
      using that
    proof (induction rule: rtrancl_induct)
      case base
      show ?case using s'(1) by (simp add: flood_inv_def)
    next
      case (step v w)
      have w: "lab s' w \<noteq> NO_LABEL" "vindex w < ?n" using s' step by (auto simp: flood_inv_def links_def)
      have "lab s w = NO_LABEL"
        using closed_old [of w v] step(2,3) symD [OF sym step(2)] by (auto simp: flooded_def)
      then show ?case using labs [OF w(2)] w in_C by auto
    qed
    then show "(links g m)\<^sup>* `` {vertex_at i} \<subseteq> ?C" by auto
  qed
  have sym_star: "(u, v) \<in> (links g m)\<^sup>* \<longleftrightarrow> (v, u) \<in> (links g m)\<^sup>*" for u v
    using sym_rtrancl [OF sym] by (meson symD)
  have new: "lab s' v \<noteq> NO_LABEL \<longleftrightarrow> lab s v \<noteq> NO_LABEL \<or> v \<in> ?C" if "vindex v < ?n" for v
    using labs [OF that] in_C [of v] that fresh by (auto split: if_splits)
  have kept: "lab s' v = lab s v" if "vindex v < ?n" "lab s v \<noteq> NO_LABEL" for v using labs [OF that(1)] that(2) by simp
  have before: "lab s v \<noteq> NO_LABEL" if "vindex v < i" for v using old that by (simp add: labelled_inv_def)
  have image: "lab s' ` {u. vindex u < k} = lab s ` {u. vindex u < k}" if "k \<le> i" for k
    using kept before that i(1) by (intro image_cong) auto
  have at: "v = vertex_at i" if "vindex v = i" for v using that vi by (metis vindex_eq_iff)
  have root: "lab s' (vertex_at i) = of_nat l" using in_C [of "vertex_at i"] s'(1) by (simp add: flood_inv_def)
  have 1: "lab s' v \<noteq> NO_LABEL" if "vindex v < Suc i" for v
    using that before [of v] kept [of v] at [of v] root fresh i(1) by (cases "vindex v = i") auto
  have 2: "unat (lab s' v) < Suc l" if "vindex v < ?n" "lab s' v \<noteq> NO_LABEL" for v
    using new [OF that(1)] that small_old [OF that(1)] kept [OF that(1)] in_C [of v] l(2) by (auto simp: less_Suc_eq)
  have 3: "\<exists>v. vindex v < Suc i \<and> unat (lab s' v) = k" if "k < Suc l" for k
  proof (cases "k = l")
    case True
    then show ?thesis using root l(2) vi by (intro exI [of _ "vertex_at i"]) simp
  next
    case False
    then obtain v where "vindex v < i" "unat (lab s v) = k" using old \<open>k < Suc l\<close> unfolding labelled_inv_def by (metis less_SucE)
    then show ?thesis using kept [of v] before [of v] i(1) by (intro exI [of _ v]) auto
  qed
  have 4: "lab s' u = lab s' v \<longleftrightarrow> (u, v) \<in> (links g m)\<^sup>*"
    if uv: "vindex u < ?n" "vindex v < ?n" "lab s' u \<noteq> NO_LABEL" "lab s' v \<noteq> NO_LABEL" for u v
  proof (cases "u \<in> ?C \<or> v \<in> ?C")
    case True
    have u: "u \<in> ?C \<longleftrightarrow> lab s' u = of_nat l" using in_C [of u] uv(1) by blast
    have v: "v \<in> ?C \<longleftrightarrow> lab s' v = of_nat l" using in_C [of v] uv(2) by blast
    have "lab s' u = lab s' v \<longleftrightarrow> u \<in> ?C \<and> v \<in> ?C" using True unfolding u v by (elim disjE) auto
    also have "\<dots> \<longleftrightarrow> (u, v) \<in> (links g m)\<^sup>*"
    proof
      assume "u \<in> ?C \<and> v \<in> ?C"
      then have "(u, vertex_at i) \<in> (links g m)\<^sup>*" "(vertex_at i, v) \<in> (links g m)\<^sup>*"
        unfolding C using sym_star [of u] by simp_all
      then show "(u, v) \<in> (links g m)\<^sup>*" by (rule rtrancl_trans)
    next
      assume uv: "(u, v) \<in> (links g m)\<^sup>*"
      then have vu: "(v, u) \<in> (links g m)\<^sup>*" using sym_star [of u v] by simp
      show "u \<in> ?C \<and> v \<in> ?C"
        using True rtrancl_trans [OF _ uv] rtrancl_trans [OF _ vu] unfolding C by auto
    qed
    finally show ?thesis .
  next
    case False
    then have "lab s u \<noteq> NO_LABEL" "lab s v \<noteq> NO_LABEL" using new [OF uv(1)] new [OF uv(2)] uv(3,4) by blast+
    moreover from this have "lab s' u = lab s u" "lab s' v = lab s v" using kept uv(1,2) by blast+
    ultimately show ?thesis using old uv(1,2) unfolding labelled_inv_def by metis
  qed
  have 5: "lab s' v \<noteq> NO_LABEL" if "lab s' u \<noteq> NO_LABEL" "(u, v) \<in> links g m" for u v
  proof -
    have range: "vindex u < ?n" "vindex v < ?n" using that(2) by (auto simp: links_def)
    show ?thesis
    proof (cases "u \<in> ?C")
      case True
      then have "v \<in> ?C" unfolding C using that(2) by (auto intro: rtrancl_into_rtrancl)
      then show ?thesis using new [OF range(2)] by simp
    next
      case False
      then show ?thesis using new range that closed_old by metis
    qed
  qed
  have 6: "lab s' v \<in> lab s' ` {u. vindex u < vindex v} \<or> unat (lab s' v) = card (lab s' ` {u. vindex u < vindex v})"
    if v: "vindex v < Suc i" for v
  proof (cases "vindex v = i")
    case True
    then show ?thesis using at [OF True] root vi l(2) image [of i] distinct_labels [OF old] i(1) by simp
  next
    case False
    then have "vindex v < i" using v by simp
    then have "lab s v \<in> lab s ` {u. vindex u < vindex v} \<or> unat (lab s v) = card (lab s ` {u. vindex u < vindex v})"
      using old unfolding labelled_inv_def by blast
    moreover have "lab s' v = lab s v" using kept before \<open>vindex v < i\<close> i(1) by simp
    ultimately show ?thesis using image [of "vindex v"] \<open>vindex v < i\<close> by simp
  qed
  have len: "length (lb_label s') = ?n" using s'(1) by (simp add: flood_inv_def)
  show ?thesis
    unfolding labelled_inv_def using len l(1)
  proof (intro conjI allI impI)
    fix u v
    assume "vindex u < ?n \<and> vindex v < ?n \<and> lab s' u \<noteq> NO_LABEL \<and> lab s' v \<noteq> NO_LABEL"
    then show "lab s' u = lab s' v \<longleftrightarrow> (u, v) \<in> (links g m)\<^sup>*" by (elim conjE) (rule 4)
  next
    fix u v
    assume "lab s' u \<noteq> NO_LABEL \<and> (u, v) \<in> links g m"
    then show "lab s' v \<noteq> NO_LABEL" by (elim conjE) (rule 5)
  qed (use 1 2 3 6 in simp_all)
qed


lemma label_loop:
  assumes "labelled_inv g m i l s" "lb_visits s + card (unlabelled s) \<le> ad_vertex_count g" "i \<le> ad_vertex_count g"
    "ad_vertex_count g < 2 ^ 32" "sym (links g m)"
  shows "\<exists>r. label_from (Suc (ad_vertex_count g)) g m b [i..<ad_vertex_count g] (of_nat l) s = Some r \<and>
    (if is_complete (bn_truncation r)
     then \<exists>l' s'. labelled_inv g m (ad_vertex_count g) l' s' \<and> bn_found r = \<lparr>cm_label = lb_label s', cm_count = of_nat l'\<rparr>
     else bg_visits b < ad_vertex_count g)"
  using assms(1-3)
proof (induction "ad_vertex_count g - i" arbitrary: i l s)
  case 0
  then show ?case by (auto simp: bounded_truncated_def not_truncated_def is_complete_def)
next
  case (Suc k)
  let ?n = "ad_vertex_count g"
  have i: "i < ?n" "k = ?n - Suc i" using Suc.hyps(2) by simp_all
  then have range: "[i..<?n] = i # [Suc i..<?n]" by (simp add: upt_conv_Cons)
  have vi: "vindex (vertex_at i) = i" using i(1) assms(4) vindex_vertex_at by simp
  have "length (lb_label s) = ?n" "l \<le> i" using Suc.prems(1) by (simp_all add: labelled_inv_def)
  then have get: "get_or 0 (lb_label s) i = lab s (vertex_at i)" and "l + 1 < 2 ^ 32"
    using i(1) vi assms(4) by (simp_all add: get_or_def lab_def)
  then have count: "word_saturating_add (of_nat l) 1 = (of_nat (Suc l) :: u32)"
    using saturating_of_nat [of l 1, where 'a = 32] by simp
  show ?case
  proof (cases "lab s (vertex_at i) = NO_LABEL")
    case False
    then show ?thesis
      using Suc.hyps(1) [OF i(2) skip_labelled [OF Suc.prems(1) i(1) assms(4) False] Suc.prems(2)] i(1) by (simp add: range get)
  next
    case True
    let ?s0 = "s\<lparr>lb_stack := [vertex_at i], lb_label := put i (of_nat l) (lb_label s)\<rparr>"
    note start = flood_start [OF Suc.prems(1) i(1) assms(4) True]
    have "to_do ?s0 < Suc ?n" "lb_visits ?s0 + to_do ?s0 \<le> ?n" using start Suc.prems(2) by auto
    from flood_returns [OF conjunct1 [OF start] _ this assms(4), of b] start
    consider (cut) s' where "flood (Suc ?n) g m b (of_nat l) ?s0 = Some (Inl s')" "bg_visits b < ?n"
      | (flooded) s' where "flood (Suc ?n) g m b (of_nat l) ?s0 = Some (Inr s')" "flood_inv g m s (of_nat l) (vertex_at i) s'"
        "lb_stack s' = []" "lb_visits s' + to_do s' \<le> ?n"
      by blast
    then show ?thesis
    proof cases
      case cut
      then show ?thesis
        by (simp add: range get True is_complete_def bounded_truncated_def not_truncated_def del: flood.simps)
    next
      case flooded
      have "lb_visits s' + card (unlabelled s') \<le> ?n" using flooded(3,4) by (simp add: to_do_def)
      from Suc.hyps(1) [OF i(2) flood_end [OF Suc.prems(1) i(1) assms(4) True flooded(2,3) assms(5)] this] i(1)
      show ?thesis using count by (simp add: range get True flooded(1) del: flood.simps of_nat_Suc)
    qed
  qed
qed

text \<open>
  C37: Weak components of a graph that was built are found whenever the budget allows as many visits as there are
  vertices, and otherwise only when nothing was cut off: two vertices share a label exactly when edges join them in
  either direction, labels are dense, counted, and given in order of first vertex, so that they do not depend on how the
  graph was stored.
\<close>

theorem weak_components_are_exact:
  assumes "push_edges es (builder_new n) = Inr a" "n < 2 ^ 32" "length es < 2 ^ 32" "- 1 \<notin> set m"
  shows "\<exists>r. weakly_connected (Suc n) (build a) m b = Some r \<and> (n \<le> bg_visits b \<longrightarrow> is_complete (bn_truncation r)) \<and>
    (is_complete (bn_truncation r) \<longrightarrow>
      length (cm_label (bn_found r)) = n \<and>
      (\<forall>u v. vindex u < n \<and> vindex v < n \<longrightarrow>
        (label_of (bn_found r) u = label_of (bn_found r) v \<longleftrightarrow> (u, v) \<in> (links (build a) m)\<^sup>*)) \<and>
      (\<forall>v. vindex v < n \<longrightarrow>
        (let before = {u. vindex u < vindex v} in
         label_of (bn_found r) v \<in> label_of (bn_found r) ` before \<or>
         label_of (bn_found r) v = Some (of_nat (card (label_of (bn_found r) ` before))))) \<and>
      unat (cm_count (bn_found r)) = card (label_of (bn_found r) ` {v. vindex v < n}))"
proof -
  let ?g = "build a"
  have g: "ad_vertex_count ?g = n" using assms(1) by (auto simp: build_def push_edges_Inr builder_new_def)
  have sym: "sym (links ?g m)" using assms by (intro built_links_sym) auto
  let ?s = "\<lparr>lb_label = replicate n NO_LABEL, lb_stack = [], lb_visits = 0\<rparr>"
  have "lab ?s v = NO_LABEL" if "vindex v < n" for v using that by (simp add: lab_def)
  then have "labelled_inv ?g m 0 0 ?s" using g by (auto simp: labelled_inv_def links_def)
  moreover have "unlabelled ?s \<subseteq> {..<n}" by (auto simp: unlabelled_def)
  then have "lb_visits ?s + card (unlabelled ?s) \<le> n" using card_mono [of "{..<n}" "unlabelled ?s"] by simp
  ultimately obtain r where r: "weakly_connected (Suc n) ?g m b = Some r"
    "if is_complete (bn_truncation r)
     then \<exists>l' s'. labelled_inv ?g m n l' s' \<and> bn_found r = \<lparr>cm_label = lb_label s', cm_count = of_nat l'\<rparr>
     else bg_visits b < n"
    using label_loop [of ?g m 0 0 ?s b] assms(2) sym unfolding weakly_connected_def g by auto
  have exact: "length (cm_label (bn_found r)) = n \<and>
      (\<forall>u v. vindex u < n \<and> vindex v < n \<longrightarrow>
        (label_of (bn_found r) u = label_of (bn_found r) v \<longleftrightarrow> (u, v) \<in> (links ?g m)\<^sup>*)) \<and>
      (\<forall>v. vindex v < n \<longrightarrow>
        (let before = {u. vindex u < vindex v} in
         label_of (bn_found r) v \<in> label_of (bn_found r) ` before \<or>
         label_of (bn_found r) v = Some (of_nat (card (label_of (bn_found r) ` before))))) \<and>
      unat (cm_count (bn_found r)) = card (label_of (bn_found r) ` {v. vindex v < n})"
    if complete: "is_complete (bn_truncation r)"
  proof -
    obtain l s where s: "labelled_inv ?g m n l s" "bn_found r = \<lparr>cm_label = lb_label s, cm_count = of_nat l\<rparr>"
      using r(2) complete by auto
    have len: "length (lb_label s) = n" "l \<le> n" using s(1) g by (simp_all add: labelled_inv_def)
    have label: "label_of (bn_found r) v = Some (lab s v)" if "vindex v < n" for v
      using that s(2) len by (simp add: label_of_def lab_def)
    have image: "label_of (bn_found r) ` {u. vindex u < k} = Some ` lab s ` {u. vindex u < k}" if "k \<le> n" for k
      using label that by (auto simp: image_image intro!: image_cong)
    have card: "card (Some ` X) = card X" for X :: "u32 set" by (rule card_image) simp
    have labelled: "lab s v \<noteq> NO_LABEL" if "vindex v < n" for v using s(1) that by (simp add: labelled_inv_def)
    have "label_of (bn_found r) u = label_of (bn_found r) v \<longleftrightarrow> (u, v) \<in> (links ?g m)\<^sup>*"
      if "vindex u < n" "vindex v < n" for u v
      using that s(1) g labelled label by (simp add: labelled_inv_def)
    moreover have "label_of (bn_found r) v \<in> label_of (bn_found r) ` {u. vindex u < vindex v} \<or>
        label_of (bn_found r) v = Some (of_nat (card (label_of (bn_found r) ` {u. vindex u < vindex v})))" if "vindex v < n" for v
    proof -
      have "lab s v \<in> lab s ` {u. vindex u < vindex v} \<or> unat (lab s v) = card (lab s ` {u. vindex u < vindex v})"
        using s(1) that unfolding labelled_inv_def by blast
      then have "lab s v \<in> lab s ` {u. vindex u < vindex v} \<or> lab s v = of_nat (card (lab s ` {u. vindex u < vindex v}))"
        using unat_is by blast
      then show ?thesis using label [OF that] image [of "vindex v"] that by (auto simp: card)
    qed
    moreover have "unat (of_nat l :: u32) = l" using len(2) assms(2) by (intro unat_small) simp
    then have "unat (cm_count (bn_found r)) = card (label_of (bn_found r) ` {v. vindex v < n})"
      using distinct_labels [OF s(1)] image [of n] s(2) g by (simp add: card)
    ultimately show ?thesis using len(1) s(2) unfolding Let_def by simp
  qed
  show ?thesis
    by (rule exI [of _ r]) (use r exact in \<open>auto split: if_splits\<close>)
qed


theorem weak_components_are_exact_witness:
  "\<exists>a r. push_edges [\<lparr>e_source = 2, e_target = 0, e_type = 0, e_validity = validity_always, e_weight = F64_ONE\<rparr>] (builder_new 3) = Inr a \<and>
     weakly_connected 4 (build a) [0] budget_interactive = Some r \<and> is_complete (bn_truncation r) \<and>
     (label_of (bn_found r) 0 = label_of (bn_found r) 2 \<longleftrightarrow> (0, 2) \<in> (links (build a) [0])\<^sup>*)"
proof -
  let ?es = "[\<lparr>e_source = 2, e_target = 0, e_type = 0, e_validity = validity_always, e_weight = F64_ONE\<rparr>]"
  obtain a where a: "push_edges ?es (builder_new 3) = Inr a"
    by (simp add: push_edge_def builder_new_def vindex_def)
  have side: "(3::nat) < 2 ^ 32" "length ?es < 2 ^ 32" "- 1 \<notin> set [0 :: u16]" by simp_all
  have "3 \<le> bg_visits budget_interactive" "vindex 0 < 3" "vindex 2 < 3" by (simp_all add: budget_interactive_def vindex_def)
  then show ?thesis
    using weak_components_are_exact [OF a side, of budget_interactive] a by auto
qed

end
