(* ===== verification/Clone_Lineage.thy ===== *)
theory Clone_Lineage
  imports Ordered_Maps Decimal Positions
begin

text \<open>
  Clones that share their origin's files: \<^verbatim>\<open>crates/sankhya-clone/src/lineage.rs\<close>, \<^verbatim>\<open>family.rs\<close>
  and \<^verbatim>\<open>refuse.rs\<close>. The two loops over the lineages are functions whose termination is proved.
\<close>

subsection \<open>Lineages\<close>

definition ORIGIN :: string where "ORIGIN = ''sankhya.clone.origin''"
definition VERSION :: string where "VERSION = ''sankhya.clone.version''"
definition CLONED_AT :: string where "CLONED_AT = ''sankhya.clone.at''"
definition CLONE_PREFIX :: string where "CLONE_PREFIX = ''sankhya.clone.''"

record lineage =
  ln_origin :: string
  ln_version :: u64
  ln_cloned_at :: i64

definition lineage_new :: "string \<Rightarrow> u64 \<Rightarrow> i64 \<Rightarrow> lineage" where
  "lineage_new o' v t = \<lparr>ln_origin = o', ln_version = v, ln_cloned_at = t\<rparr>"

datatype malformed_lineage = NoOrigin | NoVersion | UnreadableVersion string

definition to_properties :: "lineage \<Rightarrow> (string \<times> string) list" where
  "to_properties l =
     bt_insert_all
       [(ORIGIN, ln_origin l), (VERSION, show_nat (unat (ln_version l))), (CLONED_AT, show_int (ln_cloned_at l))] []"

definition from_properties :: "(string \<times> string) list \<Rightarrow> (malformed_lineage + lineage) option" where
  "from_properties ps =
     (if \<not> (\<exists>k \<in> set (map fst ps). strip_prefix CLONE_PREFIX k \<noteq> None) then None
      else Some
        (case map_of ps ORIGIN of
           None \<Rightarrow> Inl NoOrigin
         | Some origin \<Rightarrow>
             if trim origin = [] then Inl NoOrigin
             else
               (case map_of ps VERSION of
                  None \<Rightarrow> Inl NoVersion
                | Some text \<Rightarrow>
                    (case parse_u64 text of
                       None \<Rightarrow> Inl (UnreadableVersion text)
                     | Some v \<Rightarrow>
                         Inr \<lparr>ln_origin = origin, ln_version = v,
                              ln_cloned_at =
                                (case map_of ps CLONED_AT of
                                   None \<Rightarrow> 0
                                 | Some t \<Rightarrow> (case parse_i64 t of None \<Rightarrow> 0 | Some x \<Rightarrow> x))\<rparr>))))"

subsection \<open>Families\<close>

type_synonym lineages = "(string \<times> lineage) list"

definition record_lineage :: "string \<Rightarrow> lineage \<Rightarrow> lineages \<Rightarrow> lineages" where
  "record_lineage t l ls = bt_insert t l ls"

datatype clone_cycle = Cycle string

text \<open>One round of the search: every clone of the current table that was not reached before.\<close>

definition reach_clones :: "lineages \<Rightarrow> string \<Rightarrow> string set \<times> string list \<Rightarrow> string set \<times> string list" where
  "reach_clones ls t =
     fold (\<lambda>(c, l) (reached, frontier).
             if ln_origin l \<noteq> t \<or> c \<in> reached then (reached, frontier)
             else (insert c reached, c # frontier)) ls"

definition unreached :: "lineages \<Rightarrow> string set \<Rightarrow> string set" where
  "unreached ls reached = fst ` set ls - reached"

lemma reach_clones_shrinks:
  "reach_clones ls t (r, f) = (r', f') \<Longrightarrow> set ls \<subseteq> set all \<Longrightarrow>
     card (unreached all r') + length f' = card (unreached all r) + length f"
proof (induction ls arbitrary: r f)
  case (Cons x ls)
  obtain c l where x: "x = (c, l)" by (cases x)
  show ?case
  proof (cases "ln_origin l \<noteq> t \<or> c \<in> r")
    case False
    have c: "c \<in> unreached all r" "finite (unreached all r)" using Cons.prems(2) x False by (force simp: unreached_def)+
    moreover have "unreached all (insert c r) = unreached all r - {c}" by (auto simp: unreached_def)
    ultimately have "Suc (card (unreached all (insert c r))) = card (unreached all r)"
      using card_Suc_Diff1 by metis
    then show ?thesis using Cons x False by (simp add: reach_clones_def)
  qed (use Cons x in \<open>simp add: reach_clones_def\<close>)
qed (simp add: reach_clones_def)

function readers_loop :: "lineages \<Rightarrow> string set \<Rightarrow> string list \<Rightarrow> string set" where
  "readers_loop ls reached [] = reached"
| "readers_loop ls reached (t # frontier) =
     (case reach_clones ls t (reached, frontier) of (r, f) \<Rightarrow> readers_loop ls r f)"
  by pat_completeness auto
termination
proof (relation "measure (\<lambda>(ls, reached, frontier). card (unreached ls reached) + length frontier)")
  show "wf (measure (\<lambda>(ls, reached, frontier). card (unreached ls reached) + length frontier))" by simp
next
  fix ls :: lineages and reached t frontier r f
  assume "(r, f) = reach_clones ls t (reached, frontier)"
  then have "reach_clones ls t (reached, frontier) = (r, f)" by simp
  from reach_clones_shrinks [OF this subset_refl]
  show "((ls, r, f), ls, reached, t # frontier) \<in> measure (\<lambda>(ls, reached, frontier). card (unreached ls reached) + length frontier)"
    by simp
qed

function ancestors_loop :: "lineages \<Rightarrow> string set \<Rightarrow> string \<Rightarrow> string list \<Rightarrow> clone_cycle + string list" where
  "ancestors_loop ls seen t chain =
     (case map_of ls t of
        None \<Rightarrow> Inr chain
      | Some l \<Rightarrow>
          if ln_origin l \<in> seen then Inl (Cycle (ln_origin l))
          else ancestors_loop ls (insert (ln_origin l) seen) (ln_origin l) (chain @ [ln_origin l]))"
  by pat_completeness auto
termination
proof (relation "measure (\<lambda>(ls, seen, t, chain). card (ln_origin ` snd ` set ls - seen))")
  show "wf (measure (\<lambda>(ls, seen, t, chain). card (ln_origin ` snd ` set ls - seen)))" by simp
next
  fix ls :: lineages and seen t chain l
  assume l: "map_of ls t = Some l" "ln_origin l \<notin> seen"
  then have "(t, l) \<in> set ls" by (rule_tac map_of_SomeD)
  then have "ln_origin l \<in> ln_origin ` snd ` set ls - seen" using l(2) by force
  then have "card (ln_origin ` snd ` set ls - insert (ln_origin l) seen) < card (ln_origin ` snd ` set ls - seen)"
    by (intro psubset_card_mono) auto
  then show "((ls, insert (ln_origin l) seen, ln_origin l, chain @ [ln_origin l]), ls, seen, t, chain)
      \<in> measure (\<lambda>(ls, seen, t, chain). card (ln_origin ` snd ` set ls - seen))" by simp
qed

declare ancestors_loop.simps [simp del]

definition ancestors :: "lineages \<Rightarrow> string \<Rightarrow> clone_cycle + string list" where
  "ancestors ls t = ancestors_loop ls {t} t []"

definition readers_of :: "lineages \<Rightarrow> string \<Rightarrow> clone_cycle + string set" where
  "readers_of ls t =
     (let reached = readers_loop ls {t} [t] in
      case ancestors ls t of Inl e \<Rightarrow> Inl e | Inr _ \<Rightarrow> Inr reached)"

definition family_of :: "lineages \<Rightarrow> string \<Rightarrow> clone_cycle + string set" where
  "family_of ls t =
     (case ancestors ls t of
        Inl e \<Rightarrow> Inl e
      | Inr chain \<Rightarrow> readers_of ls (if chain = [] then t else last chain))"

definition dependents :: "lineages \<Rightarrow> string \<Rightarrow> clone_cycle + string set" where
  "dependents ls t = (case readers_of ls t of Inl e \<Rightarrow> Inl e | Inr r \<Rightarrow> Inr (r - {t}))"

text \<open>\<open>rsplit_once('.')\<close>.\<close>

definition rsplit_dot :: "string \<Rightarrow> (string \<times> string) option" where
  "rsplit_dot s = map_option (\<lambda>(a, b). (rev b, rev a)) (split_once CHR ''.'' (rev s))"

definition same_table :: "string \<Rightarrow> string \<Rightarrow> bool" where
  "same_table origin asked \<longleftrightarrow>
     origin = asked \<or>
     (case (rsplit_dot origin, rsplit_dot asked) of
        (Some (_, leaf), None) \<Rightarrow> leaf = asked
      | (None, Some (_, leaf)) \<Rightarrow> leaf = origin
      | _ \<Rightarrow> False)"

definition pinned_versions :: "lineages \<Rightarrow> string \<Rightarrow> u64 set" where
  "pinned_versions ls t = ln_version ` {l \<in> snd ` set ls. same_table (ln_origin l) t}"

definition keepers_of :: "lineages \<Rightarrow> string \<Rightarrow> (u64 \<times> string list) list" where
  "keepers_of ls t =
     fold (\<lambda>(c, l) ks.
             if ln_origin l = t
             then bt_insert (ln_version l) ((case map_of ks (ln_version l) of None \<Rightarrow> [] | Some cs \<Rightarrow> cs) @ [c]) ks
             else ks) ls []"

subsection \<open>What is refused\<close>

record clone_request =
  cr_table :: string
  cr_tenant :: string
  cr_origin :: string
  cr_origin_tenant :: string
  cr_version :: u64

record clone_origin =
  co_latest_version :: u64
  co_earliest_retained :: u64
  co_purge_in_flight :: bool
  co_schema_evolving :: bool

datatype clone_refused =
    OriginBeingPurged string
  | AcrossTenants string string
  | SchemaEvolving string
  | NoSuchOriginVersion string u64 u64
  | VersionRetired string u64 u64
  | StillRead string "string list"
  | BeforeTheClone string i64 i64 string
  | Tangled string

definition may_clone :: "clone_request \<Rightarrow> clone_origin \<Rightarrow> clone_refused + unit" where
  "may_clone r o' =
     (if cr_tenant r \<noteq> cr_origin_tenant r then Inl (AcrossTenants (cr_tenant r) (cr_origin_tenant r))
      else if co_purge_in_flight o' then Inl (OriginBeingPurged (cr_origin r))
      else if co_schema_evolving o' then Inl (SchemaEvolving (cr_origin r))
      else if cr_version r > co_latest_version o'
        then Inl (NoSuchOriginVersion (cr_origin r) (cr_version r) (co_latest_version o'))
      else if cr_version r < co_earliest_retained o'
        then Inl (VersionRetired (cr_origin r) (cr_version r) (co_earliest_retained o'))
      else Inr ())"

definition may_drop :: "string \<Rightarrow> lineages \<Rightarrow> clone_refused + unit" where
  "may_drop t ls =
     (case dependents ls t of
        Inl (Cycle a) \<Rightarrow> Inl (Tangled a)
      | Inr d \<Rightarrow> if d = {} then Inr () else Inl (StillRead t (sorted_list_of_set d)))"

definition may_purge :: "string \<Rightarrow> lineages \<Rightarrow> clone_refused + unit" where
  "may_purge t ls = may_drop t ls"

definition may_read_as_of :: "string \<Rightarrow> i64 \<Rightarrow> lineage \<Rightarrow> clone_refused + unit" where
  "may_read_as_of t at l =
     (if at < ln_cloned_at l then Inl (BeforeTheClone t at (ln_cloned_at l) (ln_origin l)) else Inr ())"

subsection \<open>The relation behind it\<close>

definition cloned_from :: "lineages \<Rightarrow> (string \<times> string) set" where
  "cloned_from ls = {(c, t). \<exists>l. map_of ls c = Some l \<and> ln_origin l = t}"

lemma single_valued_cloned: "single_valued (cloned_from ls)"
  by (auto simp: single_valued_def cloned_from_def)

lemma finite_cloned: "finite (cloned_from ls)"
proof -
  have "cloned_from ls \<subseteq> (\<lambda>(c, l). (c, ln_origin l)) ` set ls"
    by (force simp: cloned_from_def dest: map_of_SomeD)
  then show ?thesis by (rule finite_subset) simp
qed

text \<open>A table on a cycle never reaches one that was not cloned.\<close>

lemma cycle_goes_on:
  assumes "(a, a) \<in> (cloned_from ls)\<^sup>+" "(a, s) \<in> (cloned_from ls)\<^sup>*"
  shows "(s, s) \<in> (cloned_from ls)\<^sup>+"
  using assms(2)
proof (induction rule: rtrancl_induct)
  case (step y z)
  then obtain w where "(y, w) \<in> cloned_from ls" "(w, y) \<in> (cloned_from ls)\<^sup>*" by (meson tranclD)
  then have "(z, y) \<in> (cloned_from ls)\<^sup>*" using step(2) single_valued_cloned by (metis single_valuedD)
  then show ?case using step(2) by (rule rtrancl_into_trancl1)
qed (rule assms(1))

definition tangled_above :: "lineages \<Rightarrow> string \<Rightarrow> bool" where
  "tangled_above ls t \<longleftrightarrow> (\<exists>a. (t, a) \<in> (cloned_from ls)\<^sup>* \<and> (a, a) \<in> (cloned_from ls)\<^sup>+)"

lemma ancestors_loop_spec:
  assumes "\<forall>a \<in> seen. (t, a) \<in> (cloned_from ls)\<^sup>* \<and> (a, cur) \<in> (cloned_from ls)\<^sup>*" "cur \<in> seen"
  shows "case ancestors_loop ls seen cur chain of
      Inl (Cycle a) \<Rightarrow> (t, a) \<in> (cloned_from ls)\<^sup>* \<and> (a, a) \<in> (cloned_from ls)\<^sup>+
    | Inr chain' \<Rightarrow> \<not> tangled_above ls t"
  using assms
proof (induction ls seen cur chain rule: ancestors_loop.induct)
  case (1 ls seen cur chain)
  show ?case
  proof (cases "map_of ls cur")
    case None
    have "\<not> tangled_above ls t"
    proof
      assume "tangled_above ls t"
      then obtain a where a: "(t, a) \<in> (cloned_from ls)\<^sup>*" "(a, a) \<in> (cloned_from ls)\<^sup>+" by (auto simp: tangled_above_def)
      have "(t, cur) \<in> (cloned_from ls)\<^sup>*" using 1(2,3) by blast
      with a(1) have "(a, cur) \<in> (cloned_from ls)\<^sup>* \<or> (cur, a) \<in> (cloned_from ls)\<^sup>*"
        using single_valued_confluent [OF single_valued_cloned] by blast
      moreover have "(cur, x) \<notin> cloned_from ls" for x using None by (simp add: cloned_from_def)
      ultimately have "(a, cur) \<in> (cloned_from ls)\<^sup>*" by (metis converse_rtranclE rtrancl.rtrancl_refl)
      from cycle_goes_on [OF a(2) this] show False using None by (auto dest!: tranclD simp: cloned_from_def)
    qed
    then show ?thesis using None by (simp add: ancestors_loop.simps [of ls])
  next
    case (Some l)
    have hop: "(cur, ln_origin l) \<in> cloned_from ls" using Some by (simp add: cloned_from_def)
    show ?thesis
    proof (cases "ln_origin l \<in> seen")
      case True
      then have "(ln_origin l, ln_origin l) \<in> (cloned_from ls)\<^sup>+"
        using 1(2) hop by (meson rtrancl_into_trancl1)
      then show ?thesis using True 1(2) Some by (simp add: ancestors_loop.simps [of ls])
    next
      case False
      have "\<forall>a \<in> insert (ln_origin l) seen. (t, a) \<in> (cloned_from ls)\<^sup>* \<and> (a, ln_origin l) \<in> (cloned_from ls)\<^sup>*"
        using 1(2,3) hop by (auto intro: rtrancl_into_rtrancl)
      with 1(1) [OF Some False] show ?thesis using Some False by (simp add: ancestors_loop.simps [of ls])
    qed
  qed
qed

lemma ancestors_spec:
  "case ancestors ls t of
     Inl (Cycle a) \<Rightarrow> (t, a) \<in> (cloned_from ls)\<^sup>* \<and> (a, a) \<in> (cloned_from ls)\<^sup>+
   | Inr chain \<Rightarrow> \<not> tangled_above ls t"
  unfolding ancestors_def by (rule ancestors_loop_spec) simp_all

text \<open>What the search collects.\<close>

lemma reach_clones_spec:
  "reach_clones ls t (r, f) = (r', f') \<Longrightarrow>
     r' = r \<union> {c. \<exists>l. (c, l) \<in> set ls \<and> ln_origin l = t} \<and> set f' = set f \<union> (r' - r)"
proof (induction ls arbitrary: r f)
  case (Cons x ls)
  obtain c l where x: "x = (c, l)" by (cases x)
  show ?case
  proof (cases "ln_origin l \<noteq> t \<or> c \<in> r")
    case True
    then have "reach_clones ls t (r, f) = (r', f')" using Cons.prems x by (simp add: reach_clones_def)
    from Cons.IH [OF this] show ?thesis using True x by auto
  next
    case False
    then have "reach_clones ls t (insert c r, c # f) = (r', f')" using Cons.prems x by (simp add: reach_clones_def)
    from Cons.IH [OF this] show ?thesis using False x by auto
  qed
qed (simp add: reach_clones_def)

lemma clones_in_map:
  "distinct (map fst ls) \<Longrightarrow> {c. \<exists>l. (c, l) \<in> set ls \<and> ln_origin l = t} = {c. (c, t) \<in> cloned_from ls}"
  by (auto simp: cloned_from_def dest: map_of_SomeD)

lemma readers_loop_spec:
  assumes "distinct (map fst ls)" "set frontier \<subseteq> reached"
    and "\<And>x y. y \<in> reached - set frontier \<Longrightarrow> (x, y) \<in> cloned_from ls \<Longrightarrow> x \<in> reached"
  shows "readers_loop ls reached frontier = {x. \<exists>y \<in> reached. (x, y) \<in> (cloned_from ls)\<^sup>*}"
  using assms
proof (induction ls reached frontier rule: readers_loop.induct)
  case (1 ls reached)
  have "x \<in> reached" if "(x, y) \<in> (cloned_from ls)\<^sup>*" "y \<in> reached" for x y
    using that by (induction rule: converse_rtrancl_induct) (use 1(3) in auto)
  then show ?case by auto
next
  case (2 ls reached t frontier)
  obtain r f where rf: "reach_clones ls t (reached, frontier) = (r, f)" by fastforce
  note spec = reach_clones_spec [OF rf, unfolded clones_in_map [OF 2(2)]]
  have "readers_loop ls r f = {x. \<exists>y \<in> r. (x, y) \<in> (cloned_from ls)\<^sup>*}"
  proof (rule 2(1) [OF rf [symmetric] 2(2)])
    show "set f \<subseteq> r" using spec 2(3) by auto
    show "x \<in> r" if "y \<in> r - set f" "(x, y) \<in> cloned_from ls" for x y
      using that spec 2(4) [of y x] by (cases "y = t") auto
  qed
  moreover have "t \<in> reached" using 2(3) by simp
  then have "{x. \<exists>y \<in> r. (x, y) \<in> (cloned_from ls)\<^sup>*} = {x. \<exists>y \<in> reached. (x, y) \<in> (cloned_from ls)\<^sup>*}"
    using spec by (auto intro: rtrancl_into_rtrancl)
  ultimately show ?case using rf by simp
qed

lemma readers_are_exact:
  "distinct (map fst ls) \<Longrightarrow> readers_loop ls {t} [t] = {x. (x, t) \<in> (cloned_from ls)\<^sup>*}"
  by (subst readers_loop_spec) auto

lemma finite_readers: "finite {x. (x, t) \<in> (cloned_from ls)\<^sup>*}"
proof -
  have "{x. (x, t) \<in> (cloned_from ls)\<^sup>*} \<subseteq> insert t (Domain (cloned_from ls))"
    by (auto elim: converse_rtranclE)
  then show ?thesis by (rule finite_subset) (simp add: finite_cloned finite_Domain)
qed

text \<open>
  C38: The guard on dropping and purging a table is exact, and it always answers. It passes a
  table when no other table was cloned from it, at any remove, and no cycle of lineages lies
  above it; when it refuses because the table is still read, the list it reports is every such
  table and no other, the table itself left out; and when it reports a tangle, the table it names
  really is on a cycle that the table leads to. Following the lineages ends on a tangled family
  too.
\<close>
theorem dropping_strands_no_clone:
  assumes "bt_ordered ls"
  shows "(may_drop t ls = Inr () \<longleftrightarrow>
        {x. x \<noteq> t \<and> (x, t) \<in> (cloned_from ls)\<^sup>*} = {} \<and> \<not> tangled_above ls t) \<and>
      (may_drop t ls = Inl (StillRead t' by) \<longleftrightarrow>
        t' = t \<and> \<not> tangled_above ls t \<and> by \<noteq> [] \<and> sorted_wrt (<) by \<and>
        set by = {x. x \<noteq> t \<and> (x, t) \<in> (cloned_from ls)\<^sup>*}) \<and>
      (may_drop t ls = Inl (Tangled a) \<longrightarrow> (t, a) \<in> (cloned_from ls)\<^sup>* \<and> (a, a) \<in> (cloned_from ls)\<^sup>+) \<and>
      (tangled_above ls t \<longrightarrow> (\<exists>a. may_drop t ls = Inl (Tangled a)))"
proof -
  let ?D = "{x. x \<noteq> t \<and> (x, t) \<in> (cloned_from ls)\<^sup>*}"
  have readers: "readers_loop ls {t} [t] - {t} = ?D"
    using readers_are_exact [OF bt_ordered_distinct [OF assms]] by auto
  have fin: "finite ?D" by (rule finite_subset [OF _ finite_readers [of t ls]]) auto
  have drop: "may_drop t ls =
      (case ancestors ls t of
         Inl (Cycle a) \<Rightarrow> Inl (Tangled a)
       | Inr _ \<Rightarrow> if ?D = {} then Inr () else Inl (StillRead t (sorted_list_of_set ?D)))"
    unfolding may_drop_def dependents_def readers_of_def Let_def
    by (cases "ancestors ls t") (simp_all only: readers sum.case)
  have list: "sorted_list_of_set ?D = by \<longleftrightarrow> sorted_wrt (<) by \<and> set by = ?D" for "by"
  proof
    show "sorted_list_of_set ?D = by \<Longrightarrow> sorted_wrt (<) by \<and> set by = ?D"
      using strict_sorted_list_of_set [of ?D] set_sorted_list_of_set [OF fin] by blast
    assume "sorted_wrt (<) by \<and> set by = ?D"
    then have "sorted by" "distinct by" "set by = ?D" by (simp_all add: strict_sorted_iff)
    then show "sorted_list_of_set ?D = by" 
      using sorted_distinct_set_unique [of "sorted_list_of_set ?D" "by"] fin by simp
  qed
  show ?thesis
  proof (cases "ancestors ls t")
    case (Inl e)
    then obtain c where e: "ancestors ls t = Inl (Cycle c)" by (cases e) simp
    then have c: "(t, c) \<in> (cloned_from ls)\<^sup>*" "(c, c) \<in> (cloned_from ls)\<^sup>+" using ancestors_spec [of t ls] by simp_all
    then have "tangled_above ls t" by (auto simp: tangled_above_def)
    moreover have "may_drop t ls = Inl (Tangled c)" using drop e by simp
    ultimately show ?thesis using c by auto
  next
    case (Inr chain)
    then have free: "\<not> tangled_above ls t" using ancestors_spec [of t ls] by simp
    have drop': "may_drop t ls = (if ?D = {} then Inr () else Inl (StillRead t (sorted_list_of_set ?D)))"
      using drop Inr by simp
    show ?thesis
    proof (cases "?D = {}")
      case True
      then have "may_drop t ls = Inr ()" unfolding drop' by (rule if_P)
      then show ?thesis unfolding True using free by simp
    next
      case False
      then have "may_drop t ls = Inl (StillRead t (sorted_list_of_set ?D))" unfolding drop' by (rule if_not_P)
      moreover have "by \<noteq> []" if "set by = ?D" using that False by (metis set_empty)
      ultimately show ?thesis using free False list by auto
    qed
  qed
qed

text \<open>A clone of a clone, and a pair of tables that name each other.\<close>

definition sample_lineages :: lineages where
  "sample_lineages =
     [(''b'', lineage_new ''a'' 3 10), (''c'', lineage_new ''b'' 1 20), (''x'', lineage_new ''y'' 0 0), (''y'', lineage_new ''x'' 0 0)]"

lemma sample_lineages_drop:
  "may_drop ''a'' sample_lineages = Inl (StillRead ''a'' [''b'', ''c''])"
  "may_drop ''c'' sample_lineages = Inr ()"
  "may_drop ''x'' sample_lineages = Inl (Tangled ''x'')"
  by code_simp+

theorem dropping_strands_no_clone_witness:
  "set [''b'', ''c''] = {x. x \<noteq> ''a'' \<and> (x, ''a'') \<in> (cloned_from sample_lineages)\<^sup>*} \<and>
   {x. x \<noteq> ''c'' \<and> (x, ''c'') \<in> (cloned_from sample_lineages)\<^sup>*} = {} \<and>
   (''x'', ''x'') \<in> (cloned_from sample_lineages)\<^sup>+"
proof -
  have o': "bt_ordered sample_lineages" by code_simp
  note claim = dropping_strands_no_clone [OF o']
  show ?thesis
    using claim [of "''a''" "''a''" "[''b'', ''c'']"] claim [of "''c''"] claim [of "''x''" _ _ "''x''"] sample_lineages_drop
    by simp
qed

end
