(* ===== verification/Compaction.thy ===== *)
theory Compaction
  imports Positions Ordered_Maps Decimal "HOL-Library.Multiset" "HOL-Library.Sublist"
begin

text \<open>
  What maintenance decides, before it touches anything: \<^verbatim>\<open>crates/sankhya-maintenance/src/compaction.rs\<close>
  (which files of a partition to merge), \<^verbatim>\<open>schedule.rs\<close> (which jobs a cycle runs) and
  \<open>plan_tick\<close> of \<^verbatim>\<open>driver.rs\<close>, which joins the two. The reasons of a plan are left out;
  those of a deferral are its values.
\<close>

subsection \<open>Files and partitions\<close>

record file_stat =
  fs_name :: string
  fs_bytes :: u64
  fs_rows :: u64
  fs_covers :: lsn

record partition_state =
  ps_table :: string
  ps_partition :: string
  ps_files :: "file_stat list"
  ps_ticks_since_write :: u64

definition partition_bytes :: "partition_state \<Rightarrow> u64" where
  "partition_bytes s = sum_list (map fs_bytes (ps_files s))"

definition file_count :: "partition_state \<Rightarrow> nat" where
  "file_count s = length (ps_files s)"

definition median_bytes :: "partition_state \<Rightarrow> u64" where
  "median_bytes s =
     (if ps_files s = [] then 0
      else (let sizes = sort (map fs_bytes (ps_files s)) in
            if length sizes div 2 < length sizes then sizes ! (length sizes div 2) else 0))"

definition covers_of :: "file_stat list \<Rightarrow> lsn" where
  "covers_of fs = (case iter_max (map fs_covers fs) of None \<Rightarrow> LSN_ZERO | Some l \<Rightarrow> l)"

definition partition_covers :: "partition_state \<Rightarrow> lsn" where
  "partition_covers s = covers_of (ps_files s)"

subsection \<open>Policy and plan\<close>

datatype urgency = NoUrgency | Routine | Elevated | Urgent

record compaction_policy =
  target_bytes :: u64
  small_file_bytes :: u64
  routine_file_count :: nat
  elevated_file_count :: nat
  urgent_file_count :: nat
  settle_ticks :: u64
  clustering :: "string list"
  max_files_per_pass :: nat

definition compaction_policy_default :: compaction_policy where
  "compaction_policy_default =
     \<lparr>target_bytes = 256 * 1024 * 1024, small_file_bytes = 64 * 1024 * 1024, routine_file_count = 8,
      elevated_file_count = 32, urgent_file_count = 128, settle_ticks = 60, clustering = [],
      max_files_per_pass = 32\<rparr>"

record compaction_plan =
  cp_table :: string
  cp_partition :: string
  cp_urgency :: urgency
  cp_inputs :: "file_stat list"
  cp_covers :: lsn
  cp_settled :: bool

definition plan_rows :: "compaction_plan \<Rightarrow> u64" where
  "plan_rows p = sum_list (map fs_rows (cp_inputs p))"

definition plan_bytes :: "compaction_plan \<Rightarrow> u64" where
  "plan_bytes p = sum_list (map fs_bytes (cp_inputs p))"

definition input_names :: "compaction_plan \<Rightarrow> string list" where
  "input_names p = map fs_name (cp_inputs p)"

definition small_files :: "compaction_policy \<Rightarrow> partition_state \<Rightarrow> file_stat list" where
  "small_files pol s = filter (\<lambda>f. fs_bytes f < small_file_bytes pol) (ps_files s)"

definition urgency_of :: "compaction_policy \<Rightarrow> partition_state \<Rightarrow> urgency" where
  "urgency_of pol s =
     (if urgent_file_count pol \<le> file_count s then Urgent
      else if elevated_file_count pol \<le> file_count s then Elevated
      else if routine_file_count pol \<le> file_count s \<or>
          2 \<le> length (small_files pol s) \<and> median_bytes s < small_file_bytes pol div 4 then Routine
      else NoUrgency)"

text \<open>The loop over the candidates, smallest first: the chosen ones and their size.\<close>

definition size_order :: "file_stat \<Rightarrow> u64 \<times> string" where
  "size_order f = (fs_bytes f, fs_name f)"

fun take_inputs :: "compaction_policy \<Rightarrow> file_stat list \<Rightarrow> u64 \<Rightarrow> file_stat list \<Rightarrow> file_stat list" where
  "take_inputs pol inputs accumulated [] = inputs"
| "take_inputs pol inputs accumulated (f # fs) =
     (if max_files_per_pass pol \<le> length inputs then inputs
      else if inputs \<noteq> [] \<and> word_saturating_add accumulated (fs_bytes f) > target_bytes pol then inputs
      else take_inputs pol (inputs @ [f]) (word_saturating_add accumulated (fs_bytes f)) fs)"

definition chosen_inputs :: "compaction_policy \<Rightarrow> partition_state \<Rightarrow> file_stat list" where
  "chosen_inputs pol s = take_inputs pol [] 0 (sort_key size_order (ps_files s))"

definition plan_compaction :: "compaction_policy \<Rightarrow> partition_state \<Rightarrow> compaction_plan option" where
  "plan_compaction pol s =
     (if file_count s < 2 then None
      else if urgency_of pol s = NoUrgency then None
      else (let inputs = chosen_inputs pol s in
            if length inputs < 2 then None
            else Some \<lparr>cp_table = ps_table s, cp_partition = ps_partition s, cp_urgency = urgency_of pol s,
                       cp_inputs = inputs, cp_covers = covers_of inputs,
                       cp_settled = (settle_ticks pol \<le> ps_ticks_since_write s)\<rparr>))"

subsection \<open>Jobs and the schedule\<close>

datatype job_class = Safety | Availability | Performance | Housekeeping | Optional

text \<open>The derived order of \<open>Class\<close> is the order of declaration.\<close>

primrec class_rank :: "job_class \<Rightarrow> nat" where
  "class_rank Safety = 0"
| "class_rank Availability = 1"
| "class_rank Performance = 2"
| "class_rank Housekeeping = 3"
| "class_rank Optional = 4"

lemma class_rank_inject [simp]: "class_rank c = class_rank d \<longleftrightarrow> c = d"
  by (cases c; cases d) simp_all

instantiation job_class :: linorder
begin

definition less_eq_job_class :: "job_class \<Rightarrow> job_class \<Rightarrow> bool" where
  "less_eq_job_class c d \<longleftrightarrow> class_rank c \<le> class_rank d"

definition less_job_class :: "job_class \<Rightarrow> job_class \<Rightarrow> bool" where
  "less_job_class c d \<longleftrightarrow> class_rank c < class_rank d"

instance
  by standard (auto simp: less_eq_job_class_def less_job_class_def)

end

definition may_preempt_queries :: "job_class \<Rightarrow> bool" where
  "may_preempt_queries c \<longleftrightarrow> c \<in> {Safety, Availability}"

definition bounded_by_duty_cycle :: "job_class \<Rightarrow> bool" where
  "bounded_by_duty_cycle c \<longleftrightarrow> \<not> may_preempt_queries c"

definition windows_only :: "job_class \<Rightarrow> bool" where
  "windows_only c \<longleftrightarrow> c = Optional"

definition audited :: "job_class \<Rightarrow> bool" where
  "audited c \<longleftrightarrow> c = Availability"

record job =
  jb_name :: string
  jb_class :: job_class
  estimated_ticks :: u64
  resumable :: bool
  ticks_deferred :: u64
  ticks_to_visible :: "u64 option"

record system_state =
  in_maintenance_window :: bool
  queries_running :: nat
  duty_cycle_ticks_remaining :: u64

datatype deferral = BudgetExhausted u64 u64 | WouldNotFinish u64 u64 | OutsideWindow

record scheduled =
  sc_job :: job
  sc_preempts :: bool
  sc_audited :: bool

record schedule_decision =
  sd_run :: "scheduled list"
  sd_deferred :: "(job \<times> deferral) list"

text \<open>
  The comparison of two jobs: by class, by how soon they are visible, by the longest wait and by name. A wait is
  compared in reverse, as its complement is.
\<close>

definition job_order :: "job \<Rightarrow> job_class \<times> u64 \<times> u64 \<times> string" where
  "job_order j =
     (jb_class j, (case ticks_to_visible j of None \<Rightarrow> - 1 | Some t \<Rightarrow> t), NOT (ticks_deferred j), jb_name j)"

definition defer_reason :: "job \<Rightarrow> u64 \<Rightarrow> deferral" where
  "defer_reason j budget =
     (if resumable j then BudgetExhausted budget (estimated_ticks j) else WouldNotFinish budget (estimated_ticks j))"

definition run_job :: "system_state \<Rightarrow> job \<Rightarrow> scheduled" where
  "run_job st j =
     \<lparr>sc_job = j, sc_preempts = (may_preempt_queries (jb_class j) \<and> queries_running st > 0),
      sc_audited = audited (jb_class j)\<rparr>"

fun schedule_loop :: "system_state \<Rightarrow> u64 \<Rightarrow> job list \<Rightarrow> scheduled list \<times> (job \<times> deferral) list" where
  "schedule_loop st budget [] = ([], [])"
| "schedule_loop st budget (j # js) =
     (if windows_only (jb_class j) \<and> \<not> in_maintenance_window st then
        (case schedule_loop st budget js of (run, deferred) \<Rightarrow> (run, (j, OutsideWindow) # deferred))
      else if bounded_by_duty_cycle (jb_class j) then
        (if budget = 0 \<or> estimated_ticks j > budget then
           (case schedule_loop st budget js of (run, deferred) \<Rightarrow> (run, (j, defer_reason j budget) # deferred))
         else
           (case schedule_loop st (word_saturating_sub budget (estimated_ticks j)) js of
              (run, deferred) \<Rightarrow> (run_job st j # run, deferred)))
      else (case schedule_loop st budget js of (run, deferred) \<Rightarrow> (run_job st j # run, deferred)))"

definition schedule_jobs :: "job list \<Rightarrow> system_state \<Rightarrow> schedule_decision" where
  "schedule_jobs jobs st =
     (case schedule_loop st (duty_cycle_ticks_remaining st) (sort_key job_order jobs) of
        (run, deferred) \<Rightarrow> \<lparr>sd_run = run, sd_deferred = deferred\<rparr>)"

definition preempts_queries :: "schedule_decision \<Rightarrow> bool" where
  "preempts_queries s \<longleftrightarrow> list_ex sc_preempts (sd_run s)"

text \<open>\<open>max_by_key\<close> keeps the last of the greatest, \<open>min_by_key\<close> the first of the least.\<close>

definition longest_deferral :: "schedule_decision \<Rightarrow> (job \<times> u64) option" where
  "longest_deferral s =
     map_option (\<lambda>(j, _). (j, ticks_deferred j)) (max_by_key (\<lambda>(j, _). ticks_deferred j) (sd_deferred s))"

definition soonest_visible_deferral :: "schedule_decision \<Rightarrow> (job \<times> u64) option" where
  "soonest_visible_deferral s =
     (case sort_key snd (List.map_filter (\<lambda>(j, _). map_option (Pair j) (ticks_to_visible j)) (sd_deferred s)) of
        [] \<Rightarrow> None
      | x # _ \<Rightarrow> Some x)"

subsection \<open>The tick\<close>

record retention_policy =
  grace_ticks :: u64
  leak_ticks :: u64
  verify_replacement :: bool

definition retention_policy_default :: retention_policy where
  "retention_policy_default = \<lparr>grace_ticks = 24, leak_ticks = 2400, verify_replacement = True\<rparr>"

record driver_policy =
  dp_compaction :: compaction_policy
  dp_retention :: retention_policy
  dp_clustering :: "(string \<times> string list) list"
  bytes_per_tick :: u64

definition driver_policy_default :: driver_policy where
  "driver_policy_default =
     \<lparr>dp_compaction = compaction_policy_default, dp_retention = retention_policy_default, dp_clustering = [],
      bytes_per_tick = 8 * 1024 * 1024\<rparr>"

primrec class_for :: "urgency \<Rightarrow> job_class option" where
  "class_for NoUrgency = None"
| "class_for Routine = Some Performance"
| "class_for Elevated = Some Performance"
| "class_for Urgent = Some Availability"

definition estimate_ticks :: "driver_policy \<Rightarrow> u64 \<Rightarrow> u64" where
  "estimate_ticks pol bytes = max (bytes div max (bytes_per_tick pol) 1) 1"

primrec visible_in :: "urgency \<Rightarrow> u64 option" where
  "visible_in NoUrgency = None"
| "visible_in Routine = Some 100"
| "visible_in Elevated = Some 10"
| "visible_in Urgent = Some 1"

record pending_compaction =
  pc_plan :: compaction_plan
  pc_job :: job
  pc_clustering :: "string list"

record tick_plan =
  tp_run :: "pending_compaction list"
  tp_deferred :: "(pending_compaction \<times> deferral) list"
  tp_preempts :: bool

definition pending_for :: "driver_policy \<Rightarrow> partition_state \<Rightarrow> pending_compaction option" where
  "pending_for pol s =
     (case plan_compaction (dp_compaction pol) s of
        None \<Rightarrow> None
      | Some p \<Rightarrow>
          (case class_for (cp_urgency p) of
             None \<Rightarrow> None
           | Some c \<Rightarrow>
               Some \<lparr>pc_plan = p,
                     pc_job = \<lparr>jb_name = ''compact '' @ cp_table p @ ''/'' @ cp_partition p, jb_class = c,
                        estimated_ticks = estimate_ticks pol (plan_bytes p), resumable = True, ticks_deferred = 0,
                        ticks_to_visible = visible_in (cp_urgency p)\<rparr>,
                     pc_clustering =
                       (case map_of (dp_clustering pol) (ps_table s) of
                          None \<Rightarrow> clustering (dp_compaction pol)
                        | Some columns \<Rightarrow> columns)\<rparr>))"

definition plan_tick :: "partition_state list \<Rightarrow> driver_policy \<Rightarrow> system_state \<Rightarrow> tick_plan" where
  "plan_tick partitions pol st =
     (let pending = List.map_filter (pending_for pol) partitions;
          decided = schedule_jobs (map pc_job pending) st;
          look_up = (\<lambda>n. List.find (\<lambda>p. jb_name (pc_job p) = n) pending)
      in \<lparr>tp_run = List.map_filter (\<lambda>s. look_up (jb_name (sc_job s))) (sd_run decided),
          tp_deferred = List.map_filter (\<lambda>(j, why). map_option (\<lambda>p. (p, why)) (look_up (jb_name j))) (sd_deferred decided),
          tp_preempts = preempts_queries decided\<rparr>)"

subsection \<open>What a plan merges\<close>

lemma take_inputs_prefix:
  "\<exists>xs ys. fs = xs @ ys \<and> take_inputs pol inputs a fs = inputs @ xs"
proof (induction fs arbitrary: inputs a)
  case (Cons f fs)
  obtain xs ys where "fs = xs @ ys" "take_inputs pol (inputs @ [f]) (word_saturating_add a (fs_bytes f)) fs = (inputs @ [f]) @ xs"
    using Cons by blast
  then show ?case by (cases "take_inputs pol inputs a (f # fs) = inputs") (auto intro: exI [of _ "f # xs"])
qed simp

lemma take_inputs_length: "length inputs \<le> max_files_per_pass pol \<Longrightarrow> length (take_inputs pol inputs a fs) \<le> max_files_per_pass pol"
  by (induction pol inputs a fs rule: take_inputs.induct) auto

definition bytes_in :: "file_stat list \<Rightarrow> nat" where
  "bytes_in fs = sum_list (map (unat \<circ> fs_bytes) fs)"

lemma bytes_in_simps [simp]: "bytes_in [] = 0" "bytes_in (f # fs) = unat (fs_bytes f) + bytes_in fs" "bytes_in (fs @ gs) = bytes_in fs + bytes_in gs"
  by (simp_all add: bytes_in_def)

text \<open>The running total is the size of what was taken, for as long as it does not saturate.\<close>

definition counted_as :: "file_stat list \<Rightarrow> u64 \<Rightarrow> bool" where
  "counted_as fs a \<longleftrightarrow> unat a = min (bytes_in fs) (2 ^ 64 - 1)"

lemma counted_as_add: "counted_as fs a \<Longrightarrow> counted_as (fs @ [f]) (word_saturating_add a (fs_bytes f))"
  by (simp add: counted_as_def unat_saturating_add)

lemma take_inputs_fits:
  assumes "counted_as inputs a" "2 \<le> length inputs \<Longrightarrow> min (bytes_in inputs) (2 ^ 64 - 1) \<le> unat (target_bytes pol)"
    and "2 \<le> length (take_inputs pol inputs a fs)"
  shows "min (bytes_in (take_inputs pol inputs a fs)) (2 ^ 64 - 1) \<le> unat (target_bytes pol)"
  using assms
proof (induction pol inputs a fs rule: take_inputs.induct)
  case (2 pol inputs a f fs)
  show ?case
  proof (cases "max_files_per_pass pol \<le> length inputs \<or> inputs \<noteq> [] \<and> word_saturating_add a (fs_bytes f) > target_bytes pol")
    case True
    then have "take_inputs pol inputs a (f # fs) = inputs" by auto
    then show ?thesis using 2(3,4) by simp
  next
    case False
    have counted: "counted_as (inputs @ [f]) (word_saturating_add a (fs_bytes f))" by (rule counted_as_add [OF 2(2)])
    have "min (bytes_in (inputs @ [f])) (2 ^ 64 - 1) \<le> unat (target_bytes pol)" if "2 \<le> length (inputs @ [f])"
    proof -
      have "word_saturating_add a (fs_bytes f) \<le> target_bytes pol" using that False by auto
      then show ?thesis using counted by (simp add: word_le_nat_alt counted_as_def)
    qed
    moreover have "take_inputs pol inputs a (f # fs) = take_inputs pol (inputs @ [f]) (word_saturating_add a (fs_bytes f)) fs"
      using False by auto
    ultimately show ?thesis using 2(1) False counted 2(4) by auto
  qed
qed simp

lemma take_inputs_maximal:
  assumes "counted_as inputs a" "take_inputs pol inputs a (xs @ f # ys) = inputs @ xs"
  shows "max_files_per_pass pol \<le> length (inputs @ xs) \<or>
    inputs @ xs \<noteq> [] \<and> unat (target_bytes pol) < min (bytes_in (inputs @ xs) + unat (fs_bytes f)) (2 ^ 64 - 1)"
  using assms
proof (induction xs arbitrary: inputs a)
  case Nil
  show ?case
  proof (rule ccontr)
    assume no: "\<not> ?case"
    have "counted_as (inputs @ [f]) (word_saturating_add a (fs_bytes f))" by (rule counted_as_add [OF Nil(1)])
    then have "inputs = [] \<or> \<not> word_saturating_add a (fs_bytes f) > target_bytes pol"
      using no by (auto simp: word_less_nat_alt counted_as_def)
    then have "take_inputs pol inputs a (f # ys) = take_inputs pol (inputs @ [f]) (word_saturating_add a (fs_bytes f)) ys"
      using no by auto
    with Nil(2) show False using take_inputs_prefix [of ys pol "inputs @ [f]" "word_saturating_add a (fs_bytes f)"] by auto
  qed
next
  case (Cons x xs)
  have "take_inputs pol (inputs @ [x]) (word_saturating_add a (fs_bytes x)) (xs @ f # ys) = (inputs @ [x]) @ xs"
    using Cons.prems(2) by (auto split: if_splits)
  from Cons.IH [OF counted_as_add [OF Cons.prems(1), of x] this] show ?case by simp
qed

lemma chosen_inputs_spec:
  obtains rest where "sort_key size_order (ps_files s) = chosen_inputs pol s @ rest"
    "length (chosen_inputs pol s) \<le> max_files_per_pass pol"
    "2 \<le> length (chosen_inputs pol s) \<longrightarrow> min (bytes_in (chosen_inputs pol s)) (2 ^ 64 - 1) \<le> unat (target_bytes pol)"
    "rest \<noteq> [] \<longrightarrow> length (chosen_inputs pol s) = max_files_per_pass pol \<or>
       chosen_inputs pol s \<noteq> [] \<and>
       unat (target_bytes pol) < min (bytes_in (chosen_inputs pol s) + unat (fs_bytes (hd rest))) (2 ^ 64 - 1)"
proof -
  have zero: "counted_as [] 0" by (simp add: counted_as_def)
  obtain xs rest where xs: "sort_key size_order (ps_files s) = xs @ rest" "chosen_inputs pol s = xs"
    using take_inputs_prefix [of "sort_key size_order (ps_files s)" pol "[]" 0] by (auto simp: chosen_inputs_def)
  show thesis
  proof (rule that [of rest])
    show len: "length (chosen_inputs pol s) \<le> max_files_per_pass pol"
      unfolding chosen_inputs_def by (rule take_inputs_length) simp
    show "sort_key size_order (ps_files s) = chosen_inputs pol s @ rest" using xs by simp
    show "2 \<le> length (chosen_inputs pol s) \<longrightarrow> min (bytes_in (chosen_inputs pol s)) (2 ^ 64 - 1) \<le> unat (target_bytes pol)"
      unfolding chosen_inputs_def using take_inputs_fits [OF zero] by simp
    show "rest \<noteq> [] \<longrightarrow> length (chosen_inputs pol s) = max_files_per_pass pol \<or>
       chosen_inputs pol s \<noteq> [] \<and>
       unat (target_bytes pol) < min (bytes_in (chosen_inputs pol s) + unat (fs_bytes (hd rest))) (2 ^ 64 - 1)"
    proof
    assume "rest \<noteq> []"
    then obtain f ys where rest: "rest = f # ys" by (cases rest) auto
    then have "take_inputs pol [] 0 (xs @ f # ys) = [] @ xs" using xs by (simp add: chosen_inputs_def)
    from take_inputs_maximal [OF zero this] show "length (chosen_inputs pol s) = max_files_per_pass pol \<or>
       chosen_inputs pol s \<noteq> [] \<and>
       unat (target_bytes pol) < min (bytes_in (chosen_inputs pol s) + unat (fs_bytes (hd rest))) (2 ^ 64 - 1)"
      using len xs(2) rest by auto
    qed
  qed
qed

lemma plan_compaction_Some:
  "plan_compaction pol s = Some p \<longleftrightarrow>
     2 \<le> file_count s \<and> urgency_of pol s \<noteq> NoUrgency \<and> 2 \<le> length (chosen_inputs pol s) \<and>
     p = \<lparr>cp_table = ps_table s, cp_partition = ps_partition s, cp_urgency = urgency_of pol s,
          cp_inputs = chosen_inputs pol s, cp_covers = covers_of (chosen_inputs pol s),
          cp_settled = (settle_ticks pol \<le> ps_ticks_since_write s)\<rparr>"
  by (auto simp: plan_compaction_def Let_def split: if_splits)

lemma two_chosen:
  "2 \<le> length (chosen_inputs pol s) \<longleftrightarrow>
     2 \<le> file_count s \<and> 2 \<le> max_files_per_pass pol \<and>
     min (bytes_in (take 2 (sort_key size_order (ps_files s)))) (2 ^ 64 - 1) \<le> unat (target_bytes pol)"
proof -
  let ?fs = "sort_key size_order (ps_files s)"
  have len: "length ?fs = file_count s" by (simp add: file_count_def)
  show ?thesis
  proof (cases "2 \<le> file_count s")
    case True
    then obtain f g rest where fs: "?fs = f # g # rest" using len by (cases ?fs; cases "tl ?fs") auto
    have fg: "take 2 ?fs = [f, g]" using fs by simp
    show ?thesis
    proof (cases "2 \<le> max_files_per_pass pol")
      case few: True
      have "counted_as [f, g] (word_saturating_add (word_saturating_add 0 (fs_bytes f)) (fs_bytes g))"
        using counted_as_add [OF counted_as_add [of "[]" 0 f], of g] by (simp add: counted_as_def)
      then have le: "word_saturating_add (word_saturating_add 0 (fs_bytes f)) (fs_bytes g) \<le> target_bytes pol \<longleftrightarrow>
          min (bytes_in [f, g]) (2 ^ 64 - 1) \<le> unat (target_bytes pol)"
        by (simp add: word_le_nat_alt counted_as_def)
      show ?thesis
      proof (cases "word_saturating_add (word_saturating_add 0 (fs_bytes f)) (fs_bytes g) \<le> target_bytes pol")
        case True
        then have "chosen_inputs pol s = take_inputs pol [f, g] (word_saturating_add (word_saturating_add 0 (fs_bytes f)) (fs_bytes g)) rest"
          using fs few leD [OF True] by (simp add: chosen_inputs_def)
        then have "2 \<le> length (chosen_inputs pol s)" 
          using take_inputs_prefix [of rest pol "[f, g]" "word_saturating_add (word_saturating_add 0 (fs_bytes f)) (fs_bytes g)"] by auto
        then show ?thesis using True le few fg \<open>2 \<le> file_count s\<close> by simp
      next
        case False
        then have "chosen_inputs pol s = [f]" using fs few by (simp add: chosen_inputs_def not_le)
        then show ?thesis using False le fg by simp
      qed
    next
      case False
      obtain rest where "length (chosen_inputs pol s) \<le> max_files_per_pass pol" by (rule chosen_inputs_spec)
      then show ?thesis using False by simp
    qed
  next
    case False
    obtain rest where "?fs = chosen_inputs pol s @ rest" by (rule chosen_inputs_spec)
    then have "length (chosen_inputs pol s) \<le> file_count s" using len by (metis length_append le_add1)
    then show ?thesis using False by simp
  qed
qed

text \<open>
  A partition is compacted exactly when it needs it and its two smallest files fit in a merged one. A plan then merges its smallest files:
  at least two of them, no more than a pass allows, of a size that fits the target, and it leaves one out only
  because the pass is full or the next would overshoot. The coverage it declares is the furthest of its inputs.
\<close>

theorem compaction_merges_the_smallest:
  shows "(plan_compaction pol s \<noteq> None \<longleftrightarrow>
      2 \<le> file_count s \<and> urgency_of pol s \<noteq> NoUrgency \<and> 2 \<le> max_files_per_pass pol \<and>
      min (bytes_in (take 2 (sort_key size_order (ps_files s)))) (2 ^ 64 - 1) \<le> unat (target_bytes pol)) \<and>
    (plan_compaction pol s = Some p \<longrightarrow>
      (\<exists>rest. sort_key size_order (ps_files s) = cp_inputs p @ rest \<and>
        (rest = [] \<or> length (cp_inputs p) = max_files_per_pass pol \<or>
         unat (target_bytes pol) < min (bytes_in (cp_inputs p) + unat (fs_bytes (hd rest))) (2 ^ 64 - 1))) \<and>
      2 \<le> length (cp_inputs p) \<and> length (cp_inputs p) \<le> max_files_per_pass pol \<and>
      min (bytes_in (cp_inputs p)) (2 ^ 64 - 1) \<le> unat (target_bytes pol) \<and>
      cp_covers p = Max (fs_covers ` set (cp_inputs p)))"
proof -
  have exactly: "plan_compaction pol s \<noteq> None \<longleftrightarrow>
      2 \<le> file_count s \<and> urgency_of pol s \<noteq> NoUrgency \<and> 2 \<le> length (chosen_inputs pol s)"
    using plan_compaction_Some [of pol s] by auto
  obtain rest where r: "sort_key size_order (ps_files s) = chosen_inputs pol s @ rest"
    "length (chosen_inputs pol s) \<le> max_files_per_pass pol"
    "2 \<le> length (chosen_inputs pol s) \<longrightarrow> min (bytes_in (chosen_inputs pol s)) (2 ^ 64 - 1) \<le> unat (target_bytes pol)"
    "rest \<noteq> [] \<longrightarrow> length (chosen_inputs pol s) = max_files_per_pass pol \<or>
       chosen_inputs pol s \<noteq> [] \<and>
       unat (target_bytes pol) < min (bytes_in (chosen_inputs pol s) + unat (fs_bytes (hd rest))) (2 ^ 64 - 1)"
    by (rule chosen_inputs_spec [where s = s and pol = pol])
  show ?thesis
  proof (intro conjI)
    show "plan_compaction pol s \<noteq> None \<longleftrightarrow>
      2 \<le> file_count s \<and> urgency_of pol s \<noteq> NoUrgency \<and> 2 \<le> max_files_per_pass pol \<and>
      min (bytes_in (take 2 (sort_key size_order (ps_files s)))) (2 ^ 64 - 1) \<le> unat (target_bytes pol)"
      unfolding exactly two_chosen by blast
    show "plan_compaction pol s = Some p \<longrightarrow>
      (\<exists>rest. sort_key size_order (ps_files s) = cp_inputs p @ rest \<and>
        (rest = [] \<or> length (cp_inputs p) = max_files_per_pass pol \<or>
         unat (target_bytes pol) < min (bytes_in (cp_inputs p) + unat (fs_bytes (hd rest))) (2 ^ 64 - 1))) \<and>
      2 \<le> length (cp_inputs p) \<and> length (cp_inputs p) \<le> max_files_per_pass pol \<and>
      min (bytes_in (cp_inputs p)) (2 ^ 64 - 1) \<le> unat (target_bytes pol) \<and>
      cp_covers p = Max (fs_covers ` set (cp_inputs p))"
    proof
      assume "plan_compaction pol s = Some p"
      then have p: "2 \<le> length (chosen_inputs pol s)" "cp_inputs p = chosen_inputs pol s" "cp_covers p = covers_of (chosen_inputs pol s)"
        by (auto simp: plan_compaction_Some)
      then have "covers_of (chosen_inputs pol s) = Max (fs_covers ` set (chosen_inputs pol s))"
        by (auto simp: covers_of_def iter_max_def)
      with p r show "(\<exists>rest. sort_key size_order (ps_files s) = cp_inputs p @ rest \<and>
        (rest = [] \<or> length (cp_inputs p) = max_files_per_pass pol \<or>
         unat (target_bytes pol) < min (bytes_in (cp_inputs p) + unat (fs_bytes (hd rest))) (2 ^ 64 - 1))) \<and>
      2 \<le> length (cp_inputs p) \<and> length (cp_inputs p) \<le> max_files_per_pass pol \<and>
      min (bytes_in (cp_inputs p)) (2 ^ 64 - 1) \<le> unat (target_bytes pol) \<and>
      cp_covers p = Max (fs_covers ` set (cp_inputs p))"
        by auto
    qed
  qed
qed

subsection \<open>What a cycle runs\<close>

definition bounded_cost :: "job list \<Rightarrow> nat" where
  "bounded_cost js = sum_list (map (unat \<circ> estimated_ticks) (filter (\<lambda>j. bounded_by_duty_cycle (jb_class j)) js))"

lemma bounded_cost_simps [simp]:
  "bounded_cost [] = 0"
  "bounded_cost (j # js) = (if bounded_by_duty_cycle (jb_class j) then unat (estimated_ticks j) else 0) + bounded_cost js"
  by (simp_all add: bounded_cost_def)

lemma schedule_loop_splits:
  "schedule_loop st b js = (run, deferred) \<Longrightarrow> mset (map sc_job run) + mset (map fst deferred) = mset js"
  by (induction st b js arbitrary: run deferred rule: schedule_loop.induct)
    (auto simp: run_job_def split: if_splits prod.splits)

lemma schedule_loop_cost:
  "schedule_loop st b js = (run, deferred) \<Longrightarrow> bounded_cost (map sc_job run) \<le> unat b"
proof (induction st b js arbitrary: run deferred rule: schedule_loop.induct)
  case (2 st b j js)
  show ?case
  proof (cases "bounded_by_duty_cycle (jb_class j) \<and> \<not> (windows_only (jb_class j) \<and> \<not> in_maintenance_window st) \<and>
      \<not> (b = 0 \<or> estimated_ticks j > b)")
    case True
    obtain r d where rd: "schedule_loop st (word_saturating_sub b (estimated_ticks j)) js = (r, d)" by fastforce
    then have "run = run_job st j # r" using 2(5) True by auto
    moreover have "bounded_cost (map sc_job r) \<le> unat b - unat (estimated_ticks j)"
      using 2(3) True rd by (auto simp: unat_saturating_sub)
    moreover have "unat (estimated_ticks j) \<le> unat b" using True by (simp add: word_le_nat_alt not_less)
    ultimately show ?thesis using True by (simp add: run_job_def)
  qed (use 2 in \<open>auto simp: run_job_def split: if_splits prod.splits\<close>)
qed simp

lemma schedule_loop_order:
  "schedule_loop st b js = (run, deferred) \<Longrightarrow> subseq (map sc_job run) js \<and> subseq (map fst deferred) js"
  by (induction st b js arbitrary: run deferred rule: schedule_loop.induct)
    (auto simp: run_job_def split: if_splits prod.splits)

text \<open>Why a job is deferred, given what ran before it.\<close>

definition deferred_for :: "system_state \<Rightarrow> nat \<Rightarrow> job \<Rightarrow> deferral \<Rightarrow> bool" where
  "deferred_for st left j why \<longleftrightarrow>
     bounded_by_duty_cycle (jb_class j) \<and>
     (case why of
        OutsideWindow \<Rightarrow> jb_class j = Optional \<and> \<not> in_maintenance_window st
      | BudgetExhausted r n \<Rightarrow> resumable j \<and> n = estimated_ticks j \<and> unat r = left \<and> (left = 0 \<or> left < unat n)
      | WouldNotFinish r n \<Rightarrow> \<not> resumable j \<and> n = estimated_ticks j \<and> unat r = left \<and> (left = 0 \<or> left < unat n))"

lemma defer_reason_for:
  "bounded_by_duty_cycle (jb_class j) \<Longrightarrow> b = 0 \<or> estimated_ticks j > b \<Longrightarrow> deferred_for st (unat b) j (defer_reason j b)"
  by (auto simp: deferred_for_def defer_reason_def word_less_nat_alt)

lemma schedule_loop_deferred:
  "schedule_loop st b js = (run, deferred) \<Longrightarrow> (j, why) \<in> set deferred \<Longrightarrow>
     \<exists>before. prefix before (map sc_job run) \<and> subseq (before @ [j]) js \<and> deferred_for st (unat b - bounded_cost before) j why"
proof (induction st b js arbitrary: run deferred rule: schedule_loop.induct)
  case (2 st b x js)
  note IH = 2(1-4) and prems = 2(5,6)
  show ?case
  proof (cases "windows_only (jb_class x) \<and> \<not> in_maintenance_window st")
    case True
    obtain r d where rd: "schedule_loop st b js = (r, d)" by fastforce
    then have res: "run = r" "deferred = (x, OutsideWindow) # d" using prems(1) True by auto
    show ?thesis
    proof (cases "(j, why) = (x, OutsideWindow)")
      case same: True
      have "deferred_for st (unat b) x OutsideWindow"
        using True by (simp add: deferred_for_def windows_only_def bounded_by_duty_cycle_def may_preempt_queries_def)
      then show ?thesis using same by (intro exI [of _ "[]"]) (simp add: subseq_Cons')
    next
      case False
      then have "(j, why) \<in> set d" using prems(2) res(2) by auto
      from IH(1) [OF True rd this] obtain before where "prefix before (map sc_job r)" "subseq (before @ [j]) js"
        "deferred_for st (unat b - bounded_cost before) j why" by blast
      then show ?thesis using res by blast
    qed
  next
    case window: False
    show ?thesis
    proof (cases "bounded_by_duty_cycle (jb_class x)")
      case bounded: True
      show ?thesis
      proof (cases "b = 0 \<or> estimated_ticks x > b")
        case True
        obtain r d where rd: "schedule_loop st b js = (r, d)" by fastforce
        then have res: "run = r" "deferred = (x, defer_reason x b) # d" using prems(1) True bounded window by auto
        show ?thesis
        proof (cases "(j, why) = (x, defer_reason x b)")
          case same: True
          then show ?thesis using defer_reason_for [OF bounded True, of st] by (intro exI [of _ "[]"]) simp
        next
          case False
          then have "(j, why) \<in> set d" using prems(2) res(2) by auto
          from IH(2) [OF window bounded True rd this] obtain before where "prefix before (map sc_job r)" "subseq (before @ [j]) js"
            "deferred_for st (unat b - bounded_cost before) j why" by blast
          then show ?thesis using res by blast
        qed
      next
        case False
        obtain r d where rd: "schedule_loop st (word_saturating_sub b (estimated_ticks x)) js = (r, d)" by fastforce
        then have res: "run = run_job st x # r" "deferred = d" using prems(1) False bounded window by auto
        from IH(3) [OF window bounded False rd] prems(2) res(2) obtain before where "prefix before (map sc_job r)" "subseq (before @ [j]) js"
          "deferred_for st (unat b - unat (estimated_ticks x) - bounded_cost before) j why" by (auto simp: unat_saturating_sub)
        then show ?thesis using res bounded by (intro exI [of _ "x # before"]) (simp add: run_job_def)
      qed
    next
      case False
      obtain r d where rd: "schedule_loop st b js = (r, d)" by fastforce
      then have res: "run = run_job st x # r" "deferred = d" using prems(1) False window by auto
      from IH(4) [OF window False rd] prems(2) res(2) obtain before where "prefix before (map sc_job r)" "subseq (before @ [j]) js"
        "deferred_for st (unat b - bounded_cost before) j why" by auto
      then show ?thesis using res False by (intro exI [of _ "x # before"]) (simp add: run_job_def)
    qed
  qed
qed simp

lemma schedule_loop_run:
  "schedule_loop st b js = (run, deferred) \<Longrightarrow> x \<in> set run \<Longrightarrow> x = run_job st (sc_job x)"
  by (induction st b js arbitrary: run deferred rule: schedule_loop.induct)
    (auto simp: run_job_def split: if_splits prod.splits)

lemma sorted_subseq:
  "subseq xs ys \<Longrightarrow> set xs \<subseteq> set ys \<and> (sorted (map f ys) \<longrightarrow> sorted (map f xs))" for f :: "'a \<Rightarrow> 'b::linorder"
  by (induction rule: list_emb.induct) auto

text \<open>
  C31: A cycle of maintenance loses no job: each is run or deferred. The jobs run come in the order of their class, and
  within a class of how soon they hurt; the jobs that a duty cycle bounds cost together no more than is left
  of it, whatever their number; only bounded jobs are ever deferred, so safety and availability always run; an
  optional job waits for a window, and any other is deferred only if it does not fit in what the more
  important ones left, which is the amount reported.
\<close>

theorem schedule_keeps_its_budget:
  "let d = schedule_jobs jobs st in
    mset (map sc_job (sd_run d)) + mset (map fst (sd_deferred d)) = mset jobs \<and>
    sorted (map (job_order \<circ> sc_job) (sd_run d)) \<and> sorted (map (job_order \<circ> fst) (sd_deferred d)) \<and>
    bounded_cost (map sc_job (sd_run d)) \<le> unat (duty_cycle_ticks_remaining st) \<and>
    filter (\<lambda>x. x \<noteq> run_job st (sc_job x)) (sd_run d) = [] \<and>
    ((j, why) \<in> set (sd_deferred d) \<longrightarrow>
      (\<exists>before. prefix before (map sc_job (sd_run d)) \<and> sorted (map job_order (before @ [j])) \<and>
         deferred_for st (unat (duty_cycle_ticks_remaining st) - bounded_cost before) j why))"
proof -
  let ?js = "sort_key job_order jobs"
  obtain run deferred where loop: "schedule_loop st (duty_cycle_ticks_remaining st) ?js = (run, deferred)" by fastforce
  then have d: "sd_run (schedule_jobs jobs st) = run" "sd_deferred (schedule_jobs jobs st) = deferred" by (simp_all add: schedule_jobs_def)
  have sub: "subseq (map sc_job run) ?js" "subseq (map fst deferred) ?js" using schedule_loop_order [OF loop] by simp_all
  have sorted: "sorted (map job_order xs)" if "subseq xs ?js" for xs
    using sorted_subseq [OF that, of job_order] sorted_sort_key [of job_order jobs] by blast
  show ?thesis
    unfolding Let_def d
  proof (intro conjI impI)
    show "mset (map sc_job run) + mset (map fst deferred) = mset jobs" using schedule_loop_splits [OF loop] by simp
    show "sorted (map (job_order \<circ> sc_job) run)" "sorted (map (job_order \<circ> fst) deferred)"
      using sorted [OF sub(1)] sorted [OF sub(2)] by simp_all
    show "bounded_cost (map sc_job run) \<le> unat (duty_cycle_ticks_remaining st)" by (rule schedule_loop_cost [OF loop])
    show "filter (\<lambda>x. x \<noteq> run_job st (sc_job x)) run = []" using schedule_loop_run [OF loop] by (simp add: filter_empty_conv)
    assume "(j, why) \<in> set deferred"
    from schedule_loop_deferred [OF loop this] sorted show "\<exists>before. prefix before (map sc_job run) \<and> sorted (map job_order (before @ [j])) \<and>
         deferred_for st (unat (duty_cycle_ticks_remaining st) - bounded_cost before) j why" by blast
  qed
qed

text \<open>Three jobs, of which the duty cycle has room for one.\<close>

definition sample_job :: "string \<Rightarrow> job_class \<Rightarrow> u64 \<Rightarrow> job" where
  "sample_job n c t =
     \<lparr>jb_name = n, jb_class = c, estimated_ticks = t, resumable = True, ticks_deferred = 0, ticks_to_visible = None\<rparr>"

definition sample_system :: system_state where
  "sample_system = \<lparr>in_maintenance_window = False, queries_running = 1, duty_cycle_ticks_remaining = 10\<rparr>"

lemma sample_schedule:
  "sd_run (schedule_jobs [sample_job ''b'' Performance 7, sample_job ''a'' Performance 4, sample_job ''s'' Safety 99] sample_system) =
     [run_job sample_system (sample_job ''s'' Safety 99), run_job sample_system (sample_job ''a'' Performance 4)]"
  "sd_deferred (schedule_jobs [sample_job ''b'' Performance 7, sample_job ''a'' Performance 4, sample_job ''s'' Safety 99] sample_system) =
     [(sample_job ''b'' Performance 7, BudgetExhausted 6 7)]"
  by code_simp+

theorem schedule_keeps_its_budget_witness:
  "deferred_for sample_system 6 (sample_job ''b'' Performance 7) (BudgetExhausted 6 7) \<and>
   bounded_cost [sample_job ''s'' Safety 99, sample_job ''a'' Performance 4] \<le> unat (duty_cycle_ticks_remaining sample_system)"
proof -
  let ?jobs = "[sample_job ''b'' Performance 7, sample_job ''a'' Performance 4, sample_job ''s'' Safety 99]"
  note claim = schedule_keeps_its_budget [of ?jobs sample_system "sample_job ''b'' Performance 7" "BudgetExhausted 6 7", unfolded Let_def]
  have cost: "bounded_cost (map sc_job (sd_run (schedule_jobs ?jobs sample_system))) \<le> unat (duty_cycle_ticks_remaining sample_system)"
    using claim by blast
  have "(sample_job ''b'' Performance 7, BudgetExhausted 6 7) \<in> set (sd_deferred (schedule_jobs ?jobs sample_system))"
    unfolding sample_schedule by simp
  then obtain before where "deferred_for sample_system (unat (duty_cycle_ticks_remaining sample_system) - bounded_cost before)
      (sample_job ''b'' Performance 7) (BudgetExhausted 6 7)"
    using claim by blast
  then have "deferred_for sample_system 6 (sample_job ''b'' Performance 7) (BudgetExhausted 6 7)"
    by (simp add: deferred_for_def)
  then show ?thesis using cost by (simp add: sample_schedule run_job_def)
qed

text \<open>
  Being resumable changes only the words of the refusal: a resumable job that does not fit in what is left of the cycle does not run
  in it either, and one that costs more than a whole cycle never does.
\<close>

lemma resumable_jobs_wait_as_well:
  "bounded_by_duty_cycle (jb_class j) \<Longrightarrow> estimated_ticks j > duty_cycle_ticks_remaining st \<Longrightarrow>
     sd_run (schedule_jobs [j] st) = []"
  by (simp add: schedule_jobs_def)

end
