(* ===== verification/Maintain.thy ===== *)
theory Maintain
  imports Compaction Delta_Checkpoint Leases Clone_Lineage
begin

text \<open>
  The maintenance of one table: \<^verbatim>\<open>crates/sankhya-maintenance/src/service.rs\<close> (\<open>Maintainer\<close>),
  \<^verbatim>\<open>execute.rs\<close>, \<^verbatim>\<open>orphans.rs\<close>, the rest of \<^verbatim>\<open>driver.rs\<close> and the merge of
  \<^verbatim>\<open>crates/sankhya-table/src/compact.rs\<close>. The world is the log directory, the data files and the readers' leases. A path is relative to
  the root of the table, where the code joins the root and strips it again; a data file is the rows that a Parquet file holds.
  The thread that ticks every table in turn is left out.
\<close>

subsection \<open>Data files\<close>

record 'r data_file =
  dt_schema :: string
  dt_rows :: "'r list"
  dt_bytes :: u64
  dt_age :: u64
  dt_sound :: bool

type_synonym 'r data_area = "(string \<times> 'r data_file) list"

text \<open>
  What the code calls: the codec of the log, the text of a checkpoint's pointer, how statistics and rows are written, the columns of a
  schema, the sorting of rows, and the files that the operating system will not write or remove.
\<close>

record 'r table_io =
  ti_codec :: delta_codec
  ti_pointer :: "log_version \<Rightarrow> nat \<Rightarrow> nat \<Rightarrow> string"
  ti_statistics :: "'r list \<Rightarrow> string option"
  ti_encoded :: "string \<Rightarrow> 'r list \<Rightarrow> u64"
  ti_columns :: "string \<Rightarrow> string list"
  ti_sorted :: "string list \<Rightarrow> 'r list \<Rightarrow> 'r list"
  ti_unwritable :: "string \<Rightarrow> bool"
  ti_stuck :: "string \<Rightarrow> bool"

datatype merge_error =
    TooFewInputs
  | CannotOpen string
  | NoData
  | SchemasDiffer
  | NoSuchColumn string
  | NameTaken string
  | CannotWrite string
  | RowsLost u64 u64
  | StalePlan u64 u64

record merge_outcome =
  mo_output :: string
  mo_rows :: u64
  mo_bytes :: u64
  mo_inputs :: "string list"
  mo_bytes_before :: u64
  mo_covers :: lsn
  mo_statistics :: "string option"

definition read_file :: "'r data_area \<Rightarrow> string \<Rightarrow> 'r data_file option" where
  "read_file area p = (case map_of area p of None \<Rightarrow> None | Some f \<Rightarrow> if dt_sound f then Some f else None)"

definition read_parquet_stats :: "'r data_area \<Rightarrow> string \<Rightarrow> (u64 \<times> u64) option" where
  "read_parquet_stats area p = map_option (\<lambda>f. (of_nat (length (dt_rows f)), dt_bytes f)) (read_file area p)"

text \<open>The loop over the inputs: rows and bytes counted, and the batches. A file without rows has no batch.\<close>

fun read_inputs :: "'r data_area \<Rightarrow> string list \<Rightarrow> u64 \<Rightarrow> u64 \<Rightarrow> merge_error + u64 \<times> u64 \<times> (string \<times> 'r list) list" where
  "read_inputs area [] rows bytes = Inr (rows, bytes, [])"
| "read_inputs area (p # ps) rows bytes =
     (case read_file area p of
        None \<Rightarrow> Inl (CannotOpen p)
      | Some f \<Rightarrow>
          (case read_inputs area ps (word_saturating_add rows (of_nat (length (dt_rows f)))) (word_saturating_add bytes (dt_bytes f)) of
             Inl e \<Rightarrow> Inl e
           | Inr (r, b, batches) \<Rightarrow>
               Inr (r, b, (if dt_rows f = [] then batches else (dt_schema f, dt_rows f) # batches))))"

definition sort_rows :: "'r table_io \<Rightarrow> string \<Rightarrow> string list \<Rightarrow> 'r list \<Rightarrow> merge_error + 'r list" where
  "sort_rows io schema columns rows =
     (if columns = [] then Inr rows
      else (case List.find (\<lambda>c. c \<notin> set (ti_columns io schema)) columns of
              Some c \<Rightarrow> Inl (NoSuchColumn c)
            | None \<Rightarrow> Inr (ti_sorted io columns rows)))"

text \<open>\<open>write_parquet\<close>: a name that exists is refused; a write that fails leaves a file that cannot be read.\<close>

definition write_parquet :: "'r table_io \<Rightarrow> string \<Rightarrow> string \<Rightarrow> 'r list \<Rightarrow> 'r data_area \<Rightarrow> (merge_error + unit) \<times> 'r data_area" where
  "write_parquet io name schema rows area =
     (if map_of area name \<noteq> None then (Inl (NameTaken name), area)
      else (if ti_unwritable io name then Inl (CannotWrite name) else Inr (),
        AList.update name
          \<lparr>dt_schema = schema, dt_rows = rows, dt_bytes = ti_encoded io schema rows, dt_age = 0,
           dt_sound = (\<not> ti_unwritable io name)\<rparr> area))"

definition compact_files_sorted ::
    "'r table_io \<Rightarrow> string list \<Rightarrow> string \<Rightarrow> lsn \<Rightarrow> string list \<Rightarrow> 'r data_area \<Rightarrow> (merge_error + merge_outcome) \<times> 'r data_area" where
  "compact_files_sorted io inputs name covers columns area =
     (if length inputs < 2 then (Inl TooFewInputs, area)
      else
        (case read_inputs area inputs 0 0 of
           Inl e \<Rightarrow> (Inl e, area)
         | Inr (expected, before, batches) \<Rightarrow>
             (case batches of
                [] \<Rightarrow> (Inl NoData, area)
              | (schema, _) # _ \<Rightarrow>
                  if list_ex (\<lambda>b. fst b \<noteq> schema) batches then (Inl SchemasDiffer, area)
                  else
                    (case sort_rows io schema columns (concat (map snd batches)) of
                       Inl e \<Rightarrow> (Inl e, area)
                     | Inr rows \<Rightarrow>
                         (case write_parquet io name schema rows area of
                            (Inl e, area) \<Rightarrow> (Inl e, area)
                          | (Inr _, area) \<Rightarrow>
                              (case read_parquet_stats area name of
                                 None \<Rightarrow> (Inl (CannotOpen name), area)
                               | Some (written, bytes) \<Rightarrow>
                                   if written \<noteq> expected then (Inl (RowsLost written expected), area)
                                   else
                                     (Inr \<lparr>mo_output = name, mo_rows = written, mo_bytes = bytes, mo_inputs = inputs,
                                           mo_bytes_before = before, mo_covers = covers,
                                           mo_statistics = ti_statistics io rows\<rparr>, area)))))))"

definition run_compaction ::
    "'r table_io \<Rightarrow> compaction_plan \<Rightarrow> string \<Rightarrow> string list \<Rightarrow> 'r data_area \<Rightarrow> (merge_error + merge_outcome) \<times> 'r data_area" where
  "run_compaction io plan name columns area =
     (case compact_files_sorted io (input_names plan) name (cp_covers plan) (if cp_settled plan then columns else []) area of
        (Inl e, area) \<Rightarrow> (Inl e, area)
      | (Inr out, area) \<Rightarrow>
          if mo_rows out \<noteq> plan_rows plan then (Inl (StalePlan (plan_rows plan) (mo_rows out)), area) else (Inr out, area))"

subsection \<open>A tick's merges and their commit\<close>

datatype complaint = Blind string | UnreadablePin u64 commit_error

record tick_report =
  tr_merged :: "merge_outcome list"
  tr_failed :: "(string \<times> merge_error) list"
  tr_removed :: "string list"
  tr_reclaimed :: u64
  tr_before :: u64
  tr_after :: u64
  tr_declined :: "complaint list"
  tr_leaked :: "(nat \<times> u64) list"

definition tick_report_default :: tick_report where
  "tick_report_default =
     \<lparr>tr_merged = [], tr_failed = [], tr_removed = [], tr_reclaimed = 0, tr_before = 0, tr_after = 0,
      tr_declined = [], tr_leaked = []\<rparr>"

definition files_merged :: "tick_report \<Rightarrow> nat" where
  "files_merged r = sum_list (map (length \<circ> mo_inputs) (tr_merged r))"

text \<open>\<open>rsplit_once('/')\<close>: the directory and the name.\<close>

definition rsplit_slash :: "string \<Rightarrow> (string \<times> string) option" where
  "rsplit_slash s = map_option (\<lambda>(a, b). (rev b, rev a)) (split_once CHR ''/'' (rev s))"

definition directory_of :: "string \<Rightarrow> string" where
  "directory_of p = (case rsplit_slash p of None \<Rightarrow> [] | Some (d, _) \<Rightarrow> d)"

definition compacted_name :: "u64 \<Rightarrow> nat \<Rightarrow> string" where
  "compacted_name seq i = ''compacted-'' @ pad_nat 6 (unat seq) @ ''-'' @ pad_nat 4 i @ ''.parquet''"

definition output_name :: "compaction_plan \<Rightarrow> u64 \<Rightarrow> nat \<Rightarrow> string" where
  "output_name plan seq i =
     (let d = (case cp_inputs plan of [] \<Rightarrow> [] | f # _ \<Rightarrow> directory_of (fs_name f)) in
      if d = [] then compacted_name seq i else d @ ''/'' @ compacted_name seq i)"

fun execute_from ::
    "'r table_io \<Rightarrow> u64 \<Rightarrow> nat \<Rightarrow> pending_compaction list \<Rightarrow> tick_report \<Rightarrow> 'r data_area \<Rightarrow> tick_report \<times> 'r data_area" where
  "execute_from io seq i [] r area = (r, area)"
| "execute_from io seq i (p # ps) r area =
     (case run_compaction io (pc_plan p) (output_name (pc_plan p) seq i) (pc_clustering p) area of
        (Inr out, area) \<Rightarrow>
          execute_from io seq (Suc i) ps
            (r\<lparr>tr_before := word_saturating_add (tr_before r) (mo_bytes_before out),
               tr_after := word_saturating_add (tr_after r) (mo_bytes out), tr_merged := tr_merged r @ [out]\<rparr>) area
      | (Inl e, area) \<Rightarrow>
          execute_from io seq (Suc i) ps (r\<lparr>tr_failed := tr_failed r @ [(jb_name (pc_job p), e)]\<rparr>) area)"

definition execute_tick :: "'r table_io \<Rightarrow> tick_plan \<Rightarrow> u64 \<Rightarrow> 'r data_area \<Rightarrow> tick_report \<times> 'r data_area" where
  "execute_tick io plan seq area = execute_from io seq 0 (tp_run plan) tick_report_default area"

text \<open>\<open>apply\<close>: the live set a caller carries, moved forward over what a tick merged.\<close>

definition apply_report :: "tick_report \<Rightarrow> file_stat list \<Rightarrow> file_stat list" where
  "apply_report r live =
     fold (\<lambda>out live. filter (\<lambda>f. fs_name f \<notin> set (mo_inputs out)) live @
         [\<lparr>fs_name = mo_output out, fs_bytes = mo_bytes out, fs_rows = mo_rows out, fs_covers = mo_covers out\<rparr>])
       (tr_merged r) live"

definition rewritten_add :: "string \<Rightarrow> u64 \<Rightarrow> i64 \<Rightarrow> string option \<Rightarrow> add_file" where
  "rewritten_add p n t stats = (add_file_new p n t)\<lparr>af_stats := stats, data_change := False\<rparr>"

definition merge_actions :: "i64 \<Rightarrow> merge_outcome \<Rightarrow> delta_action list" where
  "merge_actions now out =
     Add ((rewritten_add (mo_output out) (mo_bytes out) now (mo_statistics out))
            \<lparr>partition_values := partition_values_from (mo_output out)\<rparr>)
     # map (\<lambda>p. Remove (removal_rewritten p now)) (mo_inputs out)"

definition tick_actions :: "i64 \<Rightarrow> tick_report \<Rightarrow> delta_action list" where
  "tick_actions now r = concat (map (merge_actions now) (tr_merged r))"

definition commit_tick :: "delta_codec \<Rightarrow> log_version \<Rightarrow> tick_report \<Rightarrow> i64 \<Rightarrow> disk \<Rightarrow> (commit_error + log_version) \<times> disk" where
  "commit_tick cx v r now d = commit cx v (tick_actions now r) d"

text \<open>One past the highest sequence among the live files.\<close>

definition compaction_number :: "string \<Rightarrow> u64 option" where
  "compaction_number p =
     Option.bind (strip_prefix ''compacted-'' (last (split_on CHR ''/'' p))) (\<lambda>rest. parse_u64 (hd (split_on CHR ''-'' rest)))"

definition next_sequence :: "string list \<Rightarrow> u64" where
  "next_sequence ps =
     word_saturating_add (case iter_max (List.map_filter compaction_number ps) of None \<Rightarrow> 0 | Some n \<Rightarrow> n) 1"

definition next_compaction_sequence :: "delta_codec \<Rightarrow> disk \<Rightarrow> u64" where
  "next_compaction_sequence cx d =
     (case live_files cx d of Inl _ \<Rightarrow> 2 ^ 32 - 1 | Inr live \<Rightarrow> next_sequence (paths live))"

text \<open>The rows a file declares, and the partitions of the live files.\<close>

definition declared_rows :: "delta_codec \<Rightarrow> add_file \<Rightarrow> u64 option" where
  "declared_rows cx f =
     Option.bind (Option.bind (Option.bind (af_stats f) (json_value cx)) (json_get ''numRecords'')) json_u64"

definition stat_of :: "delta_codec \<Rightarrow> lsn \<Rightarrow> add_file \<Rightarrow> file_stat" where
  "stat_of cx v f =
     \<lparr>fs_name = af_path f, fs_bytes = af_size f,
      fs_rows = (case declared_rows cx f of None \<Rightarrow> 0 | Some n \<Rightarrow> n), fs_covers = v\<rparr>"

definition group_files :: "file_stat list \<Rightarrow> (string \<times> file_stat list) list" where
  "group_files fs =
     fold (\<lambda>f groups.
             bt_insert (directory_of (fs_name f))
               ((case map_of groups (directory_of (fs_name f)) of None \<Rightarrow> [] | Some gs \<Rightarrow> gs) @ [f]) groups) fs []"

record table_root =
  rt_schema :: "string option"
  rt_table :: "string option"

definition partitions_of :: "delta_codec \<Rightarrow> table_root \<Rightarrow> disk \<Rightarrow> commit_error + partition_state list" where
  "partitions_of cx root d =
     (case live_files cx d of
        Inl e \<Rightarrow> Inl e
      | Inr live \<Rightarrow>
          Inr (map (\<lambda>(partition, files).
                 \<lparr>ps_table = (case rt_table root of None \<Rightarrow> ''table'' | Some t \<Rightarrow> t), ps_partition = partition,
                  ps_files = files, ps_ticks_since_write = 0\<rparr>)
               (group_files (map (stat_of cx (of_nat (case ls_version live of None \<Rightarrow> 0 | Some v \<Rightarrow> v))) (ls_files live)))))"

definition qualified_name :: "table_root \<Rightarrow> string option" where
  "qualified_name root =
     (case rt_table root of
        None \<Rightarrow> None
      | Some t \<Rightarrow> Some (case rt_schema root of Some s \<Rightarrow> s @ ''.'' @ t | None \<Rightarrow> t))"

subsection \<open>Removing files\<close>

record still_referenced =
  sr_snapshots :: "lsn set"
  sr_cloned :: "string set"

definition referenced_nothing :: still_referenced where
  "referenced_nothing = \<lparr>sr_snapshots = {}, sr_cloned = {}\<rparr>"

definition referenced_snapshots :: "lsn set \<Rightarrow> still_referenced" where
  "referenced_snapshots s = \<lparr>sr_snapshots = s, sr_cloned = {}\<rparr>"

datatype retained_reason = WithinGrace u64 u64 | SnapshotHolds | CloneReads | RemovalFailed

record retirement =
  ret_removed :: "string list"
  ret_retained :: "(string \<times> retained_reason) list"
  ret_reclaimed :: u64

text \<open>\<open>remove_file\<close>: a file that is already gone counts as removed; the bytes are read before.\<close>

definition size_on_disk :: "'r data_area \<Rightarrow> string \<Rightarrow> u64" where
  "size_on_disk area p = (case map_of area p of None \<Rightarrow> 0 | Some f \<Rightarrow> dt_bytes f)"

definition remove_file :: "'r table_io \<Rightarrow> string \<Rightarrow> 'r data_area \<Rightarrow> (bool \<times> u64) \<times> 'r data_area" where
  "remove_file io p area =
     (if map_of area p = None then ((True, 0), area)
      else if ti_stuck io p then ((False, 0), area)
      else ((True, size_on_disk area p), AList.delete p area))"

fun retire_loop ::
    "'r table_io \<Rightarrow> merge_outcome \<Rightarrow> still_referenced \<Rightarrow> u64 \<Rightarrow> retention_policy \<Rightarrow> string list \<Rightarrow> retirement \<Rightarrow>
     'r data_area \<Rightarrow> retirement \<times> 'r data_area" where
  "retire_loop io out refs age pol [] r area = (r, area)"
| "retire_loop io out refs age pol (p # ps) r area =
     (if age < grace_ticks pol then
        retire_loop io out refs age pol ps (r\<lparr>ret_retained := ret_retained r @ [(p, WithinGrace age (grace_ticks pol))]\<rparr>) area
      else if \<exists>l \<in> sr_snapshots refs. l \<le> mo_covers out then
        retire_loop io out refs age pol ps (r\<lparr>ret_retained := ret_retained r @ [(p, SnapshotHolds)]\<rparr>) area
      else if p \<in> sr_cloned refs then
        retire_loop io out refs age pol ps (r\<lparr>ret_retained := ret_retained r @ [(p, CloneReads)]\<rparr>) area
      else
        (case remove_file io p area of
           ((True, bytes), area) \<Rightarrow>
             retire_loop io out refs age pol ps
               (r\<lparr>ret_reclaimed := word_saturating_add (ret_reclaimed r) bytes, ret_removed := ret_removed r @ [p]\<rparr>) area
         | ((False, _), area) \<Rightarrow>
             retire_loop io out refs age pol ps (r\<lparr>ret_retained := ret_retained r @ [(p, RemovalFailed)]\<rparr>) area))"

datatype unverified = Missing string | Differs string u64 u64

definition retire_inputs ::
    "'r table_io \<Rightarrow> merge_outcome \<Rightarrow> still_referenced \<Rightarrow> u64 \<Rightarrow> retention_policy \<Rightarrow> 'r data_area \<Rightarrow>
     (unverified + retirement) \<times> 'r data_area" where
  "retire_inputs io out refs age pol area =
     (let retired = (case retire_loop io out refs age pol (mo_inputs out) \<lparr>ret_removed = [], ret_retained = [], ret_reclaimed = 0\<rparr> area of
                       (r, area) \<Rightarrow> (Inr r, area))
      in if \<not> verify_replacement pol then retired
         else (case read_parquet_stats area (mo_output out) of
                 None \<Rightarrow> (Inl (Missing (mo_output out)), area)
               | Some (rows, _) \<Rightarrow>
                   if rows \<noteq> mo_rows out then (Inl (Differs (mo_output out) rows (mo_rows out)), area) else retired))"

fun retire_completed ::
    "'r table_io \<Rightarrow> (merge_outcome \<times> u64) list \<Rightarrow> still_referenced \<Rightarrow> retention_policy \<Rightarrow> tick_report \<Rightarrow> 'r data_area \<Rightarrow>
     (unverified + tick_report) \<times> 'r data_area" where
  "retire_completed io [] refs pol r area = (Inr r, area)"
| "retire_completed io ((out, age) # due) refs pol r area =
     (case retire_inputs io out refs age pol area of
        (Inl e, area) \<Rightarrow> (Inl e, area)
      | (Inr ret, area) \<Rightarrow>
          retire_completed io due refs pol
            (r\<lparr>tr_reclaimed := word_saturating_add (tr_reclaimed r) (ret_reclaimed ret), tr_removed := tr_removed r @ ret_removed ret\<rparr>) area)"

subsection \<open>Orphans\<close>

datatype kept_reason = SnapshotReaches | TooYoung u64 u64

record orphan_plan =
  op_remove :: "string list"
  op_reclaimable :: u64
  op_retained :: "(string \<times> kept_reason) list"

definition orphan_plan_default :: orphan_plan where
  "orphan_plan_default = \<lparr>op_remove = [], op_reclaimable = 0, op_retained = []\<rparr>"

definition is_log_name :: "string \<Rightarrow> bool" where
  "is_log_name n \<longleftrightarrow> strip_prefix ''_'' n \<noteq> None \<or> sublist ''_delta_log'' n"

definition orphan_step :: "string set \<Rightarrow> string set \<Rightarrow> u64 \<Rightarrow> string \<times> u64 \<times> u64 \<Rightarrow> orphan_plan \<Rightarrow> orphan_plan" where
  "orphan_step live held min_age = (\<lambda>(n, bytes, age) plan.
     (if is_log_name n then plan
      else if n \<in> live then plan
      else if n \<in> held then plan\<lparr>op_retained := op_retained plan @ [(n, SnapshotReaches)]\<rparr>
      else if age < min_age then plan\<lparr>op_retained := op_retained plan @ [(n, TooYoung age min_age)]\<rparr>
      else plan\<lparr>op_reclaimable := word_saturating_add (op_reclaimable plan) bytes, op_remove := op_remove plan @ [n]\<rparr>))"

definition plan_orphan_cleanup :: "(string \<times> u64 \<times> u64) list \<Rightarrow> string set \<Rightarrow> string set \<Rightarrow> u64 \<Rightarrow> orphan_plan" where
  "plan_orphan_cleanup on_disk live held min_age =
     fold (orphan_step live held min_age) on_disk orphan_plan_default"

record orphan_report =
  or_removed :: "string list"
  or_reclaimed :: u64
  or_failed :: "string list"

definition orphan_report_default :: orphan_report where
  "orphan_report_default = \<lparr>or_removed = [], or_reclaimed = 0, or_failed = []\<rparr>"

fun sweep_orphans :: "'r table_io \<Rightarrow> string list \<Rightarrow> orphan_report \<Rightarrow> 'r data_area \<Rightarrow> orphan_report \<times> 'r data_area" where
  "sweep_orphans io [] r area = (r, area)"
| "sweep_orphans io (n # ns) r area =
     (case remove_file io n area of
        ((True, bytes), area) \<Rightarrow>
          sweep_orphans io ns (r\<lparr>or_reclaimed := word_saturating_add (or_reclaimed r) bytes, or_removed := or_removed r @ [n]\<rparr>) area
      | ((False, _), area) \<Rightarrow> sweep_orphans io ns (r\<lparr>or_failed := or_failed r @ [n]\<rparr>) area)"

text \<open>The listing: every data file with its size and age.\<close>

definition list_data_files :: "'r data_area \<Rightarrow> (string \<times> u64 \<times> u64) list" where
  "list_data_files area = map (\<lambda>(n, f). (n, dt_bytes f, dt_age f)) area"

definition collect_orphans ::
    "'r table_io \<Rightarrow> string set \<Rightarrow> u64 \<Rightarrow> disk \<Rightarrow> 'r data_area \<Rightarrow> orphan_report \<times> 'r data_area" where
  "collect_orphans io held min_age d area =
     (case live_files (ti_codec io) d of
        Inl _ \<Rightarrow> (orphan_report_default, area)
      | Inr live \<Rightarrow>
          (let on_disk = list_data_files area in
           if on_disk = [] then (orphan_report_default, area)
           else (let plan = plan_orphan_cleanup on_disk (set (paths live)) held min_age in
                 if op_remove plan = [] then (orphan_report_default, area)
                 else sweep_orphans io (op_remove plan) orphan_report_default area)))"

subsection \<open>The maintainer\<close>

record maintenance_policy =
  mp_driver :: driver_policy
  mp_retention :: retention_policy
  mp_compact_every :: u64
  mp_min_age :: u64
  mp_orphan_sweep_every :: u64
  mp_duty_cycle :: u64

definition maintenance_policy_default :: maintenance_policy where
  "maintenance_policy_default =
     \<lparr>mp_driver = driver_policy_default, mp_retention = retention_policy_default, mp_compact_every = 1,
      mp_min_age = 7 * 24 * 60 * 60, mp_orphan_sweep_every = 120, mp_duty_cycle = 10000\<rparr>"

record maintainer =
  mt_policy :: maintenance_policy
  mt_pending :: "(merge_outcome \<times> u64 \<times> u64) list"
  mt_tick :: u64
  mt_watching :: bool
  mt_clones :: lineages
  mt_pinned :: "u64 list"
  mt_blind :: "string list"

definition maintainer_new :: "maintenance_policy \<Rightarrow> maintainer" where
  "maintainer_new pol =
     \<lparr>mt_policy = pol, mt_pending = [], mt_tick = 0, mt_watching = False, mt_clones = [], mt_pinned = [], mt_blind = []\<rparr>"

definition watching :: "maintainer \<Rightarrow> maintainer" where
  "watching m = m\<lparr>mt_watching := True\<rparr>"

definition among :: "lineages \<Rightarrow> maintainer \<Rightarrow> maintainer" where
  "among clones m = m\<lparr>mt_clones := clones\<rparr>"

definition reconfigure :: "maintenance_policy \<Rightarrow> maintainer \<Rightarrow> maintainer" where
  "reconfigure pol m = m\<lparr>mt_policy := pol\<rparr>"

definition awaiting_retirement :: "maintainer \<Rightarrow> nat" where
  "awaiting_retirement m = length (mt_pending m)"

text \<open>What still reads this table: the entry of \<open>snapshots\<close> for its root, if there is one.\<close>

record still_reading =
  sg_clones :: lineages
  sg_snapshots :: "u64 list option"
  sg_unreadable :: "string list"

definition told :: "still_reading \<Rightarrow> maintainer \<Rightarrow> maintainer" where
  "told g m =
     m\<lparr>mt_clones := sg_clones g, mt_blind := sg_unreadable g,
       mt_pinned := (case sg_snapshots g of None \<Rightarrow> [] | Some vs \<Rightarrow> vs)\<rparr>"

text \<open>The versions that are pinned, and the files they hold; a version that cannot be read is a hole.\<close>

definition pinned_by :: "table_root \<Rightarrow> maintainer \<Rightarrow> u64 list" where
  "pinned_by root m =
     mt_pinned m @
     (if mt_clones m = [] then []
      else (case qualified_name root of
              None \<Rightarrow> []
            | Some t \<Rightarrow> sorted_list_of_set (pinned_versions (mt_clones m) t)))"

fun resolve_pins :: "delta_codec \<Rightarrow> disk \<Rightarrow> u64 list \<Rightarrow> string set \<times> complaint list" where
  "resolve_pins cx d [] = ({}, [])"
| "resolve_pins cx d (v # vs) =
     (case resolve_pins cx d vs of (pinned, holes) \<Rightarrow>
        (case live_files_at cx d (unat v) of
           Inr live \<Rightarrow> (set (paths live) \<union> pinned, holes)
         | Inl e \<Rightarrow> (pinned, UnreadablePin v e # holes)))"

definition table_pins :: "delta_codec \<Rightarrow> table_root \<Rightarrow> maintainer \<Rightarrow> disk \<Rightarrow> string set \<times> complaint list" where
  "table_pins cx root m d = resolve_pins cx d (pinned_by root m)"

text \<open>Which of the queued merges are due, and which a leaked lease held past the backstop.\<close>

definition retirement_due :: "maintainer \<Rightarrow> leases \<Rightarrow> u64 \<Rightarrow> merge_outcome \<times> u64 \<times> u64 \<Rightarrow> bool \<times> bool" where
  "retirement_due m l tick = (\<lambda>(out, merged_at, marked).
     (let age = word_saturating_sub tick merged_at;
          pol = mp_retention (mt_policy m);
          unreachable = (\<not> mt_watching m \<or> drained l marked);
          presumed_leaked = (leak_ticks pol > 0 \<and> age \<ge> leak_ticks pol \<and> \<not> unreachable)
      in (age \<ge> grace_ticks pol \<and> unreachable \<or> presumed_leaked, presumed_leaked)))"

definition retire_due ::
    "'r table_io \<Rightarrow> u64 \<Rightarrow> string set \<Rightarrow> leases \<Rightarrow> maintainer \<Rightarrow> 'r data_area \<Rightarrow>
     (unverified + tick_report) \<times> maintainer \<times> 'r data_area" where
  "retire_due io tick held l m area =
     (let due = filter (fst \<circ> retirement_due m l tick) (mt_pending m);
          leaked = filter (snd \<circ> retirement_due m l tick) (mt_pending m);
          m' = m\<lparr>mt_pending := filter (Not \<circ> fst \<circ> retirement_due m l tick) (mt_pending m)\<rparr>
      in if due = [] then (Inr tick_report_default, m', area)
         else
           (case retire_completed io (map (\<lambda>(out, merged_at, _). (out, word_saturating_sub tick merged_at)) due)
               \<lparr>sr_snapshots = {}, sr_cloned = held\<rparr> (mp_retention (mt_policy m)) tick_report_default area of
              (Inl e, area) \<Rightarrow> (Inl e, m', area)
            | (Inr r, area) \<Rightarrow>
                (Inr (r\<lparr>tr_leaked := map (\<lambda>(out, merged_at, _). (length (mo_inputs out), word_saturating_sub tick merged_at)) leaked\<rparr>),
                 m', area)))"

subsection \<open>One tick\<close>

record 'r table_world =
  wd_log :: disk
  wd_data :: "'r data_area"
  wd_leases :: leases

datatype tick_error = LogFailed commit_error | NotVerified unverified

text \<open>
  The three parts of \<open>tick\<close>: planning and merging, which may take long; committing, against the version the log has
  by then; and, once the merges are queued, reclaiming.
\<close>

definition tick_compacts :: "maintainer \<Rightarrow> u64 \<Rightarrow> bool" where
  "tick_compacts m tick \<longleftrightarrow>
     mp_compact_every (mt_policy m) \<le> 1 \<or> tick mod mp_compact_every (mt_policy m) = 0"

definition tick_system :: "maintainer \<Rightarrow> system_state" where
  "tick_system m =
     \<lparr>in_maintenance_window = False, queries_running = 0, duty_cycle_ticks_remaining = mp_duty_cycle (mt_policy m)\<rparr>"

definition tick_merge ::
    "'r table_io \<Rightarrow> table_root \<Rightarrow> maintainer \<Rightarrow> u64 \<Rightarrow> 'r table_world \<Rightarrow> (tick_error + tick_report) \<times> 'r table_world" where
  "tick_merge io root m tick w =
     (case (if tick_compacts m tick then partitions_of (ti_codec io) root (wd_log w) else Inr []) of
        Inl e \<Rightarrow> (Inl (LogFailed e), w)
      | Inr partitions \<Rightarrow>
          if partitions = [] then (Inr tick_report_default, w)
          else
            (case execute_tick io (plan_tick partitions (mp_driver (mt_policy m)) (tick_system m))
                 (next_compaction_sequence (ti_codec io) (wd_log w)) (wd_data w) of
               (r, area) \<Rightarrow> (Inr r, w\<lparr>wd_data := area\<rparr>)))"

definition tick_commit :: "'r table_io \<Rightarrow> i64 \<Rightarrow> tick_report \<Rightarrow> disk \<Rightarrow> (tick_error + unit) \<times> disk" where
  "tick_commit io now r d =
     (if tr_merged r = [] then (Inr (), d)
      else
        (case live_files (ti_codec io) d of
           Inl e \<Rightarrow> (Inl (LogFailed e), d)
         | Inr live \<Rightarrow>
             (case commit_tick (ti_codec io) (Suc (case ls_version live of None \<Rightarrow> 0 | Some v \<Rightarrow> v)) r now d of
                (Inl e, d) \<Rightarrow> (Inl (LogFailed e), d)
              | (Inr _, d) \<Rightarrow> (Inr (), d))))"

text \<open>The mark is taken before the new merges are queued under it.\<close>

definition queue_merges :: "u64 \<Rightarrow> tick_report \<Rightarrow> maintainer \<Rightarrow> leases \<Rightarrow> maintainer \<times> leases" where
  "queue_merges tick r m l =
     (let (marked, l) = (if mt_watching m then mark l else (0, l))
      in (m\<lparr>mt_pending := mt_pending m @ map (\<lambda>out. (out, tick, marked)) (tr_merged r)\<rparr>, l))"

definition CHECKPOINT_INTERVAL :: nat where "CHECKPOINT_INTERVAL = 10"

definition tick_checkpoint :: "'r table_io \<Rightarrow> disk \<Rightarrow> (tick_error + unit) \<times> disk" where
  "tick_checkpoint io d =
     (case latest_metadata (ti_codec io) d of
        Inl e \<Rightarrow> (Inl (LogFailed e), d)
      | Inr None \<Rightarrow> (Inr (), d)
      | Inr (Some md) \<Rightarrow>
          (case checkpoint_if_due (ti_codec io) (ti_pointer io) md CHECKPOINT_INTERVAL d of
             (Inl e, d) \<Rightarrow> (Inl (LogFailed e), d)
           | (Inr _, d) \<Rightarrow> (Inr (), d)))"

definition tick_reclaim ::
    "'r table_io \<Rightarrow> table_root \<Rightarrow> u64 \<Rightarrow> tick_report \<Rightarrow> maintainer \<Rightarrow> 'r table_world \<Rightarrow>
     (tick_error + tick_report) \<times> maintainer \<times> 'r table_world" where
  "tick_reclaim io root tick r m w =
     (case table_pins (ti_codec io) root m (wd_log w) of
        (held, holes) \<Rightarrow>
          if mt_blind m \<noteq> [] \<or> holes \<noteq> [] then
            (Inr (r\<lparr>tr_declined := tr_declined r @ map Blind (mt_blind m) @ holes\<rparr>), m, w)
          else
            (case retire_due io tick held (wd_leases w) m (wd_data w) of
               (Inl e, m, area) \<Rightarrow> (Inl (NotVerified e), m, w\<lparr>wd_data := area\<rparr>)
             | (Inr retired, m, area) \<Rightarrow>
                 (let r = r\<lparr>tr_reclaimed := word_saturating_add (tr_reclaimed r) (tr_reclaimed retired),
                            tr_removed := tr_removed r @ tr_removed retired,
                            tr_leaked := tr_leaked r @ tr_leaked retired\<rparr>;
                      sweeps = (mp_orphan_sweep_every (mt_policy m) > 0 \<and> tick mod mp_orphan_sweep_every (mt_policy m) = 0);
                      (swept, area) = (if sweeps then collect_orphans io held (mp_min_age (mt_policy m)) (wd_log w) area
                                       else (orphan_report_default, area));
                      r = r\<lparr>tr_reclaimed := word_saturating_add (tr_reclaimed r) (or_reclaimed swept),
                            tr_removed := tr_removed r @ or_removed swept\<rparr>
                  in (case tick_checkpoint io (wd_log w) of
                        (Inl e, d) \<Rightarrow> (Inl e, m, w\<lparr>wd_data := area, wd_log := d\<rparr>)
                      | (Inr _, d) \<Rightarrow> (Inr r, m, w\<lparr>wd_data := area, wd_log := d\<rparr>)))))"

text \<open>What follows the merges, and the tick.\<close>

definition tick_finish ::
    "'r table_io \<Rightarrow> table_root \<Rightarrow> i64 \<Rightarrow> tick_report \<Rightarrow> maintainer \<Rightarrow> 'r table_world \<Rightarrow>
     (tick_error + tick_report) \<times> maintainer \<times> 'r table_world" where
  "tick_finish io root now r m w =
     (case tick_commit io now r (wd_log w) of
        (Inl e, d) \<Rightarrow> (Inl e, m, w\<lparr>wd_log := d\<rparr>)
      | (Inr _, d) \<Rightarrow>
          (case queue_merges (mt_tick m) r m (wd_leases w) of
             (m, l) \<Rightarrow> tick_reclaim io root (mt_tick m) r m (w\<lparr>wd_log := d, wd_leases := l\<rparr>)))"

definition tick_table ::
    "'r table_io \<Rightarrow> table_root \<Rightarrow> i64 \<Rightarrow> maintainer \<Rightarrow> 'r table_world \<Rightarrow>
     (tick_error + tick_report) \<times> maintainer \<times> 'r table_world" where
  "tick_table io root now m0 w0 =
     (let m = m0\<lparr>mt_tick := mt_tick m0 + 1\<rparr> in
      case tick_merge io root m (mt_tick m) w0 of
        (Inl e, w) \<Rightarrow> (Inl e, m, w)
      | (Inr r, w) \<Rightarrow> tick_finish io root now r m w)"

subsection \<open>Logs that hold what was committed\<close>

definition well_logged :: "delta_codec \<Rightarrow> disk \<Rightarrow> bool" where
  "well_logged cx d \<longleftrightarrow> (\<exists>n m. table_holds cx n ((d, [], m), [], replay_default))"

definition live_paths :: "delta_codec \<Rightarrow> disk \<Rightarrow> string list" where
  "live_paths cx d = (case live_files cx d of Inl _ \<Rightarrow> [] | Inr l \<Rightarrow> paths l)"

text \<open>Replay, seen by the paths alone.\<close>

fun path_step :: "delta_action \<Rightarrow> string list \<Rightarrow> string list" where
  "path_step (Add f) ps = (if af_path f \<in> set ps then ps else ps @ [af_path f])"
| "path_step (Remove g) ps = filter (\<lambda>p. p \<noteq> rf_path g) ps"
| "path_step (Protocol _ _) ps = ps"
| "path_step (Metadata _) ps = ps"

lemma path_step_live: "map af_path (live_step a fs) = path_step a (map af_path fs)"
  by (cases a) (auto simp: filter_map o_def)

lemma paths_live: "map af_path (live_files_of as fs) = fold path_step as (map af_path fs)"
  by (induction as arbitrary: fs) (simp_all add: live_files_of_def path_step_live)

lemma well_logged_I: "table_holds cx n ((d, P, m), C, r) \<Longrightarrow> well_logged cx d"
  unfolding well_logged_def
  by (intro exI [of _ n] exI [of _ m])
    (auto simp: table_holds_def log_holds_def indexed_default files_at_def log_actions_def live_files_of_def version_at_def
      live_set_default_def intro: exI [of _ 0])

lemma stored_paths: "map stored fs = map stored gs \<Longrightarrow> map af_path fs = map af_path gs"
proof -
  assume "map stored fs = map stored gs"
  then have "map (af_path \<circ> stored) fs = map (af_path \<circ> stored) gs" by (metis map_map)
  then show ?thesis by (simp add: o_def)
qed

lemma holds_live:
  assumes "table_holds cx n ((d, P, m), C, r)"
  obtains l where "live_files cx d = Inr l" "ls_version l = version_at n" "paths l = map af_path (files_at m n)"
    "live_paths cx d = map af_path (files_at m n)" "distinct (live_paths cx d)"
proof -
  obtain l where l: "live_files cx d = Inr l" "shows_at m n l" using live_files_holds [OF assms] by blast
  then have "paths l = map af_path (files_at m n)" by (auto simp: shows_at_def paths_def dest: stored_paths)
  then show thesis using l files_at_distinct [of m n] by (intro that [of l]) (simp_all add: shows_at_def live_paths_def)
qed

lemma well_logged_live:
  assumes "well_logged cx d"
  obtains l where "live_files cx d = Inr l" "live_paths cx d = paths l" "distinct (live_paths cx d)"
proof -
  obtain n m where h: "table_holds cx n ((d, [], m), [], replay_default)" using assms by (auto simp: well_logged_def)
  from h obtain l where "live_files cx d = Inr l" "distinct (live_paths cx d)" by (rule holds_live)
  then show thesis by (intro that [of l]) (simp_all add: live_paths_def)
qed

lemma commit_logged:
  assumes "well_logged cx d" "commit cx v as d = (Inr w, d')" "writes_commit cx as"
  shows "well_logged cx d' \<and> live_paths cx d' = fold path_step as (live_paths cx d)"
proof -
  obtain n m where h: "table_holds cx n ((d, [], m), [], replay_default)" using assms(1) by (auto simp: well_logged_def)
  then have log: "log_holds cx n (d, [], m)" and wr: "\<forall>as \<in> ran m. writes_commit cx as" by (auto simp: table_holds_def)
  obtain body where body: "commit_checks cx v as d = Inr body" "claim (commit_name v) body d = Some d'"
    using assms(2) by (auto simp: commit_def split: sum.splits option.splits)
  have v: "v = n" using commit_holds [OF log, of v as] assms(2) by (auto simp: commit_answer_def split: if_splits)
  have "v \<notin> dom m" using log v by (simp add: log_holds_def)
  have d': "d' = AList.update (commit_name v) (Text body) d" using body(2) by (auto simp: claim_def split: option.splits)
  have "table_step cx ((d, [], m), [], replay_default) ((d, [(v, as, body)], m), [], replay_default)"
    using wr by (intro table_step.logging log_step.checked body(1)) simp_all
  then obtain n1 where h1: "table_holds cx n1 ((d, [(v, as, body)], m), [], replay_default)" using table_step_holds h by blast
  have "\<forall>bs \<in> ran (m(v \<mapsto> as)). writes_commit cx bs" using wr assms(3) by (auto simp: ran_def)
  then have "table_step cx ((d, [(v, as, body)], m), [], replay_default) ((d', remove1 (v, as, body) [(v, as, body)], m(v \<mapsto> as)), [], replay_default)"
    by (intro table_step.logging log_step.won body(2)) (simp_all add: d')
  from table_step_holds [OF this h1] obtain n2 where h2: "table_holds cx n2 ((d', [], m(v \<mapsto> as)), [], replay_default)" by auto
  have "{..<n2} = insert n {..<n}" using h2 log v by (auto simp: table_holds_def log_holds_def)
  then have n2: "n2 = Suc n" by (metis card_lessThan lessThan_Suc)
  have "files_at (m(v \<mapsto> as)) n = files_at m n"
    using v log by (intro files_at_mono [of m _ n]) (auto simp: log_holds_def map_le_def)
  then have "files_at (m(v \<mapsto> as)) n2 = live_files_of as (files_at m n)"
    using files_at_from [of n "Suc n" "m(v \<mapsto> as)"] v by (simp add: n2 log_actions_def o_def)
  moreover obtain l where "live_paths cx d = map af_path (files_at m n)" using holds_live [OF h] by metis
  moreover have "live_paths cx d' = map af_path (files_at (m(v \<mapsto> as)) n2)" using holds_live [OF h2] by metis
  ultimately show ?thesis using h2 by (auto simp: paths_live intro: well_logged_I)
qed

lemma commit_failed: "commit cx v as d = (Inl e, d') \<Longrightarrow> d' = d"
  by (auto simp: commit_def split: sum.splits option.splits)

lemma checkpoint_logged:
  assumes "well_logged cx d" "checkpoint_if_due cx pointer md k d = (result, d')"
  shows "well_logged cx d' \<and> live_paths cx d' = live_paths cx d"
proof -
  obtain n m where h: "table_holds cx n ((d, [], m), [], replay_default)" using assms(1) by (auto simp: well_logged_def)
  obtain l where l: "live_files cx d = Inr l" "ls_version l = version_at n" "live_paths cx d = map af_path (files_at m n)"
    using holds_live [OF h] by metis
  show ?thesis
  proof (cases "d' = d")
    case False
    then obtain report where w: "write_checkpoint pointer l md 1 d = (Inr report, d')"
      using assms(2) l(1) by (auto simp: checkpoint_if_due_def write_checkpoint_def Let_def split: option.splits if_splits)
    have "table_step cx ((d, [], m), [], replay_default) ((d, [], m), [l], replay_default)" by (rule table_step.reading [OF l(1)])
    then obtain n1 where h1: "table_holds cx n1 ((d, [], m), [l], replay_default)" using table_step_holds h by blast
    have "table_step cx ((d, [], m), [l], replay_default) ((d', [], m), [l], replay_default)"
      by (rule table_step.writing [OF _ w]) simp
    then obtain n2 where h2: "table_holds cx n2 ((d', [], m), [l], replay_default)" using table_step_holds h1 by blast
    have "n2 = n" using h h2 by (auto simp: table_holds_def log_holds_def)
    moreover have "live_paths cx d' = map af_path (files_at m n2)" using holds_live [OF h2] by metis
    ultimately show ?thesis using h2 l(3) by (auto intro: well_logged_I)
  qed (use assms in simp)
qed

text \<open>Reading at a version does not see a checkpoint.\<close>

lemma checkpoint_keeps_versions:
  assumes "well_logged cx d" "checkpoint_if_due cx pointer md k d = (result, d')"
  shows "live_files_at cx d' v = live_files_at cx d v"
proof -
  have same: "map_of d' (commit_name w) = map_of d (commit_name w)" for w
    using assms(2) by (auto simp: checkpoint_if_due_def write_checkpoint_def Let_def split: sum.splits option.splits if_splits)
  obtain n m where h: "table_holds cx n ((d, [], m), [], replay_default)" using assms(1) by (auto simp: well_logged_def)
  then have "log_holds cx n (d, [], m)" "\<forall>as \<in> ran m. writes_commit cx as" by (auto simp: table_holds_def)
  moreover from this(1) same have "log_holds cx n (d', [], m)" by (simp add: log_holds_def)
  ultimately have "read_actions cx d' = read_actions cx d" by (simp add: read_after_holds(1))
  then show ?thesis by (simp add: live_files_at_def)
qed

end
