(* ===== verification/Maintain_Safe.thy ===== *)
theory Maintain_Safe
  imports Maintain
begin

text \<open>
  What maintenance keeps: a merge holds the rows of its inputs, a tick plans each live file once, the commit replaces the inputs by
  the outputs, and what is reclaimed is neither live nor pinned. The last part interleaves the merges with writers.
\<close>

subsection \<open>Merges\<close>

definition rows_at :: "'r data_area \<Rightarrow> string \<Rightarrow> 'r multiset" where
  "rows_at area p = (case read_file area p of None \<Rightarrow> {#} | Some f \<Rightarrow> mset (dt_rows f))"

definition readable :: "'r data_area \<Rightarrow> string \<Rightarrow> bool" where
  "readable area p \<longleftrightarrow> read_file area p \<noteq> None"

definition table_rows :: "'r data_area \<Rightarrow> string list \<Rightarrow> 'r multiset" where
  "table_rows area ps = sum_list (map (rows_at area) ps)"

lemma table_rows_simps [simp]:
  "table_rows area [] = {#}" "table_rows area (p # ps) = rows_at area p + table_rows area ps"
  "table_rows area (ps @ qs) = table_rows area ps + table_rows area qs"
  by (simp_all add: table_rows_def)

lemma table_rows_mset: "mset ps = mset qs \<Longrightarrow> table_rows area ps = table_rows area qs"
  unfolding table_rows_def by (metis mset_map sum_mset_sum_list)

lemma table_rows_concat: "table_rows area (concat pss) = sum_list (map (table_rows area) pss)"
  by (induction pss) simp_all

definition area_grows :: "'r data_area \<Rightarrow> 'r data_area \<Rightarrow> bool" where
  "area_grows area area' \<longleftrightarrow> map_of area \<subseteq>\<^sub>m map_of area'"

lemma area_grows_refl [simp]: "area_grows area area"
  by (simp add: area_grows_def)

lemma area_grows_trans: "area_grows a b \<Longrightarrow> area_grows b c \<Longrightarrow> area_grows a c"
  unfolding area_grows_def by (rule map_le_trans)

lemma area_grows_lookup: "area_grows area area' \<Longrightarrow> map_of area p = Some f \<Longrightarrow> map_of area' p = Some f"
  unfolding area_grows_def map_le_def by (metis domI)

lemma readable_in: "readable area p \<Longrightarrow> p \<in> fst ` set area"
  by (auto simp: readable_def read_file_def split: option.splits intro: rev_image_eqI dest!: map_of_SomeD)

lemma readable_grows:
  "area_grows area area' \<Longrightarrow> readable area p \<Longrightarrow> readable area' p \<and> rows_at area' p = rows_at area p"
  by (auto simp: readable_def rows_at_def read_file_def dest: area_grows_lookup split: option.splits)

lemma table_rows_grows:
  "area_grows area area' \<Longrightarrow> \<forall>p \<in> set ps. readable area p \<Longrightarrow> table_rows area' ps = table_rows area ps"
  by (induction ps) (simp_all add: readable_grows)

lemma read_inputs_rows:
  "read_inputs area ps r b = Inr (e, bytes, batches) \<Longrightarrow>
     (\<forall>p \<in> set ps. readable area p) \<and> mset (concat (map snd batches)) = table_rows area ps"
proof (induction ps arbitrary: r b e bytes batches)
  case (Cons p ps)
  from Cons.prems obtain f r' b' bs where f: "read_file area p = Some f"
    "read_inputs area ps (word_saturating_add r (of_nat (length (dt_rows f)))) (word_saturating_add b (dt_bytes f)) = Inr (r', b', bs)"
    "batches = (if dt_rows f = [] then bs else (dt_schema f, dt_rows f) # bs)"
    by (auto split: option.splits sum.splits)
  from Cons.IH [OF f(2)] f(1,3) show ?case by (auto simp: readable_def rows_at_def)
qed simp

definition sorts_rows :: "'r table_io \<Rightarrow> bool" where
  "sorts_rows io \<longleftrightarrow> (\<forall>columns rows. mset (ti_sorted io columns rows) = mset rows)"

lemma sort_rows_mset: "sorts_rows io \<Longrightarrow> sort_rows io schema columns rows = Inr rows' \<Longrightarrow> mset rows' = mset rows"
  by (auto simp: sort_rows_def sorts_rows_def split: if_splits option.splits)

lemma write_parquet_spec:
  assumes "write_parquet io name schema rows area = (result, area')"
  shows "area_grows area area' \<and> (\<forall>p. p \<noteq> name \<longrightarrow> map_of area' p = map_of area p) \<and>
    (result = Inr () \<longrightarrow> map_of area name = None \<and> readable area' name \<and> rows_at area' name = mset rows)"
  using assms
  by (auto simp: write_parquet_def area_grows_def map_le_def readable_def rows_at_def read_file_def split: if_splits)

lemma compact_spec:
  assumes "compact_files_sorted io inputs name covers columns area = (result, area')" "sorts_rows io"
  shows "area_grows area area' \<and>
    (\<forall>out. result = Inr out \<longrightarrow>
       mo_output out = name \<and> mo_inputs out = inputs \<and> map_of area name = None \<and> readable area' name \<and>
       (\<forall>p \<in> set inputs. readable area p) \<and> rows_at area' name = table_rows area inputs)"
proof (cases "area' = area \<and> (\<exists>e. result = Inl e)")
  case False
  then have len: "\<not> length inputs < 2" using assms(1) by (auto simp: compact_files_sorted_def)
  obtain e b batches where r: "read_inputs area inputs 0 0 = Inr (e, b, batches)"
    using False assms(1) len by (cases "read_inputs area inputs 0 0") (auto simp: compact_files_sorted_def)
  obtain schema x rest where bs: "batches = (schema, x) # rest"
    using False assms(1) len r by (cases batches) (auto simp: compact_files_sorted_def)
  have one: "\<not> list_ex (\<lambda>b. fst b \<noteq> schema) batches"
    using False assms(1) len r bs by (auto simp: compact_files_sorted_def split: if_splits)
  obtain rows where rows: "sort_rows io schema columns (concat (map snd batches)) = Inr rows"
    using False assms(1) len r bs one
    by (cases "sort_rows io schema columns (concat (map snd batches))") (auto simp: compact_files_sorted_def)
  obtain res area1 where w: "write_parquet io name schema rows area = (res, area1)" by fastforce
  have eq: "(result, area') =
      (case res of
         Inl e \<Rightarrow> (Inl e, area1)
       | Inr _ \<Rightarrow>
           (case read_parquet_stats area1 name of
              None \<Rightarrow> (Inl (CannotOpen name), area1)
            | Some (written, bytes) \<Rightarrow>
                if written \<noteq> e then (Inl (RowsLost written e), area1)
                else
                  (Inr \<lparr>mo_output = name, mo_rows = written, mo_bytes = bytes, mo_inputs = inputs,
                        mo_bytes_before = b, mo_covers = covers, mo_statistics = ti_statistics io rows\<rparr>, area1)))"
    using assms(1) len r bs one rows w by (simp add: compact_files_sorted_def split: sum.splits)
  then have a1: "area' = area1" by (auto split: sum.splits option.splits if_splits)
  have rows_eq: "mset rows = table_rows area inputs" "\<forall>p \<in> set inputs. readable area p"
    using sort_rows_mset [OF assms(2) rows] read_inputs_rows [OF r] by simp_all
  show ?thesis
  proof (intro conjI allI impI)
    show "area_grows area area'" using write_parquet_spec [OF w] a1 by simp
    fix out assume "result = Inr out"
    then have "res = Inr ()" "mo_output out = name" "mo_inputs out = inputs"
      using eq by (auto split: sum.splits option.splits if_splits)
    then show "mo_output out = name" "mo_inputs out = inputs" "map_of area name = None" "readable area' name"
      "\<forall>p \<in> set inputs. readable area p" "rows_at area' name = table_rows area inputs"
      using write_parquet_spec [OF w] rows_eq a1 by simp_all
  qed
qed (use assms in auto)

text \<open>
  The merges of a tick: each output is a new file with the rows of its inputs, and is named by the sequence.
\<close>

definition merged_into :: "'r data_area \<Rightarrow> 'r data_area \<Rightarrow> merge_outcome \<Rightarrow> bool" where
  "merged_into area area' out \<longleftrightarrow>
     map_of area (mo_output out) = None \<and> readable area' (mo_output out) \<and> (\<forall>p \<in> set (mo_inputs out). readable area p) \<and>
     rows_at area' (mo_output out) = table_rows area (mo_inputs out)"

lemma run_compaction_spec:
  assumes "run_compaction io plan name columns area = (result, area')" "sorts_rows io"
  shows "area_grows area area' \<and>
    (\<forall>out. result = Inr out \<longrightarrow> mo_output out = name \<and> mo_inputs out = input_names plan \<and> merged_into area area' out)"
proof -
  obtain res area1 where c: "compact_files_sorted io (input_names plan) name (cp_covers plan)
      (if cp_settled plan then columns else []) area = (res, area1)" by fastforce
  note spec = compact_spec [OF c assms(2)]
  have "area' = area1 \<and> (\<forall>out. result = Inr out \<longrightarrow> res = Inr out)"
    using assms(1) unfolding run_compaction_def c by (cases res) (auto split: if_splits)
  then have a: "area' = area1" and res: "\<And>out. result = Inr out \<Longrightarrow> res = Inr out" by blast+
  show ?thesis
  proof (intro conjI allI impI)
    show "area_grows area area'" using spec a by blast
    fix out assume "result = Inr out"
    then have out: "res = Inr out" by (rule res)
    then show "mo_output out = name" "mo_inputs out = input_names plan" using spec by blast+
    with out show "merged_into area area' out" unfolding merged_into_def a using spec by metis
  qed
qed

lemma merged_into_later:
  assumes "merged_into area1 area2 out" "area_grows area area1" "area_grows area2 area3" "\<forall>p \<in> set (mo_inputs out). readable area p"
  shows "merged_into area area3 out"
proof -
  have "table_rows area1 (mo_inputs out) = table_rows area (mo_inputs out)"
    using table_rows_grows [OF assms(2)] assms(4) by blast
  moreover have "map_of area (mo_output out) = None"
    using assms(1) area_grows_lookup [OF assms(2)] by (metis merged_into_def option.exhaust)
  ultimately show ?thesis using assms readable_grows [OF assms(3)] by (simp add: merged_into_def)
qed

lemma execute_from_spec:
  assumes "sorts_rows io" "execute_from io seq i ps r area = (r', area')"
    and "\<forall>q \<in> set ps. \<forall>p \<in> set (input_names (pc_plan q)). readable area p"
  shows "area_grows area area' \<and>
    (\<exists>outs qs. tr_merged r' = tr_merged r @ outs \<and> subseq qs ps \<and> map mo_inputs outs = map (input_names \<circ> pc_plan) qs \<and>
       (\<forall>out \<in> set outs. merged_into area area' out \<and> (\<exists>q \<in> set ps. \<exists>j. mo_output out = output_name (pc_plan q) seq j)) \<and>
       distinct (map mo_output outs))"
  using assms(2,3)
proof (induction ps arbitrary: i r area)
  case (Cons q ps)
  obtain res area1 where run: "run_compaction io (pc_plan q) (output_name (pc_plan q) seq i) (pc_clustering q) area = (res, area1)"
    by fastforce
  note spec = run_compaction_spec [OF run assms(1)]
  then have g1: "area_grows area area1" by blast
  have reads: "\<forall>q \<in> set ps. \<forall>p \<in> set (input_names (pc_plan q)). readable area1 p"
    using Cons.prems(2) readable_grows [OF g1] by simp
  show ?case
  proof (cases res)
    case (Inl e)
    then have "execute_from io seq (Suc i) ps (r\<lparr>tr_failed := tr_failed r @ [(jb_name (pc_job q), e)]\<rparr>) area1 = (r', area')"
      using Cons.prems(1) run by simp
    from Cons.IH [OF this reads] obtain outs qs where ih: "area_grows area1 area'" "tr_merged r' = tr_merged r @ outs" "subseq qs ps"
      "map mo_inputs outs = map (input_names \<circ> pc_plan) qs" "distinct (map mo_output outs)"
      "\<forall>out \<in> set outs. merged_into area1 area' out \<and> (\<exists>q \<in> set ps. \<exists>j. mo_output out = output_name (pc_plan q) seq j)"
      by auto
    have "merged_into area area' out" if "out \<in> set outs" for out
    proof (rule merged_into_later [OF _ g1 area_grows_refl])
      show "merged_into area1 area' out" using ih(6) that by blast
      have "mo_inputs out \<in> set (map (input_names \<circ> pc_plan) qs)" using that by (metis ih(4) image_eqI list.set_map)
      then show "\<forall>p \<in> set (mo_inputs out). readable area p"
        using Cons.prems(2) sorted_subseq [OF ih(3), of "\<lambda>_. 0 :: nat"] by fastforce
    qed
    then show ?thesis using ih area_grows_trans [OF g1 ih(1)]
      by (intro conjI exI [of _ outs] exI [of _ qs]) auto
  next
    case (Inr out)
    have out: "mo_output out = output_name (pc_plan q) seq i" "mo_inputs out = input_names (pc_plan q)" "merged_into area area1 out"
      using spec Inr by auto
    have "execute_from io seq (Suc i) ps
        (r\<lparr>tr_before := word_saturating_add (tr_before r) (mo_bytes_before out),
           tr_after := word_saturating_add (tr_after r) (mo_bytes out), tr_merged := tr_merged r @ [out]\<rparr>) area1 = (r', area')"
      using Cons.prems(1) run Inr by simp
    from Cons.IH [OF this reads] obtain outs qs where ih: "area_grows area1 area'" "tr_merged r' = (tr_merged r @ [out]) @ outs" "subseq qs ps"
      "map mo_inputs outs = map (input_names \<circ> pc_plan) qs" "distinct (map mo_output outs)"
      "\<forall>out \<in> set outs. merged_into area1 area' out \<and> (\<exists>q \<in> set ps. \<exists>j. mo_output out = output_name (pc_plan q) seq j)"
      by auto
    have "merged_into area area' out'" if "out' \<in> set outs" for out'
    proof (rule merged_into_later [OF _ g1 area_grows_refl])
      show "merged_into area1 area' out'" using ih(6) that by blast
      have "mo_inputs out' \<in> set (map (input_names \<circ> pc_plan) qs)" using that by (metis ih(4) image_eqI list.set_map)
      then show "\<forall>p \<in> set (mo_inputs out'). readable area p"
        using Cons.prems(2) sorted_subseq [OF ih(3), of "\<lambda>_. 0 :: nat"] by fastforce
    qed
    moreover have "merged_into area area' out"
      using merged_into_later [OF out(3) area_grows_refl ih(1)] out(3) by (simp add: merged_into_def)
    moreover have "mo_output out \<notin> mo_output ` set outs"
    proof
      assume "mo_output out \<in> mo_output ` set outs"
      then have "map_of area1 (mo_output out) = None" using ih(6) by (auto simp: merged_into_def)
      moreover have "readable area1 (mo_output out)" using out(3) by (simp add: merged_into_def)
      ultimately show False by (simp add: readable_def read_file_def)
    qed
    ultimately show ?thesis using ih out area_grows_trans [OF g1 ih(1)]
      by (intro conjI exI [of _ "out # outs"] exI [of _ "q # qs"]) auto
  qed
qed simp

subsection \<open>A tick plans each live file once\<close>

lemma bt_insert_concat:
  "bt_ordered t \<Longrightarrow>
     mset (concat (map snd (bt_insert k ((case map_of t k of None \<Rightarrow> [] | Some xs \<Rightarrow> xs) @ [x]) t))) =
     mset (concat (map snd t)) + {#x#}"
proof (induction t)
  case (Cons a t)
  obtain l u where a: "a = (l, u)" by (cases a)
  have "map_of t k = None" if "k < l"
    using Cons.prems that a by (auto simp: map_of_eq_None_iff)
  then show ?case using Cons a by (auto split: option.splits)
qed simp

lemma group_files_spec:
  "bt_ordered (group_files fs) \<and> mset (concat (map snd (group_files fs))) = mset fs"
proof -
  define step where "step = (\<lambda>(f :: file_stat) groups. bt_insert (directory_of (fs_name f))
      ((case map_of groups (directory_of (fs_name f)) of None \<Rightarrow> [] | Some gs \<Rightarrow> gs) @ [f]) groups)"
  have "bt_ordered t \<Longrightarrow> bt_ordered (fold step fs t) \<and> mset (concat (map snd (fold step fs t))) = mset (concat (map snd t)) + mset fs" for t
  proof (induction fs arbitrary: t)
    case (Cons f fs)
    have "bt_ordered (step f t)" "mset (concat (map snd (step f t))) = mset (concat (map snd t)) + {#f#}"
      using Cons.prems bt_insert_concat [OF Cons.prems] by (simp_all add: step_def)
    with Cons.IH [of "step f t"] show ?case by simp
  qed simp
  from this [of "[]"] show ?thesis by (simp add: group_files_def step_def)
qed

lemma mset_concat_part:
  "mset xss \<subseteq># mset yss \<Longrightarrow> mset (concat xss) \<subseteq># mset (concat yss)"
proof -
  assume "mset xss \<subseteq># mset yss"
  then obtain extra where "mset yss = mset xss + mset extra" by (metis ex_mset mset_subset_eq_exists_conv)
  then have "image_mset mset (mset yss) = image_mset mset (mset xss) + image_mset mset (mset extra)" by simp
  then have "sum_mset (image_mset mset (mset yss)) = sum_mset (image_mset mset (mset xss)) + sum_mset (image_mset mset (mset extra))" by simp
  then have "mset (concat yss) = mset (concat xss) + mset (concat extra)"
    by (simp only: mset_concat flip: mset_map sum_mset_sum_list)
  then show ?thesis by simp
qed

lemma map_concat_part: "(\<And>x. x \<in> set xs \<Longrightarrow> mset (f x) \<subseteq># mset (g x)) \<Longrightarrow> mset (concat (map f xs)) \<subseteq># mset (concat (map g xs))"
  by (induction xs) (simp_all add: subset_mset.add_mono)

lemma pending_for_Some:
  "pending_for pol s = Some p \<Longrightarrow>
     plan_compaction (dp_compaction pol) s = Some (pc_plan p) \<and>
     jb_name (pc_job p) = ''compact '' @ ps_table s @ ''/'' @ ps_partition s"
  by (auto simp: pending_for_def plan_compaction_Some split: option.splits)

lemma pending_inputs:
  assumes "pending_for pol s = Some p"
  shows "mset (cp_inputs (pc_plan p)) \<subseteq># mset (ps_files s)"
proof -
  have "cp_inputs (pc_plan p) = chosen_inputs (dp_compaction pol) s"
    using pending_for_Some [OF assms] by (auto simp: plan_compaction_Some)
  moreover obtain rest where "sort_key size_order (ps_files s) = chosen_inputs (dp_compaction pol) s @ rest"
    by (rule chosen_inputs_spec)
  then have "mset (ps_files s) = mset (chosen_inputs (dp_compaction pol) s) + mset rest" by (metis mset_append mset_sort)
  ultimately show ?thesis by simp
qed

lemma plan_tick_run:
  assumes "distinct (map jb_name (map pc_job (List.map_filter (pending_for pol) partitions)))"
  shows "mset (tp_run (plan_tick partitions pol st)) \<subseteq># mset (List.map_filter (pending_for pol) partitions)"
proof -
  let ?pending = "List.map_filter (pending_for pol) partitions"
  let ?find = "\<lambda>n. List.find (\<lambda>p. jb_name (pc_job p) = n) ?pending"
  let ?run = "map sc_job (sd_run (schedule_jobs (map pc_job ?pending) st))"
  have found: "?find (jb_name (pc_job p)) = Some p" if "p \<in> set ?pending" for p

  proof -
    have "q = q'" if "q \<in> set ?pending" "q' \<in> set ?pending" "jb_name (pc_job q) = jb_name (pc_job q')" for q q'
      using assms that by (auto simp: distinct_map inj_on_def)
    then have "?find (jb_name (pc_job p)) = Some p \<longleftrightarrow> p \<in> set ?pending \<and> jb_name (pc_job p) = jb_name (pc_job p)"
      by (intro find_unique) simp
    then show ?thesis using that by simp
  qed
  obtain run deferred where loop: "schedule_loop st (duty_cycle_ticks_remaining st) (sort_key job_order (map pc_job ?pending)) = (run, deferred)"
    by fastforce
  then have "sd_run (schedule_jobs (map pc_job ?pending) st) = run" by (simp add: schedule_jobs_def)
  then have "mset ?run \<subseteq># mset (map pc_job ?pending)"
    using schedule_loop_splits [OF loop] by (metis mset_sort mset_subset_eq_add_left)
  then have "image_mset (\<lambda>j. ?find (jb_name j)) (mset ?run) \<subseteq># image_mset (\<lambda>j. ?find (jb_name j)) (mset (map pc_job ?pending))"
    by (rule image_mset_subseteq_mono)
  also have "image_mset (\<lambda>j. ?find (jb_name j)) (mset (map pc_job ?pending)) = image_mset Some (mset ?pending)"
    using found by (auto simp: image_mset.compositionality o_def intro!: image_mset_cong)
  finally have part: "mset (map (\<lambda>j. ?find (jb_name j)) ?run) \<subseteq># image_mset Some (mset ?pending)"
    by (simp only: mset_map)
  have filtered: "mset (List.map_filter id xs) = image_mset the (filter_mset (\<lambda>x. x \<noteq> None) (mset xs))"
    for xs :: "pending_compaction option list"
    by (simp add: List.map_filter_def)
  have kept: "image_mset the (filter_mset (\<lambda>x. x \<noteq> None) (image_mset Some M)) = M" for M :: "pending_compaction multiset"
    by (induction M) simp_all
  have "filter_mset (\<lambda>x. x \<noteq> None) (mset (map (\<lambda>j. ?find (jb_name j)) ?run)) \<subseteq># filter_mset (\<lambda>x. x \<noteq> None) (image_mset Some (mset ?pending))"
    by (rule multiset_filter_mono [OF part])
  from image_mset_subseteq_mono [OF this, of the]
  have main: "mset (List.map_filter id (map (\<lambda>j. ?find (jb_name j)) ?run)) \<subseteq># mset ?pending"
    by (simp only: filtered kept)
  have fused: "List.map_filter (\<lambda>s. f (sc_job s)) xs = List.map_filter id (map f (map sc_job xs))"
    for f :: "job \<Rightarrow> pending_compaction option" and xs :: "scheduled list"
    by (induction xs) (simp_all add: map_filter_simps split: option.split)
  have "tp_run (plan_tick partitions pol st) =
      List.map_filter (\<lambda>s. ?find (jb_name (sc_job s))) (sd_run (schedule_jobs (map pc_job ?pending) st))"
    by (simp only: plan_tick_def Let_def tick_plan.select_convs)
  also have "\<dots> = List.map_filter id (map (\<lambda>j. ?find (jb_name j)) ?run)" by (rule fused)
  finally show ?thesis using main by (rule ssubst)
qed

text \<open>The inputs of the merges of one tick are live files, each named once.\<close>

lemma partition_names_distinct:
  assumes "distinct (map ps_partition ss)" "\<forall>s \<in> set ss. ps_table s = t"
  shows "distinct (map jb_name (map pc_job (List.map_filter (pending_for pol) ss)))"
  using assms
proof (induction ss)
  case (Cons s ss)
  have "''compact '' @ t @ ''/'' @ ps_partition s \<noteq> jb_name (pc_job p)" if "p \<in> set (List.map_filter (pending_for pol) ss)" for p
  proof -
    obtain s' where s': "s' \<in> set ss" "pending_for pol s' = Some p" using \<open>p \<in> _\<close> by (auto simp: set_map_filter)
    then have "jb_name (pc_job p) = ''compact '' @ t @ ''/'' @ ps_partition s'" using pending_for_Some Cons.prems(2) by auto
    moreover have "ps_partition s \<noteq> ps_partition s'" using Cons.prems(1) s'(1) by auto
    ultimately show ?thesis by simp
  qed
  then show ?case using Cons pending_for_Some [of pol s] by (auto simp: map_filter_simps split: option.splits)
qed (simp add: map_filter_simps)

lemma tick_inputs:
  assumes "live_files cx d = Inr live" "partitions_of cx root d = Inr partitions" "distinct (paths live)"
    and run_def: "run = tp_run (plan_tick partitions pol st)"
  shows "mset (concat (map (input_names \<circ> pc_plan) run)) \<subseteq># mset (paths live)"
    and "distinct (concat (map (input_names \<circ> pc_plan) run))"
proof -
  define v where "v = (of_nat (case ls_version live of None \<Rightarrow> 0 | Some v \<Rightarrow> v) :: lsn)"
  define t where "t = (case rt_table root of None \<Rightarrow> ''table'' | Some t \<Rightarrow> t)"
  define groups where "groups = group_files (map (stat_of cx v) (ls_files live))"
  have ps: "partitions = map (\<lambda>(p, fs). \<lparr>ps_table = t, ps_partition = p, ps_files = fs, ps_ticks_since_write = 0\<rparr>) groups"
    using assms(1,2) by (simp add: partitions_of_def groups_def v_def t_def)
  note g = group_files_spec [of "map (stat_of cx v) (ls_files live)", folded groups_def]
  have "map ps_partition partitions = map fst groups" by (auto simp: ps)
  then have "distinct (map ps_partition partitions)" using bt_ordered_distinct g by metis
  moreover have "\<forall>s \<in> set partitions. ps_table s = t" by (auto simp: ps)
  ultimately have "distinct (map jb_name (map pc_job (List.map_filter (pending_for pol) partitions)))"
    by (rule partition_names_distinct)
  from plan_tick_run [OF this]
  have run: "mset run \<subseteq># mset (List.map_filter (pending_for pol) partitions)" by (simp add: run_def)
  have files: "mset (concat (map ps_files partitions)) = mset (map (stat_of cx v) (ls_files live))"
  proof -
    have "map ps_files partitions = map snd groups" by (auto simp: ps)
    then show ?thesis using g by simp
  qed
  have "mset (concat (map (cp_inputs \<circ> pc_plan) (List.map_filter (pending_for pol) ss))) \<subseteq># mset (concat (map ps_files ss))" for ss
  proof (induction ss)
    case (Cons s ss)
    then show ?case using pending_inputs [of pol s]
      by (auto simp: map_filter_simps split: option.splits intro: subset_mset.add_mono subset_mset.add_increasing)
  qed (simp add: map_filter_simps)
  from this [of partitions] have whole: "mset (concat (map (cp_inputs \<circ> pc_plan) (List.map_filter (pending_for pol) partitions)))
      \<subseteq># mset (map (stat_of cx v) (ls_files live))"
    by (simp only: files)
  have "mset (map (cp_inputs \<circ> pc_plan) run) \<subseteq># mset (map (cp_inputs \<circ> pc_plan) (List.map_filter (pending_for pol) partitions))"
    unfolding mset_map by (rule image_mset_subseteq_mono [OF run])
  from subset_mset.order_trans [OF mset_concat_part [OF this] whole]
  have "mset (concat (map (cp_inputs \<circ> pc_plan) run)) \<subseteq># mset (map (stat_of cx v) (ls_files live))" .
  from image_mset_subseteq_mono [OF this, of fs_name]
  show part: "mset (concat (map (input_names \<circ> pc_plan) run)) \<subseteq># mset (paths live)"
    by (simp add: paths_def stat_of_def input_names_def o_def image_mset.compositionality map_concat flip: mset_map)
  then show "distinct (concat (map (input_names \<circ> pc_plan) run))"
  proof -
    obtain rest where "mset (paths live) = mset (concat (map (input_names \<circ> pc_plan) run)) + mset rest"
      using part by (metis ex_mset mset_subset_eq_exists_conv)
    then have "mset (paths live) = mset (concat (map (input_names \<circ> pc_plan) run) @ rest)" by simp
    then show ?thesis using assms(3) by (metis distinct_append mset_eq_imp_distinct_iff)
  qed
qed

subsection \<open>Names of outputs\<close>

lemma last_split_on: "c \<notin> set b \<Longrightarrow> last (split_on c (a @ c # b)) = b"
proof (induction a)
  case (Cons x a)
  have "split_on c (a @ c # b) \<noteq> [] \<and> tl (split_on c (a @ c # b)) \<noteq> []"
    by (induction a) (auto split: list.splits)
  then show ?case using Cons by (auto split: list.splits)
qed (simp add: split_on_no_sep)

lemma pad_nat_digits: "pad_nat w n \<noteq> [] \<and> (\<forall>c \<in> set (pad_nat w n). is_digit c)"
  using show_nat_chars [of n] by (auto simp: pad_nat_def is_digit_def)

lemma parse_pad_u64: "parse_u64 (pad_nat w (unat n)) = Some n"
proof -
  obtain c cs where c: "pad_nat w (unat n) = c # cs" using pad_nat_digits [of w "unat n"] by (cases "pad_nat w (unat n)") auto
  then have "c \<noteq> CHR ''+''" using pad_nat_digits [of w "unat n"] is_digit_plain by (metis list.set_intros(1))
  moreover have "unat n < 2 ^ 64" using unsigned_less [of n] by simp
  moreover have "parse_nat (pad_nat w (unat n)) = Some (unat n)"
    using digits_value_pad [of w "unat n"] c by (simp add: parse_nat_def)
  ultimately show ?thesis using c by (simp add: parse_u64_def)
qed

lemma not_digit: "\<not> is_digit CHR ''/''" "\<not> is_digit CHR ''-''"
  by (simp_all add: is_digit_def)

lemma compacted_name_number: "compaction_number (compacted_name seq i) = Some seq"
  and compacted_name_number_in: "compaction_number (d @ ''/'' @ compacted_name seq i) = Some seq"
proof -
  have slash: "CHR ''/'' \<notin> set (compacted_name seq i)"
    using pad_nat_digits not_digit by (auto simp: compacted_name_def)
  have dash: "CHR ''-'' \<notin> set (pad_nat 6 (unat seq))" using pad_nat_digits not_digit by blast
  have name: "strip_prefix ''compacted-'' (compacted_name seq i) = Some (pad_nat 6 (unat seq) @ ''-'' @ pad_nat 4 i @ ''.parquet'')"
    by (simp add: strip_prefix_def compacted_name_def)
  have "hd (split_on CHR ''-'' (pad_nat 6 (unat seq) @ ''-'' @ pad_nat 4 i @ ''.parquet'')) = pad_nat 6 (unat seq)"
    using split_on_append [OF dash] by simp
  then have *: "compaction_number p = Some seq" if "last (split_on CHR ''/'' p) = compacted_name seq i" for p
    using that name by (simp add: compaction_number_def parse_pad_u64)
  show "compaction_number (compacted_name seq i) = Some seq" by (rule *) (simp add: split_on_no_sep slash)
  show "compaction_number (d @ ''/'' @ compacted_name seq i) = Some seq"
    by (rule *) (use last_split_on [OF slash, of d] in simp)
qed

lemma output_name_number: "compaction_number (output_name plan seq i) = Some seq"
  using compacted_name_number_in by (simp add: output_name_def Let_def compacted_name_number)

lemma next_sequence_above:
  assumes "p \<in> set ps" "compaction_number p = Some n" "next_sequence ps \<noteq> - 1"
  shows "n < next_sequence ps"
proof -
  have "n \<in> set (List.map_filter compaction_number ps)" using assms(1,2) by (auto simp: set_map_filter)
  then obtain m where m: "iter_max (List.map_filter compaction_number ps) = Some m" "n \<le> m"
    using iter_max_Some by (cases "iter_max (List.map_filter compaction_number ps)") (auto simp: iter_max_def split: if_splits)
  have "unat m < unat (word_saturating_add m 1)"
  proof -
    have "unat (word_saturating_add m 1) \<noteq> 2 ^ 64 - 1"
      using assms(3) m(1) unat_max_word [where 'a = 64] by (auto simp: next_sequence_def intro: word_unat_eq_iff [THEN iffD2])
    then show ?thesis by (simp add: unat_saturating_add min_def split: if_splits)
  qed
  then show ?thesis using m by (simp add: next_sequence_def word_less_nat_alt word_le_nat_alt)
qed

subsection \<open>The commit\<close>

lemma removals_filter:
  "fold path_step (map (\<lambda>p. Remove (removal_rewritten p now)) ps) qs = filter (\<lambda>p. p \<notin> set ps) qs"
  by (induction ps arbitrary: qs) (auto simp: removal_rewritten_def intro: filter_cong)

lemma merge_paths:
  assumes "set (concat (map mo_inputs outs)) \<subseteq> set ps" "distinct (concat (map mo_inputs outs))"
    and "distinct (map mo_output outs)" "set (map mo_output outs) \<inter> set ps = {}"
  shows "fold path_step (concat (map (merge_actions now) outs)) ps =
    filter (\<lambda>p. p \<notin> set (concat (map mo_inputs outs))) ps @ map mo_output outs"
  using assms
proof (induction outs arbitrary: ps)
  case (Cons x outs)
  let ?ps = "filter (\<lambda>p. p \<notin> set (mo_inputs x)) ps @ [mo_output x]"
  have x: "mo_output x \<notin> set ps" "mo_output x \<notin> set (mo_inputs x)" using Cons.prems by auto
  have step: "fold path_step (merge_actions now x) ps = ?ps"
    using x by (simp add: merge_actions_def rewritten_add_def add_file_new_def removals_filter)
  have "fold path_step (concat (map (merge_actions now) outs)) ?ps =
      filter (\<lambda>p. p \<notin> set (concat (map mo_inputs outs))) ?ps @ map mo_output outs"
    using Cons.prems by (intro Cons.IH) auto
  moreover have "mo_output x \<notin> set (concat (map mo_inputs outs))" using Cons.prems x(1) by auto
  ultimately show ?case using step by (simp add: conj_commute)
qed simp

lemma table_rows_replace:
  assumes "distinct ps" "distinct qs" "set qs \<subseteq> set ps"
  shows "table_rows area ps = table_rows area (filter (\<lambda>p. p \<notin> set qs) ps) + table_rows area qs"
proof -
  have "mset ps = mset (filter (\<lambda>p. p \<notin> set qs) ps @ qs)"
    using assms by (intro set_eq_iff_mset_eq_distinct [THEN iffD1]) auto
  from table_rows_mset [OF this] show ?thesis by simp
qed

subsection \<open>What is reclaimed\<close>

definition spares :: "string set \<Rightarrow> 'r data_area \<Rightarrow> 'r data_area \<Rightarrow> bool" where
  "spares S area area' \<longleftrightarrow> (\<forall>p. map_of area' p = map_of area p \<or> p \<notin> S \<and> map_of area' p = None)"

lemma spares_refl [simp]: "spares S area area"
  by (simp add: spares_def)

lemma spares_trans: "spares S a b \<Longrightarrow> spares S b c \<Longrightarrow> spares S a c"
  unfolding spares_def by metis

lemma spares_readable: "spares S area area' \<Longrightarrow> p \<in> S \<Longrightarrow> readable area' p = readable area p \<and> rows_at area' p = rows_at area p"
proof -
  assume "spares S area area'" "p \<in> S"
  then have "map_of area' p = map_of area p" by (metis spares_def)
  then show ?thesis by (simp add: readable_def rows_at_def read_file_def)
qed

lemma remove_file_spares: "remove_file io p area = (x, area') \<Longrightarrow> p \<notin> S \<Longrightarrow> spares S area area'"
  by (auto simp: remove_file_def spares_def delete_conv' split: if_splits)

lemma retire_loop_spares:
  "retire_loop io out refs age pol ps r area = (r', area') \<Longrightarrow> \<forall>p \<in> set ps. p \<in> S \<longrightarrow> p \<in> sr_cloned refs \<Longrightarrow> spares S area area'"
proof (induction ps arbitrary: r area)
  case (Cons p ps)
  note rest = Cons.IH [OF _ conjunct2]
  show ?case
  proof (cases "age < grace_ticks pol \<or> (\<exists>l \<in> sr_snapshots refs. l \<le> mo_covers out) \<or> p \<in> sr_cloned refs")
    case True
    then show ?thesis using Cons by (auto split: if_splits)
  next
    case False
    obtain ok bytes area1 where rm: "remove_file io p area = ((ok, bytes), area1)" by (metis surj_pair)
    then have "spares S area area1" using False Cons.prems(2) by (intro remove_file_spares) auto
    moreover have "spares S area1 area'"
      using Cons False rm by (auto split: bool.splits)
    ultimately show ?thesis by (rule spares_trans)
  qed
qed simp

lemma retire_inputs_spares:
  "retire_inputs io out refs age pol area = (res, area') \<Longrightarrow> \<forall>p \<in> set (mo_inputs out). p \<in> S \<longrightarrow> p \<in> sr_cloned refs \<Longrightarrow> spares S area area'"
  by (auto simp: retire_inputs_def Let_def split: if_splits prod.splits option.splits dest: retire_loop_spares)

lemma retire_completed_spares:
  "retire_completed io due refs pol r area = (res, area') \<Longrightarrow>
     \<forall>(out, age) \<in> set due. \<forall>p \<in> set (mo_inputs out). p \<in> S \<longrightarrow> p \<in> sr_cloned refs \<Longrightarrow> spares S area area'"
proof (induction due arbitrary: r area)
  case (Cons x due)
  obtain out age where x: "x = (out, age)" by (cases x)
  obtain res1 area1 where ret: "retire_inputs io out refs age pol area = (res1, area1)" by fastforce
  then have one: "spares S area area1" using Cons.prems(2) x by (intro retire_inputs_spares) auto
  show ?case
  proof (cases res1)
    case (Inl e)
    then show ?thesis using one Cons.prems(1) x ret by simp
  next
    case (Inr rep)
    then obtain r1 where "retire_completed io due refs pol r1 area1 = (res, area')" using Cons.prems(1) x ret by auto
    from Cons.IH [OF this] Cons.prems(2) one show ?thesis using spares_trans by auto
  qed
qed simp

definition queued :: "maintainer \<Rightarrow> string set" where
  "queued m = (\<Union>x \<in> set (mt_pending m). set (mo_inputs (fst x)))"

lemma retire_due_spares:
  assumes "retire_due io tick held l m area = (res, m', area')" "queued m \<inter> S \<subseteq> held"
  shows "spares S area area' \<and> queued m' \<subseteq> queued m"
proof -
  let ?due = "filter (fst \<circ> retirement_due m l tick) (mt_pending m)"
  have pend: "mt_pending m' = filter (Not \<circ> fst \<circ> retirement_due m l tick) (mt_pending m)"
    using assms(1) by (auto simp: retire_due_def Let_def split: if_splits prod.splits sum.splits)
  have "spares S area area'"
  proof (cases "?due = []")
    case False
    obtain res1 area1 where ret: "retire_completed io (map (\<lambda>(out, merged_at, _). (out, word_saturating_sub tick merged_at)) ?due)
        \<lparr>sr_snapshots = {}, sr_cloned = held\<rparr> (mp_retention (mt_policy m)) tick_report_default area = (res1, area1)" by fastforce
    moreover have "area' = area1"
      using assms(1) False ret by (cases res1) (simp_all add: retire_due_def Let_def)
    moreover have "\<forall>(out, age) \<in> set (map (\<lambda>(out, merged_at, _). (out, word_saturating_sub tick merged_at)) ?due).
        \<forall>p \<in> set (mo_inputs out). p \<in> S \<longrightarrow> p \<in> sr_cloned \<lparr>sr_snapshots = {}, sr_cloned = held\<rparr>"
      using assms(2) by (fastforce simp: queued_def)
    ultimately show ?thesis using retire_completed_spares [OF ret] by blast
  qed (use assms(1) in \<open>simp add: retire_due_def\<close>)
  moreover have "queued m' \<subseteq> queued m" by (auto simp: queued_def pend)
  ultimately show ?thesis ..
qed

lemma orphan_plan_spares:
  "set (op_remove (fold (orphan_step live held a) fs plan)) \<subseteq> set (op_remove plan) \<union> - (live \<union> held)"
proof (induction fs arbitrary: plan)
  case (Cons x fs)
  have "set (op_remove (orphan_step live held a x plan)) \<subseteq> set (op_remove plan) \<union> - (live \<union> held)"
    by (cases x) (auto simp: orphan_step_def)
  then show ?case using Cons.IH [of "orphan_step live held a x plan"] by auto
qed simp

lemma sweep_orphans_spares: "sweep_orphans io ns r area = (r', area') \<Longrightarrow> set ns \<inter> S = {} \<Longrightarrow> spares S area area'"
proof (induction ns arbitrary: r area)
  case (Cons n ns)
  obtain ok bytes area1 where rm: "remove_file io n area = ((ok, bytes), area1)" by (metis surj_pair)
  then have "spares S area area1" using Cons.prems(2) by (intro remove_file_spares) auto
  moreover have "spares S area1 area'" using Cons rm by (auto split: bool.splits)
  ultimately show ?case by (rule spares_trans)
qed simp

lemma collect_orphans_spares:
  assumes "collect_orphans io held a d area = (r, area')" "S \<subseteq> set (live_paths (ti_codec io) d) \<union> held"
  shows "spares S area area'"
proof (cases "live_files (ti_codec io) d")
  case (Inr live)
  let ?plan = "plan_orphan_cleanup (list_data_files area) (set (paths live)) held a"
  have "set (op_remove ?plan) \<inter> S = {}"
    using orphan_plan_spares [of "set (paths live)" held a "list_data_files area" orphan_plan_default] assms(2) Inr
    by (auto simp: plan_orphan_cleanup_def orphan_plan_default_def live_paths_def)
  then show ?thesis using assms(1) Inr by (auto simp: collect_orphans_def Let_def split: if_splits intro: sweep_orphans_spares)
qed (use assms in \<open>simp add: collect_orphans_def\<close>)

subsection \<open>One tick, in two parts\<close>

text \<open>
  Between ticks: the log is sound, every live file can be read, and no file that waits to be retired is live, nor numbered at or past
  the next sequence. Between the merges of a tick and their commit: the outputs are new, hold the rows of their inputs, and are
  numbered past every file that waits.
\<close>

definition numbered_below :: "string set \<Rightarrow> u64 \<Rightarrow> bool" where
  "numbered_below ps q \<longleftrightarrow> (\<forall>p \<in> ps. \<forall>n. compaction_number p = Some n \<longrightarrow> n < q)"

definition table_ok :: "'r table_io \<Rightarrow> maintainer \<Rightarrow> 'r table_world \<Rightarrow> bool" where
  "table_ok io m w \<longleftrightarrow>
     well_logged (ti_codec io) (wd_log w) \<and>
     (\<forall>p \<in> set (live_paths (ti_codec io) (wd_log w)). readable (wd_data w) p) \<and>
     queued m \<inter> set (live_paths (ti_codec io) (wd_log w)) = {} \<and>
     numbered_below (queued m) (next_sequence (live_paths (ti_codec io) (wd_log w)))"

definition inputs_of :: "tick_report \<Rightarrow> string list" where
  "inputs_of r = concat (map mo_inputs (tr_merged r))"

definition outputs_of :: "tick_report \<Rightarrow> string list" where
  "outputs_of r = map mo_output (tr_merged r)"

definition merges_ok :: "'r table_io \<Rightarrow> maintainer \<Rightarrow> 'r table_world \<Rightarrow> tick_report \<Rightarrow> bool" where
  "merges_ok io m w r \<longleftrightarrow>
     set (inputs_of r) \<subseteq> set (live_paths (ti_codec io) (wd_log w)) \<and> distinct (inputs_of r) \<and>
     distinct (outputs_of r) \<and> set (outputs_of r) \<inter> set (live_paths (ti_codec io) (wd_log w)) = {} \<and>
     (\<forall>out \<in> set (tr_merged r). readable (wd_data w) (mo_output out) \<and>
        rows_at (wd_data w) (mo_output out) = table_rows (wd_data w) (mo_inputs out)) \<and>
     (\<exists>q. q \<noteq> - 1 \<and> (\<forall>p \<in> set (outputs_of r). compaction_number p = Some q) \<and>
        numbered_below (queued m \<union> set (inputs_of r)) q)"

lemma subseq_distinct: "subseq xs ys \<Longrightarrow> set xs \<subseteq> set ys \<and> (distinct ys \<longrightarrow> distinct xs)"
  by (induction rule: list_emb.induct) auto

lemma tick_merge_log: "tick_merge io root m tick w = (res, w') \<Longrightarrow> wd_log w' = wd_log w \<and> wd_leases w' = wd_leases w"
  by (auto simp: tick_merge_def split: sum.splits prod.splits if_splits)

lemma tick_merge_spec:
  assumes "table_ok io m w" "sorts_rows io" "next_sequence (live_paths (ti_codec io) (wd_log w)) \<noteq> - 1"
    and "tick_merge io root m tick w = (res, w')"
  shows "area_grows (wd_data w) (wd_data w') \<and> (\<forall>r. res = Inr r \<longrightarrow> merges_ok io m w' r)"
proof -
  let ?cx = "ti_codec io" and ?ps = "live_paths (ti_codec io) (wd_log w)"
  obtain live where live: "live_files ?cx (wd_log w) = Inr live" "?ps = paths live" "distinct ?ps"
    using assms(1) well_logged_live by (metis table_ok_def)
  have none: "merges_ok io m w tick_report_default"
  proof -
    have "numbered_below (queued m) (next_sequence ?ps)" using assms(1) by (simp add: table_ok_def)
    then show ?thesis using assms(3) by (auto simp: merges_ok_def inputs_of_def outputs_of_def tick_report_default_def)
  qed
  show ?thesis
  proof (cases "tick_compacts m tick \<and> (\<exists>partitions. partitions_of ?cx root (wd_log w) = Inr partitions \<and> partitions \<noteq> [])")
    case False
    then have "w' = w" "\<And>r. res = Inr r \<Longrightarrow> r = tick_report_default"
      using assms(4) by (auto simp: tick_merge_def split: sum.splits if_splits)
    then show ?thesis using none by auto
  next
    case True
    then obtain partitions where ps: "partitions_of ?cx root (wd_log w) = Inr partitions" "partitions \<noteq> []" "tick_compacts m tick" by blast
    define seq where "seq = next_sequence ?ps"
    define run where "run = tp_run (plan_tick partitions (mp_driver (mt_policy m)) (tick_system m))"
    have seq: "next_compaction_sequence ?cx (wd_log w) = seq" using live by (simp add: next_compaction_sequence_def seq_def)
    obtain r area where ex: "execute_from io seq 0 run tick_report_default (wd_data w) = (r, area)" by fastforce
    then have res: "res = Inr r" "w' = w\<lparr>wd_data := area\<rparr>"
      using assms(4) ps seq by (simp_all add: tick_merge_def execute_tick_def run_def)
    note inputs = tick_inputs [OF live(1) ps(1) live(3) [unfolded live(2)] run_def]
    have sub: "set (concat (map (input_names \<circ> pc_plan) run)) \<subseteq> set ?ps"
      using set_mset_mono [OF inputs(1)] live(2) by simp
    have "\<forall>q \<in> set run. \<forall>p \<in> set (input_names (pc_plan q)). readable (wd_data w) p"
      using sub assms(1) by (auto simp: table_ok_def)
    from execute_from_spec [OF assms(2) ex this] obtain outs qs where outs: "area_grows (wd_data w) area" "tr_merged r = outs"
      "subseq qs run" "map mo_inputs outs = map (input_names \<circ> pc_plan) qs" "distinct (map mo_output outs)"
      "\<forall>out \<in> set outs. merged_into (wd_data w) area out \<and> (\<exists>q \<in> set run. \<exists>j. mo_output out = output_name (pc_plan q) seq j)"
      by (auto simp: tick_report_default_def)
    have part: "subseq (inputs_of r) (concat (map (input_names \<circ> pc_plan) run))"
    proof -
      have "subseq (concat (map (input_names \<circ> pc_plan) qs)) (concat (map (input_names \<circ> pc_plan) run))"
        using outs(3) by (induction rule: list_emb.induct) (auto intro: list_emb_append_mono subseq_drop_many)
      then show ?thesis using outs(2,4) by (simp add: inputs_of_def)
    qed
    have "set (inputs_of r) \<subseteq> set ?ps" "distinct (inputs_of r)"
      using subseq_distinct [OF part] sub inputs(2) by auto
    moreover have "set (outputs_of r) \<inter> set ?ps = {}"
    proof -
      have "\<not> readable (wd_data w) (mo_output out)" if "out \<in> set outs" for out
        using outs(6) that by (auto simp: merged_into_def readable_def read_file_def)
      then show ?thesis using assms(1) outs(2) by (auto simp: outputs_of_def table_ok_def)
    qed
    moreover have "readable area (mo_output out) \<and> rows_at area (mo_output out) = table_rows area (mo_inputs out)"
      if "out \<in> set outs" for out
      using outs(6) that table_rows_grows [OF outs(1), of "mo_inputs out"] by (auto simp: merged_into_def)
    moreover have "compaction_number p = Some seq" if "p \<in> set (outputs_of r)" for p
      using that outs(2,6) output_name_number by (auto simp: outputs_of_def)
    moreover have "numbered_below (queued m \<union> set (inputs_of r)) seq"
    proof -
      have "numbered_below (set ?ps) seq" using next_sequence_above assms(3) by (auto simp: numbered_below_def seq_def)
      then show ?thesis using assms(1) \<open>set (inputs_of r) \<subseteq> set ?ps\<close> by (auto simp: numbered_below_def table_ok_def seq_def)
    qed
    ultimately have "merges_ok io m w' r" using outs(2,5) assms(3)
      by (auto simp: merges_ok_def res(2) outputs_of_def seq_def)
    then show ?thesis using outs(1) res by simp
  qed
qed

text \<open>The commit puts the outputs in the place of their inputs.\<close>

lemma tick_commit_spec:
  assumes "table_ok io m w" "merges_ok io m w r" "tr_merged r \<noteq> [] \<longrightarrow> writes_commit (ti_codec io) (tick_actions now r)"
    and "tick_commit io now r (wd_log w) = (Inr (), d)"
  shows "well_logged (ti_codec io) d \<and>
    live_paths (ti_codec io) d = filter (\<lambda>p. p \<notin> set (inputs_of r)) (live_paths (ti_codec io) (wd_log w)) @ outputs_of r"
proof (cases "tr_merged r = []")
  case True
  then show ?thesis using assms(1,4) by (simp add: tick_commit_def inputs_of_def outputs_of_def table_ok_def)
next
  case False
  let ?cx = "ti_codec io"
  have log: "well_logged ?cx (wd_log w)" using assms(1) by (simp add: table_ok_def)
  then obtain live where "live_files ?cx (wd_log w) = Inr live" using well_logged_live by metis
  then obtain v v' where "commit ?cx v (tick_actions now r) (wd_log w) = (Inr v', d)"
    using assms(4) False by (auto simp: tick_commit_def commit_tick_def split: sum.splits prod.splits)
  from commit_logged [OF log this] assms(3) False
  have "well_logged ?cx d" "live_paths ?cx d = fold path_step (tick_actions now r) (live_paths ?cx (wd_log w))" by simp_all
  then show ?thesis
    using merge_paths [of "tr_merged r" "live_paths ?cx (wd_log w)" now] assms(2)
    by (simp add: merges_ok_def inputs_of_def outputs_of_def tick_actions_def)
qed

lemma tick_commit_failed: "tick_commit io now r d = (Inl e, d') \<Longrightarrow> d' = d"
  by (auto simp: tick_commit_def commit_tick_def split: sum.splits prod.splits if_splits dest: commit_failed)

lemma outputs_hold_rows:
  assumes "merges_ok io m w r"
  shows "table_rows (wd_data w) (outputs_of r) = table_rows (wd_data w) (inputs_of r)"
proof -
  have "map (rows_at (wd_data w)) (outputs_of r) = map (table_rows (wd_data w)) (map mo_inputs (tr_merged r))"
    using assms by (simp add: merges_ok_def outputs_of_def)
  then show ?thesis unfolding inputs_of_def table_rows_concat by (simp add: table_rows_def)
qed

text \<open>The world once the merges are committed and queued: nothing has been removed yet.\<close>

lemma tick_queued_ok:
  assumes ok: "table_ok io m w" "merges_ok io m w r" and actions: "tr_merged r \<noteq> [] \<longrightarrow> writes_commit (ti_codec io) (tick_actions now r)"
    and commit: "tick_commit io now r (wd_log w) = (Inr (), d)" and q: "queue_merges (mt_tick m) r m l = (m1, l1)"
  shows "table_ok io m1 (w\<lparr>wd_log := d, wd_leases := l1\<rparr>) \<and>
    table_rows (wd_data w) (live_paths (ti_codec io) d) = table_rows (wd_data w) (live_paths (ti_codec io) (wd_log w))"
proof -
  let ?cx = "ti_codec io" and ?ps = "live_paths (ti_codec io) (wd_log w)"
  note live = tick_commit_spec [OF ok actions commit]
  obtain marked where "mt_pending m1 = mt_pending m @ map (\<lambda>out. (out, mt_tick m, marked)) (tr_merged r)"
  proof -
    have "m1 = m\<lparr>mt_pending := mt_pending m @ map (\<lambda>out. (out, mt_tick m, if mt_watching m then fst (mark l) else 0)) (tr_merged r)\<rparr>"
      using q by (auto simp: queue_merges_def split: prod.splits if_splits)
    then show thesis by (intro that [of "if mt_watching m then fst (mark l) else 0"]) simp
  qed
  then have m1: "queued m1 = queued m \<union> set (inputs_of r)" by (simp add: queued_def inputs_of_def)
  have outs: "\<forall>p \<in> set (outputs_of r). readable (wd_data w) p" using ok(2) by (auto simp: merges_ok_def outputs_of_def)
  obtain n where n: "n \<noteq> - 1" "\<forall>p \<in> set (outputs_of r). compaction_number p = Some n" "numbered_below (queued m \<union> set (inputs_of r)) n"
    using ok(2) by (auto simp: merges_ok_def)
  have apart: "queued m1 \<inter> set (outputs_of r) = {}"
    using n(2,3) unfolding m1 numbered_below_def by (metis disjoint_iff less_irrefl)
  have "numbered_below (queued m1) (next_sequence (live_paths ?cx d))"
  proof (cases "tr_merged r = []")
    case True
    then have "inputs_of r = []" "outputs_of r = []" by (simp_all add: inputs_of_def outputs_of_def)
    then show ?thesis using ok(1) live by (simp add: m1 table_ok_def)
  next
    case False
    then obtain p where p: "p \<in> set (outputs_of r)" by (cases "tr_merged r") (auto simp: outputs_of_def)
    have "x < next_sequence (live_paths ?cx d)" if "x < n" for x
    proof (cases "next_sequence (live_paths ?cx d) = - 1")
      case True
      then show ?thesis using that n(1) word_n1_ge by (metis order_less_le_trans)
    next
      case False
      have "n < next_sequence (live_paths ?cx d)"
        using p n(2) live by (intro next_sequence_above [OF _ _ False, of p]) auto
      then show ?thesis using that by simp
    qed
    then show ?thesis using n(3) m1 by (simp add: numbered_below_def)
  qed
  moreover have "queued m1 \<inter> set (live_paths ?cx d) = {}"
    using live apart ok(1) by (auto simp: m1 table_ok_def)
  moreover have "\<forall>p \<in> set (live_paths ?cx d). readable (wd_data w) p"
    using live ok(1) outs by (auto simp: table_ok_def)
  moreover have "table_rows (wd_data w) (live_paths ?cx d) = table_rows (wd_data w) ?ps"
  proof -
    have "distinct ?ps" using ok(1) well_logged_live by (metis table_ok_def)
    then have "table_rows (wd_data w) ?ps =
        table_rows (wd_data w) (filter (\<lambda>p. p \<notin> set (inputs_of r)) ?ps) + table_rows (wd_data w) (inputs_of r)"
      using ok(2) by (intro table_rows_replace) (simp_all add: merges_ok_def)
    then show ?thesis using live outputs_hold_rows [OF ok(2)] by simp
  qed
  ultimately show ?thesis using live by (simp add: table_ok_def)
qed

text \<open>Reclaiming spares every live file and every file of a pinned version.\<close>

definition pinned_files :: "delta_codec \<Rightarrow> disk \<Rightarrow> u64 list \<Rightarrow> string set" where
  "pinned_files cx d vs = {p. \<exists>v \<in> set vs. \<exists>l. live_files_at cx d (unat v) = Inr l \<and> p \<in> set (paths l)}"

lemma pinned_files_simps [simp]:
  "pinned_files cx d [] = {}"
  "pinned_files cx d (v # vs) =
     (case live_files_at cx d (unat v) of Inl _ \<Rightarrow> {} | Inr l \<Rightarrow> set (paths l)) \<union> pinned_files cx d vs"
proof -
  show "pinned_files cx d [] = {}" by (simp add: pinned_files_def)
  show "pinned_files cx d (v # vs) =
     (case live_files_at cx d (unat v) of Inl _ \<Rightarrow> {} | Inr l \<Rightarrow> set (paths l)) \<union> pinned_files cx d vs"
    by (cases "live_files_at cx d (unat v)") (auto simp: pinned_files_def)
qed

lemma resolve_pins_held: "fst (resolve_pins cx d vs) = pinned_files cx d vs"
proof (induction vs)
  case (Cons v vs)
  then show ?case by (cases "live_files_at cx d (unat v)") (simp_all add: split_beta)
qed simp

lemma tick_checkpoint_spec:
  assumes "well_logged (ti_codec io) d" "tick_checkpoint io d = (res, d')"
  shows "well_logged (ti_codec io) d' \<and> live_paths (ti_codec io) d' = live_paths (ti_codec io) d \<and>
    live_files_at (ti_codec io) d' v = live_files_at (ti_codec io) d v"
proof (cases "latest_metadata (ti_codec io) d")
  case (Inr found)
  show ?thesis
  proof (cases found)
    case (Some md)
    obtain r d1 where cp: "checkpoint_if_due (ti_codec io) (ti_pointer io) md CHECKPOINT_INTERVAL d = (r, d1)" by fastforce
    then have "d' = d1" using assms(2) Inr Some by (cases r) (simp_all add: tick_checkpoint_def)
    then show ?thesis using checkpoint_logged [OF assms(1) cp] checkpoint_keeps_versions [OF assms(1) cp] by simp
  qed (use assms Inr in \<open>simp add: tick_checkpoint_def\<close>)
qed (use assms in \<open>simp add: tick_checkpoint_def\<close>)

lemma tick_reclaim_spec:
  assumes ok: "table_ok io m w" and run: "tick_reclaim io root tick r m w = (res, m', w')"
  defines "cx \<equiv> ti_codec io"
  shows "table_ok io m' w' \<and> live_paths cx (wd_log w') = live_paths cx (wd_log w) \<and>
    live_files_at cx (wd_log w') v = live_files_at cx (wd_log w) v \<and>
    spares (set (live_paths cx (wd_log w)) \<union> pinned_files cx (wd_log w) (pinned_by root m)) (wd_data w) (wd_data w')"
proof -
  let ?S = "set (live_paths cx (wd_log w)) \<union> pinned_files cx (wd_log w) (pinned_by root m)"
  obtain held holes where pins: "table_pins cx root m (wd_log w) = (held, holes)" by fastforce
  have held: "held = pinned_files cx (wd_log w) (pinned_by root m)"
    using pins resolve_pins_held [of cx "wd_log w" "pinned_by root m"] by (simp add: table_pins_def)
  have log: "well_logged cx (wd_log w)" using ok by (simp add: table_ok_def cx_def)
  show ?thesis
  proof (cases "mt_blind m \<noteq> [] \<or> holes \<noteq> []")
    case True
    then have "m' = m" "w' = w" using run pins by (auto simp: tick_reclaim_def cx_def)
    then show ?thesis using ok by simp
  next
    case False
    obtain due m1 area1 where ret: "retire_due io tick held (wd_leases w) m (wd_data w) = (due, m1, area1)" by (metis prod_cases3)
    have "queued m \<inter> ?S \<subseteq> held" using ok held by (auto simp: table_ok_def cx_def)
    from retire_due_spares [OF ret this] have one: "spares ?S (wd_data w) area1" "queued m1 \<subseteq> queued m" by simp_all
    obtain area2 d where w': "wd_data w' = area2" "wd_log w' = d" "m' = m1" "spares ?S area1 area2"
      "d = wd_log w \<or> (\<exists>x. tick_checkpoint io (wd_log w) = (x, d))"
    proof (cases due)
      case (Inl e)
      then have "wd_data w' = area1" "wd_log w' = wd_log w" "m' = m1"
        using run pins False ret by (auto simp: tick_reclaim_def cx_def)
      then show thesis using that spares_refl by blast
    next
      case (Inr rep)
      define sweeps where "sweeps = (mp_orphan_sweep_every (mt_policy m1) > 0 \<and> tick mod mp_orphan_sweep_every (mt_policy m1) = 0)"
      obtain swept area2 where sw: "(if sweeps then collect_orphans io held (mp_min_age (mt_policy m1)) (wd_log w) area1
          else (orphan_report_default, area1)) = (swept, area2)" by fastforce
      obtain x d where cp: "tick_checkpoint io (wd_log w) = (x, d)" by fastforce
      have "wd_data w' = area2 \<and> wd_log w' = d \<and> m' = m1"
        using run pins False ret Inr sw cp
        by (cases x) (auto simp: tick_reclaim_def cx_def Let_def simp flip: sweeps_def)
      moreover have "spares ?S area1 area2"
      proof (cases sweeps)
        case True
        then have "collect_orphans io held (mp_min_age (mt_policy m1)) (wd_log w) area1 = (swept, area2)" using sw by simp
        then show ?thesis using held by (rule_tac collect_orphans_spares) (auto simp: cx_def)
      qed (use sw in simp)
      ultimately show thesis using that cp by blast
    qed
    have same: "well_logged cx d \<and> live_paths cx d = live_paths cx (wd_log w) \<and> live_files_at cx d v = live_files_at cx (wd_log w) v"
      using w'(5) log tick_checkpoint_spec [of io "wd_log w"] by (auto simp: cx_def)
    have all: "spares ?S (wd_data w) area2" using one(1) w'(4) by (rule spares_trans)
    then have "\<forall>p \<in> set (live_paths cx d). readable area2 p"
      using ok same spares_readable by (fastforce simp: table_ok_def cx_def)
    then have "table_ok io m' w'" using ok one(2) same w'
      by (auto simp: table_ok_def cx_def numbered_below_def)
    then show ?thesis using same all w' by simp
  qed
qed

lemma tick_finish_spec:
  assumes ok: "table_ok io m w" "merges_ok io m w r" and actions: "tr_merged r \<noteq> [] \<longrightarrow> writes_commit (ti_codec io) (tick_actions now r)"
    and run: "tick_finish io root now r m w = (res, m', w')"
  defines "cx \<equiv> ti_codec io"
  shows "table_ok io m' w' \<and>
    table_rows (wd_data w') (live_paths cx (wd_log w')) = table_rows (wd_data w) (live_paths cx (wd_log w)) \<and>
    spares (pinned_files cx (wd_log w') (pinned_by root m)) (wd_data w) (wd_data w')"
proof (cases "tick_commit io now r (wd_log w)")
  case (Pair c d)
  show ?thesis
  proof (cases c)
    case (Inl e)
    then have "w' = w" "m' = m" using run Pair tick_commit_failed [of io now r "wd_log w" e d] by (auto simp: tick_finish_def)
    then show ?thesis using ok by simp
  next
    case (Inr u)
    obtain m1 l1 where q: "queue_merges (mt_tick m) r m (wd_leases w) = (m1, l1)" by fastforce
    have commit: "tick_commit io now r (wd_log w) = (Inr (), d)" using Pair Inr by simp
    let ?w1 = "w\<lparr>wd_log := d, wd_leases := l1\<rparr>"
    note mid = tick_queued_ok [OF ok actions commit q, folded cx_def]
    have rec: "tick_reclaim io root (mt_tick m1) r m1 ?w1 = (res, m', w')" using run Pair Inr q by (simp add: tick_finish_def)
    note fin = tick_reclaim_spec [OF conjunct1 [OF mid] rec, folded cx_def]
    have "mt_pinned m1 = mt_pinned m \<and> mt_clones m1 = mt_clones m"
      using q by (auto simp: queue_merges_def split: prod.splits if_splits)
    then have by_m: "pinned_by root m1 = pinned_by root m" by (simp only: pinned_by_def)
    have live: "live_paths cx (wd_log w') = live_paths cx d" using fin by simp
    have all: "spares (set (live_paths cx d) \<union> pinned_files cx d (pinned_by root m)) (wd_data w) (wd_data w')"
      using fin by_m by simp
    have "pinned_files cx (wd_log w') vs = pinned_files cx d vs" for vs
      using fin by (simp add: pinned_files_def)
    then have "spares (pinned_files cx (wd_log w') (pinned_by root m)) (wd_data w) (wd_data w')"
      using all by (auto simp: spares_def)
    moreover have "table_rows (wd_data w') (live_paths cx (wd_log w')) = table_rows (wd_data w) (live_paths cx d)"
    proof -
      have "rows_at (wd_data w') p = rows_at (wd_data w) p" if "p \<in> set (live_paths cx d)" for p
        using spares_readable [OF all] that by blast
      then have "map (rows_at (wd_data w')) (live_paths cx d) = map (rows_at (wd_data w)) (live_paths cx d)" by simp
      then show ?thesis unfolding table_rows_def live by (rule arg_cong)
    qed
    ultimately show ?thesis using fin mid by simp
  qed
qed

subsection \<open>Maintenance beside writers\<close>

text \<open>
  The steps of a table: a writer puts a data file under a new name and later commits it, with other actions; leases, clocks, pins and policy change
  at will; maintenance merges, and in a later step commits and reclaims, while writers go on. A commit adds only files that can still be read, and
  removes no file that a merge in progress reads; \<open>merge_resurrects_removed_rows\<close> below shows why. Nor does
  it remove the last bearer of the highest sequence.
\<close>

type_synonym 'r table_site = "maintainer \<times> 'r table_world \<times> tick_report option"

definition outputs_in :: "tick_report option \<Rightarrow> string set" where
  "outputs_in fl = (case fl of None \<Rightarrow> {} | Some r \<Rightarrow> set (outputs_of r))"

definition inputs_in :: "tick_report option \<Rightarrow> string set" where
  "inputs_in fl = (case fl of None \<Rightarrow> {} | Some r \<Rightarrow> set (inputs_of r))"

fun may_commit :: "maintainer \<Rightarrow> 'r table_world \<Rightarrow> tick_report option \<Rightarrow> delta_action \<Rightarrow> bool" where
  "may_commit m w fl (Add f) \<longleftrightarrow> readable (wd_data w) (af_path f) \<and> af_path f \<notin> queued m \<and> af_path f \<notin> outputs_in fl"
| "may_commit m w fl (Remove g) \<longleftrightarrow> rf_path g \<notin> inputs_in fl"
| "may_commit m w fl (Protocol _ _) \<longleftrightarrow> True"
| "may_commit m w fl (Metadata _) \<longleftrightarrow> True"

definition aged :: "(string \<Rightarrow> u64) \<Rightarrow> 'r data_area \<Rightarrow> 'r data_area" where
  "aged ages area = map (\<lambda>(n, f). (n, f\<lparr>dt_age := ages n\<rparr>)) area"

inductive maintain_step :: "'r table_io \<Rightarrow> table_root \<Rightarrow> 'r table_site \<Rightarrow> 'r table_site \<Rightarrow> bool" for io root where
  written: "map_of (wd_data w) p = None \<Longrightarrow> p \<notin> queued m \<Longrightarrow>
    maintain_step io root (m, w, fl) (m, w\<lparr>wd_data := AList.update p f (wd_data w)\<rparr>, fl)"
| committed: "commit (ti_codec io) v as (wd_log w) = (Inr v', d) \<Longrightarrow> writes_commit (ti_codec io) as \<Longrightarrow>
    list_all (may_commit m w fl) as \<Longrightarrow>
    next_sequence (live_paths (ti_codec io) (wd_log w)) \<le> next_sequence (live_paths (ti_codec io) d) \<Longrightarrow>
    maintain_step io root (m, w, fl) (m, w\<lparr>wd_log := d\<rparr>, fl)"
| environment: "mt_pending m' = mt_pending m \<Longrightarrow>
    maintain_step io root (m, w, fl) (m', w\<lparr>wd_leases := l, wd_data := aged ages (wd_data w)\<rparr>, fl)"
| merged: "next_sequence (live_paths (ti_codec io) (wd_log w)) \<noteq> - 1 \<Longrightarrow>
    tick_merge io root (m\<lparr>mt_tick := mt_tick m + 1\<rparr>) (mt_tick m + 1) w = (Inr r, w') \<Longrightarrow>
    maintain_step io root (m, w, None) (m\<lparr>mt_tick := mt_tick m + 1\<rparr>, w', Some r)"
| finished: "tr_merged r \<noteq> [] \<longrightarrow> writes_commit (ti_codec io) (tick_actions now r) \<Longrightarrow>
    tick_finish io root now r m w = (res, m', w') \<Longrightarrow>
    maintain_step io root (m, w, Some r) (m', w', None)"

inductive_cases maintain_stepE: "maintain_step io root s t"

definition site_ok :: "'r table_io \<Rightarrow> 'r table_site \<Rightarrow> bool" where
  "site_ok io = (\<lambda>(m, w, fl). table_ok io m w \<and> (case fl of None \<Rightarrow> True | Some r \<Rightarrow> merges_ok io m w r))"

lemma map_of_aged: "map_of (aged ages area) p = map_option (\<lambda>f. f\<lparr>dt_age := ages p\<rparr>) (map_of area p)"
  by (induction area) (auto simp: aged_def)

lemma readable_aged [simp]: "readable (aged ages area) p = readable area p" "rows_at (aged ages area) p = rows_at area p"
  by (cases "map_of area p"; simp add: readable_def rows_at_def read_file_def map_of_aged)+

lemma table_rows_aged [simp]: "table_rows (aged ages area) ps = table_rows area ps"
proof -
  have "rows_at (aged ages area) = rows_at area" by (rule ext) simp
  then show ?thesis by (simp only: table_rows_def)
qed

lemma fold_paths_bounds:
  assumes "list_all (may_commit m w fl) as"
  shows "set (fold path_step as ps) \<subseteq> set ps \<union> {p. readable (wd_data w) p \<and> p \<notin> queued m \<and> p \<notin> outputs_in fl} \<and>
    set ps \<inter> inputs_in fl \<subseteq> set (fold path_step as ps)"
  using assms
proof (induction as arbitrary: ps)
  case (Cons a as)
  have "set (path_step a ps) \<subseteq> set ps \<union> {p. readable (wd_data w) p \<and> p \<notin> queued m \<and> p \<notin> outputs_in fl}"
    "set ps \<inter> inputs_in fl \<subseteq> set (path_step a ps)"
    using Cons.prems by (cases a; auto)+
  moreover have "list_all (may_commit m w fl) as" using Cons.prems by simp
  ultimately show ?case using Cons.IH [of "path_step a ps"] by auto
qed simp

lemma numbered_below_mono: "numbered_below ps q \<Longrightarrow> q \<le> q' \<Longrightarrow> numbered_below ps q'"
  unfolding numbered_below_def by (meson order_less_le_trans)

lemma merges_ok_data:
  assumes "merges_ok io m w r" "\<And>p. readable (wd_data w) p \<Longrightarrow> readable (wd_data w') p \<and> rows_at (wd_data w') p = rows_at (wd_data w) p"
    and "wd_log w' = wd_log w" "queued m' = queued m" "\<forall>p \<in> set (live_paths (ti_codec io) (wd_log w)). readable (wd_data w) p"
  shows "merges_ok io m' w' r"
proof -
  have "rows_at (wd_data w') (mo_output out) = table_rows (wd_data w') (mo_inputs out) \<and> readable (wd_data w') (mo_output out)"
    if out: "out \<in> set (tr_merged r)" for out
  proof -
    have "set (mo_inputs out) \<subseteq> set (inputs_of r)" using out by (auto simp: inputs_of_def)
    then have "\<forall>p \<in> set (mo_inputs out). readable (wd_data w) p" using assms(1,5) by (auto simp: merges_ok_def)
    then have "table_rows (wd_data w') (mo_inputs out) = table_rows (wd_data w) (mo_inputs out)"
      unfolding table_rows_def using assms(2) by (intro arg_cong [of _ _ sum_list] map_cong) auto
    then show ?thesis using assms(1,2) out by (simp add: merges_ok_def)
  qed
  then show ?thesis using assms(1,3,4) by (simp add: merges_ok_def)
qed

lemma maintain_step_ok:
  assumes "maintain_step io root s t" "sorts_rows io" "site_ok io s"
  shows "site_ok io t"
  using assms(1,3)
proof (induction rule: maintain_step.induct)
  case (written w p m fl f)
  let ?w = "w\<lparr>wd_data := AList.update p f (wd_data w)\<rparr>"
  have keep: "readable (wd_data ?w) q \<and> rows_at (wd_data ?w) q = rows_at (wd_data w) q" if "readable (wd_data w) q" for q
  proof -
    have "q \<noteq> p" using that written(1) by (auto simp: readable_def read_file_def)
    then show ?thesis using that by (simp add: readable_def rows_at_def read_file_def)
  qed
  have ok: "table_ok io m w" using written(3) by (simp add: site_ok_def)
  then have "table_ok io m ?w" using keep by (simp add: table_ok_def)
  moreover have "merges_ok io m ?w r" if "fl = Some r" for r
  proof (rule merges_ok_data)
    show "merges_ok io m w r" using written(3) that by (simp add: site_ok_def)
    show "readable (wd_data ?w) q \<and> rows_at (wd_data ?w) q = rows_at (wd_data w) q" if "readable (wd_data w) q" for q
      using that by (rule keep)
    show "\<forall>p \<in> set (live_paths (ti_codec io) (wd_log w)). readable (wd_data w) p" using ok by (simp add: table_ok_def)
  qed simp_all
  ultimately show ?case by (cases fl) (simp_all add: site_ok_def)
next
  case (committed v as w v' d m fl)
  let ?ps = "live_paths (ti_codec io) (wd_log w)" and ?qs = "live_paths (ti_codec io) d"
  have ok: "table_ok io m w" using committed(5) by (simp add: site_ok_def)
  then have log: "well_logged (ti_codec io) d" "?qs = fold path_step as ?ps"
    using commit_logged [OF _ committed(1,2)] by (simp_all add: table_ok_def)
  note bounds = fold_paths_bounds [OF committed(3), of ?ps, folded log(2)]
  have "numbered_below (queued m) (next_sequence ?qs)"
    using ok committed(4) by (auto simp: table_ok_def intro: numbered_below_mono)
  moreover have "\<forall>p \<in> set ?qs. readable (wd_data w) p" "queued m \<inter> set ?qs = {}"
    using ok bounds by (auto simp: table_ok_def)
  ultimately have "table_ok io m (w\<lparr>wd_log := d\<rparr>)" using log(1) by (simp add: table_ok_def)
  moreover have "merges_ok io m (w\<lparr>wd_log := d\<rparr>) r" if "fl = Some r" for r
  proof -
    have "merges_ok io m w r" using committed(5) that by (simp add: site_ok_def)
    moreover from this have "set (inputs_of r) \<subseteq> set ?qs" "set (outputs_of r) \<inter> set ?qs = {}"
      using bounds that by (auto simp: merges_ok_def inputs_in_def outputs_in_def)
    ultimately show ?thesis by (simp add: merges_ok_def)
  qed
  ultimately show ?case by (cases fl) (simp_all add: site_ok_def)
next
  case (environment m' m w fl ages l)
  have q: "queued m' = queued m" using environment(1) by (simp add: queued_def)
  have ok: "table_ok io m w" using environment(2) by (simp add: site_ok_def)
  then have "table_ok io m' (w\<lparr>wd_leases := l, wd_data := aged ages (wd_data w)\<rparr>)" using q by (simp add: table_ok_def)
  moreover have "merges_ok io m' (w\<lparr>wd_leases := l, wd_data := aged ages (wd_data w)\<rparr>) r" if "fl = Some r" for r
  proof (rule merges_ok_data)
    show "merges_ok io m w r" using environment(2) that by (simp add: site_ok_def)
    show "\<forall>p \<in> set (live_paths (ti_codec io) (wd_log w)). readable (wd_data w) p" using ok by (simp add: table_ok_def)
  qed (simp_all add: q)
  ultimately show ?case by (cases fl) (simp_all add: site_ok_def)
next
  case (merged w m r w')
  let ?m = "m\<lparr>mt_tick := mt_tick m + 1\<rparr>"
  have q: "queued ?m = queued m" by (simp add: queued_def)
  then have ok: "table_ok io ?m w" using merged(3) by (simp add: site_ok_def table_ok_def)
  note spec = tick_merge_spec [OF ok assms(2) merged(1,2)]
  have "table_ok io ?m w'"
    using ok spec tick_merge_log [OF merged(2)] readable_grows by (auto simp: table_ok_def)
  then show ?case using spec by (simp add: site_ok_def)
next
  case (finished r now m w res m' w')
  then show ?case using tick_finish_spec [OF _ _ finished(1,2)] by (simp add: site_ok_def)
qed

lemma empty_log: "well_logged cx []" "live_paths cx [] = []"
proof -
  obtain n where n: "table_holds cx n (([], [], Map.empty), [], replay_default)"
    using table_holds_reachable [OF rtranclp.rtrancl_refl, of cx] by blast
  then have "n = 0" by (auto simp: table_holds_def log_holds_def)
  then show "live_paths cx [] = []"
    using holds_live [OF n] by (metis files_at_def live_files_of_def log_actions_def list.simps(8) upt_0 concat.simps(1) fold_simps(1))
  show "well_logged cx []" using n by (rule well_logged_I)
qed

lemma maintained_site_ok:
  assumes "(maintain_step io root)\<^sup>*\<^sup>* (maintainer_new pol, \<lparr>wd_log = [], wd_data = [], wd_leases = l\<rparr>, None) s" "sorts_rows io"
  shows "site_ok io s"
  using assms(1)
proof induction
  case base
  show ?case
    by (simp add: site_ok_def table_ok_def queued_def maintainer_new_def numbered_below_def empty_log)
qed (use assms(2) maintain_step_ok in blast)


subsection \<open>Where maintenance forgets its readers\<close>

text \<open>
  The sweep knows the live files and the pins, not the queue of retirements nor the leases: once a file is old enough, measured from
  when it was written and not from when it was superseded, it goes as soon as it is no longer live, whoever still waits for it.
\<close>

lemma orphan_planned:
  assumes "(p, b, a) \<in> set fs" "\<not> is_log_name p" "p \<notin> live" "p \<notin> held" "\<not> a < min_age"
  shows "p \<in> set (op_remove (fold (orphan_step live held min_age) fs plan))"
proof -
  have keeps: "set (op_remove plan) \<subseteq> set (op_remove (fold (orphan_step live held min_age) gs plan))" for gs plan
  proof (induction gs arbitrary: plan)
    case (Cons g gs)
    have "set (op_remove plan) \<subseteq> set (op_remove (orphan_step live held min_age g plan))" by (cases g) (auto simp: orphan_step_def)
    then show ?case using Cons.IH [of "orphan_step live held min_age g plan"] by auto
  qed simp
  show ?thesis
    using assms(1)
  proof (induction fs arbitrary: plan)
    case (Cons f fs)
    show ?case
    proof (cases "f = (p, b, a)")
      case True
      then have "p \<in> set (op_remove (orphan_step live held min_age f plan))" using assms(2-5) by (simp add: orphan_step_def)
      then show ?thesis using keeps by auto
    qed (use Cons in auto)
  qed simp
qed

lemma sweep_removes_each:
  "sweep_orphans io ns r area = (r', area') \<Longrightarrow> p \<in> set ns \<Longrightarrow> \<not> ti_stuck io p \<Longrightarrow> map_of area' p = None"
proof (induction ns arbitrary: r area)
  case (Cons n ns)
  obtain ok bytes area1 where rm: "remove_file io n area = ((ok, bytes), area1)" by (metis surj_pair)
  obtain r1 where rest: "sweep_orphans io ns r1 area1 = (r', area')" using Cons.prems(1) rm by (cases ok) auto
  show ?case
  proof (cases "p = n")
    case True
    then have "map_of area1 p = None" using rm Cons.prems(3) by (auto simp: remove_file_def delete_conv' split: if_splits)
    then show ?thesis using sweep_orphans_spares [OF rest, of "{}"] by (metis spares_def inf_bot_right)
  qed (use Cons.IH [OF rest] Cons.prems in simp)
qed simp

lemma sweep_does_not_wait:
  assumes "live_files (ti_codec io) d = Inr live" "map_of area p = Some f" "dt_age f \<ge> min_age"
    and "\<not> is_log_name p" "p \<notin> set (paths live)" "p \<notin> held" "\<not> ti_stuck io p"
  shows "map_of (snd (collect_orphans io held min_age d area)) p = None"
proof -
  let ?plan = "plan_orphan_cleanup (list_data_files area) (set (paths live)) held min_age"
  have listed: "(p, dt_bytes f, dt_age f) \<in> set (list_data_files area)"
    using map_of_SomeD [OF assms(2)] by (force simp: list_data_files_def)
  then have planned: "p \<in> set (op_remove ?plan)"
    unfolding plan_orphan_cleanup_def using assms(3-6) by (intro orphan_planned [OF listed]) auto
  obtain r area' where sweep: "sweep_orphans io (op_remove ?plan) orphan_report_default area = (r, area')" by fastforce
  have "collect_orphans io held min_age d area = (r, area')"
    using assms(1) listed planned sweep by (auto simp: collect_orphans_def Let_def)
  then show ?thesis using sweep_removes_each [OF sweep planned assms(7)] by simp
qed

text \<open>
  The commit of a tick reads the log again for its version alone: when a writer has removed an input meanwhile, the merged file, which
  holds that input's rows, becomes live all the same.
\<close>

lemma merge_resurrects_removed_rows:
  assumes "well_logged (ti_codec io) d" "tr_merged r = [out]" "p \<in> set (mo_inputs out)" "p \<notin> set (live_paths (ti_codec io) d)"
    and "mo_output out \<notin> set (mo_inputs out)" "writes_commit (ti_codec io) (tick_actions now r)"
    and "tick_commit io now r d = (Inr (), d')"
  shows "mo_output out \<in> set (live_paths (ti_codec io) d')"
proof -
  obtain v u where "commit (ti_codec io) v (tick_actions now r) d = (Inr u, d')"
    using assms(2,7) by (auto simp: tick_commit_def commit_tick_def split: sum.splits prod.splits)
  from commit_logged [OF assms(1) this assms(6)]
  have live: "live_paths (ti_codec io) d' = fold path_step (tick_actions now r) (live_paths (ti_codec io) d)" by simp
  have kept: "mo_output out \<in> set (fold path_step (map (\<lambda>q. Remove (removal_rewritten q now)) qs) ps)"
    if "mo_output out \<in> set ps" "mo_output out \<notin> set qs" for qs ps
    using that by (induction qs arbitrary: ps) (auto simp: removal_rewritten_def)
  show ?thesis
    unfolding live using assms(2,5) by (auto simp: tick_actions_def merge_actions_def rewritten_add_def add_file_new_def intro!: kept)
qed

text \<open>A table of numbers, a file that a writer left behind, and the first tick, which sweeps it.\<close>

definition sample_io :: "nat table_io" where
  "sample_io =
     \<lparr>ti_codec = sample_codec, ti_pointer = (\<lambda>_ _ _. ''''), ti_statistics = (\<lambda>_. None), ti_encoded = (\<lambda>_ rows. of_nat (length rows)),
      ti_columns = (\<lambda>_. [''n'']), ti_sorted = (\<lambda>_. sort), ti_unwritable = (\<lambda>_. False), ti_stuck = (\<lambda>_. False)\<rparr>"

definition sample_maintainer :: maintainer where
  "sample_maintainer =
     maintainer_new (maintenance_policy_default\<lparr>mp_compact_every := 2, mp_min_age := 0, mp_orphan_sweep_every := 1\<rparr>)"

definition sample_file :: "nat data_file" where
  "sample_file = \<lparr>dt_schema = '''', dt_rows = [7], dt_bytes = 1, dt_age = 0, dt_sound = True\<rparr>"


end
