(* ===== verification/Cube_Hierarchy.thy ===== *)
theory Cube_Hierarchy
  imports Ordered_Maps
begin

text \<open>
  Consolidation paths: \<^verbatim>\<open>crates/sankhya-cube-algo/src/hierarchy.rs\<close>. A hierarchy is two maps of sets,
  parents and children; the recursive walk of the code is a function of the member and the path above it, which ends because
  no path repeats a member.
\<close>

subsection \<open>Hierarchies\<close>

record hierarchy =
  hi_parents :: "(string \<times> string set) list"
  hi_children :: "(string \<times> string set) list"

definition hierarchy_new :: hierarchy where
  "hierarchy_new = \<lparr>hi_parents = [], hi_children = []\<rparr>"

definition entry_of :: "(string \<times> string set) list \<Rightarrow> string \<Rightarrow> string set" where
  "entry_of t k = (case map_of t k of None \<Rightarrow> {} | Some s \<Rightarrow> s)"

definition rolls_up :: "string \<Rightarrow> string \<Rightarrow> hierarchy \<Rightarrow> hierarchy" where
  "rolls_up child parent h =
     \<lparr>hi_parents = bt_insert child (insert parent (entry_of (hi_parents h) child)) (hi_parents h),
      hi_children = bt_insert parent (insert child (entry_of (hi_children h) parent)) (hi_children h)\<rparr>"

definition members :: "hierarchy \<Rightarrow> string set" where
  "members h = set (map fst (hi_parents h)) \<union> set (map fst (hi_children h))"

definition parents_of :: "hierarchy \<Rightarrow> string \<Rightarrow> string set" where
  "parents_of h m = entry_of (hi_parents h) m"

definition children_of :: "hierarchy \<Rightarrow> string \<Rightarrow> string set" where
  "children_of h m = entry_of (hi_children h) m"

definition leaves :: "hierarchy \<Rightarrow> string set" where
  "leaves h = Set.filter (\<lambda>m. children_of h m = {}) (members h)"

definition roots :: "hierarchy \<Rightarrow> string set" where
  "roots h = Set.filter (\<lambda>m. map_of (hi_parents h) m = None) (members h)"

definition name_of :: "hierarchy \<Rightarrow> string \<Rightarrow> string" where
  "name_of h m = (if map_of (hi_children h) m \<noteq> None \<or> map_of (hi_parents h) m \<noteq> None then m else [])"

datatype cyclic = Cyclic "string list"

text \<open>The children are visited in the order of their names. The measure is the parents not yet on the path.\<close>

lemma children_of_key: "children_of h m \<noteq> {} \<Longrightarrow> m \<in> set (map fst (hi_children h))"
  by (auto simp: children_of_def entry_of_def split: option.splits dest: map_of_SomeD intro: rev_image_eqI)

function walk :: "hierarchy \<Rightarrow> string \<Rightarrow> string set \<Rightarrow> string list \<Rightarrow> cyclic + string set"
  and walk_all :: "hierarchy \<Rightarrow> string list \<Rightarrow> string set \<Rightarrow> string list \<Rightarrow> cyclic + string set" where
  "walk h m reached on_path =
     (if m \<in> set on_path then Inl (Cyclic (on_path @ [m]))
      else if children_of h m = {} then Inr (insert m reached)
      else walk_all h (sorted_list_of_set (children_of h m)) reached (on_path @ [m]))"
| "walk_all h [] reached on_path = Inr reached"
| "walk_all h (c # cs) reached on_path =
     (case walk h (name_of h c) reached on_path of
        Inl e \<Rightarrow> Inl e
      | Inr reached \<Rightarrow> walk_all h cs reached on_path)"
  by pat_completeness auto
termination
proof (relation "measures
    [\<lambda>x. case x of Inl (h, m, r, p) \<Rightarrow> card (set (map fst (hi_children h)) - set p) | Inr (h, cs, r, p) \<Rightarrow> card (set (map fst (hi_children h)) - set p),
     \<lambda>x. case x of Inl _ \<Rightarrow> 0 | Inr (h, cs, r, p) \<Rightarrow> Suc (length cs)]", goal_cases)
  case (2 h m r p)
  have "set (map fst (hi_children h)) - set (p @ [m]) \<subset> set (map fst (hi_children h)) - set p"
    using 2 children_of_key [of h m] by auto
  then have "card (set (map fst (hi_children h)) - set (p @ [m])) < card (set (map fst (hi_children h)) - set p)"
    by (intro psubset_card_mono) simp_all
  then show ?case by simp
qed simp_all

definition consolidates :: "hierarchy \<Rightarrow> string \<Rightarrow> cyclic + string set" where
  "consolidates h m = (if name_of h m = [] then Inr {} else walk h (name_of h m) {} [])"

fun consolidate_each :: "hierarchy \<Rightarrow> string list \<Rightarrow> cyclic + unit" where
  "consolidate_each h [] = Inr ()"
| "consolidate_each h (m # ms) =
     (case consolidates h m of Inl e \<Rightarrow> Inl e | Inr _ \<Rightarrow> consolidate_each h ms)"

definition validate_hierarchy :: "hierarchy \<Rightarrow> cyclic + unit" where
  "validate_hierarchy h =
     (case consolidate_each h (sorted_list_of_set (roots h)) of
        Inl e \<Rightarrow> Inl e
      | Inr _ \<Rightarrow>
          if roots h = {} \<and> members h \<noteq> {} then consolidate_each h (sorted_list_of_set (members h)) else Inr ())"

text \<open>\<open>paths_to\<close> does not end below a cycle. The sum over a list of members, which share the leaf.\<close>

partial_function (option) paths_sum :: "hierarchy \<Rightarrow> string \<Rightarrow> string list \<Rightarrow> nat option" where
  "paths_sum h leaf ms =
     (case ms of
        [] \<Rightarrow> Some 0
      | m # ms \<Rightarrow>
          Option.bind (if m = leaf then Some 1 else paths_sum h leaf (sorted_list_of_set (children_of h m)))
            (\<lambda>n. Option.bind (paths_sum h leaf ms) (\<lambda>k. Some (n + k))))"

declare paths_sum.simps [code]

definition paths_to :: "hierarchy \<Rightarrow> string \<Rightarrow> string \<Rightarrow> nat option" where
  "paths_to h m leaf = paths_sum h leaf [m]"

subsection \<open>What a list of relationships declares\<close>

definition hierarchy_of :: "(string \<times> string) list \<Rightarrow> hierarchy" where
  "hierarchy_of es = fold (\<lambda>(child, parent). rolls_up child parent) es hierarchy_new"

definition below :: "(string \<times> string) set \<Rightarrow> (string \<times> string) set" where
  "below es = {(p, c). (c, p) \<in> es}"

definition declares :: "hierarchy \<Rightarrow> (string \<times> string) set \<Rightarrow> bool" where
  "declares h es \<longleftrightarrow> finite es \<and> bt_ordered (hi_parents h) \<and> bt_ordered (hi_children h) \<and>
     (\<forall>c. map_of (hi_parents h) c = (if c \<in> fst ` es then Some {p. (c, p) \<in> es} else None)) \<and>
     (\<forall>p. map_of (hi_children h) p = (if p \<in> snd ` es then Some {c. (c, p) \<in> es} else None))"

lemma entry_of_keys: "entry_of t k = (if map_of t k = None then {} else the (map_of t k))"
  by (simp add: entry_of_def split: option.splits)

lemma declares_rolls_up: "declares h es \<Longrightarrow> declares (rolls_up c p h) (insert (c, p) es)"
  unfolding declares_def rolls_up_def
  by (auto simp: entry_of_keys image_iff)

lemma declares_hierarchy_of: "declares (hierarchy_of es) (set es)"
proof -
  have "declares (fold (\<lambda>(c, p). rolls_up c p) es h) (set es \<union> fs)" if "declares h fs" for h fs
    using that
  proof (induction es arbitrary: h fs)
    case (Cons e es)
    then have "declares (rolls_up (fst e) (snd e) h) (insert e fs)" using declares_rolls_up by (metis prod.collapse)
    from Cons.IH [OF this] show ?case by (simp add: split_beta)
  qed simp
  from this [of hierarchy_new "{}"] show ?thesis
    by (simp add: hierarchy_of_def declares_def hierarchy_new_def)
qed

lemma declared:
  assumes "declares h es"
  shows "children_of h p = {c. (p, c) \<in> below es}" "parents_of h c = {p. (p, c) \<in> below es}"
    "members h = fst ` es \<union> snd ` es" "finite (children_of h p)" "roots h = snd ` es - fst ` es"
    "leaves h = fst ` es \<union> snd ` es - Domain (below es)"
    "name_of h m = (if m \<in> fst ` es \<union> snd ` es then m else [])"
proof -
  have P: "map_of (hi_parents h) c = (if c \<in> fst ` es then Some {p. (c, p) \<in> es} else None)"
    and C: "map_of (hi_children h) p = (if p \<in> snd ` es then Some {c. (c, p) \<in> es} else None)" for c p
    using assms by (simp_all add: declares_def)
  show children: "children_of h p = {c. (p, c) \<in> below es}" for p
    by (auto simp: children_of_def entry_of_keys C below_def image_iff)
  show "parents_of h c = {p. (p, c) \<in> below es}" by (auto simp: parents_of_def entry_of_keys P below_def image_iff)
  have "set (map fst (hi_parents h)) = fst ` es" "set (map fst (hi_children h)) = snd ` es"
    using P C by (metis (no_types, lifting) map_of_eq_None_iff option.distinct(1) set_map subsetI subset_antisym)+
  then show members: "members h = fst ` es \<union> snd ` es" by (simp only: members_def)
  have "{c. (p, c) \<in> below es} \<subseteq> fst ` es" by (force simp: below_def)
  moreover have "finite es" using assms by (simp add: declares_def)
  ultimately show "finite (children_of h p)" unfolding children by (meson finite_imageI finite_subset)
  show "roots h = snd ` es - fst ` es" by (auto simp: roots_def members P split: if_splits)
  show "leaves h = fst ` es \<union> snd ` es - Domain (below es)" by (auto simp: leaves_def members children)
  show "name_of h m = (if m \<in> fst ` es \<union> snd ` es then m else [])" by (simp add: name_of_def P C)
qed

subsection \<open>The walk\<close>

definition sound_below :: "(string \<times> string) set \<Rightarrow> string \<Rightarrow> bool" where
  "sound_below es m \<longleftrightarrow> (\<forall>x. (m, x) \<in> (below es)\<^sup>* \<longrightarrow> (x, x) \<notin> (below es)\<^sup>+)"

definition leaves_below :: "(string \<times> string) set \<Rightarrow> string \<Rightarrow> string set" where
  "leaves_below es m = {l. (m, l) \<in> (below es)\<^sup>*} - Domain (below es)"

lemma leaves_below_leaf: "m \<notin> Domain (below es) \<Longrightarrow> leaves_below es m = {m} \<and> sound_below es m"
  unfolding leaves_below_def sound_below_def
  by (auto elim: converse_rtranclE converse_tranclE)

lemma leaves_below_node:
  assumes "m \<in> Domain (below es)"
  shows "leaves_below es m = (\<Union>c \<in> below es `` {m}. leaves_below es c)"
  using assms unfolding leaves_below_def by (auto elim: converse_rtranclE intro: converse_rtrancl_into_rtrancl)

lemma sound_below_node:
  assumes "\<forall>c \<in> below es `` {m}. sound_below es c"
  shows "sound_below es m"
  unfolding sound_below_def
proof (intro allI impI notI)
  fix x assume x: "(m, x) \<in> (below es)\<^sup>*" "(x, x) \<in> (below es)\<^sup>+"
  then have "(m, x) \<in> (below es)\<^sup>+" by (metis rtranclD)
  then obtain c where "(m, c) \<in> below es" "(c, x) \<in> (below es)\<^sup>*" by (meson tranclD)
  then show False using assms x(2) by (auto simp: sound_below_def)
qed

lemma walk_Inr:
  "declares h es \<Longrightarrow> m \<in> fst ` es \<union> snd ` es \<Longrightarrow> walk h m r p = Inr r' \<Longrightarrow>
     r' = r \<union> leaves_below es m \<and> sound_below es m"
  "declares h es \<Longrightarrow> set cs \<subseteq> fst ` es \<union> snd ` es \<Longrightarrow> walk_all h cs r p = Inr r' \<Longrightarrow>
     r' = r \<union> (\<Union>c \<in> set cs. leaves_below es c) \<and> (\<forall>c \<in> set cs. sound_below es c)"
proof (induction h m r p and h cs r p arbitrary: r' and r' rule: walk_walk_all.induct)
  case (1 h m r p)
  have kids: "children_of h m = below es `` {m}" using declared(1) [OF 1(2)] by auto
  have off: "m \<notin> set p" using 1(4) by auto
  show ?case
  proof (cases "children_of h m = {}")
    case True
    then have "m \<notin> Domain (below es)" using kids by blast
    then show ?thesis using 1(4) off True leaves_below_leaf by simp
  next
    case False
    have "set (sorted_list_of_set (children_of h m)) = below es `` {m}"
      unfolding kids [symmetric] using declared(4) [OF 1(2)] by simp
    moreover have "below es `` {m} \<subseteq> fst ` es \<union> snd ` es" by (force simp: below_def)
    moreover have "walk_all h (sorted_list_of_set (children_of h m)) r (p @ [m]) = Inr r'" using 1(4) off False by simp
    ultimately have "r' = r \<union> (\<Union>c \<in> below es `` {m}. leaves_below es c) \<and> (\<forall>c \<in> below es `` {m}. sound_below es c)"
      using 1(1) [OF off False 1(2)] by simp
    moreover have "m \<in> Domain (below es)" using False kids by blast
    ultimately show ?thesis using leaves_below_node sound_below_node by blast
  qed
next
  case (3 h c cs r p)
  have c: "name_of h c = c" "c \<in> fst ` es \<union> snd ` es" using declared(7) [OF 3(3)] 3(4) by auto
  obtain r1 where one: "walk h c r p = Inr r1" "walk_all h cs r1 p = Inr r'"
    using 3(5) c(1) by (auto split: sum.splits)
  have "r1 = r \<union> leaves_below es c \<and> sound_below es c" using 3(1) [OF 3(3)] c one(1) by simp
  moreover have "r' = r1 \<union> (\<Union>c \<in> set cs. leaves_below es c) \<and> (\<forall>c \<in> set cs. sound_below es c)"
    using 3(2) [OF _ 3(3)] c one 3(4) by simp
  ultimately show ?case by auto
qed simp

text \<open>A refusal names a path from where the walk began that runs into itself.\<close>

definition closing_path :: "(string \<times> string) set \<Rightarrow> string list \<Rightarrow> bool" where
  "closing_path es c \<longleftrightarrow> successively (\<lambda>p c. (p, c) \<in> below es) c \<and> c \<noteq> [] \<and> last c \<in> set (butlast c)"

lemma walk_Inl:
  "declares h es \<Longrightarrow> m \<in> fst ` es \<union> snd ` es \<Longrightarrow> walk h m r p = Inl (Cyclic cyc) \<Longrightarrow>
     successively (\<lambda>p c. (p, c) \<in> below es) (p @ [m]) \<Longrightarrow> closing_path es cyc \<and> (\<exists>q. cyc = p @ m # q)"
  "declares h es \<Longrightarrow> set cs \<subseteq> below es `` {last p} \<Longrightarrow> p \<noteq> [] \<Longrightarrow> walk_all h cs r p = Inl (Cyclic cyc) \<Longrightarrow>
     successively (\<lambda>p c. (p, c) \<in> below es) p \<Longrightarrow> closing_path es cyc \<and> (\<exists>q. cyc = p @ q)"
proof (induction h m r p and h cs r p rule: walk_walk_all.induct)
  case (1 h m r p)
  show ?case
  proof (cases "m \<in> set p")
    case True
    then have "cyc = p @ [m]" using 1(4) by simp
    then show ?thesis using 1(5) True by (simp add: closing_path_def)
  next
    case False
    have some: "children_of h m \<noteq> {}" using 1(4) False by auto
    have "set (sorted_list_of_set (children_of h m)) = below es `` {m}"
      using declared(1,4) [OF 1(2)] by auto
    moreover have "walk_all h (sorted_list_of_set (children_of h m)) r (p @ [m]) = Inl (Cyclic cyc)"
      using 1(4) False some by simp
    ultimately show ?thesis using 1(1) [OF False some 1(2)] 1(5) by simp
  qed
next
  case (3 h c cs r p)
  have "c \<in> fst ` es \<union> snd ` es" using 3(4) by (force simp: below_def)
  moreover from this have c: "name_of h c = c" using declared(7) [OF 3(3)] by simp
  moreover have "successively (\<lambda>p c. (p, c) \<in> below es) (p @ [c])"
    using 3(4,5,7) by (simp add: successively_append_iff)
  ultimately show ?case using 3 by (auto split: sum.splits)
qed simp

lemma closing_path_cycle:
  assumes "closing_path es c"
  shows "\<not> sound_below es (hd c)"
proof -
  obtain a x b where c: "c = a @ x # b @ [x]"
  proof -
    obtain d where "c = d @ [last c]" "last c \<in> set d"
      using assms by (metis append_butlast_last_id closing_path_def)
    then show thesis using that by (metis append.assoc append_Cons split_list)
  qed
  have steps: "(hd (y # ys), last (y # ys)) \<in> (below es)\<^sup>*" if "successively (\<lambda>p c. (p, c) \<in> below es) (y # ys)" for y ys
    using that by (induction ys arbitrary: y) (auto intro: converse_rtrancl_into_rtrancl)
  have succ: "successively (\<lambda>p c. (p, c) \<in> below es) c" using assms by (simp add: closing_path_def)
  have "successively (\<lambda>p c. (p, c) \<in> below es) (a @ [x])"
    using succ unfolding c by (auto simp: successively_append_iff successively_Cons)
  then have "(hd c, x) \<in> (below es)\<^sup>*" using steps unfolding c by (cases a) force+
  moreover have "(x, x) \<in> (below es)\<^sup>+"
  proof -
    have "successively (\<lambda>p c. (p, c) \<in> below es) (x # b @ [x])"
      using succ unfolding c by (simp add: successively_append_iff)
    then obtain y ys where "b @ [x] = y # ys" "(x, y) \<in> below es" "successively (\<lambda>p c. (p, c) \<in> below es) (y # ys)"
      by (cases "b @ [x]") auto
    then show ?thesis using steps by (metis last_snoc list.sel(1) rtrancl_into_trancl2)
  qed
  ultimately show ?thesis by (auto simp: sound_below_def)
qed

lemma consolidates_iff:
  assumes "declares h es" "m \<in> fst ` es \<union> snd ` es" "m \<noteq> []"
  shows "consolidates h m = Inr s \<longleftrightarrow> sound_below es m \<and> s = leaves_below es m"
    "consolidates h m = Inl (Cyclic c) \<Longrightarrow> closing_path es c \<and> hd c = m"
proof -
  have walks: "consolidates h m = walk h m {} []" using assms(2,3) declared(7) [OF assms(1)] by (simp add: consolidates_def)
  have refused: "closing_path es c \<and> hd c = m" if "consolidates h m = Inl (Cyclic c)" for c
    using walk_Inl(1) [OF assms(1,2) that [unfolded walks]] by auto
  then show "consolidates h m = Inl (Cyclic c) \<Longrightarrow> closing_path es c \<and> hd c = m" .
  have given: "s = leaves_below es m \<and> sound_below es m" if "consolidates h m = Inr s" for s
    using walk_Inr(1) [OF assms(1,2) that [unfolded walks]] by simp
  show "consolidates h m = Inr s \<longleftrightarrow> sound_below es m \<and> s = leaves_below es m"
  proof
    assume "sound_below es m \<and> s = leaves_below es m"
    then show "consolidates h m = Inr s"
    proof (cases "consolidates h m")
      case (Inl e)
      then obtain c where "consolidates h m = Inl (Cyclic c)" by (cases e) simp
      then show ?thesis using refused closing_path_cycle \<open>sound_below es m \<and> s = leaves_below es m\<close> by blast
    qed (use given in \<open>auto simp: \<open>sound_below es m \<and> s = leaves_below es m\<close>\<close>)
  qed (use given in blast)
qed

text \<open>
  C39: A consolidation is over members, not paths: it returns exactly the leaves reachable below the member, each once, and does so
  exactly when no member on the way lies on a cycle; otherwise it names a path of declared roll-ups, from the member down, that ends
  where it has been before. It returns on every hierarchy.
\<close>

theorem consolidation_counts_leaves_once:
  assumes "m \<in> fst ` set es \<union> snd ` set es" "m \<noteq> []"
  shows "(consolidates (hierarchy_of es) m = Inr s \<longleftrightarrow>
      (\<forall>x. (m, x) \<in> (below (set es))\<^sup>* \<longrightarrow> (x, x) \<notin> (below (set es))\<^sup>+) \<and>
      s = {l. (m, l) \<in> (below (set es))\<^sup>*} - Domain (below (set es))) \<and>
    (consolidates (hierarchy_of es) m = Inl (Cyclic c) \<longrightarrow>
      successively (\<lambda>p c. (p, c) \<in> below (set es)) c \<and> c \<noteq> [] \<and> hd c = m \<and> last c \<in> set (butlast c))"
  using consolidates_iff [OF declares_hierarchy_of assms]
  unfolding sound_below_def leaves_below_def closing_path_def by blast

text \<open>A product in two categories of one range, counted once; and a cycle.\<close>

lemma sample_hierarchy:
  "consolidates (hierarchy_of [(''p'', ''a''), (''p'', ''b''), (''a'', ''r''), (''b'', ''r'')]) ''r'' = Inr {''p''}"
  "paths_to (hierarchy_of [(''p'', ''a''), (''p'', ''b''), (''a'', ''r''), (''b'', ''r'')]) ''r'' ''p'' = Some 2"
  "consolidates (hierarchy_of [(''b'', ''a''), (''a'', ''b''), (''a'', ''r'')]) ''r'' = Inl (Cyclic [''r'', ''a'', ''b'', ''a''])"
  by code_simp+

theorem consolidation_counts_leaves_once_witness:
  "\<exists>es m. {l. (m, l) \<in> (below (set es))\<^sup>*} - Domain (below (set es)) = {''p''} \<and> (m, m) \<notin> (below (set es))\<^sup>+"
proof -
  let ?es = "[(''p'', ''a''), (''p'', ''b''), (''a'', ''r''), (''b'', ''r'')]"
  have "(\<forall>x. (''r'', x) \<in> (below (set ?es))\<^sup>* \<longrightarrow> (x, x) \<notin> (below (set ?es))\<^sup>+) \<and>
      {''p''} = {l. (''r'', l) \<in> (below (set ?es))\<^sup>*} - Domain (below (set ?es))"
    using consolidation_counts_leaves_once [of "''r''" ?es "{''p''}" "[]"] sample_hierarchy(1) by simp
  then show ?thesis by (intro exI [of _ ?es] exI [of _ "''r''"]) auto
qed

subsection \<open>Validation\<close>

lemma consolidate_each_ok:
  "consolidate_each h ms = Inr () \<longleftrightarrow> (\<forall>m \<in> set ms. \<exists>s. consolidates h m = Inr s)"
  by (induction ms) (auto split: sum.splits)

text \<open>
  Validation looks below the roots, and at every member when there is no root: a cycle that no root leads to is missed as soon as the
  hierarchy has a root at all, and is met by a query instead.
\<close>

lemma detached_cycle_validates:
  "validate_hierarchy (hierarchy_of [(''a'', ''r''), (''b'', ''c''), (''c'', ''b'')]) = Inr ()"
  "consolidates (hierarchy_of [(''a'', ''r''), (''b'', ''c''), (''c'', ''b'')]) ''b'' = Inl (Cyclic [''b'', ''c'', ''b''])"
  by code_simp+

lemma validated_below_roots:
  assumes "validate_hierarchy (hierarchy_of es) = Inr ()" "r \<in> roots (hierarchy_of es)" "r \<noteq> []"
  shows "sound_below (set es) r"
proof -
  note d = declares_hierarchy_of [of es]
  have "finite (roots (hierarchy_of es))" unfolding declared(5) [OF d] by simp
  moreover have "consolidate_each (hierarchy_of es) (sorted_list_of_set (roots (hierarchy_of es))) = Inr ()"
    using assms(1) by (auto simp: validate_hierarchy_def split: sum.splits)
  ultimately obtain s where "consolidates (hierarchy_of es) r = Inr s" using assms(2) by (auto simp: consolidate_each_ok)
  moreover have "r \<in> fst ` set es \<union> snd ` set es" using assms(2) unfolding declared(5) [OF d] by blast
  ultimately show ?thesis using consolidates_iff(1) [OF d _ assms(3)] by blast
qed

end
