(* ===== verification/Cube_Lattice.thy ===== *)
theory Cube_Lattice
  imports Complex_Main Prelude
begin

text \<open>
  Cuboids: \<^verbatim>\<open>crates/sankhya-cube-algo/src/measure.rs\<close>, \<^verbatim>\<open>ancestor.rs\<close> and
  \<^verbatim>\<open>lattice.rs\<close>. Which roll-ups a measure permits, and the greedy selection of the cuboids to keep. A cuboid is
  its sorted list of dimensions.
\<close>

subsection \<open>Measures\<close>

datatype combining = R_Sum | R_Last | R_First | R_Max | R_Min | R_Mean | R_Supplied bool | R_None

definition composes :: "combining \<Rightarrow> bool" where
  "composes r \<longleftrightarrow> r \<in> {R_Sum, R_Last, R_First, R_Max, R_Min} \<or> r = R_Supplied True"

record along =
  al_dimension :: string
  al_rule :: combining
  al_supplied :: "string option"

record cube_measure =
  me_name :: string
  me_rules :: "along list"

definition along_new :: "string \<Rightarrow> combining \<Rightarrow> along" where
  "along_new d r = \<lparr>al_dimension = d, al_rule = r, al_supplied = None\<rparr>"

definition by_aggregation :: "string \<Rightarrow> string \<Rightarrow> bool \<Rightarrow> along" where
  "by_aggregation d n c = \<lparr>al_dimension = d, al_rule = R_Supplied c, al_supplied = Some n\<rparr>"

definition rule_along :: "cube_measure \<Rightarrow> string \<Rightarrow> combining option" where
  "rule_along m d = map_option al_rule (List.find (\<lambda>a. al_dimension a = d) (me_rules m))"

datatype undeclared = Undeclared string "string list"

definition covers_dimensions :: "cube_measure \<Rightarrow> string list \<Rightarrow> undeclared + unit" where
  "covers_dimensions m ds =
     (let missing = filter (\<lambda>d. rule_along m d = None) ds in
      if missing = [] then Inr () else Inl (Undeclared (me_name m) missing))"

definition additive_everywhere :: "cube_measure \<Rightarrow> bool" where
  "additive_everywhere m \<longleftrightarrow> me_rules m \<noteq> [] \<and> list_all (\<lambda>a. al_rule a = R_Sum) (me_rules m)"

definition not_additive_along :: "cube_measure \<Rightarrow> string list" where
  "not_additive_along m = map al_dimension (filter (\<lambda>a. al_rule a \<noteq> R_Sum) (me_rules m))"

subsection \<open>Roll-ups\<close>

datatype answerable = Answer_Yes | Answer_No string string combining | Answer_Undeclared string string

definition answer_permitted :: "answerable \<Rightarrow> bool" where
  "answer_permitted a \<longleftrightarrow> a = Answer_Yes"

fun answerable_from :: "cube_measure \<Rightarrow> string list \<Rightarrow> answerable" where
  "answerable_from m [] = Answer_Yes"
| "answerable_from m (d # ds) =
     (case rule_along m d of
        None \<Rightarrow> Answer_Undeclared (me_name m) d
      | Some r \<Rightarrow> if \<not> composes r then Answer_No (me_name m) d r else answerable_from m ds)"

definition rolled_away :: "string list \<Rightarrow> string list \<Rightarrow> string list option" where
  "rolled_away query materialised =
     (if list_ex (\<lambda>d. d \<notin> set materialised) query then None
      else Some (filter (\<lambda>d. d \<notin> set query) materialised))"

subsection \<open>Cuboids and the lattice\<close>

type_synonym cuboid = "string list"

definition cuboid_of :: "string list \<Rightarrow> cuboid" where
  "cuboid_of ds = sorted_list_of_set (set ds)"

definition cuboid_width :: "cuboid \<Rightarrow> nat" where
  "cuboid_width c = length c"

definition answers :: "cuboid \<Rightarrow> cuboid \<Rightarrow> cube_measure \<Rightarrow> bool" where
  "answers held query m =
     (case rolled_away query held of None \<Rightarrow> False | Some away \<Rightarrow> answer_permitted (answerable_from m away))"

definition lattice_over :: "cuboid list \<Rightarrow> cuboid list" where
  "lattice_over cs = remdups_adj (sort cs)"

text \<open>The shift of a 32-bit integer, as a release build does it: a debug build stops at the 33rd dimension instead.\<close>

definition in_mask :: "nat \<Rightarrow> nat \<Rightarrow> bool" where
  "in_mask bits i \<longleftrightarrow> odd (bits div 2 ^ (i mod 32))"

definition lattice_all :: "string list \<Rightarrow> cuboid list" where
  "lattice_all ds =
     lattice_over (map (\<lambda>bits. cuboid_of (map snd (filter (\<lambda>(i, _). in_mask bits i) (enumerate 0 ds))))
       [0..<2 ^ min (length ds) 20])"

subsection \<open>Selection\<close>

record chosen =
  ch_cuboid :: cuboid
  ch_benefit :: u64
  ch_cost :: u64

definition worth_more :: "u64 \<Rightarrow> u64 \<Rightarrow> u64 \<Rightarrow> u64 \<Rightarrow> bool" where
  "worth_more gain price than_gain than_price \<longleftrightarrow>
     (ucast gain :: u128) * ucast (max than_price 1) > ucast than_gain * ucast (max price 1)"

text \<open>What a selection is given: the lattice, the queries, the measure, the rows of a cuboid, the budget, and the base cuboid.\<close>

record selecting =
  se_lattice :: "cuboid list"
  se_queries :: "cuboid list"
  se_measure :: cube_measure
  se_rows :: "cuboid \<Rightarrow> u64"
  se_budget :: u64
  se_base :: cuboid

definition current_cost :: "selecting \<Rightarrow> cuboid list \<Rightarrow> cuboid \<Rightarrow> u64" where
  "current_cost s held query =
     (case iter_min (map (se_rows s) (filter (\<lambda>h. answers h query (se_measure s)) (held @ [se_base s]))) of
        None \<Rightarrow> se_rows s (se_base s)
      | Some n \<Rightarrow> n)"

definition benefit :: "selecting \<Rightarrow> cuboid list \<Rightarrow> cuboid \<Rightarrow> u64" where
  "benefit s held candidate =
     fold (\<lambda>query saved.
             if \<not> answers candidate query (se_measure s) then saved
             else word_saturating_add saved (word_saturating_sub (current_cost s held query) (se_rows s candidate)))
       (se_queries s) 0"

text \<open>One candidate of a round, and the best of them: a later one replaces an earlier only if it is worth more.\<close>

definition offer :: "selecting \<Rightarrow> u64 \<Rightarrow> cuboid list \<Rightarrow> cuboid \<Rightarrow> chosen option" where
  "offer s spent held candidate =
     (if candidate = se_base s \<or> candidate \<in> set held then None
      else if word_saturating_add spent (se_rows s candidate) > se_budget s then None
      else (let gain = benefit s held candidate in
            if gain = 0 then None
            else Some \<lparr>ch_cuboid = candidate, ch_benefit = gain, ch_cost = se_rows s candidate\<rparr>))"

definition prefer_offer :: "chosen option \<Rightarrow> chosen option \<Rightarrow> chosen option" where
  "prefer_offer new best =
     (case new of
        None \<Rightarrow> best
      | Some x \<Rightarrow>
          (case best of
             None \<Rightarrow> Some x
           | Some y \<Rightarrow> if worth_more (ch_benefit x) (ch_cost x) (ch_benefit y) (ch_cost y) then Some x else Some y))"

definition best_offer :: "selecting \<Rightarrow> u64 \<Rightarrow> cuboid list \<Rightarrow> chosen option" where
  "best_offer s spent held = fold (\<lambda>c best. prefer_offer (offer s spent held c) best) (se_lattice s) None"

lemma offer_Some:
  "offer s spent held x = Some c \<longleftrightarrow>
     c = \<lparr>ch_cuboid = x, ch_benefit = benefit s held x, ch_cost = se_rows s x\<rparr> \<and> x \<noteq> se_base s \<and> x \<notin> set held \<and>
     word_saturating_add spent (se_rows s x) \<le> se_budget s \<and> benefit s held x \<noteq> 0"
  by (auto simp: offer_def Let_def)

lemma best_offer_in:
  "fold (\<lambda>c best. prefer_offer (offer s spent held c) best) cs b = Some x \<Longrightarrow>
     b = Some x \<or> ch_cuboid x \<in> set cs \<and> offer s spent held (ch_cuboid x) = Some x"
proof (induction cs arbitrary: b)
  case (Cons c cs)
  have "prefer_offer (offer s spent held c) b = b \<or>
      (\<exists>y. offer s spent held c = Some y \<and> ch_cuboid y = c \<and> prefer_offer (offer s spent held c) b = Some y)"
    by (auto simp: prefer_offer_def offer_def Let_def split: option.splits)
  then show ?case using Cons.IH [of "prefer_offer (offer s spent held c) b"] Cons.prems by auto
qed simp

function select_loop :: "selecting \<Rightarrow> u64 \<Rightarrow> chosen list \<Rightarrow> chosen list" where
  "select_loop s spent kept =
     (case best_offer s spent (map ch_cuboid kept) of
        None \<Rightarrow> kept
      | Some winner \<Rightarrow> select_loop s (word_saturating_add spent (ch_cost winner)) (kept @ [winner]))"
  by pat_completeness auto
termination
proof (relation "measure (\<lambda>(s, spent, kept). card (set (se_lattice s) - ch_cuboid ` set kept))", goal_cases)
  case (2 s spent kept x)
  have "ch_cuboid x \<in> set (se_lattice s)" "ch_cuboid x \<notin> ch_cuboid ` set kept"
    using best_offer_in [OF 2 [unfolded best_offer_def]] by (auto simp: offer_def split: if_splits)
  then have "set (se_lattice s) - ch_cuboid ` set (kept @ [x]) \<subset> set (se_lattice s) - ch_cuboid ` set kept" by auto
  then show ?case by (auto intro: psubset_card_mono)
qed simp

definition select_cuboids :: "selecting \<Rightarrow> chosen list" where
  "select_cuboids s = select_loop s 0 []"

declare select_loop.simps [simp del]

subsection \<open>What a roll-up is permitted on\<close>

lemma answerable_from_Yes: "answerable_from m ds = Answer_Yes \<longleftrightarrow> (\<forall>d \<in> set ds. \<exists>r. rule_along m d = Some r \<and> composes r)"
  by (induction ds) (auto split: option.splits)

lemma answers_iff:
  "answers held query m \<longleftrightarrow>
     set query \<subseteq> set held \<and> (\<forall>d \<in> set held - set query. \<exists>r. rule_along m d = Some r \<and> composes r)"
  by (auto simp: answers_def rolled_away_def answer_permitted_def answerable_from_Yes list_ex_iff)

lemma unat_u64: "unat (a :: u64) \<le> 2 ^ 64 - 1"
proof -
  have "unat a < 2 ^ LENGTH(64)" by (rule unsigned_less)
  then show ?thesis by simp
qed

lemma worth_more_iff:
  "worth_more g p h q \<longleftrightarrow> unat h * max (unat p) 1 < unat g * max (unat q) 1"
proof -
  have big: "unat (a :: u64) * max (unat (b :: u64)) 1 < 2 ^ 128" for a b
  proof -
    have "unat a * max (unat b) 1 \<le> (2 ^ 64 - 1) * (2 ^ 64 - 1)"
      using unat_u64 [of a] unat_u64 [of b] by (intro mult_le_mono) simp_all
    then show ?thesis by simp
  qed
  have one: "unat (max b 1) = max (unat b) 1" for b :: u64
    by (auto simp: max_def word_le_nat_alt)
  have "unat (ucast a * ucast (max b 1) :: u128) = unat a * max (unat b) 1" for a b :: u64
  proof -
    have "unat a < 2 ^ 128" "max (unat b) 1 < 2 ^ 128" using unat_u64 [of a] unat_u64 [of b] by simp_all
    then show ?thesis using big [of a b] by (simp add: unat_word_ariths unsigned_ucast_eq take_bit_nat_eq_self one)
  qed
  then show ?thesis by (simp add: worth_more_def word_less_nat_alt)
qed

definition ratio :: "chosen \<Rightarrow> real" where
  "ratio c = real (unat (ch_benefit c)) / real (max (unat (ch_cost c)) 1)"

lemma worth_more_ratio: "worth_more (ch_benefit x) (ch_cost x) (ch_benefit y) (ch_cost y) \<longleftrightarrow> ratio y < ratio x"
proof -
  have "unat (ch_benefit y) * max (unat (ch_cost x)) 1 < unat (ch_benefit x) * max (unat (ch_cost y)) 1 \<longleftrightarrow>
      real (unat (ch_benefit y)) * real (max (unat (ch_cost x)) 1) < real (unat (ch_benefit x)) * real (max (unat (ch_cost y)) 1)"
    by (simp only: of_nat_mult [symmetric] of_nat_less_iff)
  then show ?thesis unfolding worth_more_iff ratio_def
    by (subst frac_less_eq) (auto simp: field_simps)
qed


subsection \<open>What is selected\<close>

lemma best_offer_Some:
  "fold (\<lambda>c best. prefer_offer (offer s spent held c) best) cs b = Some x \<Longrightarrow>
     (\<forall>y. b = Some y \<longrightarrow> ratio y \<le> ratio x) \<and> (\<forall>c \<in> set cs. \<forall>y. offer s spent held c = Some y \<longrightarrow> ratio y \<le> ratio x)"
proof (induction cs arbitrary: b)
  case (Cons c cs)
  define b' where "b' = prefer_offer (offer s spent held c) b"
  have IH: "(\<forall>y. b' = Some y \<longrightarrow> ratio y \<le> ratio x) \<and> (\<forall>c \<in> set cs. \<forall>y. offer s spent held c = Some y \<longrightarrow> ratio y \<le> ratio x)"
    using Cons by (simp add: b'_def)
  have "\<exists>z. b' = Some z \<and> ratio y \<le> ratio z" if "b = Some y \<or> offer s spent held c = Some y" for y
    using that by (cases b; cases "offer s spent held c") (auto simp: b'_def prefer_offer_def worth_more_ratio)
  then show ?case using IH by fastforce
qed simp

lemma best_offer_None:
  "fold (\<lambda>c best. prefer_offer (offer s spent held c) best) cs b = None \<longleftrightarrow> b = None \<and> (\<forall>c \<in> set cs. offer s spent held c = None)"
proof (induction cs arbitrary: b)
  case (Cons c cs)
  have "prefer_offer (offer s spent held c) b = None \<longleftrightarrow> b = None \<and> offer s spent held c = None"
    by (auto simp: prefer_offer_def split: option.splits)
  then show ?case using Cons by auto
qed simp

definition spent_on :: "chosen list \<Rightarrow> u64" where
  "spent_on cs = fold (\<lambda>c n. word_saturating_add n (ch_cost c)) cs 0"

lemma spent_on_snoc [simp]: "spent_on [] = 0" "spent_on (cs @ [c]) = word_saturating_add (spent_on cs) (ch_cost c)"
  by (simp_all add: spent_on_def)

lemma unat_spent_on: "unat (spent_on cs) = min (sum_list (map (unat \<circ> ch_cost) cs)) (2 ^ 64 - 1)"
  by (induction cs rule: rev_induct) (auto simp: unat_saturating_add)

text \<open>Each round takes an offer of the best ratio, and the last round has none.\<close>

definition greedy :: "selecting \<Rightarrow> chosen list \<Rightarrow> bool" where
  "greedy s cs \<longleftrightarrow>
     (\<forall>pre c post. cs = pre @ c # post \<longrightarrow>
        ch_cuboid c \<in> set (se_lattice s) \<and> offer s (spent_on pre) (map ch_cuboid pre) (ch_cuboid c) = Some c \<and>
        (\<forall>x \<in> set (se_lattice s). \<forall>y. offer s (spent_on pre) (map ch_cuboid pre) x = Some y \<longrightarrow> ratio y \<le> ratio c))"

lemma greedy_snoc:
  assumes "greedy s cs" "best_offer s (spent_on cs) (map ch_cuboid cs) = Some w"
  shows "greedy s (cs @ [w])"
proof -
  have last: "ch_cuboid w \<in> set (se_lattice s)" "offer s (spent_on cs) (map ch_cuboid cs) (ch_cuboid w) = Some w"
    "\<forall>x \<in> set (se_lattice s). \<forall>y. offer s (spent_on cs) (map ch_cuboid cs) x = Some y \<longrightarrow> ratio y \<le> ratio w"
    using best_offer_in [OF assms(2) [unfolded best_offer_def]] best_offer_Some [OF assms(2) [unfolded best_offer_def]] by auto
  show ?thesis
    unfolding greedy_def
  proof (intro allI impI)
    fix pre c post assume split: "cs @ [w] = pre @ c # post"
    show "ch_cuboid c \<in> set (se_lattice s) \<and> offer s (spent_on pre) (map ch_cuboid pre) (ch_cuboid c) = Some c \<and>
        (\<forall>x \<in> set (se_lattice s). \<forall>y. offer s (spent_on pre) (map ch_cuboid pre) x = Some y \<longrightarrow> ratio y \<le> ratio c)"
    proof (cases post rule: rev_cases)
      case Nil
      then show ?thesis using split last by simp
    next
      case (snoc post' z)
      then have "cs = pre @ c # post'" using split by simp
      then show ?thesis using assms(1) unfolding greedy_def by blast
    qed
  qed
qed

lemma select_loop_greedy:
  assumes "greedy s kept" "spent = spent_on kept"
  shows "greedy s (select_loop s spent kept) \<and>
    (\<forall>x \<in> set (se_lattice s). offer s (spent_on (select_loop s spent kept)) (map ch_cuboid (select_loop s spent kept)) x = None)"
  using assms
proof (induction s spent kept rule: select_loop.induct)
  case (1 s spent kept)
  show ?case
  proof (cases "best_offer s spent (map ch_cuboid kept)")
    case None
    then have "select_loop s spent kept = kept" by (subst select_loop.simps) simp
    then show ?thesis using 1(2,3) None by (simp add: best_offer_def best_offer_None)
  next
    case (Some w)
    have "greedy s (kept @ [w])" using greedy_snoc 1(2,3) Some by simp
    moreover have "word_saturating_add spent (ch_cost w) = spent_on (kept @ [w])" using 1(3) by simp
    moreover have "select_loop s spent kept = select_loop s (word_saturating_add spent (ch_cost w)) (kept @ [w])"
      using Some by (subst select_loop.simps) simp
    ultimately show ?thesis using 1(1) [OF Some] by simp
  qed
qed

lemma greedy_distinct: "greedy s cs \<Longrightarrow> distinct (map ch_cuboid cs) \<and> se_base s \<notin> set (map ch_cuboid cs)"
proof (induction cs rule: rev_induct)
  case (snoc c cs)
  have "greedy s cs" unfolding greedy_def
  proof (intro allI impI)
    fix pre d post assume "cs = pre @ d # post"
    then have "cs @ [c] = pre @ d # (post @ [c])" by simp
    with snoc.prems show "ch_cuboid d \<in> set (se_lattice s) \<and> offer s (spent_on pre) (map ch_cuboid pre) (ch_cuboid d) = Some d \<and>
        (\<forall>x \<in> set (se_lattice s). \<forall>y. offer s (spent_on pre) (map ch_cuboid pre) x = Some y \<longrightarrow> ratio y \<le> ratio d)"
      unfolding greedy_def by blast
  qed
  moreover have "offer s (spent_on cs) (map ch_cuboid cs) (ch_cuboid c) = Some c"
    using snoc.prems unfolding greedy_def by blast
  ultimately show ?case using snoc.IH by (auto simp: offer_def split: if_splits)
qed simp

lemma benefit_positive:
  assumes "benefit s held c \<noteq> 0"
  shows "\<exists>q \<in> set (se_queries s). answers c q (se_measure s) \<and> se_rows s c < current_cost s held q"
proof (rule ccontr)
  assume none: "\<not> ?thesis"
  have "fold (\<lambda>query saved. if \<not> answers c query (se_measure s) then saved
          else word_saturating_add saved (word_saturating_sub (current_cost s held query) (se_rows s c))) qs n = n"
    if "set qs \<subseteq> set (se_queries s)" for qs n
    using that
  proof (induction qs arbitrary: n)
    case (Cons q qs)
    have "word_saturating_add n (word_saturating_sub (current_cost s held q) (se_rows s c)) = n" if "answers c q (se_measure s)"
    proof -
      have "current_cost s held q \<le> se_rows s c" using none that Cons.prems by (metis list.set_intros(1) not_le subsetD)
      then have "unat (word_saturating_sub (current_cost s held q) (se_rows s c)) = 0"
        by (simp add: unat_saturating_sub word_le_nat_alt)
      then show ?thesis using unat_u64 [of n] by (intro word_unat_eq_iff [THEN iffD2]) (simp add: unat_saturating_add min_absorb1)
    qed
    then show ?case using Cons by simp
  qed simp
  from this [of "se_queries s" 0] show False using assms by (simp add: benefit_def)
qed

text \<open>
  C40: The selection returns; it keeps distinct cuboids of the lattice, never the base, whose rows together stay in the budget. Each is
  worth keeping when it is taken: some query asked for, which it holds the dimensions of and whose other dimensions the measure
  composes along, costs less from it than from what was there. None that was affordable then had a better ratio of benefit to cost, and in the
  end nothing affordable brings any benefit.
\<close>

theorem selection_is_greedy_and_legal:
  "let cs = select_cuboids s in
    distinct (map ch_cuboid cs) \<and> set (map ch_cuboid cs) \<subseteq> set (se_lattice s) - {se_base s} \<and>
    (cs \<noteq> [] \<longrightarrow> min (sum_list (map (unat \<circ> ch_cost) cs)) (2 ^ 64 - 1) \<le> unat (se_budget s)) \<and>
    (cs = pre @ c # post \<longrightarrow>
       ch_cost c = se_rows s (ch_cuboid c) \<and> ch_benefit c = benefit s (map ch_cuboid pre) (ch_cuboid c) \<and>
       (\<exists>q \<in> set (se_queries s). set q \<subseteq> set (ch_cuboid c) \<and> ch_cost c < current_cost s (map ch_cuboid pre) q \<and>
          (\<forall>d \<in> set (ch_cuboid c) - set q. \<exists>r. rule_along (se_measure s) d = Some r \<and> composes r)) \<and>
       (\<forall>x \<in> set (se_lattice s). \<forall>y. offer s (spent_on pre) (map ch_cuboid pre) x = Some y \<longrightarrow> ratio y \<le> ratio c)) \<and>
    (\<forall>x \<in> set (se_lattice s). offer s (spent_on cs) (map ch_cuboid cs) x = None)"
proof -
  define cs where "cs = select_cuboids s"
  have "greedy s []" by (simp add: greedy_def)
  from select_loop_greedy [OF this, of 0] have cs: "greedy s cs" "\<forall>x \<in> set (se_lattice s). offer s (spent_on cs) (map ch_cuboid cs) x = None"
    by (simp_all add: cs_def select_cuboids_def)
  have taken: "ch_cuboid c \<in> set (se_lattice s) \<and> offer s (spent_on pre) (map ch_cuboid pre) (ch_cuboid c) = Some c \<and>
      (\<forall>x \<in> set (se_lattice s). \<forall>y. offer s (spent_on pre) (map ch_cuboid pre) x = Some y \<longrightarrow> ratio y \<le> ratio c)"
    if "cs = pre @ c # post" for pre c post
    using cs(1) that unfolding greedy_def by blast
  have "set (map ch_cuboid cs) \<subseteq> set (se_lattice s) - {se_base s}"
    using greedy_distinct [OF cs(1)] taken by (auto dest!: split_list)
  moreover have "unat (spent_on cs) \<le> unat (se_budget s)" if some: "cs \<noteq> []"
  proof -
    obtain pre c where "cs = pre @ [c]" using some by (metis rev_exhaust)
    then have "offer s (spent_on pre) (map ch_cuboid pre) (ch_cuboid c) = Some c" using taken [of pre c "[]"] by simp
    then have "word_saturating_add (spent_on pre) (se_rows s (ch_cuboid c)) \<le> se_budget s" "ch_cost c = se_rows s (ch_cuboid c)"
      unfolding offer_Some by (metis, metis chosen.select_convs(3))
    then show ?thesis using \<open>cs = pre @ [c]\<close> by (simp add: word_le_nat_alt)
  qed
  moreover have "ch_cost c = se_rows s (ch_cuboid c) \<and> ch_benefit c = benefit s (map ch_cuboid pre) (ch_cuboid c) \<and>
       (\<exists>q \<in> set (se_queries s). set q \<subseteq> set (ch_cuboid c) \<and> ch_cost c < current_cost s (map ch_cuboid pre) q \<and>
          (\<forall>d \<in> set (ch_cuboid c) - set q. \<exists>r. rule_along (se_measure s) d = Some r \<and> composes r))"
    if "cs = pre @ c # post"
  proof -
    have "offer s (spent_on pre) (map ch_cuboid pre) (ch_cuboid c) = Some c" using taken [OF that] by simp
    then have off: "ch_cost c = se_rows s (ch_cuboid c)" "ch_benefit c = benefit s (map ch_cuboid pre) (ch_cuboid c)"
      "benefit s (map ch_cuboid pre) (ch_cuboid c) \<noteq> 0"
      unfolding offer_Some by (metis chosen.select_convs(3), metis chosen.select_convs(2), metis)
    then show ?thesis using benefit_positive [OF off(3)] by (auto simp: answers_iff)
  qed
  ultimately show ?thesis
    using greedy_distinct [OF cs(1)] cs(2) taken unfolding cs_def [symmetric] Let_def unat_spent_on by blast
qed

text \<open>Two candidates for one query, and the budget for one of them.\<close>

definition sample_selecting :: selecting where
  "sample_selecting =
     \<lparr>se_lattice = [[''a''], [''a'', ''b'']], se_queries = [[''a'']],
      se_measure = \<lparr>me_name = ''m'', me_rules = [along_new ''a'' R_Mean, along_new ''b'' R_Sum, along_new ''c'' R_Last]\<rparr>,
      se_rows = (\<lambda>c. of_nat (10 ^ length c)), se_budget = 15, se_base = [''a'', ''b'', ''c'']\<rparr>"

lemma sample_selected: "select_cuboids sample_selecting = [\<lparr>ch_cuboid = [''a''], ch_benefit = 990, ch_cost = 10\<rparr>]"
proof -
  let ?w = "\<lparr>ch_cuboid = [''a''], ch_benefit = 990, ch_cost = 10\<rparr>"
  note defs = sample_selecting_def along_new_def answers_def rolled_away_def answer_permitted_def rule_along_def composes_def
    current_cost_def iter_min_def word_saturating_sub_def word_saturating_add_def benefit_def offer_def prefer_offer_def word_le_nat_alt
  have "best_offer sample_selecting 0 [] = Some ?w" by (simp add: best_offer_def defs)
  moreover have "best_offer sample_selecting 10 [[''a'']] = None" by (simp add: best_offer_def defs)
  ultimately show ?thesis by (simp add: select_cuboids_def select_loop.simps [of _ 0] select_loop.simps [of _ 10] word_saturating_add_def)
qed

theorem selection_is_greedy_and_legal_witness:
  "distinct (map ch_cuboid (select_cuboids sample_selecting)) \<and>
     min (sum_list (map (unat \<circ> ch_cost) (select_cuboids sample_selecting))) (2 ^ 64 - 1) \<le> unat (se_budget sample_selecting) \<and>
     benefit sample_selecting [] [''a''] = 990"
proof -
  note claim = selection_is_greedy_and_legal [of sample_selecting "[]" "\<lparr>ch_cuboid = [''a''], ch_benefit = 990, ch_cost = 10\<rparr>" "[]", unfolded Let_def]
  then have "distinct (map ch_cuboid (select_cuboids sample_selecting))" by blast
  moreover have "select_cuboids sample_selecting \<noteq> []" by (simp add: sample_selected)
  then have "min (sum_list (map (unat \<circ> ch_cost) (select_cuboids sample_selecting))) (2 ^ 64 - 1) \<le> unat (se_budget sample_selecting)"
    using claim by blast
  moreover have "benefit sample_selecting [] [''a''] = 990" using claim sample_selected by auto
  ultimately show ?thesis by blast
qed

subsection \<open>The whole lattice\<close>

lemma set_lattice_over [simp]: "set (lattice_over cs) = set cs"
  by (simp add: lattice_over_def)

lemma in_mask_bit: "i < 32 \<Longrightarrow> in_mask bits i \<longleftrightarrow> bit bits i"
  by (simp add: in_mask_def bit_iff_odd)

lemma set_masked: "set (map snd (filter (\<lambda>(i, _). P i) (enumerate 0 ds))) = {ds ! i | i. i < length ds \<and> P i}"
  by (force simp: in_set_enumerate_eq image_iff)

text \<open>Up to twenty dimensions the lattice is every set of them.\<close>

lemma lattice_all_subsets:
  assumes "length ds \<le> 20"
  shows "set (lattice_all ds) = cuboid_of ` {es. set es \<subseteq> set ds}"
proof (intro set_eqI iffI)
  fix c assume "c \<in> set (lattice_all ds)"
  then obtain bits where c: "c = cuboid_of (map snd (filter (\<lambda>(i, _). in_mask bits i) (enumerate 0 ds)))"
    unfolding lattice_all_def set_lattice_over set_map by blast
  have "set (map snd (filter (\<lambda>(i, _). in_mask bits i) (enumerate 0 ds))) \<subseteq> set ds" unfolding set_masked by auto
  then show "c \<in> cuboid_of ` {es. set es \<subseteq> set ds}" unfolding c by blast
next
  fix c assume "c \<in> cuboid_of ` {es. set es \<subseteq> set ds}"
  then obtain es where es: "c = cuboid_of es" "set es \<subseteq> set ds" by blast
  define bits :: nat where "bits = horner_sum of_bool 2 (map (\<lambda>d. d \<in> set es) ds)"
  have "bits < 2 ^ min (length ds) 20"
    using horner_sum_of_bool_2_less [of "map (\<lambda>d. d \<in> set es) ds"] assms by (simp add: bits_def min_absorb1)
  moreover have "in_mask bits i \<longleftrightarrow> ds ! i \<in> set es" if "i < length ds" for i
    using that assms by (simp add: in_mask_bit bits_def bit_horner_sum_bit_iff)
  then have "{ds ! i | i. i < length ds \<and> in_mask bits i} = set es" using es(2) by (auto simp: in_set_conv_nth) (metis in_set_conv_nth subsetD)
  then have "cuboid_of (map snd (filter (\<lambda>(i, _). in_mask bits i) (enumerate 0 ds))) = c"
    unfolding es(1) cuboid_of_def set_masked by simp
  ultimately show "c \<in> set (lattice_all ds)" unfolding lattice_all_def set_lattice_over set_map by force
qed

text \<open>The twenty-first and later dimensions are in no cuboid.\<close>

lemma late_dimensions_are_lost:
  assumes "length ds \<le> 32" "distinct ds" "20 \<le> i" "i < length ds" "c \<in> set (lattice_all ds)"
  shows "ds ! i \<notin> set c"
proof
  assume "ds ! i \<in> set c"
  then obtain bits where bits: "bits < 2 ^ 20" "ds ! i \<in> {ds ! j | j. j < length ds \<and> in_mask bits j}"
    using assms(3-5) unfolding lattice_all_def set_lattice_over set_map by (auto simp: cuboid_of_def set_masked simp flip: set_map)
  then have "in_mask bits i" using assms(2,4) by (auto simp: nth_eq_iff_index_eq)
  moreover have "bits < 2 ^ i" using bits(1) assms(3) by (meson less_le_trans one_le_numeral power_increasing)
  ultimately show False using assms(1,4) by (simp add: in_mask_bit bit_iff_odd)
qed

end
