(* ===== verification/Spec2Isabelle.thy ===== *)
theory Spec2Isabelle
  imports Prelude Positions Ordered_Maps Codes Decimal Splice Leases Schema_Model
    Tier_Policy Tier_Encode Tier_Verify Tier_Verified Tier_Registry Tier_Unify Tier_Quarantine
    Tier_Machine Tier_Command
    Cdc_Model Cdc_Decode Batching Onboarding Evolution Pipeline Capture Routing Reconcile Backfill
    Slot_Safety Authz Secured Audit_Chain Audit_Keys
    Delta_Replay Delta_Log Delta_Checkpoint Delta_History Date_Axis Floats Column_Stats
    Graph_Csr Graph_Traverse Graph_Components Clone_Lineage
    Compaction Maintain Maintain_Safe Cube_Hierarchy Cube_Lattice
begin

text \<open>
  A verification development for Sankhya, a warehouse that follows a PostgreSQL source through logical
  replication, keeps its tables as versioned column files, serves them through a query engine under a policy, and
  archives old ranges to a cold tier. The program is a workspace of Rust crates below
  \<^verbatim>\<open>src/crates\<close>; the theories here translate its decision-making code, crate by
  crate, and prove what that code promises. Paths below are relative to \<^verbatim>\<open>src/crates\<close>.

  \<^bold>\<open>How the parts interact.\<close> Bytes of the replication stream are decoded to messages
  (\<open>Cdc_Decode\<close>); the pipeline routes each message to the batcher of its table, onboarding tables it meets and adopting
  changes of shape (\<open>Pipeline\<close>, \<open>Onboarding\<close>, \<open>Evolution\<close>); a batcher holds changes until
  their transaction commits and hands out batches (\<open>Batching\<close>), which the pipeline publishes to the
  table's log (\<open>Capture\<close>). A snapshot of the past is joined to that stream (\<open>Backfill\<close>) and
  the result measured against the source (\<open>Reconcile\<close>); the slot that feeds the stream is watched by a ladder
  of escalations (\<open>Slot_Safety\<close>). A read is planned over the tiers that hold parts of a
  table (\<open>Splice\<close>), pins what it reads (\<open>Leases\<close>), and is restricted to what a policy
  grants (\<open>Authz\<close>, \<open>Secured\<close>). Old ranges move to an archive: a policy says which (\<open>Tier_Policy\<close>), a digest of
  both sides proves the copy (\<open>Tier_Encode\<close>, \<open>Tier_Verify\<close>), a journalled machine purges the source
  (\<open>Tier_Machine\<close>, \<open>Tier_Command\<close>), a registry records what is archived (\<open>Tier_Registry\<close>) and reads span
  both tiers (\<open>Tier_Unify\<close>, \<open>Tier_Quarantine\<close>). Maintenance merges the
  files of a table and reclaims what no reader, snapshot or clone needs (\<open>Compaction\<close>, \<open>Maintain\<close>).

  \<^bold>\<open>Theories and the code they model.\<close>

  \<^item> \<open>Prelude\<close>: machine integers with the saturating and checked operations of Rust, iterator
    functions, trimming and splitting of texts, families of intervals. \<open>Ordered_Maps\<close>:
    \<open>BTreeMap\<close>. \<open>Codes\<close>: big-endian and length-prefixed encodings and the locale
    \<open>prefix_code\<close> that every hashed encoding of the program interprets. \<open>Decimal\<close>: decimal numerals.
  \<^item> \<open>Positions\<close>: \<^verbatim>\<open>sankhya-types/src/position.rs\<close>, \<^verbatim>\<open>temporal.rs\<close>.
  \<^item> \<open>Splice\<close>: \<^verbatim>\<open>sankhya-plan/src/splice.rs\<close>, \<^verbatim>\<open>session.rs\<close>. The greedy planner covers
    every position exactly once, answers whenever an answer exists, uses the fewest tiers and
    refuses for the reason it gives.
  \<^item> \<open>Leases\<close>: \<^verbatim>\<open>sankhya-leases/src/lib.rs\<close>, once as operations and once as the atomic steps of
    concurrent readers and sweepers; invariants hold in every interleaving, of sequentially consistent memory.
  \<^item> \<open>Schema_Model\<close>, \<open>Onboarding\<close>, \<open>Evolution\<close>: \<^verbatim>\<open>sankhya-schema/src\<close>, \<^verbatim>\<open>model.rs\<close>, \<^verbatim>\<open>mapping.rs\<close>,
    \<^verbatim>\<open>naming.rs\<close>, \<^verbatim>\<open>onboard.rs\<close>, \<^verbatim>\<open>evolve.rs\<close>.
  \<^item> \<open>Tier_Policy\<close> to \<open>Tier_Command\<close>: \<^verbatim>\<open>sankhya-tiering/src\<close>, every module but \<^verbatim>\<open>evidence.rs\<close>. A verified archive
    holds the source, cell for cell, barring a collision of SHA-256; no row is claimed twice; a
    purge resumes where it stopped and destroys only after it verified.
  \<^item> \<open>Cdc_Model\<close>, \<open>Cdc_Decode\<close>: \<^verbatim>\<open>sankhya-cdc-model/src/event.rs\<close>, \<^verbatim>\<open>decode.rs\<close>, against a reference encoder of the
    wire format. \<open>Batching\<close>: \<^verbatim>\<open>sankhya-cdc-apply/src/mutation.rs\<close>, \<^verbatim>\<open>batch.rs\<close>.
  \<^item> \<open>Pipeline\<close>, \<open>Routing\<close>, \<open>Capture\<close>, \<open>Reconcile\<close>, \<open>Backfill\<close>: \<^verbatim>\<open>sankhya-ingest/src\<close>. Over any sessions, restarts and failed
    publishes the log holds each source row once.
  \<^item> \<open>Slot_Safety\<close>: \<^verbatim>\<open>sankhya-cdc-pg/src/slot.rs\<close>, \<^verbatim>\<open>safety.rs\<close>.
  \<^item> \<open>Authz\<close>, \<open>Secured\<close>: \<^verbatim>\<open>sankhya-authz/src\<close>, \<^verbatim>\<open>sankhya-catalog/src/guard.rs\<close>, \<^verbatim>\<open>mask.rs\<close>,
    \<^verbatim>\<open>secured.rs\<close>. A scan shows only rows some grant shows, masked where every grant masks.
  \<^item> \<open>Audit_Chain\<close>, \<open>Audit_Keys\<close>: \<^verbatim>\<open>sankhya-audit/src\<close>, \<^verbatim>\<open>sankhya-server/src/audit.rs\<close>. A chain that verifies
    up to a published head is an unbroken run of the log; rotating keys loses none.
  \<^item> \<open>Delta_Replay\<close>, \<open>Delta_Log\<close>, \<open>Delta_Checkpoint\<close>, \<open>Delta_History\<close>: \<^verbatim>\<open>sankhya-table-delta/src/log.rs\<close>,
    \<^verbatim>\<open>checkpoint.rs\<close>, \<^verbatim>\<open>cache.rs\<close>, \<^verbatim>\<open>history.rs\<close>, with \<open>claim\<close> of \<^verbatim>\<open>sankhya-atomicfs\<close> as one step. Writers and
    crashes interleave as steps; no commit is lost or read torn, and neither a checkpoint nor the cache changes an answer.
  \<^item> \<open>Date_Axis\<close>: \<^verbatim>\<open>sankhya-schema/src/datedate.rs\<close>. The day arithmetic is the Gregorian calendar; partition names sort
    as dates. \<open>Floats\<close>: the order of \<open>f64\<close>. \<open>Column_Stats\<close>: \<^verbatim>\<open>sankhya-stats/src\<close>. No file is skipped that holds a row asked for; no sum called safe
    overflows.
  \<^item> \<open>Graph_Csr\<close>, \<open>Graph_Traverse\<close>, \<open>Graph_Components\<close>: \<^verbatim>\<open>sankhya-graph-algo/src\<close>, \<^verbatim>\<open>ids.rs\<close>, \<^verbatim>\<open>csr.rs\<close>, \<^verbatim>\<open>budget.rs\<close>,
    \<^verbatim>\<open>traverse.rs\<close>, \<^verbatim>\<open>components.rs\<close>. The segmented adjacency holds the edges it was given; a bounded
    traversal returns, and is breadth first; components are those of the graph.
  \<^item> \<open>Clone_Lineage\<close>: \<^verbatim>\<open>sankhya-clone/src/lineage.rs\<close>, \<^verbatim>\<open>family.rs\<close>, \<^verbatim>\<open>refuse.rs\<close>. The guard on drops is exact.
  \<^item> \<open>Cube_Hierarchy\<close>, \<open>Cube_Lattice\<close>: \<^verbatim>\<open>sankhya-cube-algo/src\<close>. A consolidation counts each leaf once; the greedy
    selection keeps what pays most within its budget, and counts only answers the measure permits.
  \<^item> \<open>Compaction\<close>, \<open>Maintain\<close>, \<open>Maintain_Safe\<close>: \<^verbatim>\<open>sankhya-maintenance/src\<close>, \<^verbatim>\<open>compaction.rs\<close>, \<^verbatim>\<open>schedule.rs\<close>,
    \<^verbatim>\<open>driver.rs\<close>, \<^verbatim>\<open>execute.rs\<close>, \<^verbatim>\<open>orphans.rs\<close>, \<open>Maintainer\<close> of \<^verbatim>\<open>service.rs\<close>, and the merge of files in
    \<^verbatim>\<open>sankhya-table/src\<close>, \<^verbatim>\<open>compact.rs\<close>, \<^verbatim>\<open>write.rs\<close>. A tick is \<open>tick_table\<close>; beside writers it is two steps, its merges and their
    commit. Merging, retiring and sweeping lose no row of the table, while no writer removes a file that is being merged, and no file of a pinned version.

  \<^bold>\<open>Conventions.\<close> A struct is a record, an enum a datatype, a
  \<open>Result\<close> a sum whose left side is the error, an \<open>Option\<close> an option. \<open>u8\<close> to \<open>u128\<close> are
  words, but for the version of a commit, a \<open>nat\<close>; \<open>i64\<close> and \<open>i128\<close> are \<open>int\<close> with the range written out where the code checks or saturates; \<open>usize\<close> is \<open>nat\<close>.
  A text is the list of its UTF-8 bytes. A method that changes \<open>self\<close> returns the new state. Texts that are
  only rendered for people are left out, or represented by the values they render. Every loop is a structural recursion or a fold over
  what it iterates, or a function with a termination proof; the two loops over a queue of vertices (\<open>search_loop\<close>, \<open>flood\<close>)
  run on fuel of one more than the vertices, and each theory proves that enough: a vertex is queued once.

  \<^bold>\<open>Parameters.\<close> What the code calls outside itself is an argument, with what it relies on as a named
  hypothesis and an instance that meets it: SHA-256 (no collision among the strings hashed), JSON (\<open>writes_records\<close>, \<open>writes_commit\<close>), Unicode
  lower-casing, the warehouse the pipeline commits to (\<open>store\<close>, \<open>lawful\<close>), the query engine and the
  table behind a guard (\<open>lawful_engine\<close>, \<open>lawful_provider\<close>), what a row filter means (\<open>reads_disjunction\<close>), the sorting of rows (\<open>sorts_rows\<close>: a permutation).

  \<^bold>\<open>Not modelled.\<close> Sockets, processes, files, wiring and configuration; the formats of Arrow,
  Parquet, gRPC and HTTP; floating-point numerics; the query engine's own plans. The
  components of the manifest name each part that is left out, and why.
\<close>

end
